(* ===== verification/Prelude.thy ===== *)
theory Prelude
  imports Main "HOL-Library.Word"
begin

text \<open>
  Shared vocabulary of the development: the error numbers the sources set, the C idioms
  \<open>MIN\<close>, \<open>MAX\<close> and \<open>strchr\<close>, bytes and C strings, and the theorem
  collections the component theories add to.

  A byte of the program (\<open>char\<close> or \<open>unsigned char\<close>) is an Isabelle
  \<open>char\<close>, which ranges over the 256 byte values; a NUL-terminated string is the list
  of its bytes without the terminator.
\<close>

named_theorems cbuf_defs
  \<open>the primitive definitions of the circular buffer\<close>

named_theorems hostlist_defs
  \<open>the primitive definitions of host ranges and host lists\<close>

section \<open>Errors\<close>

text \<open>The values of \<open>errno\<close> that the modelled sources set or test.\<close>

datatype errno =
  EINVAL | ENOSPC | ENOMEM | ERANGE | ESRCH | EAGAIN | EOTHER nat

text \<open>
  An operation that returns \<open>-1\<close> and sets \<open>errno\<close> returns \<open>Inl e\<close>;
  one that returns a non-negative count returns \<open>Inr n\<close>.
\<close>

type_synonym 'a result = "errno + 'a"

section \<open>Bytes and C strings\<close>

type_synonym byte = char

definition NUL :: byte where
  "NUL = CHR 0x00"

definition LF :: byte where
  "LF = CHR 0x0A"

text \<open>
  \<open>strchr(s, c) != NULL\<close>. The C function also finds the terminator; every caller in
  the sources tests \<open>c != '\<emptyset>'\<close> first, so only the characters of the string matter.
\<close>

abbreviation strchr :: "string \<Rightarrow> char \<Rightarrow> bool" where
  "strchr s c \<equiv> c \<in> set s"

text \<open>\<open>strlen\<close> of a memory block: the bytes before the first NUL.\<close>

definition cstr :: "byte list \<Rightarrow> string" where
  "cstr bs = takeWhile (\<lambda>b. b \<noteq> NUL) bs"

lemma LF_neq_NUL [simp]: "LF \<noteq> NUL" "NUL \<noteq> LF"
  by (simp_all add: LF_def NUL_def)

lemma cstr_id [simp]: "NUL \<notin> set bs \<Longrightarrow> cstr bs = bs"
  by (auto simp: cstr_def takeWhile_eq_all_conv)

section \<open>Lists\<close>

lemma take_last_append:
  "length ys \<le> n \<Longrightarrow>
   drop (length (xs @ ys) - n) (xs @ ys) = drop (length xs + length ys - n) xs @ ys"
  by simp

lemma list_all_drop [intro]: "list_all P xs \<Longrightarrow> list_all P (drop n xs)"
  by (meson list_all_iff in_set_dropD)

lemma list_all_take [intro]: "list_all P xs \<Longrightarrow> list_all P (take n xs)"
  by (meson list_all_iff in_set_takeD)

text \<open>The bytes up to and including the first one that satisfies \<open>P\<close>.\<close>

fun upto_first :: "('a \<Rightarrow> bool) \<Rightarrow> 'a list \<Rightarrow> 'a list option" where
  "upto_first P [] = None"
| "upto_first P (x # xs) = (if P x then Some [x] else map_option ((#) x) (upto_first P xs))"

lemma upto_first_SomeD:
  "upto_first P xs = Some ys \<Longrightarrow> ys \<noteq> [] \<and> P (last ys) \<and> list_all (\<lambda>x. \<not> P x) (butlast ys)
     \<and> length ys \<le> length xs \<and> ys = take (length ys) xs"
  by (induction P xs arbitrary: ys rule: upto_first.induct) (auto split: if_splits)

lemma upto_first_None_iff: "upto_first P xs = None \<longleftrightarrow> list_all (\<lambda>x. \<not> P x) xs"
  by (induction P xs rule: upto_first.induct) auto

end
