(* ===== verification/Ring.thy ===== *)
theory Ring
  imports Prelude
begin

text \<open>
  Arithmetic of a circular byte array, independent of the buffer that uses it: reading the
  array at an index taken modulo its length (\<open>ring\<close>, \<open>window\<close>), copying a block
  into it (\<open>blit\<close>, the \<open>memcpy\<close> of the sources) and writing a byte sequence
  around it (\<open>put\<close>). The lemma \<open>window_put\<close> is the one every write proof
  rests on: what the last \<open>h\<close> bytes before the write position are afterwards.
\<close>

section \<open>Reading around the array\<close>

definition ring :: "'a list \<Rightarrow> int \<Rightarrow> 'a" where
  "ring d i = d ! nat (i mod int (length d))"

definition window :: "'a list \<Rightarrow> int \<Rightarrow> nat \<Rightarrow> 'a list" where
  "window d i n = map (\<lambda>k. ring d (i + int k)) [0..<n]"

lemma ring_mod [simp]: "ring d (i mod int (length d)) = ring d i"
  by (simp add: ring_def)

lemma ring_add_mod [simp]: "ring d (i mod int (length d) + k) = ring d (i + k)"
  by (simp add: ring_def mod_add_left_eq)

lemma ring_inside: "0 \<le> i \<Longrightarrow> i < int (length d) \<Longrightarrow> ring d i = d ! nat i"
  by (simp add: ring_def)

lemma length_window [simp]: "length (window d i n) = n"
  by (simp add: window_def)

lemma window_0 [simp]: "window d i 0 = []"
  by (simp add: window_def)

lemma nth_window [simp]: "k < n \<Longrightarrow> window d i n ! k = ring d (i + int k)"
  by (simp add: window_def)

lemma window_mod [simp]: "window d (i mod int (length d)) n = window d i n"
  by (simp add: window_def)

lemma window_add: "window d i (m + n) = window d i m @ window d (i + int m) n"
  by (rule nth_equalityI) (auto simp: nth_append algebra_simps of_nat_diff)

lemma take_window: "m \<le> n \<Longrightarrow> take m (window d i n) = window d i m"
  by (rule nth_equalityI) auto

lemma drop_window: "m \<le> n \<Longrightarrow> drop m (window d i n) = window d (i + int m) (n - m)"
  by (rule nth_equalityI) (auto simp: algebra_simps)

lemma window_cong_mod:
  "i mod int (length d) = j mod int (length d) \<Longrightarrow> window d i n = window d j n"
  by (metis window_mod)

lemma window_slice:
  assumes "0 \<le> i" "nat i + n \<le> length d"
  shows "take n (drop (nat i) d) = window d i n"
  by (rule nth_equalityI) (use assms in \<open>auto simp: ring_def nat_add_distrib\<close>)

lemma window_Suc: "window d i (Suc n) = ring d i # window d (i + 1) n"
  using window_add [of d i 1 n] by (simp add: window_def)

lemma window_snoc: "window d i (Suc n) = window d i n @ [ring d (i + int n)]"
  by (simp add: window_def)

section \<open>Writing around the array\<close>

definition blit :: "'a list \<Rightarrow> int \<Rightarrow> 'a list \<Rightarrow> 'a list" where
  "blit d i bs = take (nat i) d @ bs @ drop (nat i + length bs) d"

fun put :: "'a list \<Rightarrow> int \<Rightarrow> 'a list \<Rightarrow> 'a list" where
  "put d i [] = d"
| "put d i (b # bs) = put (d[nat (i mod int (length d)) := b]) (i + 1) bs"

lemma length_put [simp]: "length (put d i bs) = length d"
  by (induction d i bs rule: put.induct) auto

lemma length_blit [simp]: "nat i + length bs \<le> length d \<Longrightarrow> length (blit d i bs) = length d"
  by (simp add: blit_def)

lemma nth_blit:
  assumes "nat i + length bs \<le> length d" "k < length d"
  shows "blit d i bs ! k =
    (if k < nat i then d ! k else if k < nat i + length bs then bs ! (k - nat i) else d ! k)"
proof -
  have "drop (nat i + length bs) d ! (k - nat i - length bs) = d ! k"
    if "nat i + length bs \<le> k"
    using that assms by (subst nth_drop) auto
  then show ?thesis
    using assms by (auto simp: blit_def nth_append min_def)
qed

lemma put_append: "put d i (xs @ ys) = put (put d i xs) (i + int (length xs)) ys"
  by (induction d i xs rule: put.induct) (auto simp: algebra_simps)

lemma put_snoc:
  "put d i (xs @ [y]) = (put d i xs)[nat ((i + int (length xs)) mod int (length d)) := y]"
  by (simp add: put_append)

lemma put_cong_mod:
  "i mod int (length d) = j mod int (length d) \<Longrightarrow> put d i bs = put d j bs"
proof (induction bs arbitrary: d i j)
  case Nil
  then show ?case by simp
next
  case (Cons b bs)
  have "(i + 1) mod int (length d) = (j + 1) mod int (length d)"
    using Cons.prems by (rule mod_add_cong) simp
  then have "put (d[nat (j mod int (length d)) := b]) (i + 1) bs =
      put (d[nat (j mod int (length d)) := b]) (j + 1) bs"
    by (intro Cons.IH) simp
  then show ?case using Cons.prems by simp
qed

lemma put_mod [simp]: "put d (i mod int (length d)) bs = put d i bs"
  by (rule put_cong_mod) simp

lemma blit_put:
  "0 \<le> i \<Longrightarrow> nat i + length bs \<le> length d \<Longrightarrow> blit d i bs = put d i bs"
proof (induction bs rule: rev_induct)
  case Nil
  then show ?case by (simp add: blit_def)
next
  case (snoc b bs)
  have *: "nat ((i + int (length bs)) mod int (length d)) = nat i + length bs"
    using snoc.prems by (simp add: nat_add_distrib)
  have "blit d i (bs @ [b]) = (blit d i bs)[nat i + length bs := b]"
    using snoc.prems by (auto simp: blit_def list_update_append min_def Cons_nth_drop_Suc
        upd_conv_take_nth_drop simp flip: Cons_nth_drop_Suc)
  moreover have "blit d i bs = put d i bs"
    using snoc by simp
  ultimately show ?case
    by (simp only: put_snoc *)
qed

lemma ring_update:
  assumes "d \<noteq> []"
  shows "ring (d[nat (i mod int (length d)) := b]) j =
    (if j mod int (length d) = i mod int (length d) then b else ring d j)"
proof -
  have lt: "nat (k mod int (length d)) < length d" for k
    using assms by (simp add: nat_less_iff)
  have "nat (j mod int (length d)) = nat (i mod int (length d)) \<longleftrightarrow>
      j mod int (length d) = i mod int (length d)"
    using assms by (simp add: eq_nat_nat_iff)
  then show ?thesis
    using lt by (auto simp: ring_def nth_list_update)
qed

lemma mod_neq_near:
  fixes a b m :: int
  assumes "a < b" "b < a + m"
  shows "a mod m \<noteq> b mod m"
proof
  assume "a mod m = b mod m"
  then have "m dvd b - a" by (simp add: mod_eq_dvd_iff dvd_diff_commute)
  then have "m \<le> b - a" using assms by (intro zdvd_imp_le) auto
  then show False using assms by simp
qed

lemma ring_put:
  assumes "j < length d"
  shows "ring (put d e bs) (e + int (length bs) - 1 - int j) =
    (if j < length bs then bs ! (length bs - 1 - j) else ring d (e + int (length bs) - 1 - int j))"
  using assms
proof (induction bs arbitrary: j rule: rev_induct)
  case Nil
  then show ?case by simp
next
  case (snoc b bs)
  let ?p = "e + int (length bs)"
  have ne: "put d e bs \<noteq> []"
    using snoc.prems by (metis length_put length_0_conv not_less_zero)
  have upd: "ring (put d e (bs @ [b])) i =
      (if i mod int (length d) = ?p mod int (length d) then b else ring (put d e bs) i)" for i
    using ring_update [OF ne, of ?p b i] by (simp add: put_snoc)
  show ?case
  proof (cases j)
    case 0
    then show ?thesis by (simp add: upd nth_append)
  next
    case (Suc k)
    have "(?p - int (Suc k)) mod int (length d) \<noteq> ?p mod int (length d)"
      using snoc.prems Suc by (intro mod_neq_near) auto
    moreover have "ring (put d e bs) (?p - 1 - int k) =
        (if k < length bs then bs ! (length bs - 1 - k) else ring d (?p - 1 - int k))"
      using snoc.prems Suc by (intro snoc.IH) auto
    ultimately show ?thesis
      using Suc by (auto simp: upd nth_append algebra_simps)
  qed
qed

lemma window_put:
  assumes "h \<le> length d"
  shows "window (put d e bs) (e + int (length bs) - int h) h =
    (if h \<le> length bs then drop (length bs - h) bs
     else window d (e + int (length bs) - int h) (h - length bs) @ bs)"
proof (rule nth_equalityI)
  fix k
  assume "k < length (window (put d e bs) (e + int (length bs) - int h) h)"
  then have k: "k < h" by simp
  define j where "j = h - 1 - k"
  have j: "j < length d" "e + int (length bs) - int h + int k = e + int (length bs) - 1 - int j"
    using k assms by (auto simp: j_def)
  have eq: "window (put d e bs) (e + int (length bs) - int h) h ! k =
    (if j < length bs then bs ! (length bs - 1 - j) else ring d (e + int (length bs) - 1 - int j))"
    using k by (simp only: nth_window j(2) ring_put [OF j(1)])
  show "window (put d e bs) (e + int (length bs) - int h) h ! k =
    (if h \<le> length bs then drop (length bs - h) bs
     else window d (e + int (length bs) - int h) (h - length bs) @ bs) ! k"
  proof (cases "j < length bs")
    case True
    show ?thesis
    proof (cases "h \<le> length bs")
      case True
      then have "length bs - 1 - j = length bs - h + k" "j < length bs"
        using k by (auto simp: j_def)
      then show ?thesis using True eq by simp
    next
      case False
      then have "length bs - 1 - j = k - (h - length bs)" "\<not> k < h - length bs"
        using True k by (auto simp: j_def)
      then show ?thesis using True False eq by (simp add: nth_append)
    qed
  next
    case False
    then have "\<not> h \<le> length bs" "k < h - length bs"
      using k by (auto simp: j_def)
    then show ?thesis
      unfolding eq using False by (simp only: nth_append length_window nth_window j(2) if_True if_False)
  qed
qed auto

end
