(* ===== verification/Cbuf.thy ===== *)
theory Cbuf
  imports Ring
begin

text \<open>
  The circular buffer of \<open>src/src/pdsh/cbuf.c\<close>: its state, the validity predicate the
  code asserts around every operation, allocation, growth, and the internal copy loops
  \<open>cbuf_writer\<close>, \<open>cbuf_reader\<close>, \<open>cbuf_replayer\<close>, \<open>cbuf_dropper\<close>.

  The C struct is the record \<open>cbuf\<close>; its \<open>int\<close> fields are HOL integers (the
  operations keep them between 0 and \<open>maxsize + 17\<close>, lemma \<open>cbuf_valid_range\<close>), and
  \<open>data\<close> is the array \<open>data[0..size]\<close> without the magic cookies that debug
  builds put around it. The build modelled is the one with assertions, whose
  \<open>alloc\<close> counts the two cookies.

  Memory and file descriptors are the program's environment: \<open>mem\<close> says which
  allocation requests succeed; a descriptor being read is the list of outcomes of the
  successive \<open>read(2)\<close> calls, one being written the outcomes of \<open>write(2)\<close> and
  the bytes it has taken.
\<close>

section \<open>State\<close>

definition CBUF_CHUNK :: int where
  [cbuf_defs]: "CBUF_CHUNK = 1000"

definition CBUF_MAGIC_LEN :: int where
  [cbuf_defs]: "CBUF_MAGIC_LEN = 8"

datatype cbuf_overwrite_t = CBUF_NO_DROP | CBUF_WRAP_ONCE | CBUF_WRAP_MANY

record cbuf =
  alloc :: int       \<comment> \<open>bytes malloc'd, cookies included\<close>
  minsize :: int
  maxsize :: int
  bsize :: int       \<comment> \<open>\<open>size\<close>: bytes of data allocated\<close>
  used :: int        \<comment> \<open>bytes of unread data\<close>
  overwrite :: cbuf_overwrite_t
  got_wrap :: bool
  i_in :: int
  i_out :: int
  i_rep :: int
  data :: "byte list"

datatype alloc_request = StructCbuf | Bytes int

type_synonym allocator = "alloc_request \<Rightarrow> bool"

text \<open>
  The content of fresh memory is unspecified in C; no lemma below unfolds this value, so the
  theorems hold whatever \<open>malloc\<close> and \<open>realloc\<close> leave there.
\<close>

definition malloc_byte :: byte where
  "malloc_byte = NUL"

definition cbuf_is_valid :: "cbuf \<Rightarrow> bool" where
  "cbuf_is_valid cb \<longleftrightarrow>
     length (data cb) = nat (bsize cb + 1) \<and>
     alloc cb > 0 \<and> alloc cb > bsize cb \<and> bsize cb > 0 \<and>
     bsize cb \<ge> minsize cb \<and> bsize cb \<le> maxsize cb \<and> minsize cb > 0 \<and> maxsize cb > 0 \<and>
     used cb \<ge> 0 \<and> used cb \<le> bsize cb \<and>
     (got_wrap cb \<or> i_rep cb = 0) \<and>
     i_in cb \<ge> 0 \<and> i_in cb \<le> bsize cb \<and>
     i_out cb \<ge> 0 \<and> i_out cb \<le> bsize cb \<and>
     i_rep cb \<ge> 0 \<and> i_rep cb \<le> bsize cb \<and>
     (if i_in cb \<ge> i_out cb then i_rep cb > i_in cb \<or> i_rep cb \<le> i_out cb
      else i_rep cb > i_in cb \<and> i_rep cb \<le> i_out cb) \<and>
     bsize cb - used cb = (i_out cb - i_in cb - 1 + (bsize cb + 1)) mod (bsize cb + 1)"

definition cbuf_create :: "allocator \<Rightarrow> int \<Rightarrow> int \<Rightarrow> cbuf result" where
  "cbuf_create mem mins maxs =
    (if mins \<le> 0 then Inl EINVAL
     else if \<not> mem StructCbuf then Inl ENOMEM
     else
       let al = mins + 1 + 2 * CBUF_MAGIC_LEN
       in if \<not> mem (Bytes al) then Inl ENOMEM
          else Inr \<lparr>alloc = al, minsize = mins,
                    maxsize = (if maxs > mins then maxs else mins),
                    bsize = mins, used = 0, overwrite = CBUF_WRAP_MANY, got_wrap = False,
                    i_in = 0, i_out = 0, i_rep = 0,
                    data = replicate (nat (mins + 1)) malloc_byte\<rparr>)"

definition cbuf_flush :: "cbuf \<Rightarrow> cbuf" where
  "cbuf_flush cb = cb\<lparr>used := 0, got_wrap := False, i_in := 0, i_out := 0, i_rep := 0\<rparr>"

definition cbuf_size :: "cbuf \<Rightarrow> int" where
  "cbuf_size cb = bsize cb"

definition cbuf_free :: "cbuf \<Rightarrow> int" where
  "cbuf_free cb = bsize cb - used cb"

definition cbuf_used :: "cbuf \<Rightarrow> int" where
  "cbuf_used cb = used cb"

definition cbuf_reused :: "cbuf \<Rightarrow> int" where
  "cbuf_reused cb = (i_out cb - i_rep cb + (bsize cb + 1)) mod (bsize cb + 1)"

definition cbuf_is_empty :: "cbuf \<Rightarrow> bool" where
  "cbuf_is_empty cb \<longleftrightarrow> used cb = 0"

section \<open>Input and output functions\<close>

text \<open>
  \<open>cbuf_iof\<close>, the type of \<open>getf\<close> and \<open>putf\<close>. A source is asked for at most
  \<open>n\<close> bytes and gives them, or an error; a sink is offered a block and says how much of
  it was taken, or fails.
\<close>

type_synonym 's source = "'s \<Rightarrow> int \<Rightarrow> byte list result \<times> 's"
type_synonym 's sink = "'s \<Rightarrow> byte list \<Rightarrow> int result \<times> 's"

definition cbuf_get_mem :: "byte list source" where
  "cbuf_get_mem src n = (Inr (take (nat n) src), drop (nat n) src)"

definition cbuf_put_mem :: "byte list sink" where
  "cbuf_put_mem dst bs = (Inr (int (length bs)), dst @ bs)"

text \<open>One \<open>read(2)\<close>: interrupted, failed, or giving bytes (none at end of file).\<close>

datatype rd_event = RdIntr | RdErr errno | RdData "byte list"

fun cbuf_get_fd :: "rd_event list source" where
  "cbuf_get_fd [] n = (Inr [], [])"
| "cbuf_get_fd (RdIntr # es) n = cbuf_get_fd es n"
| "cbuf_get_fd (RdErr e # es) n = (Inl e, es)"
| "cbuf_get_fd (RdData bs # es) n =
     (Inr (take (nat n) bs),
      if int (length bs) \<le> n then es else RdData (drop (nat n) bs) # es)"

text \<open>One \<open>write(2)\<close>: interrupted, failed, or taking some of the bytes.\<close>

datatype wr_event = WrIntr | WrErr errno | WrAccept nat

record fd_out =
  fd_events :: "wr_event list"
  fd_bytes :: "byte list"

fun fd_put :: "wr_event list \<Rightarrow> byte list \<Rightarrow> byte list \<Rightarrow> int result \<times> fd_out" where
  "fd_put [] out bs = (Inr (int (length bs)), \<lparr>fd_events = [], fd_bytes = out @ bs\<rparr>)"
| "fd_put (WrIntr # es) out bs = fd_put es out bs"
| "fd_put (WrErr e # es) out bs = (Inl e, \<lparr>fd_events = es, fd_bytes = out\<rparr>)"
| "fd_put (WrAccept k # es) out bs =
     (Inr (int (min k (length bs))), \<lparr>fd_events = es, fd_bytes = out @ take k bs\<rparr>)"

definition cbuf_put_fd :: "fd_out sink" where
  "cbuf_put_fd fd bs = fd_put (fd_events fd) (fd_bytes fd) bs"

section \<open>Growing\<close>

text \<open>
  The sums are exact. In C they are values of type \<open>int\<close>: the definition is the code's for
  as long as \<open>alloc + n + CBUF_CHUNK\<close> and \<open>maxsize + size_meta\<close> are in its range, and where they
  are not, the assertion that the new size is larger fails. \<open>room_fits\<close> of \<open>Cbuf_Calls\<close>
  says when they are, and a sequence of calls has no result when they are not.
\<close>

definition cbuf_grow :: "allocator \<Rightarrow> cbuf \<Rightarrow> int \<Rightarrow> int \<times> cbuf" where
  "cbuf_grow mem cb n =
    (if bsize cb = maxsize cb then (0, cb)
     else
       let size_old = bsize cb;
           size_meta = alloc cb - bsize cb;
           m0 = alloc cb + n;
           m1 = m0 + (CBUF_CHUNK - m0 mod CBUF_CHUNK);
           m = min m1 (maxsize cb + size_meta)
       in if \<not> mem (Bytes m) then (0, cb)
          else
            let sz = m - size_meta;
                d = take (nat (size_old + 1)) (data cb)
                      @ replicate (nat (sz - size_old)) malloc_byte;
                cb1 = cb\<lparr>alloc := m, bsize := sz, data := d\<rparr>;
                cb2 =
                  (if i_rep cb > i_in cb then
                     let k = size_old + 1 - i_rep cb;
                         p = sz + 1 - k
                     in cb1\<lparr>data := blit d p (take (nat k) (drop (nat (i_rep cb)) d)),
                             i_out := (if i_out cb \<ge> i_rep cb
                                       then i_out cb + (p - i_rep cb) else i_out cb),
                             i_rep := p\<rparr>
                   else cb1)
            in (sz - size_old, cb2))"

text \<open>\<open>cbuf_shrink\<close> tests whether it has work to do and then does nothing.\<close>

definition cbuf_shrink :: "cbuf \<Rightarrow> int \<times> cbuf" where
  "cbuf_shrink cb =
    (if bsize cb = minsize cb then (0, cb)
     else if bsize cb - used cb \<le> CBUF_CHUNK then (0, cb)
     else (0, cb))"

definition cbuf_dropper :: "cbuf \<Rightarrow> int \<Rightarrow> cbuf" where
  "cbuf_dropper cb len =
    (let cb1 = cb\<lparr>used := used cb - len, i_out := (i_out cb + len) mod (bsize cb + 1)\<rparr>
     in if bsize cb1 - used cb1 > CBUF_CHUNK \<and> bsize cb1 > minsize cb1
        then snd (cbuf_shrink cb1) else cb1)"

section \<open>The copy loops\<close>

text \<open>
  The loop of \<open>cbuf_writer\<close>: \<open>d\<close> the array, \<open>i\<close> the index \<open>i_dst\<close>,
  \<open>m\<close> the last answer of \<open>getf\<close>. In C the loop is left when \<open>n != m\<close>;
  \<open>n\<close> is positive in a valid buffer, so an answer \<open>m \<le> 0\<close> always leaves it.
\<close>

function writer_loop ::
  "'s source \<Rightarrow> 's \<Rightarrow> byte list \<Rightarrow> int \<Rightarrow> int \<Rightarrow> int result
    \<Rightarrow> 's \<times> byte list \<times> int \<times> int \<times> int result" where
  "writer_loop getf src d i nleft m =
    (if nleft \<le> 0 then (src, d, i, nleft, m)
     else
       let n = min nleft (int (length d) - i)
       in case getf src n of
            (Inl e, src') \<Rightarrow> (src', d, i, nleft, Inl e)
          | (Inr bs, src') \<Rightarrow>
              let k = int (length bs)
              in if k > 0 then
                   let d' = blit d i bs;
                       nleft' = nleft - k;
                       i' = (i + k) mod int (length d)
                   in if n \<noteq> k then (src', d', i', nleft', Inr k)
                      else writer_loop getf src' d' i' nleft' (Inr k)
                 else (src', d, i, nleft, Inr k))"
  by pat_completeness auto
termination
  by (relation "measure (\<lambda>(getf, src, d, i, nleft, m). nat nleft)") auto

declare writer_loop.simps [simp del]

text \<open>
  The end of \<open>cbuf_writer\<close> and \<open>cbuf_copier\<close>: the indices after \<open>n\<close> bytes
  have been stored up to \<open>i_dst\<close>, \<open>nfree\<close> being the room there was.
\<close>

definition cbuf_advance :: "cbuf \<Rightarrow> int \<Rightarrow> int \<Rightarrow> int \<Rightarrow> cbuf" where
  "cbuf_advance dst nfree n i_dst =
    (let nrepl = (i_out dst - i_rep dst + (bsize dst + 1)) mod (bsize dst + 1);
         dst1 = dst\<lparr>used := min (used dst + n) (bsize dst), i_in := i_dst\<rparr>;
         dst2 =
           (if n > nfree - nrepl
            then dst1\<lparr>got_wrap := True, i_rep := (i_in dst1 + 1) mod (bsize dst + 1)\<rparr>
            else dst1)
     in if n > nfree then dst2\<lparr>i_out := i_rep dst2\<rparr> else dst2)"

definition cbuf_writer ::
  "allocator \<Rightarrow> cbuf \<Rightarrow> int \<Rightarrow> 's source \<Rightarrow> 's \<Rightarrow> int
    \<Rightarrow> int result \<times> int \<times> 's \<times> cbuf" where
  "cbuf_writer mem dst len getf src ndropped =
    (let nfree0 = bsize dst - used dst;
         (grown, dst) =
           (if len > nfree0 \<and> bsize dst < maxsize dst
            then cbuf_grow mem dst (len - nfree0) else (0, dst));
         nfree = nfree0 + grown;
         len =
           (case overwrite dst of
              CBUF_NO_DROP \<Rightarrow> min len (bsize dst - used dst)
            | CBUF_WRAP_ONCE \<Rightarrow> min len (bsize dst)
            | CBUF_WRAP_MANY \<Rightarrow> len)
     in if overwrite dst = CBUF_NO_DROP \<and> len = 0 then (Inl ENOSPC, ndropped, src, dst)
        else
          let (src', d', i_dst, nleft, m) =
                writer_loop getf src (data dst) (i_in dst) len (Inr 0);
              n = len - nleft;
              dst1 = dst\<lparr>data := d'\<rparr>
          in if n = 0 then (m, ndropped, src', dst1)
             else (Inr n, max 0 (n - nfree), src', cbuf_advance dst1 nfree n i_dst))"

text \<open>The loop shared by \<open>cbuf_reader\<close> and \<open>cbuf_replayer\<close>.\<close>

function reader_loop ::
  "'s sink \<Rightarrow> 's \<Rightarrow> byte list \<Rightarrow> int \<Rightarrow> int \<Rightarrow> int result \<Rightarrow> 's \<times> int \<times> int result" where
  "reader_loop putf dst d i nleft m =
    (if nleft \<le> 0 then (dst, nleft, m)
     else
       let n = min nleft (int (length d) - i)
       in case putf dst (take (nat n) (drop (nat i) d)) of
            (Inl e, dst') \<Rightarrow> (dst', nleft, Inl e)
          | (Inr k, dst') \<Rightarrow>
              if k > 0 then
                let nleft' = nleft - k;
                    i' = (i + k) mod int (length d)
                in if n \<noteq> k then (dst', nleft', Inr k)
                   else reader_loop putf dst' d i' nleft' (Inr k)
              else (dst', nleft, Inr k))"
  by pat_completeness auto
termination
  by (relation "measure (\<lambda>(putf, dst, d, i, nleft, m). nat nleft)") auto

declare reader_loop.simps [simp del]

definition cbuf_reader :: "cbuf \<Rightarrow> int \<Rightarrow> 's sink \<Rightarrow> 's \<Rightarrow> int result \<times> 's" where
  "cbuf_reader src len putf dst =
    (let len = min len (used src)
     in if len = 0 then (Inr 0, dst)
        else
          let (dst', nleft, m) = reader_loop putf dst (data src) (i_out src) len (Inr 0);
              n = len - nleft
          in if n = 0 then (m, dst') else (Inr n, dst'))"

definition cbuf_replayer :: "cbuf \<Rightarrow> int \<Rightarrow> 's sink \<Rightarrow> 's \<Rightarrow> int result \<times> 's" where
  "cbuf_replayer src len putf dst =
    (let n = (i_out src - i_rep src + (bsize src + 1)) mod (bsize src + 1);
         len = min len n
     in if len = 0 then (Inr 0, dst)
        else
          let i_src = (i_out src - len + (bsize src + 1)) mod (bsize src + 1);
              (dst', nleft, m) = reader_loop putf dst (data src) i_src len (Inr 0);
              n = len - nleft
          in if n = 0 then (m, dst') else (Inr n, dst'))"

end
