(* ===== verification/Cbuf_Content.thy ===== *)
theory Cbuf_Content
  imports Cbuf
begin

text \<open>
  What a circular buffer holds, as lists of bytes: the unread data and the replayable data
  before it. The validity the code asserts is restated as modular equations
  (\<open>cbuf_validI\<close>, \<open>cbuf_valid_geometry\<close>), and creation, growth, dropping and
  rewinding are described by what they do to the two lists.
\<close>

section \<open>Abstraction\<close>

definition unread :: "cbuf \<Rightarrow> byte list" where
  "unread cb = window (data cb) (i_out cb) (nat (used cb))"

definition replayable :: "cbuf \<Rightarrow> byte list" where
  "replayable cb = window (data cb) (i_rep cb) (nat (cbuf_reused cb))"

text \<open>Everything the buffer remembers, oldest byte first.\<close>

definition history :: "cbuf \<Rightarrow> byte list" where
  "history cb = window (data cb) (i_rep cb) (nat (cbuf_reused cb) + nat (used cb))"

lemma length_unread [simp]: "length (unread cb) = nat (used cb)"
  by (simp add: unread_def)

lemma length_replayable [simp]: "length (replayable cb) = nat (cbuf_reused cb)"
  by (simp add: replayable_def)

section \<open>Geometry\<close>

lemma int_mod_cases:
  fixes x m :: int
  shows "0 \<le> x \<Longrightarrow> x < m \<Longrightarrow> x mod m = x"
    and "m \<le> x \<Longrightarrow> x < 2 * m \<Longrightarrow> x mod m = x - m"
    and "- m \<le> x \<Longrightarrow> x < 0 \<Longrightarrow> x mod m = x + m"
proof -
  show "0 \<le> x \<Longrightarrow> x < m \<Longrightarrow> x mod m = x"
    by (rule mod_pos_pos_trivial)
  show "m \<le> x \<Longrightarrow> x < 2 * m \<Longrightarrow> x mod m = x - m"
    using mod_pos_pos_trivial [of "x - m" m] by (simp add: minus_mod_self2)
  show "- m \<le> x \<Longrightarrow> x < 0 \<Longrightarrow> x mod m = x + m"
    using mod_pos_pos_trivial [of "x + m" m] by simp
qed

lemma mod_sub_left: "(a mod m - b + m) mod m = (a - b) mod m" for a b m :: int
  by (simp add: mod_diff_left_eq)

lemma mod_add_left: "(a mod m + b) mod m = (a + b) mod m" for a b m :: int
  by (rule mod_add_left_eq)

lemma cbuf_valid_length: "cbuf_is_valid cb \<Longrightarrow> int (length (data cb)) = bsize cb + 1"
  by (simp add: cbuf_is_valid_def)

lemma cbuf_valid_range:
  assumes "cbuf_is_valid cb"
  shows "0 < bsize cb" "bsize cb \<le> maxsize cb" "0 < minsize cb" "minsize cb \<le> bsize cb"
    "0 \<le> used cb" "used cb \<le> bsize cb"
    "0 \<le> i_in cb" "i_in cb \<le> bsize cb" "0 \<le> i_out cb" "i_out cb \<le> bsize cb"
    "0 \<le> i_rep cb" "i_rep cb \<le> bsize cb" "bsize cb < alloc cb"
    "got_wrap cb \<or> i_rep cb = 0"
  using assms by (auto simp: cbuf_is_valid_def)

lemma cbuf_index_inside:
  assumes "cbuf_is_valid cb"
  shows "0 \<le> x mod (bsize cb + 1)" "x mod (bsize cb + 1) < int (length (data cb))"
    "x mod (bsize cb + 1) \<le> bsize cb"
  using pos_mod_sign [of "bsize cb + 1" x] pos_mod_bound [of "bsize cb + 1" x]
    cbuf_valid_range(1) [OF assms] cbuf_valid_length [OF assms]
  by linarith+

lemma reused_cases:
  assumes "0 \<le> i_out cb" "i_out cb \<le> bsize cb" "0 \<le> i_rep cb" "i_rep cb \<le> bsize cb"
  shows "cbuf_reused cb =
    (if i_rep cb \<le> i_out cb then i_out cb - i_rep cb else i_out cb - i_rep cb + (bsize cb + 1))"
  unfolding cbuf_reused_def using assms by (auto simp: int_mod_cases)

lemma used_cases:
  assumes "0 \<le> i_out cb" "i_out cb \<le> bsize cb" "0 \<le> i_in cb" "i_in cb \<le> bsize cb"
  shows "bsize cb - used cb = (i_out cb - i_in cb - 1 + (bsize cb + 1)) mod (bsize cb + 1)
    \<longleftrightarrow> used cb =
      (if i_out cb \<le> i_in cb then i_in cb - i_out cb else i_in cb - i_out cb + (bsize cb + 1))"
proof (cases "i_out cb \<le> i_in cb")
  case True
  then have "(i_out cb - i_in cb - 1 + (bsize cb + 1)) mod (bsize cb + 1)
      = i_out cb - i_in cb + bsize cb"
    using assms by (simp add: int_mod_cases)
  then show ?thesis using True by auto
next
  case False
  then have "(i_out cb - i_in cb - 1 + (bsize cb + 1)) mod (bsize cb + 1)
      = i_out cb - i_in cb - 1"
    using assms by (subst int_mod_cases(2)) auto
  then show ?thesis using False by auto
qed

text \<open>The state of a valid buffer as modular equations from the write index.\<close>

lemma cbuf_valid_geometry:
  assumes "cbuf_is_valid cb"
  shows "i_out cb = (i_in cb - used cb) mod (bsize cb + 1)"
    and "i_rep cb = (i_out cb - cbuf_reused cb) mod (bsize cb + 1)"
    and "0 \<le> cbuf_reused cb" and "used cb + cbuf_reused cb \<le> bsize cb"
proof -
  note r = cbuf_valid_range [OF assms]
  have u: "used cb =
      (if i_out cb \<le> i_in cb then i_in cb - i_out cb else i_in cb - i_out cb + (bsize cb + 1))"
    using assms r by (subst used_cases [symmetric]) (auto simp: cbuf_is_valid_def)
  note v = reused_cases [OF r(9,10,11,12)]
  have d: "if i_in cb \<ge> i_out cb then i_rep cb > i_in cb \<or> i_rep cb \<le> i_out cb
      else i_rep cb > i_in cb \<and> i_rep cb \<le> i_out cb"
    using assms by (simp add: cbuf_is_valid_def)
  show "i_out cb = (i_in cb - used cb) mod (bsize cb + 1)"
    using u r by (auto simp: int_mod_cases split: if_splits)
  show "i_rep cb = (i_out cb - cbuf_reused cb) mod (bsize cb + 1)"
    using v r by (auto simp: int_mod_cases split: if_splits)
  show "0 \<le> cbuf_reused cb"
    unfolding cbuf_reused_def using r by simp
  show "used cb + cbuf_reused cb \<le> bsize cb"
    using u v d r by (auto split: if_splits)
qed

lemma mod_diff_cases:
  fixes a u m :: int
  assumes "0 \<le> a" "a < m" "0 \<le> u" "u < m"
  shows "(a - u) mod m = (if u \<le> a then a - u else a - u + m)"
  using assms by (auto simp: int_mod_cases)

lemma cbuf_validI:
  assumes "int (length (data cb)) = bsize cb + 1" "bsize cb < alloc cb" "0 < bsize cb"
    "minsize cb \<le> bsize cb" "bsize cb \<le> maxsize cb" "0 < minsize cb"
    "0 \<le> i_in cb" "i_in cb \<le> bsize cb" "0 \<le> used cb" "0 \<le> r" "used cb + r \<le> bsize cb"
    "i_out cb = (i_in cb - used cb) mod (bsize cb + 1)"
    "i_rep cb = (i_out cb - r) mod (bsize cb + 1)"
    "got_wrap cb \<or> i_rep cb = 0"
  shows "cbuf_is_valid cb" and "cbuf_reused cb = r"
proof -
  let ?S = "bsize cb + 1"
  have o: "0 \<le> i_out cb" "i_out cb < ?S"
    unfolding assms(12) using assms(3) by (simp_all del: zle_add1_eq_le)
  have p: "0 \<le> i_rep cb" "i_rep cb < ?S"
    unfolding assms(13) using assms(3) by (simp_all del: zle_add1_eq_le)
  have i_out: "i_out cb =
      (if used cb \<le> i_in cb then i_in cb - used cb else i_in cb - used cb + ?S)"
    unfolding assms(12) using assms by (intro mod_diff_cases) auto
  have i_rep: "i_rep cb = (if r \<le> i_out cb then i_out cb - r else i_out cb - r + ?S)"
    unfolding assms(13) using assms o by (intro mod_diff_cases) auto
  show r: "cbuf_reused cb = r"
    using reused_cases [of cb] o p i_rep assms(10,11,9) by (auto split: if_splits)
  have "used cb =
      (if i_out cb \<le> i_in cb then i_in cb - i_out cb else i_in cb - i_out cb + ?S)"
    using i_out o assms by (auto split: if_splits)
  then have "bsize cb - used cb = (i_out cb - i_in cb - 1 + ?S) mod ?S"
    using used_cases [of cb] o assms by simp
  moreover have "if i_in cb \<ge> i_out cb then i_rep cb > i_in cb \<or> i_rep cb \<le> i_out cb
      else i_rep cb > i_in cb \<and> i_rep cb \<le> i_out cb"
    using i_out i_rep assms by (auto split: if_splits)
  moreover have "length (data cb) = nat (bsize cb + 1)"
    using assms(1) by simp
  ultimately show "cbuf_is_valid cb"
    unfolding cbuf_is_valid_def using assms(2-11,14) o p by simp
qed

section \<open>The lists and the indices\<close>

lemma unread_eq:
  assumes "cbuf_is_valid cb"
  shows "unread cb = window (data cb) (i_in cb - used cb) (nat (used cb))"
  unfolding unread_def
  by (rule window_cong_mod)
     (simp add: cbuf_valid_length [OF assms] cbuf_valid_geometry(1) [OF assms])

lemma replayable_eq:
  assumes "cbuf_is_valid cb"
  shows "replayable cb =
    window (data cb) (i_in cb - used cb - cbuf_reused cb) (nat (cbuf_reused cb))"
  unfolding replayable_def
  by (rule window_cong_mod)
     (simp add: cbuf_valid_length [OF assms] cbuf_valid_geometry(1,2) [OF assms] mod_simps)

lemma history_eq:
  assumes "cbuf_is_valid cb"
  shows "history cb = window (data cb) (i_in cb - used cb - cbuf_reused cb)
    (nat (cbuf_reused cb) + nat (used cb))"
  unfolding history_def
  by (rule window_cong_mod)
     (simp add: cbuf_valid_length [OF assms] cbuf_valid_geometry(1,2) [OF assms] mod_simps)

lemma history_append:
  assumes "cbuf_is_valid cb"
  shows "history cb = replayable cb @ unread cb"
proof -
  note g = cbuf_valid_geometry [OF assms]
  show ?thesis
    unfolding history_eq [OF assms] replayable_eq [OF assms] unread_eq [OF assms]
    using g(3) by (simp add: window_add)
qed

lemma length_history:
  "cbuf_is_valid cb \<Longrightarrow> length (history cb) = nat (cbuf_reused cb + used cb)"
  using cbuf_valid_geometry(3) [of cb] cbuf_valid_range(5) [of cb]
  by (simp add: history_def nat_add_distrib)

lemma unread_by_history:
  "cbuf_is_valid cb \<Longrightarrow> unread cb = drop (nat (cbuf_reused cb)) (history cb)"
  by (simp add: history_append)

section \<open>Creation and flushing\<close>

lemma cbuf_create_valid:
  "cbuf_create mem mins maxs = Inr cb \<Longrightarrow> cbuf_is_valid cb \<and> unread cb = [] \<and> replayable cb = []"
  by (auto simp: cbuf_create_def cbuf_defs cbuf_is_valid_def unread_def replayable_def
      cbuf_reused_def Let_def split: if_splits)

lemma cbuf_flush_valid:
  "cbuf_is_valid cb \<Longrightarrow> cbuf_is_valid (cbuf_flush cb)"
  by (auto simp: cbuf_flush_def cbuf_is_valid_def)

lemma cbuf_flush_empty: "unread (cbuf_flush cb) = []"
  by (simp add: cbuf_flush_def unread_def)

section \<open>Dropping and rewinding\<close>

lemma cbuf_dropper_eq:
  "cbuf_dropper cb len = cb\<lparr>used := used cb - len, i_out := (i_out cb + len) mod (bsize cb + 1)\<rparr>"
  by (simp add: cbuf_dropper_def cbuf_shrink_def Let_def)

lemma cbuf_dropper_valid:
  assumes "cbuf_is_valid cb" "0 \<le> len" "len \<le> used cb"
  shows "cbuf_is_valid (cbuf_dropper cb len)"
    and "cbuf_reused (cbuf_dropper cb len) = cbuf_reused cb + len"
proof -
  note r = cbuf_valid_range [OF assms(1)] and g = cbuf_valid_geometry [OF assms(1)]
  have "i_rep cb = ((i_out cb + len) mod (bsize cb + 1) - (cbuf_reused cb + len)) mod (bsize cb + 1)"
    by (subst g(2)) (simp add: mod_simps)
  moreover have "(i_out cb + len) mod (bsize cb + 1) = (i_in cb - (used cb - len)) mod (bsize cb + 1)"
    by (subst g(1)) (simp add: mod_simps algebra_simps)
  ultimately show "cbuf_is_valid (cbuf_dropper cb len)"
    and "cbuf_reused (cbuf_dropper cb len) = cbuf_reused cb + len"
    using r g(3,4) assms(2,3) cbuf_valid_length [OF assms(1)]
    by (atomize (full), intro conjI cbuf_validI [where r = "cbuf_reused cb + len"])
       (simp_all add: cbuf_dropper_eq)
qed

lemma cbuf_dropper_history:
  assumes "cbuf_is_valid cb" "0 \<le> len" "len \<le> used cb"
  shows "history (cbuf_dropper cb len) = history cb"
proof -
  note d = cbuf_dropper_valid [OF assms]
  have "nat (cbuf_reused cb + len) + nat (used cb - len) = nat (cbuf_reused cb) + nat (used cb)"
    using assms cbuf_valid_geometry(3) [OF assms(1)] by arith
  then show ?thesis
    by (simp add: history_def d) (simp add: cbuf_dropper_eq)
qed

lemma cbuf_dropper_unread:
  assumes "cbuf_is_valid cb" "0 \<le> len" "len \<le> used cb"
  shows "unread (cbuf_dropper cb len) = drop (nat len) (unread cb)"
proof -
  note d = cbuf_dropper_valid [OF assms]
  show ?thesis
    unfolding unread_by_history [OF d(1)] unread_by_history [OF assms(1)]
    using cbuf_valid_geometry(3) [OF assms(1)] assms
    by (simp add: d cbuf_dropper_history [OF assms] nat_add_distrib add.commute)
qed

text \<open>The two rewinding operations move \<open>i_out\<close> back by \<open>len\<close>.\<close>

definition cbuf_rewound :: "cbuf \<Rightarrow> int \<Rightarrow> cbuf" where
  "cbuf_rewound cb len =
     cb\<lparr>used := used cb + len, i_out := (i_out cb - len + (bsize cb + 1)) mod (bsize cb + 1)\<rparr>"

lemma cbuf_rewound_dropper:
  assumes "cbuf_is_valid cb" "0 \<le> len" "len \<le> cbuf_reused cb"
  shows "cbuf_is_valid (cbuf_rewound cb len)"
    and "cbuf_dropper (cbuf_rewound cb len) len = cb"
proof -
  note r = cbuf_valid_range [OF assms(1)] and g = cbuf_valid_geometry [OF assms(1)]
  have "i_rep cb = ((i_out cb - len + (bsize cb + 1)) mod (bsize cb + 1) - (cbuf_reused cb - len))
      mod (bsize cb + 1)"
    by (subst g(2)) (simp add: mod_simps)
  moreover have "(i_out cb - len + (bsize cb + 1)) mod (bsize cb + 1)
      = (i_in cb - (used cb + len)) mod (bsize cb + 1)"
    by (subst g(1), subst mod_sub_left) (simp add: algebra_simps)
  ultimately show "cbuf_is_valid (cbuf_rewound cb len)"
    using r g(3,4) assms(2,3) cbuf_valid_length [OF assms(1)]
    by (intro cbuf_validI(1) [where r = "cbuf_reused cb - len"]) (simp_all add: cbuf_rewound_def)
  show "cbuf_dropper (cbuf_rewound cb len) len = cb"
    using r by (simp add: cbuf_dropper_eq cbuf_rewound_def mod_simps)
qed

lemma cbuf_rewound_unread:
  assumes "cbuf_is_valid cb" "0 \<le> len" "len \<le> cbuf_reused cb"
  shows "unread (cbuf_rewound cb len) =
    drop (length (replayable cb) - nat len) (replayable cb) @ unread cb"
proof -
  let ?cb = "cbuf_rewound cb len"
  note v = cbuf_rewound_dropper [OF assms]
  have le: "len \<le> used ?cb"
    using cbuf_valid_range [OF assms(1)] by (simp add: cbuf_rewound_def)
  have h: "history ?cb = history cb" and r: "cbuf_reused cb = cbuf_reused ?cb + len"
    using cbuf_dropper_history [OF v(1) assms(2) le] cbuf_dropper_valid(2) [OF v(1) assms(2) le] v(2)
    by simp_all
  have "unread ?cb = drop (nat (cbuf_reused ?cb)) (replayable cb @ unread cb)"
    using unread_by_history [OF v(1)] h history_append [OF assms(1)] by simp
  moreover have "nat (cbuf_reused ?cb) = length (replayable cb) - nat len"
    using r assms by simp
  ultimately show ?thesis by simp
qed

end
