(* ===== verification/Cbuf_Grow.thy ===== *)
theory Cbuf_Grow
  imports Cbuf_Content
begin

text \<open>
  Growing the buffer (\<open>cbuf_grow\<close>): the array is reallocated and, when replay data wraps
  around the old end, its tail is moved to the new end. Neither list of bytes changes, the
  buffer stays valid, and the growth is what was asked for unless \<open>maxsize\<close> or the
  allocator forbids it.
\<close>

text \<open>The result of a successful reallocation to \<open>sz\<close> data bytes.\<close>

definition cbuf_regrown :: "cbuf \<Rightarrow> int \<Rightarrow> cbuf" where
  "cbuf_regrown cb sz =
    (let d = take (nat (bsize cb + 1)) (data cb) @ replicate (nat (sz - bsize cb)) malloc_byte;
         cb1 = cb\<lparr>alloc := sz + (alloc cb - bsize cb), bsize := sz, data := d\<rparr>;
         k = bsize cb + 1 - i_rep cb;
         p = sz + 1 - k
     in if i_rep cb > i_in cb
        then cb1\<lparr>data := blit d p (take (nat k) (drop (nat (i_rep cb)) d)),
                 i_out := (if i_out cb \<ge> i_rep cb then i_out cb + (p - i_rep cb) else i_out cb),
                 i_rep := p\<rparr>
        else cb1)"

definition grow_target :: "cbuf \<Rightarrow> int \<Rightarrow> int" where
  "grow_target cb n =
    min (alloc cb + n + (CBUF_CHUNK - (alloc cb + n) mod CBUF_CHUNK))
      (maxsize cb + (alloc cb - bsize cb))"

lemma cbuf_grow_eq:
  "cbuf_grow mem cb n =
    (if bsize cb = maxsize cb then (0, cb)
     else if \<not> mem (Bytes (grow_target cb n)) then (0, cb)
     else (grow_target cb n - (alloc cb - bsize cb) - bsize cb,
           cbuf_regrown cb (grow_target cb n - (alloc cb - bsize cb))))"
  unfolding cbuf_grow_def cbuf_regrown_def grow_target_def Let_def
  by (simp only: diff_add_cancel)

lemma grow_target_bounds:
  assumes "bsize cb < maxsize cb" "0 < n"
  shows "min (bsize cb + n) (maxsize cb) \<le> grow_target cb n - (alloc cb - bsize cb)"
    and "grow_target cb n - (alloc cb - bsize cb) \<le> maxsize cb"
    and "bsize cb < grow_target cb n - (alloc cb - bsize cb)"
proof -
  have "(alloc cb + n) mod CBUF_CHUNK < CBUF_CHUNK"
    by (simp add: CBUF_CHUNK_def)
  then show "min (bsize cb + n) (maxsize cb) \<le> grow_target cb n - (alloc cb - bsize cb)"
    and "grow_target cb n - (alloc cb - bsize cb) \<le> maxsize cb"
    and "bsize cb < grow_target cb n - (alloc cb - bsize cb)"
    unfolding grow_target_def using assms by linarith+
qed

lemma regrown_fields [simp]:
  "bsize (cbuf_regrown cb sz) = sz" "used (cbuf_regrown cb sz) = used cb"
  "i_in (cbuf_regrown cb sz) = i_in cb" "minsize (cbuf_regrown cb sz) = minsize cb"
  "maxsize (cbuf_regrown cb sz) = maxsize cb" "overwrite (cbuf_regrown cb sz) = overwrite cb"
  "got_wrap (cbuf_regrown cb sz) = got_wrap cb"
  "alloc (cbuf_regrown cb sz) = sz + (alloc cb - bsize cb)"
  by (simp_all add: cbuf_regrown_def Let_def)

text \<open>Where the replay data starts, and how the two indices move with it.\<close>

lemma regrown_indices:
  "i_rep (cbuf_regrown cb sz) = (if i_rep cb > i_in cb then i_rep cb + (sz - bsize cb) else i_rep cb)"
  "i_out (cbuf_regrown cb sz) =
    (if i_rep cb > i_in cb \<and> i_out cb \<ge> i_rep cb then i_out cb + (sz - bsize cb) else i_out cb)"
  by (simp_all add: cbuf_regrown_def Let_def)

lemma regrown_data_length:
  assumes "cbuf_is_valid cb" "bsize cb < sz"
  shows "length (data (cbuf_regrown cb sz)) = nat (sz + 1)"
  using cbuf_valid_length [OF assms(1)] cbuf_valid_range [OF assms(1)] assms(2)
  by (auto simp: cbuf_regrown_def Let_def nat_le_iff nat_diff_distrib)

lemma regrown_data_nth:
  assumes "cbuf_is_valid cb" "bsize cb < sz" "0 \<le> x" "x \<le> bsize cb"
  shows "i_rep cb \<le> i_in cb \<or> x \<le> i_in cb \<Longrightarrow> data (cbuf_regrown cb sz) ! nat x = data cb ! nat x"
    and "i_in cb < i_rep cb \<Longrightarrow> i_rep cb \<le> x \<Longrightarrow>
      data (cbuf_regrown cb sz) ! nat (x + (sz - bsize cb)) = data cb ! nat x"
proof -
  note r = cbuf_valid_range [OF assms(1)] and L = cbuf_valid_length [OF assms(1)]
  let ?d = "take (nat (bsize cb + 1)) (data cb) @ replicate (nat (sz - bsize cb)) malloc_byte"
  have d: "?d ! nat x = data cb ! nat x"
    using L assms(3,4) by (simp add: nth_append nat_less_iff)
  show "data (cbuf_regrown cb sz) ! nat x = data cb ! nat x"
    if "i_rep cb \<le> i_in cb \<or> x \<le> i_in cb"
  proof (cases "i_rep cb > i_in cb")
    case True
    then have "nat x < nat (sz + 1 - (bsize cb + 1 - i_rep cb))"
      using that assms(2,3) by simp
    then show ?thesis
      using True d L assms by (simp add: cbuf_regrown_def Let_def blit_def nth_append nat_less_iff)
  next
    case False
    then show ?thesis using d by (simp add: cbuf_regrown_def Let_def)
  qed
  assume c: "i_in cb < i_rep cb" "i_rep cb \<le> x"
  let ?p = "sz + 1 - (bsize cb + 1 - i_rep cb)"
  let ?t = "take (nat (bsize cb + 1 - i_rep cb)) (drop (nat (i_rep cb)) ?d)"
  have idx: "nat (x + (sz - bsize cb)) = nat ?p + nat (x - i_rep cb)"
    using c assms(2) r by (simp flip: nat_add_distrib)
  have "blit ?d ?p ?t ! (nat ?p + nat (x - i_rep cb)) = ?t ! nat (x - i_rep cb)"
    using c assms(2,4) L r by (subst nth_blit) (auto simp: min_def nat_le_iff)
  also have "\<dots> = data cb ! nat x"
    using c assms(4) L r d by (simp add: nat_less_iff flip: nat_add_distrib)
  finally show "data (cbuf_regrown cb sz) ! nat (x + (sz - bsize cb)) = data cb ! nat x"
    using c(1) by (simp add: cbuf_regrown_def Let_def idx)
qed

lemma cbuf_regrown_valid:
  assumes "cbuf_is_valid cb" "bsize cb < sz" "sz \<le> maxsize cb"
  shows "cbuf_is_valid (cbuf_regrown cb sz)"
    and "cbuf_reused (cbuf_regrown cb sz) = cbuf_reused cb"
proof -
  note r = cbuf_valid_range [OF assms(1)] and g = cbuf_valid_geometry [OF assms(1)]
  let ?c = "cbuf_regrown cb sz"
  have o: "i_out cb = (if used cb \<le> i_in cb then i_in cb - used cb
      else i_in cb - used cb + (bsize cb + 1))"
    by (subst g(1), rule mod_diff_cases) (use r in auto)
  have p: "i_rep cb = (if cbuf_reused cb \<le> i_out cb then i_out cb - cbuf_reused cb
      else i_out cb - cbuf_reused cb + (bsize cb + 1))"
    by (subst g(2), rule mod_diff_cases) (use r g(3,4) in auto)
  have "i_out ?c = (i_in cb - used cb) mod (sz + 1)"
    using o p r g(3,4) assms(2) by (subst mod_diff_cases) (auto simp: regrown_indices split: if_splits)
  moreover have "i_rep ?c = (i_out ?c - cbuf_reused cb) mod (sz + 1)"
    using o p r g(3,4) assms(2) by (subst mod_diff_cases) (auto simp: regrown_indices split: if_splits)
  ultimately show "cbuf_is_valid ?c" and "cbuf_reused ?c = cbuf_reused cb"
    using r g(3,4) assms regrown_data_length [OF assms(1,2)]
    by (atomize (full), intro conjI cbuf_validI [where r = "cbuf_reused cb"])
       (auto simp: regrown_indices)
qed

lemma regrown_ring:
  assumes "cbuf_is_valid cb" "bsize cb < sz" "0 \<le> j" "j < cbuf_reused cb + used cb"
  shows "ring (data (cbuf_regrown cb sz)) (i_rep (cbuf_regrown cb sz) + j)
    = ring (data cb) (i_rep cb + j)"
proof -
  note r = cbuf_valid_range [OF assms(1)] and g = cbuf_valid_geometry [OF assms(1)]
    and L = cbuf_valid_length [OF assms(1)] and L' = regrown_data_length [OF assms(1,2)]
    and nth = regrown_data_nth [OF assms(1,2)]
  have "i_rep cb = (i_in cb - (used cb + cbuf_reused cb)) mod (bsize cb + 1)"
    by (subst g(2), subst g(1)) (simp add: mod_diff_left_eq algebra_simps)
  then have p: "i_rep cb = (if used cb + cbuf_reused cb \<le> i_in cb
      then i_in cb - (used cb + cbuf_reused cb)
      else i_in cb - (used cb + cbuf_reused cb) + (bsize cb + 1))"
    by (subst (asm) mod_diff_cases) (use r g(3,4) in auto)
  consider (flat) "i_rep cb \<le> i_in cb" | (tail) "i_in cb < i_rep cb" "i_rep cb + j \<le> bsize cb"
    | (wrapped) "i_in cb < i_rep cb" "bsize cb < i_rep cb + j"
    by linarith
  then show ?thesis
  proof cases
    case flat
    then have "i_rep cb + j \<le> bsize cb"
      using p assms(4) r g(3,4) by (auto split: if_splits)
    then show ?thesis
      using flat nth(1) [of "i_rep cb + j"] assms r L L'
      by (simp add: regrown_indices ring_inside)
  next
    case tail
    then show ?thesis
      using nth(2) [of "i_rep cb + j"] assms r L L'
      by (simp add: regrown_indices ring_inside algebra_simps)
  next
    case wrapped
    define x where "x = i_rep cb + j - (bsize cb + 1)"
    have x: "0 \<le> x" "x < i_in cb"
      using wrapped p assms(4) r g(3,4) by (auto simp: x_def split: if_splits)
    have "(i_rep cb + j) mod (bsize cb + 1) = x"
      using x r by (subst int_mod_cases(2)) (auto simp: x_def)
    then have "ring (data cb) (i_rep cb + j) = data cb ! nat x"
      using L by (simp add: ring_def)
    moreover have "(i_rep cb + (sz - bsize cb) + j) mod (sz + 1) = x"
      using x r assms(2) by (subst int_mod_cases(2)) (auto simp: x_def)
    then have "ring (data (cbuf_regrown cb sz)) (i_rep (cbuf_regrown cb sz) + j)
        = data (cbuf_regrown cb sz) ! nat x"
      using L' r assms(2) wrapped(1) by (simp add: ring_def regrown_indices)
    ultimately show ?thesis
      using nth(1) [of x] x r by simp
  qed
qed

lemma cbuf_regrown_history:
  assumes "cbuf_is_valid cb" "bsize cb < sz" "sz \<le> maxsize cb"
  shows "history (cbuf_regrown cb sz) = history cb"
  unfolding history_def cbuf_regrown_valid(2) [OF assms] regrown_fields
  using regrown_ring [OF assms(1,2)] cbuf_valid_geometry(3) [OF assms(1)] cbuf_valid_range(5) [OF assms(1)]
  by (intro nth_equalityI) auto

text \<open>Growing changes neither list; it adds the bytes it reports.\<close>

lemma cbuf_grow_correct:
  assumes "cbuf_is_valid cb" "0 < n" "cbuf_grow mem cb n = (g, cb')"
  shows "cbuf_is_valid cb'" and "unread cb' = unread cb" and "replayable cb' = replayable cb"
    and "bsize cb' = bsize cb + g" and "0 \<le> g" and "used cb' = used cb"
    and "cbuf_reused cb' = cbuf_reused cb"
    and "overwrite cb' = overwrite cb" and "maxsize cb' = maxsize cb" and "minsize cb' = minsize cb"
proof -
  have "cbuf_is_valid cb' \<and> history cb' = history cb \<and> bsize cb' = bsize cb + g \<and> 0 \<le> g \<and>
      used cb' = used cb \<and> cbuf_reused cb' = cbuf_reused cb \<and> overwrite cb' = overwrite cb \<and>
      maxsize cb' = maxsize cb \<and> minsize cb' = minsize cb"
  proof (cases "bsize cb = maxsize cb \<or> \<not> mem (Bytes (grow_target cb n))")
    case True
    then have "g = 0 \<and> cb' = cb"
      using assms(3) by (auto simp: cbuf_grow_eq split: if_splits)
    then show ?thesis using assms(1) by simp
  next
    case False
    then have lt: "bsize cb < maxsize cb"
      using cbuf_valid_range(2) [OF assms(1)] by simp
    note b = grow_target_bounds [OF lt assms(2)]
    show ?thesis
      using False assms(3) b cbuf_regrown_valid [OF assms(1) b(3,2)]
        cbuf_regrown_history [OF assms(1) b(3,2)]
      by (auto simp: cbuf_grow_eq)
  qed
  then show "cbuf_is_valid cb'" and "bsize cb' = bsize cb + g" and "0 \<le> g" and "used cb' = used cb"
    and "cbuf_reused cb' = cbuf_reused cb" and "overwrite cb' = overwrite cb"
    and "maxsize cb' = maxsize cb" and "minsize cb' = minsize cb"
    and "unread cb' = unread cb" and "replayable cb' = replayable cb"
    using history_append [of cb] history_append [of cb'] assms(1)
    by (auto simp: append_eq_append_conv)
qed

lemma cbuf_grow_enough:
  assumes "cbuf_is_valid cb" "0 < n" "mem (Bytes (grow_target cb n))" "cbuf_grow mem cb n = (g, cb')"
  shows "min (bsize cb + n) (maxsize cb) \<le> bsize cb'"
proof (cases "bsize cb = maxsize cb")
  case True
  then show ?thesis using assms by (auto simp: cbuf_grow_eq)
next
  case False
  then have lt: "bsize cb < maxsize cb"
    using cbuf_valid_range(2) [OF assms(1)] by simp
  then show ?thesis
    using assms grow_target_bounds(1) [OF lt assms(2)] by (auto simp: cbuf_grow_eq)
qed

end
