(* ===== verification/Cbuf_IO.thy ===== *)
theory Cbuf_IO
  imports Cbuf_Grow
begin

text \<open>
  The contracts of the I/O functions passed to the copy loops, as locales, and the loops
  proved against them: \<open>cbuf_writer\<close> appends what it read from its source to the
  unread data, dropping the oldest bytes when they do not fit; \<open>cbuf_reader\<close> and
  \<open>cbuf_replayer\<close> hand a prefix of the unread data, or a suffix of the replayable
  data, to their sink. The contracts are discharged for memory blocks and for file
  descriptors.
\<close>

section \<open>Advancing the write index\<close>

text \<open>The newest \<open>n\<close> elements of a list: what a buffer of \<open>n\<close> bytes keeps.\<close>

definition newest :: "int \<Rightarrow> 'a list \<Rightarrow> 'a list" where
  "newest n xs = drop (length xs - nat n) xs"

lemma newest_all [simp]: "int (length xs) \<le> n \<Longrightarrow> newest n xs = xs"
  by (simp add: newest_def)

lemma length_newest: "0 \<le> n \<Longrightarrow> int (length (newest n xs)) = min (int (length xs)) n"
  by (auto simp: newest_def)

lemma cbuf_advance_valid:
  assumes "cbuf_is_valid cb" "d = put (data cb) (i_in cb) bs" "bs \<noteq> []"
  defines "n \<equiv> int (length bs)"
  defines "cb' \<equiv> cbuf_advance (cb\<lparr>data := d\<rparr>) (bsize cb - used cb) n ((i_in cb + n) mod (bsize cb + 1))"
  shows "cbuf_is_valid cb'" and "used cb' = min (used cb + n) (bsize cb)"
    and "i_in cb' = (i_in cb + n) mod (bsize cb + 1)" and "data cb' = d" and "bsize cb' = bsize cb"
    and "cbuf_reused cb' = min (cbuf_reused cb) (bsize cb - used cb')"
proof -
  note r = cbuf_valid_range [OF assms(1)] and g = cbuf_valid_geometry [OF assms(1)]
  let ?S = "bsize cb + 1" and ?i = "(i_in cb + n) mod (bsize cb + 1)"
  have n: "0 < n" using assms(3) by (simp add: n_def)
  show f: "used cb' = min (used cb + n) (bsize cb)" "i_in cb' = ?i" "data cb' = d" "bsize cb' = bsize cb"
    by (simp_all add: cb'_def cbuf_advance_def Let_def)
  have same: "minsize cb' = minsize cb" "maxsize cb' = maxsize cb" "alloc cb' = alloc cb"
    by (simp_all add: cb'_def cbuf_advance_def Let_def)
  have nrepl: "(i_out cb - i_rep cb) mod ?S = cbuf_reused cb"
    by (simp add: cbuf_reused_def)
  have rep: "i_rep cb' = (if n > bsize cb - used cb - cbuf_reused cb then (?i + 1) mod ?S else i_rep cb)"
    and out: "i_out cb' = (if n > bsize cb - used cb then i_rep cb' else i_out cb)"
    and wrap: "got_wrap cb' = (n > bsize cb - used cb - cbuf_reused cb \<or> got_wrap cb)"
    using g(3) n by (auto simp: cb'_def cbuf_advance_def Let_def nrepl)
  have S: "(?i + 1) mod ?S = (?i - bsize cb) mod ?S"
    using mod_add_self2 [of "?i - bsize cb" ?S] by simp
  have out': "i_out cb' = (?i - used cb') mod ?S"
  proof (cases "n > bsize cb - used cb")
    case True
    then show ?thesis using rep out f g(3) S by simp
  next
    case False
    then have "used cb' = used cb + n" using f by simp
    then show ?thesis
      using False out g(1) by (simp add: mod_diff_left_eq)
  qed
  have rep': "i_rep cb' = (i_out cb' - min (cbuf_reused cb) (bsize cb - used cb')) mod ?S"
  proof (cases "n > bsize cb - used cb - cbuf_reused cb")
    case True
    then have "min (cbuf_reused cb) (bsize cb - used cb') = bsize cb - used cb'"
      using f g(3) by auto
    then show ?thesis
      using True rep S by (simp add: out' mod_diff_left_eq add_diff_eq)
  next
    case False
    then have "used cb' = used cb + n" "\<not> n > bsize cb - used cb"
      using f g(3) by auto
    then show ?thesis
      using False rep out g(2,3,4) by simp
  qed
  have L: "int (length (data cb')) = bsize cb' + 1"
    using f cbuf_valid_length [OF assms(1)] by (simp add: assms(2))
  have i: "0 \<le> i_in cb'" "i_in cb' \<le> bsize cb'"
    using pos_mod_sign [of ?S "i_in cb + n"] pos_mod_bound [of ?S "i_in cb + n"] r(1)
    unfolding f by linarith+
  have u: "0 \<le> used cb'" "0 \<le> min (cbuf_reused cb) (bsize cb - used cb')"
    "used cb' + min (cbuf_reused cb) (bsize cb - used cb') \<le> bsize cb'"
    using f r(5,6) g(3) n by auto
  have w: "got_wrap cb' \<or> i_rep cb' = 0"
    using wrap rep r(14) by auto
  note base = L r(13,1,4,2,3) [folded f(4) same]
  note v = cbuf_validI [OF base i u [folded f(4)] out' [folded f(2,4)] rep' [folded f(4)] w]
  show "cbuf_is_valid cb'" and "cbuf_reused cb' = min (cbuf_reused cb) (bsize cb - used cb')"
    using v by (simp_all only: f(4))
qed

lemma cbuf_advance_unread:
  assumes "cbuf_is_valid cb" "d = put (data cb) (i_in cb) bs" "bs \<noteq> []"
  defines "n \<equiv> int (length bs)"
  defines "cb' \<equiv> cbuf_advance (cb\<lparr>data := d\<rparr>) (bsize cb - used cb) n ((i_in cb + n) mod (bsize cb + 1))"
  shows "unread cb' = newest (bsize cb) (unread cb @ bs)"
proof -
  note v = cbuf_advance_valid [OF assms(1-3), folded n_def, folded cb'_def]
  note r = cbuf_valid_range [OF assms(1)] and L = cbuf_valid_length [OF assms(1)]
  define h where "h = nat (used cb')"
  have h: "int h = min (used cb + n) (bsize cb)" "h \<le> length (data cb)"
    using v(2) r L by (auto simp: h_def n_def)
  have "unread cb' = window d (i_in cb + n - int h) h"
    unfolding unread_eq [OF v(1)] v(4) h_def [symmetric]
    by (rule window_cong_mod) (use v r L h h_def in \<open>auto simp: assms(2) mod_diff_left_eq\<close>)
  also have "\<dots> = (if h \<le> length bs then drop (length bs - h) bs
      else window (data cb) (i_in cb + n - int h) (h - length bs) @ bs)"
    unfolding assms(2) n_def by (rule window_put [OF h(2)])
  also have "\<dots> = newest (bsize cb) (unread cb @ bs)"
  proof (cases "used cb + n \<le> bsize cb")
    case True
    then have "int h = used cb + n" using h by simp
    then have "h = nat (used cb) + length bs" using r by (simp add: n_def)
    then show ?thesis
      using True r \<open>int h = used cb + n\<close> by (auto simp: n_def unread_eq [OF assms(1)])
  next
    case False
    then have hb: "int h = bsize cb" using h by simp
    define q where "q = nat (used cb + n - bsize cb)"
    have q: "length (unread cb @ bs) - nat (bsize cb) = q"
      using False r by (simp add: q_def n_def)
    show ?thesis
    proof (cases "h \<le> length bs")
      case True
      then have "q - nat (used cb) = length bs - h" "nat (used cb) \<le> q"
        unfolding q_def n_def using hb r False by arith+
      then show ?thesis
        using q True by (simp add: newest_def)
    next
      case nle: False
      have "q \<le> nat (used cb)" using nle hb False by (simp add: q_def n_def)
      then have "drop q (unread cb) = window (data cb) (i_in cb - used cb + int q) (nat (used cb) - q)"
        unfolding unread_eq [OF assms(1)] by (rule drop_window)
      moreover have "i_in cb - used cb + int q = i_in cb + n - int h" "nat (used cb) - q = h - length bs"
        using False hb r nle by (auto simp: q_def n_def)
      ultimately show ?thesis
        using nle q \<open>q \<le> nat (used cb)\<close> by (simp add: newest_def)
    qed
  qed
  finally show ?thesis .
qed

section \<open>Sources\<close>

text \<open>The growth that precedes a write of \<open>len\<close> bytes.\<close>

lemma cbuf_grow_if:
  assumes "cbuf_is_valid cb"
    and "(if len > bsize cb - used cb \<and> bsize cb < maxsize cb
      then cbuf_grow mem cb (len - (bsize cb - used cb)) else (0, cb)) = (g, c)"
  shows "cbuf_is_valid c" "unread c = unread cb" "bsize c = bsize cb + g" "0 \<le> g"
    "used c = used cb" "overwrite c = overwrite cb" "maxsize c = maxsize cb" "minsize c = minsize cb"
    "replayable c = replayable cb"
proof -
  have "cbuf_is_valid c \<and> unread c = unread cb \<and> bsize c = bsize cb + g \<and> 0 \<le> g \<and>
    used c = used cb \<and> overwrite c = overwrite cb \<and> maxsize c = maxsize cb \<and>
    minsize c = minsize cb \<and> replayable c = replayable cb"
  proof (cases "len > bsize cb - used cb \<and> bsize cb < maxsize cb")
    case True
    then have "0 < len - (bsize cb - used cb)"
        "cbuf_grow mem cb (len - (bsize cb - used cb)) = (g, c)"
      using assms(2) by simp_all
    from cbuf_grow_correct [OF assms(1) this] show ?thesis by simp
  next
    case False
    then show ?thesis using assms by (simp split: if_splits)
  qed
  then show "cbuf_is_valid c" "unread c = unread cb" "bsize c = bsize cb + g" "0 \<le> g"
    "used c = used cb" "overwrite c = overwrite cb" "maxsize c = maxsize cb" "minsize c = minsize cb"
    "replayable c = replayable cb"
    by blast+
qed

text \<open>A source gives no more than it was asked for, and \<open>rest\<close> is what it has left.\<close>

locale byte_source =
  fixes getf :: "'s source" and rest :: "'s \<Rightarrow> byte list"
  assumes get_ok: "0 < n \<Longrightarrow> getf s n = (Inr bs, s') \<Longrightarrow>
      int (length bs) \<le> n \<and> rest s = bs @ rest s'"
    and get_err: "0 < n \<Longrightarrow> getf s n = (Inl e, s') \<Longrightarrow> rest s' = rest s"
begin

lemma writer_loop_spec:
  assumes "writer_loop getf src d i len m0 = (src', d', i', nleft, m)"
    and "0 \<le> i" "i < int (length d)" "0 \<le> len"
  shows "\<exists>bs. rest src = bs @ rest src' \<and> d' = put d i bs \<and> nleft = len - int (length bs) \<and>
    0 \<le> nleft \<and> i' = (i + int (length bs)) mod int (length d) \<and>
    (bs = [] \<and> 0 < len \<longrightarrow> (\<exists>e. m = Inl e) \<or> m = Inr 0)"
  using assms
proof (induction "nat len" arbitrary: src d i len m0 rule: less_induct)
  case less
  note eq = less.prems(1)
  show ?case
  proof (cases "len = 0")
    case True
    then show ?thesis
      using eq less.prems by (intro exI [of _ "[]"]) (simp add: writer_loop.simps [of getf])
  next
    case False
    define n where "n = min len (int (length d) - i)"
    have n: "0 < n" "n \<le> len" "i + n \<le> int (length d)"
      using less.prems False by (auto simp: n_def)
    obtain ans s1 where ans: "getf src n = (ans, s1)"
      by (cases "getf src n")
    show ?thesis
    proof (cases ans)
      case (Inl e)
      then show ?thesis
        using eq ans n get_err [OF n(1), of src e s1] less.prems False
        by (intro exI [of _ "[]"]) (auto simp: writer_loop.simps [of getf] n_def [symmetric])
    next
      case (Inr b)
      have b: "int (length b) \<le> n" "rest src = b @ rest s1"
        using get_ok [OF n(1)] ans Inr by blast+
      have blit: "blit d i b = put d i b"
        using b(1) n(3) less.prems by (intro blit_put) auto
      consider (none) "b = []" | (short) "b \<noteq> []" "n \<noteq> int (length b)"
        | (full) "b \<noteq> []" "n = int (length b)" by blast
      then show ?thesis
      proof cases
        case none
        then show ?thesis
          using eq ans Inr b less.prems False
          by (intro exI [of _ "[]"]) (auto simp: writer_loop.simps [of getf] n_def [symmetric])
      next
        case short
        then show ?thesis
          using eq ans Inr b n less.prems False
          by (intro exI [of _ b])
             (auto simp: writer_loop.simps [of getf] n_def [symmetric] blit Let_def)
      next
        case full
        let ?i = "(i + int (length b)) mod int (length d)"
        have rec: "writer_loop getf s1 (put d i b) ?i (len - int (length b)) (Inr (int (length b)))
            = (src', d', i', nleft, m)"
          using eq ans Inr full less.prems False
          by (simp add: writer_loop.simps [of getf src] n_def [symmetric] blit Let_def)
        have pos: "0 < int (length d)"
          using less.prems(2,3) by linarith
        have dec: "nat (len - int (length b)) < nat len"
          using full(1) full(2) n by (cases b) auto
        obtain bs where bs: "rest s1 = bs @ rest src'" "d' = put (put d i b) ?i bs"
            "nleft = len - int (length b) - int (length bs)" "0 \<le> nleft"
            "i' = (?i + int (length bs)) mod int (length (put d i b))"
          using less.hyps [OF dec rec] pos n full by auto
        have "d' = put d i (b @ bs)"
          using bs(2) put_mod [of "put d i b"] by (simp add: put_append)
        then show ?thesis
          using bs b full by (intro exI [of _ "b @ bs"]) (auto simp: mod_simps algebra_simps)
      qed
    qed
  qed
qed

text \<open>
  What a write did: the bytes \<open>bs\<close> it read are appended to the unread data, and only the
  newest \<open>size\<close> of them are kept. The buffer may have grown first.
\<close>

lemma cbuf_writer_spec:
  assumes "cbuf_is_valid cb" "0 < len" "cbuf_writer mem cb len getf src nd0 = (r, nd, src', cb')"
  obtains bs where "rest src = bs @ rest src'" "int (length bs) \<le> len"
    "cbuf_is_valid cb'" "unread cb' = newest (bsize cb') (unread cb @ bs)"
    "bsize cb \<le> bsize cb'" "overwrite cb' = overwrite cb"
    "minsize cb' = minsize cb" "maxsize cb' = maxsize cb"
    "overwrite cb = CBUF_NO_DROP \<Longrightarrow> int (length (unread cb @ bs)) \<le> bsize cb'"
    "overwrite cb = CBUF_WRAP_ONCE \<Longrightarrow> int (length bs) \<le> bsize cb'"
    "bs = [] \<Longrightarrow> r = Inr 0 \<or> (\<exists>e. r = Inl e)"
    "bs \<noteq> [] \<Longrightarrow> r = Inr (int (length bs)) \<and>
      nd = max 0 (used cb + int (length bs) - bsize cb')"
proof -
  obtain g c where c: "(if len > bsize cb - used cb \<and> bsize cb < maxsize cb
      then cbuf_grow mem cb (len - (bsize cb - used cb)) else (0, cb)) = (g, c)"
    by (meson surj_pair)
  note grown = cbuf_grow_if [OF assms(1) c]
  note v = cbuf_valid_range [OF grown(1)]
  define l where "l = (case overwrite c of CBUF_NO_DROP \<Rightarrow> min len (bsize c - used c)
      | CBUF_WRAP_ONCE \<Rightarrow> min len (bsize c) | CBUF_WRAP_MANY \<Rightarrow> len)"
  have l: "0 \<le> l" "l \<le> len"
      "overwrite c = CBUF_NO_DROP \<Longrightarrow> l \<le> bsize c - used c"
      "overwrite c = CBUF_WRAP_ONCE \<Longrightarrow> l \<le> bsize c"
    using assms(2) v by (auto simp: l_def split: cbuf_overwrite_t.split)
  have lz: "l = 0 \<Longrightarrow> overwrite c = CBUF_NO_DROP"
    using assms(2) v by (auto simp: l_def split: cbuf_overwrite_t.splits)
  have nf: "bsize cb - used cb + g = bsize c - used c"
    using grown by simp
  have W: "cbuf_writer mem cb len getf src nd0 =
    (if overwrite c = CBUF_NO_DROP \<and> l = 0 then (Inl ENOSPC, nd0, src, c)
     else case writer_loop getf src (data c) (i_in c) l (Inr 0) of
       (s1, d, i, nl, m) \<Rightarrow>
         if l - nl = 0 then (m, nd0, s1, c\<lparr>data := d\<rparr>)
         else (Inr (l - nl), max 0 (l - nl - (bsize c - used c)), s1,
               cbuf_advance (c\<lparr>data := d\<rparr>) (bsize c - used c) (l - nl) i))"
    unfolding cbuf_writer_def Let_def c case_prod_conv l_def nf ..
  show thesis
  proof (cases "l = 0")
    case True
    then have "r = Inl ENOSPC" "src' = src" "cb' = c"
      using assms(3) lz by (auto simp: W)
    then show thesis
      using True grown v l assms(2) by (intro that [of "[]"]) auto
  next
    case False
    obtain s1 d i nl m where loop: "writer_loop getf src (data c) (i_in c) l (Inr 0) = (s1, d, i, nl, m)"
      by (metis prod_cases5)
    obtain bs where bs: "rest src = bs @ rest s1" "d = put (data c) (i_in c) bs"
        "nl = l - int (length bs)" "0 \<le> nl" "i = (i_in c + int (length bs)) mod (bsize c + 1)"
        "bs = [] \<longrightarrow> (\<exists>e. m = Inl e) \<or> m = Inr 0"
      using writer_loop_spec [OF loop] v l(1) False cbuf_valid_length [OF grown(1)] by auto
    have res: "(r, nd, src', cb') =
      (if bs = [] then (m, nd0, s1, c\<lparr>data := d\<rparr>)
       else (Inr (int (length bs)), max 0 (int (length bs) - (bsize c - used c)), s1,
             cbuf_advance (c\<lparr>data := d\<rparr>) (bsize c - used c) (int (length bs)) i))"
      using assms(3) False bs(3) by (simp add: W loop split: if_splits)
    show thesis
    proof (cases "bs = []")
      case True
      then show thesis
        using res bs grown v l assms(2) by (intro that [of "[]"]) auto
    next
      case ne: False
      note adv = cbuf_advance_valid [OF grown(1) bs(2) ne, folded bs(5)]
      have "overwrite cb' = overwrite c" "minsize cb' = minsize c" "maxsize cb' = maxsize c"
        using res ne by (auto simp: cbuf_advance_def Let_def)
      moreover have u: "unread cb' = newest (bsize c) (unread c @ bs)"
        using res ne cbuf_advance_unread [OF grown(1) bs(2) ne, folded bs(5)] by simp
      moreover have a: "cbuf_is_valid cb'" "bsize cb' = bsize c"
        using res ne adv by simp_all
      moreover have "int (length bs) \<le> l"
        using bs(3,4) by simp
      moreover have "src' = s1" "r = Inr (int (length bs))"
          "nd = max 0 (int (length bs) - (bsize c - used c))"
        using res ne by simp_all
      moreover have "overwrite cb = CBUF_NO_DROP \<Longrightarrow> int (length (unread cb @ bs)) \<le> bsize cb'"
          "overwrite cb = CBUF_WRAP_ONCE \<Longrightarrow> int (length bs) \<le> bsize cb'"
        using bs(3,4) l(3,4) grown a(2) v(5) by auto
      ultimately show thesis
        using bs(1) grown l(2) ne by (intro that [of bs]) auto
    qed
  qed
qed

end

text \<open>A source that always delivers what it has: a memory block.\<close>

locale full_source = byte_source +
  assumes get_full: "0 < n \<Longrightarrow> n \<le> int (length (rest s)) \<Longrightarrow>
      \<exists>bs s'. getf s n = (Inr bs, s') \<and> int (length bs) = n"
begin

lemma writer_loop_full:
  assumes "writer_loop getf src d i len m0 = (src', d', i', nleft, m)"
    and "0 \<le> i" "i < int (length d)" "0 \<le> len" "len \<le> int (length (rest src))"
  shows "nleft = 0"
  using assms
proof (induction "nat len" arbitrary: src d i len m0 rule: less_induct)
  case less
  show ?case
  proof (cases "len = 0")
    case True
    then show ?thesis using less.prems(1) by (simp add: writer_loop.simps [of getf])
  next
    case False
    define n where "n = min len (int (length d) - i)"
    have n: "0 < n" "n \<le> len" "i + n \<le> int (length d)" "n \<le> int (length (rest src))"
      using less.prems False by (auto simp: n_def)
    obtain b s1 where b: "getf src n = (Inr b, s1)" "int (length b) = n"
      using get_full [OF n(1,4)] by blast
    let ?i = "(i + n) mod int (length d)"
    have rec: "writer_loop getf s1 (blit d i b) ?i (len - n) (Inr n) = (src', d', i', nleft, m)"
      using less.prems(1,4) b n(1) False
      by (simp add: writer_loop.simps [of getf src] n_def [symmetric] Let_def)
    have "rest src = b @ rest s1"
      using get_ok [OF n(1) b(1)] by simp
    moreover have "length (blit d i b) = length d"
      using b n less.prems by simp
    moreover have pos: "0 < int (length d)"
      using less.prems(2,3) by linarith
    moreover have dec: "nat (len - n) < nat len"
      using n by simp
    ultimately show ?thesis
      using less.hyps [OF dec rec] b n less.prems(5) by simp
  qed
qed

end

section \<open>Sinks\<close>

text \<open>A sink takes a prefix of the block it is offered; \<open>taken\<close> is what it has so far.\<close>

locale byte_sink =
  fixes putf :: "'s sink" and taken :: "'s \<Rightarrow> byte list"
  assumes put_ok: "bs \<noteq> [] \<Longrightarrow> putf s bs = (Inr k, s') \<Longrightarrow>
      0 \<le> k \<and> k \<le> int (length bs) \<and> taken s' = taken s @ take (nat k) bs"
    and put_err: "bs \<noteq> [] \<Longrightarrow> putf s bs = (Inl e, s') \<Longrightarrow> taken s' = taken s"
begin

lemma reader_loop_spec:
  assumes "reader_loop putf dst d i len m0 = (dst', nleft, m)"
    and "0 \<le> i" "i < int (length d)" "0 \<le> len"
  shows "\<exists>k. taken dst' = taken dst @ window d i k \<and> nleft = len - int k \<and> 0 \<le> nleft \<and>
    (k = 0 \<and> 0 < len \<longrightarrow> (\<exists>e. m = Inl e) \<or> m = Inr 0)"
  using assms
proof (induction "nat len" arbitrary: dst i len m0 rule: less_induct)
  case less
  note eq = less.prems(1)
  show ?case
  proof (cases "len = 0")
    case True
    then show ?thesis
      using eq less.prems by (intro exI [of _ 0]) (simp add: reader_loop.simps [of putf])
  next
    case False
    define n where "n = min len (int (length d) - i)"
    have n: "0 < n" "n \<le> len" "i + n \<le> int (length d)"
      using less.prems False by (auto simp: n_def)
    have blk: "take (nat n) (drop (nat i) d) = window d i (nat n)"
      using n less.prems by (intro window_slice) auto
    have ne: "window d i (nat n) \<noteq> []"
      using n(1) by (metis length_window length_0_conv zero_less_nat_eq less_irrefl)
    obtain ans s1 where ans: "putf dst (window d i (nat n)) = (ans, s1)"
      by (cases "putf dst (window d i (nat n))")
    show ?thesis
    proof (cases ans)
      case (Inl e)
      then show ?thesis
        using eq ans put_err [OF ne, of dst e s1] less.prems False blk
        by (intro exI [of _ 0]) (auto simp: reader_loop.simps [of putf] n_def [symmetric])
    next
      case (Inr k)
      have k: "0 \<le> k" "k \<le> n" "taken s1 = taken dst @ window d i (nat k)"
        using put_ok [OF ne] ans Inr n(1) by (force simp: take_window)+
      consider (none) "k = 0" | (short) "0 < k" "n \<noteq> k" | (full) "0 < k" "n = k"
        using k(1) by linarith
      then show ?thesis
      proof cases
        case none
        then show ?thesis
          using eq ans Inr k less.prems False blk
          by (intro exI [of _ 0]) (auto simp: reader_loop.simps [of putf] n_def [symmetric])
      next
        case short
        then show ?thesis
          using eq ans Inr k n less.prems False blk
          by (intro exI [of _ "nat k"])
             (auto simp: reader_loop.simps [of putf] n_def [symmetric] Let_def)
      next
        case full
        let ?i = "(i + k) mod int (length d)"
        have rec: "reader_loop putf s1 d ?i (len - k) (Inr k) = (dst', nleft, m)"
          using eq ans Inr full less.prems(4) False blk
          by (simp add: reader_loop.simps [of putf dst] n_def [symmetric] Let_def)
        have pos: "0 < int (length d)"
          using less.prems(2,3) by linarith
        have dec: "nat (len - k) < nat len"
          using full n by simp
        obtain j where j: "taken dst' = taken s1 @ window d ?i j" "nleft = len - k - int j" "0 \<le> nleft"
          using less.hyps [OF dec rec] pos n full by auto
        then show ?thesis
          using k full by (intro exI [of _ "nat k + j"]) (auto simp: window_add)
      qed
    qed
  qed
qed

lemma cbuf_reader_spec:
  assumes "cbuf_is_valid cb" "0 < len" "cbuf_reader cb len putf dst = (r, dst')"
  obtains k where "taken dst' = taken dst @ take k (unread cb)" "int k \<le> len" "int k \<le> used cb"
    "0 < k \<Longrightarrow> r = Inr (int k)" "k = 0 \<Longrightarrow> r = Inr 0 \<or> (\<exists>e. r = Inl e)"
proof (cases "min len (used cb) = 0")
  case True
  then show thesis
    using assms that [of 0] by (auto simp: cbuf_reader_def)
next
  case False
  note v = cbuf_valid_range [OF assms(1)] and L = cbuf_valid_length [OF assms(1)]
  have pos: "0 < min len (used cb)"
    using False assms(2) v by simp
  obtain s1 nl m where loop: "reader_loop putf dst (data cb) (i_out cb) (min len (used cb)) (Inr 0) = (s1, nl, m)"
    by (metis prod_cases3)
  obtain k where k: "taken s1 = taken dst @ window (data cb) (i_out cb) k"
      "nl = min len (used cb) - int k" "0 \<le> nl" "k = 0 \<longrightarrow> (\<exists>e. m = Inl e) \<or> m = Inr 0"
    using reader_loop_spec [OF loop] v L pos by auto
  have "(r, dst') = (if k = 0 then (m, s1) else (Inr (int k), s1))"
    using assms(3) False k(2) by (auto simp: cbuf_reader_def loop Let_def)
  moreover have "window (data cb) (i_out cb) k = take k (unread cb)"
    using k(2,3) v by (simp add: unread_def take_window le_nat_iff)
  ultimately show thesis
    using that [of k] k by (auto split: if_splits)
qed

lemma cbuf_replayer_eq:
  "cbuf_replayer src len putf dst =
    (let len = min len (cbuf_reused src)
     in if len = 0 then (Inr 0, dst)
        else
          let i_src = (i_out src - len + (bsize src + 1)) mod (bsize src + 1);
              (dst', nleft, m) = reader_loop putf dst (data src) i_src len (Inr 0);
              n = len - nleft
          in if n = 0 then (m, dst') else (Inr n, dst'))"
  by (simp only: cbuf_replayer_def cbuf_reused_def Let_def)

lemma cbuf_replayer_spec:
  assumes "cbuf_is_valid cb" "0 < len" "cbuf_replayer cb len putf dst = (r, dst')"
  obtains k where "taken dst' = taken dst @ take k (newest len (replayable cb))"
    "int k \<le> len" "int k \<le> cbuf_reused cb"
    "0 < k \<Longrightarrow> r = Inr (int k)" "k = 0 \<Longrightarrow> r = Inr 0 \<or> (\<exists>e. r = Inl e)"
proof (cases "min len (cbuf_reused cb) = 0")
  case True
  then show thesis
    using assms that [of 0] by (auto simp: cbuf_replayer_eq)
next
  case False
  note v = cbuf_valid_range [OF assms(1)] and L = cbuf_valid_length [OF assms(1)]
    and g = cbuf_valid_geometry [OF assms(1)]
  define l where "l = min len (cbuf_reused cb)"
  define i where "i = (i_out cb - l + (bsize cb + 1)) mod (bsize cb + 1)"
  have l: "0 < l" "l \<le> len" "l \<le> cbuf_reused cb"
    using False assms(2) g(3) by (auto simp: l_def)
  have i: "0 \<le> i" "i < int (length (data cb))"
    unfolding i_def by (rule cbuf_index_inside [OF assms(1)])+
  obtain s1 nl m where loop: "reader_loop putf dst (data cb) i l (Inr 0) = (s1, nl, m)"
    by (metis prod_cases3)
  obtain k where k: "taken s1 = taken dst @ window (data cb) i k"
      "nl = l - int k" "0 \<le> nl" "k = 0 \<longrightarrow> (\<exists>e. m = Inl e) \<or> m = Inr 0"
    using reader_loop_spec [OF loop i] l by auto
  have "(r, dst') = (if k = 0 then (m, s1) else (Inr (int k), s1))"
    using assms(3) l(1) k(2) loop
    by (auto simp: cbuf_replayer_eq l_def [symmetric] i_def Let_def)
  moreover have "window (data cb) i k = take k (newest len (replayable cb))"
  proof -
    have "newest len (replayable cb) = drop (nat (cbuf_reused cb) - nat l) (replayable cb)"
      using l g(3) assms(2) by (auto simp: newest_def l_def min_def)
    also have "\<dots> = window (data cb) (i_rep cb + (cbuf_reused cb - l)) (nat l)"
      using l by (simp add: replayable_def drop_window of_nat_diff)
    also have "\<dots> = window (data cb) i (nat l)"
    proof (rule window_cong_mod)
      have "(i_rep cb + (cbuf_reused cb - l)) mod (bsize cb + 1) = (i_out cb - l) mod (bsize cb + 1)"
        by (subst g(2)) (simp add: mod_add_left_eq)
      then show "(i_rep cb + (cbuf_reused cb - l)) mod int (length (data cb)) = i mod int (length (data cb))"
        by (simp add: L i_def)
    qed
    finally show ?thesis using k(2,3) by (simp add: take_window)
  qed
  ultimately show thesis
    using that [of k] k l by (auto split: if_splits)
qed

end

text \<open>A sink that always takes the whole block: memory.\<close>

locale full_sink = byte_sink +
  assumes put_full: "bs \<noteq> [] \<Longrightarrow> \<exists>s'. putf s bs = (Inr (int (length bs)), s')"
begin

lemma reader_loop_full:
  assumes "reader_loop putf dst d i len m0 = (dst', nleft, m)"
    and "0 \<le> i" "i < int (length d)" "0 \<le> len"
  shows "nleft = 0"
  using assms
proof (induction "nat len" arbitrary: dst i len m0 rule: less_induct)
  case less
  show ?case
  proof (cases "len = 0")
    case True
    then show ?thesis using less.prems(1) by (simp add: reader_loop.simps [of putf])
  next
    case False
    define n where "n = min len (int (length d) - i)"
    have n: "0 < n" "n \<le> len" "i + n \<le> int (length d)"
      using less.prems False by (auto simp: n_def)
    let ?b = "take (nat n) (drop (nat i) d)"
    have len: "int (length ?b) = n"
      using n less.prems by auto
    then have "?b \<noteq> []" using n(1) by auto
    then obtain s1 where ans: "putf dst ?b = (Inr n, s1)"
      using put_full len by metis
    let ?i = "(i + n) mod int (length d)"
    have rec: "reader_loop putf s1 d ?i (len - n) (Inr n) = (dst', nleft, m)"
      using less.prems(1,4) ans n(1) False
      by (simp add: reader_loop.simps [of putf dst] n_def [symmetric] Let_def)
    have pos: "0 < int (length d)"
      using less.prems(2,3) by linarith
    have dec: "nat (len - n) < nat len"
      using n by simp
    show ?thesis
      using less.hyps [OF dec rec] n pos by simp
  qed
qed

lemma cbuf_reader_full:
  assumes "cbuf_is_valid cb" "0 < len" "cbuf_reader cb len putf dst = (r, dst')"
  shows "r = Inr (min len (used cb))"
    and "taken dst' = taken dst @ take (nat len) (unread cb)"
proof -
  note v = cbuf_valid_range [OF assms(1)] and L = cbuf_valid_length [OF assms(1)]
  obtain k where k: "taken dst' = taken dst @ take k (unread cb)" "int k \<le> len" "int k \<le> used cb"
      "0 < k \<Longrightarrow> r = Inr (int k)" "k = 0 \<Longrightarrow> r = Inr 0 \<or> (\<exists>e. r = Inl e)"
    using cbuf_reader_spec [OF assms] by blast
  show r: "r = Inr (min len (used cb))"
  proof (cases "min len (used cb) = 0")
    case True
    then show ?thesis using assms(3) by (simp add: cbuf_reader_def)
  next
    case False
    obtain s1 nl m where loop: "reader_loop putf dst (data cb) (i_out cb) (min len (used cb)) (Inr 0) = (s1, nl, m)"
      by (metis prod_cases3)
    have "nl = 0" using reader_loop_full [OF loop] v L assms(2) by simp
    then show ?thesis using assms(3) False by (simp add: cbuf_reader_def loop)
  qed
  have "int k = min len (used cb)"
    using k(4,5) r by (cases "k = 0") auto
  then have "take k (unread cb) = take (nat len) (unread cb)"
    by (cases "len \<le> used cb") auto
  then show "taken dst' = taken dst @ take (nat len) (unread cb)"
    using k(1) by simp
qed

lemma cbuf_replayer_full:
  assumes "cbuf_is_valid cb" "0 < len" "cbuf_replayer cb len putf dst = (r, dst')"
  shows "r = Inr (min len (cbuf_reused cb))"
    and "taken dst' = taken dst @ newest len (replayable cb)"
proof -
  note v = cbuf_valid_range [OF assms(1)] and L = cbuf_valid_length [OF assms(1)]
    and g = cbuf_valid_geometry [OF assms(1)]
  obtain k where k: "taken dst' = taken dst @ take k (newest len (replayable cb))"
      "int k \<le> len" "int k \<le> cbuf_reused cb"
      "0 < k \<Longrightarrow> r = Inr (int k)" "k = 0 \<Longrightarrow> r = Inr 0 \<or> (\<exists>e. r = Inl e)"
    using cbuf_replayer_spec [OF assms] by blast
  show r: "r = Inr (min len (cbuf_reused cb))"
  proof (cases "min len (cbuf_reused cb) = 0")
    case True
    then show ?thesis using assms(3) by (simp add: cbuf_replayer_eq)
  next
    case False
    let ?l = "min len (cbuf_reused cb)"
    let ?i = "(i_out cb - ?l + (bsize cb + 1)) mod (bsize cb + 1)"
    obtain s1 nl m where loop: "reader_loop putf dst (data cb) ?i ?l (Inr 0) = (s1, nl, m)"
      by (metis prod_cases3)
    have "nl = 0"
      using reader_loop_full [OF loop cbuf_index_inside(1,2) [OF assms(1)]] g(3) assms(2) by simp
    then show ?thesis using assms(3) False loop by (simp add: cbuf_replayer_eq Let_def)
  qed
  have "int k = min len (cbuf_reused cb)"
    using k(4,5) r by (cases "k = 0") auto
  moreover have "int (length (newest len (replayable cb))) = min (cbuf_reused cb) len"
    using assms(2) g(3) by (simp add: length_newest)
  ultimately have "take k (newest len (replayable cb)) = newest len (replayable cb)"
    by simp
  then show "taken dst' = taken dst @ newest len (replayable cb)"
    using k(1) by simp
qed

end

section \<open>Memory blocks and file descriptors\<close>

interpretation mem_source: full_source cbuf_get_mem "\<lambda>bs. bs"
  by unfold_locales (auto simp: cbuf_get_mem_def)

interpretation mem_sink: full_sink cbuf_put_mem "\<lambda>bs. bs"
  by unfold_locales (auto simp: cbuf_put_mem_def)

text \<open>What a descriptor still has to give, and what it has been given.\<close>

fun fd_rest :: "rd_event list \<Rightarrow> byte list" where
  "fd_rest [] = []"
| "fd_rest (RdData bs # es) = bs @ fd_rest es"
| "fd_rest (_ # es) = fd_rest es"

lemma cbuf_get_fd_ok:
  "cbuf_get_fd es n = (Inr bs, es') \<Longrightarrow> 0 < n \<Longrightarrow>
    int (length bs) \<le> n \<and> fd_rest es = bs @ fd_rest es'"
  by (induction es n rule: cbuf_get_fd.induct) (auto split: if_splits)

lemma cbuf_get_fd_err:
  "cbuf_get_fd es n = (Inl e, es') \<Longrightarrow> fd_rest es' = fd_rest es"
  by (induction es n rule: cbuf_get_fd.induct) auto

lemma fd_put_ok:
  "fd_put es out bs = (Inr k, fd) \<Longrightarrow>
    0 \<le> k \<and> k \<le> int (length bs) \<and> fd_bytes fd = out @ take (nat k) bs"
  by (induction es out bs rule: fd_put.induct) (auto simp: min_def split: if_splits)

lemma fd_put_err: "fd_put es out bs = (Inl e, fd) \<Longrightarrow> fd_bytes fd = out"
  by (induction es out bs rule: fd_put.induct) auto

interpretation fd_source: byte_source cbuf_get_fd fd_rest
  by unfold_locales (auto dest: cbuf_get_fd_ok cbuf_get_fd_err)

interpretation fd_sink: byte_sink cbuf_put_fd fd_bytes
  by unfold_locales (auto simp: cbuf_put_fd_def dest: fd_put_ok fd_put_err)

end
