(* ===== verification/Cbuf_Ops.thy ===== *)
theory Cbuf_Ops
  imports Cbuf_IO
begin

text \<open>
  The public byte operations of \<open>cbuf.c\<close>: options, drop, peek, read, replay, rewind and
  write, their variants on file descriptors, and copying between buffers. Each returns the
  C return value (\<open>Inl e\<close> for \<open>-1\<close> with \<open>errno\<close> set), what it stored
  through its pointers, and the buffer. A destination block is \<open>None\<close> for a null
  pointer; otherwise the bytes delivered overwrite its beginning (\<open>store_at\<close>).
\<close>

section \<open>Options\<close>

definition CBUF_OPT_OVERWRITE :: int where
  [cbuf_defs]: "CBUF_OPT_OVERWRITE = 0"

fun overwrite_code :: "cbuf_overwrite_t \<Rightarrow> int" where
  "overwrite_code CBUF_NO_DROP = 0"
| "overwrite_code CBUF_WRAP_ONCE = 1"
| "overwrite_code CBUF_WRAP_MANY = 2"

text \<open>\<open>value\<close> is whether the pointer given is not null; the value read is returned.\<close>

definition cbuf_opt_get :: "cbuf \<Rightarrow> int \<Rightarrow> bool \<Rightarrow> int result" where
  "cbuf_opt_get cb name value =
    (if \<not> value then Inl EINVAL
     else if name = CBUF_OPT_OVERWRITE then Inr (overwrite_code (overwrite cb))
     else Inl EINVAL)"

definition cbuf_opt_set :: "cbuf \<Rightarrow> int \<Rightarrow> int \<Rightarrow> int result \<times> cbuf" where
  "cbuf_opt_set cb name value =
    (if name = CBUF_OPT_OVERWRITE then
       if value = overwrite_code CBUF_NO_DROP then (Inr 0, cb\<lparr>overwrite := CBUF_NO_DROP\<rparr>)
       else if value = overwrite_code CBUF_WRAP_ONCE then (Inr 0, cb\<lparr>overwrite := CBUF_WRAP_ONCE\<rparr>)
       else if value = overwrite_code CBUF_WRAP_MANY then (Inr 0, cb\<lparr>overwrite := CBUF_WRAP_MANY\<rparr>)
       else (Inl EINVAL, cb)
     else (Inl EINVAL, cb))"

section \<open>Bytes to and from memory\<close>

definition store_at :: "byte list \<Rightarrow> byte list \<Rightarrow> byte list" where
  "store_at stored buf = stored @ drop (length stored) buf"

definition cbuf_drop :: "cbuf \<Rightarrow> int \<Rightarrow> int result \<times> cbuf" where
  "cbuf_drop src len =
    (if len < -1 then (Inl EINVAL, src)
     else if len = 0 then (Inr 0, src)
     else
       let len = (if len = -1 then used src else min len (used src))
       in (Inr len, if len > 0 then cbuf_dropper src len else src))"

definition cbuf_peek :: "cbuf \<Rightarrow> byte list option \<Rightarrow> int \<Rightarrow> int result \<times> byte list option" where
  "cbuf_peek src dstbuf len =
    (case dstbuf of
       None \<Rightarrow> (Inl EINVAL, None)
     | Some buf \<Rightarrow>
         if len < 0 then (Inl EINVAL, dstbuf)
         else if len = 0 then (Inr 0, dstbuf)
         else let (n, out) = cbuf_reader src len cbuf_put_mem []
              in (n, Some (store_at out buf)))"

definition cbuf_read ::
  "cbuf \<Rightarrow> byte list option \<Rightarrow> int \<Rightarrow> int result \<times> byte list option \<times> cbuf" where
  "cbuf_read src dstbuf len =
    (case dstbuf of
       None \<Rightarrow> (Inl EINVAL, None, src)
     | Some buf \<Rightarrow>
         if len < 0 then (Inl EINVAL, dstbuf, src)
         else if len = 0 then (Inr 0, dstbuf, src)
         else let (n, out) = cbuf_reader src len cbuf_put_mem []
              in (n, Some (store_at out buf),
                  case n of Inr k \<Rightarrow> if k > 0 then cbuf_dropper src k else src | Inl e \<Rightarrow> src))"

definition cbuf_replay :: "cbuf \<Rightarrow> byte list option \<Rightarrow> int \<Rightarrow> int result \<times> byte list option" where
  "cbuf_replay src dstbuf len =
    (case dstbuf of
       None \<Rightarrow> (Inl EINVAL, None)
     | Some buf \<Rightarrow>
         if len < 0 then (Inl EINVAL, dstbuf)
         else if len = 0 then (Inr 0, dstbuf)
         else let (n, out) = cbuf_replayer src len cbuf_put_mem []
              in (n, Some (store_at out buf)))"

definition cbuf_rewind :: "cbuf \<Rightarrow> int \<Rightarrow> int result \<times> cbuf" where
  "cbuf_rewind src len =
    (if len < -1 then (Inl EINVAL, src)
     else if len = 0 then (Inr 0, src)
     else
       let reused = (i_out src - i_rep src + (bsize src + 1)) mod (bsize src + 1);
           len = (if len = -1 then reused else min len reused)
       in (Inr len,
           if len > 0 then
             src\<lparr>used := used src + len,
                 i_out := (i_out src - len + (bsize src + 1)) mod (bsize src + 1)\<rparr>
           else src))"

text \<open>The last component is \<open>*ndropped\<close>, and the buffer.\<close>

definition cbuf_write ::
  "allocator \<Rightarrow> cbuf \<Rightarrow> byte list option \<Rightarrow> int \<Rightarrow> int result \<times> int \<times> cbuf" where
  "cbuf_write mem dst srcbuf len =
    (case srcbuf of
       None \<Rightarrow> (Inl EINVAL, 0, dst)
     | Some src \<Rightarrow>
         if len < 0 then (Inl EINVAL, 0, dst)
         else if len = 0 then (Inr 0, 0, dst)
         else let (n, ndropped, _, dst') = cbuf_writer mem dst len cbuf_get_mem src 0
              in (n, ndropped, dst'))"

section \<open>File descriptors\<close>

definition cbuf_peek_to_fd :: "cbuf \<Rightarrow> int \<Rightarrow> fd_out \<Rightarrow> int \<Rightarrow> int result \<times> fd_out" where
  "cbuf_peek_to_fd src dstfd fd len =
    (if dstfd < 0 \<or> len < -1 then (Inl EINVAL, fd)
     else
       let len = (if len = -1 then used src else len)
       in if len > 0 then cbuf_reader src len cbuf_put_fd fd else (Inr 0, fd))"

definition cbuf_read_to_fd :: "cbuf \<Rightarrow> int \<Rightarrow> fd_out \<Rightarrow> int \<Rightarrow> int result \<times> fd_out \<times> cbuf" where
  "cbuf_read_to_fd src dstfd fd len =
    (if dstfd < 0 \<or> len < -1 then (Inl EINVAL, fd, src)
     else
       let len = (if len = -1 then used src else len)
       in if len > 0 then
            let (n, fd') = cbuf_reader src len cbuf_put_fd fd
            in (n, fd', case n of Inr k \<Rightarrow> if k > 0 then cbuf_dropper src k else src | Inl e \<Rightarrow> src)
          else (Inr 0, fd, src))"

definition cbuf_replay_to_fd :: "cbuf \<Rightarrow> int \<Rightarrow> fd_out \<Rightarrow> int \<Rightarrow> int result \<times> fd_out" where
  "cbuf_replay_to_fd src dstfd fd len =
    (if dstfd < 0 \<or> len < -1 then (Inl EINVAL, fd)
     else
       let len = (if len = -1 then bsize src - used src else len)
       in if len > 0 then cbuf_replayer src len cbuf_put_fd fd else (Inr 0, fd))"

definition cbuf_write_from_fd ::
  "allocator \<Rightarrow> cbuf \<Rightarrow> int \<Rightarrow> rd_event list \<Rightarrow> int
    \<Rightarrow> int result \<times> int \<times> rd_event list \<times> cbuf" where
  "cbuf_write_from_fd mem dst srcfd fd len =
    (if srcfd < 0 \<or> len < -1 then (Inl EINVAL, 0, fd, dst)
     else
       let len =
         (if len = -1 then
            let nfree = bsize dst - used dst
            in if nfree = 0 then min (bsize dst) CBUF_CHUNK else nfree
          else len)
       in if len > 0 then cbuf_writer mem dst len cbuf_get_fd fd 0 else (Inr 0, 0, fd, dst))"

section \<open>Between buffers\<close>

text \<open>
  The loop of \<open>cbuf_copier\<close>: blocks bounded by the end of either array. Both indices are
  inside their arrays, so \<open>n\<close> is positive.
\<close>

function copier_loop ::
  "byte list \<Rightarrow> byte list \<Rightarrow> int \<Rightarrow> int \<Rightarrow> int \<Rightarrow> byte list \<times> int" where
  "copier_loop sd dd i_src i_dst nleft =
    (let n = min (min (int (length sd) - i_src) (int (length dd) - i_dst)) nleft
     in if nleft > 0 \<and> n > 0
        then copier_loop sd (blit dd i_dst (take (nat n) (drop (nat i_src) sd)))
               ((i_src + n) mod int (length sd)) ((i_dst + n) mod int (length dd)) (nleft - n)
        else (dd, i_dst))"
  by pat_completeness auto
termination
  by (relation "measure (\<lambda>(sd, dd, i_src, i_dst, nleft). nat nleft)") auto

declare copier_loop.simps [simp del]

definition cbuf_copier ::
  "allocator \<Rightarrow> cbuf \<Rightarrow> cbuf \<Rightarrow> int \<Rightarrow> int \<Rightarrow> int result \<times> int \<times> cbuf" where
  "cbuf_copier mem src dst len ndropped =
    (let len = min len (used src)
     in if len = 0 then (Inr 0, ndropped, dst)
        else
          let nfree0 = bsize dst - used dst;
              (grown, dst) =
                (if len > nfree0 \<and> bsize dst < maxsize dst
                 then cbuf_grow mem dst (len - nfree0) else (0, dst));
              nfree = nfree0 + grown;
              len =
                (case overwrite dst of
                   CBUF_NO_DROP \<Rightarrow> min len (bsize dst - used dst)
                 | CBUF_WRAP_ONCE \<Rightarrow> min len (bsize dst)
                 | CBUF_WRAP_MANY \<Rightarrow> len)
          in if overwrite dst = CBUF_NO_DROP \<and> len = 0 then (Inl ENOSPC, ndropped, dst)
             else
               let ndropped = max 0 (len - bsize dst + used dst);
                   (i_src, ncopy) =
                     (if len > bsize dst
                      then ((i_out src + (len - bsize dst)) mod (bsize src + 1), bsize dst)
                      else (i_out src, len));
                   (d', i_dst) = copier_loop (data src) (data dst) i_src (i_in dst) ncopy
               in (Inr len, ndropped,
                   if ncopy > 0 then cbuf_advance (dst\<lparr>data := d'\<rparr>) nfree ncopy i_dst
                   else dst\<lparr>data := d'\<rparr>))"

text \<open>\<open>same\<close> is whether the two handles are the same buffer.\<close>

definition cbuf_copy ::
  "allocator \<Rightarrow> bool \<Rightarrow> cbuf \<Rightarrow> cbuf \<Rightarrow> int \<Rightarrow> int result \<times> int \<times> cbuf" where
  "cbuf_copy mem same src dst len =
    (if same then (Inl EINVAL, 0, dst)
     else if len < -1 then (Inl EINVAL, 0, dst)
     else if len = 0 then (Inr 0, 0, dst)
     else
       let len = (if len = -1 then used src else len)
       in if len > 0 then cbuf_copier mem src dst len 0 else (Inr 0, 0, dst))"

definition cbuf_move ::
  "allocator \<Rightarrow> bool \<Rightarrow> cbuf \<Rightarrow> cbuf \<Rightarrow> int \<Rightarrow> int result \<times> int \<times> cbuf \<times> cbuf" where
  "cbuf_move mem same src dst len =
    (if same then (Inl EINVAL, 0, src, dst)
     else if len < -1 then (Inl EINVAL, 0, src, dst)
     else if len = 0 then (Inr 0, 0, src, dst)
     else
       let len = (if len = -1 then used src else len)
       in if len > 0 then
            let (n, ndropped, dst') = cbuf_copier mem src dst len 0
            in (n, ndropped,
                (case n of Inr k \<Rightarrow> if k > 0 then cbuf_dropper src k else src | Inl e \<Rightarrow> src), dst')
          else (Inr 0, 0, src, dst))"

section \<open>What the operations do\<close>

lemma cbuf_drop_spec:
  assumes "cbuf_is_valid cb" "cbuf_drop cb len = (r, cb')"
  shows "cbuf_is_valid cb'" and "history cb' = history cb"
    and "len < -1 \<Longrightarrow> r = Inl EINVAL \<and> cb' = cb"
    and "-1 \<le> len \<Longrightarrow> \<exists>n. r = Inr n \<and> unread cb' = drop (nat n) (unread cb) \<and>
      n = (if len = -1 then used cb else min len (used cb))"
proof -
  let ?n = "if len = -1 then used cb else min len (used cb)"
  have n: "0 \<le> ?n" "?n \<le> used cb" if "-1 \<le> len"
    using that cbuf_valid_range [OF assms(1)] by auto
  have e: "cb' = (if -1 \<le> len \<and> 0 < ?n then cbuf_dropper cb ?n else cb)"
    using assms(2) n by (auto simp: cbuf_drop_def Let_def split: if_splits)
  show "cbuf_is_valid cb'" "history cb' = history cb"
    using n cbuf_dropper_valid(1) [OF assms(1), of ?n] cbuf_dropper_history [OF assms(1), of ?n] assms(1)
    by (auto simp: e)
  show "len < -1 \<Longrightarrow> r = Inl EINVAL \<and> cb' = cb"
    using assms(2) by (simp add: cbuf_drop_def)
  assume len: "-1 \<le> len"
  then have "r = Inr ?n"
    using assms(2) cbuf_valid_range(5) [OF assms(1)] by (auto simp: cbuf_drop_def Let_def split: if_splits)
  moreover have "unread cb' = drop (nat ?n) (unread cb)"
    using n [OF len] cbuf_dropper_unread [OF assms(1), of ?n] len unfolding e by auto
  ultimately show "\<exists>n. r = Inr n \<and> unread cb' = drop (nat n) (unread cb) \<and> n = ?n"
    by blast
qed

lemma cbuf_peek_spec:
  assumes "cbuf_is_valid cb" "0 \<le> len"
  shows "cbuf_peek cb (Some buf) len =
    (Inr (min len (used cb)), Some (store_at (take (nat len) (unread cb)) buf))"
proof (cases "len = 0")
  case True
  then show ?thesis
    using cbuf_valid_range(5) [OF assms(1)] by (simp add: cbuf_peek_def store_at_def)
next
  case False
  obtain r out where e: "cbuf_reader cb len cbuf_put_mem [] = (r, out)"
    by (meson surj_pair)
  show ?thesis
    using mem_sink.cbuf_reader_full [OF assms(1) _ e] assms(2) False by (simp add: cbuf_peek_def e)
qed

lemma cbuf_read_peek_drop:
  assumes "cbuf_is_valid cb" "0 \<le> len"
  shows "cbuf_read cb (Some buf) len =
    (let (r, out) = cbuf_peek cb (Some buf) len in (r, out, snd (cbuf_drop cb len)))"
proof (cases "len = 0")
  case True
  then show ?thesis by (simp add: cbuf_read_def cbuf_peek_def cbuf_drop_def)
next
  case False
  obtain r out where e: "cbuf_reader cb len cbuf_put_mem [] = (r, out)"
    by (meson surj_pair)
  have "r = Inr (min len (used cb))"
    using mem_sink.cbuf_reader_full [OF assms(1) _ e] assms(2) False by simp
  then show ?thesis
    using assms(2) False by (simp add: cbuf_read_def cbuf_peek_def cbuf_drop_def e Let_def)
qed

lemma cbuf_read_spec:
  assumes "cbuf_is_valid cb" "0 \<le> len" "cbuf_read cb (Some buf) len = (r, out, cb')"
  shows "r = Inr (min len (used cb))"
    and "out = Some (store_at (take (nat len) (unread cb)) buf)"
    and "unread cb' = drop (nat len) (unread cb)"
    and "cbuf_is_valid cb'" and "history cb' = history cb"
proof -
  obtain r' where d: "cbuf_drop cb len = (r', cb')"
    using assms(3) by (auto simp: cbuf_read_peek_drop [OF assms(1,2)] split: prod.splits) (metis surjective_pairing)
  note D = cbuf_drop_spec [OF assms(1) d]
  show "r = Inr (min len (used cb))" "out = Some (store_at (take (nat len) (unread cb)) buf)"
    using assms(3) by (simp_all add: cbuf_read_peek_drop [OF assms(1,2)] cbuf_peek_spec [OF assms(1,2)])
  show "cbuf_is_valid cb'" "history cb' = history cb"
    by (rule D)+
  have "unread cb' = drop (nat (min len (used cb))) (unread cb)"
    using D(4) assms(2) by auto
  then show "unread cb' = drop (nat len) (unread cb)"
    by (cases "len \<le> used cb") auto
qed

lemma cbuf_replay_spec:
  assumes "cbuf_is_valid cb" "0 \<le> len"
  shows "cbuf_replay cb (Some buf) len =
    (Inr (min len (cbuf_reused cb)), Some (store_at (newest len (replayable cb)) buf))"
proof (cases "len = 0")
  case True
  then show ?thesis
    using cbuf_valid_geometry(3) [OF assms(1)] by (simp add: cbuf_replay_def store_at_def newest_def)
next
  case False
  obtain r out where e: "cbuf_replayer cb len cbuf_put_mem [] = (r, out)"
    by (meson surj_pair)
  show ?thesis
    using mem_sink.cbuf_replayer_full [OF assms(1) _ e] assms(2) False by (simp add: cbuf_replay_def e)
qed

lemma cbuf_rewind_eq:
  "cbuf_rewind src len =
    (if len < -1 then (Inl EINVAL, src)
     else if len = 0 then (Inr 0, src)
     else
       let len = (if len = -1 then cbuf_reused src else min len (cbuf_reused src))
       in (Inr len, if len > 0 then cbuf_rewound src len else src))"
  by (simp only: cbuf_rewind_def cbuf_reused_def cbuf_rewound_def Let_def)

lemma cbuf_rewind_spec:
  assumes "cbuf_is_valid cb" "cbuf_rewind cb len = (r, cb')"
  shows "cbuf_is_valid cb'"
    and "len < -1 \<Longrightarrow> r = Inl EINVAL \<and> cb' = cb"
    and "-1 \<le> len \<Longrightarrow> \<exists>n. r = Inr n \<and>
      n = (if len = -1 then cbuf_reused cb else min len (cbuf_reused cb)) \<and>
      unread cb' = newest n (replayable cb) @ unread cb"
proof -
  let ?n = "if len = -1 then cbuf_reused cb else min len (cbuf_reused cb)"
  note g = cbuf_valid_geometry [OF assms(1)]
  have n: "0 \<le> ?n" "?n \<le> cbuf_reused cb" if "-1 \<le> len"
    using that g(3) by auto
  have e: "cb' = (if -1 \<le> len \<and> 0 < ?n then cbuf_rewound cb ?n else cb)"
    using assms(2) by (auto simp: cbuf_rewind_eq Let_def split: if_splits)
  show "cbuf_is_valid cb'"
    using n cbuf_rewound_dropper(1) [OF assms(1), of ?n] assms(1) by (auto simp: e)
  show "len < -1 \<Longrightarrow> r = Inl EINVAL \<and> cb' = cb"
    using assms(2) by (simp add: cbuf_rewind_eq)
  assume len: "-1 \<le> len"
  then have "r = Inr ?n"
    using assms(2) g(3) by (auto simp: cbuf_rewind_eq Let_def split: if_splits)
  moreover have "unread cb' = newest ?n (replayable cb) @ unread cb"
  proof (cases "0 < ?n")
    case True
    then show ?thesis
      using len n [OF len] cbuf_rewound_unread [OF assms(1), of ?n] e by (simp add: newest_def)
  next
    case False
    then have "?n = 0" "cb' = cb" using n [OF len] e by auto
    then show ?thesis by (simp only: newest_def) simp
  qed
  ultimately show "\<exists>n. r = Inr n \<and> n = ?n \<and> unread cb' = newest n (replayable cb) @ unread cb"
    by blast
qed

text \<open>What each overwrite policy admits of a write of \<open>len\<close> bytes.\<close>

definition write_count :: "cbuf_overwrite_t \<Rightarrow> int \<Rightarrow> int \<Rightarrow> int \<Rightarrow> int" where
  "write_count ov sz us len =
    (case ov of CBUF_NO_DROP \<Rightarrow> min len (sz - us) | CBUF_WRAP_ONCE \<Rightarrow> min len sz
     | CBUF_WRAP_MANY \<Rightarrow> len)"

text \<open>
  The effect of appending \<open>bs\<close> to a buffer: the contract of every write and copy.
\<close>

definition appended :: "byte list \<Rightarrow> cbuf \<Rightarrow> cbuf \<Rightarrow> bool" where
  "appended bs cb cb' \<longleftrightarrow>
     cbuf_is_valid cb' \<and> unread cb' = newest (bsize cb') (unread cb @ bs) \<and>
     bsize cb \<le> bsize cb' \<and> overwrite cb' = overwrite cb \<and>
     minsize cb' = minsize cb \<and> maxsize cb' = maxsize cb \<and>
     (overwrite cb = CBUF_NO_DROP \<longrightarrow> unread cb' = unread cb @ bs)"

lemma appendedI:
  assumes "cbuf_is_valid cb'" "unread cb' = newest (bsize cb') (unread cb @ bs)"
    "bsize cb \<le> bsize cb'" "overwrite cb' = overwrite cb"
    "minsize cb' = minsize cb" "maxsize cb' = maxsize cb"
    "overwrite cb = CBUF_NO_DROP \<Longrightarrow> int (length (unread cb @ bs)) \<le> bsize cb'"
  shows "appended bs cb cb'"
  using assms by (simp add: appended_def)

lemma appended_refl: "cbuf_is_valid cb \<Longrightarrow> appended [] cb cb"
  using cbuf_valid_range(5,6) [of cb] by (intro appendedI) auto

lemma cbuf_writer_unfold:
  assumes "(if len > bsize cb - used cb \<and> bsize cb < maxsize cb
      then cbuf_grow mem cb (len - (bsize cb - used cb)) else (0, cb)) = (g, c)"
    and "bsize c = bsize cb + g" "used c = used cb"
  shows "cbuf_writer mem cb len getf src nd0 =
    (let l = write_count (overwrite c) (bsize c) (used c) len
     in if overwrite c = CBUF_NO_DROP \<and> l = 0 then (Inl ENOSPC, nd0, src, c)
        else case writer_loop getf src (data c) (i_in c) l (Inr 0) of
          (s1, d, i, nl, m) \<Rightarrow>
            if l - nl = 0 then (m, nd0, s1, c\<lparr>data := d\<rparr>)
            else (Inr (l - nl), max 0 (l - nl - (bsize c - used c)), s1,
                  cbuf_advance (c\<lparr>data := d\<rparr>) (bsize c - used c) (l - nl) i))"
proof -
  have nf: "bsize cb - used cb + g = bsize c - used c"
    using assms(2,3) by simp
  show ?thesis
    unfolding cbuf_writer_def Let_def assms(1) case_prod_conv write_count_def nf ..
qed

context full_source
begin

lemma cbuf_writer_full:
  assumes "cbuf_is_valid cb" "0 < len" "cbuf_writer mem cb len getf src nd0 = (r, nd, src', cb')"
    and "len \<le> int (length (rest src))"
  defines "n \<equiv> write_count (overwrite cb) (bsize cb') (used cb) len"
  shows "r = (if n = 0 then Inl ENOSPC else Inr n)" and "n = 0 \<Longrightarrow> overwrite cb = CBUF_NO_DROP"
    and "nd = (if n = 0 then nd0 else max 0 (used cb + n - bsize cb'))"
    and "appended (take (nat n) (rest src)) cb cb'"
proof -
  obtain bs where bs: "rest src = bs @ rest src'" "int (length bs) \<le> len"
      "cbuf_is_valid cb'" "unread cb' = newest (bsize cb') (unread cb @ bs)"
      "bsize cb \<le> bsize cb'" "overwrite cb' = overwrite cb"
      "minsize cb' = minsize cb" "maxsize cb' = maxsize cb"
      "overwrite cb = CBUF_NO_DROP \<Longrightarrow> int (length (unread cb @ bs)) \<le> bsize cb'"
      "overwrite cb = CBUF_WRAP_ONCE \<Longrightarrow> int (length bs) \<le> bsize cb'"
      "bs = [] \<Longrightarrow> r = Inr 0 \<or> (\<exists>e. r = Inl e)"
      "bs \<noteq> [] \<Longrightarrow> r = Inr (int (length bs)) \<and> nd = max 0 (used cb + int (length bs) - bsize cb')"
    using cbuf_writer_spec [OF assms(1-3)] by blast
  obtain g c where c: "(if len > bsize cb - used cb \<and> bsize cb < maxsize cb
      then cbuf_grow mem cb (len - (bsize cb - used cb)) else (0, cb)) = (g, c)"
    by (meson surj_pair)
  note grown = cbuf_grow_if [OF assms(1) c]
  note v = cbuf_valid_range [OF grown(1)]
  define l where "l = write_count (overwrite c) (bsize c) (used c) len"
  have l: "0 \<le> l" "l \<le> len" "l = 0 \<Longrightarrow> overwrite cb = CBUF_NO_DROP"
    using assms(2) v grown(6) by (auto simp: l_def write_count_def split: cbuf_overwrite_t.splits)
  note W = cbuf_writer_unfold [OF c grown(3,5), of getf src nd0, folded l_def]
  have "n = l \<and> int (length bs) = n \<and>
      r = (if n = 0 then Inl ENOSPC else Inr n) \<and> nd = (if n = 0 then nd0 else max 0 (used cb + n - bsize cb'))"
  proof (cases "l = 0")
    case True
    then have "r = Inl ENOSPC" "cb' = c" "nd = nd0"
      using assms(3) l(3) grown(6) by (auto simp: W Let_def)
    moreover have "n = l" using \<open>cb' = c\<close> grown by (simp add: n_def l_def)
    ultimately show ?thesis
      using True bs(12) grown(5) v by (cases "bs = []") auto
  next
    case False
    obtain s1 d i nl m where loop: "writer_loop getf src (data c) (i_in c) l (Inr 0) = (s1, d, i, nl, m)"
      by (metis prod_cases5)
    have nl: "nl = 0"
      using writer_loop_full [OF loop] v l assms(4) cbuf_valid_length [OF grown(1)] by simp
    have res: "(r, nd, cb') = (Inr l, max 0 (l - (bsize c - used c)),
        cbuf_advance (c\<lparr>data := d\<rparr>) (bsize c - used c) l i)"
      using assms(3) False nl loop by (simp add: W Let_def)
    then have "bsize cb' = bsize c"
      by (simp add: cbuf_advance_def Let_def)
    then have "n = l" using grown by (simp add: n_def l_def)
    moreover have "bs \<noteq> []" using res bs(11) False by auto
    ultimately show ?thesis
      using res bs(12) False by auto
  qed
  then have n: "n = l" "int (length bs) = n" "r = (if n = 0 then Inl ENOSPC else Inr n)"
      "nd = (if n = 0 then nd0 else max 0 (used cb + n - bsize cb'))"
    by blast+
  show "r = (if n = 0 then Inl ENOSPC else Inr n)" "nd = (if n = 0 then nd0 else max 0 (used cb + n - bsize cb'))"
    by (rule n)+
  show "n = 0 \<Longrightarrow> overwrite cb = CBUF_NO_DROP"
    using l(3) n(1) by simp
  have "bs = take (nat n) (rest src)"
    using n(2) bs(1) by (metis append_eq_conv_conj nat_int)
  then show "appended (take (nat n) (rest src)) cb cb'"
    using bs by (intro appendedI) simp_all
qed

end

lemma cbuf_write_spec:
  assumes "cbuf_is_valid cb" "0 < len" "len \<le> int (length src)"
    "cbuf_write mem cb (Some src) len = (r, nd, cb')"
  defines "n \<equiv> write_count (overwrite cb) (bsize cb') (used cb) len"
  shows "r = (if n = 0 then Inl ENOSPC else Inr n)" and "n = 0 \<Longrightarrow> overwrite cb = CBUF_NO_DROP"
    and "nd = max 0 (used cb + n - bsize cb')"
    and "appended (take (nat n) src) cb cb'"
proof -
  obtain s' where w: "cbuf_writer mem cb len cbuf_get_mem src 0 = (r, nd, s', cb')"
    using assms(2,4) by (auto simp: cbuf_write_def split: prod.splits)
  note W = mem_source.cbuf_writer_full [OF assms(1,2) w assms(3), folded n_def]
  show "r = (if n = 0 then Inl ENOSPC else Inr n)"
    "appended (take (nat n) src) cb cb'" "n = 0 \<Longrightarrow> overwrite cb = CBUF_NO_DROP"
    using W by simp_all
  have "used cb \<le> bsize cb'"
    using W(4) cbuf_valid_range(6) [OF assms(1)] by (simp add: appended_def)
  then show "nd = max 0 (used cb + n - bsize cb')"
    using W(3) by simp
qed

lemma cbuf_write_from_fd_spec:
  assumes "cbuf_is_valid cb" "cbuf_write_from_fd mem cb srcfd fd len = (r, nd, fd', cb')"
  obtains bs where "fd_rest fd = bs @ fd_rest fd'" "appended bs cb cb'"
    "bs = [] \<Longrightarrow> r = Inr 0 \<or> (\<exists>e. r = Inl e)"
    "bs \<noteq> [] \<Longrightarrow> r = Inr (int (length bs)) \<and> nd = max 0 (used cb + int (length bs) - bsize cb')"
proof -
  define l where "l = (if len = -1 then
      let nfree = bsize cb - used cb in if nfree = 0 then min (bsize cb) CBUF_CHUNK else nfree
      else len)"
  have e: "cbuf_write_from_fd mem cb srcfd fd len =
    (if srcfd < 0 \<or> len < -1 then (Inl EINVAL, 0, fd, cb)
     else if l > 0 then cbuf_writer mem cb l cbuf_get_fd fd 0 else (Inr 0, 0, fd, cb))"
    by (simp only: cbuf_write_from_fd_def l_def Let_def)
  show thesis
  proof (cases "srcfd < 0 \<or> len < -1 \<or> l \<le> 0")
    case True
    then have "r = Inl EINVAL \<or> r = Inr 0" "fd' = fd" "cb' = cb"
      using assms(2) by (auto simp: e split: if_splits)
    then show thesis
      using appended_refl [OF assms(1)] by (intro that [of "[]"]) auto
  next
    case False
    then have w: "cbuf_writer mem cb l cbuf_get_fd fd 0 = (r, nd, fd', cb')" and l: "0 < l"
      using assms(2) False by (simp_all add: e)
    obtain bs where bs:
      "fd_rest fd = bs @ fd_rest fd'" "int (length bs) \<le> l" "cbuf_is_valid cb'"
      "unread cb' = newest (bsize cb') (unread cb @ bs)" "bsize cb \<le> bsize cb'"
      "overwrite cb' = overwrite cb" "minsize cb' = minsize cb" "maxsize cb' = maxsize cb"
      "overwrite cb = CBUF_NO_DROP \<Longrightarrow> int (length (unread cb @ bs)) \<le> bsize cb'"
      "overwrite cb = CBUF_WRAP_ONCE \<Longrightarrow> int (length bs) \<le> bsize cb'"
      "bs = [] \<Longrightarrow> r = Inr 0 \<or> (\<exists>e. r = Inl e)"
      "bs \<noteq> [] \<Longrightarrow> r = Inr (int (length bs)) \<and> nd = max 0 (used cb + int (length bs) - bsize cb')"
      using fd_source.cbuf_writer_spec [OF assms(1) l w] by blast
    then show thesis
      by (intro that [of bs] appendedI) auto
  qed
qed

section \<open>Delivery to a file descriptor\<close>

text \<open>
  \<open>cbuf_read_to_fd\<close> consumes exactly the bytes the descriptor took, whatever the
  descriptor does: no byte is lost or sent twice.
\<close>

lemma cbuf_read_to_fd_spec:
  assumes "cbuf_is_valid cb" "cbuf_read_to_fd cb dstfd fd len = (r, fd', cb')"
  obtains k where "fd_bytes fd' = fd_bytes fd @ take k (unread cb)"
    "unread cb' = drop k (unread cb)" "cbuf_is_valid cb'" "history cb' = history cb"
    "0 < k \<Longrightarrow> r = Inr (int k)" "k = 0 \<Longrightarrow> r = Inr 0 \<or> (\<exists>e. r = Inl e)"
proof -
  define l where "l = (if len = -1 then used cb else len)"
  have e: "cbuf_read_to_fd cb dstfd fd len =
    (if dstfd < 0 \<or> len < -1 then (Inl EINVAL, fd, cb)
     else if l > 0 then
       case cbuf_reader cb l cbuf_put_fd fd of (n, fd') \<Rightarrow>
         (n, fd', case n of Inr k \<Rightarrow> if k > 0 then cbuf_dropper cb k else cb | Inl e \<Rightarrow> cb)
     else (Inr 0, fd, cb))"
    by (simp only: cbuf_read_to_fd_def l_def Let_def)
  show thesis
  proof (cases "dstfd < 0 \<or> len < -1 \<or> l \<le> 0")
    case True
    then have "r = Inl EINVAL \<or> r = Inr 0" "fd' = fd" "cb' = cb"
      using assms(2) by (auto simp: e split: if_splits)
    then show thesis
      using assms(1) by (intro that [of 0]) auto
  next
    case False
    obtain r1 f1 where rd: "cbuf_reader cb l cbuf_put_fd fd = (r1, f1)"
      by (meson surj_pair)
    have res: "r = r1" "fd' = f1"
        "cb' = (case r1 of Inr k \<Rightarrow> if k > 0 then cbuf_dropper cb k else cb | Inl e \<Rightarrow> cb)"
      using assms(2) False by (auto simp: e rd)
    have l: "0 < l" using False by simp
    obtain k where k:
      "fd_bytes f1 = fd_bytes fd @ take k (unread cb)" "int k \<le> l" "int k \<le> used cb"
      "0 < k \<Longrightarrow> r1 = Inr (int k)" "k = 0 \<Longrightarrow> r1 = Inr 0 \<or> (\<exists>e. r1 = Inl e)"
      using fd_sink.cbuf_reader_spec [OF assms(1) l rd] by blast
    have "cb' = (if 0 < k then cbuf_dropper cb (int k) else cb)"
      using res(3) k(4,5) by (cases "k = 0") auto
    then have "unread cb' = drop k (unread cb) \<and> cbuf_is_valid cb' \<and> history cb' = history cb"
      using cbuf_dropper_valid(1) [OF assms(1), of "int k"] cbuf_dropper_history [OF assms(1), of "int k"]
        cbuf_dropper_unread [OF assms(1), of "int k"] k(3) assms(1) by auto
    then show thesis
      using k res(1,2) by (intro that [of k]) auto
  qed
qed

section \<open>Copying between buffers\<close>

lemma copier_loop_eq:
  assumes "0 \<le> i" "i < int (length sd)" "0 \<le> j" "j < int (length dd)" "0 \<le> n"
  shows "copier_loop sd dd i j n =
    (put dd j (window sd i (nat n)), if n = 0 then j else (j + n) mod int (length dd))"
  using assms
proof (induction "nat n" arbitrary: dd i j n rule: less_induct)
  case less
  show ?case
  proof (cases "n = 0")
    case True
    then show ?thesis by (simp add: copier_loop.simps)
  next
    case False
    define k where "k = min (min (int (length sd) - i) (int (length dd) - j)) n"
    have k: "0 < k" "k \<le> n" "i + k \<le> int (length sd)" "j + k \<le> int (length dd)"
      using less.prems False by (auto simp: k_def)
    have w: "take (nat k) (drop (nat i) sd) = window sd i (nat k)"
      using k less.prems by (intro window_slice) auto
    have b: "blit dd j (window sd i (nat k)) = put dd j (window sd i (nat k))"
      using k less.prems by (intro blit_put) auto
    let ?dd = "put dd j (window sd i (nat k))"
    let ?i = "(i + k) mod int (length sd)" and ?j = "(j + k) mod int (length dd)"
    have pos: "0 < int (length sd)" "0 < int (length dd)"
      using less.prems by linarith+
    have dec: "nat (n - k) < nat n"
      using k by simp
    have len: "length ?dd = length dd" by simp
    have ih: "copier_loop sd ?dd ?i ?j (n - k) =
        (put ?dd ?j (window sd ?i (nat (n - k))),
         if n - k = 0 then ?j else (?j + (n - k)) mod int (length ?dd))"
      by (rule less.hyps [OF dec]) (use pos k len in auto)
    have "put ?dd ?j (window sd ?i (nat (n - k))) = put dd j (window sd i (nat n))"
    proof -
      have "nat n = nat k + nat (n - k)" using k by (simp add: nat_diff_distrib)
      then have "window sd i (nat n) = window sd i (nat k) @ window sd ?i (nat (n - k))"
        using k by (simp add: window_add)
      moreover have "put ?dd ?j ys = put ?dd (j + k) ys" for ys
        using put_mod [of ?dd] by simp
      ultimately show ?thesis
        using k by (simp add: put_append)
    qed
    moreover have "copier_loop sd dd i j n = copier_loop sd ?dd ?i ?j (n - k)"
      using k False less.prems(5)
      by (subst copier_loop.simps) (simp add: k_def [symmetric] Let_def w b)
    ultimately show ?thesis
      using ih False by (auto simp: mod_simps)
  qed
qed

lemma newest_newest_append:
  assumes "0 \<le> n"
  shows "newest n (xs @ newest n ys) = newest n (xs @ ys)"
  using assms by (cases "nat n \<le> length ys") (auto simp: newest_def)

text \<open>
  The buffer after the copy loop: the bytes stored are the newest that fit, and the indices
  are advanced as by a write of that many bytes.
\<close>

lemma cbuf_copied_appended:
  assumes "cbuf_is_valid src" "cbuf_is_valid c" "0 < l" "l \<le> used src"
    and "overwrite c = CBUF_NO_DROP \<Longrightarrow> l \<le> bsize c - used c"
  defines "m \<equiv> min l (bsize c)"
  defines "i \<equiv> (if l > bsize c then (i_out src + (l - bsize c)) mod (bsize src + 1) else i_out src)"
  assumes "copier_loop (data src) (data c) i (i_in c) m = (d, j)"
  shows "appended (take (nat l) (unread src)) c (cbuf_advance (c\<lparr>data := d\<rparr>) (bsize c - used c) m j)"
proof -
  note vs = cbuf_valid_range [OF assms(1)] and vc = cbuf_valid_range [OF assms(2)]
  note Ls = cbuf_valid_length [OF assms(1)] and Lc = cbuf_valid_length [OF assms(2)]
  have m: "0 < m" "m \<le> l" using assms(3) vc by (simp_all add: m_def)
  have i: "0 \<le> i" "i < int (length (data src))"
    using cbuf_index_inside [OF assms(1)] vs Ls by (auto simp: i_def)
  let ?bs = "window (data src) i (nat m)"
  let ?c = "cbuf_advance (c\<lparr>data := d\<rparr>) (bsize c - used c) m j"
  have cl: "copier_loop (data src) (data c) i (i_in c) m =
      (put (data c) (i_in c) ?bs,
       if m = 0 then i_in c else (i_in c + m) mod int (length (data c)))"
    by (rule copier_loop_eq) (use i vc Lc m in auto)
  then have d: "d = put (data c) (i_in c) ?bs" "j = (i_in c + m) mod (bsize c + 1)"
    using assms(8) m Lc by auto
  have ne: "?bs \<noteq> []" and lb: "int (length ?bs) = m"
    using m(1) by (metis length_window length_0_conv zero_less_nat_eq less_irrefl, simp)
  have bs: "?bs = newest (bsize c) (take (nat l) (unread src))"
  proof -
    have "take (nat l) (unread src) = window (data src) (i_out src) (nat l)"
      using assms(4) by (simp add: unread_def take_window)
    moreover have "newest (bsize c) (window (data src) (i_out src) (nat l)) = ?bs"
    proof (cases "l > bsize c")
      case True
      then have "int (nat l - nat (bsize c)) = l - bsize c" "m = bsize c"
          "nat l - (nat l - nat (bsize c)) = nat (bsize c)"
        using vc by (auto simp: m_def)
      then show ?thesis
        using True by (simp add: newest_def drop_window i_def flip: Ls)
    next
      case False
      then have "m = l" by (simp add: m_def)
      then show ?thesis using False assms(3) by (simp add: i_def)
    qed
    ultimately show ?thesis by simp
  qed
  note adv = cbuf_advance_valid [OF assms(2) d(1) ne, unfolded lb, folded d(2)]
  have "unread ?c = newest (bsize c) (unread c @ ?bs)"
    using cbuf_advance_unread [OF assms(2) d(1) ne, unfolded lb, folded d(2)] .
  then have u: "unread ?c = newest (bsize ?c) (unread c @ take (nat l) (unread src))"
    using vc adv(5) by (simp add: bs newest_newest_append)
  show ?thesis
  proof (rule appendedI)
    show "cbuf_is_valid ?c" "bsize c \<le> bsize ?c"
      using adv by simp_all
    show "overwrite ?c = overwrite c" "minsize ?c = minsize c" "maxsize ?c = maxsize c"
      by (simp_all add: cbuf_advance_def Let_def)
    show "int (length (unread c @ take (nat l) (unread src))) \<le> bsize ?c" if "overwrite c = CBUF_NO_DROP"
      using assms(5) [OF that] assms(3,4) vc adv(5) by simp
  qed (rule u)
qed

lemma appended_grown:
  assumes "appended bs c d" "unread c = unread cb" "bsize cb \<le> bsize c" "overwrite c = overwrite cb"
    "minsize c = minsize cb" "maxsize c = maxsize cb"
  shows "appended bs cb d"
  using assms unfolding appended_def by (metis order_trans)

lemma cbuf_copier_spec:
  assumes "cbuf_is_valid src" "cbuf_is_valid dst" "0 < len"
    and "cbuf_copier mem src dst len 0 = (r, nd, dst')"
  defines "n \<equiv> write_count (overwrite dst) (bsize dst') (used dst) (min len (used src))"
  shows "r = (if n = 0 \<and> 0 < used src then Inl ENOSPC else Inr n)"
    and "0 < used src \<Longrightarrow> nd = max 0 (used dst + n - bsize dst')"
    and "appended (take (nat n) (unread src)) dst dst'" and "0 \<le> n" and "n \<le> used src"
proof -
  note vs = cbuf_valid_range [OF assms(1)]
  define l0 where "l0 = min len (used src)"
  have l0: "0 \<le> l0" "l0 \<le> used src" using vs assms(3) by (simp_all add: l0_def)
  have "(r = (if n = 0 \<and> 0 < used src then Inl ENOSPC else Inr n)) \<and>
    (0 < used src \<longrightarrow> nd = max 0 (used dst + n - bsize dst')) \<and>
    appended (take (nat n) (unread src)) dst dst' \<and> 0 \<le> n \<and> n \<le> used src"
  proof (cases "used src = 0")
    case True
    then have "r = Inr 0" "dst' = dst"
      using assms(3,4) by (simp_all add: cbuf_copier_def)
    moreover have "n = 0"
      using True calculation(2) assms(3) cbuf_valid_range [OF assms(2)]
      by (auto simp: n_def write_count_def split: cbuf_overwrite_t.split)
    ultimately show ?thesis
      using True appended_refl [OF assms(2)] by simp
  next
    case False
    then have us: "0 < used src" "0 < l0" "l0 \<noteq> 0" using vs assms(3) by (simp_all add: l0_def)
    obtain g c where c: "(if l0 > bsize dst - used dst \<and> bsize dst < maxsize dst
        then cbuf_grow mem dst (l0 - (bsize dst - used dst)) else (0, dst)) = (g, c)"
      by (meson surj_pair)
    note grown = cbuf_grow_if [OF assms(2) c]
    note v = cbuf_valid_range [OF grown(1)]
    have nf: "bsize dst - used dst + g = bsize c - used c"
      using grown by simp
    define l where "l = write_count (overwrite c) (bsize c) (used c) l0"
    have l: "0 \<le> l" "l \<le> l0" "overwrite c = CBUF_NO_DROP \<Longrightarrow> l \<le> bsize c - used c"
        "l = 0 \<Longrightarrow> overwrite c = CBUF_NO_DROP"
      using us v by (auto simp: l_def write_count_def split: cbuf_overwrite_t.splits)
    have E: "cbuf_copier mem src dst len 0 =
      (if overwrite c = CBUF_NO_DROP \<and> l = 0 then (Inl ENOSPC, 0, c)
       else let (i, m) = (if l > bsize c then ((i_out src + (l - bsize c)) mod (bsize src + 1), bsize c)
                          else (i_out src, l));
                (d, j) = copier_loop (data src) (data c) i (i_in c) m
            in (Inr l, max 0 (l - bsize c + used c),
                if m > 0 then cbuf_advance (c\<lparr>data := d\<rparr>) (bsize c - used c) m j
                else c\<lparr>data := d\<rparr>))"
      unfolding cbuf_copier_def Let_def l0_def [symmetric] if_not_P [OF us(3)] c case_prod_conv nf
        l_def write_count_def ..
    show ?thesis
    proof (cases "l = 0")
      case True
      then have res: "r = Inl ENOSPC" "nd = 0" "dst' = c"
        using assms(4) l(4) by (auto simp: E)
      have "n = 0" using True res(3) grown by (simp add: n_def l_def l0_def)
      moreover have "appended [] dst c"
        by (rule appended_grown [OF appended_refl [OF grown(1)]]) (use grown in auto)
      ultimately show ?thesis
        using res us grown v by simp
    next
      case lp: False
      define m where "m = min l (bsize c)"
      define i where "i = (if l > bsize c then (i_out src + (l - bsize c)) mod (bsize src + 1) else i_out src)"
      obtain d j where dj: "copier_loop (data src) (data c) i (i_in c) m = (d, j)"
        by (meson surj_pair)
      have "0 < m" using lp l(1) v by (simp add: m_def)
      moreover have "(if l > bsize c then ((i_out src + (l - bsize c)) mod (bsize src + 1), bsize c)
          else (i_out src, l)) = (i, m)"
        by (simp add: i_def m_def)
      ultimately have res: "r = Inr l" "nd = max 0 (l - bsize c + used c)"
          "dst' = cbuf_advance (c\<lparr>data := d\<rparr>) (bsize c - used c) m j"
        using assms(4) lp by (auto simp: E dj)
      have app: "appended (take (nat l) (unread src)) c dst'"
        unfolding res(3) by (rule cbuf_copied_appended
          [OF assms(1) grown(1) _ _ l(3) dj [unfolded m_def i_def], folded m_def])
          (use lp l l0 in auto)
      have "bsize dst' = bsize c"
        by (simp add: res(3) cbuf_advance_def Let_def)
      then have "n = l" using grown by (simp add: n_def l_def l0_def)
      moreover have "appended (take (nat l) (unread src)) dst dst'"
        by (rule appended_grown [OF app]) (use grown in auto)
      ultimately show ?thesis
        using res lp grown \<open>bsize dst' = bsize c\<close> l l0 by (simp add: algebra_simps)
    qed
  qed
  then show "r = (if n = 0 \<and> 0 < used src then Inl ENOSPC else Inr n)"
    "0 < used src \<Longrightarrow> nd = max 0 (used dst + n - bsize dst')"
    "appended (take (nat n) (unread src)) dst dst'" "0 \<le> n" "n \<le> used src"
    by blast+
qed

text \<open>
  A move appends to the destination exactly the bytes it takes from the source: nothing is
  lost in between unless the destination may drop, and nothing is duplicated.
\<close>

lemma cbuf_move_spec:
  assumes "cbuf_is_valid src" "cbuf_is_valid dst"
    and "cbuf_move mem False src dst len = (r, nd, src', dst')"
  obtains k where "unread src' = drop k (unread src)" "appended (take k (unread src)) dst dst'"
    "cbuf_is_valid src'" "history src' = history src"
    "0 < k \<Longrightarrow> r = Inr (int k)" "k = 0 \<Longrightarrow> r = Inr 0 \<or> (\<exists>e. r = Inl e)"
proof -
  define l where "l = (if len = -1 then used src else len)"
  have e: "cbuf_move mem False src dst len =
    (if len < -1 then (Inl EINVAL, 0, src, dst) else if len = 0 then (Inr 0, 0, src, dst)
     else if l > 0 then
       case cbuf_copier mem src dst l 0 of (n, nd, dst') \<Rightarrow>
         (n, nd, (case n of Inr k \<Rightarrow> if k > 0 then cbuf_dropper src k else src | Inl e \<Rightarrow> src), dst')
     else (Inr 0, 0, src, dst))"
    by (simp add: cbuf_move_def l_def Let_def)
  show thesis
  proof (cases "len < -1 \<or> len = 0 \<or> l \<le> 0")
    case True
    then have "r = Inl EINVAL \<or> r = Inr 0" "src' = src" "dst' = dst"
      using assms(3) by (auto simp: e split: if_splits)
    then show thesis
      using assms(1) appended_refl [OF assms(2)] by (intro that [of 0]) auto
  next
    case False
    obtain r1 n1 d1 where cp: "cbuf_copier mem src dst l 0 = (r1, n1, d1)"
      by (metis prod_cases3)
    have l: "0 < l" using False by simp
    have res: "r = r1" "dst' = d1"
        "src' = (case r1 of Inr k \<Rightarrow> if k > 0 then cbuf_dropper src k else src | Inl e \<Rightarrow> src)"
      using assms(3) False by (auto simp: e cp)
    define n where "n = write_count (overwrite dst) (bsize d1) (used dst) (min l (used src))"
    note C = cbuf_copier_spec [OF assms(1,2) l cp, folded n_def]
    have "src' = (if 0 < n then cbuf_dropper src n else src)"
      using res(3) C(1) by (auto split: if_splits)
    then have "unread src' = drop (nat n) (unread src) \<and> cbuf_is_valid src' \<and> history src' = history src"
      using cbuf_dropper_valid(1) [OF assms(1), of n] cbuf_dropper_history [OF assms(1), of n]
        cbuf_dropper_unread [OF assms(1), of n] C(4,5) assms(1) by auto
    then show thesis
      using res C by (intro that [of "nat n"]) (auto split: if_splits)
  qed
qed

end
