(* ===== verification/Cbuf_Line.thy ===== *)
theory Cbuf_Line
  imports Cbuf_Ops
begin

text \<open>
  The line operations of \<open>cbuf.c\<close>. The two searches \<open>cbuf_find_unread_line\<close> and
  \<open>cbuf_find_replay_line\<close> walk the array byte by byte until an index meets another;
  they are modelled with fuel, \<open>None\<close> meaning that the loop is still running, and the
  fuel given is shown to be enough for every valid buffer. Their results are then stated on
  lists: the first \<open>k\<close> lines of the unread data, the last \<open>k\<close> lines of the
  replayable data, or as many whole lines as fit in a number of bytes.
\<close>

section \<open>The searches\<close>

text \<open>The result is \<open>(m, l, lines)\<close> when the loop of the C function is left.\<close>

fun unread_line_loop ::
  "nat \<Rightarrow> cbuf \<Rightarrow> int \<Rightarrow> int \<Rightarrow> int \<Rightarrow> int \<Rightarrow> int \<Rightarrow> int \<Rightarrow> (int \<times> int \<times> int) option" where
  "unread_line_loop 0 cb i n m l chars lines = None"
| "unread_line_loop (Suc fuel) cb i n m l chars lines =
    (if i = i_in cb then Some (m, l, lines)
     else
       let n = n + 1;
           chars = (if chars > 0 then chars - 1 else chars);
           (lines, m, l) =
             (if data cb ! nat i = LF
              then (if lines > 0 then lines - 1 else lines, n, l + 1)
              else (lines, m, l))
       in if chars = 0 \<or> lines = 0 then Some (m, l, lines)
          else unread_line_loop fuel cb ((i + 1) mod (bsize cb + 1)) n m l chars lines)"

text \<open>The bytes found, and the value left in \<open>*nlines\<close>.\<close>

definition cbuf_find_unread_line :: "cbuf \<Rightarrow> int \<Rightarrow> int \<Rightarrow> (int \<times> int) option" where
  "cbuf_find_unread_line cb chars lines =
    (if lines = 0 \<or> (lines \<le> -1 \<and> chars \<le> 0) then Some (0, 0)
     else if used cb = 0 then Some (0, 0)
     else
       let chars = (if lines > 0 then -1 else chars)
       in map_option (\<lambda>(m, l, lines). if lines > 0 then (0, 0) else (m, l))
            (unread_line_loop (nat (bsize cb + 1)) cb (i_out cb) 0 0 0 chars lines))"

text \<open>The result is \<open>(n, m, l, chars, lines)\<close> when the loop is left.\<close>

fun replay_line_loop ::
  "nat \<Rightarrow> cbuf \<Rightarrow> int \<Rightarrow> int \<Rightarrow> int \<Rightarrow> int \<Rightarrow> int \<Rightarrow> int
    \<Rightarrow> (int \<times> int \<times> int \<times> int \<times> int) option" where
  "replay_line_loop 0 cb i n m l chars lines = None"
| "replay_line_loop (Suc fuel) cb i n m l chars lines =
    (if i = i_rep cb then Some (n, m, l, chars, lines)
     else
       let i = (i + bsize cb) mod (bsize cb + 1);
           n = n + 1;
           chars = (if chars > 0 then chars - 1 else chars);
           (lines, m, l) =
             (if data cb ! nat i = LF
              then (if lines > 0 then lines - 1 else lines, n - 1, l + 1)
              else (lines, m, l))
       in if chars = 0 \<or> lines = 0 then Some (n, m, l, chars, lines)
          else replay_line_loop fuel cb i n m l chars lines)"

text \<open>The bytes found, the value left in \<open>*nlines\<close>, and the value left in \<open>*nl\<close>.\<close>

definition cbuf_find_replay_line :: "cbuf \<Rightarrow> int \<Rightarrow> int \<Rightarrow> (int \<times> int \<times> int) option" where
  "cbuf_find_replay_line cb chars lines =
    (if lines = 0 \<or> (lines \<le> -1 \<and> chars \<le> 0) then Some (0, 0, 0)
     else if i_out cb = i_rep cb then Some (0, 0, 0)
     else
       let chars = (if lines > 0 then -1 else chars + 1);
           (nl, chars, lines, l) =
             (if data cb ! nat ((i_out cb + bsize cb) mod (bsize cb + 1)) \<noteq> LF
              then (1, chars - 1, lines, 0)
              else (0, chars, if lines > 0 then lines + 1 else lines, -1))
       in map_option
            (\<lambda>(n, m, l, chars, lines).
               let (lines, m, l) =
                     (if \<not> got_wrap cb \<and> (chars > 0 \<or> lines > 0)
                      then (if lines > 0 then lines - 1 else lines, n, l + 1)
                      else (lines, m, l))
               in if lines > 0 then (0, 0, nl) else (m, l, nl))
            (replay_line_loop (nat (bsize cb + 1)) cb (i_out cb) 0 0 l chars lines))"

section \<open>The operations\<close>

definition cbuf_lines_used :: "cbuf \<Rightarrow> int option" where
  "cbuf_lines_used cb = map_option snd (cbuf_find_unread_line cb (bsize cb) (-1))"

definition cbuf_lines_reused :: "cbuf \<Rightarrow> int option" where
  "cbuf_lines_reused cb = map_option (\<lambda>(n, l, nl). l) (cbuf_find_replay_line cb (bsize cb) (-1))"

definition cbuf_drop_line :: "cbuf \<Rightarrow> int \<Rightarrow> int \<Rightarrow> (int result \<times> cbuf) option" where
  "cbuf_drop_line src len lines =
    (if len < 0 \<or> lines < -1 then Some (Inl EINVAL, src)
     else if lines = 0 then Some (Inr 0, src)
     else map_option (\<lambda>(n, _). (Inr n, if n > 0 then cbuf_dropper src n else src))
            (cbuf_find_unread_line src len lines))"

text \<open>The bytes the line operations store in \<open>dstbuf\<close>: a prefix and its terminator.\<close>

definition cbuf_peek_line ::
  "cbuf \<Rightarrow> byte list option \<Rightarrow> int \<Rightarrow> int \<Rightarrow> (int result \<times> byte list option) option" where
  "cbuf_peek_line src dstbuf len lines =
    (case dstbuf of
       None \<Rightarrow> Some (Inl EINVAL, None)
     | Some buf \<Rightarrow>
         if len < 0 \<or> lines < -1 then Some (Inl EINVAL, dstbuf)
         else if lines = 0 then Some (Inr 0, dstbuf)
         else map_option
           (\<lambda>(n, _).
              if n > 0 \<and> len > 0 then
                let m = min n (len - 1);
                    out = (if m > 0 then snd (cbuf_reader src m cbuf_put_mem []) else [])
                in (Inr n, Some (store_at (out @ [NUL]) buf))
              else (Inr n, dstbuf))
           (cbuf_find_unread_line src (len - 1) lines))"

definition cbuf_read_line ::
  "cbuf \<Rightarrow> byte list option \<Rightarrow> int \<Rightarrow> int \<Rightarrow> (int result \<times> byte list option \<times> cbuf) option" where
  "cbuf_read_line src dstbuf len lines =
    (case dstbuf of
       None \<Rightarrow> Some (Inl EINVAL, None, src)
     | Some buf \<Rightarrow>
         if len < 0 \<or> lines < -1 then Some (Inl EINVAL, dstbuf, src)
         else if lines = 0 then Some (Inr 0, dstbuf, src)
         else map_option
           (\<lambda>(n, _).
              if n > 0 then
                let out =
                  (if len > 0 then
                     let m = min n (len - 1);
                         out = (if m > 0 then snd (cbuf_reader src m cbuf_put_mem []) else [])
                     in Some (store_at (out @ [NUL]) buf)
                   else dstbuf)
                in (Inr n, out, cbuf_dropper src n)
              else (Inr n, dstbuf, src))
           (cbuf_find_unread_line src (len - 1) lines))"

definition cbuf_replay_line ::
  "cbuf \<Rightarrow> byte list option \<Rightarrow> int \<Rightarrow> int \<Rightarrow> (int result \<times> byte list option) option" where
  "cbuf_replay_line src dstbuf len lines =
    (case dstbuf of
       None \<Rightarrow> Some (Inl EINVAL, None)
     | Some buf \<Rightarrow>
         if len < 0 \<or> lines < -1 then Some (Inl EINVAL, dstbuf)
         else if lines = 0 then Some (Inr 0, dstbuf)
         else map_option
           (\<lambda>(n, _, nl).
              if n > 0 \<and> len > 0 then
                let m = max (min n (len - 1 - nl)) 0;
                    out = (if m > 0 then snd (cbuf_replayer src m cbuf_put_mem []) else []);
                    out = (if nl \<noteq> 0 \<and> len > 1 then out @ [LF] else out)
                in (Inr (n + nl), Some (store_at (out @ [NUL]) buf))
              else (Inr n, dstbuf))
           (cbuf_find_replay_line src (len - 1) lines))"

definition cbuf_rewind_line :: "cbuf \<Rightarrow> int \<Rightarrow> int \<Rightarrow> (int result \<times> cbuf) option" where
  "cbuf_rewind_line src len lines =
    (if len < 0 \<or> lines < -1 then Some (Inl EINVAL, src)
     else if lines = 0 then Some (Inr 0, src)
     else map_option
       (\<lambda>(n, _, _).
          (Inr n,
           if n > 0 then
             src\<lparr>used := used src + n,
                 i_out := (i_out src - n + (bsize src + 1)) mod (bsize src + 1)\<rparr>
           else src))
       (cbuf_find_replay_line src len lines))"

text \<open>The byte \<open>s[i]\<close> of a C string, its terminator included.\<close>

definition c_at :: "string \<Rightarrow> int \<Rightarrow> char" where
  "c_at s i = (if nat i < length s then s ! nat i else NUL)"

definition cbuf_write_line ::
  "allocator \<Rightarrow> cbuf \<Rightarrow> string option \<Rightarrow> int result \<times> int \<times> cbuf" where
  "cbuf_write_line mem dst srcbuf =
    (case srcbuf of
       None \<Rightarrow> (Inl EINVAL, 0, dst)
     | Some src \<Rightarrow>
         let ncopy = int (length src);
             len = (if ncopy = 0 \<or> c_at src (ncopy - 1) \<noteq> LF then ncopy + 1 else ncopy);
             nfree = bsize dst - used dst;
             dst = (if len > nfree \<and> bsize dst < maxsize dst
                    then snd (cbuf_grow mem dst (len - nfree)) else dst)
         in if overwrite dst = CBUF_NO_DROP \<and> len > bsize dst - used dst
               \<or> overwrite dst = CBUF_WRAP_ONCE \<and> len > bsize dst
            then (Inl ENOSPC, 0, dst)
            else
              let ndrop = (if len > bsize dst then len - bsize dst else 0);
                  ncopy = ncopy - ndrop;
                  psrc = drop (nat ndrop) src;
                  (ndrop, d, dst) =
                    (if ncopy > 0 then
                       let (n, d, _, dst) = cbuf_writer mem dst ncopy cbuf_get_mem psrc 0
                       in (ndrop + d, d, dst)
                     else (ndrop, 0, dst));
                  (ndrop, dst) =
                    (if c_at src (len - 1) \<noteq> LF then
                       let (n, d, _, dst) = cbuf_writer mem dst 1 cbuf_get_mem [LF] d
                       in (ndrop + d, dst)
                     else (ndrop, dst))
              in (Inr len, ndrop, dst))"

section \<open>Lines of a list\<close>

text \<open>The first \<open>k\<close> lines, if there are that many complete ones.\<close>

fun lines_prefix :: "nat \<Rightarrow> byte list \<Rightarrow> byte list option" where
  "lines_prefix 0 xs = Some []"
| "lines_prefix (Suc k) [] = None"
| "lines_prefix (Suc k) (x # xs) =
     map_option ((#) x) (lines_prefix (if x = LF then k else Suc k) xs)"

text \<open>All the complete lines: the longest prefix that ends in a newline.\<close>

fun complete_lines :: "byte list \<Rightarrow> byte list" where
  "complete_lines [] = []"
| "complete_lines (x # xs) = (if LF \<in> set (x # xs) then x # complete_lines xs else [])"

abbreviation newlines :: "byte list \<Rightarrow> int" where
  "newlines xs \<equiv> int (count_list xs LF)"

lemma lines_prefix_Some_iff:
  "lines_prefix k xs = Some p \<longleftrightarrow>
    (\<exists>ys. xs = p @ ys) \<and> count_list p LF = k \<and> (p \<noteq> [] \<longrightarrow> last p = LF)"
  (is "?L k xs p \<longleftrightarrow> ?R k xs p")
proof
  show "?L k xs p \<Longrightarrow> ?R k xs p"
    by (induction k xs arbitrary: p rule: lines_prefix.induct)
      (fastforce split: if_splits)+
  show "?R k xs p \<Longrightarrow> ?L k xs p"
  proof (induction k xs arbitrary: p rule: lines_prefix.induct)
    case (1 xs)
    then have "p = []"
      by (metis count_list_0_iff last_in_set)
    then show ?case by simp
  next
    case (2 k)
    then show ?case by auto
  next
    case (3 k x xs)
    then obtain q where q: "p = x # q" by (cases p) auto
    then have "count_list q LF = (if x = LF then k else Suc k)"
      and "q \<noteq> [] \<longrightarrow> last q = LF" and "\<exists>ys. xs = q @ ys"
      using 3 by (auto split: if_splits)
    with 3(1) [of q] q show ?case by simp
  qed
qed

lemma lines_prefix_None: "lines_prefix k xs = None \<longleftrightarrow> count_list xs LF < k"
  by (induction k xs rule: lines_prefix.induct) (auto split: if_splits)

lemma complete_lines_Nil_iff: "complete_lines xs = [] \<longleftrightarrow> LF \<notin> set xs"
  by (cases xs) auto

lemma complete_lines_prefix: "\<exists>ys. xs = complete_lines xs @ ys \<and> LF \<notin> set ys"
  by (induction xs) auto

lemma last_complete_lines: "LF \<in> set xs \<Longrightarrow> last (complete_lines xs) = LF"
  by (induction xs) (auto simp: complete_lines_Nil_iff)

lemma count_complete_lines [simp]: "count_list (complete_lines xs) LF = count_list xs LF"
  by (induction xs) auto

lemma length_complete_lines: "length (complete_lines xs) \<le> length xs"
  by (induction xs) auto

section \<open>The loops on lists\<close>

text \<open>
  The body of either loop, run along a list; \<open>off\<close> is 0 for unread lines, whose
  newline is included, and 1 for replay lines, whose preceding newline is not.
\<close>

fun line_scan :: "int \<Rightarrow> byte list \<Rightarrow> int \<Rightarrow> int \<Rightarrow> int \<Rightarrow> int \<Rightarrow> int
    \<Rightarrow> int \<times> int \<times> int \<times> int \<times> int" where
  "line_scan off [] n m l chars lines = (n, m, l, chars, lines)"
| "line_scan off (x # xs) n m l chars lines =
    (let n = n + 1;
         chars = (if chars > 0 then chars - 1 else chars);
         (lines, m, l) =
           (if x = LF then (if lines > 0 then lines - 1 else lines, n - off, l + 1)
            else (lines, m, l))
     in if chars = 0 \<or> lines = 0 then (n, m, l, chars, lines)
        else line_scan off xs n m l chars lines)"

text \<open>Counting lines: the budget of bytes is not used.\<close>

lemma line_scan_lines:
  assumes "0 < k" "c < 0"
  shows "line_scan off xs n m l c k =
    (case lines_prefix (nat k) xs of
       Some p \<Rightarrow> (n + int (length p), n + int (length p) - off, l + k, c, 0)
     | None \<Rightarrow> (n + int (length xs),
                if LF \<in> set xs then n + int (length (complete_lines xs)) - off else m,
                l + newlines xs, c, k - newlines xs))"
  using assms
proof (induction xs arbitrary: n m l k)
  case Nil
  then show ?case by (cases "nat k") auto
next
  case (Cons x xs)
  then obtain j where j: "nat k = Suc j" by (cases "nat k") auto
  then have k: "k = int j + 1" by simp
  show ?case
  proof (cases "x = LF \<and> j = 0")
    case True
    then show ?thesis using Cons.prems j k by (simp add: Let_def)
  next
    case False
    let ?k = "if x = LF then k - 1 else k"
    have k': "0 < ?k" "nat ?k = (if x = LF then j else Suc j)"
      using False k by auto
    have step: "line_scan off (x # xs) n m l c k =
        line_scan off xs (n + 1) (if x = LF then n + 1 - off else m) (if x = LF then l + 1 else l) c ?k"
      using False Cons.prems k by (auto simp: Let_def)
    show ?thesis
      unfolding step Cons.IH [OF k'(1) Cons.prems(2)] k'(2) j lines_prefix.simps
      using k by (auto simp: complete_lines_Nil_iff split: option.splits)
  qed
qed

text \<open>Counting bytes: \<open>lines\<close> stays negative.\<close>

lemma line_scan_chars:
  assumes "k < 0" "0 < c"
  shows "line_scan off xs n m l c k =
    (let ys = take (nat c) xs
     in (n + int (length ys),
         if LF \<in> set ys then n + int (length (complete_lines ys)) - off else m,
         l + newlines ys, c - int (length ys), k))"
  using assms
proof (induction xs arbitrary: n m l c)
  case Nil
  then show ?case by simp
next
  case (Cons x xs)
  then obtain j where j: "nat c = Suc j" by (cases "nat c") auto
  then have c: "c = int j + 1" by simp
  show ?case
  proof (cases "j = 0")
    case True
    then show ?thesis using Cons.prems j c by (simp add: Let_def)
  next
    case False
    then have c': "0 < c - 1" "nat (c - 1) = j" using c by auto
    have step: "line_scan off (x # xs) n m l c k =
        line_scan off xs (n + 1) (if x = LF then n + 1 - off else m) (if x = LF then l + 1 else l) (c - 1) k"
      using False Cons.prems c by (auto simp: Let_def)
    show ?thesis
      unfolding step Cons.IH [OF Cons.prems(1) c'(1)] c'(2) j
      using False by (auto simp: Let_def complete_lines_Nil_iff)
  qed
qed

text \<open>
  On a valid buffer the loops end within the fuel given, and compute \<open>line_scan\<close> on
  the unread data, and on the replayable data from its end.
\<close>

lemma unread_line_loop_scan:
  assumes "cbuf_is_valid cb" "u \<le> bsize cb" "0 \<le> u" "i = (i_in cb - u) mod (bsize cb + 1)"
    and "nat u < fuel"
  shows "unread_line_loop fuel cb i n m l c k =
    (case line_scan 0 (window (data cb) i (nat u)) n m l c k of (n, m, l, c, k) \<Rightarrow> Some (m, l, k))"
  using assms(2-)
proof (induction fuel arbitrary: u i n m l c k)
  case 0
  then show ?case by simp
next
  case (Suc fuel)
  note r = cbuf_valid_range [OF assms(1)] and L = cbuf_valid_length [OF assms(1)]
  have i: "i = (if u \<le> i_in cb then i_in cb - u else i_in cb - u + (bsize cb + 1))"
    using Suc.prems r by (simp add: mod_diff_cases)
  show ?case
  proof (cases "u = 0")
    case True
    then have "i = i_in cb" using i r by simp
    then show ?thesis using True by simp
  next
    case False
    then have ne: "i \<noteq> i_in cb" using i Suc.prems by auto
    obtain j where j: "nat u = Suc j" using False Suc.prems by (cases "nat u") auto
    then have u: "u = int j + 1" by simp
    have elem: "data cb ! nat i = ring (data cb) i"
      using i r L Suc.prems by (intro ring_inside [symmetric]) (auto split: if_splits)
    have nxt: "(i + 1) mod (bsize cb + 1) = (i_in cb - int j) mod (bsize cb + 1)"
      using Suc.prems(3) u by (simp add: mod_simps)
    have w: "window (data cb) ((i + 1) mod (bsize cb + 1)) j = window (data cb) (i + 1) j"
      using window_mod [of "data cb" "i + 1" j] by (simp add: L)
    show ?thesis
      using ne j Suc.prems(4)
        Suc.IH [of "int j" "(i + 1) mod (bsize cb + 1)", unfolded nat_int, OF _ _ nxt] Suc.prems(1) u
      by (simp add: window_Suc elem w Let_def)
  qed
qed

lemma replay_line_loop_scan:
  assumes "cbuf_is_valid cb" "u \<le> cbuf_reused cb" "0 \<le> u" "i = (i_rep cb + u) mod (bsize cb + 1)"
    and "nat u < fuel"
  shows "replay_line_loop fuel cb i n m l c k =
    Some (line_scan 1 (rev (window (data cb) (i_rep cb) (nat u))) n m l c k)"
  using assms(2-)
proof (induction fuel arbitrary: u i n m l c k)
  case 0
  then show ?case by simp
next
  case (Suc fuel)
  note r = cbuf_valid_range [OF assms(1)] and L = cbuf_valid_length [OF assms(1)]
    and g = cbuf_valid_geometry [OF assms(1)]
  have ub: "u \<le> bsize cb" using Suc.prems g r by simp
  have i: "i = (if i_rep cb + u \<le> bsize cb then i_rep cb + u else i_rep cb + u - (bsize cb + 1))"
    using Suc.prems r ub by (auto simp: int_mod_cases)
  show ?case
  proof (cases "u = 0")
    case True
    then have "i = i_rep cb" using i r by simp
    then show ?thesis using True by simp
  next
    case False
    then have ne: "i \<noteq> i_rep cb" using i Suc.prems ub by auto
    obtain j where j: "nat u = Suc j" using False Suc.prems by (cases "nat u") auto
    then have u: "u = int j + 1" by simp
    let ?i = "(i + bsize cb) mod (bsize cb + 1)"
    have nxt: "?i = (i_rep cb + int j) mod (bsize cb + 1)"
    proof -
      have "?i = (i_rep cb + u + bsize cb) mod (bsize cb + 1)"
        using Suc.prems(3) by (simp add: mod_simps)
      also have "\<dots> = (i_rep cb + int j) mod (bsize cb + 1)"
        using mod_add_self2 [of "i_rep cb + int j" "bsize cb + 1"] by (simp add: u algebra_simps)
      finally show ?thesis .
    qed
    have elem: "data cb ! nat ?i = ring (data cb) (i_rep cb + int j)"
      using ring_inside [OF cbuf_index_inside(1,2) [OF assms(1), of "i + bsize cb"]]
        ring_mod [of "data cb" "i_rep cb + int j"] by (simp add: nxt L)
    show ?thesis
      using ne j Suc.prems(4) Suc.IH [of "int j" ?i, unfolded nat_int, OF _ _ nxt] Suc.prems(1) u
      by (simp add: window_snoc elem Let_def)
  qed
qed

section \<open>What the searches find\<close>

text \<open>
  The unread bytes a request for \<open>lines\<close> lines, or for as many as fit in
  \<open>chars\<close> bytes, is about.
\<close>

definition unread_lines :: "byte list \<Rightarrow> int \<Rightarrow> int \<Rightarrow> byte list" where
  "unread_lines xs chars lines =
    (if lines > 0 then (case lines_prefix (nat lines) xs of Some p \<Rightarrow> p | None \<Rightarrow> [])
     else if lines < 0 then complete_lines (take (nat chars) xs) else [])"

lemma unread_lines_prefix: "\<exists>ys. xs = unread_lines xs chars lines @ ys"
proof (cases "lines < 0")
  case True
  obtain ys where "take (nat chars) xs = complete_lines (take (nat chars) xs) @ ys"
    using complete_lines_prefix by blast
  then show ?thesis
    using True by (metis append.assoc append_take_drop_id not_less_iff_gr_or_eq unread_lines_def)
next
  case False
  then show ?thesis
    by (auto simp: unread_lines_def lines_prefix_Some_iff split: option.split)
qed

lemma length_unread_lines: "length (unread_lines xs chars lines) \<le> length xs"
  by (metis unread_lines_prefix length_append le_add1)

lemma take_unread_lines [simp]:
  "take (length (unread_lines xs chars lines)) xs = unread_lines xs chars lines"
  by (metis append_eq_conv_conj unread_lines_prefix)

lemma unread_lines_ends:
  "unread_lines xs chars lines \<noteq> [] \<Longrightarrow> last (unread_lines xs chars lines) = LF"
  by (cases "lines_prefix (nat lines) xs")
    (auto simp: unread_lines_def complete_lines_Nil_iff last_complete_lines
      split: if_splits dest: lines_prefix_Some_iff [THEN iffD1])

lemma find_unread_line_spec:
  assumes "cbuf_is_valid cb" "-1 \<le> lines"
  shows "cbuf_find_unread_line cb chars lines =
    (let p = unread_lines (unread cb) chars lines in Some (int (length p), newlines p))"
proof -
  note r = cbuf_valid_range [OF assms(1)] and g = cbuf_valid_geometry [OF assms(1)]
  have scan: "unread_line_loop (nat (bsize cb + 1)) cb (i_out cb) 0 0 0 c k =
      (case line_scan 0 (unread cb) 0 0 0 c k of (n, m, l, c, k) \<Rightarrow> Some (m, l, k))" for c k
    unfolding unread_def by (rule unread_line_loop_scan [OF assms(1)]) (use r g in auto)
  consider (none) "lines = 0 \<or> lines = -1 \<and> chars \<le> 0" | (empty) "used cb = 0"
    | (lines) "0 < lines" "used cb \<noteq> 0" | (chars) "lines = -1" "0 < chars" "used cb \<noteq> 0"
    using assms(2) by linarith
  then show ?thesis
  proof cases
    case none
    then show ?thesis by (auto simp: cbuf_find_unread_line_def unread_lines_def)
  next
    case empty
    then have "unread cb = []" by (simp add: unread_def)
    then show ?thesis
      using empty by (cases "nat lines") (auto simp: cbuf_find_unread_line_def unread_lines_def)
  next
    case lines
    show ?thesis
    proof (cases "lines_prefix (nat lines) (unread cb)")
      case None
      then have "newlines (unread cb) < lines"
        by (simp add: lines_prefix_None)
      then show ?thesis
        using lines None by (simp add: cbuf_find_unread_line_def scan line_scan_lines unread_lines_def)
    next
      case (Some p)
      then have "newlines p = lines"
        using lines by (simp add: lines_prefix_Some_iff)
      then show ?thesis
        using lines Some by (simp add: cbuf_find_unread_line_def scan line_scan_lines unread_lines_def)
    qed
  next
    case chars
    then show ?thesis
      by (simp add: cbuf_find_unread_line_def scan line_scan_chars unread_lines_def Let_def
          complete_lines_Nil_iff [THEN iffD2])
  qed
qed

text \<open>
  The replayable lines: the end of the replayable data counts as terminated, and, until the
  buffer has wrapped, its beginning counts as preceded by a newline. The text delivered is
  between two newlines, the last one included.
\<close>

definition replay_lines :: "bool \<Rightarrow> byte list \<Rightarrow> int \<Rightarrow> int \<Rightarrow> byte list" where
  "replay_lines wrapped xs chars lines =
    (if xs = [] \<or> lines = 0 then []
     else
       let R = (if last xs = LF then [] else [LF]) @ rev xs @ (if wrapped then [] else [LF])
       in if lines > 0
          then (case lines_prefix (nat lines + 1) R of Some p \<Rightarrow> rev (butlast p) | None \<Rightarrow> [])
          else if chars \<le> 0 then []
          else rev (butlast (complete_lines (take (nat chars + 1) R))))"

definition needs_newline :: "byte list \<Rightarrow> int" where
  "needs_newline xs = (if xs \<noteq> [] \<and> last xs \<noteq> LF then 1 else 0)"

lemma line_scan_snoc:
  assumes "k > 0 \<and> c < 0 \<or> k < 0 \<and> c > 0"
    and "line_scan 1 xs n m l c k = (n', m', l', c', k')"
  shows "(if c' > 0 \<or> k' > 0 then (if k' > 0 then k' - 1 else k', n', l' + 1) else (k', m', l')) =
    (case line_scan 1 (xs @ [LF]) n m l c k of (n, m, l, c, k) \<Rightarrow> (k, m, l))"
  using assms
proof (induction xs arbitrary: n m l c k)
  case Nil
  then show ?case by (auto simp: Let_def)
next
  case (Cons x xs)
  define c1 k1 where "c1 = (if c > 0 then c - 1 else c)"
    and "k1 = (if x = LF \<and> k > 0 then k - 1 else k)"
  let ?m = "if x = LF then n else m" and ?l = "if x = LF then l + 1 else l"
  have step: "line_scan 1 (x # ys) n m l c k =
      (if c1 = 0 \<or> k1 = 0 then (n + 1, ?m, ?l, c1, k1) else line_scan 1 ys (n + 1) ?m ?l c1 k1)" for ys
    by (simp add: Let_def c1_def k1_def)
  have ck: "c1 = 0 \<or> k1 = 0 \<Longrightarrow> \<not> (c1 > 0 \<or> k1 > 0)"
    "\<not> (c1 = 0 \<or> k1 = 0) \<Longrightarrow> k1 > 0 \<and> c1 < 0 \<or> k1 < 0 \<and> c1 > 0"
    using Cons.prems(1) by (auto simp: c1_def k1_def split: if_splits)
  show ?case
  proof (cases "c1 = 0 \<or> k1 = 0")
    case True
    then show ?thesis
      using Cons.prems(2) ck(1) unfolding append_Cons step by auto
  next
    case False
    then show ?thesis
      using Cons.IH [OF ck(2) [OF False]] Cons.prems(2) unfolding append_Cons step by simp
  qed
qed

lemma count_butlast_LF:
  "p \<noteq> [] \<Longrightarrow> last p = LF \<Longrightarrow> count_list (butlast p) LF = count_list p LF - 1"
  by (induction p rule: rev_induct) auto

lemma count_list_rev [simp]: "count_list (rev xs) x = count_list xs x"
  by (induction xs) auto

lemma lines_prefix_ends:
  "lines_prefix (Suc k) xs = Some p \<Longrightarrow> p \<noteq> [] \<and> last p = LF \<and> count_list p LF = Suc k"
  by (auto simp: lines_prefix_Some_iff)

lemma find_replay_line_spec:
  assumes "cbuf_is_valid cb" "-1 \<le> lines"
  shows "\<exists>nl. cbuf_find_replay_line cb chars lines =
    (let p = replay_lines (got_wrap cb) (replayable cb) chars lines
     in Some (int (length p) - (if p = [] then 0 else needs_newline (replayable cb)), newlines p, nl))
    \<and> (replay_lines (got_wrap cb) (replayable cb) chars lines \<noteq> [] \<longrightarrow> nl = needs_newline (replayable cb))"
proof -
  note r = cbuf_valid_range [OF assms(1)] and g = cbuf_valid_geometry [OF assms(1)]
    and L = cbuf_valid_length [OF assms(1)]
  let ?T = "replayable cb" and ?i = "(i_out cb + bsize cb) mod (bsize cb + 1)"
  let ?pre = "if got_wrap cb then [] else [LF]"
  have "(i_rep cb + cbuf_reused cb) mod (bsize cb + 1) = i_out cb mod (bsize cb + 1)"
    by (subst g(2)) (simp add: mod_simps)
  then have out: "i_out cb = (i_rep cb + cbuf_reused cb) mod (bsize cb + 1)"
    using r by simp
  have T: "?T = window (data cb) (i_rep cb) (nat (cbuf_reused cb))"
    by (simp add: replayable_def)
  have scan: "replay_line_loop (nat (bsize cb + 1)) cb (i_out cb) 0 0 l c k =
      Some (line_scan 1 (rev ?T) 0 0 l c k)" for l c k
    unfolding T
    by (rule replay_line_loop_scan [OF assms(1) order_refl g(3) out]) (use r(1) g(4) r(5) in simp)
  have same: "i_out cb = i_rep cb \<longleftrightarrow> ?T = []"
  proof
    show "?T = []" if "i_out cb = i_rep cb"
      using that by (simp add: T cbuf_reused_def)
    show "i_out cb = i_rep cb" if "?T = []"
    proof -
      have "cbuf_reused cb = 0" using that g(3) by (simp add: T flip: length_0_conv)
      then show ?thesis using out r(11,12) by simp
    qed
  qed
  show ?thesis
  proof (cases "lines = 0 \<or> lines = -1 \<and> chars \<le> 0 \<or> ?T = []")
    case True
    then have "replay_lines (got_wrap cb) ?T chars lines = []"
      by (auto simp: replay_lines_def)
    moreover have "lines = 0 \<or> lines \<le> -1 \<and> chars \<le> 0 \<or> i_out cb = i_rep cb"
      using True same by auto
    then have "cbuf_find_replay_line cb chars lines = Some (0, 0, 0)"
      unfolding cbuf_find_replay_line_def by argo
    ultimately show ?thesis by simp
  next
    case False
    have lastT: "data cb ! nat ?i = last ?T"
    proof -
      obtain j where j: "nat (cbuf_reused cb) = Suc j"
        using False by (cases "nat (cbuf_reused cb)") (auto simp: T)
      have "?i = (i_rep cb + cbuf_reused cb + bsize cb) mod (bsize cb + 1)"
        by (subst out) (simp add: mod_simps)
      also have "\<dots> = (i_rep cb + int j) mod (bsize cb + 1)"
      proof -
        have "cbuf_reused cb = int j + 1" using j by linarith
        then show ?thesis
          using mod_add_self2 [of "i_rep cb + int j" "bsize cb + 1"] by (simp add: algebra_simps)
      qed
      finally have "data cb ! nat ?i = ring (data cb) (i_rep cb + int j)"
        using ring_inside [OF cbuf_index_inside(1,2) [OF assms(1), of "i_out cb + bsize cb"]]
          ring_mod [of "data cb" "i_rep cb + int j"] by (simp add: L)
      then show ?thesis by (simp add: T j window_snoc)
    qed
    define nl where "nl = needs_newline ?T"
    define c where "c = (if lines > 0 then -1 else chars + 1) - nl"
    define k where "k = (if nl = 0 \<and> lines > 0 then lines + 1 else lines)"
    define l where "l = nl - 1"
    have nl01: "nl = 0 \<and> last ?T = LF \<or> nl = 1 \<and> last ?T \<noteq> LF"
      using False by (auto simp: nl_def needs_newline_def)
    have ck: "k > 0 \<and> c < 0 \<or> k < 0 \<and> c > 0"
      using False assms(2) nl01 by (auto simp: c_def k_def)
    obtain n' m' l' c' k' where ls: "line_scan 1 (rev ?T) 0 0 l c k = (n', m', l', c', k')"
      by (metis prod_cases5)
    have start: "(if data cb ! nat ?i \<noteq> LF then (1, (if lines > 0 then -1 else chars + 1) - 1, lines, 0)
        else (0, if lines > 0 then -1 else chars + 1, if lines > 0 then lines + 1 else lines, -1)) = (nl, c, k, l)"
      using nl01 by (auto simp: lastT c_def k_def l_def)
    have guards: "\<not> (lines = 0 \<or> lines \<le> -1 \<and> chars \<le> 0)" "i_out cb \<noteq> i_rep cb"
      using False assms(2) same by auto
    have E: "cbuf_find_replay_line cb chars lines =
      (case (if \<not> got_wrap cb \<and> (c' > 0 \<or> k' > 0)
             then (if k' > 0 then k' - 1 else k', n', l' + 1) else (k', m', l')) of
         (k, m, l) \<Rightarrow> Some (if k > 0 then (0, 0, nl) else (m, l, nl)))"
      unfolding cbuf_find_replay_line_def Let_def if_not_P [OF guards(1)] if_not_P [OF guards(2)]
        start case_prod_conv scan ls option.map by (simp split: prod.split)
    define R where "R = rev ?T @ ?pre"
    have E': "cbuf_find_replay_line cb chars lines =
      (case line_scan 1 R 0 0 l c k of (n, m, l, c, k) \<Rightarrow> Some (if k > 0 then (0, 0, nl) else (m, l, nl)))"
    proof (cases "got_wrap cb")
      case True
      then show ?thesis using E ls by (simp add: R_def)
    next
      case nw: False
      have "(case line_scan 1 R 0 0 l c k of (n, m, l, c, k) \<Rightarrow> (k, m, l)) =
          (if c' > 0 \<or> k' > 0 then (if k' > 0 then k' - 1 else k', n', l' + 1) else (k', m', l'))"
        using line_scan_snoc [OF ck ls] nw by (simp add: R_def)
      moreover have "(case line_scan 1 R 0 0 l c k of
          (n, m, l, c, k) \<Rightarrow> Some (if k > 0 then (0, 0, nl) else (m, l, nl))) =
        (case (case line_scan 1 R 0 0 l c k of (n, m, l, c, k) \<Rightarrow> (k, m, l)) of
          (k, m, l) \<Rightarrow> Some (if k > 0 then (0, 0, nl) else (m, l, nl)))"
        by (simp only: split: prod.split) simp
      ultimately show ?thesis
        unfolding E by (simp only: nw not_False_eq_True simp_thms)
    qed
    have Rhd: "nl = 0 \<Longrightarrow> \<exists>ys. R = LF # ys"
      using False nl01 by (cases ?T rule: rev_cases) (auto simp: R_def)
    show ?thesis
    proof (cases "lines > 0")
      case True
      let ?K = "nat lines + 1"
      have c: "c < 0" and k: "0 < k" using ck True by (auto simp: k_def split: if_splits)
      have R: "replay_lines (got_wrap cb) ?T chars lines =
          (case lines_prefix ?K ((if nl = 0 then [] else [LF]) @ R) of
             Some p \<Rightarrow> rev (butlast p) | None \<Rightarrow> [])"
        using False True nl01 by (auto simp: replay_lines_def R_def)
      have prefix: "lines_prefix ?K ((if nl = 0 then [] else [LF]) @ R) =
          map_option ((@) (if nl = 0 then [] else [LF])) (lines_prefix (nat k) R)"
        using nl01 True
        by (cases "lines_prefix (nat k) R") (auto simp: k_def nat_add_distrib)
      show ?thesis
      proof (cases "lines_prefix (nat k) R")
        case None
        then have "newlines R < k" by (simp add: lines_prefix_None)
        then show ?thesis
          unfolding E' line_scan_lines [OF k c] R prefix None by simp
      next
        case (Some p)
        obtain j where j: "nat k = Suc j" using k by (cases "nat k") auto
        have p: "p \<noteq> []" "last p = LF" "count_list p LF = nat k"
          using lines_prefix_ends [OF Some [unfolded j]] j by auto
        define q where "q = (if nl = 0 then [] else [LF]) @ p"
        have q: "q \<noteq> []" "last q = LF" "int (count_list q LF) = lines + 1"
            "int (length q) = nl + int (length p)"
          using p nl01 True by (auto simp: q_def k_def)
        have "butlast q \<noteq> []"
          using q(1,3) True by (cases q rule: rev_cases) (auto simp: split: if_splits)
        then have len: "int (length (butlast q)) = int (length q) - 1"
            and cnt: "newlines (butlast q) = newlines q - 1"
          using q count_butlast_LF [OF q(1,2)] True by (simp_all add: Suc_leI of_nat_diff)
        have res: "cbuf_find_replay_line cb chars lines = Some (int (length p) - 1, l + k, nl)"
          unfolding E' line_scan_lines [OF k c] Some by simp
        have rl: "replay_lines (got_wrap cb) ?T chars lines = rev (butlast q)"
          unfolding R prefix Some by (simp add: q_def)
        have "l + k = newlines q - 1"
          using nl01 True q(3) by (auto simp: l_def k_def)
        then show ?thesis
          using \<open>butlast q \<noteq> []\<close> len cnt q(4) unfolding res rl Let_def nl_def [symmetric] by simp
      qed
    next
      case neg: False
      have c: "0 < c" and k: "k < 0" "\<not> 0 < k" using ck False neg assms(2) by (auto simp: k_def split: if_splits)
      have R: "replay_lines (got_wrap cb) ?T chars lines =
          rev (butlast (complete_lines (take (nat chars + 1) ((if nl = 0 then [] else [LF]) @ R))))"
        using False neg nl01 assms(2) by (auto simp: replay_lines_def R_def)
      define ys where "ys = take (nat c) R"
      have tk: "take (nat chars + 1) ((if nl = 0 then [] else [LF]) @ R) =
          (if nl = 0 then [] else [LF]) @ ys"
        using nl01 False neg assms(2) by (auto simp: ys_def c_def nat_add_distrib)
      have S: "line_scan 1 R 0 0 l c k =
          (int (length ys), if LF \<in> set ys then int (length (complete_lines ys)) - 1 else 0,
           l + newlines ys, c - int (length ys), k)"
        unfolding line_scan_chars [OF k(1) c] Let_def ys_def [symmetric] by simp
      have res: "cbuf_find_replay_line cb chars lines =
          Some (if LF \<in> set ys then int (length (complete_lines ys)) - 1 else 0, l + newlines ys, nl)"
        unfolding E' S using k(2) by simp
      define cl where "cl = complete_lines ((if nl = 0 then [] else [LF]) @ ys)"
      have rl: "replay_lines (got_wrap cb) ?T chars lines = rev (butlast cl)"
        unfolding R tk cl_def ..
      have "LF \<in> set ((if nl = 0 then [] else [LF]) @ ys)"
        using Rhd c by (cases "nat c") (auto simp: ys_def)
      then have cl: "cl \<noteq> []" "last cl = LF"
        unfolding cl_def by (simp_all only: complete_lines_Nil_iff last_complete_lines not_False_eq_True not_not)
      have len: "int (length (butlast cl)) = int (length cl) - 1" "newlines (butlast cl) = newlines cl - 1"
        using cl count_butlast_LF [OF cl] count_list_0_iff [of cl LF] last_in_set [OF cl(1)]
        by (simp_all add: Suc_leI of_nat_diff)
      have ncl: "newlines cl - 1 = l + newlines ys"
        using nl01 by (auto simp: cl_def l_def)
      have lcl: "int (length (butlast cl)) - (if butlast cl = [] then 0 else nl)
          = (if LF \<in> set ys then int (length (complete_lines ys)) - 1 else 0)"
      proof (cases "nl = 0")
        case True
        moreover have "LF \<in> set ys"
          using Rhd [OF True] c by (cases "nat c") (auto simp: ys_def)
        ultimately show ?thesis using len by (simp add: cl_def)
      next
        case one: False
        then have clq: "cl = LF # complete_lines ys" "nl = 1" using nl01 by (simp_all add: cl_def)
        show ?thesis
          using len(1) complete_lines_Nil_iff [of ys] unfolding clq by auto
      qed
      show ?thesis
        unfolding res rl Let_def nl_def [symmetric]
        using lcl len(2) ncl by simp
    qed
  qed
qed

section \<open>What the operations do\<close>

text \<open>The lines replayed end the replayable data, with the newline it may lack.\<close>

lemma replay_lines_suffix:
  assumes "xs \<noteq> []"
  shows "\<exists>zs. xs @ (if last xs = LF then [] else [LF]) = zs @ replay_lines w xs chars lines"
    (is "\<exists>zs. ?X = zs @ _")
proof -
  let ?R = "(if last xs = LF then [] else [LF]) @ rev xs @ (if w then [] else [LF])"
  have suffix: "\<exists>zs. ?X = zs @ rev (butlast p)" if "?R = p @ ys" for p ys
  proof (cases p rule: rev_cases)
    case Nil
    then show ?thesis by simp
  next
    case (snoc q x)
    have "rev ?R = rev (p @ ys)" by (simp only: that)
    then have "(if w then [] else [LF]) @ ?X = (rev ys @ [x]) @ rev q"
      using snoc by (simp split: if_splits)
    then have "?X = (if w then rev ys @ [x] else tl (rev ys @ [x])) @ rev q"
      by (cases "rev ys") (auto split: if_splits)
    then show ?thesis using snoc by auto
  qed
  have A: "\<exists>zs. ?X = zs @ rev (butlast p)" if "lines_prefix k ?R = Some p" for k p
    using that suffix lines_prefix_Some_iff by blast
  have B: "\<exists>zs. ?X = zs @ rev (butlast (complete_lines (take n ?R)))" for n
  proof -
    obtain zs where "take n ?R = complete_lines (take n ?R) @ zs"
      using complete_lines_prefix by blast
    then have "?R = complete_lines (take n ?R) @ zs @ drop n ?R"
      by (metis append.assoc append_take_drop_id)
    then show ?thesis by (rule suffix)
  qed
  consider "lines = 0 \<or> lines < 0 \<and> chars \<le> 0" | "0 < lines" | "lines < 0" "0 < chars" by linarith
  then show ?thesis
  proof cases
    case 1
    then show ?thesis by (auto simp: replay_lines_def)
  next
    case 2
    then show ?thesis
      using assms A unfolding replay_lines_def Let_def
      by (cases "lines_prefix (nat lines + 1) ?R") simp_all
  next
    case 3
    then have "replay_lines w xs chars lines = rev (butlast (complete_lines (take (nat chars + 1) ?R)))"
      using assms unfolding replay_lines_def Let_def by simp
    then show ?thesis using B [of "nat chars + 1"] by simp
  qed
qed

lemma length_replay_lines:
  "int (length (replay_lines w xs chars lines)) \<le> int (length xs) + needs_newline xs"
proof (cases "xs = []")
  case True
  then show ?thesis by (simp add: replay_lines_def needs_newline_def)
next
  case False
  obtain zs where "xs @ (if last xs = LF then [] else [LF]) = zs @ replay_lines w xs chars lines"
    using replay_lines_suffix [OF False] by blast
  from arg_cong [OF this, of length] show ?thesis
    using False by (simp add: needs_newline_def split: if_splits)
qed

lemma store_at_append: "store_at (xs @ ys) buf = xs @ store_at ys (drop (length xs) buf)"
  by (simp add: store_at_def add.commute)

lemma cbuf_lines_used_spec:
  "cbuf_is_valid cb \<Longrightarrow> cbuf_lines_used cb = Some (newlines (unread cb))"
  using cbuf_valid_range(6) [of cb]
  by (simp add: cbuf_lines_used_def find_unread_line_spec unread_lines_def Let_def)

lemma cbuf_drop_line_spec:
  assumes "cbuf_is_valid cb" "0 \<le> len" "-1 \<le> lines"
  defines "p \<equiv> unread_lines (unread cb) len lines"
  obtains cb' where "cbuf_drop_line cb len lines = Some (Inr (int (length p)), cb')"
    "cbuf_is_valid cb'" "unread cb = p @ unread cb'" "history cb' = history cb"
proof -
  have n: "int (length p) \<le> used cb"
    using length_unread_lines [of "unread cb" len lines] cbuf_valid_range(5) [OF assms(1)]
    by (simp add: p_def)
  define cb' where "cb' = (if p = [] then cb else cbuf_dropper cb (int (length p)))"
  have "lines = 0 \<Longrightarrow> p = []" by (simp add: p_def unread_lines_def)
  then have "cbuf_drop_line cb len lines = Some (Inr (int (length p)), cb')"
    using assms(2,3) find_unread_line_spec [OF assms(1,3), of len]
    by (auto simp: cbuf_drop_line_def cb'_def p_def [symmetric] Let_def)
  moreover have "cbuf_is_valid cb'"
    using cbuf_dropper_valid(1) [OF assms(1) _ n] assms(1) by (auto simp: cb'_def)
  moreover have "unread cb = p @ unread cb'"
    using cbuf_dropper_unread [OF assms(1) _ n] unread_lines_prefix [of "unread cb" len lines]
    by (auto simp: cb'_def p_def [symmetric])
  moreover have "history cb' = history cb"
    using cbuf_dropper_history [OF assms(1) _ n] by (auto simp: cb'_def)
  ultimately show thesis by (rule that)
qed

text \<open>
  Reading lines: the whole of the lines found is consumed and its length returned; the
  destination gets as much of them as fits, always terminated by a NUL.
\<close>

lemma cbuf_peek_line_spec:
  assumes "cbuf_is_valid cb" "0 \<le> len" "-1 \<le> lines"
  defines "p \<equiv> unread_lines (unread cb) (len - 1) lines"
  shows "cbuf_peek_line cb (Some buf) len lines =
    Some (Inr (int (length p)),
          Some (if p \<noteq> [] \<and> 0 < len then store_at (take (nat (len - 1)) p @ [NUL]) buf else buf))"
proof (cases "lines = 0")
  case True
  then have "p = []" by (simp add: p_def unread_lines_def)
  then show ?thesis using True assms(2) by (simp add: cbuf_peek_line_def)
next
  case False
  define m where "m = min (int (length p)) (len - 1)"
  have P: "take (nat m) (unread cb) = take (nat (len - 1)) p" if "0 < len"
  proof -
    have "take (nat m) (unread cb) = take (min (length p) (nat (len - 1))) (unread cb)"
    proof -
      have "nat m = min (length p) (nat (len - 1))" using that by (auto simp: m_def min_def)
      then show ?thesis by simp
    qed
    also have "\<dots> = take (nat (len - 1)) (take (length p) (unread cb))"
      by (simp add: min.commute)
    finally show ?thesis by (simp add: p_def)
  qed
  have out: "(if m > 0 then snd (cbuf_reader cb m cbuf_put_mem []) else []) = take (nat (len - 1)) p"
    if "0 < len"
  proof (cases "m > 0")
    case True
    obtain r o1 where e: "cbuf_reader cb m cbuf_put_mem [] = (r, o1)"
      by (meson surj_pair)
    show ?thesis
      using mem_sink.cbuf_reader_full(2) [OF assms(1) True e] True P [OF that] e by simp
  next
    case False
    then show ?thesis using that by (auto simp: m_def)
  qed
  show ?thesis
    using False assms(2,3) find_unread_line_spec [OF assms(1,3), of "len - 1"] out
    by (auto simp: cbuf_peek_line_def p_def [symmetric] m_def [symmetric] Let_def)
qed

lemma cbuf_read_line_peek_drop:
  assumes "cbuf_is_valid cb" "0 < len" "-1 \<le> lines"
  shows "cbuf_read_line cb (Some buf) len lines =
    (case cbuf_peek_line cb (Some buf) len lines of
       Some (r, out) \<Rightarrow> map_option (\<lambda>(_, cb'). (r, out, cb')) (cbuf_drop_line cb (len - 1) lines)
     | None \<Rightarrow> None)"
  using assms find_unread_line_spec [OF assms(1,3), of "len - 1"]
  by (auto simp: cbuf_read_line_def cbuf_peek_line_def cbuf_drop_line_def Let_def)

lemma cbuf_read_line_spec:
  assumes "cbuf_is_valid cb" "0 < len" "-1 \<le> lines"
  defines "p \<equiv> unread_lines (unread cb) (len - 1) lines"
  obtains cb' where "cbuf_read_line cb (Some buf) len lines =
      Some (Inr (int (length p)),
            Some (if p \<noteq> [] then store_at (take (nat (len - 1)) p @ [NUL]) buf else buf), cb')"
    "cbuf_is_valid cb'" "unread cb = p @ unread cb'" "history cb' = history cb"
proof -
  have len: "0 \<le> len - 1" "0 \<le> len" using assms(2) by simp_all
  obtain cb' where cb': "cbuf_drop_line cb (len - 1) lines = Some (Inr (int (length p)), cb')"
    "cbuf_is_valid cb'" "unread cb = p @ unread cb'" "history cb' = history cb"
    using cbuf_drop_line_spec [OF assms(1) len(1) assms(3), folded p_def] by blast
  show thesis
    by (rule that [OF _ cb'(2-)])
      (use assms(2) in \<open>simp add: cbuf_read_line_peek_drop [OF assms(1-3)] cb'(1)
        cbuf_peek_line_spec [OF assms(1) len(2) assms(3)] p_def\<close>)
qed

text \<open>
  Rewinding lines puts them back in front of the unread data; a newline that was only
  implied is not written.
\<close>

lemma cbuf_rewind_line_spec:
  assumes "cbuf_is_valid cb" "0 \<le> len" "-1 \<le> lines"
  defines "p \<equiv> replay_lines (got_wrap cb) (replayable cb) len lines"
  defines "n \<equiv> int (length p) - (if p = [] then 0 else needs_newline (replayable cb))"
  obtains cb' where "cbuf_rewind_line cb len lines = Some (Inr n, cb')" "cbuf_is_valid cb'"
    "0 \<le> n" "n \<le> cbuf_reused cb" "unread cb' = newest n (replayable cb) @ unread cb"
proof -
  note g = cbuf_valid_geometry [OF assms(1)]
  have n: "0 \<le> n" "n \<le> cbuf_reused cb"
    using length_replay_lines [of "got_wrap cb" "replayable cb" len lines] g(3)
    by (cases p; auto simp: n_def p_def [symmetric] needs_newline_def)+
  define cb' where "cb' = (if 0 < n then cbuf_rewound cb n else cb)"
  have "lines = 0 \<Longrightarrow> n = 0" by (simp add: n_def p_def replay_lines_def)
  then have "cbuf_rewind_line cb len lines = Some (Inr n, cb')"
    using assms(2,3) find_replay_line_spec [OF assms(1,3), of len]
    by (auto simp: cbuf_rewind_line_def cb'_def p_def [symmetric] n_def [symmetric] Let_def
        cbuf_rewound_def)
  moreover have "cbuf_is_valid cb'"
    using cbuf_rewound_dropper(1) [OF assms(1), of n] n assms(1) by (auto simp: cb'_def)
  moreover have "unread cb' = newest n (replayable cb) @ unread cb"
  proof (cases "0 < n")
    case True
    then show ?thesis
      using cbuf_rewound_unread [OF assms(1), of n] n by (simp add: cb'_def newest_def)
  next
    case False
    then have "n = 0" using n by simp
    then show ?thesis by (simp add: cb'_def newest_def)
  qed
  ultimately show thesis using that n by blast
qed

lemma replay_lines_not_newline:
  assumes "replay_lines w xs chars lines = [LF]"
  shows "last xs = LF"
proof (rule ccontr)
  assume nl: "last xs \<noteq> LF"
  let ?R = "[LF] @ rev xs @ (if w then [] else [LF])"
  have xs: "xs \<noteq> []" and nz: "lines \<noteq> 0" using assms by (auto simp: replay_lines_def)
  obtain q ys where q: "?R = q @ ys" "rev (butlast q) = [LF]" "last q = LF"
  proof (cases "lines > 0")
    case True
    then obtain q where "lines_prefix (nat lines + 1) ?R = Some q" "rev (butlast q) = [LF]"
      using assms xs nl unfolding replay_lines_def Let_def
      by (cases "lines_prefix (nat lines + 1) ?R") auto
    then show thesis using that unfolding lines_prefix_Some_iff by fastforce
  next
    case False
    let ?q = "complete_lines (take (nat chars + 1) ?R)"
    have e: "rev (butlast ?q) = [LF]"
      using assms xs nz nl False unfolding replay_lines_def Let_def by (simp split: if_splits)
    obtain zs where "take (nat chars + 1) ?R = ?q @ zs"
      using complete_lines_prefix by blast
    then have "?R = ?q @ zs @ drop (nat chars + 1) ?R"
      by (metis append.assoc append_take_drop_id)
    moreover have "last ?q = LF"
      by (rule last_complete_lines) simp
    ultimately show thesis using that e by blast
  qed
  have "q = [LF, LF]"
    using q(2,3) by (cases q rule: rev_cases) auto
  then have "rev xs @ (if w then [] else [LF]) = LF # ys"
    using q(1) by simp
  then show False
    using xs nl by (cases xs rule: rev_cases) auto
qed

text \<open>
  Replayed lines are delivered with their final newline; when they do not fit it is their
  end that is delivered, and the length of all of them that is returned.
\<close>

lemma newest_of_suffix:
  assumes "xs = zs @ ys" "0 \<le> n" "n \<le> int (length ys)"
  shows "newest n xs = newest n ys"
  using assms by (simp add: newest_def)

lemma cbuf_replay_line_spec:
  assumes "cbuf_is_valid cb" "0 < len" "-1 \<le> lines"
  defines "p \<equiv> replay_lines (got_wrap cb) (replayable cb) (len - 1) lines"
  shows "cbuf_replay_line cb (Some buf) len lines =
    Some (Inr (int (length p)),
          Some (if p \<noteq> [] then store_at (newest (len - 1) p @ [NUL]) buf else buf))"
proof (cases "p = []")
  case True
  moreover have "lines = 0 \<longrightarrow> p = []" by (simp add: p_def replay_lines_def)
  ultimately show ?thesis
    using assms(2,3) find_replay_line_spec [OF assms(1,3), of "len - 1"]
    by (auto simp: cbuf_replay_line_def p_def [symmetric] Let_def)
next
  case False
  let ?T = "replayable cb"
  define nl where "nl = needs_newline ?T"
  define n where "n = int (length p) - nl"
  have T: "?T \<noteq> []" using False by (auto simp: p_def replay_lines_def)
  have "lines \<noteq> 0" using False by (auto simp: p_def replay_lines_def)
  have nl: "nl = 0 \<and> last ?T = LF \<or> nl = 1 \<and> last ?T \<noteq> LF"
    using T by (simp add: nl_def needs_newline_def)
  let ?nlend = "if last ?T = LF then [] else [LF]"
  obtain zs where zs: "?T @ ?nlend = zs @ p"
    using replay_lines_suffix [OF T] p_def by blast
  have E: "cbuf_find_replay_line cb (len - 1) lines = Some (n, newlines p, nl)"
    using find_replay_line_spec [OF assms(1,3), of "len - 1"] False
    by (auto simp: p_def [symmetric] n_def nl_def Let_def)
  have "last p = LF"
    using arg_cong [OF zs, of last] False nl by (auto split: if_splits)
  have n0: "0 < n"
  proof (cases "nl = 1")
    case True
    show ?thesis
    proof (rule ccontr)
      assume "\<not> 0 < n"
      then have "length p = 1" using True False by (cases p) (auto simp: n_def)
      then have "p = [LF]" using \<open>last p = LF\<close> by (cases p) auto
      then show False
        using replay_lines_not_newline True nl unfolding p_def by auto
    qed
  next
    case False2: False
    then show ?thesis using nl False by (auto simp: n_def)
  qed
  define m where "m = max (min n (len - 1 - nl)) 0"
  have m: "0 \<le> m" "m \<le> n" using n0 by (auto simp: m_def)
  define out where "out = (if m > 0 then snd (cbuf_replayer cb m cbuf_put_mem []) else [])"
  have out: "out = newest m ?T"
  proof (cases "m > 0")
    case True
    obtain r o1 where e: "cbuf_replayer cb m cbuf_put_mem [] = (r, o1)"
      by (meson surj_pair)
    show ?thesis
      using mem_sink.cbuf_replayer_full(2) [OF assms(1) True e] True by (simp add: out_def e)
  next
    case False
    then show ?thesis using m(1) by (simp add: out_def newest_def)
  qed
  have deliver: "(if nl \<noteq> 0 \<and> len > 1 then out @ [LF] else out) = newest (len - 1) p"
  proof (cases "len = 1")
    case True
    then have "m = 0" using nl by (auto simp: m_def)
    then show ?thesis using True by (simp add: out newest_def)
  next
    case False
    then have len: "len > 1" using assms(2) by simp
    then have mm: "m + nl = min (int (length p)) (len - 1)"
      using n0 nl by (auto simp: m_def n_def)
    have "(if nl \<noteq> 0 \<and> len > 1 then out @ [LF] else out) = newest m ?T @ ?nlend"
      using nl len by (auto simp: out)
    also have "\<dots> = newest (m + nl) (?T @ ?nlend)"
      using nl m(1) by (auto simp: newest_def nat_add_distrib)
    also have "\<dots> = newest (m + nl) p"
      by (rule newest_of_suffix [OF zs]) (use m nl mm in auto)
    also have "\<dots> = newest (len - 1) p"
      using len by (cases "int (length p) \<le> len - 1") (simp_all add: mm)
    finally show ?thesis .
  qed
  have E2: "cbuf_replay_line cb (Some buf) len lines =
      Some (Inr (n + nl), Some (store_at ((if nl \<noteq> 0 \<and> len > 1 then out @ [LF] else out) @ [NUL]) buf))"
    unfolding cbuf_replay_line_def option.case E option.map Let_def case_prod_conv
      m_def [symmetric] out_def [symmetric]
    using assms(2,3) \<open>lines \<noteq> 0\<close> n0 by simp
  show ?thesis
    unfolding E2 deliver using False by (simp add: n_def)
qed

section \<open>Writing a line\<close>

text \<open>The line a C string stands for: with its newline, added when it has none.\<close>

definition as_line :: "string \<Rightarrow> string" where
  "as_line s = (if s \<noteq> [] \<and> last s = LF then s else s @ [LF])"

lemma appended_drop:
  assumes "appended bs a b" "cbuf_is_valid a"
  defines "d \<equiv> max 0 (used a + int (length bs) - bsize b)"
  shows "unread b = drop (nat d) (unread a @ bs)" "used b = used a + int (length bs) - d"
    "0 \<le> d" "d \<le> used a + int (length bs)"
proof -
  note r = cbuf_valid_range [OF assms(2)]
  have b: "cbuf_is_valid b" "unread b = newest (bsize b) (unread a @ bs)"
    using assms(1) by (simp_all add: appended_def)
  note rb = cbuf_valid_range [OF b(1)]
  show "0 \<le> d" "d \<le> used a + int (length bs)" using r rb by (auto simp: d_def)
  have "length (unread a @ bs) - nat (bsize b) = nat d"
    using r rb by (auto simp: d_def)
  then show u: "unread b = drop (nat d) (unread a @ bs)"
    using b(2) by (simp add: newest_def)
  have "int (length (unread b)) = used a + int (length bs) - d"
    unfolding u using r \<open>0 \<le> d\<close> \<open>d \<le> _\<close> by simp
  then show "used b = used a + int (length bs) - d" using rb by simp
qed

text \<open>A write from memory that the policy has room for stores the whole block.\<close>

lemma cbuf_writer_all:
  assumes "cbuf_is_valid cb" "src \<noteq> []" "n = int (length src)"
    and "overwrite cb = CBUF_NO_DROP \<Longrightarrow> n \<le> bsize cb - used cb"
    and "overwrite cb = CBUF_WRAP_ONCE \<Longrightarrow> n \<le> bsize cb"
    and "cbuf_writer mem cb n cbuf_get_mem src nd0 = (r, nd, src', cb')"
  shows "r = Inr n" "nd = max 0 (used cb + n - bsize cb')" "appended src cb cb'"
proof -
  have n: "0 < n" using assms(2,3) by simp
  note W = mem_source.cbuf_writer_full [OF assms(1) n assms(6) eq_refl [OF assms(3)]]
  have "bsize cb \<le> bsize cb'" using W(4) by (simp add: appended_def)
  then have "write_count (overwrite cb) (bsize cb') (used cb) n = n"
    using assms(4,5) by (auto simp: write_count_def split: cbuf_overwrite_t.split)
  with W n assms(3) show "r = Inr n" "nd = max 0 (used cb + n - bsize cb')" "appended src cb cb'"
    by simp_all
qed

lemma c_at_end [simp]: "c_at s (int (length s)) = NUL"
  by (simp add: c_at_def)

lemma c_at_last: "s \<noteq> [] \<Longrightarrow> c_at s (int (length s) - 1) = last s"
  by (simp add: c_at_def last_conv_nth nat_diff_distrib' Suc_leI nat_less_iff of_nat_diff)

text \<open>
  The two writes that follow the test of the policy, on a buffer \<open>c\<close> that passed it:
  the end of the line that fits, then the newline if there is none.
\<close>

lemma write_line_parts:
  assumes "cbuf_is_valid c" "int (length (body @ nlpart)) \<le> bsize c"
    and "overwrite c = CBUF_NO_DROP \<Longrightarrow> int (length (body @ nlpart)) \<le> bsize c - used c"
    and "(if body \<noteq> [] then
            let (n, d, _, dst) = cbuf_writer mem c (int (length body)) cbuf_get_mem body 0
            in (skip + d, d, dst)
          else (skip, 0, c)) = (nd1, d1, b)"
    and "nlpart = [] \<or> nlpart = [LF]"
    and "(if nlpart \<noteq> [] then
            let (n, d, _, dst) = cbuf_writer mem b 1 cbuf_get_mem [LF] d1 in (nd1 + d, dst)
          else (nd1, b)) = (nd, e)"
  shows "\<exists>d. nd = skip + d \<and> 0 \<le> d \<and> d \<le> used c \<and> unread e = drop (nat d) (unread c @ body @ nlpart) \<and>
    cbuf_is_valid e \<and> bsize c \<le> bsize e \<and> overwrite e = overwrite c \<and>
    (overwrite c = CBUF_NO_DROP \<longrightarrow> d = 0) \<and> (bsize c = bsize e \<longrightarrow> d = max 0 (used c + int (length (body @ nlpart)) - bsize e))"
proof -
  note rc = cbuf_valid_range [OF assms(1)]
  have b: "appended body c b \<and> nd1 = skip + max 0 (used c + int (length body) - bsize b)"
  proof (cases "body = []")
    case True
    then show ?thesis using assms(4) appended_refl [OF assms(1)] rc by simp
  next
    case False
    obtain r d s' dst where w: "cbuf_writer mem c (int (length body)) cbuf_get_mem body 0 = (r, d, s', dst)"
      by (metis prod_cases4)
    have room: "overwrite c = CBUF_NO_DROP \<Longrightarrow> int (length body) \<le> bsize c - used c"
        "overwrite c = CBUF_WRAP_ONCE \<Longrightarrow> int (length body) \<le> bsize c"
      using assms(2,3) by auto
    show ?thesis
      using cbuf_writer_all [OF assms(1) False refl room w] assms(4) False w by auto
  qed
  note B = appended_drop [OF conjunct1 [OF b] assms(1)]
  have vb: "cbuf_is_valid b" "bsize c \<le> bsize b" "overwrite b = overwrite c"
    using b by (auto simp: appended_def)
  note rb = cbuf_valid_range [OF vb(1)]
  have e: "appended nlpart b e \<and> nd = nd1 + max 0 (used b + int (length nlpart) - bsize e)"
  proof (cases "nlpart = []")
    case True
    then show ?thesis using assms(6) appended_refl [OF vb(1)] rb by simp
  next
    case False
    then have nl: "nlpart = [LF]" using assms(5) by simp
    obtain r d s' dst where w: "cbuf_writer mem b 1 cbuf_get_mem [LF] d1 = (r, d, s', dst)"
      by (metis prod_cases4)
    have room: "overwrite b = CBUF_NO_DROP \<Longrightarrow> 1 \<le> bsize b - used b"
      using assms(3) vb nl B(2) rc by simp
    have fits: "overwrite b = CBUF_WRAP_ONCE \<Longrightarrow> 1 \<le> bsize b"
      using rb by simp
    have W: "d = max 0 (used b + 1 - bsize dst)" "appended [LF] b dst"
      using cbuf_writer_all [OF vb(1) _ _ room fits w] by simp_all
    show ?thesis
      using W assms(6) nl w by auto
  qed
  note E = appended_drop [OF conjunct1 [OF e] vb(1)]
  define d where "d = max 0 (used c + int (length body) - bsize b) + max 0 (used b + int (length nlpart) - bsize e)"
  have ee: "cbuf_is_valid e" "bsize b \<le> bsize e" "overwrite e = overwrite b"
    using e by (auto simp: appended_def)
  have "unread e = drop (nat d) (unread c @ body @ nlpart)"
  proof -
    let ?d1 = "max 0 (used c + int (length body) - bsize b)"
    have "nat ?d1 \<le> length (unread c @ body)" using B(4) rc by simp
    then have "unread e = drop (nat (max 0 (used b + int (length nlpart) - bsize e)))
        (drop (nat ?d1) (unread c @ body @ nlpart))"
      unfolding E(1) B(1) by simp
    then show ?thesis unfolding d_def by (simp add: nat_add_distrib add.commute del: drop_append)
  qed
  moreover have "0 \<le> d" "d \<le> used c"
    using assms(2) B(2) ee(2) vb(2) rc unfolding d_def by (auto simp: max_def)
  moreover have "overwrite c = CBUF_NO_DROP \<longrightarrow> d = 0"
    using assms(3) B(2) ee(2) vb(2) rc unfolding d_def by (auto simp: max_def)
  moreover have "bsize c = bsize e \<longrightarrow> d = max 0 (used c + int (length (body @ nlpart)) - bsize e)"
    using B(2) ee(2) vb(2) rc unfolding d_def by (auto simp: max_def)
  moreover have "nd = skip + d"
    using b e by (simp add: d_def)
  ultimately show ?thesis
    using ee vb by (intro exI [of _ d]) simp
qed

text \<open>
  A line is written whole or refused: what is lost are the oldest unread bytes, and, only
  when the line alone exceeds the buffer, the beginning of the line (\<open>skip\<close> bytes).
\<close>

lemma cbuf_write_line_spec:
  assumes "cbuf_is_valid cb" "cbuf_write_line mem cb (Some s) = (r, nd, cb')"
  shows "cbuf_is_valid cb'" "overwrite cb' = overwrite cb" "bsize cb \<le> bsize cb'"
    and "r = Inl ENOSPC \<and> nd = 0 \<and> unread cb' = unread cb \<and>
        (overwrite cb = CBUF_NO_DROP \<and> int (length (as_line s)) > bsize cb' - used cb
         \<or> overwrite cb = CBUF_WRAP_ONCE \<and> int (length (as_line s)) > bsize cb')
      \<or> r = Inr (int (length (as_line s))) \<and>
        (\<exists>d skip. nd = skip + d \<and> 0 \<le> skip \<and> skip \<le> max 0 (int (length (as_line s)) - bsize cb) \<and>
          0 \<le> d \<and> d \<le> used cb \<and>
          unread cb' = drop (nat d) (unread cb @ drop (nat skip) (as_line s)) \<and>
          (overwrite cb = CBUF_NO_DROP \<longrightarrow> skip = 0 \<and> d = 0) \<and>
          (overwrite cb = CBUF_WRAP_ONCE \<longrightarrow> skip = 0))"
proof -
  define len where "len = int (length (as_line s))"
  have len: "(if int (length s) = 0 \<or> c_at s (int (length s) - 1) \<noteq> LF
      then int (length s) + 1 else int (length s)) = len"
    by (auto simp: len_def as_line_def c_at_last)
  obtain g c where c: "(if len > bsize cb - used cb \<and> bsize cb < maxsize cb
      then cbuf_grow mem cb (len - (bsize cb - used cb)) else (0, cb)) = (g, c)"
    by (meson surj_pair)
  note grown = cbuf_grow_if [OF assms(1) c]
  note rc = cbuf_valid_range [OF grown(1)]
  have c': "(if len > bsize cb - used cb \<and> bsize cb < maxsize cb
      then snd (cbuf_grow mem cb (len - (bsize cb - used cb))) else cb) = c"
    using c by (auto split: if_splits)
  let ?no = "overwrite c = CBUF_NO_DROP \<and> len > bsize c - used c
    \<or> overwrite c = CBUF_WRAP_ONCE \<and> len > bsize c"
  have "cbuf_is_valid cb' \<and> overwrite cb' = overwrite cb \<and> bsize cb \<le> bsize cb' \<and>
    (r = Inl ENOSPC \<and> nd = 0 \<and> unread cb' = unread cb \<and>
        (overwrite cb = CBUF_NO_DROP \<and> len > bsize cb' - used cb
         \<or> overwrite cb = CBUF_WRAP_ONCE \<and> len > bsize cb')
      \<or> r = Inr len \<and>
        (\<exists>d skip. nd = skip + d \<and> 0 \<le> skip \<and> skip \<le> max 0 (len - bsize cb) \<and>
          0 \<le> d \<and> d \<le> used cb \<and>
          unread cb' = drop (nat d) (unread cb @ drop (nat skip) (as_line s)) \<and>
          (overwrite cb = CBUF_NO_DROP \<longrightarrow> skip = 0 \<and> d = 0) \<and>
          (overwrite cb = CBUF_WRAP_ONCE \<longrightarrow> skip = 0)))"
  proof (cases ?no)
    case True
    then have "r = Inl ENOSPC" "nd = 0" "cb' = c"
      using assms(2) unfolding cbuf_write_line_def option.case Let_def len c' if_P [OF True] by simp_all
    then show ?thesis using grown True by auto
  next
    case False
    define skip where "skip = (if len > bsize c then len - bsize c else 0)"
    define body where "body = drop (nat skip) s"
    define nlpart where "nlpart = (if c_at s (len - 1) \<noteq> LF then [LF] else [])"
    have line: "as_line s = s @ nlpart"
      by (auto simp: nlpart_def len_def as_line_def c_at_last)
    have ll: "len = int (length s) + int (length nlpart)" "length nlpart \<le> 1"
      by (simp add: len_def line, simp add: nlpart_def)
    have skip: "0 \<le> skip" "skip \<le> int (length s)" "skip \<le> max 0 (len - bsize cb)"
      using rc(1) ll grown(3,4) by (auto simp: skip_def)
    then have bl: "int (length body) = int (length s) - skip"
      by (simp add: body_def)
    have rest: "drop (nat skip) (as_line s) = body @ nlpart"
      using skip by (simp add: line body_def)
    define first where "first = (if body \<noteq> [] then
            let (n, d, _, dst) = cbuf_writer mem c (int (length body)) cbuf_get_mem body 0
            in (skip + d, d, dst)
          else (skip, 0, c))"
    obtain nd1 d1 b where f: "first = (nd1, d1, b)"
      by (rule prod_cases3)
    note p1 = f [unfolded first_def]
    have body: "0 < int (length s) - skip \<longleftrightarrow> body \<noteq> []"
      unfolding bl [symmetric] by simp
    have nl: "nlpart \<noteq> [] \<longleftrightarrow> c_at s (len - 1) \<noteq> LF" "nlpart = [] \<or> nlpart = [LF]"
      by (simp_all add: nlpart_def)
    have E: "cbuf_write_line mem cb (Some s) =
      (case (if nlpart \<noteq> [] then
            let (n, d, _, dst) = cbuf_writer mem b 1 cbuf_get_mem [LF] d1 in (nd1 + d, dst)
          else (nd1, b)) of (nd, e) \<Rightarrow> (Inr len, nd, e))"
      unfolding cbuf_write_line_def option.case Let_def len c' if_not_P [OF False]
        skip_def [symmetric] body_def [symmetric] bl [symmetric] body [unfolded bl [symmetric]]
        p1 [unfolded Let_def] case_prod_conv nl(1) ..
    have p2: "(if nlpart \<noteq> [] then
            let (n, d, _, dst) = cbuf_writer mem b 1 cbuf_get_mem [LF] d1 in (nd1 + d, dst)
          else (nd1, b)) = (nd, cb')" and r: "r = Inr len"
      using assms(2) unfolding E by (simp_all split: prod.splits)
    have fit: "int (length (body @ nlpart)) \<le> bsize c"
      using bl ll by (auto simp: skip_def)
    have nodrop: "overwrite c = CBUF_NO_DROP \<Longrightarrow> int (length (body @ nlpart)) \<le> bsize c - used c"
      using False skip(1) bl ll by auto
    obtain d where d: "nd = skip + d" "0 \<le> d" "d \<le> used c"
        "unread cb' = drop (nat d) (unread c @ body @ nlpart)"
        "cbuf_is_valid cb'" "bsize c \<le> bsize cb'" "overwrite cb' = overwrite c"
        "overwrite c = CBUF_NO_DROP \<longrightarrow> d = 0"
      using write_line_parts [OF grown(1) fit nodrop p1 nl(2) p2] by blast
    have "overwrite c = CBUF_NO_DROP \<longrightarrow> skip = 0" "overwrite c = CBUF_WRAP_ONCE \<longrightarrow> skip = 0"
      using False rc by (auto simp: skip_def)
    then have "nd = skip + d \<and> 0 \<le> skip \<and> skip \<le> max 0 (len - bsize cb) \<and>
          0 \<le> d \<and> d \<le> used cb \<and>
          unread cb' = drop (nat d) (unread cb @ drop (nat skip) (as_line s)) \<and>
          (overwrite cb = CBUF_NO_DROP \<longrightarrow> skip = 0 \<and> d = 0) \<and>
          (overwrite cb = CBUF_WRAP_ONCE \<longrightarrow> skip = 0)"
      using d grown skip unfolding rest by simp
    then have "\<exists>d skip. nd = skip + d \<and> 0 \<le> skip \<and> skip \<le> max 0 (len - bsize cb) \<and>
          0 \<le> d \<and> d \<le> used cb \<and>
          unread cb' = drop (nat d) (unread cb @ drop (nat skip) (as_line s)) \<and>
          (overwrite cb = CBUF_NO_DROP \<longrightarrow> skip = 0 \<and> d = 0) \<and>
          (overwrite cb = CBUF_WRAP_ONCE \<longrightarrow> skip = 0)"
      by blast
    then show ?thesis
      using d(5-7) r grown by simp
  qed
  then show "cbuf_is_valid cb'" "overwrite cb' = overwrite cb" "bsize cb \<le> bsize cb'"
    and "r = Inl ENOSPC \<and> nd = 0 \<and> unread cb' = unread cb \<and>
        (overwrite cb = CBUF_NO_DROP \<and> int (length (as_line s)) > bsize cb' - used cb
         \<or> overwrite cb = CBUF_WRAP_ONCE \<and> int (length (as_line s)) > bsize cb')
      \<or> r = Inr (int (length (as_line s))) \<and>
        (\<exists>d skip. nd = skip + d \<and> 0 \<le> skip \<and> skip \<le> max 0 (int (length (as_line s)) - bsize cb) \<and>
          0 \<le> d \<and> d \<le> used cb \<and>
          unread cb' = drop (nat d) (unread cb @ drop (nat skip) (as_line s)) \<and>
          (overwrite cb = CBUF_NO_DROP \<longrightarrow> skip = 0 \<and> d = 0) \<and>
          (overwrite cb = CBUF_WRAP_ONCE \<longrightarrow> skip = 0))"
    unfolding len_def by blast+
qed

end
