(* ===== verification/Cbuf_Calls.thy ===== *)
theory Cbuf_Calls
  imports Cbuf_Line
begin

text \<open>
  Sequences of public calls on one circular buffer. Every public function of \<open>cbuf.c\<close>
  asserts \<open>cbuf_is_valid\<close> when it enters and when it leaves: after
  \<open>cbuf_create\<close> no sequence of calls makes one of these assertions fail, and every
  call returns.
\<close>

datatype cbuf_call =
    CallFlush
  | CallOptSet int int
  | CallDrop int
  | CallRead "byte list option" int
  | CallRewind int
  | CallWrite "byte list option" int
  | CallDropLine int int
  | CallReadLine "byte list option" int int
  | CallRewindLine int int
  | CallWriteLine "string option"
  | CallReadToFd int fd_out int
  | CallWriteFromFd int "rd_event list" int
  | CallCopyFrom cbuf int
  | CallMoveFrom cbuf int
  | CallMoveTo cbuf int

text \<open>The buffer after a call; \<open>None\<close> for a call that does not return.\<close>

fun cbuf_step :: "allocator \<Rightarrow> cbuf \<Rightarrow> cbuf_call \<Rightarrow> cbuf option" where
  "cbuf_step mem cb CallFlush = Some (cbuf_flush cb)"
| "cbuf_step mem cb (CallOptSet name v) = Some (snd (cbuf_opt_set cb name v))"
| "cbuf_step mem cb (CallDrop len) = Some (snd (cbuf_drop cb len))"
| "cbuf_step mem cb (CallRead buf len) = Some (snd (snd (cbuf_read cb buf len)))"
| "cbuf_step mem cb (CallRewind len) = Some (snd (cbuf_rewind cb len))"
| "cbuf_step mem cb (CallWrite src len) = Some (snd (snd (cbuf_write mem cb src len)))"
| "cbuf_step mem cb (CallDropLine len lines) = map_option snd (cbuf_drop_line cb len lines)"
| "cbuf_step mem cb (CallReadLine buf len lines) =
     map_option (\<lambda>(r, out, cb'). cb') (cbuf_read_line cb buf len lines)"
| "cbuf_step mem cb (CallRewindLine len lines) = map_option snd (cbuf_rewind_line cb len lines)"
| "cbuf_step mem cb (CallWriteLine s) = Some (snd (snd (cbuf_write_line mem cb s)))"
| "cbuf_step mem cb (CallReadToFd dstfd fd len) =
     Some (snd (snd (cbuf_read_to_fd cb dstfd fd len)))"
| "cbuf_step mem cb (CallWriteFromFd srcfd fd len) =
     Some (snd (snd (snd (cbuf_write_from_fd mem cb srcfd fd len))))"
| "cbuf_step mem cb (CallCopyFrom src len) = Some (snd (snd (cbuf_copy mem False src cb len)))"
| "cbuf_step mem cb (CallMoveFrom src len) =
     Some (snd (snd (snd (cbuf_move mem False src cb len))))"
| "cbuf_step mem cb (CallMoveTo dst len) =
     Some (fst (snd (snd (cbuf_move mem False cb dst len))))"

text \<open>
  Sizes and lengths are values of type \<open>int\<close> in C. What a call adds up stays within its
  range: the indices, which are at most twice the size; the length and what is in the buffer; and
  what \<open>cbuf_grow\<close> computes if it is called to make room for \<open>len\<close> bytes.
\<close>

definition CBUF_INT_MAX :: int where
  "CBUF_INT_MAX = 2 ^ 31 - 1"

definition room_fits :: "cbuf \<Rightarrow> int \<Rightarrow> bool" where
  "room_fits cb len \<longleftrightarrow>
     used cb + len \<le> CBUF_INT_MAX \<and>
     (let n = len - (bsize cb - used cb)
      in 0 < n \<and> bsize cb < maxsize cb \<longrightarrow>
         alloc cb + n + CBUF_CHUNK \<le> CBUF_INT_MAX \<and> maxsize cb + (alloc cb - bsize cb) \<le> CBUF_INT_MAX)"

fun call_fits :: "cbuf \<Rightarrow> cbuf_call \<Rightarrow> bool" where
  "call_fits cb (CallWrite src len) = room_fits cb len"
| "call_fits cb (CallWriteLine s) = (case s of None \<Rightarrow> True | Some t \<Rightarrow> room_fits cb (int (length t) + 1))"
| "call_fits cb (CallWriteFromFd srcfd fd len) =
     (if len = -1 then used cb < bsize cb \<or> room_fits cb (min (bsize cb) CBUF_CHUNK) else room_fits cb len)"
| "call_fits cb (CallCopyFrom src len) = room_fits cb (if len = -1 then used src else min len (used src))"
| "call_fits cb (CallMoveFrom src len) = room_fits cb (if len = -1 then used src else min len (used src))"
| "call_fits cb (CallMoveTo dst len) =
     (2 * maxsize dst + 1 \<le> CBUF_INT_MAX \<and> room_fits dst (if len = -1 then used cb else min len (used cb)))"
| "call_fits cb (CallRewindLine len lines) = (len < CBUF_INT_MAX \<and> lines < CBUF_INT_MAX)"
| "call_fits cb _ = True"

text \<open>
  A sequence of calls: \<open>None\<close> if one of them does not return, or adds up to more than an
  \<open>int\<close> holds; an overflow in \<open>cbuf_grow\<close> is caught by its assertion that the buffer
  grows.
\<close>

fun cbuf_run :: "allocator \<Rightarrow> cbuf \<Rightarrow> cbuf_call list \<Rightarrow> cbuf option" where
  "cbuf_run mem cb [] = Some cb"
| "cbuf_run mem cb (c # cs) =
    (if 2 * maxsize cb + 1 \<le> CBUF_INT_MAX \<and> call_fits cb c
     then Option.bind (cbuf_step mem cb c) (\<lambda>cb'. cbuf_run mem cb' cs) else None)"

text \<open>
  Buffers and arguments of at most a thousand million bytes; the other buffer of a copy or a move
  is valid as well.
\<close>

definition CBUF_BOUND :: int where
  "CBUF_BOUND = 10 ^ 9"

definition cbuf_small :: "cbuf \<Rightarrow> bool" where
  "cbuf_small cb \<longleftrightarrow> maxsize cb \<le> CBUF_BOUND \<and> alloc cb - bsize cb \<le> 1 + 2 * CBUF_MAGIC_LEN"

fun call_ok :: "cbuf_call \<Rightarrow> bool" where
  "call_ok (CallWrite src len) = (len \<le> CBUF_BOUND)"
| "call_ok (CallWriteLine s) = (case s of None \<Rightarrow> True | Some t \<Rightarrow> int (length t) < CBUF_BOUND)"
| "call_ok (CallWriteFromFd srcfd fd len) = (len \<le> CBUF_BOUND)"
| "call_ok (CallCopyFrom src len) = (cbuf_is_valid src \<and> cbuf_small src)"
| "call_ok (CallMoveFrom src len) = (cbuf_is_valid src \<and> cbuf_small src)"
| "call_ok (CallMoveTo dst len) = (cbuf_is_valid dst \<and> cbuf_small dst)"
| "call_ok (CallRewindLine len lines) = (len \<le> CBUF_BOUND \<and> lines \<le> CBUF_BOUND)"
| "call_ok _ = True"

section \<open>Every call keeps the buffer valid\<close>

lemma cbuf_opt_set_valid:
  "cbuf_is_valid cb \<Longrightarrow> cbuf_is_valid (snd (cbuf_opt_set cb name v))"
  by (auto simp: cbuf_opt_set_def cbuf_is_valid_def)

lemma cbuf_read_valid:
  assumes "cbuf_is_valid cb"
  shows "cbuf_is_valid (snd (snd (cbuf_read cb buf len)))"
proof (cases "buf = None \<or> len < 0")
  case True
  then show ?thesis using assms by (cases buf) (auto simp: cbuf_read_def)
next
  case False
  then obtain b where b: "buf = Some b" "0 \<le> len" by auto
  obtain r out cb' where "cbuf_read cb (Some b) len = (r, out, cb')" by (metis prod_cases3)
  with cbuf_read_spec(4) [OF assms b(2) this] show ?thesis by (simp add: b)
qed

lemma cbuf_write_valid:
  assumes "cbuf_is_valid cb"
  shows "cbuf_is_valid (snd (snd (cbuf_write mem cb src len)))"
proof (cases "src = None \<or> len \<le> 0")
  case True
  then show ?thesis using assms by (cases src) (auto simp: cbuf_write_def)
next
  case False
  then obtain s where s: "src = Some s" "0 < len" by auto
  obtain r nd s' cb' where w: "cbuf_writer mem cb len cbuf_get_mem s 0 = (r, nd, s', cb')"
    by (metis prod_cases4)
  have "cbuf_is_valid cb'"
    using mem_source.cbuf_writer_spec [OF assms s(2) w] by blast
  then show ?thesis using s w by (simp add: cbuf_write_def)
qed

lemma cbuf_read_line_valid:
  assumes "cbuf_is_valid cb"
  shows "\<exists>r out cb'. cbuf_read_line cb buf len lines = Some (r, out, cb') \<and> cbuf_is_valid cb'"
proof (cases "buf = None \<or> len < 0 \<or> lines < -1")
  case True
  then show ?thesis using assms by (cases buf) (auto simp: cbuf_read_line_def)
next
  case False
  then obtain b where b: "buf = Some b" "0 \<le> len" "-1 \<le> lines" by auto
  let ?p = "unread_lines (unread cb) (len - 1) lines"
  have n: "int (length ?p) \<le> used cb"
    using length_unread_lines [of "unread cb" "len - 1" lines] cbuf_valid_range(5) [OF assms] by simp
  show ?thesis
    using b assms cbuf_dropper_valid(1) [OF assms _ n]
    by (simp add: cbuf_read_line_def find_unread_line_spec [OF assms b(3)] Let_def)
qed

lemma cbuf_copy_valid:
  assumes "cbuf_is_valid src" "cbuf_is_valid dst"
  shows "cbuf_is_valid (snd (snd (cbuf_copy mem False src dst len)))"
proof -
  define l where "l = (if len = -1 then used src else len)"
  obtain r nd d where c: "cbuf_copier mem src dst l 0 = (r, nd, d)" by (metis prod_cases3)
  show ?thesis
  proof (cases "0 < l")
    case True
    have "cbuf_is_valid d"
      using cbuf_copier_spec(3) [OF assms True c] by (simp add: appended_def)
    then show ?thesis
      using c assms(2) by (simp add: cbuf_copy_def l_def Let_def)
  next
    case False
    then show ?thesis using assms(2) by (simp add: cbuf_copy_def l_def Let_def)
  qed
qed

lemma cbuf_step_valid:
  assumes "cbuf_is_valid cb" "call_ok c"
  shows "\<exists>cb'. cbuf_step mem cb c = Some cb' \<and> cbuf_is_valid cb'"
proof (cases c)
  case CallFlush
  then show ?thesis using assms by (simp add: cbuf_flush_valid)
next
  case (CallOptSet name v)
  then show ?thesis using assms by (simp add: cbuf_opt_set_valid)
next
  case (CallDrop len)
  then show ?thesis using cbuf_drop_spec(1) [OF assms(1)] by (cases "cbuf_drop cb len") simp
next
  case (CallRead buf len)
  then show ?thesis using assms by (simp add: cbuf_read_valid)
next
  case (CallRewind len)
  then show ?thesis using cbuf_rewind_spec(1) [OF assms(1)] by (cases "cbuf_rewind cb len") simp
next
  case (CallWrite src len)
  then show ?thesis using assms by (simp add: cbuf_write_valid)
next
  case (CallDropLine len lines)
  show ?thesis
  proof (cases "len < 0 \<or> lines < -1")
    case True
    then show ?thesis using CallDropLine assms by (simp add: cbuf_drop_line_def)
  next
    case False
    then have "0 \<le> len" "-1 \<le> lines" by simp_all
    from cbuf_drop_line_spec [OF assms(1) this] show ?thesis
      unfolding CallDropLine by force
  qed
next
  case (CallReadLine buf len lines)
  then show ?thesis using cbuf_read_line_valid [OF assms(1), of buf len lines] by auto
next
  case (CallRewindLine len lines)
  show ?thesis
  proof (cases "len < 0 \<or> lines < -1")
    case True
    then show ?thesis using CallRewindLine assms by (simp add: cbuf_rewind_line_def)
  next
    case False
    then have "0 \<le> len" "-1 \<le> lines" by simp_all
    from cbuf_rewind_line_spec [OF assms(1) this] show ?thesis
      unfolding CallRewindLine by force
  qed
next
  case (CallWriteLine s)
  show ?thesis
  proof (cases s)
    case None
    then show ?thesis using CallWriteLine assms by (simp add: cbuf_write_line_def)
  next
    case (Some t)
    obtain r nd cb' where e: "cbuf_write_line mem cb (Some t) = (r, nd, cb')" by (metis prod_cases3)
    show ?thesis
      using cbuf_write_line_spec(1) [OF assms(1) e] e CallWriteLine Some by simp
  qed
next
  case (CallReadToFd dstfd fd len)
  obtain r f cb' where e: "cbuf_read_to_fd cb dstfd fd len = (r, f, cb')" by (metis prod_cases3)
  then show ?thesis
    using cbuf_read_to_fd_spec [OF assms(1) e] CallReadToFd by (metis cbuf_step.simps(11) snd_conv)
next
  case (CallWriteFromFd srcfd fd len)
  obtain r nd f cb' where e: "cbuf_write_from_fd mem cb srcfd fd len = (r, nd, f, cb')"
    by (metis prod_cases4)
  then show ?thesis
    using cbuf_write_from_fd_spec [OF assms(1) e] CallWriteFromFd
    by (metis appended_def cbuf_step.simps(12) snd_conv)
next
  case (CallCopyFrom src len)
  then show ?thesis using cbuf_copy_valid [of src cb mem len] assms by simp
next
  case (CallMoveFrom src len)
  obtain r nd s cb' where e: "cbuf_move mem False src cb len = (r, nd, s, cb')" by (metis prod_cases4)
  have "cbuf_is_valid src" using CallMoveFrom assms(2) by simp
  then show ?thesis
    using cbuf_move_spec [OF _ assms(1) e] CallMoveFrom e
    by (metis appended_def cbuf_step.simps(14) snd_conv)
next
  case (CallMoveTo dst len)
  obtain r nd s d' where e: "cbuf_move mem False cb dst len = (r, nd, s, d')" by (metis prod_cases4)
  have "cbuf_is_valid dst" using CallMoveTo assms(2) by simp
  then show ?thesis
    using cbuf_move_spec [OF assms(1) _ e] CallMoveTo e
    by (metis cbuf_step.simps(15) fst_conv snd_conv)
qed

section \<open>No sum leaves the range of \<open>int\<close>\<close>

definition same_bounds :: "cbuf \<Rightarrow> cbuf \<Rightarrow> bool" where
  "same_bounds cb cb' \<longleftrightarrow> maxsize cb' = maxsize cb \<and> alloc cb' - bsize cb' = alloc cb - bsize cb"

lemma same_bounds_refl: "same_bounds cb cb"
  by (simp add: same_bounds_def)

lemma same_bounds_trans: "same_bounds a b \<Longrightarrow> same_bounds b c \<Longrightarrow> same_bounds a c"
  by (simp add: same_bounds_def)

lemma grow_bounds: "same_bounds cb (snd (cbuf_grow mem cb n))"
  by (simp add: same_bounds_def cbuf_grow_def Let_def)

lemma dropper_bounds: "same_bounds cb (cbuf_dropper cb n)"
  by (simp add: same_bounds_def cbuf_dropper_def cbuf_shrink_def Let_def)

lemma advance_bounds: "same_bounds cb (cbuf_advance (cb\<lparr>data := d\<rparr>) nfree n i)"
  by (simp add: same_bounds_def cbuf_advance_def Let_def)

lemma data_bounds: "same_bounds cb (cb\<lparr>data := d\<rparr>)"
  by (simp add: same_bounds_def)

lemma grow_if_bounds: "same_bounds cb (snd (if b then cbuf_grow mem cb n else (0, cb)))"
  by (simp add: grow_bounds same_bounds_refl)

lemma writer_bounds:
  assumes "cbuf_writer mem cb len getf src nd0 = (r, nd, src', cb')"
  shows "same_bounds cb cb'"
proof -
  obtain g c where c: "(if len > bsize cb - used cb \<and> bsize cb < maxsize cb
      then cbuf_grow mem cb (len - (bsize cb - used cb)) else (0, cb)) = (g, c)"
    by (meson surj_pair)
  have cc: "same_bounds cb c"
    using grow_if_bounds [of cb "len > bsize cb - used cb \<and> bsize cb < maxsize cb" mem "len - (bsize cb - used cb)"]
    unfolding c by simp
  define L where "L = (case overwrite c of CBUF_NO_DROP \<Rightarrow> min len (bsize c - used c)
    | CBUF_WRAP_ONCE \<Rightarrow> min len (bsize c) | CBUF_WRAP_MANY \<Rightarrow> len)"
  obtain s1 d i nl m where loop: "writer_loop getf src (data c) (i_in c) L (Inr 0) = (s1, d, i, nl, m)"
    by (metis prod_cases5)
  have "same_bounds c (snd (snd (snd (cbuf_writer mem cb len getf src nd0))))"
    unfolding cbuf_writer_def Let_def c case_prod_conv L_def [symmetric] loop
    by (simp add: same_bounds_refl data_bounds advance_bounds)
  then have "same_bounds c cb'" unfolding assms by simp
  with cc show ?thesis by (rule same_bounds_trans)
qed

lemma copier_bounds:
  assumes "cbuf_copier mem src cb len nd0 = (r, nd, cb')"
  shows "same_bounds cb cb'"
proof -
  let ?len = "min len (used src)"
  obtain g c where c: "(if ?len > bsize cb - used cb \<and> bsize cb < maxsize cb
      then cbuf_grow mem cb (?len - (bsize cb - used cb)) else (0, cb)) = (g, c)"
    by (meson surj_pair)
  have cc: "same_bounds cb c"
    using grow_if_bounds [of cb "?len > bsize cb - used cb \<and> bsize cb < maxsize cb" mem "?len - (bsize cb - used cb)"]
    unfolding c by simp
  define L where "L = (case overwrite c of CBUF_NO_DROP \<Rightarrow> min ?len (bsize c - used c)
    | CBUF_WRAP_ONCE \<Rightarrow> min ?len (bsize c) | CBUF_WRAP_MANY \<Rightarrow> ?len)"
  obtain k n where n: "(if L > bsize c then ((i_out src + (L - bsize c)) mod (bsize src + 1), bsize c)
      else (i_out src, L)) = (k, n)" by (meson surj_pair)
  obtain d i where loop: "copier_loop (data src) (data c) k (i_in c) n = (d, i)" by (meson surj_pair)
  have "snd (snd (cbuf_copier mem src cb len nd0)) = cb \<or> same_bounds c (snd (snd (cbuf_copier mem src cb len nd0)))"
    unfolding cbuf_copier_def Let_def c case_prod_conv L_def [symmetric] n loop
    by (simp add: same_bounds_refl data_bounds advance_bounds)
  then show ?thesis unfolding assms using same_bounds_trans [OF cc] same_bounds_refl [of cb] by auto
qed

lemma writer_bounds': "same_bounds cb (snd (snd (snd (cbuf_writer mem cb len getf src nd0))))"
  using writer_bounds by (metis prod.collapse)

lemma copier_bounds': "same_bounds cb (snd (snd (cbuf_copier mem src cb len nd0)))"
  using copier_bounds by (metis prod.collapse)

lemma write_line_bounds: "same_bounds cb (snd (snd (cbuf_write_line mem cb s)))"
proof (cases s)
  case None
  then show ?thesis by (simp add: cbuf_write_line_def same_bounds_refl)
next
  case (Some src)
  have c: "same_bounds cb (if b then snd (cbuf_grow mem cb n) else cb)" for b n
    by (simp add: grow_bounds same_bounds_refl)
  have w: "same_bounds cb (snd (snd (snd (cbuf_writer mem d len cbuf_get_mem x nd))))" if "same_bounds cb d" for d len x nd
    using that writer_bounds' by (rule same_bounds_trans)
  show ?thesis
    unfolding cbuf_write_line_def Some Let_def option.case case_prod_beta
    by (simp add: c w del: split_paired_all split del: if_split) (simp add: c w)
qed

lemma cbuf_step_bounds:
  assumes "cbuf_step mem cb c = Some cb'"
  shows "same_bounds cb cb'"
proof (cases c)
  case (CallWrite src len)
  then show ?thesis using assms writer_bounds'
    by (auto simp: case_prod_beta cbuf_write_def same_bounds_refl split: option.splits if_splits prod.splits)
next
  case (CallWriteLine s)
  then show ?thesis using assms write_line_bounds by auto
next
  case (CallWriteFromFd srcfd fd len)
  then show ?thesis using assms
    by (auto simp: writer_bounds' cbuf_write_from_fd_def Let_def same_bounds_refl split: if_splits prod.splits)
next
  case (CallCopyFrom src len)
  then show ?thesis using assms
    by (auto simp: copier_bounds' cbuf_copy_def Let_def same_bounds_refl split: if_splits prod.splits)
next
  case (CallMoveFrom src len)
  then show ?thesis using assms
    by (auto simp: copier_bounds' case_prod_beta cbuf_move_def Let_def same_bounds_refl split: if_splits prod.splits)
next
  case (CallMoveTo dst len)
  then show ?thesis using assms
    by (auto simp: cbuf_move_def Let_def same_bounds_refl dropper_bounds split: if_splits prod.splits sum.splits)
next
  case (CallRead buf len)
  then show ?thesis using assms
    by (auto simp: cbuf_read_def same_bounds_refl dropper_bounds split: option.splits if_splits prod.splits sum.splits)
next
  case (CallReadToFd dstfd fd len)
  then show ?thesis using assms
    by (auto simp: cbuf_read_to_fd_def Let_def same_bounds_refl dropper_bounds split: if_splits prod.splits sum.splits)
next
  case (CallReadLine buf len lines)
  then show ?thesis using assms
    by (auto simp: cbuf_read_line_def Let_def same_bounds_refl dropper_bounds split: option.splits if_splits prod.splits)
next
  case (CallDropLine len lines)
  then show ?thesis using assms
    by (auto simp: cbuf_drop_line_def same_bounds_refl dropper_bounds split: if_splits)
next
  case (CallRewindLine len lines)
  then show ?thesis using assms
    by (auto simp: cbuf_rewind_line_def same_bounds_def split: if_splits prod.splits)
next
  case (CallDrop len)
  then show ?thesis using assms by (auto simp: cbuf_drop_def Let_def same_bounds_refl dropper_bounds)
next
  case (CallRewind len)
  then show ?thesis using assms by (auto simp: cbuf_rewind_def Let_def same_bounds_def)
next
  case (CallOptSet name v)
  then show ?thesis using assms by (auto simp: cbuf_opt_set_def same_bounds_def)
next
  case CallFlush
  then show ?thesis using assms by (auto simp: cbuf_flush_def same_bounds_def)
qed

lemma small_room_fits:
  assumes "cbuf_is_valid cb" "cbuf_small cb" "len \<le> CBUF_BOUND"
  shows "room_fits cb len"
  using assms cbuf_valid_range(5,6) [OF assms(1)]
  by (auto simp: cbuf_is_valid_def room_fits_def cbuf_small_def CBUF_BOUND_def CBUF_INT_MAX_def CBUF_CHUNK_def
      CBUF_MAGIC_LEN_def Let_def)

lemma small_used: "cbuf_is_valid cb \<Longrightarrow> cbuf_small cb \<Longrightarrow> used cb \<le> CBUF_BOUND"
  by (auto simp: cbuf_is_valid_def cbuf_small_def)

lemma small_call_fits:
  assumes "cbuf_is_valid cb" "cbuf_small cb" "call_ok c"
  shows "2 * maxsize cb + 1 \<le> CBUF_INT_MAX \<and> call_fits cb c"
proof -
  note R = small_room_fits [OF assms(1,2)]
  have m: "2 * maxsize d + 1 \<le> CBUF_INT_MAX" if "cbuf_small d" for d
    using that by (simp add: cbuf_small_def CBUF_BOUND_def CBUF_INT_MAX_def)
  have c: "min (bsize cb) CBUF_CHUNK \<le> CBUF_BOUND" by (simp add: CBUF_CHUNK_def CBUF_BOUND_def)
  have u: "(if len = -1 then used d else min len (used d)) \<le> CBUF_BOUND"
    if "cbuf_is_valid d" "cbuf_small d" for len d
    using small_used [OF that] by (simp add: min.coboundedI2)
  have "call_fits cb c"
    using assms(3) R u small_room_fits [OF _ _ u [OF assms(1,2)]] m c
    by (cases c) (auto simp: CBUF_BOUND_def CBUF_INT_MAX_def split: option.splits)
  then show ?thesis using m assms(2) by blast
qed

lemma cbuf_run_valid:
  assumes "cbuf_is_valid cb" "cbuf_small cb" "list_all call_ok cs"
  shows "\<exists>cb'. cbuf_run mem cb cs = Some cb' \<and> cbuf_is_valid cb' \<and> cbuf_small cb'"
  using assms
proof (induction cs arbitrary: cb)
  case (Cons c cs)
  have ok: "call_ok c" using Cons.prems(3) by simp
  obtain cb1 where s: "cbuf_step mem cb c = Some cb1" "cbuf_is_valid cb1"
    using cbuf_step_valid [of cb c mem] Cons.prems(1) ok by auto
  have "cbuf_small cb1" using cbuf_step_bounds [OF s(1)] Cons.prems(2) by (simp add: same_bounds_def cbuf_small_def)
  then show ?case
    using Cons.IH [of cb1] s Cons.prems(3) small_call_fits [OF Cons.prems(1,2) ok] by simp
qed simp

end
