(* ===== verification/C_String.thy ===== *)
theory C_String
  imports Prelude "HOL-Library.Char_ord"
begin

text \<open>
  The parts of the C library the host list and option code relies on, on strings as lists of
  characters: character classes, \<open>strcmp\<close>, \<open>strtoul\<close> in base 10 with its
  saturation at \<open>ULONG_MAX\<close>, \<open>printf\<close>'s \<open>%0*lu\<close>, and the conversion of
  an \<open>unsigned long\<close> to an \<open>int\<close>. The data model is LP64: \<open>unsigned long\<close>
  is 64 bits, \<open>int\<close> 32.
\<close>

type_synonym ulong = "64 word"

definition ULONG_MAX :: ulong where
  "ULONG_MAX = - 1"

text \<open>The implementation-defined conversion keeps the low 32 bits.\<close>

definition int_of_ulong :: "ulong \<Rightarrow> int" where
  "int_of_ulong w = sint (ucast w :: 32 word)"

lemma int_of_ulong_small: "unat w < 2 ^ 31 \<Longrightarrow> int_of_ulong w = int (unat w)"
proof -
  assume a: "unat w < 2 ^ 31"
  then have "int (unat w) < int (2 ^ 31)"
    by (rule of_nat_less_iff [THEN iffD2])
  then have u: "uint w < 2 ^ 31"
    by simp
  have "uint (ucast w :: 32 word) = uint w"
    using u by (simp add: unsigned_ucast_eq take_bit_int_eq_self)
  then have "sint (ucast w :: 32 word) = uint w"
    using u signed_take_bit_int_eq_self [of 31 "uint w"] order_trans [OF _ uint_ge_0 [of w], of "- (2 ^ 31)"]
    by (simp add: sint_uint)
  then show ?thesis by (simp add: int_of_ulong_def)
qed

section \<open>Characters\<close>

definition isdigit :: "char \<Rightarrow> bool" where
  "isdigit c \<longleftrightarrow> CHR ''0'' \<le> c \<and> c \<le> CHR ''9''"

definition isspace :: "char \<Rightarrow> bool" where
  "isspace c \<longleftrightarrow> c \<in> {CHR '' '', CHR 0x09, CHR 0x0A, CHR 0x0B, CHR 0x0C, CHR 0x0D}"

text \<open>The digit of a number below ten, and its value.\<close>

definition digit :: "nat \<Rightarrow> char" where
  "digit d = char_of (48 + d)"

definition digit_val :: "char \<Rightarrow> nat" where
  "digit_val c = of_char c - 48"

lemma isdigit_iff: "isdigit c \<longleftrightarrow> 48 \<le> (of_char c :: nat) \<and> of_char c \<le> (57 :: nat)"
  by (simp add: isdigit_def less_eq_char_def)

lemma of_char_digit: "d < 10 \<Longrightarrow> of_char (digit d) = (48 + d :: nat)"
  by (simp add: digit_def)

lemma isdigit_digit [simp]: "d < 10 \<Longrightarrow> isdigit (digit d)"
  by (simp add: isdigit_iff of_char_digit)

lemma digit_val_digit [simp]: "d < 10 \<Longrightarrow> digit_val (digit d) = d"
  by (simp add: digit_val_def of_char_digit)

lemma digit_digit_val [simp]: "isdigit c \<Longrightarrow> digit (digit_val c) = c"
  by (simp add: isdigit_iff digit_def digit_val_def)

lemma digit_val_bound: "isdigit c \<Longrightarrow> digit_val c < 10"
  unfolding isdigit_iff digit_val_def by linarith

lemma isdigit_not_space: "isdigit c \<Longrightarrow> \<not> isspace c"
  by (auto simp: isdigit_iff isspace_def)

lemma digit_0 [simp]: "digit 0 = CHR ''0''"
  unfolding digit_def by code_simp

section \<open>strcmp\<close>

fun strcmp :: "string \<Rightarrow> string \<Rightarrow> int" where
  "strcmp [] [] = 0"
| "strcmp [] (d # ds) = - int (of_char d)"
| "strcmp (c # cs) [] = int (of_char c)"
| "strcmp (c # cs) (d # ds) =
     (if c = d then strcmp cs ds else int (of_char c) - int (of_char d))"

lemma strcmp_refl [simp]: "strcmp s s = 0"
  by (induction s) auto

lemma of_char_NUL_iff [simp]: "of_char c = (0::nat) \<longleftrightarrow> c = NUL"
proof -
  have "of_char NUL = (0::nat)" by (simp add: NUL_def)
  then show ?thesis by (metis of_char_eq_iff)
qed

lemma strcmp_eq_iff: "NUL \<notin> set s \<Longrightarrow> NUL \<notin> set t \<Longrightarrow> strcmp s t = 0 \<longleftrightarrow> s = t"
  by (induction s t rule: strcmp.induct) auto

lemma strcmp_sym: "strcmp t s = - strcmp s t"
  by (induction s t rule: strcmp.induct) auto

section \<open>Numbers\<close>

fun dec :: "nat \<Rightarrow> string" where
  "dec n = (if n < 10 then [digit n] else dec (n div 10) @ [digit (n mod 10)])"

declare dec.simps [simp del]

text \<open>\<open>%0*lu\<close>: padded with zeros to a width of at least \<open>w\<close>.\<close>

definition fmt0 :: "nat \<Rightarrow> nat \<Rightarrow> string" where
  "fmt0 w n = replicate (w - length (dec n)) CHR ''0'' @ dec n"

definition dec_val :: "string \<Rightarrow> nat" where
  "dec_val s = foldl (\<lambda>n c. 10 * n + digit_val c) 0 s"

text \<open>The value, and the part of the string that was not converted.\<close>

definition strtoul :: "string \<Rightarrow> ulong \<times> string" where
  "strtoul s =
    (let t = dropWhile isspace s;
         (neg, u) = (case t of c # cs \<Rightarrow> if c = CHR ''-'' then (True, cs)
                                       else if c = CHR ''+'' then (False, cs) else (False, t)
                     | [] \<Rightarrow> (False, t));
         ds = takeWhile isdigit u;
         n = dec_val ds
     in if ds = [] then (0, s)
        else (if n \<ge> 2 ^ 64 then ULONG_MAX
              else if neg then - of_nat n else of_nat n,
              drop (length ds) u))"

lemma dec_ne [simp]: "dec n \<noteq> []"
  by (subst dec.simps) simp

lemma dec_digits: "c \<in> set (dec n) \<Longrightarrow> isdigit c"
proof (induction n rule: dec.induct)
  case (1 n)
  then show ?case by (subst (asm) (2) dec.simps) (auto split: if_splits)
qed

lemma fmt0_ne [simp]: "fmt0 w n \<noteq> []"
  by (simp add: fmt0_def)

lemma fmt0_digits: "c \<in> set (fmt0 w n) \<Longrightarrow> isdigit c"
  by (auto simp: fmt0_def dest: dec_digits) (simp add: isdigit_iff)

lemma length_fmt0: "length (fmt0 w n) = max w (length (dec n))"
  by (simp add: fmt0_def)

lemma dec_val_append: "dec_val (s @ [c]) = 10 * dec_val s + digit_val c"
  by (simp add: dec_val_def)

lemma dec_val_dec [simp]: "dec_val (dec n) = n"
proof (induction n rule: dec.induct)
  case (1 n)
  then show ?case
    by (subst dec.simps) (auto simp: dec_val_append, simp add: dec_val_def)
qed

lemma foldl_zeros: "foldl (\<lambda>n c. 10 * n + digit_val c) 0 (replicate k CHR ''0'' @ s) = dec_val s"
proof (induction k)
  case (Suc k)
  have "digit_val CHR ''0'' = 0" using digit_val_digit [of 0] by simp
  with Suc show ?case by simp
qed (simp add: dec_val_def)

lemma dec_val_fmt0 [simp]: "dec_val (fmt0 w n) = n"
  using foldl_zeros [of "w - length (dec n)" "dec n"] by (simp add: fmt0_def dec_val_def [of "_ @ _"])

lemma length_dec_mono: "m \<le> n \<Longrightarrow> length (dec m) \<le> length (dec n)"
proof (induction n arbitrary: m rule: less_induct)
  case (less n)
  show ?case
  proof (cases "n < 10")
    case True
    then show ?thesis using less.prems by (simp add: dec.simps [of m] dec.simps [of n])
  next
    case False
    then have "length (dec (m div 10)) \<le> length (dec (n div 10))"
      using less.IH [of "n div 10" "m div 10"] less.prems by (simp add: div_le_mono)
    then show ?thesis
      using False by (simp add: dec.simps [of m] dec.simps [of n])
  qed
qed

text \<open>A digit string is the padded form of its value, at its own length.\<close>

lemma fmt0_dec_val:
  assumes "s \<noteq> []" "\<forall>c\<in>set s. isdigit c"
  shows "fmt0 (length s) (dec_val s) = s"
  using assms
proof (induction s rule: rev_induct)
  case (snoc c s)
  have d: "isdigit c" "digit_val c < 10" using snoc.prems digit_val_bound by auto
  show ?case
  proof (cases "s = []")
    case True
    then show ?thesis
      using d by (simp add: fmt0_def dec_val_def dec.simps)
  next
    case False
    have ih: "fmt0 (length s) (dec_val s) = s"
      using snoc.IH False snoc.prems by simp
    show ?thesis
    proof (cases "dec_val s = 0")
      case True
      have "dec (dec_val (s @ [c])) = [c]"
        using True d by (simp add: dec_val_append dec.simps)
      moreover have "s = replicate (length s) CHR ''0''"
      proof -
        have "dec 0 = [CHR ''0'']" by (simp add: dec.simps)
        then have "fmt0 (length s) 0 = replicate (length s - 1) CHR ''0'' @ [CHR ''0'']"
          by (simp add: fmt0_def)
        also have "\<dots> = replicate (length s) CHR ''0''"
          using False by (cases s) (simp_all add: replicate_append_same)
        finally show ?thesis using ih True by simp
      qed
      ultimately show ?thesis by (simp add: fmt0_def)
    next
      case nz: False
      have "dec (dec_val (s @ [c])) = dec (dec_val s) @ [c]"
        using nz d by (subst dec.simps) (simp add: dec_val_append)
      then have "fmt0 (length (s @ [c])) (dec_val (s @ [c])) = fmt0 (length s) (dec_val s) @ [c]"
        by (simp add: fmt0_def)
      then show ?thesis using ih by simp
    qed
  qed
qed simp

lemma strtoul_digits:
  assumes "s \<noteq> []" "\<forall>c\<in>set s. isdigit c" "t = [] \<or> \<not> isdigit (hd t)"
  shows "strtoul (s @ t) = (if dec_val s \<ge> 2 ^ 64 then ULONG_MAX else of_nat (dec_val s), t)"
proof -
  obtain c cs where s: "s = c # cs" using assms(1) by (cases s) auto
  have c: "isdigit c" "c \<noteq> CHR ''-''" "c \<noteq> CHR ''+''" "\<not> isspace c"
    using assms(2) s isdigit_not_space by (auto simp: isdigit_iff)
  have "takeWhile isdigit t = []" using assms(3) by (cases t) auto
  then have tk: "takeWhile isdigit (s @ t) = s"
    using assms(2) by (simp add: takeWhile_append2)
  have dw: "dropWhile isspace (s @ t) = s @ t" using c s by simp
  have sg: "(case s @ t of c # cs \<Rightarrow> if c = CHR ''-'' then (True, cs)
      else if c = CHR ''+'' then (False, cs) else (False, s @ t) | [] \<Rightarrow> (False, s @ t)) = (False, s @ t)"
    using c s by simp
  show ?thesis
    unfolding strtoul_def dw Let_def sg case_prod_conv tk using assms(1) by simp
qed

end
