(* ===== verification/Hostrange.thy ===== *)
theory Hostrange
  imports C_String
begin

text \<open>
  Host names and host ranges of \<open>src/src/common/hostlist.c\<close>. A host range is a prefix
  with an interval of numeric suffixes printed at a width, or a single host without a suffix.
  \<open>hr_hosts\<close> is the list of host names a range stands for; the lemmas say what each
  operation does to it.

  The C functions that compare two ranges adjust their \<open>width\<close> fields when the widths
  are equivalent, so they return the ranges as well. Allocation does
  not fail in the model. A width comes from \<open>strlen\<close> and is
  a natural number; \<open>lo\<close> and \<open>hi\<close> are 64-bit words.
\<close>

section \<open>Widths\<close>

text \<open>\<open>while (num /= 10) n++\<close>\<close>

fun count_digits :: "nat \<Rightarrow> nat \<Rightarrow> nat" where
  "count_digits num n = (if num div 10 = 0 then n else count_digits (num div 10) (n + 1))"

declare count_digits.simps [simp del]

definition zero_padded :: "ulong \<Rightarrow> nat \<Rightarrow> nat" where
  "zero_padded num width =
    (let n = count_digits (unat num) 1 in if width > n then width - n else 0)"

text \<open>
  \<open>_width_equiv\<close>: \<open>None\<close> when the widths are not equivalent, otherwise the
  widths it leaves. The test \<open>wn == wm\<close> of the C function compares addresses of two
  different objects.
\<close>

definition width_equiv :: "ulong \<Rightarrow> nat \<Rightarrow> ulong \<Rightarrow> nat \<Rightarrow> (nat \<times> nat) option" where
  "width_equiv n wn m wm =
    (let npad = zero_padded n wn;
         nmpad = zero_padded n wm;
         mpad = zero_padded m wm;
         mnpad = zero_padded m wn
     in if npad \<noteq> nmpad \<and> mpad \<noteq> mnpad then None
        else if npad \<noteq> nmpad then (if mpad = mnpad then Some (wn, wn) else None)
        else if npad = nmpad then Some (wm, wm) else None)"

section \<open>Host names\<close>

definition MAX_HOST_SUFFIX :: ulong where
  [hostlist_defs]: "MAX_HOST_SUFFIX = 2 ^ 25"

record hostname =
  hostname :: string
  hprefix :: string
  num :: ulong
  suffix :: "string option"

definition host_prefix_end :: "string \<Rightarrow> int" where
  "host_prefix_end name = int (length (dropWhile isdigit (rev name))) - 1"

definition hostname_create_with_suffix :: "string \<Rightarrow> int \<Rightarrow> hostname" where
  "hostname_create_with_suffix name idx =
    (if idx = int (length name) - 1 then
       \<lparr>hostname = name, hprefix = name, num = 0, suffix = None\<rparr>
     else
       let sfx = drop (nat (idx + 1)) name;
           (n, p) = strtoul sfx
       in if p = [] \<and> n \<le> MAX_HOST_SUFFIX then
            \<lparr>hostname = name, hprefix = take (nat (idx + 1)) name, num = n, suffix = Some sfx\<rparr>
          else \<lparr>hostname = name, hprefix = name, num = n, suffix = None\<rparr>)"

definition hostname_create :: "string \<Rightarrow> hostname" where
  "hostname_create name = hostname_create_with_suffix name (host_prefix_end name)"

definition hostname_suffix_is_valid :: "hostname \<Rightarrow> bool" where
  "hostname_suffix_is_valid hn \<longleftrightarrow> suffix hn \<noteq> None"

definition hostname_suffix_width :: "hostname \<Rightarrow> nat" where
  "hostname_suffix_width hn = length (the (suffix hn))"

section \<open>Host ranges\<close>

record hostrange =
  prefix :: string
  lo :: ulong
  hi :: ulong
  width :: nat
  singlehost :: bool

definition hostrange_create_single :: "string \<Rightarrow> hostrange" where
  "hostrange_create_single p = \<lparr>prefix = p, lo = 0, hi = 0, width = 0, singlehost = True\<rparr>"

definition hostrange_create :: "string \<Rightarrow> ulong \<Rightarrow> ulong \<Rightarrow> nat \<Rightarrow> hostrange" where
  "hostrange_create p l h w = \<lparr>prefix = p, lo = l, hi = h, width = w, singlehost = False\<rparr>"

definition hostrange_count :: "hostrange \<Rightarrow> ulong" where
  "hostrange_count hr = (if singlehost hr then 1 else hi hr - lo hr + 1)"

definition hostrange_copy :: "hostrange \<Rightarrow> hostrange" where
  "hostrange_copy hr =
    (if singlehost hr then hostrange_create_single (prefix hr)
     else hostrange_create (prefix hr) (lo hr) (hi hr) (width hr))"

definition hostrange_delete_host :: "hostrange \<Rightarrow> ulong \<Rightarrow> hostrange option \<times> hostrange" where
  "hostrange_delete_host hr n =
    (if n = lo hr then (None, hr\<lparr>lo := lo hr + 1\<rparr>)
     else if n = hi hr then (None, hr\<lparr>hi := hi hr - 1\<rparr>)
     else (Some ((hostrange_copy hr)\<lparr>lo := n + 1\<rparr>), hr\<lparr>hi := n - 1\<rparr>))"

definition hostrange_prefix_cmp :: "hostrange option \<Rightarrow> hostrange option \<Rightarrow> int" where
  "hostrange_prefix_cmp r1 r2 =
    (case r1 of
       None \<Rightarrow> 1
     | Some h1 \<Rightarrow>
         (case r2 of
            None \<Rightarrow> -1
          | Some h2 \<Rightarrow>
              let retval = strcmp (prefix h1) (prefix h2)
              in if retval = 0 then of_bool (singlehost h2) - of_bool (singlehost h1) else retval))"

definition hostrange_within_range :: "hostrange option \<Rightarrow> hostrange option \<Rightarrow> bool" where
  "hostrange_within_range r1 r2 \<longleftrightarrow>
    (if hostrange_prefix_cmp r1 r2 = 0
     then \<not> (singlehost (the r1) \<or> singlehost (the r2)) else False)"

definition hostrange_width_combine :: "hostrange \<Rightarrow> hostrange \<Rightarrow> (hostrange \<times> hostrange) option" where
  "hostrange_width_combine h0 h1 =
    map_option (\<lambda>(w0, w1). (h0\<lparr>width := w0\<rparr>, h1\<lparr>width := w1\<rparr>))
      (width_equiv (lo h0) (width h0) (lo h1) (width h1))"

definition hostrange_cmp :: "hostrange \<Rightarrow> hostrange \<Rightarrow> int \<times> hostrange \<times> hostrange" where
  "hostrange_cmp h1 h2 =
    (let retval = hostrange_prefix_cmp (Some h1) (Some h2)
     in if retval = 0 then
          (case hostrange_width_combine h1 h2 of
             Some (h1, h2) \<Rightarrow> (int_of_ulong (lo h1 - lo h2), h1, h2)
           | None \<Rightarrow> (int_of_ulong (of_int (int (width h1) - int (width h2))), h1, h2))
        else (retval, h1, h2))"

definition hostrange_empty :: "hostrange \<Rightarrow> bool" where
  "hostrange_empty hr \<longleftrightarrow> hi hr < lo hr \<or> hi hr = ULONG_MAX"

definition hostrange_pop :: "hostrange \<Rightarrow> string option \<times> hostrange" where
  "hostrange_pop hr =
    (if singlehost hr then (Some (prefix hr), hr\<lparr>lo := lo hr + 1\<rparr>)
     else if hostrange_count hr > 0 then
       (Some (take (length (prefix hr) + width hr + 15) (prefix hr @ fmt0 (width hr) (unat (hi hr)))),
        hr\<lparr>hi := hi hr - 1\<rparr>)
     else (None, hr))"

definition hostrange_shift :: "hostrange \<Rightarrow> string option \<times> hostrange" where
  "hostrange_shift hr =
    (if singlehost hr then (Some (prefix hr), hr\<lparr>lo := lo hr + 1\<rparr>)
     else if hostrange_count hr > 0 then
       (Some (take (length (prefix hr) + width hr + 15) (prefix hr @ fmt0 (width hr) (unat (lo hr)))),
        hr\<lparr>lo := lo hr + 1\<rparr>)
     else (None, hr))"

definition hostrange_join :: "hostrange \<Rightarrow> hostrange \<Rightarrow> int \<times> hostrange \<times> hostrange" where
  "hostrange_join h1 h2 =
    (if hostrange_prefix_cmp (Some h1) (Some h2) = 0 then
       (case hostrange_width_combine h1 h2 of
          None \<Rightarrow> (-1, h1, h2)
        | Some (h1, h2) \<Rightarrow>
            if singlehost h1 \<and> singlehost h2 then (1, h1, h2)
            else if hi h1 = lo h2 - 1 then (0, h1\<lparr>hi := hi h2\<rparr>, h2)
            else if hi h1 \<ge> lo h2 then
              if hi h1 < hi h2 then (int_of_ulong (hi h1 - lo h2 + 1), h1\<lparr>hi := hi h2\<rparr>, h2)
              else (int_of_ulong (hostrange_count h2), h1, h2)
            else (-1, h1, h2))
     else (-1, h1, h2))"

definition hostrange_intersect ::
  "hostrange \<Rightarrow> hostrange \<Rightarrow> hostrange option \<times> hostrange \<times> hostrange" where
  "hostrange_intersect h1 h2 =
    (if singlehost h1 \<or> singlehost h2 then (None, h1, h2)
     else if hostrange_prefix_cmp (Some h1) (Some h2) = 0 \<and> hi h1 > lo h2 then
       (case hostrange_width_combine h1 h2 of
          None \<Rightarrow> (None, h1, h2)
        | Some (h1, h2) \<Rightarrow>
            (Some ((hostrange_copy h1)\<lparr>lo := lo h2, hi := (if hi h2 < hi h1 then hi h2 else hi h1)\<rparr>),
             h1, h2))
     else (None, h1, h2))"

text \<open>
  \<open>hostrange_hn_within\<close>: \<open>hn\<close> is the host name object made from \<open>name\<close>
  with its prefix ending at \<open>idx\<close>, and the recursive call moves that end by one.
  Comparing the widths may adjust the width of the range.
\<close>

function hostrange_hn_within :: "hostrange \<Rightarrow> string \<Rightarrow> int \<Rightarrow> int \<times> hostrange" where
  "hostrange_hn_within hr name idx =
    (let hn = hostname_create_with_suffix name idx
     in if singlehost hr then (if strcmp (hostname hn) (prefix hr) = 0 then 0 else -1, hr)
        else if \<not> hostname_suffix_is_valid hn then (-1, hr)
        else
          let len_hn = length (hprefix hn);
              len_hr = length (prefix hr);
              width_hn = hostname_suffix_width hn
          in if take len_hn (prefix hr) \<noteq> hprefix hn then (-1, hr)
             else if len_hn < len_hr \<and> width_hn > 1 \<and> isdigit (prefix hr ! (len_hr - 1))
                  \<and> prefix hr ! len_hn = the (suffix hn) ! 0
             then hostrange_hn_within hr name (int len_hn)
             else if len_hr = len_hn \<and> strcmp (hprefix hn) (prefix hr) = 0
                  \<and> num hn \<le> hi hr \<and> num hn \<ge> lo hr
             then (case width_equiv (lo hr) (width hr) (num hn) width_hn of
                     None \<Rightarrow> (-1, hr)
                   | Some (w, _) \<Rightarrow> (int_of_ulong (num hn - lo hr), hr\<lparr>width := w\<rparr>))
             else (-1, hr))"
  by pat_completeness auto
termination
proof (relation "measure (\<lambda>(hr, name, idx). nat (int (length (prefix hr)) - idx))", goal_cases)
  case (2 hr name idx hn len_hn len_hr width_hn)
  obtain sfx where sfx: "suffix hn = Some sfx" "length sfx > 1"
    using 2 by (auto simp: hostname_suffix_is_valid_def hostname_suffix_width_def)
  have "sfx = drop (nat (idx + 1)) name" "hprefix hn = take (nat (idx + 1)) name"
    using 2(1) sfx(1)
    by (auto simp: hostname_create_with_suffix_def Let_def split: if_splits prod.splits)
  then have "int len_hn > idx"
    using sfx(2) 2(4) by auto
  then show ?case using 2 by auto
qed simp

declare hostrange_hn_within.simps [simp del]

section \<open>The hosts of a range\<close>

definition hr_hosts :: "hostrange \<Rightarrow> string list" where
  "hr_hosts hr =
    (if singlehost hr then [prefix hr]
     else map (\<lambda>n. prefix hr @ fmt0 (width hr) n) [unat (lo hr)..<Suc (unat (hi hr))])"

text \<open>
  A range in use: its bounds are in order, and small enough for the buffers the C code
  prints names into (15 digits).
\<close>

definition hr_ok :: "hostrange \<Rightarrow> bool" where
  "hr_ok hr \<longleftrightarrow>
    (if singlehost hr then lo hr = 0 \<and> hi hr = 0
     else lo hr \<le> hi hr \<and> unat (hi hr) < 10 ^ 15)"

lemma hr_ok_bounds:
  assumes "hr_ok hr" "\<not> singlehost hr"
  shows "unat (lo hr) \<le> unat (hi hr)" "unat (hi hr) < 10 ^ 15"
  using assms by (auto simp: hr_ok_def word_le_nat_alt)

lemma hr_hosts_ne [simp]: "hr_ok hr \<Longrightarrow> hr_hosts hr \<noteq> []"
  using hr_ok_bounds by (auto simp: hr_hosts_def)

lemma hr_copy [simp]: "hr_hosts (hostrange_copy hr) = hr_hosts hr"
  "prefix (hostrange_copy hr) = prefix hr" "singlehost (hostrange_copy hr) = singlehost hr"
  by (simp_all add: hostrange_copy_def hostrange_create_single_def hostrange_create_def hr_hosts_def)

lemma hr_copy_range: "\<not> singlehost hr \<Longrightarrow> hostrange_copy hr = hr"
  by (simp add: hostrange_copy_def hostrange_create_def)

lemma hr_copy_id: "hr_ok hr \<Longrightarrow> hostrange_copy hr = hr\<lparr>width := (if singlehost hr then 0 else width hr)\<rparr>"
  by (simp add: hostrange_copy_def hostrange_create_def hostrange_create_single_def hr_ok_def split: if_splits)

lemma hr_ok_copy [simp]: "hr_ok (hostrange_copy hr) = (singlehost hr \<or> hr_ok hr)"
  by (simp add: hostrange_copy_def hostrange_create_def hostrange_create_single_def hr_ok_def)

lemma unat_less_max: "unat (w :: ulong) < 10 ^ 15 \<Longrightarrow> w \<noteq> ULONG_MAX"
proof
  assume a: "unat w < 10 ^ 15" "w = ULONG_MAX"
  have "unat ULONG_MAX = 2 ^ 64 - 1"
    by (simp add: ULONG_MAX_def unsigned_minus_1_eq_mask mask_eq_exp_minus_1)
  then show False using a by simp
qed

lemma unat_sub_one: "(w :: ulong) \<noteq> 0 \<Longrightarrow> unat (w - 1) = unat w - 1"
  by (simp add: unat_sub word_le_nat_alt Suc_leI unat_gt_0)

lemma unat_add_one: "(w :: ulong) \<noteq> ULONG_MAX \<Longrightarrow> unat (w + 1) = unat w + 1"
  using unatSuc [of w] by (simp add: ULONG_MAX_def eq_neg_iff_add_eq_0 add.commute)

lemma hostrange_count_hosts:
  assumes "hr_ok hr"
  shows "unat (hostrange_count hr) = length (hr_hosts hr)"
proof (cases "singlehost hr")
  case True
  then show ?thesis by (simp add: hostrange_count_def hr_hosts_def)
next
  case False
  note b = hr_ok_bounds [OF assms False]
  have "unat (hi hr - lo hr) = unat (hi hr) - unat (lo hr)"
    using b by (simp add: unat_sub word_le_nat_alt)
  moreover have "hi hr - lo hr \<noteq> ULONG_MAX"
    using b calculation by (intro unat_less_max) simp
  ultimately show ?thesis
    using False b by (simp add: hostrange_count_def hr_hosts_def unat_add_one)
qed

lemma length_dec_15: "n < 10 ^ 15 \<Longrightarrow> length (dec n) \<le> 15"
proof -
  have "n < 10 ^ k \<Longrightarrow> length (dec n) \<le> max k 1" for k
  proof (induction k arbitrary: n)
    case 0
    then show ?case by (simp add: dec.simps)
  next
    case (Suc k)
    show ?case
    proof (cases "n < 10")
      case True
      then show ?thesis by (simp add: dec.simps [of n])
    next
      case False
      then have "k \<noteq> 0" using Suc.prems by (cases k) auto
      have "n div 10 < 10 ^ k" using Suc.prems by simp
      with Suc.IH show ?thesis
        using False \<open>k \<noteq> 0\<close> by (subst dec.simps) fastforce
    qed
  qed
  from this [of 15] show "n < 10 ^ 15 \<Longrightarrow> length (dec n) \<le> 15" by simp
qed

lemma print_fits:
  assumes "unat w < 10 ^ 15"
  shows "take (length p + k + 15) (p @ fmt0 k (unat w)) = p @ fmt0 k (unat w)"
  using length_dec_15 [OF assms] by (simp add: length_fmt0)

section \<open>Taking hosts off either end\<close>

lemma hr_hosts_range:
  "\<not> singlehost hr \<Longrightarrow> hr_hosts hr =
    map (\<lambda>n. prefix hr @ fmt0 (width hr) n) [unat (lo hr)..<Suc (unat (hi hr))]"
  by (simp add: hr_hosts_def)

lemma hostrange_pop_spec:
  assumes "hr_ok hr" "hostrange_pop hr = (host, hr')"
  shows "host = Some (last (hr_hosts hr))"
    and "hostrange_empty hr' \<longleftrightarrow> length (hr_hosts hr) = 1"
    and "\<not> hostrange_empty hr' \<Longrightarrow> hr_ok hr' \<and> hr_hosts hr' = butlast (hr_hosts hr)"
proof -
  have "host = Some (last (hr_hosts hr)) \<and> (hostrange_empty hr' \<longleftrightarrow> length (hr_hosts hr) = 1) \<and>
    (\<not> hostrange_empty hr' \<longrightarrow> hr_ok hr' \<and> hr_hosts hr' = butlast (hr_hosts hr))"
  proof (cases "singlehost hr")
    case True
    then show ?thesis
      using assms by (auto simp: hostrange_pop_def hr_hosts_def hr_ok_def hostrange_empty_def)
  next
    case False
    note b = hr_ok_bounds [OF assms(1) False]
    have "hostrange_count hr \<noteq> 0"
      using hostrange_count_hosts [OF assms(1)] assms(1) by (metis hr_hosts_ne length_0_conv unat_0)
    then have pos: "hostrange_count hr > 0" by (simp add: word_neq_0_conv)
    have res: "host = Some (prefix hr @ fmt0 (width hr) (unat (hi hr)))" "hr' = hr\<lparr>hi := hi hr - 1\<rparr>"
      using assms(2) False pos print_fits [OF b(2)] by (auto simp: hostrange_pop_def)
    have host: "host = Some (last (hr_hosts hr))"
      using b(1) False by (simp add: res(1) hr_hosts_range)
    show ?thesis
    proof (cases "unat (lo hr) = unat (hi hr)")
      case True
      then have "lo hr = hi hr" by (simp add: word_unat_eq_iff)
      then have "hostrange_empty hr'"
        using unat_sub_one [of "hi hr"]
        by (cases "hi hr = 0")
          (auto simp: hostrange_empty_def res(2) word_less_nat_alt ULONG_MAX_def unat_gt_0)
      then show ?thesis using host True False by (simp add: hr_hosts_range)
    next
      case ne: False
      then have lt: "unat (lo hr) < unat (hi hr)" using b(1) by simp
      then have "hi hr \<noteq> 0" by auto
      then have u: "unat (hi hr - 1) = unat (hi hr) - 1" by (rule unat_sub_one)
      have small: "unat (hi hr - 1) < 10 ^ 15" using u b(2) by simp
      have "\<not> hostrange_empty hr'"
        using u lt unat_less_max [OF small] by (simp add: hostrange_empty_def res(2) word_less_nat_alt)
      moreover have "hr_ok hr'"
        using False u lt small by (simp add: hr_ok_def res(2) word_le_nat_alt)
      moreover have "hr_hosts hr' = butlast (hr_hosts hr)"
        using False u lt by (simp add: hr_hosts_range res(2) map_butlast [symmetric] Suc_diff_Suc)
      moreover have "length (hr_hosts hr) \<noteq> 1"
        using lt False by (simp add: hr_hosts_range)
      ultimately show ?thesis using host by simp
    qed
  qed
  then show "host = Some (last (hr_hosts hr))"
    and "hostrange_empty hr' \<longleftrightarrow> length (hr_hosts hr) = 1"
    and "\<not> hostrange_empty hr' \<Longrightarrow> hr_ok hr' \<and> hr_hosts hr' = butlast (hr_hosts hr)"
    by blast+
qed

lemma hostrange_shift_spec:
  assumes "hr_ok hr" "hostrange_shift hr = (host, hr')"
  shows "host = Some (hd (hr_hosts hr))"
    and "hostrange_empty hr' \<longleftrightarrow> length (hr_hosts hr) = 1"
    and "\<not> hostrange_empty hr' \<Longrightarrow> hr_ok hr' \<and> hr_hosts hr' = tl (hr_hosts hr)"
proof -
  have "host = Some (hd (hr_hosts hr)) \<and> (hostrange_empty hr' \<longleftrightarrow> length (hr_hosts hr) = 1) \<and>
    (\<not> hostrange_empty hr' \<longrightarrow> hr_ok hr' \<and> hr_hosts hr' = tl (hr_hosts hr))"
  proof (cases "singlehost hr")
    case True
    then show ?thesis
      using assms by (auto simp: hostrange_shift_def hr_hosts_def hr_ok_def hostrange_empty_def)
  next
    case False
    note b = hr_ok_bounds [OF assms(1) False]
    have "hostrange_count hr \<noteq> 0"
      using hostrange_count_hosts [OF assms(1)] assms(1) by (metis hr_hosts_ne length_0_conv unat_0)
    then have pos: "hostrange_count hr > 0" by (simp add: word_neq_0_conv)
    have lsmall: "unat (lo hr) < 10 ^ 15" using b by simp
    have res: "host = Some (prefix hr @ fmt0 (width hr) (unat (lo hr)))" "hr' = hr\<lparr>lo := lo hr + 1\<rparr>"
      using assms(2) False pos print_fits [OF lsmall] by (auto simp: hostrange_shift_def)
    have u: "unat (lo hr + 1) = unat (lo hr) + 1"
      by (rule unat_add_one [OF unat_less_max [OF lsmall]])
    have host: "host = Some (hd (hr_hosts hr))"
      using b(1) False by (simp add: res(1) hr_hosts_range upt_conv_Cons del: upt_Suc)
    have emp: "hostrange_empty hr' \<longleftrightarrow> unat (hi hr) < unat (lo hr) + 1"
      using u unat_less_max [OF b(2)] by (simp add: hostrange_empty_def res(2) word_less_nat_alt)
    have "hr_hosts hr' = tl (hr_hosts hr)"
      using False u b(1) by (simp add: hr_hosts_range res(2) upt_conv_Cons del: upt_Suc)
    moreover have "\<not> hostrange_empty hr' \<Longrightarrow> hr_ok hr'"
      using False u emp b by (simp add: hr_ok_def res(2) word_le_nat_alt)
    moreover have "length (hr_hosts hr) = 1 \<longleftrightarrow> unat (hi hr) < unat (lo hr) + 1"
      using False b(1) by (auto simp: hr_hosts_range)
    ultimately show ?thesis using host emp by blast
  qed
  then show "host = Some (hd (hr_hosts hr))"
    and "hostrange_empty hr' \<longleftrightarrow> length (hr_hosts hr) = 1"
    and "\<not> hostrange_empty hr' \<Longrightarrow> hr_ok hr' \<and> hr_hosts hr' = tl (hr_hosts hr)"
    by blast+
qed

lemma unat_nth_number:
  assumes "hr_ok hr" "\<not> singlehost hr" "k < length (hr_hosts hr)"
  shows "unat (lo hr + of_nat k) = unat (lo hr) + k" "unat (lo hr) + k \<le> unat (hi hr)"
proof -
  note b = hr_ok_bounds [OF assms(1,2)]
  show k: "unat (lo hr) + k \<le> unat (hi hr)"
    using assms(3) b by (simp add: hr_hosts_range [OF assms(2)] del: upt_Suc)
  then have small: "unat (lo hr) + k < 2 ^ 64" using b(2) by simp
  then have "unat (of_nat k :: ulong) = k"
    by (simp add: unsigned_of_nat take_bit_nat_eq_self)
  then show "unat (lo hr + of_nat k) = unat (lo hr) + k"
    using small by (simp add: unat_word_ariths)
qed

text \<open>Removing the host with number \<open>n\<close>.\<close>

lemma hostrange_delete_host_spec:
  assumes "hr_ok hr" "\<not> singlehost hr" "k < length (hr_hosts hr)" "n = lo hr + of_nat k"
    and "hostrange_delete_host hr n = (new, hr')"
  shows "new = None \<Longrightarrow> hostrange_empty hr' \<longleftrightarrow> length (hr_hosts hr) = 1"
    and "new = None \<Longrightarrow> \<not> hostrange_empty hr' \<Longrightarrow>
      hr_ok hr' \<and> hr_hosts hr' = take k (hr_hosts hr) @ drop (Suc k) (hr_hosts hr)"
    and "new = Some h \<Longrightarrow> hr_ok hr' \<and> hr_ok h \<and> \<not> singlehost h \<and> \<not> singlehost hr' \<and>
      hr_hosts hr' = take k (hr_hosts hr) \<and> hr_hosts h = drop (Suc k) (hr_hosts hr)"
proof -
  note b = hr_ok_bounds [OF assms(1,2)]
  have len: "length (hr_hosts hr) = Suc (unat (hi hr)) - unat (lo hr)"
    using assms(2) by (simp add: hr_hosts_range del: upt_Suc)
  have k: "unat (lo hr) + k \<le> unat (hi hr)"
    using assms(3) len by simp
  have un: "unat n = unat (lo hr) + k"
    using unat_nth_number(1) [OF assms(1-3)] by (simp add: assms(4))
  have nsmall: "unat n < 10 ^ 15" using un k b(2) by simp
  have nlo: "n = lo hr \<longleftrightarrow> k = 0" using un by (auto simp: word_unat_eq_iff)
  have nhi: "n = hi hr \<longleftrightarrow> unat (lo hr) + k = unat (hi hr)" using un by (auto simp: word_unat_eq_iff)
  have up: "unat (n + 1) = unat n + 1" by (rule unat_add_one [OF unat_less_max [OF nsmall]])
  have R: "hr_hosts hr = map (\<lambda>n. prefix hr @ fmt0 (width hr) n) [unat (lo hr)..<Suc (unat (hi hr))]"
    using assms(2) by (simp add: hr_hosts_range)
  consider (first) "k = 0" | (last) "k \<noteq> 0" "unat n = unat (hi hr)" | (mid) "k \<noteq> 0" "unat n < unat (hi hr)"
    using un k by linarith
  then have "(new = None \<longrightarrow> (hostrange_empty hr' \<longleftrightarrow> length (hr_hosts hr) = 1) \<and> (\<not> hostrange_empty hr' \<longrightarrow>
      hr_ok hr' \<and> hr_hosts hr' = take k (hr_hosts hr) @ drop (Suc k) (hr_hosts hr))) \<and>
    (new = Some h \<longrightarrow> hr_ok hr' \<and> hr_ok h \<and> \<not> singlehost h \<and> \<not> singlehost hr' \<and>
      hr_hosts hr' = take k (hr_hosts hr) \<and> hr_hosts h = drop (Suc k) (hr_hosts hr))"
  proof cases
    case first
    then have res: "new = None" "hr' = hr\<lparr>lo := lo hr + 1\<rparr>" "n = lo hr"
      using assms(5) nlo by (auto simp: hostrange_delete_host_def)
    have u: "unat (lo hr + 1) = unat (lo hr) + 1" using up res(3) by simp
    have emp: "hostrange_empty hr' \<longleftrightarrow> unat (hi hr) < unat (lo hr) + 1"
      using u unat_less_max [OF b(2)] by (simp add: hostrange_empty_def res(2) word_less_nat_alt)
    have "hr_hosts hr' = tl (hr_hosts hr)"
      using assms(2) u b(1) by (simp add: hr_hosts_range res(2) upt_conv_Cons del: upt_Suc)
    moreover have "\<not> hostrange_empty hr' \<Longrightarrow> hr_ok hr'"
      using assms(2) u emp b by (simp add: hr_ok_def res(2) word_le_nat_alt)
    moreover have "hostrange_empty hr' \<longleftrightarrow> length (hr_hosts hr) = 1"
      using emp len b(1) by auto
    ultimately show ?thesis using first res(1) by (simp add: drop_Suc)
  next
    case last
    then have nh: "n = hi hr" by (simp add: word_unat_eq_iff)
    then have res: "new = None" "hr' = hr\<lparr>hi := hi hr - 1\<rparr>"
      using assms(5) nlo last by (auto simp: hostrange_delete_host_def)
    have "hi hr \<noteq> 0" using last un by auto
    then have u: "unat (hi hr - 1) = unat (hi hr) - 1" by (rule unat_sub_one)
    have small': "unat (hi hr - 1) < 10 ^ 15" using u b(2) by simp
    have "\<not> hostrange_empty hr'"
      using u last un unat_less_max [OF small'] by (simp add: hostrange_empty_def res(2) word_less_nat_alt)
    moreover have "hr_ok hr'"
      using assms(2) u last un small' by (simp add: hr_ok_def res(2) word_le_nat_alt)
    moreover have "hr_hosts hr' = take k (hr_hosts hr)" "drop (Suc k) (hr_hosts hr) = []"
      using assms(2) u last un len by (auto simp: hr_hosts_range res(2) take_map take_upt)
    ultimately show ?thesis using res(1) len last un by simp
  next
    case mid
    then have res: "new = Some ((hostrange_copy hr)\<lparr>lo := n + 1\<rparr>)" "hr' = hr\<lparr>hi := n - 1\<rparr>"
      using assms(5) nlo nhi un by (auto simp: hostrange_delete_host_def)
    have "n \<noteq> 0" using mid un by auto
    then have u: "unat (n - 1) = unat n - 1" by (rule unat_sub_one)
    have "hr_ok hr'" using assms(2) u mid un nsmall by (simp add: hr_ok_def res(2) word_le_nat_alt) arith
    moreover have "hr_hosts hr' = take k (hr_hosts hr)"
      using assms(2) u mid un len by (auto simp: hr_hosts_range res(2) take_map take_upt)
    moreover have "hr_ok ((hostrange_copy hr)\<lparr>lo := n + 1\<rparr>)"
      using assms(2) up mid b by (simp add: hr_copy_range hr_ok_def word_le_nat_alt)
    moreover have "hr_hosts ((hostrange_copy hr)\<lparr>lo := n + 1\<rparr>) = drop (Suc k) (hr_hosts hr)"
      using assms(2) up mid un by (simp add: hr_copy_range hr_hosts_range drop_map del: upt_Suc)
    ultimately show ?thesis using res assms(2) by (auto simp: hr_copy_range)
  qed
  then show "new = None \<Longrightarrow> hostrange_empty hr' \<longleftrightarrow> length (hr_hosts hr) = 1"
    and "new = None \<Longrightarrow> \<not> hostrange_empty hr' \<Longrightarrow>
      hr_ok hr' \<and> hr_hosts hr' = take k (hr_hosts hr) @ drop (Suc k) (hr_hosts hr)"
    and "new = Some h \<Longrightarrow> hr_ok hr' \<and> hr_ok h \<and> \<not> singlehost h \<and> \<not> singlehost hr' \<and>
      hr_hosts hr' = take k (hr_hosts hr) \<and> hr_hosts h = drop (Suc k) (hr_hosts hr)"
    by blast+
qed

section \<open>Equivalent widths\<close>

lemma count_digits_dec: "count_digits k n + 1 = n + length (dec k)"
proof (induction k n rule: count_digits.induct)
  case (1 k n)
  then show ?case
    by (subst count_digits.simps, subst dec.simps) (auto simp: div_eq_0_iff split: if_splits)
qed

lemma zero_padded_eq: "zero_padded n w = w - length (dec (unat n))"
  using count_digits_dec [of "unat n" 1] by (simp add: zero_padded_def Let_def)

text \<open>
  Equivalent widths print every number from the compared one on in the same way, so adjusting
  the width of a range does not rename its hosts.
\<close>

lemma fmt0_same_width:
  assumes "w - length (dec n) = v - length (dec n)" "n \<le> k"
  shows "fmt0 w k = fmt0 v k"
  using assms length_dec_mono [OF assms(2)] by (cases "w = v") (auto simp: fmt0_def)

lemma width_equiv_spec:
  assumes "width_equiv n wn m wm = Some (w1, w2)"
  shows "w1 = w2" "unat n \<le> k \<Longrightarrow> fmt0 wn k = fmt0 w1 k" "unat m \<le> k \<Longrightarrow> fmt0 wm k = fmt0 w1 k"
  using assms fmt0_same_width [of wn "unat n" wm k] fmt0_same_width [of wm "unat m" wn k]
  by (auto simp: width_equiv_def zero_padded_eq Let_def split: if_splits)

lemma hr_hosts_width:
  assumes "\<And>k. unat (lo hr) \<le> k \<Longrightarrow> fmt0 (width hr) k = fmt0 w k"
  shows "hr_hosts (hr\<lparr>width := w\<rparr>) = hr_hosts hr"
  using assms by (auto simp: hr_hosts_def)

lemma hr_ok_width [simp]: "hr_ok (hr\<lparr>width := w\<rparr>) = hr_ok hr"
  by (simp add: hr_ok_def)

lemma hostrange_width_combine_spec:
  assumes "hostrange_width_combine h0 h1 = Some (g0, g1)"
  shows "hr_hosts g0 = hr_hosts h0" "hr_hosts g1 = hr_hosts h1" "hr_ok g0 = hr_ok h0" "hr_ok g1 = hr_ok h1"
    "g0 = h0\<lparr>width := width g0\<rparr>" "g1 = h1\<lparr>width := width g1\<rparr>" "width g0 = width g1"
proof -
  obtain w0 w1 where w: "width_equiv (lo h0) (width h0) (lo h1) (width h1) = Some (w0, w1)"
    and g: "g0 = h0\<lparr>width := w0\<rparr>" "g1 = h1\<lparr>width := w1\<rparr>"
    using assms by (auto simp: hostrange_width_combine_def)
  note W = width_equiv_spec [OF w]
  show "hr_hosts g0 = hr_hosts h0" unfolding g by (rule hr_hosts_width) (rule W(2))
  show "hr_hosts g1 = hr_hosts h1" unfolding g using W(3) unfolding W(1) by (rule hr_hosts_width)
  show "hr_ok g0 = hr_ok h0" "hr_ok g1 = hr_ok h1"
    "g0 = h0\<lparr>width := width g0\<rparr>" "g1 = h1\<lparr>width := width g1\<rparr>" "width g0 = width g1"
    using W(1) by (simp_all add: g)
qed

section \<open>Comparing and joining\<close>

definition names_ok :: "hostrange \<Rightarrow> bool" where
  "names_ok hr \<longleftrightarrow> NUL \<notin> set (prefix hr)"

lemma hostrange_prefix_cmp_0:
  assumes "names_ok h1" "names_ok h2"
  shows "hostrange_prefix_cmp (Some h1) (Some h2) = 0 \<longleftrightarrow>
    prefix h1 = prefix h2 \<and> singlehost h1 = singlehost h2"
  using assms by (auto simp: hostrange_prefix_cmp_def names_ok_def strcmp_eq_iff)

text \<open>Two adjacent ranges with the same prefix and width are the hosts of both.\<close>

lemma hr_hosts_adjacent:
  assumes "hr_ok h1" "hr_ok h2" "\<not> singlehost h1" "\<not> singlehost h2"
    "prefix h1 = prefix h2" "width h1 = width h2" "hi h1 = lo h2 - 1"
  shows "hr_hosts (h1\<lparr>hi := hi h2\<rparr>) = hr_hosts h1 @ hr_hosts h2" "hr_ok (h1\<lparr>hi := hi h2\<rparr>)"
proof -
  note b1 = hr_ok_bounds [OF assms(1,3)] and b2 = hr_ok_bounds [OF assms(2,4)]
  have "lo h2 \<noteq> 0"
  proof
    assume "lo h2 = 0"
    then have "hi h1 = ULONG_MAX" using assms(7) by (simp add: ULONG_MAX_def)
    then show False using unat_less_max [OF b1(2)] by simp
  qed
  then have l: "unat (lo h2) = Suc (unat (hi h1))"
    using unat_sub_one [of "lo h2"] assms(7) by (simp add: unat_gt_0)
  have "[unat (lo h1)..<Suc (unat (hi h2))] =
      [unat (lo h1)..<Suc (unat (hi h1))] @ [unat (lo h2)..<Suc (unat (hi h2))]"
    using l b1 b2 upt_add_eq_append [of "unat (lo h1)" "Suc (unat (hi h1))" "Suc (unat (hi h2)) - Suc (unat (hi h1))"]
    by (simp del: upt_Suc)
  then show "hr_hosts (h1\<lparr>hi := hi h2\<rparr>) = hr_hosts h1 @ hr_hosts h2"
    using assms by (simp add: hr_hosts_range del: upt_Suc)
  show "hr_ok (h1\<lparr>hi := hi h2\<rparr>)"
    using assms(3) l b1 b2 by (simp add: hr_ok_def word_le_nat_alt)
qed

text \<open>
  What a join of two ranges of numbered hosts reports, for \<open>h1\<close> not after \<open>h2\<close>:
  the number of hosts the two had in common, the first range now standing for the hosts of both.
\<close>

lemma hr_set_range:
  "\<not> singlehost hr \<Longrightarrow> set (hr_hosts hr) =
    (\<lambda>n. prefix hr @ fmt0 (width hr) n) ` {unat (lo hr)..unat (hi hr)}"
  by (auto simp: hr_hosts_def)

lemma length_hr_hosts: "\<not> singlehost hr \<Longrightarrow> length (hr_hosts hr) = Suc (unat (hi hr)) - unat (lo hr)"
  by (simp add: hr_hosts_def del: upt_Suc)

lemma int_of_ulong_diff:
  assumes "(a :: ulong) \<le> b" "unat b - unat a < 2 ^ 31"
  shows "int_of_ulong (b - a) = int (unat b - unat a)"
  using assms int_of_ulong_small [of "b - a"] by (simp add: unat_sub)

lemma hostrange_join_spec:
  assumes "hr_ok h1" "hr_ok h2" "names_ok h1" "names_ok h2"
    and "\<not> singlehost h1" "\<not> singlehost h2" "lo h1 \<le> lo h2"
    and "length (hr_hosts h1) < 2 ^ 31" "length (hr_hosts h2) < 2 ^ 31"
    and "hostrange_join h1 h2 = (d, g1, g2)"
  shows "d = -1 \<Longrightarrow> hr_hosts g1 = hr_hosts h1 \<and> hr_hosts g2 = hr_hosts h2 \<and> hr_ok g1 \<and> hr_ok g2"
    and "d \<noteq> -1 \<Longrightarrow> 0 \<le> d \<and> hr_ok g1 \<and>
      set (hr_hosts g1) = set (hr_hosts h1) \<union> set (hr_hosts h2) \<and>
      int (length (hr_hosts g1)) = int (length (hr_hosts h1)) + int (length (hr_hosts h2)) - d"
proof -
  have main: "(d = -1 \<and> hr_hosts g1 = hr_hosts h1 \<and> hr_hosts g2 = hr_hosts h2 \<and> hr_ok g1 \<and> hr_ok g2) \<or>
    (0 \<le> d \<and> hr_ok g1 \<and> set (hr_hosts g1) = set (hr_hosts h1) \<union> set (hr_hosts h2) \<and>
      int (length (hr_hosts g1)) = int (length (hr_hosts h1)) + int (length (hr_hosts h2)) - d)"
  proof (cases "prefix h1 = prefix h2 \<and> hostrange_width_combine h1 h2 \<noteq> None")
    case False
    then have "d = -1" "g1 = h1" "g2 = h2"
      using assms
      by (cases "hostrange_width_combine h1 h2";
          auto simp: hostrange_join_def hostrange_prefix_cmp_0 split: if_splits)+
    then show ?thesis using assms by simp
  next
    case True
    then obtain k1 k2 where k: "hostrange_width_combine h1 h2 = Some (k1, k2)" by auto
    note K = hostrange_width_combine_spec [OF k]
    have f: "prefix k1 = prefix h1" "prefix k2 = prefix h2" "lo k1 = lo h1" "hi k1 = hi h1"
        "lo k2 = lo h2" "hi k2 = hi h2" "\<not> singlehost k1" "\<not> singlehost k2"
      using assms(5,6) by (subst K(5) K(6); simp)+
    have ok: "hr_ok k1" "hr_ok k2" using K(3,4) assms by simp_all
    note b1 = hr_ok_bounds [OF ok(1) f(7)] and b2 = hr_ok_bounds [OF ok(2) f(8)]
    have J: "hostrange_join h1 h2 =
        (if hi k1 = lo k2 - 1 then (0, k1\<lparr>hi := hi k2\<rparr>, k2)
         else if hi k1 \<ge> lo k2 then
           if hi k1 < hi k2 then (int_of_ulong (hi k1 - lo k2 + 1), k1\<lparr>hi := hi k2\<rparr>, k2)
           else (int_of_ulong (hostrange_count k2), k1, k2)
         else (-1, k1, k2))"
      using True assms f k by (simp add: hostrange_join_def hostrange_prefix_cmp_0)
    consider (adj) "hi k1 = lo k2 - 1" | (over) "hi k1 \<noteq> lo k2 - 1" "hi k1 \<ge> lo k2" "hi k1 < hi k2"
      | (inside) "hi k1 \<noteq> lo k2 - 1" "hi k1 \<ge> lo k2" "\<not> hi k1 < hi k2"
      | (apart) "hi k1 \<noteq> lo k2 - 1" "\<not> hi k1 \<ge> lo k2" by blast
    then show ?thesis
    proof cases
      case adj
      have "d = 0" "g1 = k1\<lparr>hi := hi k2\<rparr>" using J adj assms(10) by simp_all
      moreover have "prefix k1 = prefix k2" using f True by simp
      ultimately show ?thesis
        using hr_hosts_adjacent [OF ok f(7,8) _ K(7) adj] K(1,2) by simp
    next
      case over
      have g: "g1 = k1\<lparr>hi := hi k2\<rparr>" "d = int_of_ulong (hi k1 - lo k2 + 1)"
        using J over assms(10) by auto
      have le: "unat (lo k2) \<le> unat (hi k1)" "unat (hi k1) < unat (hi k2)" "unat (lo k1) \<le> unat (lo k2)"
        using over assms(7) f by (simp_all add: word_le_nat_alt word_less_nat_alt)
      have d1: "unat (hi k1 - lo k2) = unat (hi k1) - unat (lo k2)"
        using over(2) by (simp add: unat_sub)
      have "unat (hi k1 - lo k2 + 1) = unat (hi k1) - unat (lo k2) + 1"
        using d1 b1 by (subst unat_add_one) (auto intro!: unat_less_max)
      moreover have "unat (hi k1) - unat (lo k2) + 1 \<le> length (hr_hosts h2)"
        using le length_hr_hosts [OF f(8)] K(2) by simp
      ultimately have d: "d = int (unat (hi k1) - unat (lo k2) + 1)"
        using int_of_ulong_small [of "hi k1 - lo k2 + 1"] assms(9) g(2) by simp
      have "{unat (lo k1)..unat (hi k2)} = {unat (lo k1)..unat (hi k1)} \<union> {unat (lo k2)..unat (hi k2)}"
        using le by auto
      then have "set (hr_hosts g1) = set (hr_hosts h1) \<union> set (hr_hosts h2)"
        using f True K(1,2,7) unfolding K(1) [symmetric] K(2) [symmetric]
        by (simp add: g hr_set_range image_Un)
      moreover have "int (length (hr_hosts g1)) = int (length (hr_hosts h1)) + int (length (hr_hosts h2)) - d"
        using le f b1 b2 unfolding K(1) [symmetric] K(2) [symmetric] d
        by (simp add: g length_hr_hosts)
      moreover have "hr_ok g1"
        using le b1 b2 f by (simp add: g hr_ok_def word_le_nat_alt)
      ultimately show ?thesis using d by simp
    next
      case inside
      have g: "g1 = k1" "d = int_of_ulong (hostrange_count k2)"
        using J inside assms(10) by auto
      have "d = int (unat (hostrange_count k2))"
        unfolding g(2) using assms(9) hostrange_count_hosts [OF ok(2)] K(2)
        by (intro int_of_ulong_small) simp
      then have d: "d = int (length (hr_hosts h2))"
        unfolding hostrange_count_hosts [OF ok(2)] K(2) .
      have "set (hr_hosts h2) \<subseteq> set (hr_hosts h1)"
        using inside(3) assms(7) f True K(7) unfolding K(1) [symmetric] K(2) [symmetric]
        by (auto simp: hr_set_range word_le_nat_alt word_less_nat_alt)
      then show ?thesis using g d ok K(1) by auto
    next
      case apart
      then have "d = -1" "g1 = k1" "g2 = k2" using J assms(10) by auto
      then show ?thesis using K ok by simp
    qed
  qed
  then show "d = -1 \<Longrightarrow> hr_hosts g1 = hr_hosts h1 \<and> hr_hosts g2 = hr_hosts h2 \<and> hr_ok g1 \<and> hr_ok g2"
    and "d \<noteq> -1 \<Longrightarrow> 0 \<le> d \<and> hr_ok g1 \<and>
      set (hr_hosts g1) = set (hr_hosts h1) \<union> set (hr_hosts h2) \<and>
      int (length (hr_hosts g1)) = int (length (hr_hosts h1)) + int (length (hr_hosts h2)) - d"
    by auto
qed

section \<open>Finding a host in a range\<close>

text \<open>
  \<open>splits name idx\<close>: \<open>idx\<close> is the end of a prefix of \<open>name\<close> after which
  there are only digits. The first such end is that of \<open>host_prefix_end\<close>.
\<close>

definition splits :: "string \<Rightarrow> int \<Rightarrow> bool" where
  "splits name idx \<longleftrightarrow> -1 \<le> idx \<and> idx < int (length name) \<and>
    (\<forall>c\<in>set (drop (nat (idx + 1)) name). isdigit c)"

lemma host_prefix_end_splits: "splits name (host_prefix_end name)"
proof -
  let ?d = "takeWhile isdigit (rev name)" and ?r = "dropWhile isdigit (rev name)"
  have e: "name = rev ?r @ rev ?d"
    by (metis rev_append rev_rev_ident takeWhile_dropWhile_id)
  have "drop (length ?r) name = rev ?d"
    by (subst e) simp
  moreover have "length ?r \<le> length name"
    using length_dropWhile_le [of isdigit "rev name"] by simp
  ultimately show ?thesis
    by (auto simp: splits_def host_prefix_end_def dest: set_takeWhileD)
qed

lemma create_with_suffix_splits:
  assumes "splits name idx" "suffix (hostname_create_with_suffix name idx) = Some sfx"
  defines "hn \<equiv> hostname_create_with_suffix name idx"
  shows "sfx \<noteq> []" "\<forall>c\<in>set sfx. isdigit c" "name = hprefix hn @ sfx"
    "hprefix hn = take (nat (idx + 1)) name" "unat (num hn) = dec_val sfx" "dec_val sfx \<le> 2 ^ 25"
proof -
  have ne: "idx \<noteq> int (length name) - 1"
    using assms(2) by (auto simp: hostname_create_with_suffix_def)
  obtain n p where sp: "strtoul (drop (nat (idx + 1)) name) = (n, p)" by force
  have v: "p = []" "n \<le> MAX_HOST_SUFFIX" "sfx = drop (nat (idx + 1)) name"
      "hn = \<lparr>hostname = name, hprefix = take (nat (idx + 1)) name, num = n, suffix = Some sfx\<rparr>"
    using assms(2) ne sp by (auto simp: hn_def hostname_create_with_suffix_def Let_def split: if_splits)
  show "sfx \<noteq> []" using ne assms(1) v(3) by (auto simp: splits_def)
  show dig: "\<forall>c\<in>set sfx. isdigit c" using assms(1) v(3) by (simp add: splits_def)
  show "name = hprefix hn @ sfx" "hprefix hn = take (nat (idx + 1)) name"
    using v(3,4) by simp_all
  have "strtoul sfx = (if dec_val sfx \<ge> 2 ^ 64 then ULONG_MAX else of_nat (dec_val sfx), [])"
    using strtoul_digits [OF \<open>sfx \<noteq> []\<close> dig, of "[]"] by simp
  then have n: "n = (if dec_val sfx \<ge> 2 ^ 64 then ULONG_MAX else of_nat (dec_val sfx))"
    using sp v(3) by simp
  have m: "unat MAX_HOST_SUFFIX = 2 ^ 25"
    by (simp add: MAX_HOST_SUFFIX_def)
  have lt: "dec_val sfx < 2 ^ 64"
  proof (rule ccontr)
    assume "\<not> dec_val sfx < 2 ^ 64"
    then have "n = ULONG_MAX" using n by simp
    then show False
      using v(2) m by (simp add: ULONG_MAX_def word_le_nat_alt unsigned_minus_1_eq_mask mask_eq_exp_minus_1)
  qed
  then have "unat n = dec_val sfx"
    using n by (simp add: unsigned_of_nat take_bit_nat_eq_self)
  then show "unat (num hn) = dec_val sfx" "dec_val sfx \<le> 2 ^ 25"
    using v(2,4) m by (simp_all add: word_le_nat_alt)
qed

text \<open>
  Soundness: an offset that is found is the offset of that very name, and looking for it
  leaves the hosts of the range as they were.
\<close>

lemma hn_within_sound:
  assumes "hr_ok hr" "names_ok hr" "NUL \<notin> set name" "splits name idx"
    and "hostrange_hn_within hr name idx = (k, hr')" "length (hr_hosts hr) < 2 ^ 31"
  shows "k = -1 \<and> hr' = hr \<or>
    0 \<le> k \<and> nat k < length (hr_hosts hr) \<and> hr_hosts hr ! nat k = name \<and>
    hr_hosts hr' = hr_hosts hr \<and> hr_ok hr' \<and> prefix hr' = prefix hr"
  using assms
proof (induction hr name idx rule: hostrange_hn_within.induct)
  case (1 hr name idx)
  define hn where "hn = hostname_create_with_suffix name idx"
  have name: "hostname hn = name"
    by (simp add: hn_def hostname_create_with_suffix_def Let_def split: prod.split)
  note eq = 1(6) [unfolded hostrange_hn_within.simps [of hr name idx] Let_def, folded hn_def]
  show ?case
  proof (cases "singlehost hr")
    case True
    then show ?thesis
      using eq 1(2-4) name by (auto simp: hr_hosts_def strcmp_eq_iff names_ok_def split: if_splits)
  next
    case False
    note b = hr_ok_bounds [OF 1(2) False]
    show ?thesis
    proof (cases "suffix hn")
      case None
      then show ?thesis using eq False by (simp add: hostname_suffix_is_valid_def)
    next
      case (Some sfx)
      note S = create_with_suffix_splits [OF 1(5) Some [unfolded hn_def], folded hn_def]
      have valid: "hostname_suffix_is_valid hn" using Some by (simp add: hostname_suffix_is_valid_def)
      let ?rec = "length (hprefix hn) < length (prefix hr) \<and> hostname_suffix_width hn > 1 \<and>
        isdigit (prefix hr ! (length (prefix hr) - 1)) \<and>
        prefix hr ! length (hprefix hn) = the (suffix hn) ! 0"
      consider (nomatch) "take (length (hprefix hn)) (prefix hr) \<noteq> hprefix hn"
        | (recurse) "take (length (hprefix hn)) (prefix hr) = hprefix hn" "?rec"
        | (final) "take (length (hprefix hn)) (prefix hr) = hprefix hn" "\<not> ?rec" by blast
      then show ?thesis
      proof cases
        case nomatch
        then show ?thesis using eq False valid by simp
      next
        case recurse
        have sp: "splits name (int (length (hprefix hn)))"
          using recurse(2) S(2,3) Some
          by (auto simp: splits_def hostname_suffix_width_def dest: in_set_dropD)
        show ?thesis
          using 1(1) [OF hn_def False _ refl refl refl _ recurse(2)] sp valid eq recurse False 1(2-4,7)
          by simp
      next
        case final
        show ?thesis
        proof (cases "length (prefix hr) = length (hprefix hn) \<and> strcmp (hprefix hn) (prefix hr) = 0
            \<and> num hn \<le> hi hr \<and> num hn \<ge> lo hr")
          case no: False
          then show ?thesis using eq final False valid by auto
        next
          case yes: True
          show ?thesis
          proof (cases "width_equiv (lo hr) (width hr) (num hn) (hostname_suffix_width hn)")
            case None
            then show ?thesis using eq final False valid yes by auto
          next
            case (Some ww)
            obtain w w2 where ww: "ww = (w, w2)" by force
            have res: "k = int_of_ulong (num hn - lo hr)" "hr' = hr\<lparr>width := w\<rparr>"
              using eq final False valid yes Some ww by auto
            note W = width_equiv_spec [OF Some [unfolded ww]]
            have hosts: "hr_hosts hr' = hr_hosts hr"
              unfolding res(2) by (rule hr_hosts_width) (rule W(2))
            have le: "unat (lo hr) \<le> unat (num hn)" "unat (num hn) \<le> unat (hi hr)"
              using yes by (simp_all add: word_le_nat_alt)
            have len: "length (hr_hosts hr) = Suc (unat (hi hr)) - unat (lo hr)"
              using length_hr_hosts [OF False] .
            have k: "k = int (unat (num hn) - unat (lo hr))"
              unfolding res(1) using yes le len 1(7) by (intro int_of_ulong_diff) auto
            have k0: "0 \<le> k" by (simp only: k of_nat_0_le_iff)
            have nk: "nat k = unat (num hn) - unat (lo hr)"
              unfolding k by (rule nat_int)
            have pre: "prefix hr = hprefix hn"
              using final yes by simp
            have "fmt0 (width hr) (unat (num hn)) = fmt0 w (unat (num hn))"
              using W(2) le by simp
            also have "\<dots> = fmt0 (length sfx) (unat (num hn))"
              using W(3) [of "unat (num hn)"] \<open>suffix hn = Some sfx\<close> by (simp add: hostname_suffix_width_def)
            also have "\<dots> = sfx"
              unfolding S(5) by (rule fmt0_dec_val [OF S(1,2)])
            finally have "hr_hosts hr ! nat k = name"
              using le len nk S(3) pre by (simp add: hr_hosts_range [OF False] nth_append del: upt_Suc)
            then show ?thesis
              using nk k0 le len hosts 1(2) by (simp add: res(2))
          qed
        qed
      qed
    qed
  qed
qed

text \<open>
  Completeness: a host of the range is found, unless the digits its name ends with exceed the
  largest suffix the code accepts.
\<close>

definition num_suffix :: "string \<Rightarrow> string" where
  "num_suffix name = drop (nat (host_prefix_end name + 1)) name"

definition findable :: "string \<Rightarrow> bool" where
  "findable name \<longleftrightarrow> dec_val (num_suffix name) \<le> 2 ^ 25"

lemma dec_val_Cons: "dec_val (c # s) = digit_val c * 10 ^ length s + dec_val s"
proof (induction s rule: rev_induct)
  case Nil
  then show ?case by (simp add: dec_val_def)
next
  case (snoc x s)
  have "dec_val ((c # s) @ [x]) = 10 * dec_val (c # s) + digit_val x"
    by (rule dec_val_append)
  then show ?case using snoc by (simp add: dec_val_append algebra_simps)
qed

lemma dec_val_drop: "dec_val (drop n s) \<le> dec_val s"
proof (induction n arbitrary: s)
  case (Suc n)
  then show ?case by (cases s) (auto simp: dec_val_Cons intro: trans_le_add2)
qed simp

lemma create_with_suffix_small:
  assumes "splits name idx" "idx \<noteq> int (length name) - 1"
    "dec_val (drop (nat (idx + 1)) name) \<le> 2 ^ 25"
  shows "suffix (hostname_create_with_suffix name idx) = Some (drop (nat (idx + 1)) name)"
proof -
  let ?s = "drop (nat (idx + 1)) name"
  have s: "?s \<noteq> []" "\<forall>c\<in>set ?s. isdigit c" using assms(1,2) by (auto simp: splits_def)
  have v: "dec_val ?s < 2 ^ 64" using assms(3) by simp
  have "strtoul ?s = (of_nat (dec_val ?s), [])"
    using strtoul_digits [OF s, of "[]"] v by simp
  moreover have "unat (of_nat (dec_val ?s) :: ulong) = dec_val ?s"
    using v by (simp add: unsigned_of_nat take_bit_nat_eq_self)
  then have "(of_nat (dec_val ?s) :: ulong) \<le> MAX_HOST_SUFFIX"
    using assms(3) by (simp add: word_le_nat_alt MAX_HOST_SUFFIX_def)
  ultimately show ?thesis
    using assms(2) by (simp add: hostname_create_with_suffix_def Let_def)
qed

lemma hn_within_complete:
  assumes "hr_ok hr" "name \<in> set (hr_hosts hr)" "splits name idx"
    and "\<not> singlehost hr \<Longrightarrow> nat (idx + 1) \<le> length (prefix hr)"
    and "\<not> singlehost hr \<Longrightarrow> dec_val (drop (nat (idx + 1)) name) \<le> 2 ^ 25"
    and "length (hr_hosts hr) < 2 ^ 31"
  shows "0 \<le> fst (hostrange_hn_within hr name idx)"
proof (cases "singlehost hr")
  case True
  have "hostname (hostname_create_with_suffix name idx) = name"
    by (simp add: hostname_create_with_suffix_def Let_def split: prod.split)
  then show ?thesis
    using True assms(2) by (simp add: hostrange_hn_within.simps [of hr] hr_hosts_def)
next
  case False
  obtain n where n: "name = prefix hr @ fmt0 (width hr) n" "unat (lo hr) \<le> n" "n \<le> unat (hi hr)"
    using assms(2) by (auto simp: hr_set_range [OF False])
  show ?thesis
    using assms(3) assms(4,5) [OF False]
  proof (induction "length (prefix hr) - nat (idx + 1)" arbitrary: idx)
    case 0
    define hn where "hn = hostname_create_with_suffix name idx"
    have idx: "nat (idx + 1) = length (prefix hr)" using 0 by simp
    have ne: "idx \<noteq> int (length name) - 1"
      using idx n(1) length_fmt0 [of "width hr" n] fmt0_ne [of "width hr" n]
      by (metis add_cancel_left_right diff_add_cancel length_0_conv length_append nat_int)
    have sfx: "suffix hn = Some (fmt0 (width hr) n)"
      using create_with_suffix_small [OF 0(2) ne 0(4)] idx n(1) by (simp add: hn_def)
    note S = create_with_suffix_splits [OF 0(2) sfx [unfolded hn_def], folded hn_def]
    have pre: "hprefix hn = prefix hr" using S(4) idx n(1) by simp
    have num: "unat (num hn) = n" using S(5) by simp
    have bounds: "num hn \<le> hi hr" "num hn \<ge> lo hr" using num n by (simp_all add: word_le_nat_alt)
    have "\<exists>w. width_equiv (lo hr) (width hr) (num hn) (length (fmt0 (width hr) n)) = Some w"
      using length_fmt0 [of "width hr" n] by (auto simp: width_equiv_def zero_padded_eq num Let_def max_def)
    then obtain w1 w2 where w: "width_equiv (lo hr) (width hr) (num hn) (length (fmt0 (width hr) n)) = Some (w1, w2)"
      by auto
    have "unat (num hn) - unat (lo hr) < 2 ^ 31"
      using assms(6) num n(2,3) length_hr_hosts [OF False] by simp
    then have "0 \<le> int_of_ulong (num hn - lo hr)"
      using int_of_ulong_diff [OF bounds(2)] by simp
    then show ?case
      using False sfx pre bounds w
      by (simp add: hostrange_hn_within.simps [of hr] hn_def [symmetric] Let_def
          hostname_suffix_is_valid_def hostname_suffix_width_def)
  next
    case (Suc m)
    define hn where "hn = hostname_create_with_suffix name idx"
    define k where "k = nat (idx + 1)"
    have k: "k < length (prefix hr)" using Suc(2) k_def by simp
    have ne: "idx \<noteq> int (length name) - 1"
      using k n(1) Suc(3) by (auto simp: k_def)
    have sfx: "suffix hn = Some (drop k name)"
      using create_with_suffix_small [OF Suc(3) ne Suc(5)] by (simp add: hn_def k_def)
    note S = create_with_suffix_splits [OF Suc(3) sfx [unfolded hn_def], folded hn_def]
    have pre: "hprefix hn = take k (prefix hr)" using S(4) k n(1) by (simp add: k_def)
    have lk: "length (hprefix hn) = k" using pre k by simp
    have dg: "isdigit (prefix hr ! (length (prefix hr) - 1))"
    proof -
      have "prefix hr ! (length (prefix hr) - 1) \<in> set (drop k (prefix hr))"
        using k by (auto simp: in_set_conv_nth intro!: exI [of _ "length (prefix hr) - 1 - k"])
      then show ?thesis using S(2) k n(1) by simp
    qed
    have hd: "prefix hr ! k = drop k name ! 0"
      using k n(1) by (simp add: nth_append)
    have wd: "length (drop k name) > 1"
      using k n(1) fmt0_ne [of "width hr" n] by (cases "fmt0 (width hr) n") auto
    have rec: "hostrange_hn_within hr name idx = hostrange_hn_within hr name (int k)"
      using False sfx pre lk dg hd wd k
      by (simp add: hostrange_hn_within.simps [of hr name idx] hn_def [symmetric] Let_def
          hostname_suffix_is_valid_def hostname_suffix_width_def)
    have sp: "splits name (int k)"
    proof -
      have "set (drop (Suc k) name) \<subseteq> set (drop k name)"
        by (rule set_drop_subset_set_drop) simp
      then show ?thesis
        using S(2) wd by (auto simp: splits_def nat_add_distrib)
    qed
    have nk: "nat (int k + 1) = Suc k" by simp
    have "dec_val (drop (Suc k) name) \<le> dec_val (drop k name)"
      using dec_val_drop [of 1 "drop k name"] by simp
    then have "dec_val (drop (Suc k) name) \<le> 2 ^ 25"
      using Suc(5) [folded k_def] by linarith
    moreover have "m = length (prefix hr) - Suc k"
      using Suc(2) [folded k_def] by simp
    ultimately show ?case
      unfolding rec using k sp by (intro Suc(1)) (simp_all only: nk Suc_leI)
  qed
qed

lemma host_prefix_end_prefix:
  assumes "\<forall>c\<in>set s. isdigit c"
  shows "nat (host_prefix_end (p @ s) + 1) \<le> length p"
proof -
  have "dropWhile isdigit (rev (p @ s)) = dropWhile isdigit (rev p)"
    using assms dropWhile_append2 [of "rev s" isdigit "rev p"] by simp
  then show ?thesis
    using length_dropWhile_le [of isdigit "rev p"] by (simp add: host_prefix_end_def)
qed

lemma distinct_hr_hosts: "distinct (hr_hosts hr)"
proof -
  have "inj_on (\<lambda>n. prefix hr @ fmt0 (width hr) n) A" for A
    by (rule inj_onI) (metis append_same_eq dec_val_fmt0 same_append_eq)
  then show ?thesis by (simp add: hr_hosts_def distinct_map del: upt_Suc)
qed

text \<open>Both together: looking for a name in a range gives its position, or \<open>-1\<close>.\<close>

lemma hn_within_spec:
  assumes "hr_ok hr" "names_ok hr" "NUL \<notin> set name" "findable name" "length (hr_hosts hr) < 2 ^ 31"
    and "hostrange_hn_within hr name (host_prefix_end name) = (k, hr')"
  shows "hr_hosts hr' = hr_hosts hr" "hr_ok hr'" "names_ok hr'"
    "name \<in> set (hr_hosts hr) \<Longrightarrow> 0 \<le> k \<and> nat k < length (hr_hosts hr) \<and> hr_hosts hr ! nat k = name"
    "name \<notin> set (hr_hosts hr) \<Longrightarrow> k = -1"
proof -
  note sound = hn_within_sound [OF assms(1-3) host_prefix_end_splits assms(6,5)]
  show "hr_hosts hr' = hr_hosts hr" "hr_ok hr'" "names_ok hr'"
    using sound assms(1,2) by (auto simp: names_ok_def)
  show "name \<notin> set (hr_hosts hr) \<Longrightarrow> k = -1"
    using sound nth_mem [of "nat k" "hr_hosts hr"] by auto
  assume mem: "name \<in> set (hr_hosts hr)"
  have "0 \<le> fst (hostrange_hn_within hr name (host_prefix_end name))"
  proof (rule hn_within_complete [OF assms(1) mem host_prefix_end_splits _ _ assms(5)])
    assume ns: "\<not> singlehost hr"
    then obtain n where "name = prefix hr @ fmt0 (width hr) n"
      using mem by (auto simp: hr_set_range)
    then show "nat (host_prefix_end name + 1) \<le> length (prefix hr)"
      using host_prefix_end_prefix [of "fmt0 (width hr) n" "prefix hr"] fmt0_digits by auto
    show "dec_val (drop (nat (host_prefix_end name + 1)) name) \<le> 2 ^ 25"
      using assms(4) by (simp add: findable_def num_suffix_def)
  qed
  then show "0 \<le> k \<and> nat k < length (hr_hosts hr) \<and> hr_hosts hr ! nat k = name"
    using sound assms(6) by auto
qed

end
