(* ===== verification/Hostlist.thy ===== *)
theory Hostlist
  imports Hostrange
begin

text \<open>
  Host lists of \<open>src/src/common/hostlist.c\<close>: an array of host ranges, a count of hosts
  and the iterators registered on the list. \<open>hranges\<close> holds the \<open>nranges\<close>
  entries in use; the spare capacity of the array, which \<open>hostlist_expand\<close> extends, is
  not visible to any operation. An iterator caches a pointer to the range it is at;
  \<open>hfresh\<close> says whether this pointer is the entry at its index (it is not when it is
  null or the range it pointed to has been freed).

  \<open>hosts\<close> is the list of host names a list stands for, in order. The lemmas state each
  operation on it.
\<close>

record hl_iter =
  hidx :: int
  hdepth :: int
  hfresh :: bool

record hostlist =
  hranges :: "hostrange list"
  nhosts :: int
  ilist :: "hl_iter list"

section \<open>The array of ranges\<close>

definition hostlist_new :: hostlist where
  "hostlist_new = \<lparr>hranges = [], nhosts = 0, ilist = []\<rparr>"

text \<open>\<open>nhosts += hostrange_count(hr)\<close>, an \<open>int\<close> and an \<open>unsigned long\<close>\<close>

definition add_count :: "int \<Rightarrow> hostrange \<Rightarrow> int" where
  "add_count n hr = int_of_ulong (of_int n + hostrange_count hr)"

text \<open>The range pushed is returned as well: comparing widths may have adjusted its width.\<close>

definition hostlist_push_range :: "hostlist \<Rightarrow> hostrange \<Rightarrow> int \<times> hostlist \<times> hostrange" where
  "hostlist_push_range hl hr =
    (let rs = hranges hl;
         tail = last rs;
         joined =
           (if rs \<noteq> [] \<and> hostrange_prefix_cmp (Some tail) (Some hr) = 0 \<and> hi tail = lo hr - 1
            then hostrange_width_combine tail hr else None);
         (rs, hr) =
           (case joined of
              Some (tail, hr) \<Rightarrow> (butlast rs @ [tail\<lparr>hi := hi hr\<rparr>], hr)
            | None \<Rightarrow> (rs @ [hostrange_copy hr], hr));
         n = add_count (nhosts hl) hr
     in (n, hl\<lparr>hranges := rs, nhosts := n\<rparr>, hr))"

definition hostlist_push_hr :: "hostlist \<Rightarrow> string \<Rightarrow> ulong \<Rightarrow> ulong \<Rightarrow> nat \<Rightarrow> int \<times> hostlist" where
  "hostlist_push_hr hl p l h w =
    (let (retval, hl, _) = hostlist_push_range hl (hostrange_create p l h w) in (retval, hl))"

definition hostlist_iterator_reset :: "hostrange list \<Rightarrow> hl_iter \<Rightarrow> hl_iter" where
  "hostlist_iterator_reset rs i = i\<lparr>hidx := 0, hdepth := -1, hfresh := (rs \<noteq> [])\<rparr>"

definition hostlist_shift_iterators :: "hostlist \<Rightarrow> int \<Rightarrow> int \<Rightarrow> int \<Rightarrow> hostlist" where
  "hostlist_shift_iterators hl idx depth n =
    hl\<lparr>ilist :=
      map (\<lambda>i.
        if n = 0 then
          (if hidx i = idx \<and> hdepth i \<ge> depth
           then i\<lparr>hdepth := (if hdepth i > -1 then hdepth i - 1 else -1)\<rparr> else i)
        else if hidx i \<ge> idx then
          (if hidx i - n \<ge> 0
           then i\<lparr>hidx := hidx i - n, hfresh := (hidx i - n < int (length (hranges hl)))\<rparr>
           else hostlist_iterator_reset (hranges hl) (i\<lparr>hidx := hidx i - n\<rparr>))
        else i) (ilist hl)\<rparr>"

definition hostlist_insert_range :: "hostlist \<Rightarrow> hostrange \<Rightarrow> nat \<Rightarrow> int \<times> hostlist" where
  "hostlist_insert_range hl hr n =
    (if n > length (hranges hl) then (0, hl)
     else
       let rs = take n (hranges hl) @ hostrange_copy hr # drop n (hranges hl)
       in (1, hl\<lparr>hranges := rs,
                 ilist := map (\<lambda>i. if hidx i \<ge> int n
                                   then i\<lparr>hidx := hidx i + 1,
                                          hfresh := (hidx i + 1 < int (length rs))\<rparr>
                                   else i) (ilist hl)\<rparr>))"

definition hostlist_delete_range :: "hostlist \<Rightarrow> nat \<Rightarrow> hostlist" where
  "hostlist_delete_range hl n =
    hostlist_shift_iterators
      (hl\<lparr>hranges := take n (hranges hl) @ drop (n + 1) (hranges hl)\<rparr>) (int n) 0 1"

definition hostlist_copy :: "hostlist \<Rightarrow> hostlist" where
  "hostlist_copy hl =
    hostlist_new\<lparr>hranges := map hostrange_copy (hranges hl), nhosts := nhosts hl\<rparr>"

section \<open>Adding hosts\<close>

definition hostlist_push_host :: "hostlist \<Rightarrow> string option \<Rightarrow> int \<times> hostlist" where
  "hostlist_push_host hl str =
    (case str of
       None \<Rightarrow> (0, hl)
     | Some s \<Rightarrow>
         let hn = hostname_create s;
             hr = (if hostname_suffix_is_valid hn
                   then hostrange_create (hprefix hn) (num hn) (num hn) (hostname_suffix_width hn)
                   else hostrange_create_single s);
             (_, hl, _) = hostlist_push_range hl hr
         in (1, hl))"

text \<open>The loop over the ranges of \<open>h2\<close>; they come back with the widths it leaves.\<close>

fun push_ranges :: "hostlist \<Rightarrow> hostrange list \<Rightarrow> int \<Rightarrow> int \<times> hostlist \<times> hostrange list" where
  "push_ranges h1 [] n = (n, h1, [])"
| "push_ranges h1 (r # rs) n =
    (let (k, h1, r) = hostlist_push_range h1 r;
         (n, h1, rs) = push_ranges h1 rs (n + k)
     in (n, h1, r # rs))"

definition hostlist_push_list :: "hostlist \<Rightarrow> hostlist option \<Rightarrow> int \<times> hostlist \<times> hostlist option" where
  "hostlist_push_list h1 h2 =
    (case h2 of
       None \<Rightarrow> (0, h1, None)
     | Some h2 \<Rightarrow>
         let (n, h1, rs) = push_ranges h1 (hranges h2) 0 in (n, h1, Some (h2\<lparr>hranges := rs\<rparr>)))"

section \<open>Taking hosts off\<close>

definition hostlist_pop :: "hostlist \<Rightarrow> string option \<times> hostlist" where
  "hostlist_pop hl =
    (if nhosts hl > 0 then
       let (host, hr) = hostrange_pop (last (hranges hl));
           hl = hl\<lparr>nhosts := nhosts hl - 1\<rparr>
       in (host,
           if hostrange_empty hr then
             hl\<lparr>hranges := butlast (hranges hl),
                ilist := map (\<lambda>i. if hidx i = int (length (hranges hl)) - 1
                                  then i\<lparr>hfresh := False\<rparr> else i) (ilist hl)\<rparr>
           else hl\<lparr>hranges := butlast (hranges hl) @ [hr]\<rparr>)
     else (None, hl))"

definition hostlist_shift :: "hostlist \<Rightarrow> string option \<times> hostlist" where
  "hostlist_shift hl =
    (if nhosts hl > 0 then
       let (host, hr) = hostrange_shift (hd (hranges hl));
           hl = hl\<lparr>nhosts := nhosts hl - 1, hranges := hr # tl (hranges hl)\<rparr>
       in (host,
           if hostrange_empty hr then hostlist_delete_range hl 0
           else hostlist_shift_iterators hl 0 0 0)
     else (None, hl))"

definition hostlist_count :: "hostlist \<Rightarrow> int" where
  "hostlist_count hl = nhosts hl"

section \<open>The hosts of a list\<close>

definition hosts :: "hostlist \<Rightarrow> string list" where
  "hosts hl = concat (map hr_hosts (hranges hl))"

definition range_ok :: "hostrange \<Rightarrow> bool" where
  "range_ok r \<longleftrightarrow> hr_ok r \<and> names_ok r"

definition hl_ok :: "hostlist \<Rightarrow> bool" where
  "hl_ok hl \<longleftrightarrow> list_all range_ok (hranges hl) \<and> nhosts hl = int (length (hosts hl)) \<and>
    length (hosts hl) < 2 ^ 31"

lemma range_okD: "range_ok r \<Longrightarrow> hr_ok r" "range_ok r \<Longrightarrow> names_ok r"
  by (simp_all add: range_ok_def)

lemma range_ok_width [simp]: "range_ok (r\<lparr>width := w\<rparr>) = range_ok r"
  by (simp add: range_ok_def names_ok_def)

lemma range_ok_copy: "range_ok r \<Longrightarrow> range_ok (hostrange_copy r)"
  by (simp add: range_ok_def names_ok_def)

lemma hl_okD:
  assumes "hl_ok hl"
  shows "list_all range_ok (hranges hl)" "nhosts hl = int (length (hosts hl))" "length (hosts hl) < 2 ^ 31"
  using assms by (simp_all add: hl_ok_def)

lemma hosts_simps [simp]:
  "hosts (hl\<lparr>nhosts := n\<rparr>) = hosts hl" "hosts (hl\<lparr>ilist := is\<rparr>) = hosts hl"
  "hosts (hl\<lparr>hranges := rs\<rparr>) = concat (map hr_hosts rs)"
  by (simp_all add: hosts_def)

lemma hl_ok_simps [simp]: "hl_ok (hl\<lparr>ilist := is\<rparr>) = hl_ok hl"
  by (simp add: hl_ok_def)

lemma hostlist_new_ok [simp]: "hl_ok hostlist_new" "hosts hostlist_new = []"
  by (simp_all add: hl_ok_def hostlist_new_def hosts_def)

lemma length_hosts: "length (hosts hl) = (\<Sum>r\<leftarrow>hranges hl. length (hr_hosts r))"
  by (simp add: hosts_def length_concat comp_def)

lemma member_length_hosts:
  "r \<in> set (hranges hl) \<Longrightarrow> length (hr_hosts r) \<le> length (hosts hl)"
  unfolding length_hosts by (intro member_le_sum_list) auto

lemma hosts_Nil_iff: "list_all range_ok (hranges hl) \<Longrightarrow> hosts hl = [] \<longleftrightarrow> hranges hl = []"
  by (cases "hranges hl") (auto simp: hosts_def range_ok_def)

lemma add_count_eq:
  assumes "hr_ok r" "n = int k" "k + length (hr_hosts r) < 2 ^ 31"
  shows "add_count n r = int (k + length (hr_hosts r))"
proof -
  have c: "unat (hostrange_count r) = length (hr_hosts r)"
    using assms(1) by (rule hostrange_count_hosts)
  have k: "unat (of_nat k :: ulong) = k"
    using assms(3) by (simp add: unsigned_of_nat take_bit_nat_eq_self)
  have sum: "unat (of_nat k + hostrange_count r :: ulong) = k + length (hr_hosts r)"
    using assms(3) c k by (subst unat_add_lem [THEN iffD1]) simp_all
  have "int_of_ulong (of_nat k + hostrange_count r) = int (unat (of_nat k + hostrange_count r :: ulong))"
    using sum assms(3) by (intro int_of_ulong_small) simp
  then show ?thesis
    unfolding add_count_def assms(2) of_int_of_nat_eq sum .
qed

section \<open>What adding hosts does\<close>

lemma hostlist_push_range_spec:
  assumes "hl_ok hl" "range_ok hr" "length (hosts hl) + length (hr_hosts hr) < 2 ^ 31"
    and "hostlist_push_range hl hr = (n, hl', hr')"
  shows "hl_ok hl'" "hosts hl' = hosts hl @ hr_hosts hr" "n = nhosts hl'"
    "range_ok hr'" "hr_hosts hr' = hr_hosts hr" "ilist hl' = ilist hl"
proof -
  let ?tail = "last (hranges hl)"
  define joined where "joined =
    (if hranges hl \<noteq> [] \<and> hostrange_prefix_cmp (Some ?tail) (Some hr) = 0 \<and> hi ?tail = lo hr - 1
     then hostrange_width_combine ?tail hr else None)"
  have hr: "hr_ok hr" "names_ok hr" using assms(2) by (simp_all add: range_ok_def)
  have cnt: "add_count (nhosts hl) hr = int (length (hosts hl) + length (hr_hosts hr))"
    using add_count_eq [OF hr(1) hl_okD(2) [OF assms(1)] assms(3)] .
  have "hl_ok hl' \<and> hosts hl' = hosts hl @ hr_hosts hr \<and> n = nhosts hl' \<and>
    range_ok hr' \<and> hr_hosts hr' = hr_hosts hr \<and> ilist hl' = ilist hl"
  proof (cases joined)
    case None
    then have "hl' = hl\<lparr>hranges := hranges hl @ [hostrange_copy hr],
        nhosts := add_count (nhosts hl) hr\<rparr>" "n = add_count (nhosts hl) hr" "hr' = hr"
      using assms(4) by (auto simp: hostlist_push_range_def Let_def joined_def [symmetric])
    then show ?thesis
      using assms(1-3) cnt range_ok_copy [OF assms(2)] by (auto simp: hl_ok_def hosts_def)
  next
    case (Some tt)
    obtain t h where tt: "tt = (t, h)" by force
    have c: "hranges hl \<noteq> []" "hostrange_prefix_cmp (Some ?tail) (Some hr) = 0" "hi ?tail = lo hr - 1"
        "hostrange_width_combine ?tail hr = Some (t, h)"
      using Some tt by (simp_all add: joined_def split: if_splits)
    have res: "hl' = hl\<lparr>hranges := butlast (hranges hl) @ [t\<lparr>hi := hi h\<rparr>],
        nhosts := add_count (nhosts hl) h\<rparr>" "n = add_count (nhosts hl) h" "hr' = h"
      using assms(4) Some tt by (auto simp: hostlist_push_range_def Let_def joined_def [symmetric])
    have tail: "range_ok ?tail"
      using assms(1) c(1) by (simp add: hl_ok_def list_all_iff)
    note K = hostrange_width_combine_spec [OF c(4)]
    have same: "prefix ?tail = prefix hr" "singlehost ?tail = singlehost hr"
      using c(2) tail hr hostrange_prefix_cmp_0 by (auto simp: range_ok_def)
    have ns: "\<not> singlehost hr"
    proof
      assume "singlehost hr"
      then have "hi ?tail = 0" "lo hr = 0"
        using same tail hr by (simp_all add: range_ok_def hr_ok_def)
      then show False using c(3) by simp
    qed
    have f: "\<not> singlehost t" "\<not> singlehost h" "prefix t = prefix h" "hi t = lo h - 1" "hi h = hi hr"
      using same ns c(3) by (subst K(5) K(6); simp)+
    have ok: "hr_ok t" "hr_ok h" using K(3,4) tail hr by (simp_all add: range_ok_def)
    have joinedH: "hr_hosts (t\<lparr>hi := hi h\<rparr>) = hr_hosts ?tail @ hr_hosts hr" "hr_ok (t\<lparr>hi := hi h\<rparr>)"
      using hr_hosts_adjacent [OF ok f(1-3) K(7) f(4)] K(1,2) by simp_all
    have nm: "names_ok (t\<lparr>hi := hi h\<rparr>)" "names_ok h"
      using tail hr by (subst K(5) K(6); simp add: range_ok_def names_ok_def)+
    have split: "hranges hl = butlast (hranges hl) @ [?tail]" using c(1) by simp
    have H: "hosts hl' = hosts hl @ hr_hosts hr"
      unfolding res(1) hosts_def [of hl] by (subst (2) split) (simp add: joinedH(1))
    have "length (hr_hosts h) = length (hr_hosts hr)" using K(2) by simp
    then have cnt': "add_count (nhosts hl) h = int (length (hosts hl) + length (hr_hosts hr))"
      using add_count_eq [OF ok(2) hl_okD(2) [OF assms(1)]] assms(3) by simp
    have "list_all range_ok (butlast (hranges hl))"
      using assms(1) by (auto simp: hl_ok_def list_all_iff dest: in_set_butlastD)
    then have "hl_ok hl'"
      using H assms(3) cnt' nm joinedH(2) by (simp add: hl_ok_def res(1) range_ok_def)
    then show ?thesis
      using H res ok nm K(2) by (simp add: range_ok_def)
  qed
  then show "hl_ok hl'" "hosts hl' = hosts hl @ hr_hosts hr" "n = nhosts hl'"
    "range_ok hr'" "hr_hosts hr' = hr_hosts hr" "ilist hl' = ilist hl"
    by blast+
qed

lemma hostlist_push_host_spec:
  assumes "hl_ok hl" "NUL \<notin> set s" "length (hosts hl) + 1 < 2 ^ 31"
    and "hostlist_push_host hl (Some s) = (n, hl')"
  shows "n = 1" "hl_ok hl'" "hosts hl' = hosts hl @ [s]" "ilist hl' = ilist hl"
proof -
  define hn where "hn = hostname_create s"
  define hr where "hr = (if hostname_suffix_is_valid hn
      then hostrange_create (hprefix hn) (num hn) (num hn) (hostname_suffix_width hn)
      else hostrange_create_single s)"
  have hr: "range_ok hr \<and> hr_hosts hr = [s]"
  proof (cases "suffix hn")
    case None
    then show ?thesis
      using assms(2) by (simp add: hr_def hostname_suffix_is_valid_def hostrange_create_single_def
          range_ok_def hr_ok_def names_ok_def hr_hosts_def)
  next
    case (Some sfx)
    note S = create_with_suffix_splits
      [OF host_prefix_end_splits Some [unfolded hn_def hostname_create_def],
        folded hostname_create_def, folded hn_def]
    have e: "hr = hostrange_create (hprefix hn) (num hn) (num hn) (length sfx)"
      using Some by (simp add: hr_def hostname_suffix_is_valid_def hostname_suffix_width_def)
    have "prefix hr = hprefix hn" "NUL \<notin> set (hprefix hn)"
      using assms(2) S(3) by (auto simp: e hostrange_create_def dest: arg_cong [of _ _ set])
    moreover have "fmt0 (length sfx) (unat (num hn)) = sfx"
      unfolding S(5) by (rule fmt0_dec_val [OF S(1,2)])
    moreover have "unat (num hn) < 10 ^ 15"
      using S(5,6) by simp
    ultimately show ?thesis
      using S(3) by (simp add: e hostrange_create_def range_ok_def hr_ok_def names_ok_def hr_hosts_def)
  qed
  obtain k h hr' where p: "hostlist_push_range hl hr = (k, h, hr')" by (metis prod_cases3)
  have "n = 1" "hl' = h"
    using assms(4) p by (auto simp: hostlist_push_host_def Let_def hn_def [symmetric] hr_def [symmetric])
  then show "n = 1" "hl_ok hl'" "hosts hl' = hosts hl @ [s]" "ilist hl' = ilist hl"
    using hostlist_push_range_spec [OF assms(1) conjunct1 [OF hr] _ p] hr assms(3) by simp_all
qed

lemma push_ranges_spec:
  assumes "hl_ok hl" "list_all range_ok rs"
    and "length (hosts hl) + length (concat (map hr_hosts rs)) < 2 ^ 31"
    and "push_ranges hl rs k = (n, hl', rs')"
  shows "hl_ok hl' \<and> hosts hl' = hosts hl @ concat (map hr_hosts rs) \<and>
    map hr_hosts rs' = map hr_hosts rs \<and> list_all range_ok rs' \<and> ilist hl' = ilist hl"
  using assms
proof (induction rs arbitrary: hl k rs' n hl')
  case Nil
  then show ?case by simp
next
  case (Cons r rs)
  obtain m h r1 where p: "hostlist_push_range hl r = (m, h, r1)" by (metis prod_cases3)
  obtain n2 h2 rs2 where q: "push_ranges h rs (k + m) = (n2, h2, rs2)" by (metis prod_cases3)
  have r: "range_ok r" "length (hosts hl) + length (hr_hosts r) < 2 ^ 31"
    using Cons.prems by simp_all
  note P = hostlist_push_range_spec [OF Cons.prems(1) r p]
  have "hl' = h2" "rs' = r1 # rs2" using Cons.prems(4) p q by auto
  then show ?case
    using Cons.IH [OF P(1) _ _ q] Cons.prems P by (auto simp: add.assoc)
qed

lemma hostlist_push_list_spec:
  assumes "hl_ok h1" "hl_ok h2" "length (hosts h1) + length (hosts h2) < 2 ^ 31"
    and "hostlist_push_list h1 (Some h2) = (n, h1', h2')"
  shows "hl_ok h1'" "hosts h1' = hosts h1 @ hosts h2" "hl_ok (the h2')" "hosts (the h2') = hosts h2"
proof -
  obtain rs where p: "push_ranges h1 (hranges h2) 0 = (n, h1', rs)" and h2': "h2' = Some (h2\<lparr>hranges := rs\<rparr>)"
    using assms(4) by (auto simp: hostlist_push_list_def split: prod.splits)
  have P: "hl_ok h1' \<and> hosts h1' = hosts h1 @ concat (map hr_hosts (hranges h2)) \<and>
    map hr_hosts rs = map hr_hosts (hranges h2) \<and> list_all range_ok rs \<and> ilist h1' = ilist h1"
    using push_ranges_spec [OF assms(1) hl_okD(1) [OF assms(2)] _ p] assms(3) by (simp add: hosts_def)
  then show "hl_ok h1'" "hosts h1' = hosts h1 @ hosts h2" "hosts (the h2') = hosts h2"
    by (simp_all add: hosts_def h2')
  show "hl_ok (the h2')"
    using P assms(2) by (simp add: hl_ok_def h2' hosts_def)
qed

section \<open>What taking hosts off does\<close>

lemma hosts_last:
  "hranges hl \<noteq> [] \<Longrightarrow> hosts hl = concat (map hr_hosts (butlast (hranges hl))) @ hr_hosts (last (hranges hl))"
  unfolding hosts_def by (subst append_butlast_last_id [symmetric], assumption) (simp del: append_butlast_last_id)

lemma hosts_hd:
  "hranges hl \<noteq> [] \<Longrightarrow> hosts hl = hr_hosts (hd (hranges hl)) @ concat (map hr_hosts (tl (hranges hl)))"
  by (cases "hranges hl") (simp_all add: hosts_def)

lemma shift_iterators_hosts [simp]:
  "hosts (hostlist_shift_iterators hl idx depth n) = hosts hl"
  "hranges (hostlist_shift_iterators hl idx depth n) = hranges hl"
  "nhosts (hostlist_shift_iterators hl idx depth n) = nhosts hl"
  "hl_ok (hostlist_shift_iterators hl idx depth n) = hl_ok hl"
  by (simp_all add: hostlist_shift_iterators_def hl_ok_def)

lemma delete_range_hosts [simp]:
  "hosts (hostlist_delete_range hl n) = concat (map hr_hosts (take n (hranges hl) @ drop (n + 1) (hranges hl)))"
  "hranges (hostlist_delete_range hl n) = take n (hranges hl) @ drop (n + 1) (hranges hl)"
  "nhosts (hostlist_delete_range hl n) = nhosts hl"
  by (simp_all add: hostlist_delete_range_def)

lemma hl_okI:
  assumes "list_all range_ok (hranges hl)" "nhosts hl = int (length (hosts hl))" "length (hosts hl) < 2 ^ 31"
  shows "hl_ok hl"
  using assms by (simp add: hl_ok_def)

lemma pop_names [simp]: "names_ok (snd (hostrange_pop r)) = names_ok r"
  by (simp add: hostrange_pop_def names_ok_def)

lemma shift_names [simp]: "names_ok (snd (hostrange_shift r)) = names_ok r"
  by (simp add: hostrange_shift_def names_ok_def)

lemma hostlist_pop_spec:
  assumes "hl_ok hl" "hosts hl \<noteq> []" "hostlist_pop hl = (host, hl')"
  shows "host = Some (last (hosts hl))" "hosts hl' = butlast (hosts hl)" "hl_ok hl'"
proof -
  have ne: "hranges hl \<noteq> []" using assms(1,2) hosts_Nil_iff hl_okD(1) by blast
  let ?l = "last (hranges hl)"
  obtain h r where p: "hostrange_pop ?l = (h, r)" by force
  have l: "hr_ok ?l" "names_ok ?l"
    using assms(1) ne by (auto simp: hl_ok_def range_ok_def list_all_iff)
  have b: "list_all range_ok (butlast (hranges hl))"
    using assms(1) by (auto simp: hl_ok_def list_all_iff dest: in_set_butlastD)
  note P = hostrange_pop_spec [OF l(1) p]
  note H = hosts_last [OF ne]
  have nz: "nhosts hl > 0" using assms(1,2) by (simp add: hl_ok_def)
  have res: "host = h" "nhosts hl' = nhosts hl - 1"
    "hranges hl' = (if hostrange_empty r then butlast (hranges hl) else butlast (hranges hl) @ [r])"
    using assms(3) nz p by (auto simp: hostlist_pop_def Let_def split: if_splits)
  show "host = Some (last (hosts hl))" using P(1) res(1) l by (simp add: H)
  show hosts: "hosts hl' = butlast (hosts hl)"
  proof (cases "hostrange_empty r")
    case True
    then have "butlast (hr_hosts ?l) = []" using P(2) by (cases "hr_hosts ?l") auto
    then show ?thesis using True l by (simp add: H hosts_def [of hl'] res(3) butlast_append)
  next
    case False
    then show ?thesis using P(3) l by (simp add: H hosts_def [of hl'] res(3) butlast_append)
  qed
  have "names_ok r" using pop_names [of ?l] l p by simp
  then have "list_all range_ok (hranges hl')"
    using b P(3) by (auto simp: res(3) range_ok_def)
  moreover have "nhosts hl' = int (length (hosts hl'))" "length (hosts hl') < 2 ^ 31"
    using assms(1,2) by (cases "hosts hl"; simp add: hosts res(2) hl_ok_def)+
  ultimately show "hl_ok hl'" by (rule hl_okI)
qed

lemma hostlist_pop_empty:
  "hl_ok hl \<Longrightarrow> hosts hl = [] \<Longrightarrow> hostlist_pop hl = (None, hl)"
  by (simp add: hostlist_pop_def hl_ok_def)

lemma hostlist_shift_spec:
  assumes "hl_ok hl" "hosts hl \<noteq> []" "hostlist_shift hl = (host, hl')"
  shows "host = Some (hd (hosts hl))" "hosts hl' = tl (hosts hl)" "hl_ok hl'"
proof -
  have ne: "hranges hl \<noteq> []" using assms(1,2) hosts_Nil_iff hl_okD(1) by blast
  let ?l = "hd (hranges hl)"
  obtain h r where p: "hostrange_shift ?l = (h, r)" by force
  have l: "hr_ok ?l" "names_ok ?l" and b: "list_all range_ok (tl (hranges hl))"
    using assms(1) ne by (cases "hranges hl"; simp add: hl_ok_def range_ok_def)+
  note P = hostrange_shift_spec [OF l(1) p]
  note H = hosts_hd [OF ne]
  have nz: "nhosts hl > 0" using assms(1,2) by (simp add: hl_ok_def)
  have res: "host = h" "nhosts hl' = nhosts hl - 1"
    "hranges hl' = (if hostrange_empty r then tl (hranges hl) else r # tl (hranges hl))"
    using assms(3) nz p by (auto simp: hostlist_shift_def Let_def split: if_splits)
  show "host = Some (hd (hosts hl))" using P(1) res(1) l by (simp add: H)
  show hosts: "hosts hl' = tl (hosts hl)"
  proof (cases "hostrange_empty r")
    case True
    then have "tl (hr_hosts ?l) = []" using P(2) by (cases "hr_hosts ?l") auto
    then show ?thesis using True l by (simp add: H hosts_def [of hl'] res(3))
  next
    case False
    then show ?thesis using P(3) l by (simp add: H hosts_def [of hl'] res(3))
  qed
  have "names_ok r" using shift_names [of ?l] l p by simp
  then have "list_all range_ok (hranges hl')"
    using b P(3) by (auto simp: res(3) range_ok_def)
  moreover have "nhosts hl' = int (length (hosts hl'))" "length (hosts hl') < 2 ^ 31"
    using assms(1,2) by (cases "hosts hl"; simp add: hosts res(2) hl_ok_def)+
  ultimately show "hl_ok hl'" by (rule hl_okI)
qed

lemma hostlist_shift_empty:
  "hl_ok hl \<Longrightarrow> hosts hl = [] \<Longrightarrow> hostlist_shift hl = (None, hl)"
  by (simp add: hostlist_shift_def hl_ok_def)

end
