(* ===== verification/Hostlist_Index.thy ===== *)
theory Hostlist_Index
  imports Hostlist
begin

text \<open>
  Access to the hosts of a list by index and by name: \<open>hostlist_nth\<close>,
  \<open>hostlist_find\<close> and the deletions, with the lemmas that relate them to
  \<open>nth\<close>, to the position of the first occurrence and to \<open>remove1\<close> on the
  list of hosts.
\<close>

definition MAXHOSTNAMELEN :: nat where
  [hostlist_defs]: "MAXHOSTNAMELEN = 64"

text \<open>
  \<open>_hostrange_string\<close> prints into a buffer on the stack; with a prefix longer than the
  buffer it is given, the size left for the number is negative and the write leaves the
  buffer: \<open>None\<close>.
\<close>

definition hostrange_string :: "hostrange \<Rightarrow> int \<Rightarrow> string option" where
  "hostrange_string hr depth =
    (let size = MAXHOSTNAMELEN + 15
     in if singlehost hr then Some (take (size - 1) (prefix hr))
        else if length (prefix hr) > size then None
        else Some (take (size - 1) (prefix hr @ fmt0 (width hr) (unat (lo hr + of_int depth)))))"

section \<open>By index\<close>

text \<open>
  The loop of \<open>hostlist_nth\<close> and \<open>hostlist_delete_nth\<close>: the index of the range
  the \<open>n\<close>-th host is in, and the number of hosts before that range.
\<close>

fun nth_range :: "hostrange list \<Rightarrow> int \<Rightarrow> nat \<Rightarrow> int \<Rightarrow> (nat \<times> int) option" where
  "nth_range [] n i count = None"
| "nth_range (r # rs) n i count =
    (let num_in_range = int_of_ulong (hostrange_count r)
     in if n \<le> num_in_range - 1 + count then Some (i, count)
        else nth_range rs n (i + 1) (count + num_in_range))"

text \<open>The outer option is \<open>None\<close> when the printing buffer is overrun.\<close>

definition hostlist_nth :: "hostlist \<Rightarrow> int \<Rightarrow> string option option" where
  "hostlist_nth hl n =
    (case nth_range (hranges hl) n 0 0 of
       None \<Rightarrow> Some None
     | Some (i, count) \<Rightarrow> map_option Some (hostrange_string (hranges hl ! i) (n - count)))"

definition hostlist_delete_nth :: "hostlist \<Rightarrow> int \<Rightarrow> int \<times> hostlist" where
  "hostlist_delete_nth hl n =
    (let hl =
       (case nth_range (hranges hl) n 0 0 of
          None \<Rightarrow> hl
        | Some (i, count) \<Rightarrow>
            let hr = hranges hl ! i;
                num = lo hr + of_int n - of_int count
            in if singlehost hr then hostlist_delete_range hl i
               else
                 let (new, hr) = hostrange_delete_host hr num;
                     hl = hl\<lparr>hranges := (hranges hl)[i := hr]\<rparr>
                 in case new of
                      Some new \<Rightarrow> snd (hostlist_insert_range hl new (i + 1))
                    | None \<Rightarrow> if hostrange_empty hr then hostlist_delete_range hl i else hl)
     in (1, hl\<lparr>nhosts := nhosts hl - 1\<rparr>))"

text \<open>The loop of \<open>hostlist_find\<close>; looking into a range may adjust its width.\<close>

fun find_ranges :: "hostrange list \<Rightarrow> string \<Rightarrow> int \<Rightarrow> int \<times> hostrange list" where
  "find_ranges [] name count = (-1, [])"
| "find_ranges (r # rs) name count =
    (let (offset, r') = hostrange_hn_within r name (host_prefix_end name)
     in if offset \<ge> 0 then (count + offset, r' # rs)
        else let (k, rs) = find_ranges rs name (add_count count r') in (k, r' # rs))"

definition hostlist_find :: "hostlist \<Rightarrow> string option \<Rightarrow> int \<times> hostlist" where
  "hostlist_find hl host =
    (case host of
       None \<Rightarrow> (-1, hl)
     | Some name \<Rightarrow>
         let (k, rs) = find_ranges (hranges hl) name 0 in (k, hl\<lparr>hranges := rs\<rparr>))"

definition hostlist_delete_host :: "hostlist \<Rightarrow> string \<Rightarrow> int \<times> hostlist" where
  "hostlist_delete_host hl name =
    (let (n, hl) = hostlist_find hl (Some name)
     in if n \<ge> 0 then (1, snd (hostlist_delete_nth hl n)) else (0, hl))"

section \<open>Positions\<close>

text \<open>The number of hosts before range \<open>j\<close>\<close>

definition before :: "hostrange list \<Rightarrow> nat \<Rightarrow> nat" where
  "before rs j = length (concat (map hr_hosts (take j rs)))"

lemma before_Suc_Cons: "before (r # rs) (Suc j) = length (hr_hosts r) + before rs j"
  by (simp add: before_def)

lemma before_0 [simp]: "before rs 0 = 0"
  by (simp add: before_def)

lemma num_in_range:
  assumes "hr_ok r" "length (hr_hosts r) < 2 ^ 31"
  shows "int_of_ulong (hostrange_count r) = int (length (hr_hosts r))"
  using assms hostrange_count_hosts [OF assms(1)] int_of_ulong_small [of "hostrange_count r"]
  by simp

lemma nth_range_found:
  assumes "list_all hr_ok rs" "length (concat (map hr_hosts rs)) < 2 ^ 31"
    and "k < length (concat (map hr_hosts rs))" "n = count + int k"
  shows "\<exists>j. nth_range rs n i count = Some (i + j, count + int (before rs j)) \<and> j < length rs \<and>
    before rs j \<le> k \<and> k < before rs j + length (hr_hosts (rs ! j))"
  using assms
proof (induction rs arbitrary: i count k)
  case Nil
  then show ?case by simp
next
  case (Cons r rs)
  have c: "int_of_ulong (hostrange_count r) = int (length (hr_hosts r))"
    using Cons.prems(1,2) by (intro num_in_range) simp_all
  show ?case
  proof (cases "k < length (hr_hosts r)")
    case True
    then show ?thesis
      using Cons.prems(4) c by (intro exI [of _ 0]) (simp add: Let_def)
  next
    case False
    then obtain m where m: "k = length (hr_hosts r) + m" using le_Suc_ex by (metis leI)
    have "\<exists>j. nth_range rs n (i + 1) (count + int (length (hr_hosts r))) =
        Some (i + 1 + j, count + int (length (hr_hosts r)) + int (before rs j)) \<and> j < length rs \<and>
        before rs j \<le> m \<and> m < before rs j + length (hr_hosts (rs ! j))"
      using Cons.prems m by (intro Cons.IH) simp_all
    then obtain j where "nth_range rs n (i + 1) (count + int (length (hr_hosts r))) =
        Some (i + 1 + j, count + int (length (hr_hosts r)) + int (before rs j))" "j < length rs"
        "before rs j \<le> m" "m < before rs j + length (hr_hosts (rs ! j))" by blast
    then show ?thesis
      using c m Cons.prems(4) by (intro exI [of _ "Suc j"]) (simp add: Let_def before_Suc_Cons)
  qed
qed

lemma nth_range_none:
  assumes "list_all hr_ok rs" "length (concat (map hr_hosts rs)) < 2 ^ 31"
    and "n \<ge> count + int (length (concat (map hr_hosts rs)))"
  shows "nth_range rs n i count = None"
  using assms
proof (induction rs arbitrary: i count)
  case Nil
  then show ?case by simp
next
  case (Cons r rs)
  have c: "int_of_ulong (hostrange_count r) = int (length (hr_hosts r))"
    using Cons.prems(1,2) by (intro num_in_range) simp_all
  have "nth_range rs n (i + 1) (count + int (length (hr_hosts r))) = None"
    using Cons.prems by (intro Cons.IH) simp_all
  then show ?case
    using c Cons.prems(3) by (simp add: Let_def)
qed

text \<open>Where the \<open>k\<close>-th host is, and the list around it\<close>

lemma hosts_split:
  assumes "hl_ok hl" "k < length (hosts hl)"
  obtains j m where "nth_range (hranges hl) (int k) 0 0 = Some (j, int (before (hranges hl) j))"
    "j < length (hranges hl)" "k = before (hranges hl) j + m"
    "m < length (hr_hosts (hranges hl ! j))"
    "hosts hl = concat (map hr_hosts (take j (hranges hl))) @ hr_hosts (hranges hl ! j) @
       concat (map hr_hosts (drop (Suc j) (hranges hl)))"
    "range_ok (hranges hl ! j)"
proof -
  let ?rs = "hranges hl"
  have ok: "list_all hr_ok ?rs"
    using hl_okD(1) [OF assms(1)] by (auto simp: list_all_iff range_ok_def)
  have "\<exists>j. nth_range ?rs (int k) 0 0 = Some (0 + j, 0 + int (before ?rs j)) \<and> j < length ?rs \<and>
      before ?rs j \<le> k \<and> k < before ?rs j + length (hr_hosts (?rs ! j))"
    using assms by (intro nth_range_found [OF ok]) (simp_all add: hl_ok_def hosts_def)
  then obtain j where j: "nth_range ?rs (int k) 0 0 = Some (j, int (before ?rs j))" "j < length ?rs"
      "before ?rs j \<le> k" "k < before ?rs j + length (hr_hosts (?rs ! j))" by auto
  have "hosts hl = concat (map hr_hosts (take j ?rs @ ?rs ! j # drop (Suc j) ?rs))"
    using id_take_nth_drop [OF j(2)] by (simp add: hosts_def)
  then have h: "hosts hl = concat (map hr_hosts (take j ?rs)) @ hr_hosts (?rs ! j) @
      concat (map hr_hosts (drop (Suc j) ?rs))" by simp
  have r: "range_ok (?rs ! j)"
    using hl_okD(1) [OF assms(1)] j(2) by (simp add: list_all_length)
  show thesis
    using that [OF j(1,2), of "k - before ?rs j"] j(3,4) h r by simp
qed

lemma hostrange_string_nth:
  assumes "range_ok r" "m < length (hr_hosts r)" "length (hr_hosts r ! m) \<le> 78"
  shows "hostrange_string r (int m) = Some (hr_hosts r ! m)"
proof (cases "singlehost r")
  case True
  then have "hr_hosts r ! m = prefix r" using assms(2) by (simp add: hr_hosts_def)
  then show ?thesis
    using True assms(3) by (simp add: hostrange_string_def MAXHOSTNAMELEN_def)
next
  case False
  note u = unat_nth_number [OF range_okD(1) [OF assms(1)] False assms(2)]
  have i: "[unat (lo r)..<Suc (unat (hi r))] ! m = unat (lo r) + m"
    using u(2) by (intro nth_upt) linarith
  have "m < length [unat (lo r)..<Suc (unat (hi r))]"
    using u(2) unfolding length_upt by linarith
  then have e: "hr_hosts r ! m = prefix r @ fmt0 (width r) (unat (lo r) + m)"
    unfolding hr_hosts_range [OF False] by (simp only: nth_map i)
  show ?thesis
    using False assms(3) unfolding e
    by (simp add: hostrange_string_def MAXHOSTNAMELEN_def u(1))
qed

lemma hostlist_nth_spec:
  assumes "hl_ok hl" "k < length (hosts hl)" "length (hosts hl ! k) \<le> 78"
  shows "hostlist_nth hl (int k) = Some (Some (hosts hl ! k))"
proof -
  obtain j m where J: "nth_range (hranges hl) (int k) 0 0 = Some (j, int (before (hranges hl) j))"
      "j < length (hranges hl)" "k = before (hranges hl) j + m"
      "m < length (hr_hosts (hranges hl ! j))"
      "hosts hl = concat (map hr_hosts (take j (hranges hl))) @ hr_hosts (hranges hl ! j) @
         concat (map hr_hosts (drop (Suc j) (hranges hl)))"
      "range_ok (hranges hl ! j)"
    using hosts_split [OF assms(1,2)] .
  have e: "hosts hl ! k = hr_hosts (hranges hl ! j) ! m"
    using J(4) by (simp add: J(5) J(3) before_def nth_append)
  have "int k - int (before (hranges hl) j) = int m" using J(3) by simp
  then show ?thesis
    using hostrange_string_nth [OF J(6,4)] assms(3) J(1) e by (simp add: hostlist_nth_def)
qed

lemma hostlist_nth_beyond:
  assumes "hl_ok hl" "length (hosts hl) \<le> k"
  shows "hostlist_nth hl (int k) = Some None"
proof -
  have "list_all hr_ok (hranges hl)"
    using hl_okD(1) [OF assms(1)] by (auto simp: list_all_iff range_ok_def)
  then have "nth_range (hranges hl) (int k) 0 0 = None"
    using assms by (intro nth_range_none) (simp_all add: hosts_def hl_ok_def)
  then show ?thesis by (simp add: hostlist_nth_def)
qed

lemma hostlist_delete_nth_spec:
  assumes "hl_ok hl" "k < length (hosts hl)" "hostlist_delete_nth hl (int k) = (n, hl')"
  shows "n = 1" "hosts hl' = take k (hosts hl) @ drop (Suc k) (hosts hl)" "hl_ok hl'"
proof -
  obtain j m where J: "nth_range (hranges hl) (int k) 0 0 = Some (j, int (before (hranges hl) j))"
      "j < length (hranges hl)" "k = before (hranges hl) j + m"
      "m < length (hr_hosts (hranges hl ! j))"
      "hosts hl = concat (map hr_hosts (take j (hranges hl))) @ hr_hosts (hranges hl ! j) @
         concat (map hr_hosts (drop (Suc j) (hranges hl)))"
      "range_ok (hranges hl ! j)"
    using hosts_split [OF assms(1,2)] .
  define r where "r = hranges hl ! j"
  define A where "A = concat (map hr_hosts (take j (hranges hl)))"
  define B where "B = concat (map hr_hosts (drop (Suc j) (hranges hl)))"
  have r: "hr_ok r" "names_ok r" "m < length (hr_hosts r)"
    using J(4,6) by (simp_all add: r_def range_ok_def)
  have oks: "list_all range_ok (take j (hranges hl))" "list_all range_ok (drop (Suc j) (hranges hl))"
    using hl_okD(1) [OF assms(1)] by auto
  have target: "take k (hosts hl) @ drop (Suc k) (hosts hl) =
      A @ (take m (hr_hosts r) @ drop (Suc m) (hr_hosts r)) @ B"
    using r(3) by (simp add: J(5) J(3) before_def A_def B_def r_def)
  have ex: "\<exists>h. hl' = h\<lparr>nhosts := nhosts h - 1\<rparr> \<and> n = 1 \<and> nhosts h = nhosts hl \<and>
      list_all range_ok (hranges h) \<and>
      hosts h = A @ (take m (hr_hosts r) @ drop (Suc m) (hr_hosts r)) @ B"
  proof (cases "singlehost r")
    case True
    then have "take m (hr_hosts r) @ drop (Suc m) (hr_hosts r) = []"
      using r(3) by (simp add: hr_hosts_def)
    moreover have "hl' = (hostlist_delete_range hl j)\<lparr>nhosts := nhosts hl - 1\<rparr>" "n = 1"
      using assms(3) J(1) True by (simp_all add: hostlist_delete_nth_def r_def Let_def)
    ultimately show ?thesis
      using oks by (intro exI [of _ "hostlist_delete_range hl j"]) (simp add: A_def B_def)
  next
    case False
    obtain new hr where d: "hostrange_delete_host r (lo r + of_nat m) = (new, hr)" by force
    note D = hostrange_delete_host_spec [OF r(1) False r(3) refl d]
    have num: "lo r + of_nat k - of_nat (before (hranges hl) j) = lo r + of_nat m"
      by (simp add: J(3))
    have nm: "names_ok hr"
      using d r(2) by (auto simp: hostrange_delete_host_def names_ok_def split: if_splits)
    define h0 where "h0 = hl\<lparr>hranges := (hranges hl)[j := hr]\<rparr>"
    have upd: "(hranges hl)[j := hr] = take j (hranges hl) @ hr # drop (Suc j) (hranges hl)"
      by (rule upd_conv_take_nth_drop [OF J(2)])
    show ?thesis
    proof (cases new)
      case None
      have res: "hl' = (let h = (if hostrange_empty hr then hostlist_delete_range h0 j else h0)
          in h\<lparr>nhosts := nhosts h - 1\<rparr>)" "n = 1"
        using assms(3) None unfolding hostlist_delete_nth_def J(1)
        by (auto simp: r_def [symmetric] Let_def h0_def False num d split: if_splits)
      show ?thesis
      proof (cases "hostrange_empty hr")
        case True
        then have one: "length (hr_hosts r) = 1" using D(1) None by simp
        then have "take m (hr_hosts r) @ drop (Suc m) (hr_hosts r) = []" using r(3) by simp
        then show ?thesis
          using res True oks J(2)
          by (intro exI [of _ "hostlist_delete_range h0 j"])
            (simp add: A_def B_def h0_def upd min_def)
      next
        case ne: False
        then show ?thesis
          using res D(2) None oks nm
          by (intro exI [of _ h0]) (simp add: A_def B_def h0_def upd range_ok_def)
      qed
    next
      case (Some h2)
      note D3 = D(3) [OF Some]
      have nm2: "names_ok h2"
        using d Some r(2) by (auto simp: hostrange_delete_host_def names_ok_def split: if_splits)
      have c: "hostrange_copy h2 = h2" using D3 by (simp add: hr_copy_range)
      have ins: "hostlist_insert_range h0 h2 (j + 1) = (1, snd (hostlist_insert_range h0 h2 (j + 1)))"
          "hranges (snd (hostlist_insert_range h0 h2 (j + 1))) =
             take j (hranges hl) @ hr # h2 # drop (Suc j) (hranges hl)"
          "nhosts (snd (hostlist_insert_range h0 h2 (j + 1))) = nhosts hl"
        using J(2) c by (simp_all add: hostlist_insert_range_def h0_def upd Let_def min_def)
      have res: "hl' = (snd (hostlist_insert_range h0 h2 (j + 1)))\<lparr>nhosts := nhosts hl - 1\<rparr>" "n = 1"
        using assms(3) J(1) False d num Some ins(3)
        by (simp_all add: hostlist_delete_nth_def r_def [symmetric] Let_def h0_def)
      show ?thesis
        using res ins oks D3 nm nm2
        by (intro exI [of _ "snd (hostlist_insert_range h0 h2 (j + 1))"])
          (simp add: hosts_def A_def B_def range_ok_def)
    qed
  qed
  then obtain h where h: "hl' = h\<lparr>nhosts := nhosts h - 1\<rparr>" "n = 1" "nhosts h = nhosts hl"
      "list_all range_ok (hranges h)"
      "hosts h = A @ (take m (hr_hosts r) @ drop (Suc m) (hr_hosts r)) @ B" by blast
  show "n = 1" by (rule h(2))
  show H: "hosts hl' = take k (hosts hl) @ drop (Suc k) (hosts hl)"
    using h(1,5) by (simp add: target)
  have "length (hosts hl') = length (hosts hl) - 1" using H assms(2) by simp
  then show "hl_ok hl'"
    using h(1,3,4) assms(1,2) by (intro hl_okI) (auto simp: hl_ok_def)
qed

section \<open>By name\<close>

text \<open>The position of the first occurrence\<close>

definition first_pos :: "'a \<Rightarrow> 'a list \<Rightarrow> nat" where
  "first_pos x xs = length (takeWhile (\<lambda>y. y \<noteq> x) xs)"

lemma first_pos_bounds: "x \<in> set xs \<Longrightarrow> first_pos x xs < length xs \<and> xs ! first_pos x xs = x"
  unfolding first_pos_def by (induction xs) auto

lemma first_pos_append:
  "first_pos x (xs @ ys) = (if x \<in> set xs then first_pos x xs else length xs + first_pos x ys)"
  unfolding first_pos_def by (induction xs) auto

lemma first_pos_distinct: "distinct xs \<Longrightarrow> i < length xs \<Longrightarrow> first_pos (xs ! i) xs = i"
  using first_pos_bounds [of "xs ! i" xs] nth_eq_iff_index_eq [of xs] by auto

lemma remove1_first_pos:
  "x \<in> set xs \<Longrightarrow> remove1 x xs = take (first_pos x xs) xs @ drop (Suc (first_pos x xs)) xs"
  unfolding first_pos_def by (induction xs) auto

lemma find_ranges_spec:
  assumes "list_all range_ok rs" "NUL \<notin> set name" "findable name"
    and "c + length (concat (map hr_hosts rs)) < 2 ^ 31"
    and "find_ranges rs name (int c) = (k, rs')"
  shows "map hr_hosts rs' = map hr_hosts rs \<and> list_all range_ok rs' \<and>
    k = (if name \<in> set (concat (map hr_hosts rs))
         then int (c + first_pos name (concat (map hr_hosts rs))) else -1)"
  using assms
proof (induction rs arbitrary: c k rs')
  case Nil
  then show ?case by simp
next
  case (Cons r rs)
  obtain off r' where w: "hostrange_hn_within r name (host_prefix_end name) = (off, r')" by force
  have r: "hr_ok r" "names_ok r" "length (hr_hosts r) < 2 ^ 31"
    using Cons.prems(1,4) by (simp_all add: range_ok_def)
  note W = hn_within_spec [OF r(1,2) Cons.prems(2,3) r(3) w]
  have r': "range_ok r'" "hr_hosts r' = hr_hosts r" using W by (simp_all add: range_ok_def)
  show ?case
  proof (cases "name \<in> set (hr_hosts r)")
    case True
    note P = W(4) [OF True]
    have "k = int c + off" "rs' = r' # rs" using Cons.prems(5) w P by simp_all
    moreover have "first_pos name (hr_hosts r) = nat off"
      using first_pos_distinct [OF distinct_hr_hosts, of "nat off" r] P by simp
    ultimately show ?thesis
      using True r' Cons.prems(1) P by (simp add: first_pos_append)
  next
    case False
    have off: "off = -1" using W(5) [OF False] .
    have "add_count (int c) r' = int (c + length (hr_hosts r))"
      using add_count_eq [of r' "int c" c] r' r Cons.prems(4) by (simp add: range_ok_def)
    then obtain k2 rs2 where f: "find_ranges rs name (int (c + length (hr_hosts r))) = (k2, rs2)"
        "k = k2" "rs' = r' # rs2"
      using Cons.prems(5) w off by (auto simp: Let_def split: prod.splits)
    have "map hr_hosts rs2 = map hr_hosts rs \<and> list_all range_ok rs2 \<and>
      k2 = (if name \<in> set (concat (map hr_hosts rs))
         then int (c + length (hr_hosts r) + first_pos name (concat (map hr_hosts rs))) else -1)"
      using Cons.prems by (intro Cons.IH [OF _ _ _ _ f(1)]) simp_all
    then show ?thesis
      using False r' f(2,3) by (simp add: first_pos_append)
  qed
qed

lemma hostlist_find_spec:
  assumes "hl_ok hl" "NUL \<notin> set name" "findable name" "hostlist_find hl (Some name) = (k, hl')"
  shows "k = (if name \<in> set (hosts hl) then int (first_pos name (hosts hl)) else -1)"
    "hosts hl' = hosts hl" "hl_ok hl'"
proof -
  obtain rs where f: "find_ranges (hranges hl) name (int 0) = (k, rs)" "hl' = hl\<lparr>hranges := rs\<rparr>"
    using assms(4) by (auto simp: hostlist_find_def split: prod.splits)
  have R: "map hr_hosts rs = map hr_hosts (hranges hl) \<and> list_all range_ok rs \<and>
      k = (if name \<in> set (concat (map hr_hosts (hranges hl)))
           then int (0 + first_pos name (concat (map hr_hosts (hranges hl)))) else -1)"
    using assms(1) by (intro find_ranges_spec [OF _ assms(2,3) _ f(1)]) (simp_all add: hl_ok_def hosts_def)
  show "k = (if name \<in> set (hosts hl) then int (first_pos name (hosts hl)) else -1)"
    using conjunct2 [OF conjunct2 [OF R]] by (simp add: hosts_def)
  show H: "hosts hl' = hosts hl"
    using R by (simp add: hosts_def f(2))
  show "hl_ok hl'"
    using R assms(1) H unfolding hl_ok_def by (simp add: f(2))
qed

lemma hostlist_delete_host_spec:
  assumes "hl_ok hl" "NUL \<notin> set name" "findable name" "hostlist_delete_host hl name = (n, hl')"
  shows "n = of_bool (name \<in> set (hosts hl))" "hosts hl' = remove1 name (hosts hl)" "hl_ok hl'"
proof -
  obtain k h where f: "hostlist_find hl (Some name) = (k, h)" by force
  note F = hostlist_find_spec [OF assms(1-3) f]
  have "n = of_bool (name \<in> set (hosts hl)) \<and> hosts hl' = remove1 name (hosts hl) \<and> hl_ok hl'"
  proof (cases "name \<in> set (hosts hl)")
    case True
    obtain m h2 where d: "hostlist_delete_nth h k = (m, h2)" by force
    have k: "k = int (first_pos name (hosts hl))" using F(1) True by simp
    have b: "first_pos name (hosts hl) < length (hosts h)"
      using first_pos_bounds [OF True] F(2) by simp
    have e: "n = 1" "hl' = h2"
      using assms(4) f d k by (auto simp: hostlist_delete_host_def)
    show ?thesis
      using hostlist_delete_nth_spec [OF F(3) b d [unfolded k]] True F(2) e
      by (simp add: remove1_first_pos)
  next
    case False
    then have "k = -1" "n = 0" "hl' = h"
      using F(1) assms(4) f by (auto simp: hostlist_delete_host_def)
    then show ?thesis using False F by (simp add: remove1_idem)
  qed
  then show "n = of_bool (name \<in> set (hosts hl))" "hosts hl' = remove1 name (hosts hl)" "hl_ok hl'"
    by blast+
qed

end
