(* ===== verification/Hostlist_Parse.thy ===== *)
theory Hostlist_Parse
  imports Hostlist_Index
begin

text \<open>
  The host list syntax of \<open>hostlist_create\<close>: names separated by commas and white space,
  with ranges of numbers in brackets, as in \<open>foo[1-5,7],bar[01-10]-ib\<close>.

  The functions return an error number, or a list. An outer \<open>None\<close> is a call that
  does not return, or that reads memory the code never wrote. \<open>stale\<close> stands for the
  value \<open>errno\<close> happens to have, which one error path reports. A range that cannot be
  parsed is reported through \<open>lsd_fatal_error\<close> before the function returns: linked with
  the definition in \<open>err.c\<close>, the program ends there.
\<close>

definition MAX_RANGE :: ulong where
  [hostlist_defs]: "MAX_RANGE = 16384"

definition MAX_RANGES :: nat where
  [hostlist_defs]: "MAX_RANGES = 10240"

section \<open>Tokens\<close>

text \<open>A token ends at the first separator outside brackets.\<close>

fun tok_scan :: "string \<Rightarrow> string \<Rightarrow> int \<Rightarrow> string \<times> string" where
  "tok_scan sep [] level = ([], [])"
| "tok_scan sep (c # cs) level =
    (if level \<noteq> 0 \<or> \<not> strchr sep c then
       let level = (if c = CHR ''['' then level + 1 else if c = CHR '']'' then level - 1 else level);
           (tok, rest) = tok_scan sep cs level
       in (c # tok, rest)
     else ([], c # cs))"

definition next_tok :: "string \<Rightarrow> string \<Rightarrow> string option \<times> string" where
  "next_tok sep str =
    (let str = dropWhile (strchr sep) str
     in if str = [] then (None, str)
        else let (tok, str) = tok_scan sep str 0
             in (Some tok, dropWhile (strchr sep) str))"

section \<open>Ranges\<close>

record prange =
  rlo :: ulong
  rhi :: ulong
  rwidth :: nat

text \<open>
  The part before the first occurrence of a character, and the part after it if there is one:
  \<open>if ((p = strchr(s, c))) *p++ = 0\<close>.
\<close>

definition cut_at :: "char \<Rightarrow> string \<Rightarrow> string \<times> string option" where
  "cut_at c s =
    (takeWhile (\<lambda>x. x \<noteq> c) s, if strchr s c then Some (tl (dropWhile (\<lambda>x. x \<noteq> c) s)) else None)"

text \<open>
  The end of the conversion of \<open>lo\<close> is forgotten when \<open>hi\<close> is converted, and
  a \<open>-\<close> with nothing after it is accepted.
\<close>

definition parse_single_range :: "string \<Rightarrow> prange result" where
  "parse_single_range str =
    (let (s, p) = cut_at CHR ''-'' str
     in if p \<noteq> None \<and> the p \<noteq> [] \<and> hd (the p) = CHR ''-'' then Inl EINVAL
        else
          let (l, q) = strtoul s
          in if q = s then Inl EINVAL
             else
               let single = (p = None \<or> the p = []);
                   (h, q) = (if single then (l, q) else strtoul (the p))
               in if (\<not> single \<and> q = the p) \<or> q \<noteq> [] then Inl EINVAL
                  else if l > h then Inl EINVAL
                  else if h - l + 1 > MAX_RANGE then Inl ERANGE
                  else Inr \<lparr>rlo = l, rhi = h, rwidth = length s\<rparr>)"

function parse_range_list :: "errno \<Rightarrow> string \<Rightarrow> nat \<Rightarrow> nat \<Rightarrow> prange list result" where
  "parse_range_list stale str len count =
    (if count = len then Inl stale
     else
       let (s, p) = cut_at CHR '','' str
       in case parse_single_range s of
            Inl e \<Rightarrow> Inl e
          | Inr r \<Rightarrow>
              (case p of
                 None \<Rightarrow> Inr [r]
               | Some str \<Rightarrow> map_sum id ((#) r) (parse_range_list stale str len (count + 1))))"
  by pat_completeness auto

lemma cut_at_Some: "cut_at c s = (t, Some u) \<longleftrightarrow> s = t @ c # u \<and> c \<notin> set t"
proof
  assume "cut_at c s = (t, Some u)"
  then have t: "t = takeWhile (\<lambda>x. x \<noteq> c) s" "c \<in> set s" "u = tl (dropWhile (\<lambda>x. x \<noteq> c) s)"
    by (auto simp: cut_at_def split: if_splits)
  then have "dropWhile (\<lambda>x. x \<noteq> c) s \<noteq> []" by auto
  then have "dropWhile (\<lambda>x. x \<noteq> c) s = c # u"
    using t(3) hd_dropWhile [of "\<lambda>x. x \<noteq> c" s] by (cases "dropWhile (\<lambda>x. x \<noteq> c) s") auto
  then show "s = t @ c # u \<and> c \<notin> set t"
    using t(1) takeWhile_dropWhile_id [of "\<lambda>x. x \<noteq> c" s] by (auto dest: set_takeWhileD)
next
  assume s: "s = t @ c # u \<and> c \<notin> set t"
  then have "takeWhile (\<lambda>x. x \<noteq> c) s = t" "dropWhile (\<lambda>x. x \<noteq> c) s = c # u"
    by (auto simp: takeWhile_tail dropWhile_append)
  then show "cut_at c s = (t, Some u)" using s by (simp add: cut_at_def)
qed

lemma cut_at_None: "cut_at c s = (t, None) \<longleftrightarrow> s = t \<and> c \<notin> set s"
proof (cases "c \<in> set s")
  case False
  then have "takeWhile (\<lambda>x. x \<noteq> c) s = s" by (auto simp: takeWhile_eq_all_conv)
  then show ?thesis using False unfolding cut_at_def by (simp only: if_False prod.inject simp_thms)
qed (simp add: cut_at_def)

termination parse_range_list
  by (relation "measure (\<lambda>(_, str, _, _). length str)") (auto simp: cut_at_Some dest!: sym [of "(_, Some _)"])

definition push_range_list :: "hostlist \<Rightarrow> string \<Rightarrow> prange list \<Rightarrow> hostlist" where
  "push_range_list hl pfx rngs =
    foldl (\<lambda>hl r. snd (hostlist_push_hr hl pfx (rlo r) (rhi r) (rwidth r))) hl rngs"

text \<open>The body of the inner loop: one single host, printed into a buffer of 4096 bytes.\<close>

definition push_suffix_host :: "string \<Rightarrow> string \<Rightarrow> nat \<Rightarrow> ulong \<Rightarrow> hostlist \<Rightarrow> hostlist" where
  "push_suffix_host pfx sfx w j hl =
    (let host = take 4095 (pfx @ fmt0 w (unat j) @ sfx);
         (_, hl, _) = hostlist_push_range hl (hostrange_create_single host)
     in hl)"

text \<open>\<open>for (j = rng->lo; j <= rng->hi; j++)\<close>, which never ends for \<open>ULONG_MAX\<close>\<close>

partial_function (option) push_suffix_loop ::
  "string \<Rightarrow> string \<Rightarrow> nat \<Rightarrow> ulong \<Rightarrow> ulong \<Rightarrow> hostlist \<Rightarrow> hostlist option" where
  [code]: "push_suffix_loop pfx sfx w h j hl =
    (if j \<le> h then push_suffix_loop pfx sfx w h (j + 1) (push_suffix_host pfx sfx w j hl)
     else Some hl)"

fun push_range_list_with_suffix ::
  "hostlist \<Rightarrow> string \<Rightarrow> string \<Rightarrow> prange list \<Rightarrow> hostlist option" where
  "push_range_list_with_suffix hl pfx sfx [] = Some hl"
| "push_range_list_with_suffix hl pfx sfx (r # rs) =
    (case push_suffix_loop pfx sfx (rwidth r) (rhi r) (rlo r) hl of
       None \<Rightarrow> None
     | Some hl \<Rightarrow> push_range_list_with_suffix hl pfx sfx rs)"

section \<open>Creating a list from a string\<close>

text \<open>
  \<open>strncpy(cur_tok, tok, sizeof (cur_tok) - 1)\<close>: the last byte of \<open>cur_tok\<close>
  is never written, so the copy of a token of 1023 bytes or more has no terminator.
\<close>

definition cur_tok :: "string \<Rightarrow> string option" where
  "cur_tok tok = (if length tok < 1023 then Some tok else None)"

definition create_token :: "errno \<Rightarrow> hostlist \<Rightarrow> string \<Rightarrow> hostlist result option" where
  "create_token stale hl tok =
    (case cut_at CHR ''['' tok of
       (pre, Some p) \<Rightarrow>
         (case cut_at CHR '']'' p of
            (rl, Some q) \<Rightarrow>
              (case parse_range_list stale rl MAX_RANGES 0 of
                 Inl e \<Rightarrow> Some (Inl e)
               | Inr rs \<Rightarrow>
                   if q \<noteq> [] then map_option Inr (push_range_list_with_suffix hl pre q rs)
                   else Some (Inr (push_range_list hl pre rs)))
          | (_, None) \<Rightarrow> Some (Inl EINVAL))
     | (_, None) \<Rightarrow>
         if strchr tok CHR '']'' then Some (Inl EINVAL)
         else map_option (\<lambda>t. Inr (snd (hostlist_push_host hl (Some t)))) (cur_tok tok))"

lemma tok_scan_append: "tok_scan sep s level = (t, r) \<Longrightarrow> s = t @ r"
  by (induction sep s level arbitrary: t r rule: tok_scan.induct)
    (auto simp: Let_def split: if_splits prod.splits)

lemma next_tok_shorter:
  assumes "next_tok sep s = (Some t, r)"
  shows "length r < length s"
proof -
  let ?s = "dropWhile (strchr sep) s"
  have ne: "?s \<noteq> []" using assms by (auto simp: next_tok_def Let_def split: if_splits)
  then obtain c cs where c: "?s = c # cs" "\<not> strchr sep c" by (metis hd_dropWhile list.collapse)
  obtain u v where uv: "tok_scan sep ?s 0 = (u, v)" by force
  then have "r = dropWhile (strchr sep) v" using assms ne unfolding next_tok_def Let_def if_not_P [OF ne] by simp
  moreover have "u \<noteq> []" using uv c by (auto simp: Let_def split: prod.splits)
  ultimately have "length r < length ?s"
    using tok_scan_append [OF uv] length_dropWhile_le [of "strchr sep" v] by (cases u) auto
  then show ?thesis using length_dropWhile_le [of "strchr sep" s] by simp
qed

function create_tokens :: "errno \<Rightarrow> string \<Rightarrow> hostlist \<Rightarrow> string \<Rightarrow> hostlist result option" where
  "create_tokens stale sep hl str =
    (case next_tok sep str of
       (None, _) \<Rightarrow> Some (Inr hl)
     | (Some tok, str) \<Rightarrow>
         (case create_token stale hl tok of
            None \<Rightarrow> None
          | Some (Inl e) \<Rightarrow> Some (Inl e)
          | Some (Inr hl) \<Rightarrow> create_tokens stale sep hl str))"
  by pat_completeness auto
termination
  by (relation "measure (\<lambda>(_, _, _, str). length str)") (auto simp: next_tok_shorter dest!: sym [of "(Some _, _)"])

declare parse_range_list.simps [simp del] create_tokens.simps [simp del]

definition hostlist_create_bracketed ::
  "errno \<Rightarrow> string option \<Rightarrow> string \<Rightarrow> string \<Rightarrow> hostlist result option" where
  "hostlist_create_bracketed stale str sep r_op =
    (case str of
       None \<Rightarrow> Some (Inr hostlist_new)
     | Some s \<Rightarrow> create_tokens stale sep hostlist_new s)"

definition HL_SEP :: string where
  [hostlist_defs]: "HL_SEP = [CHR 0x09, CHR '','', CHR '' '']"

definition hostlist_create :: "errno \<Rightarrow> string option \<Rightarrow> hostlist result option" where
  "hostlist_create stale str = hostlist_create_bracketed stale str HL_SEP ''-''"

definition hostlist_push :: "errno \<Rightarrow> hostlist \<Rightarrow> string option \<Rightarrow> (int \<times> hostlist) option" where
  "hostlist_push stale hl str =
    (case str of
       None \<Rightarrow> Some (0, hl)
     | Some _ \<Rightarrow>
         map_option (\<lambda>new.
           case new of
             Inl _ \<Rightarrow> (0, hl)
           | Inr new \<Rightarrow> let (_, hl, _) = hostlist_push_list hl (Some new) in (nhosts new, hl))
         (hostlist_create stale str))"

text \<open>The loop of \<open>hostlist_delete\<close>\<close>

function delete_popped :: "hostlist \<Rightarrow> hostlist \<Rightarrow> int \<Rightarrow> int \<times> hostlist" where
  "delete_popped hl hltmp n =
    (case hostlist_pop hltmp of
       (None, _) \<Rightarrow> (n, hl)
     | (Some name, hltmp) \<Rightarrow>
         let (k, hl) = hostlist_delete_host hl name in delete_popped hl hltmp (n + k))"
  by pat_completeness auto

lemma hostlist_pop_nhosts:
  "hostlist_pop hl = (Some h, hl') \<Longrightarrow> 0 < nhosts hl \<and> nhosts hl' = nhosts hl - 1"
  by (auto simp: hostlist_pop_def Let_def split: if_splits prod.splits)

termination delete_popped
  by (relation "measure (\<lambda>(_, hltmp, _). nat (nhosts hltmp))") (auto dest!: sym [of "(Some _, _)"] dest: hostlist_pop_nhosts)

declare delete_popped.simps [simp del]

definition hostlist_delete :: "errno \<Rightarrow> hostlist \<Rightarrow> string option \<Rightarrow> (int \<times> hostlist) option" where
  "hostlist_delete stale hl str =
    map_option (\<lambda>r. case r of Inl _ \<Rightarrow> (0, hl) | Inr hltmp \<Rightarrow> delete_popped hl hltmp 0)
      (hostlist_create stale str)"

end
