(* ===== verification/Hostlist_Syntax.thy ===== *)
theory Hostlist_Syntax
  imports Hostlist_Parse
begin

text \<open>
  The syntax of host lists as data: the items of a list, their text, and the host names they
  stand for. The lemmas show that the parser maps the text of any well-formed list of items to
  exactly these names, in order.
\<close>

section \<open>Items\<close>

text \<open>A range is a number, or two numbers separated by a hyphen.\<close>

type_synonym span = "string \<times> string option"

datatype host_item =
  Host string
| Ranges string "span list" string

definition span_lo :: "span \<Rightarrow> nat" where
  "span_lo r = dec_val (fst r)"

definition span_hi :: "span \<Rightarrow> nat" where
  "span_hi r = dec_val (case snd r of None \<Rightarrow> fst r | Some t \<Rightarrow> t)"

definition span_text :: "span \<Rightarrow> string" where
  "span_text r = (case r of (s, None) \<Rightarrow> s | (s, Some t) \<Rightarrow> s @ CHR ''-'' # t)"

fun commas :: "string list \<Rightarrow> string" where
  "commas [] = []"
| "commas [s] = s"
| "commas (s # ss) = s @ CHR '','' # commas ss"

fun item_text :: "host_item \<Rightarrow> string" where
  "item_text (Host h) = h"
| "item_text (Ranges p rs sfx) = p @ CHR ''['' # commas (map span_text rs) @ CHR '']'' # sfx"

definition span_hosts :: "string \<Rightarrow> string \<Rightarrow> span \<Rightarrow> string list" where
  "span_hosts p sfx r =
    map (\<lambda>n. p @ fmt0 (length (fst r)) n @ sfx) [span_lo r..<Suc (span_hi r)]"

fun item_hosts :: "host_item \<Rightarrow> string list" where
  "item_hosts (Host h) = [h]"
| "item_hosts (Ranges p rs sfx) = concat (map (span_hosts p sfx) rs)"

definition number :: "string \<Rightarrow> bool" where
  "number s \<longleftrightarrow> s \<noteq> [] \<and> list_all isdigit s"

definition span_ok :: "span \<Rightarrow> bool" where
  "span_ok r \<longleftrightarrow> number (fst r) \<and> (case snd r of None \<Rightarrow> True | Some t \<Rightarrow> number t) \<and>
    span_lo r \<le> span_hi r \<and> span_hi r - span_lo r < 16384 \<and> span_hi r < 10 ^ 15"

text \<open>The characters of names, without separators, brackets and NUL\<close>

definition plain :: "string \<Rightarrow> bool" where
  "plain s \<longleftrightarrow> list_all (\<lambda>c. c \<notin> set HL_SEP \<and> c \<noteq> CHR ''['' \<and> c \<noteq> CHR '']'' \<and> c \<noteq> NUL) s"

fun item_ok :: "host_item \<Rightarrow> bool" where
  "item_ok (Host h) \<longleftrightarrow> h \<noteq> [] \<and> plain h \<and> length h < 1023"
| "item_ok (Ranges p rs sfx) \<longleftrightarrow> plain p \<and> plain sfx \<and> rs \<noteq> [] \<and> length rs \<le> MAX_RANGES \<and>
    list_all span_ok rs \<and>
    (sfx \<noteq> [] \<longrightarrow> list_all (\<lambda>r. length p + max 15 (length (fst r)) + length sfx < 4096) rs)"

section \<open>Characters\<close>

lemma digit_not_sep: "isdigit c \<Longrightarrow> c \<notin> {CHR ''-'', CHR '','', CHR ''['', CHR '']'', NUL}"
  by (auto simp: isdigit_iff NUL_def)

lemma number_chars:
  assumes "number s"
  shows "s \<noteq> []" "CHR ''-'' \<notin> set s" "CHR '','' \<notin> set s" "CHR ''['' \<notin> set s" "CHR '']'' \<notin> set s"
    "\<forall>c\<in>set s. isdigit c"
  using assms digit_not_sep by (auto simp: number_def list_all_iff)

lemma span_chars:
  assumes "span_ok r"
  shows "span_text r \<noteq> []" "CHR '','' \<notin> set (span_text r)" "CHR ''['' \<notin> set (span_text r)"
    "CHR '']'' \<notin> set (span_text r)"
  using assms number_chars [of "fst r"] number_chars [of "the (snd r)"]
  by (auto simp: span_ok_def span_text_def split: prod.splits option.splits)

lemma commas_chars:
  "\<forall>s\<in>set ss. c \<notin> set s \<Longrightarrow> c \<noteq> CHR '','' \<Longrightarrow> c \<notin> set (commas ss)"
  by (induction ss rule: commas.induct) auto

section \<open>Tokens\<close>

lemma tok_scan_step:
  "level \<noteq> 0 \<or> \<not> strchr sep c \<Longrightarrow>
   tok_scan sep (c # cs) level =
     (let (t, r) = tok_scan sep cs
        (if c = CHR ''['' then level + 1 else if c = CHR '']'' then level - 1 else level)
      in (c # t, r))"
  by simp

lemma tok_scan_plain:
  "plain t \<Longrightarrow> set sep \<subseteq> set HL_SEP \<Longrightarrow>
   tok_scan sep (t @ s) 0 = (let (u, r) = tok_scan sep s 0 in (t @ u, r))"
  by (induction t) (auto simp: plain_def Let_def split: prod.splits)

lemma tok_scan_inside:
  assumes "level \<noteq> 0" "CHR ''['' \<notin> set t" "CHR '']'' \<notin> set t"
  shows "tok_scan sep (t @ s) level = (let (u, r) = tok_scan sep s level in (t @ u, r))"
  using assms by (induction t) (auto simp: Let_def split: prod.splits)

lemma tok_scan_end:
  "s = [] \<or> strchr sep (hd s) \<Longrightarrow> tok_scan sep s 0 = ([], s)"
  by (cases s) auto

lemma item_text_ne: "item_ok i \<Longrightarrow> item_text i \<noteq> [] \<and> \<not> strchr HL_SEP (hd (item_text i))"
proof (cases i)
  case (Host h)
  assume "item_ok i"
  then show ?thesis using Host by (cases h) (auto simp: plain_def)
next
  case (Ranges p rs sfx)
  assume "item_ok i"
  then show ?thesis using Ranges by (cases p) (auto simp: plain_def HL_SEP_def)
qed

lemma tok_scan_item:
  assumes "item_ok i" "set sep \<subseteq> set HL_SEP" "s = [] \<or> strchr sep (hd s)"
  shows "tok_scan sep (item_text i @ s) 0 = (item_text i, s)"
proof (cases i)
  case (Host h)
  then show ?thesis using assms by (simp add: tok_scan_plain tok_scan_end)
next
  case (Ranges p rs sfx)
  then have p: "plain p" "plain sfx" and rs: "list_all span_ok rs" using assms(1) by simp_all
  have b: "CHR ''['' \<notin> set (commas (map span_text rs))" "CHR '']'' \<notin> set (commas (map span_text rs))"
    using rs span_chars by (intro commas_chars; fastforce simp: list_all_iff)+
  have nb: "\<not> strchr sep CHR ''[''" using assms(2) by (auto simp: HL_SEP_def)
  have "tok_scan sep (commas (map span_text rs) @ CHR '']'' # sfx @ s) 1 =
      (commas (map span_text rs) @ CHR '']'' # sfx, s)"
    unfolding tok_scan_inside [OF one_neq_zero b]
    using p(2) assms(2,3) by (simp add: tok_scan_plain tok_scan_end)
  then show ?thesis
    using nb p(1) assms(2) by (simp add: Ranges tok_scan_plain)
qed

lemma next_tok_item:
  assumes "item_ok i" "s = [] \<or> strchr HL_SEP (hd s)"
  shows "next_tok HL_SEP (item_text i @ s) = (Some (item_text i), dropWhile (strchr HL_SEP) s)"
proof -
  note ne = item_text_ne [OF assms(1)]
  then have "dropWhile (strchr HL_SEP) (item_text i @ s) = item_text i @ s"
    by (cases "item_text i") auto
  then show ?thesis
    using ne tok_scan_item [OF assms(1) subset_refl assms(2)] by (simp add: next_tok_def)
qed

section \<open>Ranges\<close>

definition span_range :: "span \<Rightarrow> prange" where
  "span_range r = \<lparr>rlo = of_nat (span_lo r), rhi = of_nat (span_hi r), rwidth = length (fst r)\<rparr>"

lemma unat_of_nat_small: "n < 2 ^ 64 \<Longrightarrow> unat (of_nat n :: ulong) = n"
  by (simp add: unsigned_of_nat take_bit_nat_eq_self)

lemma strtoul_number: "number s \<Longrightarrow> dec_val s < 2 ^ 64 \<Longrightarrow> strtoul s = (of_nat (dec_val s), [])"
  using strtoul_digits [of s "[]"] by (simp add: number_def list_all_iff)

lemma parse_single_span:
  assumes "span_ok r"
  shows "parse_single_range (span_text r) = Inr (span_range r)"
proof -
  obtain s t where r: "r = (s, t)" by force
  have s: "number s" and lt: "span_lo r \<le> span_hi r" "span_hi r - span_lo r < 16384" "span_hi r < 10 ^ 15"
    using assms by (simp_all add: span_ok_def r)
  note sc = number_chars [OF s]
  have lo: "strtoul s = (of_nat (span_lo r), [])"
    using strtoul_number [OF s] lt by (simp add: span_lo_def r)
  have u: "unat (of_nat (span_lo r) :: ulong) = span_lo r" "unat (of_nat (span_hi r) :: ulong) = span_hi r"
    using lt by (intro unat_of_nat_small; simp)+
  have le: "(of_nat (span_lo r) :: ulong) \<le> of_nat (span_hi r)"
    using lt(1) by (simp add: word_le_nat_alt u)
  have d: "unat (of_nat (span_hi r) - of_nat (span_lo r) :: ulong) = span_hi r - span_lo r"
    using le u by (simp add: unat_sub)
  have "(of_nat (span_hi r) - of_nat (span_lo r) :: ulong) \<noteq> ULONG_MAX"
    using d lt(2) by (intro unat_less_max) simp
  then have "unat (of_nat (span_hi r) - of_nat (span_lo r) + 1 :: ulong) \<le> 16384"
    using unat_add_one d lt(2) by simp
  then have max: "\<not> (of_nat (span_hi r) - of_nat (span_lo r) + 1 :: ulong) > MAX_RANGE"
    by (simp add: MAX_RANGE_def word_less_nat_alt)
  have le': "\<not> (of_nat (span_lo r) :: ulong) > of_nat (span_hi r)" using le by simp
  show ?thesis
  proof (cases t)
    case None
    have c: "cut_at CHR ''-'' s = (s, None)" using sc(2) by (simp add: cut_at_None)
    have "span_hi r = span_lo r" by (simp add: span_hi_def span_lo_def r None)
    then show ?thesis
      using None sc(1) c lo max le' by (simp add: parse_single_range_def span_text_def r span_range_def)
  next
    case (Some v)
    have v: "number v" using assms Some by (simp add: span_ok_def r)
    note vc = number_chars [OF v]
    have c: "cut_at CHR ''-'' (s @ CHR ''-'' # v) = (s, Some v)" using sc(2) by (simp add: cut_at_Some)
    have hi: "strtoul v = (of_nat (span_hi r), [])"
      using strtoul_number [OF v] lt by (simp add: span_hi_def r Some)
    have "hd v \<noteq> CHR ''-''" using vc(1,2) by (cases v) auto
    then show ?thesis
      using Some sc(1) vc(1) c lo hi max le' by (simp add: parse_single_range_def span_text_def r span_range_def)
  qed
qed

lemma parse_range_list_spans:
  assumes "rs \<noteq> []" "list_all span_ok rs" "count + length rs \<le> len"
  shows "parse_range_list stale (commas (map span_text rs)) len count = Inr (map span_range rs)"
  using assms
proof (induction rs arbitrary: count rule: induct_list012)
  case 1
  then show ?case by simp
next
  case (2 r)
  have "cut_at CHR '','' (span_text r) = (span_text r, None)"
    using span_chars(2) [of r] 2 by (simp add: cut_at_None)
  then show ?case
    using 2 parse_single_span [of r] by (subst parse_range_list.simps) simp
next
  case (3 r q rs)
  have c: "cut_at CHR '','' (commas (map span_text (r # q # rs))) =
      (span_text r, Some (commas (map span_text (q # rs))))"
    using span_chars(2) [of r] 3 by (simp add: cut_at_Some)
  have "parse_range_list stale (commas (map span_text (q # rs))) len (count + 1) =
      Inr (map span_range (q # rs))"
    using 3 by (intro "3.IH"(2)) simp_all
  then show ?case
    using c "3.prems" parse_single_span [of r] by (subst parse_range_list.simps) simp
qed

section \<open>Pushing the hosts of ranges\<close>

lemma span_unat:
  assumes "span_ok r"
  shows "unat (rlo (span_range r)) = span_lo r" "unat (rhi (span_range r)) = span_hi r"
  using assms unfolding span_range_def by (simp_all add: span_ok_def unat_of_nat_small)

lemma span_hosts_hr:
  assumes "span_ok r" "NUL \<notin> set p"
  defines "hr \<equiv> hostrange_create p (rlo (span_range r)) (rhi (span_range r)) (rwidth (span_range r))"
  shows "range_ok hr" "hr_hosts hr = span_hosts p [] r"
proof -
  note u = span_unat [OF assms(1)]
  have "unat (rlo (span_range r)) \<le> unat (rhi (span_range r))" "span_hi r < 10 ^ 15"
    using assms(1) by (simp_all add: u span_ok_def)
  then show "range_ok hr"
    using assms(2) by (simp add: hr_def range_ok_def hr_ok_def names_ok_def hostrange_create_def
        word_le_nat_alt u)
  show "hr_hosts hr = span_hosts p [] r"
    by (simp add: hr_def hr_hosts_def hostrange_create_def u span_hosts_def del: upt_Suc)
      (simp add: span_range_def)
qed

lemma push_range_list_spans:
  assumes "hl_ok hl" "list_all span_ok rs" "NUL \<notin> set p"
    and "length (hosts hl) + length (concat (map (span_hosts p []) rs)) < 2 ^ 31"
  shows "hl_ok (push_range_list hl p (map span_range rs)) \<and>
    hosts (push_range_list hl p (map span_range rs)) = hosts hl @ concat (map (span_hosts p []) rs)"
  using assms
proof (induction rs arbitrary: hl)
  case Nil
  then show ?case by (simp add: push_range_list_def)
next
  case (Cons r rs)
  define hr where "hr = hostrange_create p (rlo (span_range r)) (rhi (span_range r)) (rwidth (span_range r))"
  have hr: "range_ok hr" "hr_hosts hr = span_hosts p [] r"
    using span_hosts_hr [of r p] Cons.prems by (simp_all add: hr_def)
  obtain n h k where p: "hostlist_push_range hl hr = (n, h, k)" by (metis prod_cases3)
  note P = hostlist_push_range_spec [OF Cons.prems(1) hr(1) _ p]
  have h: "hl_ok h" "hosts h = hosts hl @ span_hosts p [] r"
    using P(1,2) Cons.prems(4) hr(2) by simp_all
  have "push_range_list hl p (map span_range (r # rs)) = push_range_list h p (map span_range rs)"
    by (simp add: push_range_list_def hostlist_push_hr_def hr_def [symmetric] p)
  then show ?case
    using Cons.IH [OF h(1)] Cons.prems h(2) by simp
qed

lemma push_suffix_host_spec:
  assumes "hl_ok hl" "length (hosts hl) + 1 < 2 ^ 31" "NUL \<notin> set p" "NUL \<notin> set sfx"
    and "length p + length (fmt0 w (unat j)) + length sfx < 4096"
  shows "hl_ok (push_suffix_host p sfx w j hl)"
    "hosts (push_suffix_host p sfx w j hl) = hosts hl @ [p @ fmt0 w (unat j) @ sfx]"
proof -
  define hr where "hr = hostrange_create_single (p @ fmt0 w (unat j) @ sfx)"
  have d: "NUL \<notin> set (fmt0 w (unat j))" using fmt0_digits digit_not_sep by blast
  have hr: "range_ok hr" "hr_hosts hr = [p @ fmt0 w (unat j) @ sfx]"
    using assms(3,4) d
    by (simp_all add: hr_def hostrange_create_single_def range_ok_def hr_ok_def names_ok_def hr_hosts_def)
  obtain n h k where p: "hostlist_push_range hl hr = (n, h, k)" by (metis prod_cases3)
  have tk: "take 4095 (p @ fmt0 w (unat j) @ sfx) = p @ fmt0 w (unat j) @ sfx"
    using assms(5) by (intro take_all) simp
  have e: "push_suffix_host p sfx w j hl = h"
    using p unfolding push_suffix_host_def tk hr_def by simp
  show "hl_ok (push_suffix_host p sfx w j hl)"
    "hosts (push_suffix_host p sfx w j hl) = hosts hl @ [p @ fmt0 w (unat j) @ sfx]"
    using hostlist_push_range_spec [OF assms(1) hr(1) _ p] assms(2) hr(2) by (simp_all add: e)
qed

text \<open>The loop ends and pushes every number of the interval, unless it ends at the largest one.\<close>

lemma push_suffix_loop_spec:
  assumes "hl_ok hl" "length (hosts hl) + (Suc (unat h) - unat j) < 2 ^ 31"
    and "NUL \<notin> set p" "NUL \<notin> set sfx" "unat h < 10 ^ 15"
    and "length p + max 15 w + length sfx < 4096"
  shows "\<exists>hl'. push_suffix_loop p sfx w h j hl = Some hl' \<and> hl_ok hl' \<and>
    hosts hl' = hosts hl @ map (\<lambda>n. p @ fmt0 w n @ sfx) [unat j..<Suc (unat h)]"
  using assms
proof (induction "Suc (unat h) - unat j" arbitrary: j hl)
  case 0
  then have "\<not> j \<le> h" by (simp add: word_le_nat_alt)
  then show ?case using 0 by (simp add: push_suffix_loop.simps)
next
  case (Suc m)
  then have jh: "j \<le> h" by (simp add: word_le_nat_alt)
  then have le: "unat j \<le> unat h" by (simp add: word_le_nat_alt)
  then have "unat j < 10 ^ 15" using Suc.prems(5) by simp
  then have j1: "unat (j + 1) = unat j + 1" and l15: "length (dec (unat j)) \<le> 15"
    by (simp_all only: unat_add_one [OF unat_less_max] length_dec_15)
  have len: "length p + length (fmt0 w (unat j)) + length sfx < 4096"
    using l15 Suc.prems(6) by (simp add: length_fmt0)
  have "length (hosts hl) + 1 < 2 ^ 31" using Suc.prems(2) Suc.hyps(2) by simp
  note P = push_suffix_host_spec [OF Suc.prems(1) this Suc.prems(3,4) len]
  let ?g = "push_suffix_host p sfx w j hl"
  have "\<exists>hl'. push_suffix_loop p sfx w h (j + 1) ?g = Some hl' \<and> hl_ok hl' \<and>
      hosts hl' = hosts ?g @ map (\<lambda>n. p @ fmt0 w n @ sfx) [unat (j + 1)..<Suc (unat h)]"
    using Suc.prems Suc.hyps(2) j1 P(2) by (intro Suc.hyps(1) P(1)) simp_all
  moreover have "[unat j..<Suc (unat h)] = unat j # [unat (j + 1)..<Suc (unat h)]"
    using le j1 by (simp add: upt_conv_Cons del: upt_Suc)
  moreover have "push_suffix_loop p sfx w h j hl = push_suffix_loop p sfx w h (j + 1) ?g"
    using jh by (subst push_suffix_loop.simps) simp
  ultimately show ?case using P(2) by (auto simp del: upt_Suc)
qed

lemma push_suffix_loop_forever: "push_suffix_loop p sfx w ULONG_MAX j hl = None"
proof -
  have "h = ULONG_MAX \<longrightarrow> False" if "push_suffix_loop p sfx w h j hl = Some y" for y p sfx w h j hl
  proof (rule push_suffix_loop.raw_induct [where P = "\<lambda>_ _ _ h _ _ _. h = ULONG_MAX \<longrightarrow> False", OF _ that])
    fix f pfx sfx w h j hl y
    assume IH: "\<And>pfx sfx w h j hl y. f pfx sfx w h j hl = Some y \<Longrightarrow> h = ULONG_MAX \<longrightarrow> False"
      and e: "(if j \<le> h then f pfx sfx w h (j + 1) (push_suffix_host pfx sfx w j hl) else Some hl) = Some y"
    have "j \<le> ULONG_MAX" by (simp add: ULONG_MAX_def)
    then show "h = ULONG_MAX \<longrightarrow> False" using e IH by (auto split: if_splits)
  qed
  then show ?thesis by (metis not_Some_eq)
qed

lemma push_range_list_with_suffix_spans:
  assumes "hl_ok hl" "list_all span_ok rs" "NUL \<notin> set p" "NUL \<notin> set sfx"
    and "length (hosts hl) + length (concat (map (span_hosts p sfx) rs)) < 2 ^ 31"
    and "list_all (\<lambda>r. length p + max 15 (length (fst r)) + length sfx < 4096) rs"
  shows "\<exists>hl'. push_range_list_with_suffix hl p sfx (map span_range rs) = Some hl' \<and> hl_ok hl' \<and>
    hosts hl' = hosts hl @ concat (map (span_hosts p sfx) rs)"
  using assms
proof (induction rs arbitrary: hl)
  case Nil
  then show ?case by simp
next
  case (Cons r rs)
  have r: "span_ok r" using Cons.prems by simp
  note u = span_unat [OF r]
  have len: "length (span_hosts p sfx r) = Suc (span_hi r) - span_lo r"
    by (simp add: span_hosts_def del: upt_Suc)
  have "\<exists>h. push_suffix_loop p sfx (rwidth (span_range r)) (rhi (span_range r)) (rlo (span_range r)) hl = Some h \<and>
      hl_ok h \<and> hosts h = hosts hl @ map (\<lambda>n. p @ fmt0 (rwidth (span_range r)) n @ sfx)
        [unat (rlo (span_range r))..<Suc (unat (rhi (span_range r)))]"
  proof (rule push_suffix_loop_spec)
    show "length (hosts hl) + (Suc (unat (rhi (span_range r))) - unat (rlo (span_range r))) < 2 ^ 31"
      using Cons.prems(5) len by (simp add: u)
    show "unat (rhi (span_range r)) < 10 ^ 15" using r by (simp add: u span_ok_def)
    show "length p + max 15 (rwidth (span_range r)) + length sfx < 4096"
      using Cons.prems(6) by (simp add: span_range_def)
  qed (use Cons.prems in simp_all)
  then obtain h where h: "push_suffix_loop p sfx (rwidth (span_range r)) (rhi (span_range r)) (rlo (span_range r)) hl = Some h"
      "hl_ok h" "hosts h = hosts hl @ span_hosts p sfx r"
    unfolding u span_hosts_def by (auto simp: span_range_def)
  have "\<exists>hl'. push_range_list_with_suffix h p sfx (map span_range rs) = Some hl' \<and> hl_ok hl' \<and>
      hosts hl' = hosts h @ concat (map (span_hosts p sfx) rs)"
    using Cons.prems h(2,3) by (intro Cons.IH) simp_all
  then show ?case using h by auto
qed

section \<open>Parsing the text of items\<close>

lemma plain_NUL: "plain s \<Longrightarrow> NUL \<notin> set s"
  by (auto simp: plain_def list_all_iff)

lemma plain_brackets: "plain s \<Longrightarrow> CHR ''['' \<notin> set s \<and> CHR '']'' \<notin> set s"
  by (auto simp: plain_def list_all_iff)

lemma create_token_item:
  assumes "item_ok i" "hl_ok hl" "length (hosts hl) + length (item_hosts i) < 2 ^ 31"
  shows "\<exists>hl'. create_token stale hl (item_text i) = Some (Inr hl') \<and> hl_ok hl' \<and>
    hosts hl' = hosts hl @ item_hosts i"
proof (cases i)
  case (Host h)
  then have h: "plain h" "length h < 1023" using assms(1) by simp_all
  obtain n hl' where p: "hostlist_push_host hl (Some h) = (n, hl')" by force
  have "hl_ok hl'" "hosts hl' = hosts hl @ [h]"
    using hostlist_push_host_spec [OF assms(2) plain_NUL [OF h(1)] _ p] assms(3) Host by simp_all
  moreover have "cut_at CHR ''['' h = (h, None)" using plain_brackets [OF h(1)] by (simp add: cut_at_None)
  ultimately show ?thesis
    using Host p h plain_brackets [OF h(1)] by (simp add: create_token_def cur_tok_def)
next
  case (Ranges p rs sfx)
  then have p: "plain p" "plain sfx" and rs: "list_all span_ok rs" "rs \<noteq> []" "length rs \<le> MAX_RANGES"
    using assms(1) by simp_all
  have b: "CHR '']'' \<notin> set (commas (map span_text rs))"
    using rs span_chars by (intro commas_chars; fastforce simp: list_all_iff)
  have c: "cut_at CHR ''['' (item_text i) = (p, Some (commas (map span_text rs) @ CHR '']'' # sfx))"
    "cut_at CHR '']'' (commas (map span_text rs) @ CHR '']'' # sfx) = (commas (map span_text rs), Some sfx)"
    using plain_brackets [OF p(1)] b by (simp_all add: cut_at_Some Ranges)
  have l: "parse_range_list stale (commas (map span_text rs)) MAX_RANGES 0 = Inr (map span_range rs)"
    using rs by (intro parse_range_list_spans) simp_all
  show ?thesis
  proof (cases "sfx = []")
    case True
    then have "hl_ok (push_range_list hl p (map span_range rs)) \<and>
      hosts (push_range_list hl p (map span_range rs)) = hosts hl @ item_hosts i"
      using push_range_list_spans [OF assms(2) rs(1) plain_NUL [OF p(1)]] assms(3) Ranges by simp
    then show ?thesis using c l True by (simp add: create_token_def)
  next
    case False
    then have "\<exists>hl'. push_range_list_with_suffix hl p sfx (map span_range rs) = Some hl' \<and> hl_ok hl' \<and>
        hosts hl' = hosts hl @ item_hosts i"
      using push_range_list_with_suffix_spans [OF assms(2) rs(1) plain_NUL [OF p(1)] plain_NUL [OF p(2)]]
        assms(1,3) Ranges by simp
    then show ?thesis using c l False by (auto simp: create_token_def)
  qed
qed

lemma create_tokens_end: "create_tokens stale sep hl [] = Some (Inr hl)"
  by (subst create_tokens.simps) (simp add: next_tok_def)

lemma create_tokens_items:
  assumes "list_all item_ok is" "hl_ok hl"
    and "length (hosts hl) + length (concat (map item_hosts is)) < 2 ^ 31"
  shows "\<exists>hl'. create_tokens stale HL_SEP hl (commas (map item_text is)) = Some (Inr hl') \<and> hl_ok hl' \<and>
    hosts hl' = hosts hl @ concat (map item_hosts is)"
  using assms
proof (induction "is" arbitrary: hl rule: induct_list012)
  case 1
  then show ?case by (simp add: create_tokens_end)
next
  case (2 i)
  have "\<exists>hl'. create_token stale hl (item_text i) = Some (Inr hl') \<and> hl_ok hl' \<and>
      hosts hl' = hosts hl @ item_hosts i"
    using 2 by (intro create_token_item) simp_all
  moreover have "next_tok HL_SEP (item_text i) = (Some (item_text i), [])"
    using next_tok_item [of i "[]"] 2 by simp
  ultimately show ?case
    by (subst create_tokens.simps) (auto simp: create_tokens_end)
next
  case (3 i j "is")
  have "\<exists>hl'. create_token stale hl (item_text i) = Some (Inr hl') \<and> hl_ok hl' \<and>
      hosts hl' = hosts hl @ item_hosts i"
    using "3.prems" by (intro create_token_item) simp_all
  then obtain h where h: "create_token stale hl (item_text i) = Some (Inr h)" "hl_ok h"
      "hosts h = hosts hl @ item_hosts i" by blast
  let ?r = "commas (map item_text (j # is))"
  have ne: "item_text j \<noteq> [] \<and> \<not> strchr HL_SEP (hd (item_text j))"
    using "3.prems" by (intro item_text_ne) simp
  then have "?r \<noteq> [] \<and> \<not> strchr HL_SEP (hd ?r)" by (cases "is") auto
  then have d: "dropWhile (strchr HL_SEP) ?r = ?r" by (cases ?r) auto
  have cm: "strchr HL_SEP CHR '',''" by (simp add: HL_SEP_def)
  have "next_tok HL_SEP (item_text i @ CHR '','' # ?r) = (Some (item_text i), ?r)"
    using next_tok_item [of i "CHR '','' # ?r"] "3.prems"(1) cm d by simp
  then have "create_tokens stale HL_SEP hl (commas (map item_text (i # j # is))) =
      create_tokens stale HL_SEP h ?r"
    using h(1) by (subst create_tokens.simps) simp
  moreover have "\<exists>hl'. create_tokens stale HL_SEP h ?r = Some (Inr hl') \<and> hl_ok hl' \<and>
      hosts hl' = hosts h @ concat (map item_hosts (j # is))"
    using "3.prems" h by (intro "3.IH"(2)) simp_all
  ultimately show ?case using h(3) by simp
qed

lemma hostlist_create_items:
  assumes "list_all item_ok is" "length (concat (map item_hosts is)) < 2 ^ 31"
  shows "\<exists>hl. hostlist_create stale (Some (commas (map item_text is))) = Some (Inr hl) \<and> hl_ok hl \<and>
    hosts hl = concat (map item_hosts is)"
  using create_tokens_items [OF assms(1), of hostlist_new stale] assms(2)
  by (simp add: hostlist_create_def hostlist_create_bracketed_def)

section \<open>Pushing and deleting a string of hosts\<close>

lemma hostlist_push_items:
  assumes "hl_ok hl" "list_all item_ok is"
    and "length (hosts hl) + length (concat (map item_hosts is)) < 2 ^ 31"
  shows "\<exists>hl'. hostlist_push stale hl (Some (commas (map item_text is))) =
      Some (int (length (concat (map item_hosts is))), hl') \<and> hl_ok hl' \<and>
    hosts hl' = hosts hl @ concat (map item_hosts is)"
proof -
  obtain new where new: "hostlist_create stale (Some (commas (map item_text is))) = Some (Inr new)"
      "hl_ok new" "hosts new = concat (map item_hosts is)"
    using hostlist_create_items [OF assms(2)] assms(3) by fastforce
  obtain n h k where p: "hostlist_push_list hl (Some new) = (n, h, k)" by (metis prod_cases3)
  have "hl_ok h" "hosts h = hosts hl @ hosts new"
    using hostlist_push_list_spec [OF assms(1) new(2) _ p] assms(3) new(3) by simp_all
  then show ?thesis
    using new p hl_okD(2) [OF new(2)] by (simp add: hostlist_push_def)
qed

text \<open>
  Each host popped off the second list removes its first occurrence from the first one.
\<close>

lemma delete_popped_spec:
  assumes "hl_ok hl" "hl_ok tmp" "\<forall>h\<in>set (hosts tmp). NUL \<notin> set h \<and> findable h"
    and "delete_popped hl tmp n = (n', hl')"
  shows "hl_ok hl' \<and> hosts hl' = fold remove1 (rev (hosts tmp)) (hosts hl) \<and>
    n' = n + int (length (hosts hl)) - int (length (hosts hl'))"
  using assms
proof (induction "length (hosts tmp)" arbitrary: hl tmp n)
  case 0
  then have "delete_popped hl tmp n = (n, hl)"
    by (subst delete_popped.simps) (simp add: hostlist_pop_empty)
  then show ?case using 0 by simp
next
  case (Suc m)
  have ne: "hosts tmp \<noteq> []" using Suc.hyps(2) by auto
  obtain host tmp' where p: "hostlist_pop tmp = (host, tmp')" by force
  note P = hostlist_pop_spec [OF Suc.prems(2) ne p]
  define x where "x = last (hosts tmp)"
  have x: "NUL \<notin> set x" "findable x" using Suc.prems(3) ne by (simp_all add: x_def)
  obtain k h where d: "hostlist_delete_host hl x = (k, h)" by force
  note D = hostlist_delete_host_spec [OF Suc.prems(1) x d]
  have "delete_popped hl tmp n = delete_popped h tmp' (n + k)"
    by (subst delete_popped.simps) (simp add: p P(1) x_def [symmetric] d)
  then have "hl_ok hl' \<and> hosts hl' = fold remove1 (rev (hosts tmp')) (hosts h) \<and>
      n' = n + k + int (length (hosts h)) - int (length (hosts hl'))"
    using Suc.prems(3,4) Suc.hyps(2) P(2) by (intro Suc.hyps(1) D(3) P(3)) (auto dest: in_set_butlastD)
  moreover have "rev (hosts tmp) = x # rev (hosts tmp')"
    using ne P(2) unfolding x_def by (metis append_butlast_last_id rev_eq_Cons_iff rev_rev_ident)
  moreover have "k = int (length (hosts hl)) - int (length (hosts h))"
    using D(1,2) length_pos_if_in_set [of x "hosts hl"]
    by (cases "x \<in> set (hosts hl)") (simp_all add: length_remove1 remove1_idem of_nat_diff Suc_le_eq)
  ultimately show ?case using D(2) by simp
qed

lemma hostlist_delete_items:
  assumes "hl_ok hl" "list_all item_ok is" "length (concat (map item_hosts is)) < 2 ^ 31"
    and "\<forall>h\<in>set (concat (map item_hosts is)). NUL \<notin> set h \<and> findable h"
  shows "\<exists>n hl'. hostlist_delete stale hl (Some (commas (map item_text is))) = Some (n, hl') \<and> hl_ok hl' \<and>
    hosts hl' = fold remove1 (rev (concat (map item_hosts is))) (hosts hl) \<and>
    n = int (length (hosts hl)) - int (length (hosts hl'))"
proof -
  obtain new where new: "hostlist_create stale (Some (commas (map item_text is))) = Some (Inr new)"
      "hl_ok new" "hosts new = concat (map item_hosts is)"
    using hostlist_create_items [OF assms(2,3)] by fastforce
  obtain n hl' where d: "delete_popped hl new 0 = (n, hl')" by force
  have "hl_ok hl' \<and> hosts hl' = fold remove1 (rev (hosts new)) (hosts hl) \<and>
      n = 0 + int (length (hosts hl)) - int (length (hosts hl'))"
    using assms(4) new(3) by (intro delete_popped_spec [OF assms(1) new(2) _ d]) simp
  then show ?thesis using new d by (simp add: hostlist_delete_def)
qed

section \<open>Errors\<close>

lemma create_token_unbalanced:
  assumes "CHR ''['' \<in> set tok" "CHR '']'' \<notin> set tok"
  shows "create_token stale hl tok = Some (Inl EINVAL)"
proof -
  obtain u v where c: "cut_at CHR ''['' tok = (u, Some v)"
    using assms(1) by (simp add: cut_at_def)
  then have "tok = u @ CHR ''['' # v" by (simp add: cut_at_Some)
  then have "cut_at CHR '']'' v = (v, None)" using assms(2) by (simp add: cut_at_None)
  then show ?thesis by (simp add: create_token_def c)
qed

text \<open>A range that is accepted has at most \<open>MAX_RANGE\<close> hosts, or all of them.\<close>

lemma parse_single_range_bounds:
  assumes "parse_single_range str = Inr r"
  shows "rlo r \<le> rhi r" "unat (rhi r) - unat (rlo r) < 16384 \<or> rlo r = 0 \<and> rhi r = ULONG_MAX"
proof -
  have r: "\<not> rhi r < rlo r" "\<not> rhi r - rlo r + 1 > MAX_RANGE"
    using assms by (auto simp: parse_single_range_def Let_def split: if_splits prod.splits)
  then show le: "rlo r \<le> rhi r" by simp
  show "unat (rhi r) - unat (rlo r) < 16384 \<or> rlo r = 0 \<and> rhi r = ULONG_MAX"
  proof (cases "rhi r - rlo r = ULONG_MAX")
    case True
    then have e: "unat (rhi r) - unat (rlo r) = unat ULONG_MAX" using le by (simp add: unat_sub [symmetric])
    have "unat (rhi r) \<le> unat ULONG_MAX" by (simp add: ULONG_MAX_def word_le_nat_alt [symmetric])
    moreover have "unat ULONG_MAX > 0" by (simp add: ULONG_MAX_def unat_gt_0)
    ultimately have "unat (rlo r) = 0" "unat (rhi r) = unat ULONG_MAX" using e by linarith+
    then have "rlo r = 0" "rhi r = ULONG_MAX"
      by (simp_all only: unat_eq_zero word_unat_eq_iff)
    then show ?thesis by blast
  next
    case False
    then have "unat (rhi r - rlo r + 1) = unat (rhi r) - unat (rlo r) + 1"
      using le by (simp add: unat_add_one unat_sub)
    then show ?thesis using r(2) by (simp add: MAX_RANGE_def word_less_nat_alt)
  qed
qed

end
