(* ===== verification/Hostlist_Print.thy ===== *)
theory Hostlist_Print
  imports Hostlist_Syntax
begin

text \<open>
  Printing host lists into buffers, with and without brackets, and the operations that take a
  whole bracketed range off a list.

  A function that prints into a buffer of \<open>n\<close> bytes is modelled by the length it returns
  and the string it leaves in the buffer. Lengths do not exceed an \<open>int\<close>.
\<close>

section \<open>Bracketed strings\<close>

text \<open>
  The text that is written; \<open>snprintf\<close> returns its length even when it does not fit.
\<close>

definition hostrange_numstr :: "hostrange \<Rightarrow> nat \<Rightarrow> string" where
  "hostrange_numstr hr n =
    (if singlehost hr \<or> n = 0 then []
     else
       let s = fmt0 (width hr) (unat (lo hr))
       in if length s < n \<and> lo hr < hi hr
          then s @ CHR ''-'' # fmt0 (width hr) (unat (hi hr)) else s)"

definition is_bracket_needed :: "hostrange list \<Rightarrow> nat \<Rightarrow> bool" where
  "is_bracket_needed rs i =
    (let h1 = rs ! i;
         h2 = (if i + 1 < length rs then Some (rs ! (i + 1)) else None)
     in hostrange_count h1 > 1 \<or> hostrange_within_range (Some h1) h2)"

text \<open>
  The \<open>do\<close> loop of \<open>_get_bracketed_list\<close>, at range \<open>r\<close> with \<open>rs\<close> after it: the
  number of ranges it passes, and the text so far, which may have outgrown the buffer.
\<close>

fun bracket_loop :: "hostrange \<Rightarrow> hostrange list \<Rightarrow> nat \<Rightarrow> bool \<Rightarrow> string \<Rightarrow> nat \<times> string" where
  "bracket_loop r rs n bracket text =
    (let text = text @ hostrange_numstr r (n - length text)
     in if length text \<ge> n then (0, text)
        else
          let text = (if bracket then text @ '','' else text)
          in case rs of
               [] \<Rightarrow> (1, text)
             | q # qs \<Rightarrow>
                 if hostrange_within_range (Some q) (Some r) then
                   let (k, text) = bracket_loop q qs n bracket text in (k + 1, text)
                 else (1, text))"

text \<open>
  \<open>_get_bracketed_list\<close> on the ranges from \<open>*start\<close> on: how far \<open>*start\<close> is
  advanced, the length returned and the string in the buffer.
\<close>

definition get_bracketed_list :: "hostrange list \<Rightarrow> nat \<Rightarrow> nat \<times> nat \<times> string" where
  "get_bracketed_list rs n =
    (let bracket = is_bracket_needed rs 0;
         text = prefix (hd rs)
     in if length text > n then (0, n, take (n - 1) text)
        else
          let text = (if bracket \<and> length text < n then text @ ''['' else text);
              (k, text) = bracket_loop (hd rs) (tl rs) n bracket text
          in if bracket \<and> length text < n \<and> length text > 0
             then (k, length text, butlast text @ '']'')
             else if length text \<ge> n then (k, length text, take (n - 1) text)
             else (k, length text, text))"

lemma bracket_loop_progress:
  "bracket_loop r rs n br text = (k, t) \<Longrightarrow> 0 < k \<or> n \<le> length t"
  by (cases rs) (auto simp: Let_def split: if_splits prod.splits)

declare bracket_loop.simps [simp del]

lemma get_bracketed_progress:
  assumes "get_bracketed_list rs n = (k, m, s)"
  shows "0 < k \<or> n \<le> m"
proof -
  define t0 where "t0 = (if is_bracket_needed rs 0 \<and> length (prefix (hd rs)) < n
      then prefix (hd rs) @ ''['' else prefix (hd rs))"
  obtain k' t where b: "bracket_loop (hd rs) (tl rs) n (is_bracket_needed rs 0) t0 = (k', t)" by force
  have e: "(k, m, s) = (if length (prefix (hd rs)) > n then (0, n, take (n - 1) (prefix (hd rs)))
      else if is_bracket_needed rs 0 \<and> length t < n \<and> length t > 0 then (k', length t, butlast t @ '']'')
      else if length t \<ge> n then (k', length t, take (n - 1) t) else (k', length t, t))"
    using assms by (simp only: get_bracketed_list_def Let_def t0_def [symmetric] b case_prod_conv)
  show ?thesis using e bracket_loop_progress [OF b] by (auto split: if_splits)
qed

lemma ranged_loop_measure:
  assumes "rs \<noteq> []" "len < n" "get_bracketed_list rs (n - len) = (k, m, s)"
  shows "length rs - k + (n - (len + m)) < length rs + (n - len)"
proof -
  have "0 < k \<or> n - len \<le> m" using get_bracketed_progress [OF assms(3)] .
  moreover have "0 < length rs" using assms(1) by simp
  ultimately show ?thesis using assms(2) by linarith
qed

text \<open>The loop of \<open>hostlist_ranged_string\<close>\<close>

function ranged_loop :: "hostrange list \<Rightarrow> nat \<Rightarrow> nat \<Rightarrow> string \<Rightarrow> nat \<times> string" where
  "ranged_loop rs n len text =
    (if rs \<noteq> [] \<and> len < n then
       let (k, m, s) = get_bracketed_list rs (n - len);
           len = len + m;
           rs = drop k rs
       in if len > 0 \<and> len < n \<and> rs \<noteq> [] then ranged_loop rs n (len + 1) (text @ s @ '','')
          else ranged_loop rs n len (text @ s)
     else (len, text))"
  by pat_completeness auto
termination
proof (relation "measure (\<lambda>(rs, n, len, _). length rs + (n - len))", goal_cases)
  case (2 rs n len t x k y m s)
  then have "length rs - k + (n - (len + m)) < length rs + (n - len)"
    by (intro ranged_loop_measure [of rs len n k m s]) simp_all
  then show ?case using 2 by simp
next
  case (3 rs n len t x k y m s)
  then have "length rs - k + (n - (len + m)) < length rs + (n - len)"
    by (intro ranged_loop_measure [of rs len n k m s]) simp_all
  then show ?case using 3 by simp
qed simp

declare ranged_loop.simps [simp del]

definition hostlist_ranged_string :: "hostlist \<Rightarrow> nat \<Rightarrow> int \<times> string" where
  "hostlist_ranged_string hl n =
    (let (len, text) = ranged_loop (hranges hl) n 0 []
     in if len \<ge> n then (-1, take (n - 1) text) else (int len, text))"

section \<open>Taking off a bracketed range\<close>

text \<open>
  The ranges taken are pushed on a temporary list, and the number of ranges there is subtracted
  from that of \<open>hl\<close>. It is smaller than the number taken when a push merges two adjacent
  ranges; \<open>hl\<close> is then left with null entries, or with freed ones: \<open>None\<close>.
\<close>

definition hostlist_pop_range :: "hostlist \<Rightarrow> (string option \<times> hostlist) option" where
  "hostlist_pop_range hl =
    (let rs = hranges hl
     in if rs = [] then Some (None, hl)
        else
          let k = length (takeWhile (\<lambda>r. hostrange_within_range (Some (last rs)) (Some r)) (tl (rev rs)));
              i = length rs - 1 - k;
              (_, hltmp, _) = push_ranges hostlist_new (drop i rs) 0
          in if length (hranges hltmp) \<noteq> k + 1 then None
             else Some (Some (snd (hostlist_ranged_string hltmp 1024)),
                        hl\<lparr>hranges := take i rs, nhosts := nhosts hl - nhosts hltmp,
                           ilist := map (\<lambda>it. if hidx it \<ge> int i then it\<lparr>hfresh := False\<rparr> else it)
                                      (ilist hl)\<rparr>))"

text \<open>The loop of \<open>hostlist_shift_range\<close>: the ranges left and the temporary list\<close>

fun shift_range_loop :: "hostrange \<Rightarrow> hostrange list \<Rightarrow> hostlist \<Rightarrow> hostrange list \<times> hostlist" where
  "shift_range_loop r rs hltmp =
    (let (_, hltmp, _) = hostlist_push_range hltmp r
     in case rs of
          [] \<Rightarrow> ([], hltmp)
        | q # qs \<Rightarrow>
            if hostrange_within_range (Some (hd (hranges hltmp))) (Some q)
            then shift_range_loop q qs hltmp else (rs, hltmp))"

text \<open>
  The iterators are given the entries of the array before these are moved down, or ones that
  have been freed.
\<close>

definition hostlist_shift_range :: "hostlist \<Rightarrow> (string option \<times> hostlist) option" where
  "hostlist_shift_range hl =
    (case hranges hl of
       [] \<Rightarrow> Some (None, hl)
     | r # rs \<Rightarrow>
         let (rest, hltmp) = shift_range_loop r rs hostlist_new;
             i = length (r # rs) - length rest;
             n = length (hranges hltmp);
             hl = hostlist_shift_iterators hl (int i) 0 (int n)
         in if n \<noteq> i then None
            else Some (Some (snd (hostlist_ranged_string hltmp 1024)),
                       hl\<lparr>hranges := rest, nhosts := nhosts hl - nhosts hltmp,
                          ilist := map (\<lambda>it. it\<lparr>hfresh := False\<rparr>) (ilist hl)\<rparr>))"

declare shift_range_loop.simps [simp del]

section \<open>Plain strings\<close>

text \<open>The loop of \<open>hostrange_to_string\<close>; \<open>None\<close> is a write before the buffer.\<close>

function to_string_loop :: "hostrange \<Rightarrow> nat \<Rightarrow> char \<Rightarrow> ulong \<Rightarrow> string \<Rightarrow> (int \<times> string) option" where
  "to_string_loop hr n sep i text =
    (if i \<le> hi hr then
       let m = n - length text;
           s = prefix hr @ fmt0 (width hr) (unat i)
       in if length s \<ge> m then Some (-1, take (n - 1) (text @ s))
          else to_string_loop hr n sep (i + 1) (text @ s @ [sep])
     else if text = [] then None
     else Some (int (length text) - 1, butlast text))"
  by pat_completeness auto
termination
  by (relation "measure (\<lambda>(_, n, _, _, text). n - length text)") auto

definition hostrange_to_string :: "hostrange \<Rightarrow> nat \<Rightarrow> string option \<Rightarrow> (int \<times> string) option" where
  "hostrange_to_string hr n separator =
    (let sep = (case separator of None \<Rightarrow> CHR '','' | Some s \<Rightarrow> hd s)
     in if n = 0 then Some (0, [])
        else if singlehost hr then Some (int (length (prefix hr)), take (n - 1) (prefix hr))
        else to_string_loop hr n sep (lo hr) [])"

text \<open>
  The loop of \<open>hostlist_deranged_string\<close>: whether it stopped early, and the text. The
  comma after each range is written without a look at the size of the buffer; \<open>None\<close> is
  a write outside of it.
\<close>

fun deranged_loop :: "hostrange list \<Rightarrow> nat \<Rightarrow> string \<Rightarrow> (bool \<times> string) option" where
  "deranged_loop [] n text = Some (False, text)"
| "deranged_loop (r # rs) n text =
    (let m = n - length text
     in case hostrange_to_string r m (Some '','') of
          None \<Rightarrow> None
        | Some (ret, s) \<Rightarrow>
            if ret < 0 \<or> ret > int m then Some (True, text @ s)
            else if int (length text) + ret \<ge> int n then None
            else deranged_loop rs n (text @ s @ '',''))"

definition hostlist_deranged_string :: "hostlist \<Rightarrow> nat \<Rightarrow> (int \<times> string) option" where
  "hostlist_deranged_string hl n =
    (if n = 0 then None
     else
       map_option (\<lambda>(truncated, text).
         if truncated then (-1, take (n - 1) text) else (int (length (butlast text)), butlast text))
       (deranged_loop (hranges hl) n []))"

declare to_string_loop.simps [simp del]

end
