(* ===== verification/Hostlist_Roundtrip.thy ===== *)
theory Hostlist_Roundtrip
  imports Hostlist_Print
begin

text \<open>
  What the printing functions print: the reference text of a list, its truncation to the buffer,
  and the round trip: the bracketed string of a list parses back to the same hosts.
\<close>

section \<open>The reference text\<close>

definition numtext :: "hostrange \<Rightarrow> string" where
  "numtext r =
    (if singlehost r then []
     else fmt0 (width r) (unat (lo r)) @
       (if lo r < hi r then CHR ''-'' # fmt0 (width r) (unat (hi r)) else []))"

text \<open>The ranges that go into one pair of brackets, and the rest\<close>

fun group :: "hostrange \<Rightarrow> hostrange list \<Rightarrow> hostrange list \<times> hostrange list" where
  "group r [] = ([r], [])"
| "group r (q # qs) =
    (if hostrange_within_range (Some q) (Some r)
     then let (g, rest) = group q qs in (r # g, rest) else ([r], q # qs))"

definition bracketed :: "hostrange list \<Rightarrow> bool" where
  "bracketed g \<longleftrightarrow> hostrange_count (hd g) > 1 \<or> length g > 1"

definition group_text :: "hostrange list \<Rightarrow> string" where
  "group_text g = prefix (hd g) @
    (if bracketed g then CHR ''['' # commas (map numtext g) @ '']'' else numtext (hd g))"

lemma group_split: "group r rs = (g, rest) \<Longrightarrow> r # rs = g @ rest \<and> g \<noteq> [] \<and> hd g = r"
  by (induction r rs arbitrary: g rest rule: group.induct)
    (auto simp: Let_def split: if_splits prod.splits)

lemma group_Cons: "group r rs = (g, rest) \<Longrightarrow> g = r # tl g"
  using group_split [of r rs g rest] by (metis list.collapse)

function groups :: "hostrange list \<Rightarrow> hostrange list list" where
  "groups [] = []"
| "groups (r # rs) = (let (g, rest) = group r rs in g # groups rest)"
  by pat_completeness auto
termination
proof (relation "measure length", goal_cases)
  case (2 r rs x g rest)
  then have "length (r # rs) = length (g @ rest)" "g \<noteq> []" using group_split [of r rs g rest] by auto
  then show ?case by (cases g) auto
qed simp

lemma concat_groups: "concat (groups rs) = rs"
  by (induction rs rule: groups.induct) (auto dest!: group_split split: prod.splits)

definition ranged_text :: "hostrange list \<Rightarrow> string" where
  "ranged_text rs = commas (map group_text (groups rs))"

section \<open>The bracketed string is the reference text\<close>

lemma take_eq_shorter: "take n a = take n b \<Longrightarrow> m \<le> n \<Longrightarrow> take m a = take m b"
  by (metis min.absorb1 take_take)

lemma numstr_fits: "length (numtext r) < n \<Longrightarrow> hostrange_numstr r n = numtext r"
  by (auto simp: numtext_def hostrange_numstr_def Let_def split: if_splits)

lemma numstr_truncated:
  "n \<le> length (numtext r) \<Longrightarrow>
   n \<le> length (hostrange_numstr r n) \<and> take n (hostrange_numstr r n) = take n (numtext r)"
  by (auto simp: numtext_def hostrange_numstr_def Let_def)

lemma within_range_sym: "hostrange_within_range (Some a) (Some b) = hostrange_within_range (Some b) (Some a)"
  using strcmp_sym [of "prefix a" "prefix b"]
  by (auto simp: hostrange_within_range_def hostrange_prefix_cmp_def Let_def)

lemma within_range_None [simp]: "\<not> hostrange_within_range (Some a) None"
  by (simp add: hostrange_within_range_def hostrange_prefix_cmp_def)

lemma is_bracket_needed_group:
  assumes "group r rs = (g, rest)"
  shows "is_bracket_needed (r # rs) 0 = bracketed g"
proof -
  have "1 < length g \<longleftrightarrow> (\<exists>q qs. rs = q # qs \<and> hostrange_within_range (Some r) (Some q))"
  proof (cases rs)
    case (Cons q qs)
    then show ?thesis
      using assms within_range_sym [of r q] group_split [of q qs]
      by (auto simp: Suc_lessI split: if_splits prod.splits)
  qed (use assms in auto)
  moreover have "hd g = r" using group_split [OF assms] by simp
  ultimately show ?thesis
    by (cases rs) (auto simp: is_bracket_needed_def bracketed_def)
qed

lemma bracket_loop_step:
  assumes "length (t0 @ numtext r) < n"
  shows "bracket_loop r rs n br t0 =
    (let t = t0 @ numtext r @ (if br then '','' else [])
     in case rs of
          [] \<Rightarrow> (1, t)
        | q # qs \<Rightarrow>
            if hostrange_within_range (Some q) (Some r)
            then let (k, t) = bracket_loop q qs n br t in (k + 1, t) else (1, t))"
proof -
  have "hostrange_numstr r (n - length t0) = numtext r"
    using assms by (intro numstr_fits) simp
  then show ?thesis
    using assms by (subst bracket_loop.simps) (simp add: Let_def split: list.splits)
qed

lemma bracket_loop_stop:
  assumes "n \<le> length (t0 @ numtext r)"
  shows "\<exists>t. bracket_loop r rs n br t0 = (0, t) \<and> n \<le> length t \<and>
    (\<forall>u. take n t = take n (t0 @ numtext r @ u))"
proof -
  let ?t = "t0 @ hostrange_numstr r (n - length t0)"
  have s: "n - length t0 \<le> length (hostrange_numstr r (n - length t0))"
    "take (n - length t0) (hostrange_numstr r (n - length t0)) = take (n - length t0) (numtext r)"
    using numstr_truncated [of "n - length t0" r] assms by simp_all
  then have "n \<le> length ?t" "take n ?t = take n (t0 @ numtext r @ u)" for u
    using assms by simp_all
  then show ?thesis
    by (subst bracket_loop.simps) (auto simp: Let_def)
qed

lemma bracket_loop_group:
  assumes "group r rs = (g, rest)" "bracket_loop r rs n True t0 = (k, t)"
  shows "(length (t0 @ commas (map numtext g)) < n \<longrightarrow>
      k = length g \<and> t = t0 @ commas (map numtext g) @ '','') \<and>
    (n \<le> length (t0 @ commas (map numtext g)) \<longrightarrow>
      n \<le> length t \<and> take n t = take n (t0 @ commas (map numtext g)))"
  using assms
proof (induction rs arbitrary: r g t0 k t)
  case Nil
  then have g: "g = [r]" by simp
  show ?case
  proof (cases "length (t0 @ numtext r) < n")
    case True
    then show ?thesis using Nil.prems(2) bracket_loop_step [OF True, of "[]" True] g by simp
  next
    case False
    then obtain t' where "bracket_loop r [] n True t0 = (0, t')" "n \<le> length t'"
        "\<forall>u. take n t' = take n (t0 @ numtext r @ u)"
      using bracket_loop_stop [of n t0 r "[]" True] by auto
    then show ?thesis using Nil.prems(2) False spec [of _ "[]"] g by fastforce
  qed
next
  case (Cons q qs)
  show ?case
  proof (cases "length (t0 @ numtext r) < n")
    case fits: True
    show ?thesis
    proof (cases "hostrange_within_range (Some q) (Some r)")
      case True
      obtain g2 where g2: "group q qs = (g2, rest)" "g = r # g2"
        using Cons.prems(1) True by (auto split: prod.splits)
      obtain k2 where k2: "bracket_loop q qs n True (t0 @ numtext r @ '','') = (k2, t)" "k = k2 + 1"
        using Cons.prems(2) True bracket_loop_step [OF fits, of "q # qs" True]
        by (auto split: prod.splits)
      have "g2 \<noteq> []" using group_split [OF g2(1)] by simp
      then have c: "commas (map numtext g) = numtext r @ CHR '','' # commas (map numtext g2)"
        using g2(2) by (cases g2) simp_all
      have lg: "length g = length g2 + 1" using g2(2) by simp
      show ?thesis
        using Cons.IH [OF g2(1) k2(1)] k2(2) lg by (simp add: c)
    next
      case False
      then show ?thesis
        using Cons.prems fits bracket_loop_step [OF fits, of "q # qs" True] by auto
    qed
  next
    case False
    then obtain t' where t': "bracket_loop r (q # qs) n True t0 = (0, t')" "n \<le> length t'"
        "\<forall>u. take n t' = take n (t0 @ numtext r @ u)"
      using bracket_loop_stop [of n t0 r "q # qs" True] by auto
    obtain u where u: "commas (map numtext g) = numtext r @ u"
    proof (cases "tl g")
      case Nil
      then have "g = [r]" using group_Cons [OF Cons.prems(1)] by simp
      then show thesis using that [of "[]"] by simp
    next
      case (Cons a list)
      then have "g = r # a # list" using group_Cons [OF Cons.prems(1)] by simp
      then show thesis using that by simp
    qed
    show ?thesis
      using t' Cons.prems(2) False unfolding u by auto
  qed
qed

lemma get_bracketed_group:
  assumes "group r rs = (g, rest)" "0 < n" "get_bracketed_list (r # rs) n = (k, m, s)"
  shows "if length (group_text g) < n then k = length g \<and> m = length (group_text g) \<and> s = group_text g
    else n \<le> m \<and> s = take (n - 1) (group_text g)"
proof -
  note G = group_split [OF assms(1)]
  define t0 where "t0 = (if bracketed g \<and> length (prefix r) < n then prefix r @ ''['' else prefix r)"
  obtain k' t where b: "bracket_loop r rs n (bracketed g) t0 = (k', t)" by force
  have e: "(k, m, s) = (if length (prefix r) > n then (0, n, take (n - 1) (prefix r))
      else if bracketed g \<and> length t < n \<and> length t > 0 then (k', length t, butlast t @ '']'')
      else if length t \<ge> n then (k', length t, take (n - 1) t) else (k', length t, t))"
    using assms(3) by (simp only: get_bracketed_list_def Let_def is_bracket_needed_group [OF assms(1)]
        list.sel t0_def [symmetric] b case_prod_conv)
  show ?thesis
  proof (cases "length (prefix r) > n")
    case True
    then show ?thesis using e G by (simp add: group_text_def)
  next
    case short: False
    show ?thesis
    proof (cases "bracketed g")
      case False
      then have "tl g = []" using group_Cons [OF assms(1)] by (cases "tl g") (auto simp: bracketed_def)
      then have g: "g = [r]" using group_Cons [OF assms(1)] by simp
      have gt: "group_text g = prefix r @ numtext r" using False g by (simp add: group_text_def)
      have nw: "\<not> (\<exists>q qs. rs = q # qs \<and> hostrange_within_range (Some q) (Some r))"
      proof (cases rs)
        case (Cons q qs)
        obtain g2 rest2 where g2: "group q qs = (g2, rest2)" by force
        then have "g2 \<noteq> []" using group_split [OF g2] by simp
        then show ?thesis using assms(1) g g2 Cons by (auto split: if_splits)
      qed simp
      show ?thesis
      proof (cases "length (t0 @ numtext r) < n")
        case True
        then have "k' = 1 \<and> t = prefix r @ numtext r"
          using b False nw bracket_loop_step [OF True, of rs False]
          by (cases rs) (auto simp: t0_def)
        then show ?thesis using e short False True g gt by (simp add: t0_def)
      next
        case long: False
        then have "n \<le> length (t0 @ numtext r)" by simp
        then obtain t' where t': "bracket_loop r rs n False t0 = (0, t')" "n \<le> length t'"
            "\<forall>u. take n t' = take n (t0 @ numtext r @ u)"
          using bracket_loop_stop by blast
        have "t' = t" using t'(1) b False by simp
        then have t: "n \<le> length t" "take n t = take n (t0 @ numtext r @ [])"
          using t'(2) spec [OF t'(3), of "[]"] by simp_all
        have t0: "t0 = prefix r" using False by (simp add: t0_def)
        have "take (n - 1) t = take (n - 1) (prefix r @ numtext r)"
          using take_eq_shorter [OF t(2), of "n - 1"] by (simp add: t0)
        then show ?thesis using e short False long t(1) gt by (simp add: t0)
      qed
    next
      case br: True
      let ?C = "commas (map numtext g)"
      have gt: "group_text g = prefix r @ CHR ''['' # ?C @ '']''" using br G by (simp add: group_text_def)
      note L = bracket_loop_group [OF assms(1) b [unfolded eqTrueI [OF br]]]
      show ?thesis
      proof (cases "length (t0 @ ?C) < n")
        case True
        then have p: "length (prefix r) < n" using short by (auto simp: t0_def split: if_splits)
        then have t: "k' = length g" "t = prefix r @ CHR ''['' # ?C @ '',''"
          using L True br by (simp_all add: t0_def)
        show ?thesis
        proof (cases "length t < n")
          case True
          then show ?thesis using e short br t gt by (simp add: butlast_append)
        next
          case False
          define X where "X = prefix r @ CHR ''['' # ?C"
          have n1: "n - 1 = length X"
            using False True p br t(2) by (simp add: X_def t0_def)
          have X: "t = X @ '',''" "group_text g = X @ '']''" by (simp_all add: X_def t(2) gt)
          have "take (n - 1) t = take (n - 1) (group_text g)" unfolding X n1 by simp
          then show ?thesis using e short br False t(2) gt by simp
        qed
      next
        case False
        then have t: "n \<le> length t" "take n t = take n (t0 @ ?C)" using L by simp_all
        have "take (n - 1) t = take (n - 1) (t0 @ ?C)"
          using take_eq_shorter [OF t(2), of "n - 1"] by simp
        also have "\<dots> = take (n - 1) (group_text g)"
          using False short assms(2) br by (auto simp: t0_def gt take_Cons')
        finally show ?thesis using e short t False br by (auto simp: t0_def gt split: if_splits)
      qed
    qed
  qed
qed

lemma group_text_ne: "prefix (hd g) \<noteq> [] \<Longrightarrow> group_text g \<noteq> []"
  by (simp add: group_text_def)

lemma commas_Cons: "ss \<noteq> [] \<Longrightarrow> commas (s # ss) = s @ CHR '','' # commas ss"
  by (cases ss) simp_all

lemma groups_ne: "groups rs = [] \<longleftrightarrow> rs = []"
  by (cases rs) (auto split: prod.splits)

lemma ranged_text_Cons:
  assumes "group r rs = (g, rest)"
  shows "ranged_text (r # rs) = group_text g @ (if rest = [] then [] else CHR '','' # ranged_text rest)"
  using assms by (simp add: ranged_text_def commas_Cons groups_ne)

text \<open>The loop prints the reference text, or fills the buffer with what fits of it.\<close>

lemma ranged_loop_text:
  assumes "list_all (\<lambda>r. prefix r \<noteq> []) rs" "length t0 = len"
  shows "if length (t0 @ ranged_text rs) < n
    then ranged_loop rs n len t0 = (length (t0 @ ranged_text rs), t0 @ ranged_text rs)
    else n \<le> fst (ranged_loop rs n len t0) \<and>
      take (n - 1) (snd (ranged_loop rs n len t0)) = take (n - 1) (t0 @ ranged_text rs)"
  using assms
proof (induction "length rs" arbitrary: rs len t0 rule: less_induct)
  case less
  show ?case
  proof (cases "rs \<noteq> [] \<and> len < n")
    case False
    then have e: "ranged_loop rs n len t0 = (len, t0)" by (subst ranged_loop.simps) auto
    show ?thesis
    proof (cases "rs = []")
      case True
      then show ?thesis using e less.prems(2) by (simp add: ranged_text_def)
    next
      case ne: False
      then show ?thesis using False e less.prems(2) by simp
    qed
  next
    case True
    note ne = True
    obtain r rs' where rs: "rs = r # rs'" using True by (cases rs) auto
    obtain g rest where g: "group r rs' = (g, rest)" by force
    note G = group_split [OF g]
    obtain k m s where b: "get_bracketed_list (r # rs') (n - len) = (k, m, s)" by (metis prod_cases3)
    have B: "if length (group_text g) < n - len then k = length g \<and> m = length (group_text g) \<and> s = group_text g
        else n - len \<le> m \<and> s = take (n - len - 1) (group_text g)"
      using True by (intro get_bracketed_group [OF g _ b]) simp
    have T: "ranged_text rs = group_text g @ (if rest = [] then [] else CHR '','' # ranged_text rest)"
      unfolding rs by (rule ranged_text_Cons [OF g])
    have gne: "group_text g \<noteq> []"
      using conjunct2 [OF G] less.prems(1) by (intro group_text_ne) (simp add: rs)
    show ?thesis
    proof (cases "length (group_text g) < n - len")
      case fits: True
      then have K: "k = length g" "m = length (group_text g)" "s = group_text g" using B by simp_all
      have d: "drop k rs = rest" using G by (simp add: rs K(1))
      show ?thesis
      proof (cases "rest = []")
        case True
        then have "ranged_loop rs n len t0 = (len + length (group_text g), t0 @ group_text g)"
          using b fits K d ne by (subst ranged_loop.simps) (simp add: rs ranged_loop.simps [of "[]"])
        then show ?thesis using T True fits less.prems(2) by simp
      next
        case False
        have "length rs = length g + length rest" unfolding rs conjunct1 [OF G] by simp
        then have lt: "length g < Suc (length rs')" using False by (cases rest) (simp_all add: rs)
        have lt2: "len + length (group_text g) < n" using fits by simp
        have e: "ranged_loop rs n len t0 =
            ranged_loop rest n (len + length (group_text g) + 1) (t0 @ group_text g @ '','')"
          using b lt2 K d False gne ne lt by (subst ranged_loop.simps) (simp add: rs Let_def)
        have l: "length rest < length rs"
          using G arg_cong [of _ _ length, OF conjunct1 [OF G]] by (simp add: rs)
        have eq: "t0 @ ranged_text rs = (t0 @ group_text g @ '','') @ ranged_text rest"
          using False by (simp add: T)
        have "list_all (\<lambda>r. prefix r \<noteq> []) rest"
          using less.prems(1) G unfolding rs by (metis list_all_append)
        moreover have "length (t0 @ group_text g @ '','') = len + length (group_text g) + 1"
          using less.prems(2) by simp
        ultimately show ?thesis
          unfolding e eq by (rule less.hyps [OF l])
      qed
    next
      case False
      then have K: "n - len \<le> m" "s = take (n - len - 1) (group_text g)" using B by simp_all
      have "ranged_loop rs n len t0 = ranged_loop (drop k rs) n (len + m) (t0 @ s)"
        using b K(1) True by (subst ranged_loop.simps) (auto simp: rs Let_def)
      also have "\<dots> = (len + m, t0 @ s)"
        using K(1) by (subst ranged_loop.simps) auto
      finally have e: "ranged_loop rs n len t0 = (len + m, t0 @ s)" .
      have "take (n - 1) (t0 @ s) = take (n - 1) (t0 @ ranged_text rs)"
        using False True less.prems(2) by (simp add: K(2) T)
      moreover have "\<not> length (t0 @ ranged_text rs) < n"
        using T False less.prems(2) by simp
      moreover have "n \<le> len + m" using K(1) by simp
      ultimately show ?thesis by (simp only: e if_False fst_conv snd_conv)
    qed
  qed
qed

lemma hostlist_ranged_string_text:
  assumes "list_all (\<lambda>r. prefix r \<noteq> []) (hranges hl)"
  shows "hostlist_ranged_string hl n =
    (let t = ranged_text (hranges hl)
     in if length t < n then (int (length t), t) else (-1, take (n - 1) t))"
proof -
  obtain len s where l: "ranged_loop (hranges hl) n 0 [] = (len, s)" by force
  show ?thesis
    using ranged_loop_text [OF assms, of "[]" 0 n] l by (auto simp: hostlist_ranged_string_def split: if_splits)
qed

section \<open>The bracketed string parses back\<close>

definition range_span :: "hostrange \<Rightarrow> span" where
  "range_span r =
    (fmt0 (width r) (unat (lo r)), if lo r < hi r then Some (fmt0 (width r) (unat (hi r))) else None)"

definition group_item :: "hostrange list \<Rightarrow> host_item" where
  "group_item g =
    (if bracketed g then Ranges (prefix (hd g)) (map range_span g) []
     else Host (prefix (hd g) @ numtext (hd g)))"

text \<open>
  Ranges the parser accepts: names in the characters of the syntax, and the limits of the parser
  on the length of a name and the size of a range.
\<close>

definition printable :: "hostrange \<Rightarrow> bool" where
  "printable r \<longleftrightarrow> range_ok r \<and> prefix r \<noteq> [] \<and> plain (prefix r) \<and>
    length (prefix r) + max 15 (width r) < 1023 \<and> length (hr_hosts r) \<le> 16384"

lemma number_fmt0: "number (fmt0 w n)"
  using fmt0_digits by (auto simp: number_def list_all_iff)

lemma range_span_ok:
  assumes "printable r" "\<not> singlehost r"
  shows "span_ok (range_span r)" "span_text (range_span r) = numtext r"
    "span_hosts (prefix r) [] (range_span r) = hr_hosts r"
proof -
  have r: "hr_ok r" "length (hr_hosts r) \<le> 16384"
    using assms(1) by (simp_all add: printable_def range_ok_def)
  note b = hr_ok_bounds [OF r(1) assms(2)]
  have lt: "lo r < hi r \<longleftrightarrow> unat (lo r) < unat (hi r)" by (simp add: word_less_nat_alt)
  have bounds: "span_lo (range_span r) = unat (lo r)" "span_hi (range_span r) = unat (hi r)"
    using b(1) lt by (auto simp: span_lo_def span_hi_def range_span_def)
  show "span_ok (range_span r)"
    using b r(2) number_fmt0 bounds by (auto simp: span_ok_def range_span_def length_hr_hosts [OF assms(2)])
  show "span_text (range_span r) = numtext r"
    using assms(2) by (simp add: span_text_def range_span_def numtext_def)
  have "fmt0 (length (fmt0 (width r) (unat (lo r)))) n = fmt0 (width r) n" if "unat (lo r) \<le> n" for n
  proof (rule fmt0_same_width [OF _ that])
    show "length (fmt0 (width r) (unat (lo r))) - length (dec (unat (lo r))) =
        width r - length (dec (unat (lo r)))"
      by (simp add: length_fmt0)
  qed
  then show "span_hosts (prefix r) [] (range_span r) = hr_hosts r"
    unfolding span_hosts_def bounds hr_hosts_range [OF assms(2)]
    by (auto simp: range_span_def simp del: upt_Suc)
qed

lemma hr_hosts_count_1:
  assumes "printable r" "\<not> hostrange_count r > 1"
  shows "hr_hosts r = [prefix r @ numtext r]"
proof (cases "singlehost r")
  case False
  have r: "hr_ok r" using assms(1) by (simp add: printable_def range_ok_def)
  note b = hr_ok_bounds [OF r False]
  have "unat (hostrange_count r) \<le> 1" using assms(2) by (simp add: word_less_nat_alt)
  then have "unat (hi r) = unat (lo r)"
    using hostrange_count_hosts [OF r] b by (simp add: length_hr_hosts [OF False])
  then show ?thesis using False by (simp add: hr_hosts_range numtext_def word_less_nat_alt)
qed (simp add: hr_hosts_def numtext_def)

lemma number_plain: "number s \<Longrightarrow> plain s"
  using digit_not_sep isdigit_not_space
  by (fastforce simp: number_def plain_def list_all_iff HL_SEP_def isspace_def)

lemma plain_append: "plain (s @ t) = (plain s \<and> plain t)"
  by (auto simp: plain_def)

text \<open>What \<open>group\<close> puts together has the same prefix, and numbers.\<close>

lemma group_same:
  assumes "group r rs = (g, rest)" "list_all printable (r # rs)"
  shows "\<forall>q\<in>set g. prefix q = prefix r \<and> (length g > 1 \<longrightarrow> \<not> singlehost q)"
  using assms
proof (induction r rs arbitrary: g rule: group.induct)
  case (1 r)
  then show ?case by auto
next
  case (2 r q qs)
  show ?case
  proof (cases "hostrange_within_range (Some q) (Some r)")
    case True
    obtain g2 where g2: "group q qs = (g2, rest)" "g = r # g2"
      using 2 True by (auto split: prod.splits)
    have w: "prefix q = prefix r" "\<not> singlehost q" "\<not> singlehost r"
      using True hostrange_prefix_cmp_0 [of q r] "2.prems"(2)
      by (auto simp: hostrange_within_range_def printable_def range_ok_def split: if_splits)
    have IH: "\<forall>p\<in>set g2. prefix p = prefix q \<and> (length g2 > 1 \<longrightarrow> \<not> singlehost p)"
      using "2.IH" [OF True g2(1)] "2.prems"(2) by simp
    have "length g2 = 1 \<Longrightarrow> g2 = [q]" using group_Cons [OF g2(1)] by (cases "tl g2") auto
    moreover have "g2 \<noteq> []" using group_split [OF g2(1)] by simp
    ultimately show ?thesis
      using IH w g2(2) by (cases "length g2 > 1") (auto simp: not_less le_Suc_eq)
  next
    case False
    then show ?thesis using 2 by auto
  qed
qed

lemma group_item_spec:
  assumes "group r rs = (g, rest)" "list_all printable (r # rs)" "length (r # rs) \<le> MAX_RANGES"
  shows "item_text (group_item g) = group_text g" "item_hosts (group_item g) = concat (map hr_hosts g)"
    "item_ok (group_item g)"
proof -
  note G = group_split [OF assms(1)] and gC = group_Cons [OF assms(1)] and S = group_same [OF assms(1,2)]
  have hd: "hd g = r" using G by simp
  have "\<forall>q\<in>set (r # rs). printable q" using assms(2) by (simp add: list_all_iff)
  then have pr: "\<forall>q\<in>set g. printable q" unfolding conjunct1 [OF G] by simp
  have "length (r # rs) = length g + length rest" using G by simp
  then have len: "length g \<le> MAX_RANGES" using assms(3) by simp
  have "item_text (group_item g) = group_text g \<and> item_hosts (group_item g) = concat (map hr_hosts g) \<and>
    item_ok (group_item g)"
  proof (cases "bracketed g")
    case True
    have ns: "\<forall>q\<in>set g. \<not> singlehost q"
    proof (cases "length g > 1")
      case False
      then have "g = [r]" using gC by (cases "tl g") auto
      moreover have "\<not> singlehost r"
        using True \<open>g = [r]\<close> by (auto simp: bracketed_def hostrange_count_def)
      ultimately show ?thesis by simp
    qed (use S in blast)
    have pl: "plain (prefix r)" using assms(2) by (simp add: printable_def)
    have sp: "span_ok (range_span q) \<and> span_text (range_span q) = numtext q \<and>
        span_hosts (prefix r) [] (range_span q) = hr_hosts q" if "q \<in> set g" for q
      using range_span_ok [of q] pr ns S that by metis
    have m: "map span_text (map range_span g) = map numtext g"
      "map (span_hosts (prefix r) []) (map range_span g) = map hr_hosts g"
      using sp by simp_all
    have 1: "item_text (group_item g) = group_text g"
      using True hd by (simp add: group_item_def group_text_def m(1) del: map_map)
    have 2: "item_hosts (group_item g) = concat (map hr_hosts g)"
      using True hd by (simp add: group_item_def m(2) del: map_map)
    have 3: "item_ok (group_item g)"
      using True hd sp len conjunct2 [OF G] pl
      by (simp add: group_item_def list_all_iff) (simp add: plain_def)
    show ?thesis using 1 2 3 by blast
  next
    case False
    then have g: "g = [r]" using gC by (cases "tl g") (auto simp: bracketed_def)
    have p: "printable r" using assms(2) by simp
    have nc: "\<not> hostrange_count r > 1" using False g by (simp add: bracketed_def)
    have 1: "item_text (group_item g) = group_text g"
      using False hd by (simp add: group_item_def group_text_def)
    have 2: "item_hosts (group_item g) = concat (map hr_hosts g)"
      using False g hr_hosts_count_1 [OF p nc] by (simp add: group_item_def)
    have nt: "numtext r = [] \<or> numtext r = fmt0 (width r) (unat (lo r)) \<and> length (dec (unat (lo r))) \<le> 15"
    proof (cases "singlehost r")
      case ns: False
      have r: "hr_ok r" using p by (simp add: printable_def range_ok_def)
      note b = hr_ok_bounds [OF r ns]
      have "length (hr_hosts r) = 1" using hr_hosts_count_1 [OF p nc] by simp
      then have "unat (lo r) = unat (hi r)" using b by (simp add: length_hr_hosts [OF ns])
      then show ?thesis using b ns by (simp add: numtext_def word_less_nat_alt length_dec_15)
    qed (simp add: numtext_def)
    have "plain (numtext r)"
      using nt number_plain [OF number_fmt0] by (auto simp: plain_def)
    moreover have "length (prefix r @ numtext r) < 1023"
      using nt p by (auto simp: printable_def length_fmt0)
    ultimately have 3: "item_ok (group_item g)"
      using False p g by (simp add: group_item_def printable_def plain_append)
    show ?thesis using 1 2 3 by blast
  qed
  then show "item_text (group_item g) = group_text g" "item_hosts (group_item g) = concat (map hr_hosts g)"
    "item_ok (group_item g)" by blast+
qed

lemma groups_items:
  assumes "list_all printable rs" "length rs \<le> MAX_RANGES"
  shows "map item_text (map group_item (groups rs)) = map group_text (groups rs) \<and>
    concat (map item_hosts (map group_item (groups rs))) = concat (map hr_hosts rs) \<and>
    list_all item_ok (map group_item (groups rs))"
  using assms
proof (induction rs rule: groups.induct)
  case 1
  then show ?case by simp
next
  case (2 r rs)
  obtain g rest where g: "group r rs = (g, rest)" by force
  note G = group_split [OF g] and I = group_item_spec [OF g "2.prems"]
  have rest: "list_all printable rest" "length rest \<le> MAX_RANGES"
    using "2.prems" unfolding conjunct1 [OF G] by simp_all
  note IH = "2.IH" [OF g [symmetric] refl rest]
  have gr: "groups (r # rs) = g # groups rest" by (simp add: g)
  have hs: "concat (map hr_hosts (r # rs)) = concat (map hr_hosts g) @ concat (map hr_hosts rest)"
    unfolding conjunct1 [OF G] by simp
  show ?case
    unfolding gr hs using IH I by simp
qed

lemma ranged_string_roundtrip:
  assumes "hl_ok hl" "list_all printable (hranges hl)" "length (hranges hl) \<le> MAX_RANGES"
    and "hostlist_ranged_string hl n = (len, s)" "len \<noteq> -1"
  shows "\<exists>hl'. hostlist_create stale (Some s) = Some (Inr hl') \<and> hl_ok hl' \<and> hosts hl' = hosts hl"
proof -
  have "list_all (\<lambda>r. prefix r \<noteq> []) (hranges hl)"
    using assms(2) by (auto simp: list_all_iff printable_def)
  from hostlist_ranged_string_text [OF this, of n]
  have s: "s = ranged_text (hranges hl)"
    using assms(4,5) by (auto simp: Let_def split: if_splits)
  let ?is = "map group_item (groups (hranges hl))"
  have G: "map item_text ?is = map group_text (groups (hranges hl)) \<and>
      concat (map item_hosts ?is) = concat (map hr_hosts (hranges hl)) \<and> list_all item_ok ?is"
    by (rule groups_items [OF assms(2,3)])
  have "length (concat (map item_hosts ?is)) < 2 ^ 31"
    using conjunct1 [OF conjunct2 [OF G]] hl_okD(3) [OF assms(1)] unfolding hosts_def by presburger
  from hostlist_create_items [OF conjunct2 [OF conjunct2 [OF G]] this, of stale]
  show ?thesis
    using G unfolding s ranged_text_def hosts_def by metis
qed

section \<open>Plain strings\<close>

lemma commas_append: "xs \<noteq> [] \<Longrightarrow> ys \<noteq> [] \<Longrightarrow> commas (xs @ ys) = commas xs @ CHR '','' # commas ys"
  by (induction xs rule: commas.induct) (auto simp: commas_Cons)

lemma to_string_loop_fits:
  assumes "unat i \<le> unat (hi r)" "unat (hi r) < 10 ^ 15"
    and "length (t0 @ commas (map (\<lambda>n. prefix r @ fmt0 (width r) n) [unat i..<Suc (unat (hi r))])) < n"
  shows "to_string_loop r n CHR '','' i t0 =
    (let t = t0 @ commas (map (\<lambda>n. prefix r @ fmt0 (width r) n) [unat i..<Suc (unat (hi r))])
     in Some (int (length t), t))"
  using assms
proof (induction "unat (hi r) - unat i" arbitrary: i t0)
  case 0
  define s where "s = prefix r @ fmt0 (width r) (unat i)"
  have e: "unat (hi r) = unat i" using 0 by simp
  have i1: "unat (i + 1) = unat i + 1"
    using 0 e by (intro unat_add_one unat_less_max) simp
  have "length t0 + length s < n" using 0(4) by (simp add: e s_def)
  then have len: "\<not> n - length t0 \<le> length s" by linarith
  have "to_string_loop r n CHR '','' i t0 = to_string_loop r n CHR '','' (i + 1) (t0 @ s @ '','')"
    using e len by (subst to_string_loop.simps) (simp add: word_le_nat_alt s_def [symmetric])
  also have "\<dots> = Some (int (length (t0 @ s)), t0 @ s)"
    using e i1 by (subst to_string_loop.simps) (simp add: word_le_nat_alt butlast_append)
  finally show ?case by (simp add: e s_def)
next
  case (Suc m)
  define s where "s = prefix r @ fmt0 (width r) (unat i)"
  define f where "f = (\<lambda>n. prefix r @ fmt0 (width r) n)"
  have lt: "unat i < unat (hi r)" using Suc.hyps(2) by simp
  have i1: "unat (i + 1) = unat i + 1"
    using Suc.prems(2) lt by (intro unat_add_one unat_less_max) simp
  have "[unat i..<Suc (unat (hi r))] = unat i # [unat (i + 1)..<Suc (unat (hi r))]"
    using lt i1 by (simp add: upt_conv_Cons del: upt_Suc)
  then have c: "commas (map f [unat i..<Suc (unat (hi r))]) =
      s @ CHR '','' # commas (map f [unat (i + 1)..<Suc (unat (hi r))])"
    using lt i1 by (simp add: commas_Cons s_def f_def del: upt_Suc)
  have "length t0 + length s < n" using Suc.prems(3) unfolding f_def [symmetric] c by simp
  then have len: "\<not> n - length t0 \<le> length s" by linarith
  have "to_string_loop r n CHR '','' i t0 = to_string_loop r n CHR '','' (i + 1) (t0 @ s @ '','')"
    using lt len by (subst to_string_loop.simps) (simp add: word_le_nat_alt s_def [symmetric])
  also have "\<dots> = (let t = (t0 @ s @ '','') @ commas (map f [unat (i + 1)..<Suc (unat (hi r))])
      in Some (int (length t), t))"
  proof -
    have m: "m = unat (hi r) - unat (i + 1)" using Suc.hyps(2) i1 by simp
    show ?thesis
      by (rule Suc.hyps(1) [OF m, of "t0 @ s @ '',''", folded f_def])
        (use Suc.prems(2) Suc.prems(3) [folded f_def, unfolded c] i1 lt in simp_all)
  qed
  finally show ?case unfolding f_def [symmetric] c by simp
qed

lemma hostrange_to_string_fits:
  assumes "hr_ok r" "length (commas (hr_hosts r)) < n"
  shows "hostrange_to_string r n (Some '','') = Some (int (length (commas (hr_hosts r))), commas (hr_hosts r))"
proof (cases "singlehost r")
  case True
  then show ?thesis using assms(2) by (simp add: hostrange_to_string_def hr_hosts_def)
next
  case False
  note b = hr_ok_bounds [OF assms(1) False]
  show ?thesis
    using to_string_loop_fits [of "lo r" r "[]" n] b assms(2) False
    by (simp add: hostrange_to_string_def hr_hosts_range [OF False] Let_def del: upt_Suc)
qed

lemma deranged_loop_fits:
  assumes "list_all hr_ok rs" "rs \<noteq> []" "length (t0 @ commas (concat (map hr_hosts rs))) < n"
  shows "deranged_loop rs n t0 = Some (False, t0 @ commas (concat (map hr_hosts rs)) @ '','')"
  using assms
proof (induction rs arbitrary: t0)
  case Nil
  then show ?case by simp
next
  case (Cons r rs)
  have r: "hr_ok r" "hr_hosts r \<noteq> []" using Cons.prems(1) by simp_all
  show ?case
  proof (cases "rs = []")
    case True
    have "hostrange_to_string r (n - length t0) (Some '','') =
        Some (int (length (commas (hr_hosts r))), commas (hr_hosts r))"
      using Cons.prems(3) True by (intro hostrange_to_string_fits [OF r(1)]) simp
    then show ?thesis using Cons.prems(3) True by simp
  next
    case False
    then have "concat (map hr_hosts rs) \<noteq> []" using Cons.prems(1) by (cases rs) simp_all
    then have c: "commas (concat (map hr_hosts (r # rs))) =
        commas (hr_hosts r) @ CHR '','' # commas (concat (map hr_hosts rs))"
      using r(2) by (simp add: commas_append)
    have "hostrange_to_string r (n - length t0) (Some '','') =
        Some (int (length (commas (hr_hosts r))), commas (hr_hosts r))"
      using Cons.prems(3) unfolding c by (intro hostrange_to_string_fits [OF r(1)]) simp
    then have "deranged_loop (r # rs) n t0 = deranged_loop rs n (t0 @ commas (hr_hosts r) @ '','')"
      using Cons.prems(3) unfolding c by simp
    then show ?thesis
      using Cons.IH [of "t0 @ commas (hr_hosts r) @ '',''"] Cons.prems False unfolding c by simp
  qed
qed

lemma deranged_string_fits:
  assumes "hl_ok hl" "length (commas (hosts hl)) < n"
  shows "hostlist_deranged_string hl n = Some (int (length (commas (hosts hl))), commas (hosts hl))"
proof (cases "hranges hl = []")
  case True
  then show ?thesis using assms(2) by (simp add: hostlist_deranged_string_def hosts_def)
next
  case False
  have "list_all hr_ok (hranges hl)"
    using assms(1) by (auto simp: hl_ok_def list_all_iff range_ok_def)
  then have "deranged_loop (hranges hl) n [] = Some (False, commas (hosts hl) @ '','')"
    using deranged_loop_fits [of "hranges hl" "[]" n] False assms(2) by (simp add: hosts_def)
  then show ?thesis using assms(2) by (simp add: hostlist_deranged_string_def)
qed

section \<open>Taking off a bracketed range\<close>

lemma pop_range_spec:
  assumes "hl_ok hl" "hostlist_pop_range hl = Some (Some s, hl')"
  shows "\<exists>tmp. hl_ok tmp \<and> hosts tmp \<noteq> [] \<and> hosts hl = hosts hl' @ hosts tmp \<and> hl_ok hl' \<and>
    s = snd (hostlist_ranged_string tmp 1024)"
proof -
  let ?rs = "hranges hl"
  define i where "i = length ?rs - 1 -
    length (takeWhile (\<lambda>r. hostrange_within_range (Some (last ?rs)) (Some r)) (tl (rev ?rs)))"
  obtain n tmp rs2 where p: "push_ranges hostlist_new (drop i ?rs) 0 = (n, tmp, rs2)" by (metis prod_cases3)
  have ne: "?rs \<noteq> []" and S: "s = snd (hostlist_ranged_string tmp 1024)"
    "hranges hl' = take i ?rs" "nhosts hl' = nhosts hl - nhosts tmp"
    using assms(2) p unfolding hostlist_pop_range_def Let_def i_def [symmetric]
    by (auto simp: split: if_splits)
  have h: "hosts hl = concat (map hr_hosts (take i ?rs)) @ concat (map hr_hosts (drop i ?rs))"
    unfolding hosts_def by (simp flip: concat_append map_append)
  have "i < length ?rs" using ne by (cases ?rs) (auto simp: i_def)
  then have d: "drop i ?rs \<noteq> []" by simp
  have ok: "list_all range_ok (take i ?rs)" "list_all range_ok (drop i ?rs)"
    using hl_okD(1) [OF assms(1)] by auto
  have "length (hosts hostlist_new) + length (concat (map hr_hosts (drop i ?rs))) < 2 ^ 31"
    using hl_okD(3) [OF assms(1)] unfolding h by simp
  from push_ranges_spec [OF hostlist_new_ok(1) ok(2) this p]
  have T: "hl_ok tmp" "hosts tmp = concat (map hr_hosts (drop i ?rs))" by simp_all
  have "hosts tmp \<noteq> []"
    using d ok(2) by (cases "drop i ?rs") (auto simp: T(2) range_ok_def)
  moreover have "hosts hl = hosts hl' @ hosts tmp"
    unfolding h T(2) by (simp add: hosts_def S(2))
  moreover from this have "hl_ok hl'"
    using S(3) ok(1) hl_okD(2,3) [OF assms(1)] hl_okD(2) [OF T(1)]
    by (intro hl_okI) (simp_all add: S(2))
  ultimately show ?thesis using T(1) S(1) by blast
qed

lemma shift_range_loop_spec:
  assumes "hl_ok tmp" "list_all range_ok (r # rs)"
    and "length (hosts tmp) + length (concat (map hr_hosts (r # rs))) < 2 ^ 31"
    and "shift_range_loop r rs tmp = (rest, tmp')"
  shows "\<exists>g. r # rs = g @ rest \<and> g \<noteq> [] \<and> hl_ok tmp' \<and> hosts tmp' = hosts tmp @ concat (map hr_hosts g)"
  using assms
proof (induction rs arbitrary: r tmp)
  case Nil
  obtain n h k where p: "hostlist_push_range tmp r = (n, h, k)" by (metis prod_cases3)
  have "rest = []" "tmp' = h" using Nil.prems(4) p by (simp_all add: shift_range_loop.simps)
  moreover have "hl_ok h" "hosts h = hosts tmp @ hr_hosts r"
    using hostlist_push_range_spec [OF Nil.prems(1) _ _ p] Nil.prems by simp_all
  ultimately show ?case by (intro exI [of _ "[r]"]) simp
next
  case (Cons q qs)
  obtain n h k where p: "hostlist_push_range tmp r = (n, h, k)" by (metis prod_cases3)
  have h: "hl_ok h" "hosts h = hosts tmp @ hr_hosts r"
    using hostlist_push_range_spec [OF Cons.prems(1) _ _ p] Cons.prems by simp_all
  show ?case
  proof (cases "hostrange_within_range (Some (hd (hranges h))) (Some q)")
    case True
    then have "shift_range_loop q qs h = (rest, tmp')"
      using Cons.prems(4) p by (simp add: shift_range_loop.simps [of r])
    then obtain g where "q # qs = g @ rest" "g \<noteq> []" "hl_ok tmp'" "hosts tmp' = hosts h @ concat (map hr_hosts g)"
      using Cons.IH [OF h(1)] Cons.prems h(2) by fastforce
    then show ?thesis using h(2) by (intro exI [of _ "r # g"]) simp
  next
    case False
    then have "rest = q # qs" "tmp' = h"
      using Cons.prems(4) p by (simp_all add: shift_range_loop.simps [of r])
    then show ?thesis using h by (intro exI [of _ "[r]"]) simp
  qed
qed

lemma shift_range_spec:
  assumes "hl_ok hl" "hostlist_shift_range hl = Some (Some s, hl')"
  shows "\<exists>tmp. hl_ok tmp \<and> hosts tmp \<noteq> [] \<and> hosts hl = hosts tmp @ hosts hl' \<and> hl_ok hl' \<and>
    s = snd (hostlist_ranged_string tmp 1024)"
proof -
  obtain r rs where rs: "hranges hl = r # rs"
    using assms(2) by (cases "hranges hl") (simp_all add: hostlist_shift_range_def)
  obtain rest tmp where l: "shift_range_loop r rs hostlist_new = (rest, tmp)" by force
  have S: "s = snd (hostlist_ranged_string tmp 1024)" "hranges hl' = rest" "nhosts hl' = nhosts hl - nhosts tmp"
    using assms(2) l unfolding hostlist_shift_range_def rs list.case Let_def
    by (auto split: if_splits)
  have ok: "list_all range_ok (r # rs)" using hl_okD(1) [OF assms(1)] by (simp add: rs)
  have "length (hosts hostlist_new) + length (concat (map hr_hosts (r # rs))) < 2 ^ 31"
    using hl_okD(3) [OF assms(1)] by (simp add: hosts_def [of hl] rs)
  from shift_range_loop_spec [OF hostlist_new_ok(1) ok this l]
  obtain g where g: "r # rs = g @ rest" "g \<noteq> []" "hl_ok tmp" "hosts tmp = concat (map hr_hosts g)" by auto
  have okg: "list_all range_ok g" "list_all range_ok rest" using ok unfolding g(1) by simp_all
  have "hosts tmp \<noteq> []" using g(2,4) okg by (cases g) (auto simp: range_ok_def)
  moreover have e: "hosts hl = hosts tmp @ hosts hl'"
    unfolding hosts_def [of hl] rs g(1) g(4) by (simp add: hosts_def S(2))
  moreover have "hl_ok hl'"
    using S(3) okg(2) hl_okD(2,3) [OF assms(1)] hl_okD(2) [OF g(3)] e
    by (intro hl_okI) (simp_all add: S(2))
  ultimately show ?thesis using g(3) S(1) by blast
qed

end
