(* ===== verification/Iteration.thy ===== *)
theory Iteration
  imports Main
begin

text \<open>
  The loop \<open>while ((x = next(i)) != NULL)\<close> that the program runs over iterators and
  over the operations that take an element off a list. \<open>step\<close> is the operation: its
  outer \<open>None\<close> is an undefined access, the inner one the null pointer that ends the loop.
  A provider that hands out the elements of \<open>rest\<close> in order makes the loop visit exactly
  these.
\<close>

fun drain :: "('s \<Rightarrow> ('a option \<times> 's) option) \<Rightarrow> nat \<Rightarrow> 's \<Rightarrow> ('a list \<times> 's) option" where
  "drain step 0 s = None"
| "drain step (Suc n) s =
    (case step s of
       None \<Rightarrow> None
     | Some (None, s) \<Rightarrow> Some ([], s)
     | Some (Some x, s) \<Rightarrow> map_option (\<lambda>(xs, s). (x # xs, s)) (drain step n s))"

locale iteration =
  fixes step :: "'s \<Rightarrow> ('a option \<times> 's) option"
    and inv :: "'s \<Rightarrow> bool"
    and rest :: "'s \<Rightarrow> 'a list"
  assumes step_some: "inv s \<Longrightarrow> rest s \<noteq> [] \<Longrightarrow>
      \<exists>s'. step s = Some (Some (hd (rest s)), s') \<and> inv s' \<and> rest s' = tl (rest s)"
    and step_none: "inv s \<Longrightarrow> rest s = [] \<Longrightarrow> \<exists>s'. step s = Some (None, s') \<and> inv s' \<and> rest s' = []"
begin

lemma drain_all:
  assumes "inv s" "length (rest s) < n"
  shows "\<exists>s'. drain step n s = Some (rest s, s') \<and> inv s' \<and> rest s' = []"
  using assms
proof (induction "rest s" arbitrary: s n)
  case Nil
  then obtain m where "n = Suc m" by (cases n) auto
  then show ?case using step_none [OF Nil(2)] Nil(1) by auto
next
  case (Cons x xs)
  then obtain m where n: "n = Suc m" by (cases n) auto
  obtain s' where s': "step s = Some (Some x, s')" "inv s'" "rest s' = xs"
    using step_some [OF Cons(3)] unfolding Cons(2) [symmetric] by auto
  have "length (x # xs) < n" using Cons(4) unfolding Cons(2) [symmetric] .
  then have "length (rest s') < m" using n s'(3) by simp
  then obtain s2 where s2: "drain step m s' = Some (rest s', s2)" "inv s2" "rest s2 = []"
    using Cons(1) [OF s'(3) [symmetric] s'(2)] by blast
  then have "drain step n s = Some (x # xs, s2)" using s' n by simp
  then show ?case using s2(2,3) unfolding Cons(2) by blast
qed

text \<open>The number of elements bounds the number of turns, so the loop ends.\<close>

lemma drain_ends: "inv s \<Longrightarrow> \<exists>n. drain step n s \<noteq> None"
  by (metis drain_all lessI option.distinct(1))

end

end
