(* ===== verification/Hostlist_Iter.thy ===== *)
theory Hostlist_Iter
  imports Hostlist_Roundtrip Iteration
begin

text \<open>
  Host list iterators. The functions take the list and the iterator, or for those that change
  other iterators the list and the position of the iterator in \<open>ilist\<close>; their result is
  \<open>None\<close> when the code would follow a cached pointer that is not the entry at the
  iterator's index.

  \<open>iter_pos\<close> is the number of hosts an iterator has passed. Successive calls of
  \<open>hostlist_next\<close> return the hosts of the list one by one, as do the loops over
  \<open>hostlist_shift\<close> and \<open>hostlist_pop\<close>.
\<close>

section \<open>Operations\<close>

definition hostlist_iterator_create :: "hostlist \<Rightarrow> hostlist" where
  "hostlist_iterator_create hl =
    hl\<lparr>ilist := \<lparr>hidx = 0, hdepth = -1, hfresh = (hranges hl \<noteq> [])\<rparr> # ilist hl\<rparr>"

definition hostlist_iterator_destroy :: "hostlist \<Rightarrow> nat \<Rightarrow> hostlist" where
  "hostlist_iterator_destroy hl k = hl\<lparr>ilist := take k (ilist hl) @ drop (k + 1) (ilist hl)\<rparr>"

definition iterator_advance :: "hostrange list \<Rightarrow> hl_iter \<Rightarrow> hl_iter option" where
  "iterator_advance rs i =
    (if hidx i > int (length rs) - 1 then Some i
     else if \<not> hfresh i then None
     else
       let hr = rs ! nat (hidx i);
           i = i\<lparr>hdepth := hdepth i + 1\<rparr>
       in if of_int (hdepth i) > hi hr - lo hr
          then Some (i\<lparr>hdepth := 0, hidx := hidx i + 1, hfresh := (hidx i + 1 < int (length rs))\<rparr>)
          else Some i)"

text \<open>The loop \<open>while (++j < nr && hostrange_within_range(i->hr, hr[j]))\<close>, from \<open>j\<close> on\<close>

fun skip_range :: "hostrange \<Rightarrow> hostrange list \<Rightarrow> nat" where
  "skip_range hr [] = 0"
| "skip_range hr (q # qs) =
    (if hostrange_within_range (Some hr) (Some q) then skip_range hr qs + 1 else 0)"

definition iterator_advance_range :: "hostrange list \<Rightarrow> hl_iter \<Rightarrow> hl_iter option" where
  "iterator_advance_range rs i =
    (let i = i\<lparr>hdepth := hdepth i + 1\<rparr>
     in if hdepth i > 0 then
          if hidx i + 1 < int (length rs) \<and> \<not> hfresh i then None
          else
            let j = hidx i + 1 +
              (if hidx i + 1 < int (length rs)
               then int (skip_range (rs ! nat (hidx i)) (drop (nat (hidx i + 1)) rs)) else 0)
            in Some (i\<lparr>hidx := j, hfresh := (j < int (length rs)), hdepth := 0\<rparr>)
        else Some i)"

definition hostlist_next :: "hostlist \<Rightarrow> hl_iter \<Rightarrow> (string option \<times> hl_iter) option" where
  "hostlist_next hl i =
    (case iterator_advance (hranges hl) i of
       None \<Rightarrow> None
     | Some i \<Rightarrow>
         if hidx i > int (length (hranges hl)) - 1 then Some (None, i)
         else if \<not> hfresh i then None
         else
           let hr = hranges hl ! nat (hidx i);
               sfx = (if \<not> singlehost hr
                      then take 14 (fmt0 (width hr) (unat (lo hr + of_int (hdepth i)))) else [])
           in Some (Some (prefix hr @ sfx), i))"

definition hostlist_next_range :: "hostlist \<Rightarrow> hl_iter \<Rightarrow> (string option \<times> hl_iter) option" where
  "hostlist_next_range hl i =
    (case iterator_advance_range (hranges hl) i of
       None \<Rightarrow> None
     | Some i \<Rightarrow>
         if hidx i > int (length (hranges hl)) - 1 then Some (None, i)
         else
           let (_, _, buf) = get_bracketed_list (drop (nat (hidx i)) (hranges hl)) 1024
           in Some (Some buf, i))"

text \<open>
  \<open>hostlist_remove\<close> on the \<open>k\<close>-th iterator. Deleting an emptied range moves
  every iterator at or behind it back by one range, this one too, and keeps their depths.
\<close>

definition hostlist_remove :: "hostlist \<Rightarrow> nat \<Rightarrow> (int \<times> hostlist) option" where
  "hostlist_remove hl k =
    (let i = ilist hl ! k;
         n = nat (hidx i);
         hr = hranges hl ! n
     in if \<not> hfresh i then None
        else
          let (new, hr) = hostrange_delete_host hr (lo hr + of_int (hdepth i));
              hl = hl\<lparr>hranges := (hranges hl)[n := hr]\<rparr>;
              hl =
                (case new of
                   Some new \<Rightarrow>
                     let hl = snd (hostlist_insert_range hl new (n + 1))
                     in hl\<lparr>ilist := (ilist hl)[k := (ilist hl ! k)\<lparr>hidx := hidx i + 1, hdepth := -1,
                              hfresh := (hidx i + 1 < int (length (hranges hl)))\<rparr>]\<rparr>
                 | None \<Rightarrow>
                     if hostrange_empty hr then hostlist_delete_range hl n
                     else hl\<lparr>ilist := (ilist hl)[k := i\<lparr>hdepth := hdepth i - 1\<rparr>]\<rparr>)
          in Some (1, hl\<lparr>nhosts := nhosts hl - 1\<rparr>))"

section \<open>Positions of iterators\<close>

definition iter_ok :: "hostrange list \<Rightarrow> hl_iter \<Rightarrow> bool" where
  "iter_ok rs i \<longleftrightarrow> 0 \<le> hidx i \<and>
    (hidx i < int (length rs) \<longrightarrow>
      hfresh i \<and> -1 \<le> hdepth i \<and> hdepth i < int (length (hr_hosts (rs ! nat (hidx i)))))"

definition iter_pos :: "hostrange list \<Rightarrow> hl_iter \<Rightarrow> nat" where
  "iter_pos rs i =
    (if hidx i < int (length rs) then before rs (nat (hidx i)) + nat (hdepth i + 1)
     else length (concat (map hr_hosts rs)))"

text \<open>The numbers of the hosts fit the buffer of \<open>hostlist_next\<close>.\<close>

definition suffixes_fit :: "hostlist \<Rightarrow> bool" where
  "suffixes_fit hl \<longleftrightarrow>
    list_all (\<lambda>r. singlehost r \<or> width r \<le> 14 \<and> unat (hi r) < 10 ^ 14) (hranges hl)"

lemma before_Suc:
  "j < length rs \<Longrightarrow> before rs (Suc j) = before rs j + length (hr_hosts (rs ! j))"
  by (simp add: before_def take_Suc_conv_app_nth)

lemma before_all: "before rs (length rs) = length (concat (map hr_hosts rs))"
  by (simp add: before_def)

lemma before_mono: "i \<le> j \<Longrightarrow> before rs i \<le> before rs j"
proof -
  assume "i \<le> j"
  then have "take j rs = take i rs @ take (j - i) (drop i rs)"
    by (metis le_add_diff_inverse take_add)
  then show ?thesis by (simp add: before_def)
qed

lemma before_nth:
  assumes "j < length rs" "m < length (hr_hosts (rs ! j))"
  shows "concat (map hr_hosts rs) ! (before rs j + m) = hr_hosts (rs ! j) ! m"
    "before rs j + m < length (concat (map hr_hosts rs))"
proof -
  have e: "concat (map hr_hosts rs) =
      concat (map hr_hosts (take j rs)) @ hr_hosts (rs ! j) @ concat (map hr_hosts (drop (Suc j) rs))"
    by (subst id_take_nth_drop [OF assms(1)]) simp
  show "concat (map hr_hosts rs) ! (before rs j + m) = hr_hosts (rs ! j) ! m"
    "before rs j + m < length (concat (map hr_hosts rs))"
    using assms(2) by (simp_all add: e before_def nth_append)
qed

lemma length_dec_le: "n < 10 ^ k \<Longrightarrow> length (dec n) \<le> max k 1"
proof (induction k arbitrary: n)
  case 0
  then show ?case by (simp add: dec.simps)
next
  case (Suc k)
  show ?case
  proof (cases "n < 10")
    case True
    then show ?thesis by (simp add: dec.simps [of n])
  next
    case False
    then have "k \<noteq> 0" using Suc.prems by (cases k) auto
    have "n div 10 < 10 ^ k" using Suc.prems by simp
    with Suc.IH show ?thesis
      using False \<open>k \<noteq> 0\<close> by (subst dec.simps) fastforce
  qed
qed

text \<open>What \<open>hostlist_next\<close> prints at depth \<open>m\<close> of a range\<close>

lemma next_name:
  assumes "hr_ok r" "singlehost r \<or> width r \<le> 14 \<and> unat (hi r) < 10 ^ 14" "m < length (hr_hosts r)"
  shows "prefix r @ (if \<not> singlehost r then take 14 (fmt0 (width r) (unat (lo r + of_int (int m)))) else []) =
    hr_hosts r ! m"
proof (cases "singlehost r")
  case True
  then show ?thesis using assms(3) by (simp add: hr_hosts_def)
next
  case False
  note u = unat_nth_number [OF assms(1) False assms(3)]
  have i: "[unat (lo r)..<Suc (unat (hi r))] ! m = unat (lo r) + m"
    using u(2) by (intro nth_upt) linarith
  have m: "m < length [unat (lo r)..<Suc (unat (hi r))]"
    using u(2) unfolding length_upt by linarith
  have "unat (lo r) + m < 10 ^ 14" using u(2) assms(2) False by simp
  then have "length (dec (unat (lo r) + m)) \<le> 14"
    using length_dec_le [of "unat (lo r) + m" 14] by simp
  then have "length (fmt0 (width r) (unat (lo r) + m)) \<le> 14"
    using assms(2) False by (simp add: length_fmt0)
  then show ?thesis
    using False unfolding hr_hosts_range [OF False] by (simp only: nth_map [OF m] i) (simp add: u(1))
qed

lemma advance_spec:
  assumes "list_all hr_ok rs" "iter_ok rs i" "length (concat (map hr_hosts rs)) < 2 ^ 31"
  shows "\<exists>i'. iterator_advance rs i = Some i' \<and> iter_ok rs i' \<and>
    iter_pos rs i' = min (length (concat (map hr_hosts rs))) (iter_pos rs i + 1) \<and>
    (hidx i' < int (length rs) \<longleftrightarrow> iter_pos rs i < length (concat (map hr_hosts rs))) \<and>
    (hidx i' < int (length rs) \<longrightarrow> hfresh i' \<and> 0 \<le> hdepth i' \<and>
      iter_pos rs i = before rs (nat (hidx i')) + nat (hdepth i'))"
proof (cases "hidx i < int (length rs)")
  case False
  then show ?thesis using assms(2) by (auto simp: iterator_advance_def iter_pos_def)
next
  case True
  define j where "j = nat (hidx i)"
  define d where "d = nat (hdepth i + 1)"
  have I: "0 \<le> hidx i" "hfresh i" "-1 \<le> hdepth i" "hdepth i < int (length (hr_hosts (rs ! j)))"
    using assms(2) True by (simp_all add: iter_ok_def j_def)
  have j: "hidx i = int j" "j < length rs" and d: "hdepth i + 1 = int d" "d \<le> length (hr_hosts (rs ! j))"
    using I True by (simp_all add: j_def d_def)
  have r: "hr_ok (rs ! j)" using assms(1) j(2) by (simp add: list_all_length)
  have len: "length (hr_hosts (rs ! j)) < 2 ^ 31"
    using before_mono [of "Suc j" "length rs" rs] before_Suc [OF j(2)] before_all [of rs] j(2) assms(3) by simp
  have wd: "unat (of_nat d :: ulong) = d" using d(2) len by (intro unat_of_nat_small) simp
  have cmp: "of_int (hdepth i + 1) > hi (rs ! j) - lo (rs ! j) \<longleftrightarrow> d = length (hr_hosts (rs ! j))"
  proof (cases "singlehost (rs ! j)")
    case True
    then show ?thesis using r d wd by (auto simp: hr_hosts_def hr_ok_def word_less_nat_alt)
  next
    case False
    note b = hr_ok_bounds [OF r False]
    have "unat (hi (rs ! j) - lo (rs ! j)) = unat (hi (rs ! j)) - unat (lo (rs ! j))"
      using b by (simp add: unat_sub word_le_nat_alt)
    then show ?thesis
      using b d wd by (auto simp: length_hr_hosts [OF False] word_less_nat_alt)
  qed
  have pos: "iter_pos rs i = before rs j + d" using True by (simp add: iter_pos_def j_def d_def)
  show ?thesis
  proof (cases "d = length (hr_hosts (rs ! j))")
    case False
    then have e: "iterator_advance rs i = Some (i\<lparr>hdepth := int d\<rparr>)"
      using True I cmp d(1) by (simp add: iterator_advance_def j_def [symmetric] Let_def)
    have lt: "before rs j + d < length (concat (map hr_hosts rs))"
      using before_nth(2) [OF j(2), of d] False d(2) by simp
    have p': "iter_pos rs (i\<lparr>hdepth := int d\<rparr>) = before rs j + d + 1" and n: "nat (hidx i) = j"
      using j by (simp_all add: iter_pos_def nat_add_distrib)
    have "iter_ok rs (i\<lparr>hdepth := int d\<rparr>)"
      using j d False I(2) by (simp add: iter_ok_def)
    then show ?thesis
      using e lt j I(2) n p' pos by simp
  next
    case last: True
    then have e: "iterator_advance rs i =
        Some (i\<lparr>hdepth := 0, hidx := int j + 1, hfresh := (int j + 1 < int (length rs))\<rparr>)"
      using True I cmp d(1) j(1) by (simp add: iterator_advance_def j_def [symmetric] Let_def)
    have pos': "iter_pos rs i = before rs (Suc j)" using pos last before_Suc [OF j(2)] by simp
    show ?thesis
    proof (cases "Suc j < length rs")
      case True
      have ne: "hr_hosts (rs ! Suc j) \<noteq> []" using assms(1) True by (simp add: list_all_length)
      then have lt: "before rs (Suc j) < length (concat (map hr_hosts rs))"
        using before_nth(2) [OF True, of 0] by simp
      let ?i = "i\<lparr>hdepth := 0, hidx := int j + 1, hfresh := True\<rparr>"
      have n: "nat (int j + 1) = Suc j" by simp
      then have "iter_pos rs ?i = before rs (Suc j) + 1" "iter_ok rs ?i"
        using True ne by (simp_all add: iter_pos_def iter_ok_def)
      then show ?thesis using e lt True n by (simp add: pos')
    next
      case False
      then have "Suc j = length rs" using j(2) by simp
      then have "before rs (Suc j) = length (concat (map hr_hosts rs))" using before_all [of rs] by simp
      then have "iter_pos rs i = length (concat (map hr_hosts rs))" using pos' by simp
      moreover have "iter_pos rs (i\<lparr>hdepth := 0, hidx := int j + 1, hfresh := False\<rparr>) =
          length (concat (map hr_hosts rs))"
        using False by (simp add: iter_pos_def)
      ultimately show ?thesis using e False by (simp add: iter_ok_def)
    qed
  qed
qed

lemma hostlist_next_spec:
  assumes "hl_ok hl" "suffixes_fit hl" "iter_ok (hranges hl) i"
  defines "p \<equiv> iter_pos (hranges hl) i"
  shows "\<exists>i'. hostlist_next hl i = Some (if p < length (hosts hl) then Some (hosts hl ! p) else None, i') \<and>
    iter_ok (hranges hl) i' \<and> iter_pos (hranges hl) i' = min (length (hosts hl)) (p + 1)"
proof -
  let ?rs = "hranges hl"
  have ok: "list_all hr_ok ?rs" using hl_okD(1) [OF assms(1)] by (auto simp: list_all_iff range_ok_def)
  obtain i' where A: "iterator_advance ?rs i = Some i'" "iter_ok ?rs i'"
      "iter_pos ?rs i' = min (length (hosts hl)) (p + 1)"
      "hidx i' < int (length ?rs) \<longleftrightarrow> p < length (hosts hl)"
      "hidx i' < int (length ?rs) \<longrightarrow> hfresh i' \<and> 0 \<le> hdepth i' \<and> p = before ?rs (nat (hidx i')) + nat (hdepth i')"
    using advance_spec [OF ok assms(3)] hl_okD(3) [OF assms(1)] by (auto simp: hosts_def p_def)
  show ?thesis
  proof (cases "p < length (hosts hl)")
    case False
    then show ?thesis using A by (simp add: hostlist_next_def)
  next
    case True
    define j where "j = nat (hidx i')"
    define m where "m = nat (hdepth i')"
    have i': "0 \<le> hidx i'" "hidx i' < int (length ?rs)" "hfresh i'" "hdepth i' = int m" "p = before ?rs j + m"
      using A True by (auto simp: j_def m_def iter_ok_def)
    have j: "j < length ?rs" and m: "m < length (hr_hosts (?rs ! j))"
      using i' A(2) by (simp_all add: j_def iter_ok_def)
    have "hr_ok (?rs ! j)" "singlehost (?rs ! j) \<or> width (?rs ! j) \<le> 14 \<and> unat (hi (?rs ! j)) < 10 ^ 14"
      using ok assms(2) j by (simp_all add: list_all_length suffixes_fit_def)
    note N = next_name [OF this m]
    have "hosts hl ! p = hr_hosts (?rs ! j) ! m"
      using before_nth(1) [OF j m] by (simp add: hosts_def i'(5))
    then have "hostlist_next hl i = Some (Some (hosts hl ! p), i')"
      using A(1) i' N
      by (cases "singlehost (?rs ! j)") (simp_all add: hostlist_next_def j_def [symmetric] Let_def)
    then show ?thesis using A True by simp
  qed
qed

section \<open>Loops over a host list\<close>

definition next_step :: "hostlist \<times> hl_iter \<Rightarrow> (string option \<times> hostlist \<times> hl_iter) option" where
  "next_step s = map_option (\<lambda>(h, i). (h, fst s, i)) (hostlist_next (fst s) (snd s))"

definition pop_step :: "hostlist \<Rightarrow> (string option \<times> hostlist) option" where
  "pop_step hl = Some (hostlist_pop hl)"

definition shift_step :: "hostlist \<Rightarrow> (string option \<times> hostlist) option" where
  "shift_step hl = Some (hostlist_shift hl)"

interpretation hl_next: iteration next_step
  "\<lambda>(hl, i). hl_ok hl \<and> suffixes_fit hl \<and> iter_ok (hranges hl) i"
  "\<lambda>(hl, i). drop (iter_pos (hranges hl) i) (hosts hl)"
proof (unfold_locales, goal_cases)
  case (1 s)
  obtain hl i where s: "s = (hl, i)" by force
  obtain i' where "hostlist_next hl i = Some (Some (hosts hl ! iter_pos (hranges hl) i), i')"
      "iter_ok (hranges hl) i'" "iter_pos (hranges hl) i' = min (length (hosts hl)) (iter_pos (hranges hl) i + 1)"
    using hostlist_next_spec [of hl i] 1 by (auto simp: s)
  then show ?case using 1 by (auto simp: s next_step_def hd_drop_conv_nth drop_Suc tl_drop min_def)
next
  case (2 s)
  obtain hl i where s: "s = (hl, i)" by force
  show ?case using hostlist_next_spec [of hl i] 2 by (auto simp: s next_step_def)
qed

interpretation hl_pop: iteration pop_step hl_ok "\<lambda>hl. rev (hosts hl)"
proof (unfold_locales, goal_cases)
  case (1 hl)
  obtain h hl' where p: "hostlist_pop hl = (h, hl')" by force
  note P = hostlist_pop_spec [OF 1(1) _ p]
  show ?case using P 1(2) by (cases "hosts hl" rule: rev_cases) (auto simp: pop_step_def p)
qed (simp add: pop_step_def hostlist_pop_empty)

interpretation hl_shift: iteration shift_step hl_ok hosts
proof (unfold_locales, goal_cases)
  case (1 hl)
  obtain h hl' where p: "hostlist_shift hl = (h, hl')" by force
  show ?case using hostlist_shift_spec [OF 1 p] by (simp add: shift_step_def p)
qed (simp add: shift_step_def hostlist_shift_empty)

section \<open>Removing the host last returned\<close>

lemma before_unique:
  assumes "j < length rs" "k < length rs" "before rs j + m = before rs k + n"
    and "m < length (hr_hosts (rs ! j))" "n < length (hr_hosts (rs ! k))"
  shows "j = k \<and> m = n"
proof (cases j k rule: linorder_cases)
  case less
  then have "before rs (Suc j) \<le> before rs k" by (intro before_mono) simp
  then show ?thesis using assms before_Suc [OF assms(1)] by simp
next
  case greater
  then have "before rs (Suc k) \<le> before rs j" by (intro before_mono) simp
  then show ?thesis using assms before_Suc [OF assms(2)] by simp
qed (use assms in simp)

text \<open>
  The host the iterator returned last is removed, whatever happens to the position of the
  iterator.
\<close>

lemma hostlist_remove_hosts:
  assumes "hl_ok hl" "k < length (ilist hl)" "iter_ok (hranges hl) (ilist hl ! k)"
    and "hidx (ilist hl ! k) < int (length (hranges hl))" "0 \<le> hdepth (ilist hl ! k)"
  defines "p \<equiv> iter_pos (hranges hl) (ilist hl ! k)"
  shows "\<exists>hl'. hostlist_remove hl k = Some (1, hl') \<and> hl_ok hl' \<and>
    0 < p \<and> hosts hl' = take (p - 1) (hosts hl) @ drop p (hosts hl)"
proof -
  define i where "i = ilist hl ! k"
  define j where "j = nat (hidx i)"
  define m where "m = nat (hdepth i)"
  define r where "r = hranges hl ! j"
  have I: "hidx i = int j" "hdepth i = int m" "hfresh i" "j < length (hranges hl)" "m < length (hr_hosts r)"
    using assms(3-5) by (auto simp: i_def j_def m_def r_def iter_ok_def)
  have p: "p = before (hranges hl) j + m + 1"
    using I assms(4) by (simp add: p_def i_def [symmetric] iter_pos_def j_def nat_add_distrib)
  have k: "before (hranges hl) j + m < length (hosts hl)"
    using before_nth(2) [of j "hranges hl" m] I by (simp add: hosts_def r_def)
  obtain j' m' where J: "nth_range (hranges hl) (int (before (hranges hl) j + m)) 0 0 =
        Some (j', int (before (hranges hl) j'))"
      "j' < length (hranges hl)" "before (hranges hl) j + m = before (hranges hl) j' + m'"
      "m' < length (hr_hosts (hranges hl ! j'))"
    using hosts_split [OF assms(1) k] by metis
  have jj: "j' = j" using before_unique [OF I(4) J(2,3)] I(5) J(4) by (simp add: r_def)
  obtain new hr where d: "hostrange_delete_host r (lo r + of_int (hdepth i)) = (new, hr)" by force
  have num: "lo r + of_nat m = lo r + of_int (hdepth i)" by (simp add: I(2))
  have ok: "hr_ok r" using hl_okD(1) [OF assms(1)] I(4) by (simp add: r_def list_all_length range_ok_def)
  obtain n hl2 where D: "hostlist_delete_nth hl (int (before (hranges hl) j + m)) = (n, hl2)" by force
  have "hl2 = (let hl =
      (if singlehost r then hostlist_delete_range hl j
       else let hl = hl\<lparr>hranges := (hranges hl)[j := hr]\<rparr>
         in case new of Some new \<Rightarrow> snd (hostlist_insert_range hl new (j + 1))
           | None \<Rightarrow> if hostrange_empty hr then hostlist_delete_range hl j else hl)
      in hl\<lparr>nhosts := nhosts hl - 1\<rparr>)"
    using D d num unfolding hostlist_delete_nth_def J(1) jj
    by (simp add: r_def [symmetric] Let_def split: if_splits)
  moreover have "singlehost r \<Longrightarrow> new = None \<and> hostrange_empty hr"
    using d ok I by (auto simp: hostrange_delete_host_def hr_ok_def hr_hosts_def hostrange_empty_def)
  ultimately have E: "\<exists>hl'. hostlist_remove hl k = Some (1, hl') \<and> hranges hl' = hranges hl2 \<and> nhosts hl' = nhosts hl2"
    using I d unfolding hostlist_remove_def
    by (auto simp: Let_def i_def [symmetric] j_def [symmetric] r_def [symmetric] hostlist_insert_range_def
        split: option.splits if_splits)
  then obtain hl' where e: "hostlist_remove hl k = Some (1, hl')" "hranges hl' = hranges hl2" "nhosts hl' = nhosts hl2"
    by blast
  have "hosts hl' = hosts hl2" "hl_ok hl' = hl_ok hl2" using e(2,3) by (simp_all add: hosts_def hl_ok_def)
  then show ?thesis
    using e(1) hostlist_delete_nth_spec [OF assms(1) k D] p by simp
qed

end
