(* ===== verification/Hostset.thy ===== *)
theory Hostset
  imports Hostlist_Iter "HOL-Library.Multiset"
begin

text \<open>
  Sorting, removing duplicates, and sets of hosts, which are host lists without duplicates.

  \<open>qsort\<close> is a parameter \<open>qs\<close>: it permutes the array, and the comparison it calls may
  adjust the widths of the ranges it is given. \<open>hostlist_coalesce\<close> restarts its loop each
  time it splits two ranges; the outer \<open>None\<close> is a call that does not return.
\<close>

section \<open>Joining ranges\<close>

definition attempt_range_join :: "hostlist \<Rightarrow> nat \<Rightarrow> int \<times> hostlist" where
  "attempt_range_join hl loc =
    (let (ndup, h1, h2) = hostrange_join (hranges hl ! (loc - 1)) (hranges hl ! loc);
         hl = hl\<lparr>hranges := (hranges hl)[loc - 1 := h1, loc := h2]\<rparr>
     in if ndup \<ge> 0
        then let hl = hostlist_delete_range hl loc in (ndup, hl\<lparr>nhosts := nhosts hl - ndup\<rparr>)
        else (ndup, hl))"

text \<open>The loop of \<open>hostlist_uniq\<close>\<close>

function uniq_loop :: "hostlist \<Rightarrow> nat \<Rightarrow> hostlist" where
  "uniq_loop hl i =
    (if i < length (hranges hl) then
       let (n, hl) = attempt_range_join hl i
       in uniq_loop hl (if n < 0 then i + 1 else i)
     else hl)"
  by pat_completeness auto

lemma attempt_range_join_length:
  "attempt_range_join hl loc = (n, hl') \<Longrightarrow> loc < length (hranges hl) \<Longrightarrow>
   length (hranges hl') = (if n < 0 then length (hranges hl) else length (hranges hl) - 1)"
  by (auto simp: attempt_range_join_def Let_def split: prod.splits if_splits)

termination uniq_loop
proof (relation "measure (\<lambda>(hl, i). length (hranges hl) - i)", goal_cases)
  case (2 hl i x n hl')
  then show ?case using attempt_range_join_length [of hl i n hl'] by auto
qed simp

declare uniq_loop.simps [simp del]

definition reset_iterators :: "hostlist \<Rightarrow> hostlist" where
  "reset_iterators hl = hl\<lparr>ilist := map (hostlist_iterator_reset (hranges hl)) (ilist hl)\<rparr>"

definition hostlist_uniq :: "(hostrange list \<Rightarrow> hostrange list) \<Rightarrow> hostlist \<Rightarrow> hostlist" where
  "hostlist_uniq qs hl =
    (if length (hranges hl) \<le> 1 then hl
     else reset_iterators (uniq_loop (hl\<lparr>hranges := qs (hranges hl)\<rparr>) 1))"

section \<open>Sorting\<close>

text \<open>The loop of \<open>hostlist_collapse\<close>, from \<open>i\<close> down\<close>

fun collapse_loop :: "hostlist \<Rightarrow> nat \<Rightarrow> hostlist" where
  "collapse_loop hl 0 = hl"
| "collapse_loop hl (Suc i) =
    (let hprev = hranges hl ! i;
         hnext = hranges hl ! Suc i
     in if hostrange_prefix_cmp (Some hprev) (Some hnext) = 0 \<and> hi hprev = lo hnext - 1 then
          (case hostrange_width_combine hprev hnext of
             None \<Rightarrow> collapse_loop hl i
           | Some (hprev, hnext) \<Rightarrow>
               let hl = hl\<lparr>hranges := (hranges hl)[i := hprev\<lparr>hi := hi hnext\<rparr>, Suc i := hnext]\<rparr>
               in collapse_loop (hostlist_delete_range hl (Suc i)) i)
        else collapse_loop hl i)"

definition hostlist_collapse :: "hostlist \<Rightarrow> hostlist" where
  "hostlist_collapse hl = collapse_loop hl (length (hranges hl) - 1)"

text \<open>The inner loop of \<open>hostlist_coalesce\<close>: the common numbers become single ranges.\<close>

partial_function (option) coalesce_insert ::
  "hostlist \<Rightarrow> hostrange \<Rightarrow> ulong \<Rightarrow> ulong \<Rightarrow> nat \<Rightarrow> hostlist option" where
  [code]: "coalesce_insert hl new phi nlo j =
    (if lo new \<le> hi new then
       let hr = hostrange_create (prefix new) (lo new) (lo new) (width new);
           k = (if lo new > phi then j + 1 else j);
           hl1 = (if lo new > phi then snd (hostlist_insert_range hl hr j) else hl);
           hl2 = (if lo new < nlo then snd (hostlist_insert_range hl1 hr k) else hl1)
       in coalesce_insert hl2 (new\<lparr>lo := lo new + 1\<rparr>) phi nlo (if lo new < nlo then k + 1 else k)
     else Some hl)"

text \<open>
  \<open>None\<close> also stands for the case that the first range has become empty: the code then
  frees the second one and goes on to use it.
\<close>

partial_function (option) coalesce_loop :: "hostlist \<Rightarrow> nat \<Rightarrow> hostlist option" where
  [code]: "coalesce_loop hl i =
    (if i = 0 then Some hl
     else
       let (new, hprev, hnext) = hostrange_intersect (hranges hl ! (i - 1)) (hranges hl ! i)
       in (case new of
             None \<Rightarrow> coalesce_loop (hl\<lparr>hranges := (hranges hl)[i - 1 := hprev, i := hnext]\<rparr>) (i - 1)
           | Some new \<Rightarrow>
               let hnext1 = (if hi new < hi hprev then hnext\<lparr>hi := hi hprev\<rparr> else hnext);
                   hprev1 = hprev\<lparr>hi := lo new\<rparr>;
                   hnext2 = hnext1\<lparr>lo := hi new\<rparr>;
                   hl1 = hl\<lparr>hranges := (hranges hl)[i - 1 := hprev1, i := hnext2]\<rparr>
               in if hostrange_empty hprev1 then None
                  else Option.bind (coalesce_insert hl1 new (hi hprev1) (lo hnext2) i)
                    (\<lambda>hl2. coalesce_loop hl2 (length (hranges hl2) - 1))))"

definition hostlist_coalesce :: "hostlist \<Rightarrow> hostlist option" where
  "hostlist_coalesce hl = map_option hostlist_collapse (coalesce_loop hl (length (hranges hl) - 1))"

definition hostlist_sort :: "(hostrange list \<Rightarrow> hostrange list) \<Rightarrow> hostlist \<Rightarrow> hostlist option" where
  "hostlist_sort qs hl =
    (if length (hranges hl) \<le> 1 then Some hl
     else hostlist_coalesce (reset_iterators (hl\<lparr>hranges := qs (hranges hl)\<rparr>)))"

section \<open>Host sets\<close>

type_synonym hostset = hostlist

definition hostset_create ::
  "(hostrange list \<Rightarrow> hostrange list) \<Rightarrow> errno \<Rightarrow> string option \<Rightarrow> hostset result option" where
  "hostset_create qs stale str =
    map_option (map_sum id (hostlist_uniq qs)) (hostlist_create stale str)"

definition hostset_copy :: "hostset \<Rightarrow> hostset" where
  "hostset_copy hs = hostlist_copy hs"

text \<open>The loop of \<open>hostset_insert_range\<close>: the number of duplicates if the range was inserted\<close>

function insert_range_loop :: "hostset \<Rightarrow> hostrange \<Rightarrow> int \<Rightarrow> nat \<Rightarrow> int option \<times> hostset \<times> hostrange" where
  "insert_range_loop hl hr n i =
    (if i < length (hranges hl) then
       let (c, hr, x) = hostrange_cmp hr (hranges hl ! i);
           hl = hl\<lparr>hranges := (hranges hl)[i := x]\<rparr>
       in if c \<le> 0 then
            let (ndups, hr, x) = hostrange_join hr (hranges hl ! i);
                hl = hl\<lparr>hranges := (hranges hl)[i := x]\<rparr>;
                (ndups, hl) = (if ndups \<ge> 0 then (ndups, hostlist_delete_range hl i) else (0, hl));
                hl = snd (hostlist_insert_range hl hr i);
                (m, hl) = (if i > 0 then attempt_range_join hl i else (0, hl));
                ndups = (if m > 0 then ndups + m else ndups)
            in (Some ndups, hl\<lparr>nhosts := nhosts hl + (n - ndups)\<rparr>, hr)
          else insert_range_loop hl hr n (i + 1)
     else (None, hl, hr))"
  by pat_completeness auto
termination
  by (relation "measure (\<lambda>(hl, _, _, i). length (hranges hl) - i)") auto

declare insert_range_loop.simps [simp del]

definition hostset_insert_range :: "hostset \<Rightarrow> hostrange \<Rightarrow> int \<times> hostset" where
  "hostset_insert_range hl hr =
    (let n = int_of_ulong (hostrange_count hr)
     in case insert_range_loop hl hr n 0 of
          (Some ndups, hl, _) \<Rightarrow> (n - ndups, hl)
        | (None, hl, hr) \<Rightarrow>
            let hl = hl\<lparr>hranges := hranges hl @ [hostrange_copy hr], nhosts := nhosts hl + n\<rparr>;
                (ndups, hl) =
                  (if length (hranges hl) > 1 then attempt_range_join hl (length (hranges hl) - 1)
                   else (0, hl))
            in (n - (if ndups \<le> 0 then 0 else ndups), hl))"

fun insert_ranges :: "hostset \<Rightarrow> hostrange list \<Rightarrow> int \<Rightarrow> int \<times> hostset" where
  "insert_ranges hs [] n = (n, hs)"
| "insert_ranges hs (r # rs) n =
    (let (k, hs) = hostset_insert_range hs r in insert_ranges hs rs (n + k))"

definition hostset_insert ::
  "(hostrange list \<Rightarrow> hostrange list) \<Rightarrow> errno \<Rightarrow> hostset \<Rightarrow> string option \<Rightarrow> (int \<times> hostset) option" where
  "hostset_insert qs stale hs str =
    map_option (\<lambda>r. case r of
        Inl _ \<Rightarrow> (0, hs)
      | Inr hl \<Rightarrow> insert_ranges hs (hranges (hostlist_uniq qs hl)) 0)
    (hostlist_create stale str)"

text \<open>The loop of \<open>hostset_find_host\<close>; looking into a range may adjust its width.\<close>

fun find_host_loop :: "hostrange list \<Rightarrow> string \<Rightarrow> bool \<times> hostrange list" where
  "find_host_loop [] host = (False, [])"
| "find_host_loop (r # rs) host =
    (let (k, r) = hostrange_hn_within r host (host_prefix_end host)
     in if k \<ge> 0 then (True, r # rs)
        else let (found, rs) = find_host_loop rs host in (found, r # rs))"

definition hostset_find_host :: "hostset \<Rightarrow> string \<Rightarrow> int \<times> hostset" where
  "hostset_find_host hs host =
    (let (found, rs) = find_host_loop (hranges hs) host in (of_bool found, hs\<lparr>hranges := rs\<rparr>))"

function within_loop :: "hostset \<Rightarrow> hostlist \<Rightarrow> int \<Rightarrow> int \<times> hostset" where
  "within_loop hs hl nfound =
    (case hostlist_pop hl of
       (None, _) \<Rightarrow> (nfound, hs)
     | (Some name, hl) \<Rightarrow>
         let (k, hs) = hostset_find_host hs name in within_loop hs hl (nfound + k))"
  by pat_completeness auto
termination
  by (relation "measure (\<lambda>(_, hl, _). nat (nhosts hl))")
    (auto dest!: sym [of "(Some _, _)"] dest: hostlist_pop_nhosts)

declare within_loop.simps [simp del]

definition hostset_within :: "errno \<Rightarrow> hostset \<Rightarrow> string option \<Rightarrow> (int \<times> hostset) option" where
  "hostset_within stale hs str =
    map_option (\<lambda>r. case r of
        Inl _ \<Rightarrow> (0, hs)
      | Inr hl \<Rightarrow> let (nfound, hs) = within_loop hs hl 0 in (of_bool (hostlist_count hl = nfound), hs))
    (hostlist_create stale str)"

definition hostset_delete :: "errno \<Rightarrow> hostset \<Rightarrow> string option \<Rightarrow> (int \<times> hostset) option" where
  "hostset_delete stale hs str = hostlist_delete stale hs str"

definition hostset_delete_host :: "hostset \<Rightarrow> string \<Rightarrow> int \<times> hostset" where
  "hostset_delete_host hs host = hostlist_delete_host hs host"

definition hostset_shift :: "hostset \<Rightarrow> string option \<times> hostset" where
  "hostset_shift hs = hostlist_shift hs"

definition hostset_pop :: "hostset \<Rightarrow> string option \<times> hostset" where
  "hostset_pop hs = hostlist_pop hs"

definition hostset_shift_range :: "hostset \<Rightarrow> (string option \<times> hostset) option" where
  "hostset_shift_range hs = hostlist_shift_range hs"

definition hostset_pop_range :: "hostset \<Rightarrow> (string option \<times> hostset) option" where
  "hostset_pop_range hs = hostlist_pop_range hs"

definition hostset_count :: "hostset \<Rightarrow> int" where
  "hostset_count hs = hostlist_count hs"

definition hostset_ranged_string :: "hostset \<Rightarrow> nat \<Rightarrow> int \<times> string" where
  "hostset_ranged_string hs n = hostlist_ranged_string hs n"

definition hostset_deranged_string :: "hostset \<Rightarrow> nat \<Rightarrow> (int \<times> string) option" where
  "hostset_deranged_string hs n = hostlist_deranged_string hs n"

section \<open>Collapsing changes no host\<close>

lemma concat_split2:
  assumes "Suc i < length rs"
  shows "concat (map f rs) = concat (map f (take i rs)) @ f (rs ! i) @ f (rs ! Suc i) @
    concat (map f (drop (Suc (Suc i)) rs))"
proof -
  have "rs = take i rs @ rs ! i # rs ! Suc i # drop (Suc (Suc i)) rs"
    using assms by (metis Cons_nth_drop_Suc Suc_lessD append_take_drop_id)
  then show ?thesis by (metis concat.simps(2) concat_append list.simps(9) map_append)
qed

lemma update_delete:
  assumes "Suc i < length rs"
  shows "take (Suc i) (rs[i := a, Suc i := b]) @ drop (Suc i + 1) (rs[i := a, Suc i := b]) =
    take i rs @ a # drop (Suc (Suc i)) rs"
  using assms by (simp add: take_Suc_conv_app_nth)

lemma list_all_nth: "list_all P rs \<Longrightarrow> i < length rs \<Longrightarrow> P (rs ! i)"
  by (simp add: list_all_length)

lemma collapse_loop_spec:
  assumes "hl_ok hl" "n < length (hranges hl)"
  shows "hl_ok (collapse_loop hl n) \<and> hosts (collapse_loop hl n) = hosts hl"
  using assms
proof (induction n arbitrary: hl)
  case 0
  then show ?case by simp
next
  case (Suc i)
  let ?rs = "hranges hl"
  have l: "Suc i < length ?rs" using Suc.prems(2) by simp
  have ok: "range_ok (?rs ! i)" "range_ok (?rs ! Suc i)"
    using hl_okD(1) [OF Suc.prems(1)] l by (simp_all add: list_all_nth)
  show ?case
  proof (cases "hostrange_prefix_cmp (Some (?rs ! i)) (Some (?rs ! Suc i)) = 0 \<and>
      hi (?rs ! i) = lo (?rs ! Suc i) - 1 \<and> hostrange_width_combine (?rs ! i) (?rs ! Suc i) \<noteq> None")
    case False
    then have "collapse_loop hl (Suc i) = collapse_loop hl i"
      by (auto simp: Let_def split: option.splits)
    then show ?thesis using Suc.IH [OF Suc.prems(1)] l by simp
  next
    case True
    then obtain a b where ab: "hostrange_width_combine (?rs ! i) (?rs ! Suc i) = Some (a, b)" by auto
    note C = hostrange_width_combine_spec [OF ab]
    have same: "prefix (?rs ! i) = prefix (?rs ! Suc i)" "singlehost (?rs ! i) = singlehost (?rs ! Suc i)"
      using True hostrange_prefix_cmp_0 ok by (auto simp: range_ok_def)
    have ns: "\<not> singlehost (?rs ! i)"
    proof
      assume "singlehost (?rs ! i)"
      then have "hi (?rs ! i) = 0" "lo (?rs ! Suc i) = 0"
        using ok same by (simp_all add: range_ok_def hr_ok_def)
      then show False using True by simp
    qed
    have f: "\<not> singlehost a" "\<not> singlehost b" "prefix a = prefix b" "hi a = lo b - 1"
      using same ns True by (subst C(5) C(6); simp)+
    have okab: "hr_ok a" "hr_ok b" using C(3,4) ok by (simp_all add: range_ok_def)
    have J: "hr_hosts (a\<lparr>hi := hi b\<rparr>) = hr_hosts (?rs ! i) @ hr_hosts (?rs ! Suc i)" "hr_ok (a\<lparr>hi := hi b\<rparr>)"
      using hr_hosts_adjacent [OF okab f(1-3) C(7) f(4)] C(1,2) by simp_all
    have nm: "names_ok (a\<lparr>hi := hi b\<rparr>)"
      using ok(1) by (subst C(5)) (simp add: range_ok_def names_ok_def)
    define h where "h = hostlist_delete_range (hl\<lparr>hranges := ?rs[i := a\<lparr>hi := hi b\<rparr>, Suc i := b]\<rparr>) (Suc i)"
    have hr: "hranges h = take i ?rs @ a\<lparr>hi := hi b\<rparr> # drop (Suc (Suc i)) ?rs"
      using update_delete [OF l] by (simp add: h_def)
    have hosts: "hosts h = hosts hl"
      unfolding hosts_def hr concat_split2 [OF l] by (simp add: J(1))
    have "list_all range_ok (hranges h)"
      using hl_okD(1) [OF Suc.prems(1)] J(2) nm by (auto simp: hr range_ok_def)
    moreover have "nhosts h = nhosts hl" by (simp add: h_def)
    ultimately have "hl_ok h"
      using hosts hl_okD(2,3) [OF Suc.prems(1)] by (intro hl_okI) simp_all
    moreover have "collapse_loop hl (Suc i) = collapse_loop h i"
      using True ab by (simp add: h_def Let_def)
    moreover have "i < length (hranges h)" using l by (simp add: hr)
    ultimately show ?thesis using Suc.IH [of h] hosts by simp
  qed
qed

lemma hostlist_collapse_spec:
  assumes "hl_ok hl"
  shows "hl_ok (hostlist_collapse hl) \<and> hosts (hostlist_collapse hl) = hosts hl"
proof (cases "hranges hl = []")
  case True
  then show ?thesis using assms by (simp add: hostlist_collapse_def)
next
  case False
  then show ?thesis unfolding hostlist_collapse_def by (intro collapse_loop_spec [OF assms]) simp
qed

section \<open>Removing duplicates\<close>

text \<open>Ranges of numbers with the same prefix are in the order of their lower bounds.\<close>

definition lo_sorted :: "hostrange list \<Rightarrow> bool" where
  "lo_sorted rs \<longleftrightarrow> sorted_wrt (\<lambda>a b. prefix a = prefix b \<and> \<not> singlehost a \<and> \<not> singlehost b \<longrightarrow> lo a \<le> lo b) rs"

lemma hostrange_join_fields:
  assumes "hostrange_join h1 h2 = (d, g1, g2)"
  shows "prefix g1 = prefix h1" "lo g1 = lo h1" "singlehost g1 = singlehost h1"
    "prefix g2 = prefix h2" "lo g2 = lo h2" "singlehost g2 = singlehost h2"
  using assms
  by (auto simp: hostrange_join_def hostrange_width_combine_def split: if_splits option.splits prod.splits)

text \<open>Joining neighbours in order, single hosts included\<close>

lemma join_neighbours:
  assumes "range_ok h1" "range_ok h2" "length (hr_hosts h1) < 2 ^ 31" "length (hr_hosts h2) < 2 ^ 31"
    and "prefix h1 = prefix h2 \<and> \<not> singlehost h1 \<and> \<not> singlehost h2 \<longrightarrow> lo h1 \<le> lo h2"
    and "hostrange_join h1 h2 = (d, g1, g2)"
  shows "d < 0 \<Longrightarrow> hr_hosts g1 = hr_hosts h1 \<and> hr_hosts g2 = hr_hosts h2 \<and> range_ok g1 \<and> range_ok g2"
    and "0 \<le> d \<Longrightarrow> range_ok g1 \<and> set (hr_hosts g1) = set (hr_hosts h1) \<union> set (hr_hosts h2) \<and>
      int (length (hr_hosts g1)) = int (length (hr_hosts h1)) + int (length (hr_hosts h2)) - d"
proof -
  note F = hostrange_join_fields [OF assms(6)]
  have nm: "names_ok g1" "names_ok g2" using assms(1,2) F by (simp_all add: range_ok_def names_ok_def)
  have "(d < 0 \<longrightarrow> hr_hosts g1 = hr_hosts h1 \<and> hr_hosts g2 = hr_hosts h2 \<and> hr_ok g1 \<and> hr_ok g2) \<and>
    (0 \<le> d \<longrightarrow> hr_ok g1 \<and> set (hr_hosts g1) = set (hr_hosts h1) \<union> set (hr_hosts h2) \<and>
      int (length (hr_hosts g1)) = int (length (hr_hosts h1)) + int (length (hr_hosts h2)) - d)"
  proof (cases "prefix h1 = prefix h2 \<and> singlehost h1 = singlehost h2")
    case False
    then have "hostrange_prefix_cmp (Some h1) (Some h2) \<noteq> 0"
      using hostrange_prefix_cmp_0 assms(1,2) by (auto simp: range_ok_def)
    then have "d = -1" "g1 = h1" "g2 = h2" using assms(6) by (simp_all add: hostrange_join_def)
    then show ?thesis using assms(1,2) by (simp add: range_ok_def)
  next
    case same: True
    show ?thesis
    proof (cases "singlehost h1")
      case True
      have d: "d = 1 \<or> d = -1" "hi g1 = hi h1" "hi g2 = hi h2"
        using assms(6) True same
        by (auto simp: hostrange_join_def hostrange_width_combine_def split: if_splits option.splits)
      then have "hr_hosts g1 = [prefix h1]" "hr_hosts g2 = [prefix h2]" "hr_ok g1" "hr_ok g2"
        using assms(1,2) True same F by (simp_all add: hr_hosts_def range_ok_def hr_ok_def)
      then show ?thesis using True same d(1) by (auto simp: hr_hosts_def)
    next
      case False
      then have ns: "\<not> singlehost h2" "lo h1 \<le> lo h2" using same assms(5) by simp_all
      note J = hostrange_join_spec [OF range_okD(1) [OF assms(1)] range_okD(1) [OF assms(2)]
        range_okD(2) [OF assms(1)] range_okD(2) [OF assms(2)] False ns assms(3,4,6)]
      show ?thesis
      proof (cases "d = -1")
        case True
        then show ?thesis using J(1) by simp
      next
        case False
        then show ?thesis using J(2) by simp
      qed
    qed
  qed
  then show "d < 0 \<Longrightarrow> hr_hosts g1 = hr_hosts h1 \<and> hr_hosts g2 = hr_hosts h2 \<and> range_ok g1 \<and> range_ok g2"
    and "0 \<le> d \<Longrightarrow> range_ok g1 \<and> set (hr_hosts g1) = set (hr_hosts h1) \<union> set (hr_hosts h2) \<and>
      int (length (hr_hosts g1)) = int (length (hr_hosts h1)) + int (length (hr_hosts h2)) - d"
    using nm by (simp_all add: range_ok_def)
qed

lemma lo_sorted_replace:
  assumes "lo_sorted (xs @ h1 # h2 # ys)" "prefix g1 = prefix h1" "lo g1 = lo h1" "singlehost g1 = singlehost h1"
  shows "lo_sorted (xs @ g1 # ys)"
    "prefix g2 = prefix h2 \<Longrightarrow> lo g2 = lo h2 \<Longrightarrow> singlehost g2 = singlehost h2 \<Longrightarrow> lo_sorted (xs @ g1 # g2 # ys)"
  using assms by (auto simp: lo_sorted_def sorted_wrt_append)

lemma attempt_range_join_spec:
  assumes "hl_ok hl" "lo_sorted (hranges hl)" "Suc i < length (hranges hl)"
    and "attempt_range_join hl (Suc i) = (n, hl')"
  shows "hl_ok hl' \<and> lo_sorted (hranges hl') \<and> set (hosts hl') = set (hosts hl) \<and>
    length (hosts hl') \<le> length (hosts hl)"
proof -
  let ?rs = "hranges hl"
  define xs where "xs = take i ?rs"
  define ys where "ys = drop (Suc (Suc i)) ?rs"
  have rs: "?rs = xs @ ?rs ! i # ?rs ! Suc i # ys"
    using assms(3) unfolding xs_def ys_def by (metis Cons_nth_drop_Suc Suc_lessD append_take_drop_id)
  obtain d g1 g2 where j: "hostrange_join (?rs ! i) (?rs ! Suc i) = (d, g1, g2)" by (metis prod_cases3)
  note F = hostrange_join_fields [OF j]
  have ok: "range_ok (?rs ! i)" "range_ok (?rs ! Suc i)" "list_all range_ok xs" "list_all range_ok ys"
    using hl_okD(1) [OF assms(1)] assms(3) by (auto simp: list_all_nth xs_def ys_def)
  have len: "length (hr_hosts (?rs ! i)) < 2 ^ 31" "length (hr_hosts (?rs ! Suc i)) < 2 ^ 31"
    using hl_okD(3) [OF assms(1)] unfolding hosts_def concat_split2 [OF assms(3)] by simp_all
  have le: "prefix (?rs ! i) = prefix (?rs ! Suc i) \<and> \<not> singlehost (?rs ! i) \<and> \<not> singlehost (?rs ! Suc i) \<longrightarrow>
      lo (?rs ! i) \<le> lo (?rs ! Suc i)"
    using assms(2) sorted_wrt_nth_less [of _ ?rs i "Suc i"] assms(3) unfolding lo_sorted_def by blast
  note J = join_neighbours [OF ok(1,2) len le j]
  have srt: "lo_sorted (xs @ ?rs ! i # ?rs ! Suc i # ys)" using assms(2) rs by simp
  have upd: "?rs[i := g1, Suc i := g2] = xs @ g1 # g2 # ys"
  proof -
    have "length xs = i" using assms(3) by (simp add: xs_def)
    then show ?thesis by (subst rs) (simp add: list_update_append)
  qed
  have H: "hosts hl = concat (map hr_hosts xs) @ hr_hosts (?rs ! i) @ hr_hosts (?rs ! Suc i) @ concat (map hr_hosts ys)"
    unfolding hosts_def xs_def ys_def by (rule concat_split2 [OF assms(3)])
  show ?thesis
  proof (cases "0 \<le> d")
    case True
    then have hr: "hranges hl' = xs @ g1 # ys" and nh: "nhosts hl' = nhosts hl - d"
      using assms(4) j update_delete [OF assms(3), of g1 g2]
      by (auto simp: attempt_range_join_def Let_def xs_def ys_def)
    note J2 = J(2) [OF True]
    have hosts': "hosts hl' = concat (map hr_hosts xs) @ hr_hosts g1 @ concat (map hr_hosts ys)"
      by (simp add: hosts_def hr)
    have l: "int (length (hosts hl')) = int (length (hosts hl)) - d"
      using J2 unfolding H hosts' by simp
    have "hl_ok hl'"
      using l nh hl_okD(2,3) [OF assms(1)] J2 ok True by (intro hl_okI) (simp_all add: hr)
    moreover have "set (hosts hl') = set (hosts hl)" using J2 unfolding H hosts' by auto
    ultimately show ?thesis
      using lo_sorted_replace(1) [OF srt F(1-3)] l True by (simp add: hr)
  next
    case False
    then have hr: "hranges hl' = xs @ g1 # g2 # ys" and nh: "nhosts hl' = nhosts hl"
      using assms(4) j upd by (auto simp: attempt_range_join_def Let_def)
    have J1: "hr_hosts g1 = hr_hosts (?rs ! i) \<and> hr_hosts g2 = hr_hosts (?rs ! Suc i) \<and> range_ok g1 \<and> range_ok g2"
      using J(1) False by simp
    have e: "hosts hl' = hosts hl" unfolding H by (simp add: hosts_def hr J1)
    then have "hl_ok hl'"
      using nh hl_okD(2,3) [OF assms(1)] J1 ok by (intro hl_okI) (simp_all add: hr)
    then show ?thesis using lo_sorted_replace(2) [OF srt F] e by (simp add: hr)
  qed
qed

lemma uniq_loop_spec:
  assumes "hl_ok hl" "lo_sorted (hranges hl)" "0 < i"
  shows "hl_ok (uniq_loop hl i) \<and> lo_sorted (hranges (uniq_loop hl i)) \<and>
    set (hosts (uniq_loop hl i)) = set (hosts hl) \<and> length (hosts (uniq_loop hl i)) \<le> length (hosts hl)"
  using assms
proof (induction hl i rule: uniq_loop.induct)
  case (1 hl i)
  show ?case
  proof (cases "i < length (hranges hl)")
    case False
    then show ?thesis using 1 by (subst (1 2 3 4) uniq_loop.simps) simp
  next
    case True
    obtain j where j: "i = Suc j" using 1(4) by (cases i) auto
    obtain n hl' where a: "attempt_range_join hl i = (n, hl')" by force
    note A = attempt_range_join_spec [OF 1(2,3) True [unfolded j] a [unfolded j]]
    have "uniq_loop hl i = uniq_loop hl' (if n < 0 then i + 1 else i)"
      using True a by (subst uniq_loop.simps) simp
    then show ?thesis using "1.IH" [OF True a [symmetric] refl] A 1(4) by auto
  qed
qed

lemma hostlist_uniq_spec:
  assumes "hl_ok hl" "list_all range_ok (qs (hranges hl))" "lo_sorted (qs (hranges hl))"
    and "mset (map hr_hosts (qs (hranges hl))) = mset (map hr_hosts (hranges hl))"
  shows "hl_ok (hostlist_uniq qs hl) \<and> set (hosts (hostlist_uniq qs hl)) = set (hosts hl) \<and>
    length (hosts (hostlist_uniq qs hl)) \<le> length (hosts hl)"
proof (cases "length (hranges hl) \<le> 1")
  case True
  then show ?thesis using assms(1) by (simp add: hostlist_uniq_def)
next
  case False
  define h where "h = hl\<lparr>hranges := qs (hranges hl)\<rparr>"
  have "mset (concat xss) = \<Sum>\<^sub># (image_mset mset (mset xss))" for xss :: "string list list"
    by (induction xss) simp_all
  then have m: "mset (hosts h) = mset (hosts hl)"
    unfolding hosts_def h_def using assms(4) by simp
  have e: "set (hosts h) = set (hosts hl)" "length (hosts h) = length (hosts hl)"
    using mset_eq_setD [OF m] mset_eq_length [OF m] .
  have "hl_ok h"
    using assms(1,2) e(2) by (intro hl_okI) (simp_all add: h_def hl_ok_def)
  then have "hl_ok (uniq_loop h 1) \<and> lo_sorted (hranges (uniq_loop h 1)) \<and>
    set (hosts (uniq_loop h 1)) = set (hosts h) \<and> length (hosts (uniq_loop h 1)) \<le> length (hosts h)"
    using assms(3) by (intro uniq_loop_spec) (simp_all add: h_def)
  then show ?thesis
    using False e by (simp add: hostlist_uniq_def h_def [symmetric] reset_iterators_def)
qed

section \<open>Membership\<close>

lemma find_host_loop_spec:
  assumes "list_all range_ok rs" "NUL \<notin> set host" "findable host"
    and "length (concat (map hr_hosts rs)) < 2 ^ 31" "find_host_loop rs host = (found, rs')"
  shows "found = (host \<in> set (concat (map hr_hosts rs))) \<and> map hr_hosts rs' = map hr_hosts rs \<and>
    list_all range_ok rs'"
  using assms
proof (induction rs arbitrary: found rs')
  case Nil
  then show ?case by simp
next
  case (Cons r rs)
  obtain k r' where w: "hostrange_hn_within r host (host_prefix_end host) = (k, r')" by force
  have r: "hr_ok r" "names_ok r" "length (hr_hosts r) < 2 ^ 31"
    using Cons.prems(1,4) by (simp_all add: range_ok_def)
  note W = hn_within_spec [OF r(1,2) Cons.prems(2,3) r(3) w]
  show ?case
  proof (cases "host \<in> set (hr_hosts r)")
    case True
    then have "found" "rs' = r' # rs" using W(4) Cons.prems(5) w by simp_all
    then show ?thesis using True W(1-3) Cons.prems(1) by (simp add: range_ok_def)
  next
    case False
    obtain f2 rs2 where f: "find_host_loop rs host = (f2, rs2)" by force
    then have "found = f2" "rs' = r' # rs2" using W(5) [OF False] Cons.prems(5) w by simp_all
    then show ?thesis
      using Cons.IH [OF _ Cons.prems(2,3) _ f] Cons.prems(1,4) W(1-3) False by (simp add: range_ok_def)
  qed
qed

lemma hostset_find_host_spec:
  assumes "hl_ok hs" "NUL \<notin> set host" "findable host" "hostset_find_host hs host = (k, hs')"
  shows "k = of_bool (host \<in> set (hosts hs))" "hosts hs' = hosts hs" "hl_ok hs'"
proof -
  obtain f rs where l: "find_host_loop (hranges hs) host = (f, rs)" by force
  have e: "k = of_bool f" "hs' = hs\<lparr>hranges := rs\<rparr>"
    using assms(4) l by (simp_all add: hostset_find_host_def)
  have L: "f = (host \<in> set (concat (map hr_hosts (hranges hs)))) \<and>
      map hr_hosts rs = map hr_hosts (hranges hs) \<and> list_all range_ok rs"
    using assms(1) by (intro find_host_loop_spec [OF _ assms(2,3) _ l]) (simp_all add: hl_ok_def hosts_def)
  show "k = of_bool (host \<in> set (hosts hs))" using L by (simp add: e(1) hosts_def)
  show h: "hosts hs' = hosts hs" using L by (simp add: e(2) hosts_def)
  show "hl_ok hs'" using L assms(1) h unfolding hl_ok_def by (simp add: e(2))
qed

lemma within_loop_spec:
  assumes "hl_ok hs" "hl_ok hl" "\<forall>h\<in>set (hosts hl). NUL \<notin> set h \<and> findable h"
    and "within_loop hs hl n = (n', hs')"
  shows "n' = n + int (length (filter (\<lambda>h. h \<in> set (hosts hs)) (hosts hl))) \<and> hosts hs' = hosts hs \<and> hl_ok hs'"
  using assms
proof (induction "length (hosts hl)" arbitrary: hs hl n)
  case 0
  then have "within_loop hs hl n = (n, hs)"
    by (subst within_loop.simps) (simp add: hostlist_pop_empty)
  then show ?case using 0 by simp
next
  case (Suc m)
  have ne: "hosts hl \<noteq> []" using Suc.hyps(2) by auto
  obtain host hl2 where p: "hostlist_pop hl = (host, hl2)" by force
  note P = hostlist_pop_spec [OF Suc.prems(2) ne p]
  define x where "x = last (hosts hl)"
  have x: "NUL \<notin> set x" "findable x" using Suc.prems(3) ne by (simp_all add: x_def)
  obtain k hs2 where f: "hostset_find_host hs x = (k, hs2)" by force
  note D = hostset_find_host_spec [OF Suc.prems(1) x f]
  have "within_loop hs hl n = within_loop hs2 hl2 (n + k)"
    by (subst within_loop.simps) (simp add: p P(1) x_def [symmetric] f)
  then have "n' = n + k + int (length (filter (\<lambda>h. h \<in> set (hosts hs2)) (hosts hl2))) \<and>
      hosts hs' = hosts hs2 \<and> hl_ok hs'"
    using Suc.prems(3,4) Suc.hyps(2) P(2) by (intro Suc.hyps(1) D(3) P(3)) (auto dest: in_set_butlastD)
  moreover have "hosts hl = hosts hl2 @ [x]" using ne P(2) by (simp add: x_def)
  ultimately show ?case using D(1,2) by simp
qed

lemma hostset_within_items:
  assumes "hl_ok hs" "list_all item_ok is" "length (concat (map item_hosts is)) < 2 ^ 31"
    and "\<forall>h\<in>set (concat (map item_hosts is)). NUL \<notin> set h \<and> findable h"
  shows "\<exists>hs'. hostset_within stale hs (Some (commas (map item_text is))) =
      Some (of_bool (set (concat (map item_hosts is)) \<subseteq> set (hosts hs)), hs') \<and>
    hosts hs' = hosts hs \<and> hl_ok hs'"
proof -
  obtain new where new: "hostlist_create stale (Some (commas (map item_text is))) = Some (Inr new)"
      "hl_ok new" "hosts new = concat (map item_hosts is)"
    using hostlist_create_items [OF assms(2,3)] by fastforce
  obtain n hs' where w: "within_loop hs new 0 = (n, hs')" by force
  have W: "n = 0 + int (length (filter (\<lambda>h. h \<in> set (hosts hs)) (hosts new))) \<and> hosts hs' = hosts hs \<and> hl_ok hs'"
    using assms(4) new(3) by (intro within_loop_spec [OF assms(1) new(2) _ w]) simp
  have "length (filter P xs) = length xs \<longleftrightarrow> (\<forall>x\<in>set xs. P x)" for P and xs :: "string list"
    by (metis filter_True filter_id_conv length_filter_less less_irrefl)
  then have "(length (hosts new) = length (filter (\<lambda>h. h \<in> set (hosts hs)) (hosts new))) =
      (set (hosts new) \<subseteq> set (hosts hs))"
    by (metis subset_code(1))
  then have "(hostlist_count new = n) = (set (hosts new) \<subseteq> set (hosts hs))"
    using W hl_okD(2) [OF new(2)] by (simp add: hostlist_count_def)
  then show ?thesis
    using new W w by (simp add: hostset_within_def)
qed

end
