(* ===== verification/XString.thy ===== *)
theory XString
  imports C_String
begin

text \<open>
  Growing strings (\<open>common/xstring.c\<close> on the sized blocks of \<open>common/xmalloc.c\<close>) and
  the formatter of all messages and all output lines (\<open>common/err.c\<close>).
\<close>

section \<open>Strings in sized blocks\<close>

text \<open>
  A string allocated with \<open>Malloc\<close>: the size the block records in its header, and the string
  in it. Allocation failures end the program.
\<close>

record xstr =
  xsize :: nat
  xtext :: string

definition Malloc :: "nat \<Rightarrow> xstr" where
  "Malloc n = \<lparr>xsize = n, xtext = []\<rparr>"

definition Realloc :: "xstr \<Rightarrow> nat \<Rightarrow> xstr" where
  "Realloc x n = x\<lparr>xsize := n\<rparr>"

definition Strdup :: "string option \<Rightarrow> xstr option" where
  "Strdup str = map_option (\<lambda>s. (Malloc (length s + 1))\<lparr>xtext := s\<rparr>) str"

definition XFGETS_CHUNKSIZE :: nat where
  "XFGETS_CHUNKSIZE = 32"

text \<open>The loop of \<open>_makespace\<close>\<close>

function grow_block :: "xstr \<Rightarrow> nat \<Rightarrow> xstr" where
  "grow_block x need =
    (if need > xsize x then grow_block (Realloc x (xsize x + XFGETS_CHUNKSIZE)) need else x)"
  by pat_completeness auto
termination
  by (relation "measure (\<lambda>(x, need). need - xsize x)") (auto simp: Realloc_def XFGETS_CHUNKSIZE_def)

declare grow_block.simps [simp del]

definition makespace :: "xstr option \<Rightarrow> nat \<Rightarrow> xstr" where
  "makespace str needed =
    (case str of
       None \<Rightarrow> Malloc (needed + 1)
     | Some x \<Rightarrow> let used = length (xtext x) + 1 in grow_block x (used + needed))"

definition xstrcat :: "xstr option \<Rightarrow> string \<Rightarrow> xstr" where
  "xstrcat str1 str2 = (let x = makespace str1 (length str2) in x\<lparr>xtext := xtext x @ str2\<rparr>)"

definition xstrcpy :: "xstr option \<Rightarrow> string \<Rightarrow> xstr" where
  "xstrcpy str1 str2 = (makespace str1 (length str2))\<lparr>xtext := str2\<rparr>"

definition xstrcatchar :: "xstr option \<Rightarrow> char \<Rightarrow> xstr" where
  "xstrcatchar str c = (let x = makespace str 1 in x\<lparr>xtext := xtext x @ [c]\<rparr>)"

text \<open>The string and its terminator are inside the block.\<close>

definition xstr_ok :: "xstr \<Rightarrow> bool" where
  "xstr_ok x \<longleftrightarrow> length (xtext x) < xsize x"

lemma grow_block_spec: "xtext (grow_block x n) = xtext x \<and> n \<le> xsize (grow_block x n) \<and> xsize x \<le> xsize (grow_block x n)"
proof (induction x n rule: grow_block.induct)
  case (1 x need)
  then show ?case by (subst (1 2 3) grow_block.simps) (auto simp: Realloc_def)
qed

definition xtext_of :: "xstr option \<Rightarrow> string" where
  "xtext_of s = (case s of None \<Rightarrow> [] | Some x \<Rightarrow> xtext x)"

lemma makespace_spec: "xtext (makespace s n) = xtext_of s \<and> length (xtext_of s) + n < xsize (makespace s n)"
  using grow_block_spec [of "the s" "length (xtext (the s)) + 1 + n"]
  by (cases s) (auto simp: makespace_def Malloc_def xtext_of_def Let_def)

lemma xstrcat_spec: "xtext (xstrcat s t) = xtext_of s @ t \<and> xstr_ok (xstrcat s t)"
  using makespace_spec [of s "length t"] by (simp add: xstrcat_def xstr_ok_def Let_def)

lemma xstrcatchar_spec: "xtext (xstrcatchar s c) = xtext_of s @ [c] \<and> xstr_ok (xstrcatchar s c)"
  using makespace_spec [of s 1] by (simp add: xstrcatchar_def xstr_ok_def Let_def)

lemma xstrcpy_spec: "xtext (xstrcpy s t) = t \<and> xstr_ok (xstrcpy s t)"
  using makespace_spec [of s "length t"] by (simp add: xstrcpy_def xstr_ok_def)

lemma Strdup_spec: "\<exists>x. Strdup (Some s) = Some x \<and> xtext x = s \<and> xstr_ok x"
  by (simp add: Strdup_def Malloc_def xstr_ok_def)

section \<open>Trimming\<close>

definition SPACES :: string where
  "SPACES = [LF, CHR 0x09, CHR '' '']"

text \<open>The loop over the trailing characters stops at the first character of \<open>str\<close>.\<close>

function zap_trailing :: "string \<Rightarrow> string \<Rightarrow> string" where
  "zap_trailing verboten str =
    (if length str > 1 \<and> strchr verboten (last str) then zap_trailing verboten (butlast str) else str)"
  by pat_completeness auto
termination
  by (relation "measure (\<lambda>(_, str). length str)") auto

declare zap_trailing.simps [simp del]

text \<open>
  \<open>memmove\<close> moves the characters without the terminator, so the string at \<open>base\<close> keeps
  its length, and the loop then shortens it by the number of leading characters.
\<close>

definition xstrcln :: "string \<Rightarrow> string option \<Rightarrow> string" where
  "xstrcln base verboten =
    (let verboten = (case verboten of None \<Rightarrow> SPACES | Some v \<Rightarrow> v);
         str = dropWhile (strchr verboten) base;
         skipped = length base - length str;
         str = (if length str > 0 then zap_trailing verboten str else str);
         base = take skipped base @ str;
         base = str @ drop (length str) base
     in take (length base - skipped) base)"

lemma zap_trailing_snoc:
  "str \<noteq> [] \<Longrightarrow> zap_trailing v (str @ [c]) = (if strchr v c then zap_trailing v str else str @ [c])"
  by (subst zap_trailing.simps) simp

lemma zap_trailing_rev:
  assumes "str \<noteq> []" "\<not> strchr v (hd str)"
  shows "zap_trailing v str = rev (dropWhile (strchr v) (rev str))"
  using assms
proof (induction str rule: rev_induct)
  case (snoc c str)
  show ?case
  proof (cases "str = []")
    case True
    then show ?thesis using snoc.prems by (subst zap_trailing.simps) simp
  next
    case False
    then show ?thesis using snoc by (simp add: zap_trailing_snoc)
  qed
qed simp

lemma xstrcln_trims:
  "xstrcln s v = (let v = (case v of None \<Rightarrow> SPACES | Some v \<Rightarrow> v)
    in rev (dropWhile (strchr v) (rev (dropWhile (strchr v) s))))"
proof -
  define w where "w = (case v of None \<Rightarrow> SPACES | Some v \<Rightarrow> v)"
  define str where "str = dropWhile (strchr w) s"
  define str' where "str' = (if length str > 0 then zap_trailing w str else str)"
  have x: "xstrcln s v = take (length (str' @ drop (length str') (take (length s - length str) s @ str')) - (length s - length str))
      (str' @ drop (length str') (take (length s - length str) s @ str'))"
    by (simp only: xstrcln_def Let_def w_def [symmetric] str_def [symmetric] str'_def)
  have le: "length str \<le> length s" unfolding str_def by (rule length_dropWhile_le)
  have "str \<noteq> [] \<Longrightarrow> \<not> strchr w (hd str)" unfolding str_def by (rule hd_dropWhile)
  then have tr: "str' = rev (dropWhile (strchr w) (rev str))"
    using zap_trailing_rev [of str w] by (cases "str = []") (simp_all add: str'_def)
  have "xstrcln s v = str'" unfolding x using le by simp
  then show ?thesis unfolding Let_def w_def [symmetric] str_def [symmetric] tr .
qed

definition xbasename :: "string \<Rightarrow> string" where
  "xbasename path =
    (if strchr path (CHR ''/'') then rev (takeWhile (\<lambda>c. c \<noteq> CHR ''/'') (rev path)) else path)"

section \<open>Messages\<close>

record err_env =
  prog :: string
  this_host :: string
  keep_host_domain :: bool
  strerror :: string

datatype fmt_arg = Str string | Num int | Chr char

definition LINEBUFSIZE :: nat where
  "LINEBUFSIZE = 2048"

text \<open>\<open>snprintf\<close> into the line buffer\<close>

definition to_tmpstr :: "string \<Rightarrow> string" where
  "to_tmpstr s = take (LINEBUFSIZE - 1) s"

definition show_int :: "nat \<Rightarrow> int \<Rightarrow> string" where
  "show_int w n = (if n < 0 then CHR ''-'' # fmt0 w (nat (- n)) else fmt0 w (nat n))"

definition percent_S :: "err_env \<Rightarrow> string \<Rightarrow> string" where
  "percent_S env s =
    (let t = to_tmpstr s
     in if \<not> (t \<noteq> [] \<and> isdigit (hd t)) \<and> \<not> keep_host_domain env
        then takeWhile (\<lambda>c. c \<noteq> CHR ''.'') t else t)"

text \<open>
  The loop of \<open>_verr\<close>; \<open>None\<close> stands for an argument that is missing or of another
  type, and for \<open>fputs\<close> of the null pointer an empty format leaves.
\<close>

fun verr_loop :: "err_env \<Rightarrow> bool \<Rightarrow> string \<Rightarrow> fmt_arg list \<Rightarrow> xstr option \<Rightarrow> xstr option option" where
  "verr_loop env percent [] args buf = Some buf"
| "verr_loop env True (f # fs) args buf =
    (if f = CHR ''s'' then
       (case args of Str s # args \<Rightarrow> verr_loop env False fs args (Some (xstrcat buf s)) | _ \<Rightarrow> None)
     else if f = CHR ''S'' then
       (case args of Str s # args \<Rightarrow> verr_loop env False fs args (Some (xstrcat buf (percent_S env s))) | _ \<Rightarrow> None)
     else if f = CHR ''z'' then
       (case args of Num n # args \<Rightarrow> verr_loop env False fs args (Some (xstrcat buf (to_tmpstr (show_int 3 n)))) | _ \<Rightarrow> None)
     else if f = CHR ''c'' then
       (case args of Chr c # args \<Rightarrow> verr_loop env False fs args (Some (xstrcatchar buf c)) | _ \<Rightarrow> None)
     else if f = CHR ''d'' then
       (case args of Num n # args \<Rightarrow> verr_loop env False fs args (Some (xstrcat buf (to_tmpstr (show_int 1 n)))) | _ \<Rightarrow> None)
     else if f = CHR ''m'' then verr_loop env False fs args (Some (xstrcat buf (strerror env)))
     else if f = CHR ''P'' then verr_loop env False fs args (Some (xstrcat buf (prog env)))
     else if f = CHR ''H'' then verr_loop env False fs args (Some (xstrcat buf (this_host env)))
     else if f = CHR ''p'' then
       verr_loop env False fs args (Some (xstrcat buf (to_tmpstr (prog env @ ''@'' @ this_host env))))
     else verr_loop env False fs args (Some (xstrcatchar buf f)))"
| "verr_loop env False (f # fs) args buf =
    (if f = CHR ''%'' then verr_loop env True fs args buf
     else verr_loop env False fs args (Some (xstrcatchar buf f)))"

definition verr :: "err_env \<Rightarrow> string \<Rightarrow> fmt_arg list \<Rightarrow> string option" where
  "verr env format args =
    (case verr_loop env False format args None of Some (Some buf) \<Rightarrow> Some (xtext buf) | _ \<Rightarrow> None)"

definition err_init :: "string \<Rightarrow> string \<Rightarrow> err_env \<Rightarrow> err_env" where
  "err_init hostname str env = env\<lparr>prog := str, this_host := takeWhile (\<lambda>c. c \<noteq> CHR ''.'') hostname\<rparr>"

definition err_no_strip_domain :: "err_env \<Rightarrow> err_env" where
  "err_no_strip_domain env = env\<lparr>keep_host_domain := True\<rparr>"

lemmas verr_simps = verr_def xtext_of_def xstrcat_spec xstrcatchar_spec

text \<open>The two formats of output lines\<close>

lemma verr_text: "verr env ''%s'' [Str s] = Some s"
  by (simp add: verr_simps)

lemma verr_labelled: "verr env ''%S: %s'' [Str h, Str s] = Some (percent_S env h @ '': '' @ s)"
  by (simp add: verr_simps)

lemma verr_label: "verr env ''%S: '' [Str h] = Some (percent_S env h @ '': '')"
  by (simp add: verr_simps)

end
