(* ===== verification/Pcp_Server.thy ===== *)
theory Pcp_Server
  imports XString
begin

text \<open>
  The receiving side of a copy (\<open>pdsh/pcp_server.c\<close>): \<open>pcp_server\<close> reads the
  records of the \<open>rcp\<close> protocol from a stream, creates directories and files below its
  target and answers each record. The file system is a map from paths to files; whether an
  operation of the system succeeds is a parameter. Sizes and times are natural numbers that are
  assumed to fit their C types.
\<close>

section \<open>Files and answers\<close>

text \<open>The times \<open>tv[0]\<close> and \<open>tv[1]\<close> of access and modification, in seconds
  and microseconds; a file has none until \<open>utimes\<close> sets them.\<close>

type_synonym timevals = "(nat \<times> nat) \<times> (nat \<times> nat)"

datatype fnode =
  Reg (fmode: nat) (ftimes: "timevals option") (fdata: string)
| Directory (fmode: nat) (ftimes: "timevals option")

type_synonym file_map = "string \<Rightarrow> fnode option"

definition BUFSIZ :: nat where
  "BUFSIZ = 8192"

text \<open>\<open>struct pcp_server\<close> without the descriptors\<close>

record pcp_svr =
  spreserve :: bool
  starget_is_dir :: bool
  soutfile :: string

text \<open>
  What the system does: \<open>write_len\<close> is the number of bytes stored of a write of that many
  bytes at a position, \<open>reply_ok\<close> tells if the answer with that number can be sent. What it
  stores of the mode bits it is asked for at a path is its own choice as well: \<open>mkdir\<close> and
  \<open>open\<close> for something new, \<open>chmod\<close>, and what a write or a truncation leaves of the
  mode of a file. POSIX lets each of them drop the set-user-ID and set-group-ID bits.
\<close>

record sink_os =
  mkdir_ok :: "file_map \<Rightarrow> string \<Rightarrow> bool"
  open_ok :: "file_map \<Rightarrow> string \<Rightarrow> bool"
  chmod_ok :: "string \<Rightarrow> bool"
  utimes_ok :: "string \<Rightarrow> bool"
  truncate_ok :: "string \<Rightarrow> bool"
  write_len :: "string \<Rightarrow> nat \<Rightarrow> nat \<Rightarrow> nat"
  blksize :: "string \<Rightarrow> nat option"
  malloc_ok :: "nat \<Rightarrow> bool"
  reply_ok :: "nat \<Rightarrow> bool"
  sumask :: nat
  mkdir_mode :: "string \<Rightarrow> nat \<Rightarrow> nat"
  open_mode :: "string \<Rightarrow> nat \<Rightarrow> nat"
  chmod_mode :: "string \<Rightarrow> nat \<Rightarrow> nat"
  written_mode :: "string \<Rightarrow> nat \<Rightarrow> nat"

text \<open>
  An answer is the byte 0, or the byte 1 and a message: a format with its arguments.
\<close>

datatype reply = Ack | Complaint string "fmt_arg list"

record sink_state =
  sinput :: string
  sfiles :: file_map
  replies :: "reply list"
  bufcnt :: nat

definition reply_with :: "sink_os \<Rightarrow> reply \<Rightarrow> sink_state \<Rightarrow> sink_state" where
  "reply_with os r st =
    (if reply_ok os (length (replies st)) then st\<lparr>replies := replies st @ [r]\<rparr> else st)"

definition complain :: "sink_os \<Rightarrow> string \<Rightarrow> fmt_arg list \<Rightarrow> sink_state \<Rightarrow> sink_state" where
  "complain os fmt args st = reply_with os (Complaint fmt args) st"

text \<open>The bytes of an answer: \<open>_error\<close> puts the byte in front of the format.\<close>

definition reply_bytes :: "err_env \<Rightarrow> reply \<Rightarrow> string" where
  "reply_bytes env r =
    (case r of
       Ack \<Rightarrow> [NUL]
     | Complaint fmt args \<Rightarrow> (case verr env (CHR 0x01 # fmt) args of None \<Rightarrow> [] | Some s \<Rightarrow> s))"

definition screwup :: "sink_os \<Rightarrow> string \<Rightarrow> sink_state \<Rightarrow> sink_state" where
  "screwup os why st = complain os (''protocol screwup: %s'' @ [LF]) [Str why] st"

definition is_directory :: "file_map \<Rightarrow> string \<Rightarrow> bool" where
  "is_directory fs p \<longleftrightarrow> (\<exists>m t. fs p = Some (Directory m t))"

lemma is_directory_code [code]:
  "is_directory fs p = (case fs p of Some (Directory m t) \<Rightarrow> True | _ \<Rightarrow> False)"
  by (simp add: is_directory_def split: option.split fnode.split)

definition verifydir :: "sink_os \<Rightarrow> string \<Rightarrow> sink_state \<Rightarrow> bool \<times> sink_state" where
  "verifydir os cp st =
    (if is_directory (sfiles st) cp then (True, st) else (False, complain os (''%s not a directory'' @ [LF]) [Str cp] st))"

definition response :: "sink_os \<Rightarrow> sink_state \<Rightarrow> bool \<times> sink_state" where
  "response os st =
    (case sinput st of
       [] \<Rightarrow> (False, complain os (''lost connection'' @ [LF]) [] st)
     | c # s \<Rightarrow>
         let st = st\<lparr>sinput := s\<rparr>
         in if c = NUL then (True, st) else (False, complain os (''invalid response received'' @ [LF]) [] st))"

text \<open>\<open>roundup\<close> with a positive step\<close>

definition roundup :: "nat \<Rightarrow> nat \<Rightarrow> nat" where
  "roundup x y = (x + (y - 1)) div y * y"

definition allocbuf :: "sink_os \<Rightarrow> string \<Rightarrow> sink_state \<Rightarrow> bool \<times> sink_state" where
  "allocbuf os np st =
    (case blksize os np of
       None \<Rightarrow> (False, complain os (''fstat: %m'' @ [LF]) [] st)
     | Some b \<Rightarrow>
         let size = roundup b BUFSIZ;
             size = (if size = 0 then BUFSIZ else size)
         in if bufcnt st < size \<and> \<not> malloc_ok os size
            then (False, (complain os (''malloc: out of memory'' @ [LF]) [] st)\<lparr>bufcnt := 0\<rparr>)
            else (True, st\<lparr>bufcnt := size\<rparr>))"

section \<open>Records\<close>

text \<open>The loop that reads a record up to a newline or until the buffer is full\<close>

fun read_rest :: "nat \<Rightarrow> string \<Rightarrow> (string \<times> string) option" where
  "read_rest n [] = None"
| "read_rest n (c # s) =
    (if n > 1 \<and> c \<noteq> LF then map_option (\<lambda>(r, s). (c # r, s)) (read_rest (n - 1) s) else Some ([c], s))"

text \<open>\<open>getnum\<close>\<close>

definition getnum :: "string \<Rightarrow> nat \<times> string" where
  "getnum s = (dec_val (takeWhile isdigit s), dropWhile isdigit s)"

definition parse_times :: "string \<Rightarrow> string + timevals" where
  "parse_times s =
    (case getnum s of (msec, s) \<Rightarrow>
     if take 1 s \<noteq> '' '' then Inl ''mtime.sec not delimited''
     else case getnum (drop 1 s) of (musec, s) \<Rightarrow>
     if take 1 s \<noteq> '' '' then Inl ''mtime.usec not delimited''
     else case getnum (drop 1 s) of (asec, s) \<Rightarrow>
     if take 1 s \<noteq> '' '' then Inl ''atime.sec not delimited''
     else case getnum (drop 1 s) of (ausec, s) \<Rightarrow>
     if s \<noteq> [] \<and> hd s \<noteq> NUL then Inl ''atime.usec not delimited''
     else Inr ((asec, ausec), (msec, musec)))"

fun octal :: "nat \<Rightarrow> nat \<Rightarrow> string \<Rightarrow> (nat \<times> string) option" where
  "octal 0 mode s = Some (mode, s)"
| "octal (Suc n) mode [] = None"
| "octal (Suc n) mode (c # s) =
    (if CHR ''0'' \<le> c \<and> c \<le> CHR ''7'' then octal n (8 * mode + digit_val c) s else None)"

text \<open>Mode, size and name of a file or directory\<close>

definition parse_file :: "string \<Rightarrow> string + (nat \<times> nat \<times> string)" where
  "parse_file s =
    (case octal 4 0 s of
       None \<Rightarrow> Inl ''bad mode''
     | Some (mode, s) \<Rightarrow>
         if take 1 s \<noteq> '' '' then Inl ''mode not delimited''
         else case getnum (drop 1 s) of (fsize, s) \<Rightarrow>
         if take 1 s \<noteq> '' '' then Inl ''size not delimited''
         else Inr (mode, fsize, cstr (drop 1 s)))"

section \<open>Writing a file\<close>

definition masked :: "nat \<Rightarrow> nat \<Rightarrow> nat" where
  "masked k mode = mode - and mode k"

text \<open>
  The bits that \<open>mkdir\<close> and \<open>open\<close> are asked for: the mask is cleared while modes are
  preserved.
\<close>

definition create_mode :: "sink_os \<Rightarrow> pcp_svr \<Rightarrow> nat \<Rightarrow> nat" where
  "create_mode os svr mode = (if spreserve svr then mode else masked (sumask os) mode)"

definition chmod :: "sink_os \<Rightarrow> string \<Rightarrow> nat \<Rightarrow> sink_state \<Rightarrow> sink_state" where
  "chmod os np mode st =
    (if chmod_ok os np then
       st\<lparr>sfiles := (sfiles st)(np := map_option (\<lambda>n. case n of Reg _ t c \<Rightarrow> Reg (chmod_mode os np mode) t c
          | Directory _ t \<Rightarrow> Directory (chmod_mode os np mode) t) (sfiles st np))\<rparr>
     else st)"

definition utimes :: "sink_os \<Rightarrow> string \<Rightarrow> timevals \<Rightarrow> sink_state \<Rightarrow> sink_state" where
  "utimes os np tv st =
    (if utimes_ok os np then
       st\<lparr>sfiles := (sfiles st)(np := map_option (\<lambda>n. case n of Reg m _ c \<Rightarrow> Reg m (Some tv) c
          | Directory m _ \<Rightarrow> Directory m (Some tv)) (sfiles st np))\<rparr>
     else complain os (''can't set times on %s: %m'' @ [LF]) [Str np] st)"

text \<open>A write or a truncation resets the times, and may clear bits of the mode.\<close>

definition on_data :: "sink_os \<Rightarrow> (string \<Rightarrow> string) \<Rightarrow> string \<Rightarrow> file_map \<Rightarrow> file_map" where
  "on_data os f np fs =
    fs(np := map_option (\<lambda>n. case n of Reg m _ c \<Rightarrow> Reg (written_mode os np m) None (f c)
      | Directory m t \<Rightarrow> Directory m t) (fs np))"

definition write_at :: "sink_os \<Rightarrow> string \<Rightarrow> nat \<Rightarrow> string \<Rightarrow> file_map \<Rightarrow> file_map" where
  "write_at os np pos bs fs = on_data os (\<lambda>c. take pos c @ bs @ drop (pos + length bs) c) np fs"

definition truncate_to :: "sink_os \<Rightarrow> string \<Rightarrow> nat \<Rightarrow> file_map \<Rightarrow> file_map" where
  "truncate_to os np n fs = on_data os (\<lambda>c. take n c @ replicate (n - length c) NUL) np fs"

datatype wrerr = YES | NO | DISPLAYED

text \<open>A full buffer, or the rest, is written unless an earlier write has failed.\<close>

definition flush_block :: "sink_os \<Rightarrow> string \<Rightarrow> string \<Rightarrow> wrerr \<Rightarrow> nat \<Rightarrow> sink_state \<Rightarrow> wrerr \<times> nat \<times> sink_state" where
  "flush_block os np buf err pos st =
    (if err \<noteq> NO then (err, pos, st)
     else
       let n = min (write_len os np pos (length buf)) (length buf)
       in (if n = length buf then NO else YES, pos + n, st\<lparr>sfiles := write_at os np pos (take n buf) (sfiles st)\<rparr>))"

text \<open>The loop over the data: \<open>rest\<close> bytes are still to come, \<open>buf\<close> waits to be
  written. False means that the stream has ended before the data.\<close>

function copy_data ::
  "sink_os \<Rightarrow> string \<Rightarrow> nat \<Rightarrow> string \<Rightarrow> wrerr \<Rightarrow> nat \<Rightarrow> sink_state \<Rightarrow> bool \<times> string \<times> wrerr \<times> nat \<times> sink_state" where
  "copy_data os np rest buf err pos st =
    (if rest = 0 then (True, buf, err, pos, st)
     else
       let amt = min BUFSIZ rest
       in if length (sinput st) < amt then (False, buf, err, pos, complain os (''%m'' @ [LF]) [] (st\<lparr>sinput := []\<rparr>))
          else
            let buf = buf @ take amt (sinput st); st = st\<lparr>sinput := drop amt (sinput st)\<rparr>
            in if length buf = bufcnt st then
                 (case flush_block os np buf err pos st of
                    (err, pos, st) \<Rightarrow> copy_data os np (rest - amt) [] err pos st)
               else copy_data os np (rest - amt) buf err pos st)"
  by pat_completeness auto
termination
  by (relation "measure (\<lambda>(_, _, rest, _). rest)") (auto simp: BUFSIZ_def)

declare copy_data.simps [simp del]

section \<open>The loop of \<open>_sink\<close>\<close>

text \<open>Its variables: the count of time records, the times, and the size of \<open>namebuf\<close>\<close>

record sink_vars =
  setimes :: nat
  tv :: timevals
  cursize :: nat

text \<open>An iteration ends the function, goes on, or enters a directory.\<close>

datatype sink_next = Ended sink_state | Goes sink_vars sink_state | Enters string sink_vars sink_state

text \<open>Data, answer of the client and times of a file that has been opened\<close>

definition sink_data :: "sink_os \<Rightarrow> string \<Rightarrow> nat \<Rightarrow> sink_vars \<Rightarrow> sink_state \<Rightarrow> sink_next" where
  "sink_data os np fsize sv st =
    (case copy_data os np fsize [] NO 0 st of
       (False, _, _, _, st) \<Rightarrow> Ended st
     | (True, buf, err, pos, st) \<Rightarrow>
         let (err, pos, st) = (if buf \<noteq> [] then flush_block os np buf err pos st else (err, pos, st));
             (err, st) = (if truncate_ok os np then (err, st\<lparr>sfiles := truncate_to os np fsize (sfiles st)\<rparr>)
                          else (DISPLAYED, complain os (''can't truncate %s: %m'' @ [LF]) [Str np] st))
         in case response os st of
              (False, st) \<Rightarrow> Ended st
            | (True, st) \<Rightarrow>
                let (err, sv, st) =
                  (if setimes sv > 0 \<and> err = NO then
                     (if utimes_ok os np then NO else DISPLAYED, sv\<lparr>setimes := 0\<rparr>, utimes os np (tv sv) st)
                   else (err, sv, st))
                in Goes sv
                     (case err of
                        YES \<Rightarrow> complain os (''%s: %m'' @ [LF]) [Str np] st
                      | NO \<Rightarrow>
                          if reply_ok os (length (replies st)) then reply_with os Ack st
                          else complain os (''write failed to outfd: %m'' @ [LF]) [] st
                      | DISPLAYED \<Rightarrow> st))"

definition sink_file :: "sink_os \<Rightarrow> pcp_svr \<Rightarrow> string \<Rightarrow> nat \<Rightarrow> nat \<Rightarrow> sink_vars \<Rightarrow> sink_state \<Rightarrow> sink_next" where
  "sink_file os svr np mode fsize sv st =
    (let existed = sfiles st np \<noteq> None
     in if is_directory (sfiles st) np \<or> \<not> open_ok os (sfiles st) np
        then Goes sv (complain os (''%s: %m'' @ [LF]) [Str np] st)
        else
          let st = (if existed then st
                    else st\<lparr>sfiles := (sfiles st)(np \<mapsto> Reg (open_mode os np (create_mode os svr mode)) None [])\<rparr>);
              st = (if existed \<and> spreserve svr then chmod os np mode st else st);
              st = (if reply_ok os (length (replies st)) then reply_with os Ack st
                    else complain os (''failed to write to outfd: %m'' @ [LF]) [] st)
          in case allocbuf os np st of
               (False, st) \<Rightarrow> Goes sv st
             | (True, st) \<Rightarrow> sink_data os np fsize sv st)"

definition sink_directory :: "sink_os \<Rightarrow> pcp_svr \<Rightarrow> string \<Rightarrow> nat \<Rightarrow> sink_vars \<Rightarrow> sink_state \<Rightarrow> sink_next" where
  "sink_directory os svr np mode sv st =
    (case sfiles st np of
       Some (Reg _ _ _) \<Rightarrow> Goes sv (complain os (''%s: %m'' @ [LF]) [Str np] st)
     | Some (Directory _ _) \<Rightarrow> Enters np sv (if spreserve svr then chmod os np mode st else st)
     | None \<Rightarrow>
         if mkdir_ok os (sfiles st) np
         then Enters np sv (st\<lparr>sfiles := (sfiles st)(np \<mapsto> Directory (mkdir_mode os np (create_mode os svr mode)) None)\<rparr>)
         else Goes sv (complain os (''%s: %m'' @ [LF]) [Str np] st))"

text \<open>The name of the file, and the new size of \<open>namebuf\<close> if it is needed\<close>

definition sink_name :: "sink_os \<Rightarrow> string \<Rightarrow> bool \<Rightarrow> string \<Rightarrow> nat \<Rightarrow> string option \<times> nat" where
  "sink_name os targ targisdir name cur =
    (if targisdir then
       let need = length targ + length name + 250
       in if need > cur \<and> \<not> malloc_ok os need then (None, 0)
          else (Some (targ @ (if targ = [] then [] else ''/'') @ name), max need cur)
     else (Some targ, cur))"

text \<open>A record that begins with \<open>C\<close> or \<open>D\<close>\<close>

definition sink_entry ::
  "sink_os \<Rightarrow> pcp_svr \<Rightarrow> string \<Rightarrow> bool \<Rightarrow> char \<Rightarrow> string \<Rightarrow> sink_vars \<Rightarrow> sink_state \<Rightarrow> sink_next" where
  "sink_entry os svr targ targisdir c s sv st =
    (case parse_file s of
       Inl why \<Rightarrow> Ended (screwup os why st)
     | Inr (mode, fsize, name) \<Rightarrow>
         (case sink_name os targ targisdir name (cursize sv) of
            (None, cur) \<Rightarrow> Goes (sv\<lparr>cursize := cur\<rparr>) (complain os (''out of memory'' @ [LF]) [] st)
          | (Some np, cur) \<Rightarrow>
              if c = CHR ''D'' then sink_directory os svr np mode (sv\<lparr>cursize := cur\<rparr>) st
              else sink_file os svr np mode fsize (sv\<lparr>cursize := cur\<rparr>) st))"

definition sink_record ::
  "sink_os \<Rightarrow> pcp_svr \<Rightarrow> string \<Rightarrow> bool \<Rightarrow> string \<Rightarrow> sink_vars \<Rightarrow> sink_state \<Rightarrow> sink_next" where
  "sink_record os svr targ targisdir buf sv st =
    (let c = hd buf; s = tl buf; s = (if last buf = LF then butlast s else s)
     in if c = CHR 0x01 then Goes sv st
        else if c = CHR 0x02 then Ended st
        else if c = CHR ''E'' then
          Ended (if reply_ok os (length (replies st)) then reply_with os Ack st else screwup os ''write failed'' st)
        else if c = CHR ''T'' then
          (case parse_times s of
             Inl why \<Rightarrow> Ended (screwup os why st)
           | Inr t \<Rightarrow>
               if reply_ok os (length (replies st))
               then Goes (sv\<lparr>setimes := setimes sv + 1, tv := t\<rparr>) (reply_with os Ack st)
               else Ended (screwup os ''write failed'' st))
        else if c \<noteq> CHR ''C'' \<and> c \<noteq> CHR ''D'' then Ended (screwup os ''expected control record'' st)
        else sink_entry os svr targ targisdir c s sv st)"

definition sink_step ::
  "sink_os \<Rightarrow> pcp_svr \<Rightarrow> string \<Rightarrow> bool \<Rightarrow> sink_vars \<Rightarrow> sink_state \<Rightarrow> sink_next" where
  "sink_step os svr targ targisdir sv st =
    (case sinput st of
       [] \<Rightarrow> Ended st
     | c # s \<Rightarrow>
         if c = LF then Ended (screwup os ''unexpected <newline>'' (st\<lparr>sinput := s\<rparr>))
         else case read_rest (BUFSIZ - 2) s of
           None \<Rightarrow> Ended (screwup os ''lost connection'' (st\<lparr>sinput := []\<rparr>))
         | Some (r, s) \<Rightarrow> sink_record os svr targ targisdir (c # r) sv (st\<lparr>sinput := s\<rparr>))"

text \<open>What \<open>_sink\<close> does before its loop; \<open>None\<close> in place of the flag of the target
  means that it has returned.\<close>

definition sink_start :: "sink_os \<Rightarrow> pcp_svr \<Rightarrow> string \<Rightarrow> sink_state \<Rightarrow> bool option \<times> sink_state" where
  "sink_start os svr targ st =
    (if \<not> malloc_ok os BUFSIZ then (None, complain os (''out of memory for buf: %m'' @ [LF]) [] st)
     else
       let (ok, st) = (if starget_is_dir svr then verifydir os (soutfile svr) st else (True, st))
       in if \<not> ok then (None, st)
          else if \<not> reply_ok os (length (replies st)) then (None, screwup os ''write failed'' st)
          else (Some (is_directory (sfiles st) targ), reply_with os Ack st))"

definition sink_vars0 :: sink_vars where
  "sink_vars0 = \<lparr>setimes = 0, tv = ((0, 0), (0, 0)), cursize = 0\<rparr>"

text \<open>The times of a directory are set when its files have been received.\<close>

definition left_directory :: "sink_os \<Rightarrow> string \<Rightarrow> sink_vars \<Rightarrow> sink_state \<Rightarrow> sink_vars \<times> sink_state" where
  "left_directory os np sv st =
    (if setimes sv > 0 then (sv\<lparr>setimes := 0\<rparr>, utimes os np (tv sv) st) else (sv, st))"

partial_function (option) sink_loop ::
  "sink_os \<Rightarrow> pcp_svr \<Rightarrow> string \<Rightarrow> bool \<Rightarrow> sink_vars \<Rightarrow> sink_state \<Rightarrow> sink_state option" where
  "sink_loop os svr targ targisdir sv st =
    (case sink_step os svr targ targisdir sv st of
       Ended st \<Rightarrow> Some st
     | Goes sv st \<Rightarrow> sink_loop os svr targ targisdir sv st
     | Enters np sv st \<Rightarrow>
         (case sink_start os svr np st of
            (None, st) \<Rightarrow>
              (case left_directory os np sv st of (sv, st) \<Rightarrow> sink_loop os svr targ targisdir sv st)
          | (Some isdir, st) \<Rightarrow>
              Option.bind (sink_loop os svr np isdir sink_vars0 st)
                (\<lambda>st. case left_directory os np sv st of (sv, st) \<Rightarrow> sink_loop os svr targ targisdir sv st)))"

definition pcp_server :: "sink_os \<Rightarrow> pcp_svr \<Rightarrow> sink_state \<Rightarrow> sink_state option" where
  "pcp_server os svr st =
    (case sink_start os svr (soutfile svr) (st\<lparr>bufcnt := 0\<rparr>) of
       (None, st) \<Rightarrow> Some st
     | (Some isdir, st) \<Rightarrow> sink_loop os svr (soutfile svr) isdir sink_vars0 st)"

section \<open>The server always returns\<close>

lemma reply_with_fields [simp]:
  "sinput (reply_with os r st) = sinput st" "sfiles (reply_with os r st) = sfiles st" "bufcnt (reply_with os r st) = bufcnt st"
  by (simp_all add: reply_with_def)

lemma complain_fields [simp]:
  "sinput (complain os fmt args st) = sinput st" "sfiles (complain os fmt args st) = sfiles st" "bufcnt (complain os fmt args st) = bufcnt st"
  by (simp_all add: complain_def)

lemma sinput_simps [simp]:
  "sinput (screwup os why st) = sinput st" "sinput (chmod os np mode st) = sinput st" "sinput (utimes os np t st) = sinput st"
  "sinput (snd (verifydir os cp st)) = sinput st" "sinput (snd (allocbuf os np st)) = sinput st"
  "sinput (snd (left_directory os np sv st)) = sinput st" "sinput (snd (sink_start os svr targ st)) = sinput st"
  "sinput (snd (snd (flush_block os np buf err pos st))) = sinput st"
  by (auto simp: screwup_def chmod_def utimes_def verifydir_def allocbuf_def left_directory_def sink_start_def flush_block_def
      Let_def split: option.split prod.split)

lemma response_input: "length (sinput (snd (response os st))) \<le> length (sinput st)"
  by (simp add: response_def Let_def split: list.split)

lemma copy_data_input:
  "length (sinput (snd (snd (snd (snd (copy_data os np rest buf err pos st)))))) \<le> length (sinput st)"
proof (induction os np rest buf err pos st rule: copy_data.induct)
  case (1 os np rest buf err pos st)
  let ?amt = "min BUFSIZ rest"
  let ?st = "st\<lparr>sinput := drop ?amt (sinput st)\<rparr>"
  let ?buf = "buf @ take ?amt (sinput st)"
  show ?case
  proof (cases "rest = 0 \<or> length (sinput st) < ?amt")
    case True
    then show ?thesis by (subst copy_data.simps) (auto simp: Let_def)
  next
    case False
    obtain e p st' where f: "flush_block os np ?buf err pos ?st = (e, p, st')" by (metis prod_cases3)
    then have "sinput st' = sinput ?st" using sinput_simps(8) [of os np ?buf err pos ?st] by simp
    then show ?thesis
      using False 1(1) [OF _ refl _ refl refl _ f [symmetric] refl] 1(2) [OF _ refl _ refl refl] f
      by (subst copy_data.simps) (auto simp: Let_def intro: le_trans)
  qed
qed

definition next_input :: "sink_next \<Rightarrow> nat" where
  "next_input r = length (sinput (case r of Ended st \<Rightarrow> st | Goes _ st \<Rightarrow> st | Enters _ _ st \<Rightarrow> st))"

lemma next_input_simps [simp]:
  "next_input (Ended st) = length (sinput st)" "next_input (Goes sv st) = length (sinput st)"
  "next_input (Enters np sv st) = length (sinput st)"
  by (simp_all add: next_input_def)

lemma sink_data_input: "next_input (sink_data os np fsize sv st) \<le> length (sinput st)"
proof -
  obtain ok buf err pos st1 where c: "copy_data os np fsize [] NO 0 st = (ok, buf, err, pos, st1)" by (metis prod_cases5)
  then have c': "length (sinput st1) \<le> length (sinput st)" using copy_data_input [of os np fsize "[]" NO 0 st] by simp
  obtain e2 p2 st2 where d: "(if buf \<noteq> [] then flush_block os np buf err pos st1 else (err, pos, st1)) = (e2, p2, st2)"
    by (metis prod_cases3)
  have d': "sinput st2 = sinput st1"
    using d sinput_simps(8) [of os np buf err pos st1] by (cases "buf = []") simp_all
  obtain e3 st3 where t: "(if truncate_ok os np then (e2, st2\<lparr>sfiles := truncate_to os np fsize (sfiles st2)\<rparr>)
      else (DISPLAYED, complain os (''can't truncate %s: %m'' @ [LF]) [Str np] st2)) = (e3, st3)" by force
  have t': "sinput st3 = sinput st2" using t by (auto split: if_splits)
  obtain ok' st4 where r: "response os st3 = (ok', st4)" by force
  then have r': "length (sinput st4) \<le> length (sinput st3)" using response_input [of os st3] by simp
  show ?thesis
    using c' d' t' r' by (simp add: sink_data_def c d t r Let_def split: bool.split wrerr.split)
qed

lemma sink_file_input: "next_input (sink_file os svr np mode fsize sv st) \<le> length (sinput st)"
proof -
  have "next_input (case allocbuf os np st' of (False, st) \<Rightarrow> Goes sv st | (True, st) \<Rightarrow> sink_data os np fsize sv st) \<le> length (sinput st')" for st'
    using sink_data_input [of os np fsize sv "snd (allocbuf os np st')"] sinput_simps(5) [of os np st']
    by (cases "allocbuf os np st'") (simp split: bool.split)
  from order_trans [OF this] show ?thesis by (simp add: sink_file_def Let_def)
qed

lemma sink_entry_input: "next_input (sink_entry os svr targ isdir c s sv st) \<le> length (sinput st)"
  using sink_file_input [of os svr _ _ _ _ st]
  by (simp add: sink_entry_def sink_directory_def split: sum.split prod.split option.split fnode.split)

lemma sink_record_input: "next_input (sink_record os svr targ isdir buf sv st) \<le> length (sinput st)"
  using sink_entry_input [of os svr targ isdir _ _ sv st]
  by (simp add: sink_record_def Let_def split: sum.split)

lemma read_rest_shorter: "read_rest n s = Some (r, s') \<Longrightarrow> length s' < length s"
  by (induction n s arbitrary: r rule: read_rest.induct) (fastforce split: if_splits)+

lemma sink_step_input:
  "sinput st \<noteq> [] \<Longrightarrow> next_input (sink_step os svr targ isdir sv st) < length (sinput st)"
  "sinput st = [] \<Longrightarrow> sink_step os svr targ isdir sv st = Ended st"
proof -
  assume "sinput st \<noteq> []"
  then obtain c s where s: "sinput st = c # s" by (cases "sinput st") auto
  have "next_input (sink_record os svr targ isdir buf sv (st\<lparr>sinput := s'\<rparr>)) < length (c # s)"
    if "read_rest (BUFSIZ - 2) s = Some (r, s')" for buf r s'
    using sink_record_input [of os svr targ isdir buf sv "st\<lparr>sinput := s'\<rparr>"] read_rest_shorter [OF that] by simp
  then show "next_input (sink_step os svr targ isdir sv st) < length (sinput st)"
    by (simp add: sink_step_def s split: option.split)
qed (simp add: sink_step_def)

lemma sink_loop_returns:
  "\<exists>st'. sink_loop os svr targ isdir sv st = Some st' \<and> length (sinput st') \<le> length (sinput st)"
proof (induction "length (sinput st)" arbitrary: targ isdir sv st rule: less_induct)
  case less
  show ?case
  proof (cases "sinput st = []")
    case True
    then show ?thesis by (subst sink_loop.simps) (simp add: sink_step_input(2))
  next
    case False
    have n: "next_input (sink_step os svr targ isdir sv st) < length (sinput st)" by (rule sink_step_input(1) [OF False])
    have go: "\<exists>st'. sink_loop os svr targ isdir sv' st1 = Some st' \<and> length (sinput st') \<le> length (sinput st)"
      if "length (sinput st1) < length (sinput st)" for sv' st1
      using less [OF that, of targ isdir sv'] that by (meson le_trans less_imp_le)
    have go': "\<exists>st'. (case left_directory os np sv' st1 of (sv, st) \<Rightarrow> sink_loop os svr targ isdir sv st) = Some st' \<and>
        length (sinput st') \<le> length (sinput st)"
      if "length (sinput st1) < length (sinput st)" for np sv' st1
      using go [of "snd (left_directory os np sv' st1)" "fst (left_directory os np sv' st1)"] that sinput_simps(6) [of os np sv' st1]
      by (cases "left_directory os np sv' st1") simp
    show ?thesis
    proof (cases "sink_step os svr targ isdir sv st")
      case (Ended st1)
      then show ?thesis using n by (subst sink_loop.simps) simp
    next
      case (Goes sv' st1)
      then show ?thesis using n go [of st1 sv'] by (subst sink_loop.simps) simp
    next
      case (Enters np sv' st1)
      obtain d st2 where s: "sink_start os svr np st1 = (d, st2)" by force
      have st2: "length (sinput st2) < length (sinput st)"
        using n Enters s sinput_simps(7) [of os svr np st1] by simp
      show ?thesis
      proof (cases d)
        case None
        then show ?thesis using Enters s go' [OF st2, of np sv'] by (subst sink_loop.simps) simp
      next
        case (Some b)
        obtain st3 where l: "sink_loop os svr np b sink_vars0 st2 = Some st3" "length (sinput st3) \<le> length (sinput st2)"
          using less [OF st2] by blast
        then have "length (sinput st3) < length (sinput st)" using st2 by simp
        then show ?thesis using Enters s Some l(1) go' [of st3 np sv'] by (subst sink_loop.simps) simp
      qed
    qed
  qed
qed

lemma pcp_server_returns:
  "\<exists>st'. pcp_server os svr st = Some st' \<and> length (sinput st') \<le> length (sinput st)"
proof -
  obtain d st1 where s: "sink_start os svr (soutfile svr) (st\<lparr>bufcnt := 0\<rparr>) = (d, st1)" by force
  then have "length (sinput st1) = length (sinput st)"
    using sinput_simps(7) [of os svr "soutfile svr" "st\<lparr>bufcnt := 0\<rparr>"] by simp
  then show ?thesis
    using s sink_loop_returns [of os svr "soutfile svr" _ sink_vars0 st1] by (cases d) (simp_all add: pcp_server_def)
qed

end
