(* ===== verification/Linked_List.thy ===== *)
theory Linked_List
  imports Prelude Iteration "HOL-Library.Multiset"
begin

text \<open>
  The generic lists of \<open>common/list.c\<close> at the level of its pointers: nodes in a heap,
  \<open>next\<close> pointers that are addressed by slots (\<open>ListNode *\<close>), the pointer to the
  last slot, and the iterators of the list, which every insertion and removal fixes up.

  The second half relates them to a sequence with cursors: the well-formedness predicate of
  the heap, the sequence a well-formed list stands for, and what the two primitives
  \<open>list_node_create\<close> and \<open>list_node_destroy\<close> do to it.
\<close>

named_theorems list_defs
  \<open>the definitions of the public operations\<close>

section \<open>Nodes, slots and iterators\<close>

type_synonym addr = nat

text \<open>A \<open>ListNode *\<close>: the address of the list's \<open>head\<close> or of a node's \<open>next\<close>.\<close>

datatype slot = Head | Next addr

record 'a list_node =
  ndata :: 'a
  nnext :: "addr option"

record list_iter =
  ipos :: "addr option"
  iprev :: slot

text \<open>
  \<open>struct list\<close>; the chain \<open>iNext\<close> is the list of iterators, the newest first. An
  iterator is named by its place in the chain. The locks are not modelled: every function holds
  the list's lock throughout, so a call is one step.
\<close>

record 'a llist =
  heap :: "addr \<rightharpoonup> 'a list_node"
  lhead :: "addr option"
  ltail :: slot
  liters :: "list_iter list"
  lcount :: int

definition list_create :: "'a llist" where
  "list_create = \<lparr>heap = Map.empty, lhead = None, ltail = Head, liters = [], lcount = 0\<rparr>"

text \<open>Reading and writing through a \<open>ListNode *\<close>\<close>

fun deref :: "'a llist \<Rightarrow> slot \<Rightarrow> addr option" where
  "deref l Head = lhead l"
| "deref l (Next a) = nnext (the (heap l a))"

fun set_slot :: "'a llist \<Rightarrow> slot \<Rightarrow> addr option \<Rightarrow> 'a llist" where
  "set_slot l Head v = l\<lparr>lhead := v\<rparr>"
| "set_slot l (Next a) v = l\<lparr>heap := (heap l)(a \<mapsto> (the (heap l a))\<lparr>nnext := v\<rparr>)\<rparr>"

section \<open>The free lists\<close>

definition LIST_ALLOC :: nat where
  "LIST_ALLOC = 32"

text \<open>
  Objects of \<open>sz\<close> bytes from a chain of free ones; \<open>mem\<close> is the answer of
  \<open>malloc(LIST_ALLOC * size)\<close>. The chain is threaded through the first words of the
  objects; here it is the list of their addresses.
\<close>

definition list_alloc_aux :: "addr option \<Rightarrow> nat \<Rightarrow> addr list \<Rightarrow> addr option \<times> addr list" where
  "list_alloc_aux mem sz free =
    (let free =
       (if free = [] then
          case mem of
            None \<Rightarrow> []
          | Some base \<Rightarrow> map (\<lambda>k. base + k * sz) [0..<LIST_ALLOC]
        else free)
     in case free of [] \<Rightarrow> (None, []) | x # xs \<Rightarrow> (Some x, xs))"

definition list_free_aux :: "addr \<Rightarrow> addr list \<Rightarrow> addr list" where
  "list_free_aux x free = x # free"

text \<open>
  What the allocator owes its callers: the objects it hands out are not in use, if
  \<open>malloc\<close> returns memory that is not.
\<close>

lemma list_alloc_aux_fresh:
  assumes "distinct free" "set free \<inter> used = {}" "0 < sz"
    and "\<forall>base. mem = Some base \<longrightarrow> (\<forall>k<LIST_ALLOC. base + k * sz \<notin> used)"
    and "list_alloc_aux mem sz free = (Some x, free')"
  shows "x \<notin> used \<and> distinct free' \<and> set free' \<inter> insert x used = {}"
proof -
  let ?free = "if free = [] then case mem of None \<Rightarrow> [] | Some base \<Rightarrow> map (\<lambda>k. base + k * sz) [0..<LIST_ALLOC]
    else free"
  have "distinct ?free \<and> set ?free \<inter> used = {}"
    using assms(1-4) by (auto simp: distinct_map inj_on_def split: option.splits)
  moreover have "?free = x # free'"
    using assms(5) by (auto simp: list_alloc_aux_def Let_def split: list.splits)
  ultimately show ?thesis by auto
qed

lemma list_free_aux_fresh:
  assumes "distinct free" "set free \<inter> used = {}" "x \<in> used"
  shows "distinct (list_free_aux x free) \<and> set (list_free_aux x free) \<inter> (used - {x}) = {}"
  using assms by (auto simp: list_free_aux_def)

section \<open>Insertion and removal of a node\<close>

text \<open>\<open>new\<close> is the answer of \<open>list_node_alloc\<close>.\<close>

definition list_node_create :: "'a llist \<Rightarrow> slot \<Rightarrow> 'a \<Rightarrow> addr option \<Rightarrow> 'a option \<times> 'a llist" where
  "list_node_create l pp x new =
    (case new of
       None \<Rightarrow> (None, l)
     | Some p \<Rightarrow>
         let nx = deref l pp;
             l = l\<lparr>heap := (heap l)(p \<mapsto> \<lparr>ndata = x, nnext = nx\<rparr>)\<rparr>;
             l = (if nx = None then l\<lparr>ltail := Next p\<rparr> else l);
             l = set_slot l pp (Some p);
             l = l\<lparr>lcount := lcount l + 1\<rparr>
         in (Some x, l\<lparr>liters := map (\<lambda>i.
               if iprev i = pp then i\<lparr>iprev := Next p\<rparr>
               else if ipos i = nx then i\<lparr>ipos := Some p\<rparr>
               else i) (liters l)\<rparr>))"

definition list_node_destroy :: "'a llist \<Rightarrow> slot \<Rightarrow> 'a option \<times> 'a llist" where
  "list_node_destroy l pp =
    (case deref l pp of
       None \<Rightarrow> (None, l)
     | Some p \<Rightarrow>
         let v = ndata (the (heap l p));
             nx = nnext (the (heap l p));
             l = set_slot l pp nx;
             l = (if nx = None then l\<lparr>ltail := pp\<rparr> else l);
             l = l\<lparr>lcount := lcount l - 1\<rparr>;
             l = l\<lparr>liters := map (\<lambda>i.
               if ipos i = Some p then i\<lparr>ipos := nx, iprev := pp\<rparr>
               else if iprev i = Next p then i\<lparr>iprev := pp\<rparr>
               else i) (liters l)\<rparr>
         in (Some v, l\<lparr>heap := (heap l)(p := None)\<rparr>))"

section \<open>Well-formed lists\<close>

text \<open>The slot and the node at a position of a chain of addresses\<close>

definition slot_at :: "addr list \<Rightarrow> nat \<Rightarrow> slot" where
  "slot_at as i = (if i = 0 then Head else Next (as ! (i - 1)))"

definition node_at :: "addr list \<Rightarrow> nat \<Rightarrow> addr option" where
  "node_at as i = (if i < length as then Some (as ! i) else None)"

text \<open>
  An iterator at position \<open>j\<close>: its \<open>prev\<close> is slot \<open>j\<close>; its \<open>pos\<close> is the
  node there, or the one behind when it has returned the node of the slot (\<open>m\<close>).
\<close>

definition iter_at :: "addr list \<Rightarrow> nat \<Rightarrow> bool \<Rightarrow> list_iter \<Rightarrow> bool" where
  "iter_at as j m i \<longleftrightarrow> j + of_bool m \<le> length as \<and> iprev i = slot_at as j \<and>
     ipos i = node_at as (j + of_bool m)"

definition list_wf :: "'a llist \<Rightarrow> addr list \<Rightarrow> bool" where
  "list_wf l as \<longleftrightarrow> distinct as \<and> dom (heap l) = set as \<and>
     (\<forall>i\<le>length as. deref l (slot_at as i) = node_at as i) \<and>
     ltail l = slot_at as (length as) \<and> lcount l = int (length as) \<and>
     (\<forall>i\<in>set (liters l). \<exists>j m. iter_at as j m i)"

text \<open>The addresses of a list, found from its head, and its elements\<close>

fun walk :: "(addr \<rightharpoonup> 'a list_node) \<Rightarrow> addr option \<Rightarrow> nat \<Rightarrow> addr list" where
  "walk h None n = []"
| "walk h (Some a) 0 = []"
| "walk h (Some a) (Suc n) = a # walk h (nnext (the (h a))) n"

definition addrs :: "'a llist \<Rightarrow> addr list" where
  "addrs l = walk (heap l) (lhead l) (nat (lcount l))"

definition elems_of :: "'a llist \<Rightarrow> addr list \<Rightarrow> 'a list" where
  "elems_of l as = map (\<lambda>a. ndata (the (heap l a))) as"

definition items :: "'a llist \<Rightarrow> 'a list" where
  "items l = elems_of l (addrs l)"

text \<open>The abstract cursor of an iterator: its position, and whether it has returned the element there\<close>

fun slot_pos :: "addr list \<Rightarrow> slot \<Rightarrow> nat" where
  "slot_pos as Head = 0"
| "slot_pos as (Next a) = Suc (length (takeWhile (\<lambda>b. b \<noteq> a) as))"

definition cursor :: "addr list \<Rightarrow> list_iter \<Rightarrow> nat \<times> bool" where
  "cursor as i = (slot_pos as (iprev i), ipos i \<noteq> node_at as (slot_pos as (iprev i)))"

definition cursors :: "'a llist \<Rightarrow> (nat \<times> bool) list" where
  "cursors l = map (cursor (addrs l)) (liters l)"

definition list_ok :: "'a llist \<Rightarrow> bool" where
  "list_ok l \<longleftrightarrow> list_wf l (addrs l)"

lemma takeWhile_neq_nth: "distinct as \<Longrightarrow> i < length as \<Longrightarrow> length (takeWhile (\<lambda>b. b \<noteq> as ! i) as) = i"
proof (induction as arbitrary: i)
  case (Cons a as)
  then show ?case by (cases i) auto
qed simp

lemma slot_pos_slot_at [simp]: "distinct as \<Longrightarrow> j \<le> length as \<Longrightarrow> slot_pos as (slot_at as j) = j"
  by (cases j) (auto simp: slot_at_def takeWhile_neq_nth)

lemma slot_at_inject [simp]:
  "distinct as \<Longrightarrow> i \<le> length as \<Longrightarrow> j \<le> length as \<Longrightarrow> slot_at as i = slot_at as j \<longleftrightarrow> i = j"
  by (metis slot_pos_slot_at)

lemma node_at_inject [simp]:
  "distinct as \<Longrightarrow> i \<le> length as \<Longrightarrow> j \<le> length as \<Longrightarrow> node_at as i = node_at as j \<longleftrightarrow> i = j"
  by (auto simp: node_at_def nth_eq_iff_index_eq)

lemma cursor_iter_at: "distinct as \<Longrightarrow> iter_at as j m i \<Longrightarrow> cursor as i = (j, m)"
  by (cases m) (auto simp: cursor_def iter_at_def)

lemma list_wfD:
  assumes "list_wf l as"
  shows "distinct as" "dom (heap l) = set as" "\<And>i. i \<le> length as \<Longrightarrow> deref l (slot_at as i) = node_at as i"
    "ltail l = slot_at as (length as)" "lcount l = int (length as)"
    "\<And>i. i \<in> set (liters l) \<Longrightarrow> \<exists>j m. iter_at as j m i"
  using assms by (auto simp: list_wf_def)

lemma walk_drop:
  assumes "list_wf l as" "i \<le> length as" "length as \<le> i + n"
  shows "walk (heap l) (node_at as i) n = drop i as"
  using assms(2,3)
proof (induction n arbitrary: i)
  case 0
  then show ?case by (simp add: node_at_def)
next
  case (Suc n)
  show ?case
  proof (cases "i < length as")
    case True
    then have "nnext (the (heap l (as ! i))) = node_at as (Suc i)"
      using list_wfD(3) [OF assms(1), of "Suc i"] by (simp add: slot_at_def)
    then show ?thesis using Suc True by (simp add: node_at_def Cons_nth_drop_Suc)
  qed (simp add: node_at_def)
qed

lemma list_wf_addrs: "list_wf l as \<Longrightarrow> addrs l = as"
  using walk_drop [of l as 0 "length as"] list_wfD(3) [of l as 0] list_wfD(5) [of l as]
  by (simp add: addrs_def slot_at_def)

lemma list_ok_iff: "list_ok l \<longleftrightarrow> (\<exists>as. list_wf l as)"
  using list_wf_addrs by (auto simp: list_ok_def)

lemma items_wf: "list_wf l as \<Longrightarrow> items l = elems_of l as"
  by (simp add: items_def list_wf_addrs)

lemma cursors_wf: "list_wf l as \<Longrightarrow> cursors l = map (cursor as) (liters l)"
  by (simp add: cursors_def list_wf_addrs)

lemma list_ok_count: "list_ok l \<Longrightarrow> lcount l = int (length (items l))"
  by (simp add: list_ok_def items_def elems_of_def list_wf_def)

lemma list_create_ok [simp]: "list_ok list_create" "items list_create = []" "cursors list_create = []"
  by (simp_all add: list_ok_def list_create_def addrs_def list_wf_def items_def elems_of_def cursors_def
      slot_at_def node_at_def)

section \<open>The primitives on a well-formed list\<close>

text \<open>What an insertion and a removal at position \<open>k\<close> do to the cursors\<close>

fun shift_right :: "nat \<Rightarrow> nat \<times> bool \<Rightarrow> nat \<times> bool" where
  "shift_right k (j, m) = (if k \<le> j then (Suc j, m) else (j, m))"

fun shift_left :: "nat \<Rightarrow> nat \<times> bool \<Rightarrow> nat \<times> bool" where
  "shift_left k (j, m) =
    (if j = k \<or> j + of_bool m = k then (k, False) else if k < j then (j - 1, m) else (j, m))"

definition insert_at :: "nat \<Rightarrow> 'b \<Rightarrow> 'b list \<Rightarrow> 'b list" where
  "insert_at k x xs = take k xs @ x # drop k xs"

definition remove_at :: "nat \<Rightarrow> 'b list \<Rightarrow> 'b list" where
  "remove_at k xs = take k xs @ drop (Suc k) xs"

lemma length_insert_at [simp]: "k \<le> length xs \<Longrightarrow> length (insert_at k x xs) = Suc (length xs)"
  by (simp add: insert_at_def)

lemma length_remove_at [simp]: "k < length xs \<Longrightarrow> length (remove_at k xs) = length xs - 1"
  by (simp add: remove_at_def)

lemma mset_insert_at [simp]: "mset (insert_at k x xs) = add_mset x (mset xs)"
proof -
  have "mset (take k xs) + mset (drop k xs) = mset xs"
    by (simp only: append_take_drop_id mset_append [symmetric])
  then show ?thesis by (simp add: insert_at_def)
qed

lemma set_insert_at [simp]: "set (insert_at k x xs) = insert x (set xs)"
  by (simp only: set_mset_mset [symmetric] mset_insert_at set_mset_add_mset_insert)

lemma distinct_insert_at [simp]:
  "distinct (insert_at k x xs) \<longleftrightarrow> x \<notin> set xs \<and> distinct xs"
proof -
  have "mset (insert_at k x xs) = mset (x # xs)" by simp
  then show ?thesis by (metis distinct.simps(2) mset_eq_imp_distinct_iff)
qed

lemma nth_insert_at:
  "k \<le> length xs \<Longrightarrow> i \<le> length xs \<Longrightarrow>
   insert_at k x xs ! i = (if i < k then xs ! i else if i = k then x else xs ! (i - 1))"
  by (auto simp: insert_at_def nth_append nth_Cons')

lemma nth_remove_at:
  "k < length xs \<Longrightarrow> i < length xs - 1 \<Longrightarrow> remove_at k xs ! i = (if i < k then xs ! i else xs ! Suc i)"
  by (auto simp: remove_at_def nth_append)

lemma insert_at_remove_at: "k < length xs \<Longrightarrow> insert_at k (xs ! k) (remove_at k xs) = xs"
  by (simp add: insert_at_def remove_at_def min_def Cons_nth_drop_Suc)

lemma remove_at_insert_at: "k \<le> length xs \<Longrightarrow> remove_at k (insert_at k x xs) = xs"
  by (simp add: insert_at_def remove_at_def)

lemma slot_at_insert:
  assumes "k \<le> length as" "i \<le> Suc (length as)"
  shows "slot_at (insert_at k p as) i =
    (if i \<le> k then slot_at as i else if i = Suc k then Next p else slot_at as (i - 1))"
  using assms by (auto simp: slot_at_def nth_insert_at)

lemma node_at_insert:
  assumes "k \<le> length as" "i \<le> Suc (length as)"
  shows "node_at (insert_at k p as) i =
    (if i < k then node_at as i else if i = k then Some p else node_at as (i - 1))"
  using assms by (auto simp: node_at_def nth_insert_at)

lemma deref_set_slot: "deref (set_slot l s v) s' = (if s' = s then v else deref l s')"
  by (cases s; cases s') auto

lemma ndata_set_slot: "a \<in> dom (heap l) \<Longrightarrow> ndata (the (heap (set_slot l s v) a)) = ndata (the (heap l a))"
  by (cases s) auto

lemma dom_set_slot: "s = Head \<or> (\<exists>a. s = Next a \<and> a \<in> dom (heap l)) \<Longrightarrow> dom (heap (set_slot l s v)) = dom (heap l)"
  by (cases s) auto

lemma slot_fields [simp]:
  "liters (set_slot l s v) = liters l" "lcount (set_slot l s v) = lcount l" "ltail (set_slot l s v) = ltail l"
  by (cases s; simp)+

lemma deref_indep [simp]:
  "deref (l\<lparr>liters := x\<rparr>) s = deref l s" "deref (l\<lparr>lcount := n\<rparr>) s = deref l s" "deref (l\<lparr>ltail := t\<rparr>) s = deref l s"
  by (cases s; simp)+

lemma iter_insert:
  assumes "distinct as" "k \<le> length as" "p \<notin> set as" "iter_at as j m i"
  shows "iter_at (insert_at k p as) (fst (shift_right k (j, m))) m
    (if iprev i = slot_at as k then i\<lparr>iprev := Next p\<rparr>
     else if ipos i = node_at as k then i\<lparr>ipos := Some p\<rparr> else i)"
proof -
  have j: "j + of_bool m \<le> length as" "j \<le> length as" "iprev i = slot_at as j" "ipos i = node_at as (j + of_bool m)"
    using assms(4) by (auto simp: iter_at_def)
  consider "j = k" | "k < j" | "j < k" by linarith
  then show ?thesis
  proof cases
    case 1
    then show ?thesis using j assms(1,2) by (cases m) (auto simp: iter_at_def slot_at_insert node_at_insert)
  next
    case 2
    then show ?thesis using j assms(1,2) by (cases m) (auto simp: iter_at_def slot_at_insert node_at_insert)
  next
    case 3
    then show ?thesis using j assms(1,2) by (cases m) (auto simp: iter_at_def slot_at_insert node_at_insert)
  qed
qed

text \<open>The heap after an insertion, without the iterators\<close>

lemma slot_in_dom: "list_wf l as \<Longrightarrow> k \<le> length as \<Longrightarrow> slot_at as k = Head \<or> (\<exists>a. slot_at as k = Next a \<and> a \<in> dom (heap l))"
  by (cases k) (auto simp: list_wfD(2) slot_at_def)

lemma node_create_spec:
  assumes "list_wf l as" "k \<le> length as" "p \<notin> set as"
  obtains l' where "list_node_create l (slot_at as k) x (Some p) = (Some x, l')"
    "list_wf l' (insert_at k p as)" "items l' = insert_at k x (items l)"
    "cursors l' = map (shift_right k) (cursors l)"
proof -
  note wf = list_wfD [OF assms(1)]
  let ?as = "insert_at k p as"
  define l1 where "l1 = l\<lparr>heap := (heap l)(p \<mapsto> \<lparr>ndata = x, nnext = node_at as k\<rparr>)\<rparr>"
  define l2 where "l2 = set_slot l1 (slot_at as k) (Some p)"
  define l' where "l' = l2\<lparr>ltail := (if node_at as k = None then Next p else ltail l),
    lcount := lcount l + 1, liters := map (\<lambda>i. if iprev i = slot_at as k then i\<lparr>iprev := Next p\<rparr>
      else if ipos i = node_at as k then i\<lparr>ipos := Some p\<rparr> else i) (liters l)\<rparr>"
  have p: "slot_at as i \<noteq> Next p" if "i \<le> length as" for i
    using that assms(3) by (cases i) (auto simp: slot_at_def)
  have new: "list_node_create l (slot_at as k) x (Some p) = (Some x, l')"
    using wf(3) [OF assms(2)]
    by (cases "slot_at as k") (auto simp: list_node_create_def l'_def l2_def l1_def Let_def)
  have d1: "deref l1 s = (if s = Next p then node_at as k else deref l s)" for s
    by (cases s) (auto simp: l1_def)
  have d: "deref l' s = (if s = slot_at as k then Some p else if s = Next p then node_at as k else deref l s)" for s
    by (simp add: l'_def l2_def deref_set_slot d1)
  have h: "heap l' = heap l2" by (simp add: l'_def)
  have dom: "dom (heap l2) = insert p (set as)"
  proof -
    have "slot_at as k = Head \<or> (\<exists>a. slot_at as k = Next a \<and> a \<in> dom (heap l1))"
      using slot_in_dom [OF assms(1,2)] by (auto simp: l1_def)
    from dom_set_slot [OF this] show ?thesis using wf(2) by (simp add: l2_def l1_def)
  qed
  have deref: "deref l' (slot_at ?as i) = node_at ?as i" if "i \<le> length ?as" for i
  proof -
    have i: "i \<le> Suc (length as)" using that assms(2) by simp
    consider "i < k" | "i = k" | "i = Suc k" | "Suc k < i" by linarith
    then show ?thesis
    proof cases
      case 4
      then have "i - 1 \<le> length as" "i - 1 \<noteq> k" using i by linarith+
      then show ?thesis using 4 i assms(2) wf(1,3) p by (simp add: d slot_at_insert node_at_insert)
    qed (use i assms(2) wf(1,3) p in \<open>auto simp: d slot_at_insert node_at_insert simp del: deref.simps dest: sym\<close>)
  qed
  have tail: "ltail l' = slot_at ?as (Suc (length as))"
    using assms(2) wf(4) by (auto simp: l'_def slot_at_insert node_at_def)
  have its: "\<forall>i\<in>set (liters l'). \<exists>j m. iter_at ?as j m i"
    using wf(6) iter_insert [OF wf(1) assms(2,3)] by (fastforce simp: l'_def)
  have "list_wf l' ?as"
    unfolding list_wf_def
    using assms(2,3) wf(1,5) deref tail its dom h by (simp add: l'_def del: split_paired_All)
  moreover have "items l' = insert_at k x (items l)"
  proof -
    have "ndata (the (heap l' a)) = (if a = p then x else ndata (the (heap l a)))" if "a \<in> insert p (set as)" for a
      using that wf(2) unfolding h l2_def by (subst ndata_set_slot) (auto simp: l1_def)
    then have "elems_of l' ?as = insert_at k x (elems_of l as)"
      using assms(2,3) unfolding elems_of_def insert_at_def
      by (auto simp: take_map drop_map dest: in_set_takeD in_set_dropD)
    then show ?thesis using items_wf [OF \<open>list_wf l' ?as\<close>] items_wf [OF assms(1)] by simp
  qed
  moreover have "cursors l' = map (shift_right k) (cursors l)"
  proof -
    have "cursor ?as (if iprev i = slot_at as k then i\<lparr>iprev := Next p\<rparr>
      else if ipos i = node_at as k then i\<lparr>ipos := Some p\<rparr> else i) = shift_right k (cursor as i)"
      if i: "i \<in> set (liters l)" for i
    proof -
      obtain j m where ij: "iter_at as j m i" using wf(6) [OF i] by blast
      have "distinct ?as" using wf(1) assms(3) by simp
      from cursor_iter_at [OF this iter_insert [OF wf(1) assms(2,3) ij]] cursor_iter_at [OF wf(1) ij]
      show ?thesis by (cases "k \<le> j") simp_all
    qed
    then show ?thesis
      unfolding cursors_wf [OF \<open>list_wf l' ?as\<close>] cursors_wf [OF assms(1)] by (simp add: l'_def)
  qed
  ultimately show thesis using new that by blast
qed

lemma slot_at_remove:
  assumes "k < length as" "i < length as"
  shows "slot_at (remove_at k as) i = (if i \<le> k then slot_at as i else slot_at as (Suc i))"
  using assms by (auto simp: slot_at_def nth_remove_at)

lemma node_at_remove:
  assumes "k < length as" "i < length as"
  shows "node_at (remove_at k as) i = (if i < k then node_at as i else node_at as (Suc i))"
  using assms by (auto simp: node_at_def nth_remove_at)

lemma iter_remove:
  assumes "distinct as" "k < length as" "iter_at as j m i"
  shows "iter_at (remove_at k as) (fst (shift_left k (j, m))) (snd (shift_left k (j, m)))
    (if ipos i = node_at as k then i\<lparr>ipos := node_at as (Suc k), iprev := slot_at as k\<rparr>
     else if iprev i = slot_at as (Suc k) then i\<lparr>iprev := slot_at as k\<rparr> else i)"
proof -
  have j: "j + of_bool m \<le> length as" "j \<le> length as" "iprev i = slot_at as j" "ipos i = node_at as (j + of_bool m)"
    using assms(3) by (auto simp: iter_at_def)
  consider "j = k" | "k < j" | "j < k" by linarith
  then show ?thesis
  proof cases
    case 1
    then show ?thesis using j assms(1,2) by (cases m) (auto simp: iter_at_def slot_at_remove node_at_remove)
  next
    case 2
    then show ?thesis using j assms(1,2) by (cases m) (auto simp: iter_at_def slot_at_remove node_at_remove)
  next
    case 3
    then show ?thesis using j assms(1,2) by (cases m) (auto simp: iter_at_def slot_at_remove node_at_remove)
  qed
qed

lemma node_destroy_None: "list_wf l as \<Longrightarrow> list_node_destroy l (slot_at as (length as)) = (None, l)"
  using list_wfD(3) [of l as "length as"] by (simp add: list_node_destroy_def node_at_def)

lemma node_destroy_spec:
  assumes "list_wf l as" "k < length as"
  obtains l' where "list_node_destroy l (slot_at as k) = (Some (items l ! k), l')"
    "list_wf l' (remove_at k as)" "items l' = remove_at k (items l)"
    "cursors l' = map (shift_left k) (cursors l)"
proof -
  note wf = list_wfD [OF assms(1)]
  let ?as = "remove_at k as"
  let ?p = "as ! k"
  have sp: "slot_at as (Suc k) = Next ?p" by (simp add: slot_at_def)
  have nk: "node_at as k = Some ?p" using assms(2) by (simp add: node_at_def)
  have nx: "nnext (the (heap l ?p)) = node_at as (Suc k)"
    using wf(3) [of "Suc k"] assms(2) sp by simp
  define l2 where "l2 = set_slot l (slot_at as k) (node_at as (Suc k))"
  define l' where "l' = l2\<lparr>ltail := (if node_at as (Suc k) = None then slot_at as k else ltail l),
    lcount := lcount l - 1, liters := map (\<lambda>i. if ipos i = node_at as k then i\<lparr>ipos := node_at as (Suc k), iprev := slot_at as k\<rparr>
      else if iprev i = slot_at as (Suc k) then i\<lparr>iprev := slot_at as k\<rparr> else i) (liters l),
    heap := (heap l2)(?p := None)\<rparr>"
  have data: "ndata (the (heap l ?p)) = items l ! k"
    using assms by (simp add: items_wf elems_of_def)
  have sk: "slot_at as k \<noteq> Next ?p"
    using slot_at_inject [OF wf(1), of k "Suc k"] assms(2) sp by auto
  have gone: "list_node_destroy l (slot_at as k) = (Some (items l ! k), l')"
    using wf(3) [of k] assms(2) data
    by (cases "slot_at as k") (auto simp: list_node_destroy_def l'_def l2_def Let_def nk nx sp)
  have d: "deref l' s = (if s = slot_at as k then node_at as (Suc k) else deref l s)" if "s \<noteq> Next ?p" for s
  proof -
    have "deref l' s = deref l2 s" using that by (cases s) (auto simp: l'_def)
    then show ?thesis by (simp add: l2_def deref_set_slot)
  qed
  have dom: "dom (heap l') = set as - {?p}"
    using dom_set_slot [OF slot_in_dom [OF assms(1)], of k] assms(2) wf(2) by (simp add: l'_def l2_def)
  have part: "set as = insert ?p (set ?as)" "?p \<notin> set ?as" "distinct ?as"
    using set_insert_at [of k ?p ?as] distinct_insert_at [of k ?p ?as] wf(1)
    unfolding insert_at_remove_at [OF assms(2)] by auto
  have deref: "deref l' (slot_at ?as i) = node_at ?as i" if "i \<le> length ?as" for i
  proof -
    have i: "i < length as" using that assms(2) by simp
    consider "i < k" | "i = k" | "k < i" by linarith
    then show ?thesis
    proof cases
      case 1
      have "slot_at as i \<noteq> Next ?p" "slot_at as i \<noteq> slot_at as k"
        using 1 i assms(2) slot_at_inject [OF wf(1), of i "Suc k"] slot_at_inject [OF wf(1), of i k] sp by auto
      then show ?thesis using 1 i assms(2) wf(3) by (simp add: d slot_at_remove node_at_remove)
    next
      case 2
      then show ?thesis using i sk assms(2) by (simp add: d slot_at_remove node_at_remove)
    next
      case 3
      have "slot_at as (Suc i) \<noteq> Next ?p" "slot_at as (Suc i) \<noteq> slot_at as k"
        using 3 i assms(2) slot_at_inject [OF wf(1), of "Suc i" "Suc k"] slot_at_inject [OF wf(1), of "Suc i" k] sp by auto
      then show ?thesis using 3 i assms(2) wf(3) by (simp add: d slot_at_remove node_at_remove)
    qed
  qed
  have tail: "ltail l' = slot_at ?as (length as - 1)"
  proof (cases "Suc k < length as")
    case True
    then have "Suc (length as - 1) = length as" "k < length as - 1" by linarith+
    then show ?thesis using True wf(4) by (simp add: l'_def slot_at_remove node_at_def)
  next
    case False
    then have "length as = Suc k" using assms(2) by simp
    then show ?thesis by (simp add: l'_def slot_at_remove node_at_def)
  qed
  have its: "\<forall>i\<in>set (liters l'). \<exists>j m. iter_at ?as j m i"
    using wf(6) iter_remove [OF wf(1) assms(2)] by (fastforce simp: l'_def)
  have W: "list_wf l' ?as"
    unfolding list_wf_def using assms(2) wf(5) deref tail its dom part by (auto simp: l'_def)
  moreover have "items l' = remove_at k (items l)"
  proof -
    have "ndata (the (heap l' a)) = ndata (the (heap l a))" if "a \<in> set ?as" for a
      using that part wf(2) by (auto simp: l'_def l2_def ndata_set_slot)
    then have "elems_of l' ?as = map (\<lambda>a. ndata (the (heap l a))) ?as" by (simp add: elems_of_def)
    then show ?thesis unfolding items_wf [OF W] items_wf [OF assms(1)]
      by (simp add: elems_of_def remove_at_def take_map drop_map)
  qed
  moreover have "cursors l' = map (shift_left k) (cursors l)"
  proof -
    have "cursor ?as (if ipos i = node_at as k then i\<lparr>ipos := node_at as (Suc k), iprev := slot_at as k\<rparr>
      else if iprev i = slot_at as (Suc k) then i\<lparr>iprev := slot_at as k\<rparr> else i) = shift_left k (cursor as i)"
      if i: "i \<in> set (liters l)" for i
    proof -
      obtain j m where ij: "iter_at as j m i" using wf(6) [OF i] by blast
      from cursor_iter_at [OF part(3) iter_remove [OF wf(1) assms(2) ij]] cursor_iter_at [OF wf(1) ij]
      show ?thesis by simp
    qed
    then show ?thesis unfolding cursors_wf [OF W] cursors_wf [OF assms(1)] by (simp add: l'_def)
  qed
  ultimately show thesis using gone that by blast
qed

end
