(* ===== verification/List_Ops.thy ===== *)
theory List_Ops
  imports Linked_List
begin

text \<open>
  The public operations of \<open>common/list.c\<close>, and for each what it does to the sequence and
  the cursors of a well-formed list. Loops over the nodes are partial functions, \<open>None\<close>
  standing for a loop that does not end or that follows a null pointer; on well-formed lists
  they are shown to return.
\<close>

section \<open>Operations on the list\<close>

definition list_is_empty :: "'a llist \<Rightarrow> bool" where
  [list_defs]: "list_is_empty l \<longleftrightarrow> lcount l = 0"

definition list_count :: "'a llist \<Rightarrow> int" where
  [list_defs]: "list_count l = lcount l"

definition list_append :: "'a llist \<Rightarrow> 'a \<Rightarrow> addr option \<Rightarrow> 'a option \<times> 'a llist" where
  [list_defs]: "list_append l x new = list_node_create l (ltail l) x new"

definition list_prepend :: "'a llist \<Rightarrow> 'a \<Rightarrow> addr option \<Rightarrow> 'a option \<times> 'a llist" where
  [list_defs]: "list_prepend l x new = list_node_create l Head x new"

definition list_push :: "'a llist \<Rightarrow> 'a \<Rightarrow> addr option \<Rightarrow> 'a option \<times> 'a llist" where
  [list_defs]: "list_push l x new = list_node_create l Head x new"

definition list_pop :: "'a llist \<Rightarrow> 'a option \<times> 'a llist" where
  [list_defs]: "list_pop l = list_node_destroy l Head"

definition list_peek :: "'a llist \<Rightarrow> 'a option" where
  [list_defs]: "list_peek l = map_option (\<lambda>p. ndata (the (heap l p))) (lhead l)"

definition list_enqueue :: "'a llist \<Rightarrow> 'a \<Rightarrow> addr option \<Rightarrow> 'a option \<times> 'a llist" where
  [list_defs]: "list_enqueue l x new = list_node_create l (ltail l) x new"

definition list_dequeue :: "'a llist \<Rightarrow> 'a option \<times> 'a llist" where
  [list_defs]: "list_dequeue l = list_node_destroy l Head"

text \<open>Loops along the \<open>next\<close> pointers\<close>

partial_function (option) find_first_loop ::
  "(addr \<rightharpoonup> 'a list_node) \<Rightarrow> ('a \<Rightarrow> bool) \<Rightarrow> addr option \<Rightarrow> 'a option option" where
  "find_first_loop h f p =
    (case p of
       None \<Rightarrow> Some None
     | Some a \<Rightarrow>
         if f (ndata (the (h a))) then Some (Some (ndata (the (h a))))
         else find_first_loop h f (nnext (the (h a))))"

definition list_find_first :: "'a llist \<Rightarrow> ('a \<Rightarrow> 'k \<Rightarrow> bool) \<Rightarrow> 'k \<Rightarrow> 'a option option" where
  "list_find_first l f key = find_first_loop (heap l) (\<lambda>v. f v key) (lhead l)"

text \<open>The callback of \<open>list_for_each\<close> may change the memory \<open>arg\<close> points to.\<close>

partial_function (option) for_each_loop ::
  "(addr \<rightharpoonup> 'a list_node) \<Rightarrow> ('a \<Rightarrow> 's \<Rightarrow> int \<times> 's) \<Rightarrow> addr option \<Rightarrow> int \<Rightarrow> 's \<Rightarrow> (int \<times> 's) option" where
  "for_each_loop h f p n arg =
    (case p of
       None \<Rightarrow> Some (n, arg)
     | Some a \<Rightarrow>
         let (r, arg) = f (ndata (the (h a))) arg
         in if r < 0 then Some (- (n + 1), arg)
            else for_each_loop h f (nnext (the (h a))) (n + 1) arg)"

definition list_for_each :: "'a llist \<Rightarrow> ('a \<Rightarrow> 's \<Rightarrow> int \<times> 's) \<Rightarrow> 's \<Rightarrow> (int \<times> 's) option" where
  "list_for_each l f arg = for_each_loop (heap l) f (lhead l) 0 arg"

text \<open>The data handed to \<open>fDel\<close> are returned in order.\<close>

partial_function (option) delete_all_loop ::
  "('a \<Rightarrow> bool) \<Rightarrow> 'a llist \<Rightarrow> slot \<Rightarrow> int \<Rightarrow> 'a list \<Rightarrow> (int \<times> 'a list \<times> 'a llist) option" where
  "delete_all_loop f l pp n dels =
    (case deref l pp of
       None \<Rightarrow> Some (n, dels, l)
     | Some p \<Rightarrow>
         if f (ndata (the (heap l p))) then
           case list_node_destroy l pp of
             (Some v, l) \<Rightarrow> delete_all_loop f l pp (n + 1) (dels @ [v])
           | (None, l) \<Rightarrow> delete_all_loop f l pp n dels
         else delete_all_loop f l (Next p) n dels)"

definition list_delete_all ::
  "'a llist \<Rightarrow> ('a \<Rightarrow> 'k \<Rightarrow> bool) \<Rightarrow> 'k \<Rightarrow> (int \<times> 'a list \<times> 'a llist) option" where
  "list_delete_all l f key = delete_all_loop (\<lambda>v. f v key) l Head 0 []"

text \<open>\<open>list_destroy\<close>: the data handed to \<open>fDel\<close>, on the way to freeing every node\<close>

partial_function (option) destroy_loop ::
  "(addr \<rightharpoonup> 'a list_node) \<Rightarrow> addr option \<Rightarrow> 'a list \<Rightarrow> 'a list option" where
  "destroy_loop h p freed =
    (case p of
       None \<Rightarrow> Some freed
     | Some a \<Rightarrow> destroy_loop (h(a := None)) (nnext (the (h a))) (freed @ [ndata (the (h a))]))"

definition list_destroy :: "'a llist \<Rightarrow> 'a list option" where
  "list_destroy l = destroy_loop (heap l) (lhead l) []"

section \<open>Sorting\<close>

text \<open>The search for the place of \<open>x\<close>; a null pointer would be followed past the last node.\<close>

partial_function (option) sort_pos :: "('a \<Rightarrow> 'a \<Rightarrow> int) \<Rightarrow> 'a llist \<Rightarrow> 'a \<Rightarrow> slot \<Rightarrow> slot option" where
  "sort_pos f l x ppPos =
    (case deref l ppPos of
       None \<Rightarrow> None
     | Some q \<Rightarrow> if f x (ndata (the (heap l q))) \<ge> 0 then sort_pos f l x (Next q) else Some ppPos)"

partial_function (option) sort_loop ::
  "('a \<Rightarrow> 'a \<Rightarrow> int) \<Rightarrow> 'a llist \<Rightarrow> slot \<Rightarrow> slot \<Rightarrow> (slot \<times> 'a llist) option" where
  "sort_loop f l ppPrev pp =
    (case deref l pp of
       None \<Rightarrow> Some (pp, l)
     | Some p \<Rightarrow>
         case deref l ppPrev of
           None \<Rightarrow> None
         | Some q \<Rightarrow>
             if f (ndata (the (heap l p))) (ndata (the (heap l q))) < 0 then
               case sort_pos f l (ndata (the (heap l p))) Head of
                 None \<Rightarrow> None
               | Some ppPos \<Rightarrow>
                   let pTmp = nnext (the (heap l p));
                       l = set_slot l (Next p) (deref l ppPos);
                       l = set_slot l ppPos (Some p);
                       l = set_slot l pp pTmp
                   in sort_loop f l (if ppPrev = ppPos then Next (the (deref l ppPrev)) else ppPrev) pp
             else sort_loop f l pp (Next p))"

definition list_sort :: "'a llist \<Rightarrow> ('a \<Rightarrow> 'a \<Rightarrow> int) \<Rightarrow> 'a llist option" where
  "list_sort l f =
    (if lcount l > 1 then
       case lhead l of
         None \<Rightarrow> None
       | Some a \<Rightarrow>
           map_option (\<lambda>(pp, l). l\<lparr>ltail := pp,
               liters := map (\<lambda>i. i\<lparr>ipos := lhead l, iprev := Head\<rparr>) (liters l)\<rparr>)
             (sort_loop f l Head (Next a))
     else Some l)"

section \<open>Iterators\<close>

text \<open>\<open>new\<close> is the answer of \<open>list_iterator_alloc\<close>; the result is whether there is a new iterator.\<close>

definition list_iterator_create :: "'a llist \<Rightarrow> addr option \<Rightarrow> bool \<times> 'a llist" where
  "list_iterator_create l new =
    (case new of
       None \<Rightarrow> (False, l)
     | Some _ \<Rightarrow> (True, l\<lparr>liters := \<lparr>ipos = lhead l, iprev = Head\<rparr> # liters l\<rparr>))"

definition list_iterator_reset :: "'a llist \<Rightarrow> nat \<Rightarrow> 'a llist" where
  "list_iterator_reset l k =
    l\<lparr>liters := (liters l)[k := (liters l ! k)\<lparr>ipos := lhead l, iprev := Head\<rparr>]\<rparr>"

definition list_iterator_destroy :: "'a llist \<Rightarrow> nat \<Rightarrow> 'a llist" where
  "list_iterator_destroy l k = l\<lparr>liters := take k (liters l) @ drop (Suc k) (liters l)\<rparr>"

definition list_next :: "'a llist \<Rightarrow> nat \<Rightarrow> 'a option \<times> 'a llist" where
  "list_next l k =
    (let i = liters l ! k;
         p = ipos i;
         i = (case p of Some a \<Rightarrow> i\<lparr>ipos := nnext (the (heap l a))\<rparr> | None \<Rightarrow> i);
         i = (if deref l (iprev i) \<noteq> p then i\<lparr>iprev := Next (the (deref l (iprev i)))\<rparr> else i)
     in (map_option (\<lambda>a. ndata (the (heap l a))) p, l\<lparr>liters := (liters l)[k := i]\<rparr>))"

definition list_insert :: "'a llist \<Rightarrow> nat \<Rightarrow> 'a \<Rightarrow> addr option \<Rightarrow> 'a option \<times> 'a llist" where
  "list_insert l k x new = list_node_create l (iprev (liters l ! k)) x new"

partial_function (option) list_find_loop ::
  "'a llist \<Rightarrow> nat \<Rightarrow> ('a \<Rightarrow> bool) \<Rightarrow> ('a option \<times> 'a llist) option" where
  "list_find_loop l k f =
    (case list_next l k of
       (None, l) \<Rightarrow> Some (None, l)
     | (Some v, l) \<Rightarrow> if f v then Some (Some v, l) else list_find_loop l k f)"

definition list_find :: "'a llist \<Rightarrow> nat \<Rightarrow> ('a \<Rightarrow> 'k \<Rightarrow> bool) \<Rightarrow> 'k \<Rightarrow> ('a option \<times> 'a llist) option" where
  "list_find l k f key = list_find_loop l k (\<lambda>v. f v key)"

definition list_remove :: "'a llist \<Rightarrow> nat \<Rightarrow> 'a option \<times> 'a llist" where
  "list_remove l k =
    (if deref l (iprev (liters l ! k)) \<noteq> ipos (liters l ! k)
     then list_node_destroy l (iprev (liters l ! k)) else (None, l))"

text \<open>The removed datum, which \<open>fDel\<close> receives, and the answer\<close>

definition list_delete :: "'a llist \<Rightarrow> nat \<Rightarrow> int \<times> 'a option \<times> 'a llist" where
  "list_delete l k =
    (case list_remove l k of
       (Some v, l) \<Rightarrow> (1, Some v, l)
     | (None, l) \<Rightarrow> (0, None, l))"

end
