(* ===== verification/List_Spec.thy ===== *)
theory List_Spec
  imports List_Ops
begin

text \<open>
  The contract of \<open>common/list.c\<close>: a sequence with cursors, one operation per public
  function, and the refinement. \<open>absl\<close> maps a well-formed list to its sequence; every
  operation on the heap keeps the list well-formed and does to the sequence what the abstract
  operation does.
\<close>

record 'a seq =
  elems :: "'a list"
  curs :: "(nat \<times> bool) list"

definition absl :: "'a llist \<Rightarrow> 'a seq" where
  "absl l = \<lparr>elems = items l, curs = cursors l\<rparr>"

section \<open>Sequences with cursors\<close>

definition seq_insert :: "nat \<Rightarrow> 'a \<Rightarrow> 'a seq \<Rightarrow> 'a seq" where
  "seq_insert k x s = \<lparr>elems = insert_at k x (elems s), curs = map (shift_right k) (curs s)\<rparr>"

definition seq_remove :: "nat \<Rightarrow> 'a seq \<Rightarrow> 'a option \<times> 'a seq" where
  "seq_remove k s =
    (if k < length (elems s)
     then (Some (elems s ! k), \<lparr>elems = remove_at k (elems s), curs = map (shift_left k) (curs s)\<rparr>)
     else (None, s))"

text \<open>The element behind a cursor, and the cursor that has returned it\<close>

definition next_pos :: "nat \<times> bool \<Rightarrow> nat" where
  "next_pos c = fst c + of_bool (snd c)"

definition seq_next :: "nat \<Rightarrow> 'a seq \<Rightarrow> 'a option \<times> 'a seq" where
  "seq_next c s =
    (let k = next_pos (curs s ! c)
     in if k < length (elems s) then (Some (elems s ! k), s\<lparr>curs := (curs s)[c := (k, True)]\<rparr>)
        else (None, s\<lparr>curs := (curs s)[c := (k, False)]\<rparr>))"

definition seq_insert_cur :: "nat \<Rightarrow> 'a \<Rightarrow> 'a seq \<Rightarrow> 'a seq" where
  "seq_insert_cur c x s = seq_insert (fst (curs s ! c)) x s"

definition seq_remove_cur :: "nat \<Rightarrow> 'a seq \<Rightarrow> 'a option \<times> 'a seq" where
  "seq_remove_cur c s = (if snd (curs s ! c) then seq_remove (fst (curs s ! c)) s else (None, s))"

text \<open>The elements a cursor has yet to visit\<close>

definition ahead :: "nat \<Rightarrow> 'a seq \<Rightarrow> 'a list" where
  "ahead c s = drop (next_pos (curs s ! c)) (elems s)"

definition seq_find :: "nat \<Rightarrow> ('a \<Rightarrow> bool) \<Rightarrow> 'a seq \<Rightarrow> 'a option \<times> 'a seq" where
  "seq_find c f s =
    (let k = next_pos (curs s ! c) + length (takeWhile (\<lambda>v. \<not> f v) (ahead c s))
     in if k < length (elems s) then (Some (elems s ! k), s\<lparr>curs := (curs s)[c := (k, True)]\<rparr>)
        else (None, s\<lparr>curs := (curs s)[c := (k, False)]\<rparr>))"

text \<open>Removal of the positions from \<open>k\<close> on whose element is selected\<close>

function seq_delete_from :: "('a \<Rightarrow> bool) \<Rightarrow> nat \<Rightarrow> 'a seq \<Rightarrow> 'a seq" where
  "seq_delete_from f k s =
    (if k < length (elems s) then
       if f (elems s ! k) then seq_delete_from f k (snd (seq_remove k s))
       else seq_delete_from f (Suc k) s
     else s)"
  by pat_completeness auto
termination
  by (relation "measure (\<lambda>(_, k, s). length (elems s) - k)") (auto simp: seq_remove_def)

declare seq_delete_from.simps [simp del]

lemma elems_seq_delete_from:
  "elems (seq_delete_from f k s) = take k (elems s) @ filter (\<lambda>v. \<not> f v) (drop k (elems s))"
proof (induction f k s rule: seq_delete_from.induct)
  case (1 f k s)
  show ?case
  proof (cases "k < length (elems s)")
    case True
    then have d: "drop k (elems s) = elems s ! k # drop (Suc k) (elems s)" by (simp add: Cons_nth_drop_Suc)
    show ?thesis
    proof (cases "f (elems s ! k)")
      case sel: True
      then have "elems (seq_delete_from f k s) = elems (seq_delete_from f k (snd (seq_remove k s)))"
        using True by (subst seq_delete_from.simps) simp
      then show ?thesis using 1(1) [OF True sel] True sel d by (simp add: seq_remove_def remove_at_def)
    next
      case sel: False
      then have "elems (seq_delete_from f k s) = elems (seq_delete_from f (Suc k) s)"
        using True by (subst seq_delete_from.simps) simp
      then show ?thesis using 1(2) [OF True sel] True sel d by (simp add: take_Suc_conv_app_nth)
    qed
  next
    case False
    then show ?thesis by (subst seq_delete_from.simps) simp
  qed
qed

text \<open>
  Insertion sort: \<open>x\<close> goes before the first element of the sorted part that it precedes,
  and behind the part if it does not precede its last element.
\<close>

definition sort_insert :: "('a \<Rightarrow> 'a \<Rightarrow> int) \<Rightarrow> 'a list \<Rightarrow> 'a \<Rightarrow> 'a list" where
  "sort_insert f ys x =
    (if f x (last ys) < 0
     then insert_at (length (takeWhile (\<lambda>y. f x y \<ge> 0) ys)) x ys
     else ys @ [x])"

definition insertion_sort :: "('a \<Rightarrow> 'a \<Rightarrow> int) \<Rightarrow> 'a list \<Rightarrow> 'a list" where
  "insertion_sort f xs = (case xs of [] \<Rightarrow> [] | x # xs \<Rightarrow> foldl (sort_insert f) [x] xs)"

lemma mset_foldl_sort: "mset (foldl (sort_insert f) ys xs) = mset ys + mset xs"
  by (induction xs arbitrary: ys) (simp_all add: sort_insert_def)

lemma mset_insertion_sort [simp]: "mset (insertion_sort f xs) = mset xs"
  by (cases xs) (simp_all add: insertion_sort_def mset_foldl_sort)

section \<open>The primitives\<close>

lemma dom_addrs: "list_ok l \<Longrightarrow> dom (heap l) = set (addrs l)"
  by (simp add: list_ok_def list_wf_def)

lemma length_addrs: "length (addrs l) = length (items l)"
  by (simp add: items_def elems_of_def)

lemma create_at:
  assumes "list_ok l" "k \<le> length (items l)" "p \<notin> dom (heap l)"
  obtains l' where "list_node_create l (slot_at (addrs l) k) x (Some p) = (Some x, l')" "list_ok l'"
    "absl l' = seq_insert k x (absl l)"
proof -
  have k: "k \<le> length (addrs l)" and p: "p \<notin> set (addrs l)"
    using assms dom_addrs [OF assms(1)] by (simp_all add: length_addrs)
  from node_create_spec [OF assms(1) [unfolded list_ok_def] k p, of x] obtain l' where l':
    "list_node_create l (slot_at (addrs l) k) x (Some p) = (Some x, l')"
    "list_wf l' (insert_at k p (addrs l))" "items l' = insert_at k x (items l)"
    "cursors l' = map (shift_right k) (cursors l)" by blast
  then show thesis using that [of l'] by (auto simp: list_ok_iff absl_def seq_insert_def)
qed

lemma destroy_at:
  assumes "list_ok l" "k \<le> length (items l)"
  obtains l' where "list_node_destroy l (slot_at (addrs l) k) = (fst (seq_remove k (absl l)), l')" "list_ok l'"
    "absl l' = snd (seq_remove k (absl l))" "k < length (items l) \<Longrightarrow> addrs l' = remove_at k (addrs l)"
proof (cases "k = length (items l)")
  case True
  then have "list_node_destroy l (slot_at (addrs l) k) = (None, l)"
    using node_destroy_None [OF assms(1) [unfolded list_ok_def]] by (simp add: length_addrs)
  then show thesis using that [of l] assms True by (simp add: seq_remove_def absl_def)
next
  case False
  then have k: "k < length (addrs l)" using assms by (simp add: length_addrs)
  from node_destroy_spec [OF assms(1) [unfolded list_ok_def] k] obtain l' where
    "list_node_destroy l (slot_at (addrs l) k) = (Some (items l ! k), l')"
    "list_wf l' (remove_at k (addrs l))" "items l' = remove_at k (items l)"
    "cursors l' = map (shift_left k) (cursors l)" by blast
  moreover from this(2) have "list_ok l'" unfolding list_ok_iff by blast
  moreover have "seq_remove k (absl l) = (Some (items l ! k), \<lparr>elems = remove_at k (items l), curs = map (shift_left k) (cursors l)\<rparr>)"
    using k by (simp add: seq_remove_def absl_def length_addrs)
  moreover have "addrs l' = remove_at k (addrs l)" by (rule list_wf_addrs) fact
  ultimately show thesis using that [of l'] by (simp add: absl_def)
qed

lemma head_slot: "slot_at as 0 = Head"
  by (simp add: slot_at_def)

lemma tail_slot: "list_ok l \<Longrightarrow> ltail l = slot_at (addrs l) (length (items l))"
  by (simp add: list_ok_def list_wf_def length_addrs)

lemma list_append_spec:
  assumes "list_ok l" "p \<notin> dom (heap l)"
  obtains l' where "list_append l x (Some p) = (Some x, l')" "list_ok l'"
    "absl l' = seq_insert (length (items l)) x (absl l)"
  using create_at [OF assms(1) order_refl assms(2), of x] that
  unfolding list_append_def tail_slot [OF assms(1)] by blast

lemma list_prepend_spec:
  assumes "list_ok l" "p \<notin> dom (heap l)"
  obtains l' where "list_prepend l x (Some p) = (Some x, l')" "list_ok l'"
    "absl l' = seq_insert 0 x (absl l)"
  using create_at [OF assms(1) _ assms(2), of 0 x] that
  unfolding list_prepend_def head_slot [of "addrs l"] by blast

lemma list_pop_spec:
  assumes "list_ok l"
  obtains l' where "list_pop l = (fst (seq_remove 0 (absl l)), l')" "list_ok l'"
    "absl l' = snd (seq_remove 0 (absl l))"
  using destroy_at [OF assms, of 0] that unfolding list_pop_def head_slot [of "addrs l"] by blast

lemma list_peek_spec: "list_ok l \<Longrightarrow> list_peek l = (case items l of [] \<Rightarrow> None | x # _ \<Rightarrow> Some x)"
  using list_wfD(3) [of l "addrs l" 0]
  by (cases "addrs l") (auto simp: list_ok_def list_peek_def head_slot node_at_def items_def elems_of_def)

section \<open>Iterators\<close>

lemma cursors_nth:
  assumes "list_ok l" "k < length (liters l)"
  obtains j m where "cursors l ! k = (j, m)" "iter_at (addrs l) j m (liters l ! k)"
proof -
  have wf: "list_wf l (addrs l)" using assms(1) by (simp add: list_ok_def)
  have "liters l ! k \<in> set (liters l)" using assms(2) by simp
  from list_wfD(6) [OF wf this] obtain j m where jm: "iter_at (addrs l) j m (liters l ! k)" by blast
  then have "cursors l ! k = (j, m)"
    using cursor_iter_at [OF list_wfD(1) [OF wf] jm] assms(2) by (simp add: cursors_def)
  then show thesis using jm that by blast
qed

lemma liters_update:
  assumes "list_ok l" "set is \<subseteq> {i. \<exists>j m. iter_at (addrs l) j m i}"
  shows "list_ok (l\<lparr>liters := is\<rparr>)" "addrs (l\<lparr>liters := is\<rparr>) = addrs l" "items (l\<lparr>liters := is\<rparr>) = items l"
    "cursors (l\<lparr>liters := is\<rparr>) = map (cursor (addrs l)) is"
proof -
  show a: "addrs (l\<lparr>liters := is\<rparr>) = addrs l" by (simp add: addrs_def)
  show "list_ok (l\<lparr>liters := is\<rparr>)"
    using assms unfolding list_ok_def a list_wf_def by auto
  show "items (l\<lparr>liters := is\<rparr>) = items l" unfolding items_def a elems_of_def by simp
  show "cursors (l\<lparr>liters := is\<rparr>) = map (cursor (addrs l)) is" unfolding cursors_def a by simp
qed

lemma iter_at_begin: "list_ok l \<Longrightarrow> iter_at (addrs l) 0 False (i\<lparr>ipos := lhead l, iprev := Head\<rparr>)"
  using list_wfD(3) [of l "addrs l" 0] by (simp add: list_ok_def iter_at_def head_slot)

lemma set_liters: "list_ok l \<Longrightarrow> set (liters l) \<subseteq> {i. \<exists>j m. iter_at (addrs l) j m i}"
  by (auto simp: list_ok_def list_wf_def)

lemma distinct_addrs: "list_ok l \<Longrightarrow> distinct (addrs l)"
  by (simp add: list_ok_def list_wf_def)

lemma list_iterator_create_spec:
  assumes "list_ok l"
  shows "fst (list_iterator_create l (Some p))" "list_ok (snd (list_iterator_create l (Some p)))"
    "absl (snd (list_iterator_create l (Some p))) = (absl l)\<lparr>curs := (0, False) # curs (absl l)\<rparr>"
proof -
  have i: "iter_at (addrs l) 0 False \<lparr>ipos = lhead l, iprev = Head\<rparr>"
    using iter_at_begin [OF assms, of undefined] by (simp add: iter_at_def)
  then have "set (\<lparr>ipos = lhead l, iprev = Head\<rparr> # liters l) \<subseteq> {i. \<exists>j m. iter_at (addrs l) j m i}"
    using set_liters [OF assms] by auto
  note u = liters_update [OF assms this]
  show "fst (list_iterator_create l (Some p))" "list_ok (snd (list_iterator_create l (Some p)))"
    using u(1) by (simp_all add: list_iterator_create_def)
  show "absl (snd (list_iterator_create l (Some p))) = (absl l)\<lparr>curs := (0, False) # curs (absl l)\<rparr>"
    using u(3,4) cursor_iter_at [OF distinct_addrs [OF assms] i]
    by (simp add: list_iterator_create_def absl_def cursors_def [of l])
qed

lemma iter_update:
  assumes "list_ok l" "k < length (liters l)" "iter_at (addrs l) j m i"
  shows "list_ok (l\<lparr>liters := (liters l)[k := i]\<rparr>)" "absl (l\<lparr>liters := (liters l)[k := i]\<rparr>) = (absl l)\<lparr>curs := (curs (absl l))[k := (j, m)]\<rparr>"
proof -
  have "set ((liters l)[k := i]) \<subseteq> {i. \<exists>j m. iter_at (addrs l) j m i}"
    using set_liters [OF assms(1)] set_update_subset_insert [of "liters l" k i] assms(3) by auto
  note u = liters_update [OF assms(1) this]
  show "list_ok (l\<lparr>liters := (liters l)[k := i]\<rparr>)" by (rule u(1))
  show "absl (l\<lparr>liters := (liters l)[k := i]\<rparr>) = (absl l)\<lparr>curs := (curs (absl l))[k := (j, m)]\<rparr>"
    using u(3,4) cursor_iter_at [OF distinct_addrs [OF assms(1)] assms(3)]
    by (simp add: absl_def cursors_def [of l] map_update)
qed

lemma list_iterator_reset_spec:
  assumes "list_ok l" "k < length (liters l)"
  shows "list_ok (list_iterator_reset l k)"
    "absl (list_iterator_reset l k) = (absl l)\<lparr>curs := (curs (absl l))[k := (0, False)]\<rparr>"
  using iter_update [OF assms iter_at_begin [OF assms(1)]] by (simp_all add: list_iterator_reset_def)

lemma list_iterator_destroy_spec:
  assumes "list_ok l"
  shows "list_ok (list_iterator_destroy l k)"
    "absl (list_iterator_destroy l k) = (absl l)\<lparr>curs := take k (curs (absl l)) @ drop (Suc k) (curs (absl l))\<rparr>"
proof -
  have "set (take k (liters l) @ drop (Suc k) (liters l)) \<subseteq> {i. \<exists>j m. iter_at (addrs l) j m i}"
    using set_liters [OF assms] by (auto dest: in_set_takeD in_set_dropD)
  note u = liters_update [OF assms this]
  show "list_ok (list_iterator_destroy l k)"
    "absl (list_iterator_destroy l k) = (absl l)\<lparr>curs := take k (curs (absl l)) @ drop (Suc k) (curs (absl l))\<rparr>"
    using u by (simp_all add: list_iterator_destroy_def absl_def cursors_def [of l] take_map drop_map)
qed

lemma list_next_spec:
  assumes "list_ok l" "k < length (liters l)"
  obtains l' where "list_next l k = (fst (seq_next k (absl l)), l')" "list_ok l'"
    "absl l' = snd (seq_next k (absl l))"
proof -
  obtain j m where jm: "cursors l ! k = (j, m)" "iter_at (addrs l) j m (liters l ! k)"
    using cursors_nth [OF assms] .
  let ?i = "liters l ! k" and ?as = "addrs l" and ?n = "j + of_bool m"
  have wf: "list_wf l ?as" using assms(1) by (simp add: list_ok_def)
  note dr = list_wfD(3) [OF wf]
  have i: "?n \<le> length ?as" "iprev ?i = slot_at ?as j" "ipos ?i = node_at ?as ?n"
    using jm(2) by (auto simp: iter_at_def)
  have prev: "deref l (slot_at ?as j) = node_at ?as j" "j \<le> length ?as" using dr i(1) by simp_all
  have ne: "node_at ?as j \<noteq> node_at ?as ?n \<longleftrightarrow> m"
    using node_at_inject [OF distinct_addrs [OF assms(1)] prev(2) i(1)] by simp
  have step: "Next (the (node_at ?as j)) = slot_at ?as (Suc j)" if m
    using that i(1) by (simp add: node_at_def slot_at_def)
  show thesis
  proof (cases "?n < length ?as")
    case True
    then have p: "ipos ?i = Some (?as ! ?n)" using i(3) by (simp add: node_at_def)
    have nx: "nnext (the (heap l (?as ! ?n))) = node_at ?as (Suc ?n)"
      using dr [of "Suc ?n"] True by (simp add: slot_at_def)
    define i' where "i' = ?i\<lparr>ipos := node_at ?as (Suc ?n), iprev := slot_at ?as ?n\<rparr>"
    have pn: "node_at ?as j \<noteq> Some (?as ! ?n) \<longleftrightarrow> m" using ne i(3) p by simp
    have same: "?i\<lparr>ipos := v, iprev := slot_at ?as j\<rparr> = ?i\<lparr>ipos := v\<rparr>" for v
      unfolding i(2) [symmetric] by simp
    have "list_next l k = (Some (items l ! ?n), l\<lparr>liters := (liters l)[k := i']\<rparr>)"
      using p nx i prev pn step True
      by (cases m) (simp_all add: list_next_def Let_def i'_def items_def elems_of_def same)
    moreover have it: "iter_at ?as ?n True i'" using True by (simp add: iter_at_def i'_def)
    moreover have "seq_next k (absl l) = (Some (items l ! ?n), (absl l)\<lparr>curs := (curs (absl l))[k := (?n, True)]\<rparr>)"
      using True jm(1) by (simp add: seq_next_def absl_def next_pos_def length_addrs)
    ultimately show thesis using iter_update [OF assms it] that by simp
  next
    case False
    then have p: "ipos ?i = None" using i(3) by (simp add: node_at_def)
    define i' where "i' = ?i\<lparr>iprev := slot_at ?as ?n\<rparr>"
    have pn: "node_at ?as j \<noteq> None \<longleftrightarrow> m" using ne i(3) p by simp
    have same: "i' = ?i" if "\<not> m"
      using that i(2) by (simp add: i'_def)
    have "list_next l k = (None, l\<lparr>liters := (liters l)[k := i']\<rparr>)"
      using p i prev pn step False
      by (cases m) (auto simp: list_next_def Let_def same, simp add: i'_def)
    moreover have it: "iter_at ?as ?n False i'" using i(1,3) by (simp add: iter_at_def i'_def)
    moreover have "seq_next k (absl l) = (None, (absl l)\<lparr>curs := (curs (absl l))[k := (?n, False)]\<rparr>)"
      using False jm(1) by (simp add: seq_next_def absl_def next_pos_def length_addrs)
    ultimately show thesis using iter_update [OF assms it] that by simp
  qed
qed

lemma list_insert_spec:
  assumes "list_ok l" "k < length (liters l)" "p \<notin> dom (heap l)"
  obtains l' where "list_insert l k x (Some p) = (Some x, l')" "list_ok l'"
    "absl l' = seq_insert_cur k x (absl l)"
proof -
  obtain j m where jm: "cursors l ! k = (j, m)" "iter_at (addrs l) j m (liters l ! k)"
    using cursors_nth [OF assms(1,2)] .
  then have "iprev (liters l ! k) = slot_at (addrs l) j" "j \<le> length (items l)"
    by (auto simp: iter_at_def length_addrs)
  then show thesis
    using create_at [OF assms(1) _ assms(3), of j x] that jm(1)
    unfolding list_insert_def seq_insert_cur_def by (auto simp: absl_def)
qed

lemma list_remove_spec:
  assumes "list_ok l" "k < length (liters l)"
  obtains l' where "list_remove l k = (fst (seq_remove_cur k (absl l)), l')" "list_ok l'"
    "absl l' = snd (seq_remove_cur k (absl l))"
proof -
  obtain j m where jm: "cursors l ! k = (j, m)" "iter_at (addrs l) j m (liters l ! k)"
    using cursors_nth [OF assms(1,2)] .
  then have i: "iprev (liters l ! k) = slot_at (addrs l) j" "ipos (liters l ! k) = node_at (addrs l) (j + of_bool m)"
    "j + of_bool m \<le> length (addrs l)" "j \<le> length (items l)"
    by (auto simp: iter_at_def length_addrs)
  have "deref l (slot_at (addrs l) j) = node_at (addrs l) j"
    using list_wfD(3) [of l "addrs l" j] assms(1) i(4) by (simp add: list_ok_def length_addrs)
  then have m: "deref l (iprev (liters l ! k)) \<noteq> ipos (liters l ! k) \<longleftrightarrow> m"
    using node_at_inject [OF distinct_addrs [OF assms(1)], of j "j + of_bool m"] i by (simp add: length_addrs)
  have c: "curs (absl l) ! k = (j, m)" using jm(1) by (simp add: absl_def)
  show thesis
  proof (cases m)
    case True
    then show thesis
      using destroy_at [OF assms(1) i(4)] that m i(1) c by (auto simp: list_remove_def seq_remove_cur_def)
  next
    case False
    then show thesis
      using that [of l] m c assms(1) by (auto simp: list_remove_def seq_remove_cur_def)
  qed
qed

section \<open>Loops along the list\<close>

lemma list_wf_next:
  assumes "list_wf l as" "i < length as"
  shows "nnext (the (heap l (as ! i))) = node_at as (Suc i)"
  using list_wfD(3) [OF assms(1), of "Suc i"] assms(2) by (simp add: slot_at_def)

lemma node_at_0: "list_ok l \<Longrightarrow> lhead l = node_at (addrs l) 0"
  using list_wfD(3) [of l "addrs l" 0] by (simp add: list_ok_def head_slot)

lemma find_first_loop_spec:
  assumes "list_wf l as" "i \<le> length as"
  shows "find_first_loop (heap l) f (node_at as i) = Some (List.find f (drop i (elems_of l as)))"
  using assms(2)
proof (induction "length as - i" arbitrary: i)
  case 0
  then show ?case by (subst find_first_loop.simps) (simp add: node_at_def elems_of_def)
next
  case (Suc n)
  then have "i < length as" by simp
  moreover from this have "drop i (elems_of l as) = ndata (the (heap l (as ! i))) # drop (Suc i) (elems_of l as)"
    by (simp add: elems_of_def Cons_nth_drop_Suc [symmetric])
  ultimately show ?case
    using Suc list_wf_next [OF assms(1), of i] by (subst find_first_loop.simps) (simp add: node_at_def [of as i])
qed

lemma list_find_first_spec:
  "list_ok l \<Longrightarrow> list_find_first l f key = Some (List.find (\<lambda>v. f v key) (items l))"
  using find_first_loop_spec [of l "addrs l" 0 "\<lambda>v. f v key"]
  by (simp add: list_find_first_def node_at_0 list_ok_def items_def)

text \<open>The calls of \<open>list_for_each\<close>, on the elements\<close>

fun each :: "('a \<Rightarrow> 's \<Rightarrow> int \<times> 's) \<Rightarrow> 'a list \<Rightarrow> int \<Rightarrow> 's \<Rightarrow> int \<times> 's" where
  "each f [] n arg = (n, arg)"
| "each f (x # xs) n arg =
    (let (r, arg) = f x arg in if r < 0 then (- (n + 1), arg) else each f xs (n + 1) arg)"

lemma for_each_loop_spec:
  assumes "list_wf l as" "i \<le> length as"
  shows "for_each_loop (heap l) f (node_at as i) n arg = Some (each f (drop i (elems_of l as)) n arg)"
  using assms(2)
proof (induction "length as - i" arbitrary: i n arg)
  case 0
  then show ?case by (subst for_each_loop.simps) (simp add: node_at_def elems_of_def)
next
  case (Suc k)
  then have "i < length as" by simp
  moreover from this have "drop i (elems_of l as) = ndata (the (heap l (as ! i))) # drop (Suc i) (elems_of l as)"
    by (simp add: elems_of_def Cons_nth_drop_Suc [symmetric])
  ultimately show ?case
    using Suc list_wf_next [OF assms(1), of i]
    by (subst for_each_loop.simps) (simp add: node_at_def [of as i] split: prod.split)
qed

lemma list_for_each_spec: "list_ok l \<Longrightarrow> list_for_each l f arg = Some (each f (items l) 0 arg)"
  using for_each_loop_spec [of l "addrs l" 0] by (simp add: list_for_each_def node_at_0 list_ok_def items_def)

lemma destroy_loop_spec:
  assumes "\<And>j. i \<le> j \<Longrightarrow> j < length as \<Longrightarrow> nnext (the (h (as ! j))) = node_at as (Suc j)"
    and "distinct as" "i \<le> length as"
  shows "destroy_loop h (node_at as i) freed = Some (freed @ map (\<lambda>a. ndata (the (h a))) (drop i as))"
  using assms
proof (induction "length as - i" arbitrary: i h freed)
  case 0
  then show ?case by (subst destroy_loop.simps) (simp add: node_at_def)
next
  case (Suc k)
  then have i: "i < length as" by simp
  let ?h = "h(as ! i := None)"
  have "nnext (the (?h (as ! j))) = node_at as (Suc j)" if "Suc i \<le> j" "j < length as" for j
    using that Suc.prems(1) [of j] Suc.prems(2) i by (simp add: nth_eq_iff_index_eq)
  note IH = Suc.hyps(1) [of "Suc i" ?h, OF _ this Suc.prems(2)]
  have "map (\<lambda>a. ndata (the (?h a))) (drop (Suc i) as) = map (\<lambda>a. ndata (the (h a))) (drop (Suc i) as)"
    using Suc.prems(2) i by (auto simp: in_set_conv_nth nth_eq_iff_index_eq)
  then show ?case
    using IH Suc.hyps(2) Suc.prems(1) [of i] i
    by (subst destroy_loop.simps) (simp add: node_at_def [of as i] Cons_nth_drop_Suc [symmetric])
qed

lemma list_destroy_spec: "list_ok l \<Longrightarrow> list_destroy l = Some (items l)"
  using destroy_loop_spec [of 0 "addrs l" "heap l" "[]"] list_wf_next [of l "addrs l"] distinct_addrs [of l]
  by (simp add: list_destroy_def node_at_0 list_ok_def items_def elems_of_def)

lemma delete_all_loop_spec:
  assumes "list_ok l" "k \<le> length (items l)"
  shows "\<exists>l'. delete_all_loop f l (slot_at (addrs l) k) n dels =
      Some (n + int (length (filter f (drop k (items l)))), dels @ filter f (drop k (items l)), l') \<and>
    list_ok l' \<and> absl l' = seq_delete_from f k (absl l)"
  using assms
proof (induction "length (items l) - k" arbitrary: l k n dels)
  case 0
  have "deref l (slot_at (addrs l) k) = None"
    using list_wfD(3) [of l "addrs l" k] 0 by (simp add: list_ok_def length_addrs node_at_def)
  then show ?case
    using 0 by (subst delete_all_loop.simps, subst seq_delete_from.simps) (simp add: absl_def)
next
  case (Suc j)
  then have k: "k < length (items l)" "k < length (addrs l)" by (simp_all add: length_addrs)
  have wf: "list_wf l (addrs l)" using Suc.prems by (simp add: list_ok_def)
  have d: "deref l (slot_at (addrs l) k) = Some (addrs l ! k)"
    using list_wfD(3) [OF wf, of k] k by (simp add: node_at_def)
  have v: "ndata (the (heap l (addrs l ! k))) = items l ! k" using k by (simp add: items_def elems_of_def)
  have dk: "drop k (items l) = items l ! k # drop (Suc k) (items l)" using k by (simp add: Cons_nth_drop_Suc)
  show ?case
  proof (cases "f (items l ! k)")
    case True
    from destroy_at [OF Suc.prems] obtain l1 where l1: "list_node_destroy l (slot_at (addrs l) k) = (Some (items l ! k), l1)"
      "list_ok l1" "absl l1 = snd (seq_remove k (absl l))" "addrs l1 = remove_at k (addrs l)"
      using k by (auto simp: seq_remove_def absl_def)
    have it: "items l1 = remove_at k (items l)" using l1(3) k by (simp add: absl_def seq_remove_def)
    have "slot_at (addrs l1) k = slot_at (addrs l) k" using k l1(4) by (simp add: slot_at_remove)
    moreover have "j = length (items l1) - k" "k \<le> length (items l1)" using Suc.hyps(2) k it by simp_all
    moreover have "drop k (items l1) = drop (Suc k) (items l)" using it k by (simp add: remove_at_def)
    ultimately show ?thesis
      using Suc.hyps(1) [of l1 k "n + 1" "dels @ [items l ! k]"] True d v dk l1 k
      by (subst delete_all_loop.simps, subst seq_delete_from.simps) (simp add: absl_def [of l] ac_simps)
  next
    case False
    have "Next (addrs l ! k) = slot_at (addrs l) (Suc k)" by (simp add: slot_at_def)
    then show ?thesis
      using Suc.hyps(1) [of l "Suc k" n dels] Suc.hyps(2) Suc.prems False d v dk k
      by (subst delete_all_loop.simps, subst seq_delete_from.simps) (simp add: absl_def [of l])
  qed
qed

lemma list_delete_all_spec:
  assumes "list_ok l"
  obtains l' where "list_delete_all l f key =
      Some (int (length (filter (\<lambda>v. f v key) (items l))), filter (\<lambda>v. f v key) (items l), l')"
    "list_ok l'" "absl l' = seq_delete_from (\<lambda>v. f v key) 0 (absl l)"
  using delete_all_loop_spec [OF assms, of 0 "\<lambda>v. f v key" 0 "[]"] unfolding list_delete_all_def head_slot by auto

lemma length_liters: "length (liters l) = length (curs (absl l))"
  by (simp add: absl_def cursors_def)

lemma seq_find_step:
  assumes "c < length (curs s)"
  shows "seq_find c f s =
    (case seq_next c s of (None, s) \<Rightarrow> (None, s) | (Some v, s) \<Rightarrow> if f v then (Some v, s) else seq_find c f s)"
proof (cases "next_pos (curs s ! c) < length (elems s)")
  case True
  let ?k = "next_pos (curs s ! c)"
  have a: "ahead c s = elems s ! ?k # drop (Suc ?k) (elems s)"
    using True by (simp add: ahead_def Cons_nth_drop_Suc)
  have n: "seq_next c s = (Some (elems s ! ?k), s\<lparr>curs := (curs s)[c := (?k, True)]\<rparr>)"
    using True by (simp add: seq_next_def Let_def)
  show ?thesis
  proof (cases "f (elems s ! ?k)")
    case sel: True
    then show ?thesis unfolding n using a True by (simp add: seq_find_def Let_def)
  next
    case False
    let ?s = "s\<lparr>curs := (curs s)[c := (?k, True)]\<rparr>"
    have "next_pos (curs ?s ! c) = Suc ?k" using assms by (simp add: next_pos_def)
    then show ?thesis
      unfolding n using a False by (simp add: seq_find_def Let_def ahead_def)
  qed
next
  case False
  then have "ahead c s = []" by (simp add: ahead_def)
  then show ?thesis using False by (simp add: seq_find_def seq_next_def Let_def)
qed

lemma list_find_loop_spec:
  assumes "list_ok l" "k < length (liters l)"
  shows "\<exists>l'. list_find_loop l k f = Some (fst (seq_find k f (absl l)), l') \<and> list_ok l' \<and>
    absl l' = snd (seq_find k f (absl l))"
  using assms
proof (induction "length (ahead k (absl l))" arbitrary: l rule: less_induct)
  case less
  from list_next_spec [OF less.prems] obtain l1 where l1: "list_next l k = (fst (seq_next k (absl l)), l1)"
    "list_ok l1" "absl l1 = snd (seq_next k (absl l))" by blast
  obtain r s where rs: "seq_next k (absl l) = (r, s)" by force
  have k: "k < length (curs (absl l))" using less.prems(2) by (simp add: length_liters)
  note step = seq_find_step [OF k, of f, unfolded rs]
  show ?case
  proof (cases r)
    case None
    then show ?thesis using l1 rs step by (subst list_find_loop.simps) simp
  next
    case (Some v)
    show ?thesis
    proof (cases "f v")
      case True
      then show ?thesis using Some l1 rs step by (subst list_find_loop.simps) simp
    next
      case False
      have s: "next_pos (curs (absl l) ! k) < length (elems (absl l))"
          "s = (absl l)\<lparr>curs := (curs (absl l))[k := (next_pos (curs (absl l) ! k), True)]\<rparr>"
        using rs Some by (auto simp: seq_next_def Let_def split: if_splits)
      then have "length (ahead k (absl l1)) < length (ahead k (absl l))"
        using l1(3) rs k by (simp add: ahead_def next_pos_def)
      moreover have "k < length (liters l1)" using l1(3) rs s(2) k by (simp add: length_liters)
      ultimately show ?thesis
        using less.hyps [of l1] l1 rs Some False step by (subst list_find_loop.simps) simp
    qed
  qed
qed

section \<open>Sorting\<close>

text \<open>A chain of nodes, whatever the tail and the iterators are\<close>

definition linked :: "'a llist \<Rightarrow> addr list \<Rightarrow> bool" where
  "linked l as \<longleftrightarrow> distinct as \<and> dom (heap l) = set as \<and> (\<forall>i\<le>length as. deref l (slot_at as i) = node_at as i)"

lemma linkedD:
  assumes "linked l as"
  shows "distinct as" "dom (heap l) = set as" "\<And>i. i \<le> length as \<Longrightarrow> deref l (slot_at as i) = node_at as i"
  using assms by (auto simp: linked_def)

text \<open>The element at position \<open>m\<close> moved to position \<open>q\<close>\<close>

definition move :: "nat \<Rightarrow> nat \<Rightarrow> 'b list \<Rightarrow> 'b list" where
  "move m q xs = insert_at q (xs ! m) (remove_at m xs)"

lemma length_move [simp]: "q \<le> m \<Longrightarrow> m < length xs \<Longrightarrow> length (move m q xs) = length xs"
  by (simp add: move_def)

lemma mset_move: "m < length xs \<Longrightarrow> mset (move m q xs) = mset xs"
  using mset_insert_at [of m "xs ! m" "remove_at m xs"] by (simp add: move_def insert_at_remove_at)

lemma nth_move:
  assumes "q < m" "m < length xs" "i < length xs"
  shows "move m q xs ! i = (if i < q then xs ! i else if i = q then xs ! m else if i \<le> m then xs ! (i - 1) else xs ! i)"
  using assms by (auto simp: move_def nth_insert_at nth_remove_at)

lemma slot_at_move:
  assumes "q < m" "m < length as" "i \<le> length as"
  shows "slot_at (move m q as) i = (if i \<le> q then slot_at as i else if i = Suc q then Next (as ! m)
    else if i \<le> Suc m then slot_at as (i - 1) else slot_at as i)"
proof (cases i)
  case (Suc j)
  then show ?thesis using assms nth_move [OF assms(1,2), of j] by (auto simp: slot_at_def)
qed (simp add: slot_at_def)

lemma node_at_move:
  assumes "q < m" "m < length as" "i \<le> length as"
  shows "node_at (move m q as) i = (if i < q then node_at as i else if i = q then Some (as ! m)
    else if i \<le> m then node_at as (i - 1) else node_at as i)"
  using assms nth_move [OF assms(1,2), of i] by (auto simp: node_at_def)

lemma slot_at_neq_next:
  "distinct as \<Longrightarrow> m < length as \<Longrightarrow> i \<le> length as \<Longrightarrow> slot_at as i = Next (as ! m) \<longleftrightarrow> i = Suc m"
  using slot_at_inject [of as i "Suc m"] by (simp add: slot_at_def [of as "Suc m"])

lemma linked_move:
  assumes "linked l as" "q < m" "m < length as"
    and l': "l' = set_slot (set_slot (set_slot l (Next (as ! m)) (node_at as q)) (slot_at as q) (Some (as ! m)))
      (slot_at as m) (node_at as (Suc m))"
  shows "linked l' (move m q as)" "a \<in> set as \<Longrightarrow> ndata (the (heap l' a)) = ndata (the (heap l a))"
    "liters l' = liters l" "lcount l' = lcount l"
proof -
  note L = linkedD [OF assms(1)]
  have "mset (move m q as) = mset as" by (rule mset_move [OF assms(3)])
  then have m: "set (move m q as) = set as" "distinct (move m q as) = distinct as"
    by (metis set_mset_mset, metis mset_eq_imp_distinct_iff)
  have sd: "slot_at as i = Head \<or> (\<exists>a. slot_at as i = Next a \<and> a \<in> set as)" if "i \<le> length as" for i
    using that by (cases i) (auto simp: slot_at_def)
  have d1: "dom (heap (set_slot l (Next (as ! m)) (node_at as q))) = set as"
    using assms(3) L(2) by (subst dom_set_slot) simp_all
  have d2: "dom (heap (set_slot (set_slot l (Next (as ! m)) (node_at as q)) (slot_at as q) (Some (as ! m)))) = set as"
    using sd [of q] assms(2,3) d1 by (subst dom_set_slot) simp_all
  have d3: "dom (heap l') = set as"
    unfolding l' using sd [of m] assms(2,3) d2 by (subst dom_set_slot) simp_all
  have deref: "deref l' (slot_at (move m q as) i) = node_at (move m q as) i" if "i \<le> length as" for i
  proof -
    have e: "deref l' s = (if s = slot_at as m then node_at as (Suc m) else if s = slot_at as q then Some (as ! m)
      else if s = Next (as ! m) then node_at as q else deref l s)" for s
      by (simp add: l' deref_set_slot del: set_slot.simps deref.simps)
    have neq: "slot_at as i \<noteq> slot_at as j" if "i \<noteq> j" "i \<le> length as" "j \<le> length as" for i j
      using that L(1) by simp
    have nx: "slot_at as i \<noteq> Next (as ! m)" if "i \<noteq> Suc m" "i \<le> length as" for i
      using that slot_at_neq_next [OF L(1) assms(3)] by blast
    note S = slot_at_move [OF assms(2,3) that] and N = node_at_move [OF assms(2,3) that]
    consider "i < q" | "i = q" | "i = Suc q" | "Suc q < i" "i \<le> m" | "i = Suc m" | "Suc m < i" by linarith
    then show ?thesis
    proof cases
      case 1
      then show ?thesis using S N that assms(2,3) L(3) neq [of i m] neq [of i q] nx [of i] by (simp add: e)
    next
      case 2
      then show ?thesis using S N that assms(2,3) neq [of q m] by (simp add: e)
    next
      case 3
      then show ?thesis
        using S N assms(2,3) nx [of m] nx [of q] by (simp add: e del: deref.simps)
    next
      case 4
      then have "i - 1 \<noteq> m" "i - 1 \<noteq> q" "i - 1 \<noteq> Suc m" "i - 1 \<le> length as" using that by linarith+
      then show ?thesis using 4 S N that assms(2,3) L(3) [of "i - 1"] neq [of "i - 1" m] neq [of "i - 1" q] nx [of "i - 1"]
        by (simp add: e)
    next
      case 5
      then show ?thesis using S N assms(2,3) by (simp add: e)
    next
      case 6
      then show ?thesis using S N that assms(2,3) L(3) neq [of i m] neq [of i q] nx [of i] by (simp add: e)
    qed
  qed
  show "linked l' (move m q as)"
    unfolding linked_def using m L(1) d3 deref assms(2,3) by simp
  show "ndata (the (heap l' a)) = ndata (the (heap l a))" if "a \<in> set as"
  proof -
    have "ndata (the (heap (set_slot l (Next (as ! m)) (node_at as q)) a)) = ndata (the (heap l a))"
      using that L(2) by (subst ndata_set_slot) simp_all
    then show ?thesis unfolding l' using that d1 d2 by (subst ndata_set_slot, simp, subst ndata_set_slot) simp_all
  qed
  show "liters l' = liters l" "lcount l' = lcount l" by (simp_all add: l')
qed

lemma sort_pos_spec:
  assumes "linked l as" "i \<le> length as" "\<exists>y\<in>set (drop i (elems_of l as)). f x y < 0"
  shows "sort_pos f l x (slot_at as i) =
    Some (slot_at as (i + length (takeWhile (\<lambda>y. f x y \<ge> 0) (drop i (elems_of l as)))))"
  using assms(2,3)
proof (induction "length as - i" arbitrary: i)
  case 0
  then show ?case by (simp add: elems_of_def)
next
  case (Suc n)
  then have i: "i < length as" by simp
  have d: "drop i (elems_of l as) = ndata (the (heap l (as ! i))) # drop (Suc i) (elems_of l as)"
    using i by (simp add: elems_of_def Cons_nth_drop_Suc [symmetric])
  have e: "deref l (slot_at as i) = Some (as ! i)" using linkedD(3) [OF assms(1), of i] i by (simp add: node_at_def)
  have nx: "Next (as ! i) = slot_at as (Suc i)" by (simp add: slot_at_def)
  show ?case
  proof (cases "f x (ndata (the (heap l (as ! i)))) \<ge> 0")
    case True
    have "\<exists>y\<in>set (drop (Suc i) (elems_of l as)). f x y < 0" using Suc.prems(2) True unfolding d by auto
    then have "sort_pos f l x (slot_at as (Suc i)) =
        Some (slot_at as (Suc i + length (takeWhile (\<lambda>y. f x y \<ge> 0) (drop (Suc i) (elems_of l as)))))"
      using Suc.hyps i by simp
    then show ?thesis using True e d nx by (subst sort_pos.simps) simp
  next
    case False
    then show ?thesis using e d by (subst sort_pos.simps) simp
  qed
qed

lemma sort_loop_spec:
  assumes "linked l as" "0 < m" "m \<le> length as"
  shows "\<exists>l' as'. sort_loop f l (slot_at as (m - 1)) (slot_at as m) = Some (slot_at as' (length as'), l') \<and>
    linked l' as' \<and> length as' = length as \<and> liters l' = liters l \<and> lcount l' = lcount l \<and>
    elems_of l' as' = foldl (sort_insert f) (take m (elems_of l as)) (drop m (elems_of l as))"
  using assms
proof (induction "length as - m" arbitrary: l as m)
  case 0
  have "deref l (slot_at as m) = None" using linkedD(3) [OF 0(2), of m] 0 by (simp add: node_at_def)
  then show ?case
    using 0 by (subst sort_loop.simps) (auto simp: elems_of_def intro!: exI [of _ l] exI [of _ as])
next
  case (Suc n)
  let ?xs = "elems_of l as"
  have m: "m < length as" "length ?xs = length as" using Suc.hyps(2) by (simp_all add: elems_of_def)
  note L = linkedD [OF Suc.prems(1)]
  have dm: "deref l (slot_at as m) = Some (as ! m)" "deref l (slot_at as (m - 1)) = Some (as ! (m - 1))"
    using L(3) [of m] L(3) [of "m - 1"] m Suc.prems(2) by (simp_all add: node_at_def)
  have data: "ndata (the (heap l (as ! m))) = ?xs ! m" "ndata (the (heap l (as ! (m - 1)))) = ?xs ! (m - 1)"
    using m Suc.prems(2) by (simp_all add: elems_of_def)
  have last: "last (take m ?xs) = ?xs ! (m - 1)" using m Suc.prems(2) by (subst last_conv_nth) (auto simp: min_def)
  have drop: "drop m ?xs = ?xs ! m # drop (Suc m) ?xs" using m by (simp add: Cons_nth_drop_Suc)
  have nm: "nnext (the (heap l (as ! m))) = node_at as (Suc m)" using L(3) [of "Suc m"] m by (simp add: slot_at_def)
  show ?case
  proof (cases "f (?xs ! m) (?xs ! (m - 1)) < 0")
    case True
    let ?P = "\<lambda>y. f (?xs ! m) y \<ge> 0"
    define q where "q = length (takeWhile ?P (take m ?xs))"
    have "?xs ! (m - 1) \<in> set (take m ?xs)" using m Suc.prems(2) last last_in_set [of "take m ?xs"] by (cases "take m ?xs = []") auto
    then have ex: "\<exists>y\<in>set (take m ?xs). \<not> ?P y" using True by force
    have q: "q < m"
      using ex length_takeWhile_le [of ?P "take m ?xs"] m unfolding q_def
      by (metis (no_types, lifting) length_take min.absorb4 order_le_imp_less_or_eq takeWhile_eq_all_conv takeWhile_eq_take take_all order_refl)
    have tw: "takeWhile ?P ?xs = takeWhile ?P (take m ?xs)"
      using ex takeWhile_append1 [of _ "take m ?xs" ?P "drop m ?xs"] by (metis append_take_drop_id)
    have "\<exists>y\<in>set ?xs. f (?xs ! m) y < 0" using ex by (meson in_set_takeD not_le)
    then have pos: "sort_pos f l (?xs ! m) Head = Some (slot_at as q)"
      using sort_pos_spec [OF Suc.prems(1), of 0 f "?xs ! m"] tw by (simp add: head_slot q_def)
    define l' where "l' = set_slot (set_slot (set_slot l (Next (as ! m)) (node_at as q)) (slot_at as q) (Some (as ! m)))
      (slot_at as m) (node_at as (Suc m))"
    note M = linked_move [OF Suc.prems(1) q m(1) l'_def]
    let ?as = "move m q as"
    have pp: "slot_at as m = slot_at ?as (Suc m)" using slot_at_move [OF q m(1), of "Suc m"] q m(1) by simp
    have prev: "(if slot_at as (m - 1) = slot_at as q then Next (the (deref l' (slot_at as (m - 1)))) else slot_at as (m - 1)) = slot_at ?as m"
    proof (cases "m - 1 = q")
      case eq: True
      have "slot_at as q = slot_at ?as q" using slot_at_move [OF q m(1), of q] q m(1) by simp
      then have "deref l' (slot_at as q) = Some (as ! m)"
        using linkedD(3) [OF M(1), of q] node_at_move [OF q m(1), of q] q m(1) by simp
      moreover have "slot_at ?as m = Next (as ! m)" using slot_at_move [OF q m(1), of m] eq q m(1) by auto
      ultimately show ?thesis using eq by simp
    next
      case ne: False
      then have "slot_at as (m - 1) \<noteq> slot_at as q" using L(1) q m(1) by simp
      moreover have "slot_at ?as m = slot_at as (m - 1)" using slot_at_move [OF q m(1), of m] ne q m(1) by auto
      ultimately show ?thesis by simp
    qed
    have dq: "deref l (slot_at as q) = node_at as q" using L(3) q m(1) by simp
    have "sort_loop f l (slot_at as (m - 1)) (slot_at as m) = sort_loop f l' (slot_at ?as m) (slot_at ?as (Suc m))"
      by (subst sort_loop.simps)
        (simp only: dm data option.case True if_True pos nm dq Let_def l'_def [symmetric] prev, simp only: pp)
    moreover have el: "elems_of l' ?as = insert_at q (?xs ! m) (take m ?xs) @ drop (Suc m) ?xs"
    proof -
      have "set ?as = set as" using mset_move [OF m(1), of q] by (metis set_mset_mset)
      then have "elems_of l' ?as = map (\<lambda>a. ndata (the (heap l a))) ?as"
        using M(2) by (auto simp: elems_of_def)
      also have "\<dots> = move m q ?xs"
        using m q by (simp add: elems_of_def move_def insert_at_def remove_at_def take_map drop_map)
      also have "\<dots> = insert_at q (?xs ! m) (take m ?xs) @ drop (Suc m) ?xs"
        using m q by (simp add: move_def insert_at_def remove_at_def min_def)
      finally show ?thesis .
    qed
    moreover have "take (Suc m) (elems_of l' ?as) = sort_insert f (take m ?xs) (?xs ! m)"
      "drop (Suc m) (elems_of l' ?as) = drop (Suc m) ?xs"
      using m q True last unfolding el by (simp_all add: sort_insert_def q_def [symmetric])
    ultimately show ?thesis
      using Suc.hyps(1) [of ?as "Suc m" l', OF _ M(1)] Suc.hyps(2) m(1) q M(3,4) drop by simp
  next
    case False
    then have "sort_loop f l (slot_at as (m - 1)) (slot_at as m) = sort_loop f l (slot_at as m) (slot_at as (Suc m))"
      by (subst sort_loop.simps) (simp only: dm data option.case if_False slot_at_def [of as "Suc m"] nat.simps diff_Suc_1)
    moreover have "take (Suc m) ?xs = sort_insert f (take m ?xs) (?xs ! m)"
      using False last m by (simp add: sort_insert_def take_Suc_conv_app_nth)
    ultimately show ?thesis
      using Suc.hyps(1) [of as "Suc m" l, OF _ Suc.prems(1)] Suc.hyps(2) m(1) drop by simp
  qed
qed

lemma list_sort_spec:
  assumes "list_ok l"
  obtains l' where "list_sort l f = Some l'" "list_ok l'" "items l' = insertion_sort f (items l)"
    "cursors l' = (if length (items l) > 1 then map (\<lambda>_. (0, False)) (cursors l) else cursors l)"
proof (cases "lcount l > 1")
  case False
  then have "items l = [] \<or> (\<exists>x. items l = [x])"
    using list_ok_count [OF assms] by (cases "items l") auto
  then have "insertion_sort f (items l) = items l" by (auto simp: insertion_sort_def)
  then show thesis using that [of l] assms False list_ok_count [OF assms] by (simp add: list_sort_def)
next
  case True
  let ?as = "addrs l"
  have wf: "list_wf l ?as" using assms by (simp add: list_ok_def)
  have len: "1 < length ?as" using True list_wfD(5) [OF wf] by simp
  have L: "linked l ?as" using wf by (simp add: linked_def list_wf_def)
  have slots: "slot_at ?as 0 = Head" "slot_at ?as 1 = Next (?as ! 0)" by (simp_all add: slot_at_def)
  from sort_loop_spec [OF L, of 1 f] len obtain l1 as1 where l1:
    "sort_loop f l Head (Next (?as ! 0)) = Some (slot_at as1 (length as1), l1)" "linked l1 as1"
    "length as1 = length ?as" "liters l1 = liters l" "lcount l1 = lcount l"
    "elems_of l1 as1 = foldl (sort_insert f) (take 1 (items l)) (drop 1 (items l))"
    unfolding items_def diff_self_eq_0 slots by fastforce
  define l' where "l' = l1\<lparr>ltail := slot_at as1 (length as1),
    liters := map (\<lambda>i. i\<lparr>ipos := lhead l1, iprev := Head\<rparr>) (liters l1)\<rparr>"
  have d: "deref l' s = deref l1 s" for s by (cases s) (simp_all add: l'_def)
  have start: "iter_at as1 0 False (i\<lparr>ipos := lhead l1, iprev := Head\<rparr>)" for i
    using linkedD(3) [OF l1(2), of 0] by (simp add: iter_at_def head_slot)
  have "list_wf l' as1"
    unfolding list_wf_def d
    using l1 list_wfD(5) [OF wf] start by (auto simp: linked_def) (auto simp: l'_def)
  moreover have "list_sort l f = Some l'"
    using True l1(1) node_at_0 [OF assms] len by (cases "addrs l = []") (simp_all add: list_sort_def l'_def node_at_def)
  moreover have "items l' = insertion_sort f (items l)"
  proof -
    have "items l' = elems_of l1 as1" unfolding items_wf [OF \<open>list_wf l' as1\<close>] by (simp add: elems_of_def l'_def)
    moreover have "items l \<noteq> []" using len length_addrs [of l] by auto
    ultimately show ?thesis using l1(6) by (cases "items l") (auto simp: insertion_sort_def)
  qed
  moreover have "cursors l' = map (\<lambda>_. (0, False)) (cursors l)"
    unfolding cursors_wf [OF \<open>list_wf l' as1\<close>]
    using cursor_iter_at [OF linkedD(1) [OF l1(2)] start] l1(4) by (simp add: l'_def cursors_def [of l])
  ultimately show thesis using that [of l'] len length_addrs [of l] by (auto simp: list_ok_iff)
qed

end
