(* ===== verification/List_Refine.thy ===== *)
theory List_Refine
  imports List_Spec
begin

text \<open>
  Sequences of calls on a list: the simulation of the heap by the sequence with cursors, for
  every public operation at once; the sort as a stable sort; the loops over an iterator and over
  \<open>list_dequeue\<close>.
\<close>

section \<open>Every call refines the abstract operation\<close>

datatype 'a list_call =
  Append 'a | Prepend 'a | Pop | Peek | Count | Find_First "'a \<Rightarrow> bool" | Delete_All "'a \<Rightarrow> bool"
| Sort "'a \<Rightarrow> 'a \<Rightarrow> int" | Iter_Create | Iter_Reset nat | Iter_Destroy nat | Iter_Next nat
| Iter_Insert nat 'a | Iter_Find nat "'a \<Rightarrow> bool" | Iter_Remove nat

datatype 'a answer = Datum "'a option" | Number int | Nothing

text \<open>\<open>alloc\<close> is the allocator of nodes and iterators.\<close>

fun do_call :: "('a llist \<Rightarrow> addr option) \<Rightarrow> 'a list_call \<Rightarrow> 'a llist \<Rightarrow> ('a answer \<times> 'a llist) option" where
  "do_call alloc (Append x) l = Some (apfst Datum (list_append l x (alloc l)))"
| "do_call alloc (Prepend x) l = Some (apfst Datum (list_prepend l x (alloc l)))"
| "do_call alloc Pop l = Some (apfst Datum (list_pop l))"
| "do_call alloc Peek l = Some (Datum (list_peek l), l)"
| "do_call alloc Count l = Some (Number (list_count l), l)"
| "do_call alloc (Find_First f) l = map_option (\<lambda>v. (Datum v, l)) (list_find_first l (\<lambda>v _. f v) ())"
| "do_call alloc (Delete_All f) l =
     map_option (\<lambda>(n, _, l). (Number n, l)) (list_delete_all l (\<lambda>v _. f v) ())"
| "do_call alloc (Sort f) l = map_option (Pair Nothing) (list_sort l f)"
| "do_call alloc Iter_Create l = Some (Nothing, snd (list_iterator_create l (alloc l)))"
| "do_call alloc (Iter_Reset k) l = Some (Nothing, list_iterator_reset l k)"
| "do_call alloc (Iter_Destroy k) l = Some (Nothing, list_iterator_destroy l k)"
| "do_call alloc (Iter_Next k) l = Some (apfst Datum (list_next l k))"
| "do_call alloc (Iter_Insert k x) l = Some (apfst Datum (list_insert l k x (alloc l)))"
| "do_call alloc (Iter_Find k f) l = map_option (apfst Datum) (list_find l k (\<lambda>v _. f v) ())"
| "do_call alloc (Iter_Remove k) l = Some (apfst Datum (list_remove l k))"

fun seq_call :: "'a list_call \<Rightarrow> 'a seq \<Rightarrow> 'a answer \<times> 'a seq" where
  "seq_call (Append x) s = (Datum (Some x), seq_insert (length (elems s)) x s)"
| "seq_call (Prepend x) s = (Datum (Some x), seq_insert 0 x s)"
| "seq_call Pop s = apfst Datum (seq_remove 0 s)"
| "seq_call Peek s = (Datum (case elems s of [] \<Rightarrow> None | x # _ \<Rightarrow> Some x), s)"
| "seq_call Count s = (Number (int (length (elems s))), s)"
| "seq_call (Find_First f) s = (Datum (List.find f (elems s)), s)"
| "seq_call (Delete_All f) s = (Number (int (length (filter f (elems s)))), seq_delete_from f 0 s)"
| "seq_call (Sort f) s =
     (Nothing, s\<lparr>elems := insertion_sort f (elems s),
        curs := (if length (elems s) > 1 then map (\<lambda>_. (0, False)) (curs s) else curs s)\<rparr>)"
| "seq_call Iter_Create s = (Nothing, s\<lparr>curs := (0, False) # curs s\<rparr>)"
| "seq_call (Iter_Reset k) s = (Nothing, s\<lparr>curs := (curs s)[k := (0, False)]\<rparr>)"
| "seq_call (Iter_Destroy k) s = (Nothing, s\<lparr>curs := take k (curs s) @ drop (Suc k) (curs s)\<rparr>)"
| "seq_call (Iter_Next k) s = apfst Datum (seq_next k s)"
| "seq_call (Iter_Insert k x) s = (Datum (Some x), seq_insert_cur k x s)"
| "seq_call (Iter_Find k f) s = apfst Datum (seq_find k f s)"
| "seq_call (Iter_Remove k) s = apfst Datum (seq_remove_cur k s)"

text \<open>The iterator a call names exists.\<close>

fun iter_exists :: "'a list_call \<Rightarrow> 'a seq \<Rightarrow> bool" where
  "iter_exists (Iter_Reset k) s = (k < length (curs s))"
| "iter_exists (Iter_Destroy k) s = (k < length (curs s))"
| "iter_exists (Iter_Next k) s = (k < length (curs s))"
| "iter_exists (Iter_Insert k x) s = (k < length (curs s))"
| "iter_exists (Iter_Find k f) s = (k < length (curs s))"
| "iter_exists (Iter_Remove k) s = (k < length (curs s))"
| "iter_exists _ s = True"

definition alloc_ok :: "('a llist \<Rightarrow> addr option) \<Rightarrow> bool" where
  "alloc_ok alloc \<longleftrightarrow> (\<forall>l. list_ok l \<longrightarrow> (\<exists>p. alloc l = Some p \<and> p \<notin> dom (heap l)))"

text \<open>An allocator that can serve: an address above those in use\<close>

definition bump_alloc :: "'a llist \<Rightarrow> addr option" where
  "bump_alloc l = Some (Suc (sum_list (addrs l)))"

lemma bump_alloc: "alloc_ok bump_alloc"
  unfolding alloc_ok_def
proof (intro allI impI)
  fix l :: "'a llist"
  assume ok: "list_ok l"
  have "Suc (sum_list (addrs l)) \<notin> set (addrs l)"
  proof
    assume "Suc (sum_list (addrs l)) \<in> set (addrs l)"
    then have "Suc (sum_list (addrs l)) \<le> sum_list (addrs l)" by (rule member_le_sum_list) simp
    then show False by simp
  qed
  then have "Suc (sum_list (addrs l)) \<notin> dom (heap l)" unfolding dom_addrs [OF ok] .
  then show "\<exists>p. bump_alloc l = Some p \<and> p \<notin> dom (heap l)" unfolding bump_alloc_def by blast
qed

lemma list_call_refines:
  assumes "list_ok l" "alloc_ok alloc" "iter_exists c (absl l)"
  shows "\<exists>l'. do_call alloc c l = Some (fst (seq_call c (absl l)), l') \<and> list_ok l' \<and>
    absl l' = snd (seq_call c (absl l))"
proof -
  obtain p where p: "alloc l = Some p" "p \<notin> dom (heap l)" using assms(1,2) unfolding alloc_ok_def by blast
  note k = length_liters [of l, symmetric]
  have e: "elems (absl l) = items l" by (simp add: absl_def)
  show ?thesis
  proof (cases c)
    case (Append x)
    obtain l' where "list_append l x (Some p) = (Some x, l')" "list_ok l'"
      "absl l' = seq_insert (length (items l)) x (absl l)" using list_append_spec [OF assms(1) p(2)] .
    then show ?thesis unfolding Append using p(1) e by simp
  next
    case (Prepend x)
    obtain l' where "list_prepend l x (Some p) = (Some x, l')" "list_ok l'" "absl l' = seq_insert 0 x (absl l)"
      using list_prepend_spec [OF assms(1) p(2)] .
    then show ?thesis unfolding Prepend using p(1) by simp
  next
    case Pop
    obtain l' where "list_pop l = (fst (seq_remove 0 (absl l)), l')" "list_ok l'" "absl l' = snd (seq_remove 0 (absl l))"
      using list_pop_spec [OF assms(1)] .
    then show ?thesis unfolding Pop by simp
  next
    case Peek
    then show ?thesis using list_peek_spec [OF assms(1)] assms(1) e by simp
  next
    case Count
    then show ?thesis using list_ok_count [OF assms(1)] assms(1) e by (simp add: list_count_def)
  next
    case (Find_First f)
    then show ?thesis using list_find_first_spec [OF assms(1)] assms(1) e by simp
  next
    case (Delete_All f)
    obtain l' where "list_delete_all l (\<lambda>v _. f v) () = Some (int (length (filter f (items l))), filter f (items l), l')"
      "list_ok l'" "absl l' = seq_delete_from f 0 (absl l)"
      using list_delete_all_spec [OF assms(1), of "\<lambda>v _. f v" "()"] .
    then show ?thesis unfolding Delete_All using e by simp
  next
    case (Sort f)
    obtain l' where "list_sort l f = Some l'" "list_ok l'" "items l' = insertion_sort f (items l)"
      "cursors l' = (if length (items l) > 1 then map (\<lambda>_. (0, False)) (cursors l) else cursors l)"
      using list_sort_spec [OF assms(1)] .
    then show ?thesis unfolding Sort by (simp add: absl_def)
  next
    case Iter_Create
    then show ?thesis using list_iterator_create_spec [OF assms(1), of p] p(1) by simp
  next
    case (Iter_Reset k)
    then show ?thesis using list_iterator_reset_spec [OF assms(1), of k] assms(3) k by simp
  next
    case (Iter_Destroy k)
    then show ?thesis using list_iterator_destroy_spec [OF assms(1), of k] by simp
  next
    case (Iter_Next k)
    have "k < length (liters l)" using assms(3) k Iter_Next by simp
    then obtain l' where "list_next l k = (fst (seq_next k (absl l)), l')" "list_ok l'" "absl l' = snd (seq_next k (absl l))"
      using list_next_spec [OF assms(1)] by blast
    then show ?thesis unfolding Iter_Next by simp
  next
    case (Iter_Insert k x)
    have "k < length (liters l)" using assms(3) k Iter_Insert by simp
    then obtain l' where "list_insert l k x (Some p) = (Some x, l')" "list_ok l'" "absl l' = seq_insert_cur k x (absl l)"
      using list_insert_spec [OF assms(1) _ p(2)] by blast
    then show ?thesis unfolding Iter_Insert using p(1) by simp
  next
    case (Iter_Find k f)
    have "k < length (liters l)" using assms(3) k Iter_Find by simp
    from list_find_loop_spec [OF assms(1) this, of f] show ?thesis unfolding Iter_Find by (auto simp: list_find_def)
  next
    case (Iter_Remove k)
    have "k < length (liters l)" using assms(3) k Iter_Remove by simp
    then obtain l' where "list_remove l k = (fst (seq_remove_cur k (absl l)), l')" "list_ok l'"
      "absl l' = snd (seq_remove_cur k (absl l))"
      using list_remove_spec [OF assms(1)] by blast
    then show ?thesis unfolding Iter_Remove by simp
  qed
qed

text \<open>Runs\<close>

fun list_run :: "('a llist \<Rightarrow> addr option) \<Rightarrow> 'a list_call list \<Rightarrow> 'a llist \<Rightarrow> ('a answer list \<times> 'a llist) option" where
  "list_run alloc [] l = Some ([], l)"
| "list_run alloc (c # cs) l =
     (case do_call alloc c l of
        None \<Rightarrow> None
      | Some (a, l) \<Rightarrow> map_option (apfst ((#) a)) (list_run alloc cs l))"

fun seq_run :: "'a list_call list \<Rightarrow> 'a seq \<Rightarrow> ('a answer list \<times> 'a seq) option" where
  "seq_run [] s = Some ([], s)"
| "seq_run (c # cs) s =
     (if iter_exists c s then map_option (apfst ((#) (fst (seq_call c s)))) (seq_run cs (snd (seq_call c s)))
      else None)"

lemma list_run_refines:
  assumes "list_ok l" "alloc_ok alloc" "seq_run cs (absl l) = Some (as, s)"
  shows "\<exists>l'. list_run alloc cs l = Some (as, l') \<and> list_ok l' \<and> absl l' = s"
  using assms(1,3)
proof (induction cs arbitrary: l as)
  case (Cons c cs)
  then have i: "iter_exists c (absl l)" by (auto split: if_splits)
  obtain l1 where l1: "do_call alloc c l = Some (fst (seq_call c (absl l)), l1)" "list_ok l1"
    "absl l1 = snd (seq_call c (absl l))"
    using list_call_refines [OF Cons.prems(1) assms(2) i] by blast
  obtain as1 where as1: "seq_run cs (absl l1) = Some (as1, s)" "as = fst (seq_call c (absl l)) # as1"
    using Cons.prems(2) i l1(3) by (auto simp: apfst_def)
  from Cons.IH [OF l1(2) as1(1)] show ?case using l1(1) as1(2) by auto
qed simp

section \<open>The sort is stable\<close>

lemma takeWhile_dropWhile_insert:
  "insert_at (length (takeWhile P ys)) x ys = takeWhile P ys @ x # dropWhile P ys"
  by (simp add: insert_at_def takeWhile_eq_take [symmetric] dropWhile_eq_drop [symmetric])

lemma sort_insert_stable:
  fixes key :: "'a \<Rightarrow> 'b::linorder"
  assumes f: "\<And>x y. f x y < 0 \<longleftrightarrow> key x < key y" and "sorted (map key ys)" "ys \<noteq> []"
  shows "sort_insert f ys x = takeWhile (\<lambda>y. key y \<le> key x) ys @ x # dropWhile (\<lambda>y. key y \<le> key x) ys"
proof (cases "key x < key (last ys)")
  case True
  have "(\<lambda>y. f x y \<ge> 0) = (\<lambda>y. key y \<le> key x)" using f by (auto simp: fun_eq_iff not_less [symmetric])
  then show ?thesis using True f by (simp add: sort_insert_def takeWhile_dropWhile_insert)
next
  case False
  have "key y \<le> key x" if y: "y \<in> set ys" for y
  proof -
    obtain i where i: "i < length ys" "y = ys ! i" using y by (auto simp: in_set_conv_nth)
    have "length ys - 1 < length ys" "i \<le> length ys - 1" using i by auto
    then have "key y \<le> key (last ys)"
      using i(2) sorted_nth_mono [OF assms(2), of i "length ys - 1"] assms(3) i(1) by (simp add: last_conv_nth)
    then show ?thesis using False by simp
  qed
  then have tw: "takeWhile (\<lambda>y. key y \<le> key x) ys = ys" "dropWhile (\<lambda>y. key y \<le> key x) ys = []"
    by (auto simp: takeWhile_eq_all_conv)
  show ?thesis unfolding tw using False f by (simp add: sort_insert_def)
qed

lemma insert_sorted:
  fixes key :: "'a \<Rightarrow> 'b::linorder"
  assumes "sorted (map key ys)"
  shows "sorted (map key (takeWhile (\<lambda>y. key y \<le> key x) ys @ x # dropWhile (\<lambda>y. key y \<le> key x) ys)) \<and>
    filter (\<lambda>y. c = key y) (takeWhile (\<lambda>y. key y \<le> key x) ys @ x # dropWhile (\<lambda>y. key y \<le> key x) ys) =
      filter (\<lambda>y. c = key y) (ys @ [x])"
  using assms
proof (induction ys)
  case (Cons y ys)
  show ?case
  proof (cases "key y \<le> key x")
    case True
    then show ?thesis using Cons by (auto dest: set_takeWhileD set_dropWhileD)
  next
    case False
    then have "filter (\<lambda>z. key x = key z) ys = []" using Cons.prems by (auto simp: filter_empty_conv)
    then show ?thesis using False Cons.prems by auto
  qed
qed simp

lemma foldl_sort_stable:
  fixes key :: "'a \<Rightarrow> 'b::linorder"
  assumes f: "\<And>x y. f x y < 0 \<longleftrightarrow> key x < key y" and "sorted (map key ys)" "ys \<noteq> []"
  shows "sorted (map key (foldl (sort_insert f) ys xs)) \<and>
    filter (\<lambda>y. c = key y) (foldl (sort_insert f) ys xs) = filter (\<lambda>y. c = key y) (ys @ xs)"
  using assms(2,3)
proof (induction xs arbitrary: ys)
  case (Cons x xs)
  let ?ys = "takeWhile (\<lambda>y. key y \<le> key x) ys @ x # dropWhile (\<lambda>y. key y \<le> key x) ys"
  note i = conjunct1 [OF insert_sorted [OF Cons.prems(1), where x = x]] conjunct2 [OF insert_sorted [OF Cons.prems(1), where x = x]]
  have e: "foldl (sort_insert f) ys (x # xs) = foldl (sort_insert f) ?ys xs"
    using sort_insert_stable [OF f Cons.prems, where x = x] by simp
  have "filter (\<lambda>y. c = key y) (?ys @ xs) = filter (\<lambda>y. c = key y) (ys @ [x]) @ filter (\<lambda>y. c = key y) xs"
    unfolding filter_append [of _ ?ys] i(2) ..
  also have "\<dots> = filter (\<lambda>y. c = key y) (ys @ x # xs)" by simp
  finally show ?case using Cons.IH [OF i(1)] unfolding e by simp
qed simp

lemma insertion_sort_key:
  fixes key :: "'a \<Rightarrow> 'b::linorder"
  assumes "\<And>x y. f x y < 0 \<longleftrightarrow> key x < key y"
  shows "insertion_sort f xs = sort_key key xs"
proof (cases xs)
  case (Cons x ys)
  have "insertion_sort f xs = foldl (sort_insert f) [x] ys" by (simp add: insertion_sort_def Cons)
  then show ?thesis
    using foldl_sort_stable [where f = f and key = key and ys = "[x]" and xs = ys, OF assms]
    by (intro properties_for_sort_key [symmetric]) (simp_all add: Cons mset_foldl_sort)
qed (simp add: insertion_sort_def)

section \<open>Loops over the elements\<close>

definition iter_step :: "nat \<Rightarrow> 'a llist \<Rightarrow> ('a option \<times> 'a llist) option" where
  "iter_step k l = Some (list_next l k)"

definition dequeue_step :: "'a llist \<Rightarrow> ('a option \<times> 'a llist) option" where
  "dequeue_step l = Some (list_dequeue l)"

interpretation ll_next: iteration "iter_step k" "\<lambda>l. list_ok l \<and> k < length (liters l)" "\<lambda>l. ahead k (absl l)" for k
proof
  fix l :: "'a llist"
  assume i: "list_ok l \<and> k < length (liters l)"
  obtain l' where l': "list_next l k = (fst (seq_next k (absl l)), l')" "list_ok l'" "absl l' = snd (seq_next k (absl l))"
    using list_next_spec [OF conjunct1 [OF i] conjunct2 [OF i]] .
  let ?p = "next_pos (curs (absl l) ! k)"
  have k: "k < length (curs (absl l))" using i by (simp add: length_liters)
  have "length (curs (absl l')) = length (curs (absl l))" using l'(3) by (simp add: seq_next_def Let_def)
  then have k': "k < length (liters l')" using k by (simp add: length_liters)
  show "\<exists>s'. iter_step k l = Some (Some (hd (ahead k (absl l))), s') \<and> (list_ok s' \<and> k < length (liters s')) \<and>
      ahead k (absl s') = tl (ahead k (absl l))" if "ahead k (absl l) \<noteq> []"
  proof -
    have p: "?p < length (elems (absl l))" using that by (simp add: ahead_def)
    then have "ahead k (absl l') = drop (Suc ?p) (elems (absl l))"
      unfolding l'(3) using k p by (simp add: ahead_def seq_next_def next_pos_def Let_def)
    then show ?thesis
      using l' k' p by (auto simp: iter_step_def seq_next_def Let_def ahead_def hd_drop_conv_nth tl_drop drop_Suc)
  qed
  show "\<exists>s'. iter_step k l = Some (None, s') \<and> (list_ok s' \<and> k < length (liters s')) \<and> ahead k (absl s') = []"
    if "ahead k (absl l) = []"
  proof -
    have p: "\<not> ?p < length (elems (absl l))" using that by (simp add: ahead_def)
    then have "ahead k (absl l') = []"
      unfolding l'(3) using k p by (simp add: ahead_def seq_next_def next_pos_def Let_def)
    then show ?thesis using l' k' p by (auto simp: iter_step_def seq_next_def Let_def)
  qed
qed

interpretation ll_dequeue: iteration dequeue_step list_ok items
proof
  fix l :: "'a llist"
  assume i: "list_ok l"
  obtain l' where l': "list_dequeue l = (fst (seq_remove 0 (absl l)), l')" "list_ok l'" "absl l' = snd (seq_remove 0 (absl l))"
    using list_pop_spec [OF i] unfolding list_pop_def list_dequeue_def .
  have e: "elems (absl l) = items l" "elems (absl l') = items l'" for l l' :: "'a llist" by (simp_all add: absl_def)
  show "\<exists>s'. dequeue_step l = Some (Some (hd (items l)), s') \<and> list_ok s' \<and> items s' = tl (items l)" if "items l \<noteq> []"
    using that l' arg_cong [OF l'(3), of elems] unfolding e
    by (auto simp: dequeue_step_def seq_remove_def e remove_at_def hd_conv_nth drop_Suc)
  show "\<exists>s'. dequeue_step l = Some (None, s') \<and> list_ok s' \<and> items s' = []" if "items l = []"
    using that l' arg_cong [OF l'(3), of elems] unfolding e
    by (auto simp: dequeue_step_def seq_remove_def e)
qed

end
