(* ===== verification/List_Split.thy ===== *)
theory List_Split
  imports List_Refine Hostlist_Syntax
begin

text \<open>
  Splitting strings into lists and joining lists into strings (\<open>common/split.c\<close>), on the
  lists of \<open>common/list.c\<close> and with the buffer of the caller at its size.
\<close>

section \<open>Splitting\<close>

definition split_next_tok :: "string \<Rightarrow> string \<Rightarrow> string option \<times> string" where
  "split_next_tok sep str =
    (let str = dropWhile (strchr sep) str
     in if str = [] then (None, str)
        else let (tok, str) = tok_scan sep str 0
             in (Some tok, dropWhile (strchr sep) str))"

lemma split_next_tok_shorter: "(Some t, r) = split_next_tok sep s \<Longrightarrow> length r < length s"
  using next_tok_shorter [of sep s t r] unfolding next_tok_def split_next_tok_def by simp

text \<open>The loop of \<open>list_split\<close> and \<open>list_split_append\<close>; \<open>Strdup\<close> does not return without memory.\<close>

function split_loop :: "(string llist \<Rightarrow> addr option) \<Rightarrow> string \<Rightarrow> string llist \<Rightarrow> string \<Rightarrow> string llist" where
  "split_loop alloc sep l str =
    (case split_next_tok sep str of
       (None, _) \<Rightarrow> l
     | (Some tok, str) \<Rightarrow>
         split_loop alloc sep (if length tok > 0 then snd (list_append l tok (alloc l)) else l) str)"
  by pat_completeness auto
termination
  by (relation "measure (\<lambda>(_, _, _, str). length str)") (auto simp: split_next_tok_shorter)

declare split_loop.simps [simp del]

definition list_split :: "(string llist \<Rightarrow> addr option) \<Rightarrow> string option \<Rightarrow> string \<Rightarrow> string llist" where
  "list_split alloc sep str =
    split_loop alloc (case sep of None \<Rightarrow> [CHR '' '', CHR 0x09] | Some sep \<Rightarrow> sep) list_create str"

definition list_split_append ::
  "(string llist \<Rightarrow> addr option) \<Rightarrow> string llist option \<Rightarrow> string option \<Rightarrow> string \<Rightarrow> string llist" where
  "list_split_append alloc l sep str =
    (case l of
       None \<Rightarrow> list_split alloc sep str
     | Some l \<Rightarrow> split_loop alloc (case sep of None \<Rightarrow> [CHR '' '', CHR 0x09] | Some sep \<Rightarrow> sep) l str)"

section \<open>Joining\<close>

text \<open>
  The loop of \<open>list_join\<close>: \<open>buf\<close> is the string in the buffer of \<open>len\<close> bytes. The
  lengths are assumed to fit an \<open>int\<close>, so \<open>snprintf\<close> does not fail.
\<close>

partial_function (option) join_loop ::
  "nat \<Rightarrow> string \<Rightarrow> string llist \<Rightarrow> string \<Rightarrow> nat \<Rightarrow> bool \<Rightarrow> (string \<times> nat \<times> bool \<times> string llist) option" where
  "join_loop len sep l buf n truncated =
    (case list_next l 0 of
       (None, l) \<Rightarrow> Some (buf, n, truncated, l)
     | (Some str, l) \<Rightarrow>
         if \<not> truncated then
           if length (str @ sep) \<ge> len - n
           then join_loop len sep l (buf @ take (len - n - 1) (str @ sep)) n True
           else join_loop len sep l (buf @ str @ sep) (n + length (str @ sep)) False
         else join_loop len sep l buf (n + (length str + length sep)) True)"

text \<open>
  The length returned and the string in the buffer; \<open>None\<close> is the write to \<open>result[len - 1]\<close>
  of an empty buffer, or a call without memory for the iterator.
\<close>

definition list_join :: "addr option \<Rightarrow> nat \<Rightarrow> string \<Rightarrow> string llist \<Rightarrow> (nat \<times> string \<times> string llist) option" where
  "list_join new len sep l =
    (if list_count l = 0 then Some (0, [], l)
     else case list_iterator_create l new of
       (False, l) \<Rightarrow> None
     | (True, l) \<Rightarrow>
         (case join_loop len sep l [] 0 False of
            None \<Rightarrow> None
          | Some (buf, n, truncated, l) \<Rightarrow>
              let l = list_iterator_destroy l 0
              in if truncated then if len = 0 then None else Some (n, take (len - 1) buf, l)
                 else Some (n, take (length buf - length sep) buf, l)))"

section \<open>What they compute\<close>

text \<open>The tokens of a string\<close>

function tokens :: "string \<Rightarrow> string \<Rightarrow> string list" where
  "tokens sep str =
    (case split_next_tok sep str of
       (None, _) \<Rightarrow> []
     | (Some tok, str) \<Rightarrow> tok # tokens sep str)"
  by pat_completeness auto
termination
  by (relation "measure (\<lambda>(_, str). length str)") (auto simp: split_next_tok_shorter)

declare tokens.simps [simp del]

lemma split_next_tok_ne:
  assumes "split_next_tok sep s = (Some t, r)"
  shows "t \<noteq> []"
proof -
  let ?s = "dropWhile (strchr sep) s"
  have ne: "?s \<noteq> []" using assms by (auto simp: split_next_tok_def Let_def split: if_splits)
  then obtain c cs where c: "?s = c # cs" "\<not> strchr sep c" by (metis hd_dropWhile list.collapse)
  then show ?thesis using assms by (auto simp: split_next_tok_def Let_def split: prod.splits if_splits)
qed

lemma split_loop_spec:
  assumes "list_ok l" "alloc_ok alloc"
  shows "list_ok (split_loop alloc sep l str) \<and> items (split_loop alloc sep l str) = items l @ tokens sep str"
  using assms(1)
proof (induction sep str arbitrary: l rule: tokens.induct)
  case (1 sep str)
  show ?case
  proof (cases "fst (split_next_tok sep str)")
    case None
    then show ?thesis
      using 1(2) by (subst (1 2) split_loop.simps, subst tokens.simps) (auto split: prod.splits option.splits)
  next
    case (Some t)
    then obtain r where r: "split_next_tok sep str = (Some t, r)" by (cases "split_next_tok sep str") auto
    obtain p where p: "alloc l = Some p" "p \<notin> dom (heap l)" using 1(2) assms(2) unfolding alloc_ok_def by blast
    obtain l1 where l1: "list_append l t (Some p) = (Some t, l1)" "list_ok l1" "absl l1 = seq_insert (length (items l)) t (absl l)"
      using list_append_spec [OF 1(2) p(2)] .
    have "items l1 = items l @ [t]" using l1(3) by (simp add: absl_def seq_insert_def insert_at_def)
    moreover have "split_loop alloc sep l str = split_loop alloc sep l1 r"
      using r split_next_tok_ne [OF r] p(1) l1(1) by (subst split_loop.simps) simp
    moreover have "tokens sep str = t # tokens sep r" using r by (subst tokens.simps) simp
    ultimately show ?thesis using 1(1) [OF r [symmetric] refl l1(2)] by simp
  qed
qed

lemma list_split_spec:
  assumes "alloc_ok alloc"
  shows "list_ok (list_split alloc (Some sep) str)" "items (list_split alloc (Some sep) str) = tokens sep str"
  using split_loop_spec [OF list_create_ok(1) assms, of sep str] by (simp_all add: list_split_def)

text \<open>The loop over a list that has room, and over one that has not\<close>

fun join_ref :: "nat \<Rightarrow> string \<Rightarrow> string list \<Rightarrow> string \<Rightarrow> nat \<Rightarrow> bool \<Rightarrow> string \<times> nat \<times> bool" where
  "join_ref len sep [] buf n tr = (buf, n, tr)"
| "join_ref len sep (s # ss) buf n tr =
    (if \<not> tr then
       if length (s @ sep) \<ge> len - n then join_ref len sep ss (buf @ take (len - n - 1) (s @ sep)) n True
       else join_ref len sep ss (buf @ s @ sep) (n + length (s @ sep)) False
     else join_ref len sep ss buf (n + (length s + length sep)) True)"

lemma join_loop_spec:
  assumes "list_ok l" "0 < length (liters l)"
  shows "\<exists>l'. join_loop len sep l buf n tr =
      (case join_ref len sep (ahead 0 (absl l)) buf n tr of (t, n, tr) \<Rightarrow> Some (t, n, tr, l')) \<and>
    list_ok l' \<and> items l' = items l \<and> length (liters l') = length (liters l) \<and> tl (cursors l') = tl (cursors l)"
  using assms
proof (induction "ahead 0 (absl l)" arbitrary: l buf n tr)
  case Nil
  obtain l1 where l1: "list_next l 0 = (fst (seq_next 0 (absl l)), l1)" "list_ok l1" "absl l1 = snd (seq_next 0 (absl l))"
    using list_next_spec [OF Nil(2,3)] .
  have p: "\<not> next_pos (curs (absl l) ! 0) < length (elems (absl l))" using Nil(1) by (simp add: ahead_def)
  have "items l1 = items l" "length (cursors l1) = length (cursors l)" "tl (cursors l1) = tl (cursors l)"
    using l1(3) p by (simp_all add: seq_next_def Let_def absl_def) (cases "cursors l"; simp)
  then show ?case
    using l1 p Nil(1) [symmetric] by (subst join_loop.simps) (simp add: seq_next_def Let_def cursors_def)
next
  case (Cons s ss)
  obtain l1 where l1: "list_next l 0 = (fst (seq_next 0 (absl l)), l1)" "list_ok l1" "absl l1 = snd (seq_next 0 (absl l))"
    using list_next_spec [OF Cons(3,4)] .
  let ?k = "next_pos (curs (absl l) ! 0)"
  have p: "?k < length (elems (absl l))" using Cons(2) unfolding ahead_def by (metis drop_all linorder_not_less list.distinct(1))
  have n: "list_next l 0 = (Some s, l1)"
    using l1(1) p Cons(2) [symmetric] hd_drop_conv_nth [OF p] by (simp add: seq_next_def Let_def ahead_def)
  have sn: "absl l1 = (absl l)\<lparr>curs := (curs (absl l))[0 := (?k, True)]\<rparr>"
    using l1(3) p by (simp add: seq_next_def Let_def)
  have c: "0 < length (curs (absl l))" using Cons(4) by (simp add: length_liters)
  then have a: "ss = ahead 0 (absl l1)"
    using Cons(2) [symmetric] sn by (simp add: ahead_def next_pos_def [of "(_, True)"] drop_Suc) (metis list.sel(3) tl_drop)
  have cu: "cursors l1 = (cursors l)[0 := (?k, True)]" using arg_cong [OF sn, of curs] by (simp add: absl_def)
  have it: "items l1 = items l" using arg_cong [OF sn, of elems] by (simp add: absl_def)
  have tl: "tl (cursors l1) = tl (cursors l)" unfolding cu by (cases "cursors l") simp_all
  have len: "length (liters l1) = length (liters l)"
    using arg_cong [OF cu, of length] by (simp add: cursors_def)
  note same = it len tl
  have lt: "0 < length (liters l1)" using same(2) Cons(4) by simp
  note IH = Cons(1) [OF a l1(2) lt, unfolded same a [symmetric]]
  show ?case
    unfolding Cons(2) [symmetric] by (subst join_loop.simps) (simp only: n prod.case option.case join_ref.simps, auto simp: IH)
qed

lemma join_ref_fits:
  assumes "n + length (concat (map (\<lambda>s. s @ sep) ss)) < len"
  shows "join_ref len sep ss buf n False =
    (buf @ concat (map (\<lambda>s. s @ sep) ss), n + length (concat (map (\<lambda>s. s @ sep) ss)), False)"
  using assms by (induction ss arbitrary: buf n) auto

lemma join_ref_truncated: "join_ref len sep ss buf n True = (buf, n + length (concat (map (\<lambda>s. s @ sep) ss)), True)"
  by (induction ss arbitrary: n) auto

lemma join_ref_overflow:
  assumes "len \<le> n + length (concat (map (\<lambda>s. s @ sep) ss))" "length buf = n" "n < len"
  shows "\<exists>m. join_ref len sep ss buf n False = (take (len - 1) (buf @ concat (map (\<lambda>s. s @ sep) ss)), m, True)"
  using assms
proof (induction ss arbitrary: buf n)
  case (Cons s ss)
  show ?case
  proof (cases "length (s @ sep) \<ge> len - n")
    case True
    then have "take (len - Suc 0 - n) (s @ sep @ concat (map (\<lambda>s. s @ sep) ss)) = take (len - n - 1) (s @ sep)"
      using Cons.prems(3) by (simp add: diff_commute)
    then show ?thesis using True Cons.prems by (simp add: join_ref_truncated)
  next
    case False
    then show ?thesis
      using Cons.IH [of "n + length (s @ sep)" "buf @ s @ sep"] Cons.prems by simp
  qed
qed simp

fun joined :: "string \<Rightarrow> string list \<Rightarrow> string" where
  "joined sep [] = []"
| "joined sep [s] = s"
| "joined sep (s # ss) = s @ sep @ joined sep ss"

lemma joined_concat: "ss \<noteq> [] \<Longrightarrow> concat (map (\<lambda>s. s @ sep) ss) = joined sep ss @ sep"
  by (induction sep ss rule: joined.induct) auto

lemma list_join_spec:
  assumes "list_ok l" "0 < len"
  shows "\<exists>n l'. list_join (Some p) len sep l =
      Some (n, if items l = [] \<or> length (joined sep (items l) @ sep) < len then joined sep (items l)
               else take (len - 1) (joined sep (items l) @ sep), l') \<and>
    list_ok l' \<and> items l' = items l \<and> cursors l' = cursors l \<and>
    (items l \<noteq> [] \<longrightarrow> length (joined sep (items l) @ sep) < len \<longrightarrow> n = length (joined sep (items l) @ sep))"
proof (cases "items l = []")
  case True
  then show ?thesis using assms list_ok_count [OF assms(1)] by (simp add: list_join_def list_count_def)
next
  case False
  then have c: "list_count l \<noteq> 0" using list_ok_count [OF assms(1)] by (simp add: list_count_def)
  let ?t = "joined sep (items l) @ sep"
  obtain l0 where c1: "list_iterator_create l (Some p) = (True, l0)"
    using list_iterator_create_spec(1) [OF assms(1), of p] by (cases "list_iterator_create l (Some p)") auto
  note C = list_iterator_create_spec [OF assms(1), of p, unfolded c1 snd_conv]
  have a: "ahead 0 (absl l0) = items l" "cursors l0 = (0, False) # cursors l" "items l0 = items l"
    using C(3) by (simp_all add: ahead_def next_pos_def absl_def)
  have "0 < length (liters l0)" using a(2) by (cases "liters l0") (auto simp: cursors_def)
  from join_loop_spec [OF C(2) this, of len sep "[]" 0 False] obtain l1 where l1:
    "join_loop len sep l0 [] 0 False = (case join_ref len sep (items l) [] 0 False of (t, n, tr) \<Rightarrow> Some (t, n, tr, l1))"
    "list_ok l1" "items l1 = items l" "tl (cursors l1) = cursors l" "length (liters l1) = length (liters l0)"
    unfolding a by auto
  note D = list_iterator_destroy_spec [OF l1(2), of 0]
  have d: "items (list_iterator_destroy l1 0) = items l" "cursors (list_iterator_destroy l1 0) = cursors l"
    using D(2) l1(3,4) by (simp_all add: absl_def drop_Suc)
  have t: "concat (map (\<lambda>s. s @ sep) (items l)) = ?t" by (rule joined_concat [OF False])
  show ?thesis
  proof (cases "length ?t < len")
    case True
    then have "join_ref len sep (items l) [] 0 False = (?t, length ?t, False)"
      using join_ref_fits [of 0 sep "items l" len "[]"] unfolding t by simp
    then show ?thesis
      using True False c c1 l1(1) D(1) d by (simp add: list_join_def)
  next
    case nf: False
    then obtain m where "join_ref len sep (items l) [] 0 False = (take (len - 1) ?t, m, True)"
      using join_ref_overflow [of len 0 sep "items l" "[]"] assms(2) unfolding t by auto
    then show ?thesis
      using nf False c c1 l1(1) D(1) d assms(2) by (simp add: list_join_def min_def del: take_append)
  qed
qed

text \<open>A joined list splits into the same list, if no element is empty or has a separator or bracket.\<close>

definition tok_ok :: "string \<Rightarrow> string \<Rightarrow> bool" where
  "tok_ok sep s \<longleftrightarrow> s \<noteq> [] \<and> (\<forall>c\<in>set s. \<not> strchr sep c \<and> c \<noteq> CHR ''['' \<and> c \<noteq> CHR '']'')"

lemma tok_scan_tok:
  assumes "\<forall>c\<in>set s. \<not> strchr sep c \<and> c \<noteq> CHR ''['' \<and> c \<noteq> CHR '']''" "t = [] \<or> strchr sep (hd t)"
  shows "tok_scan sep (s @ t) 0 = (s, t)"
  using assms by (induction s) (cases t, auto)+

lemma tokens_joined:
  assumes "strchr sep c" "list_all (tok_ok sep) ss"
  shows "tokens sep (joined [c] ss) = ss"
  using assms(2)
proof (induction "[c]" ss rule: joined.induct)
  case 1
  then show ?case by (subst tokens.simps) (simp add: split_next_tok_def)
next
  case (2 s)
  then have s: "dropWhile (strchr sep) s = s" "s \<noteq> []" "tok_scan sep s 0 = (s, [])"
    using tok_scan_tok [of s sep "[]"] by (auto simp: tok_ok_def dropWhile_eq_self_iff)
  have "tokens sep [] = []" by (subst tokens.simps) (simp add: split_next_tok_def)
  then show ?case using s by (subst tokens.simps) (simp add: split_next_tok_def Let_def)
next
  case (3 s t ss)
  let ?r = "joined [c] (t # ss)"
  have s: "dropWhile (strchr sep) (s @ c # ?r) = s @ c # ?r" "s \<noteq> []" "tok_scan sep (s @ c # ?r) 0 = (s, c # ?r)"
    using 3(2) assms(1) tok_scan_tok [of s sep "c # ?r"] by (cases s; simp add: tok_ok_def)+
  have "dropWhile (strchr sep) ?r = ?r"
    using 3(2) by (cases ss; cases t) (auto simp: tok_ok_def)
  moreover have "list_all (tok_ok sep) (t # ss)" using 3(2) by simp
  ultimately show ?case
    using s 3(1) assms(1) by (subst tokens.simps) (simp add: split_next_tok_def Let_def)
qed

end
