(* ===== verification/Wcoll.thy ===== *)
theory Wcoll
  imports Hostlist_Roundtrip List_Split XString
begin

text \<open>
  Reading working collectives from files (\<open>pdsh/wcoll.c\<close>): one item of a host list or
  several on a line, comments, and \<open>#include\<close>. The lists of the context are the
  sequences that the lists of \<open>List_Ops\<close> implement; warnings are left out, and
  \<open>errx\<close>, which ends the program, is \<open>Exits\<close>. \<open>None\<close> is a run that
  does not return.
\<close>

section \<open>Files\<close>

text \<open>\<open>access(path, R_OK) >= 0\<close>, and the text \<open>fopen\<close> gives access to\<close>

record files =
  readable :: "string \<Rightarrow> bool"
  contents :: "string \<Rightarrow> string option"

record wcoll_ctx =
  whl :: hostlist
  path_list :: "string list"
  include_cache :: "string list"

datatype 'a fate = Exits | Continues 'a

text \<open>\<open>fgets\<close>: up to a newline, and at most as many characters as fit the buffer\<close>

definition fgets_line :: "nat \<Rightarrow> string \<Rightarrow> string" where
  "fgets_line len text =
    (let l = take (len - 1) text in case upto_first (\<lambda>c. c = LF) l of Some x \<Rightarrow> x | None \<Rightarrow> l)"

lemma fgets_line_ne: "text \<noteq> [] \<Longrightarrow> 1 < len \<Longrightarrow> fgets_line len text \<noteq> []"
  by (auto simp: fgets_line_def Let_def dest: upto_first_SomeD split: option.split)

function fgets_lines :: "nat \<Rightarrow> string \<Rightarrow> string list" where
  "fgets_lines len text =
    (if text = [] \<or> len \<le> 1 then []
     else let l = fgets_line len text in l # fgets_lines len (drop (length l) text))"
  by pat_completeness auto
termination
  by (relation "measure (\<lambda>(_, text). length text)") (auto simp: fgets_line_ne)

declare fgets_lines.simps [simp del]

section \<open>Paths\<close>

definition wcoll_ctx_create :: "string \<Rightarrow> wcoll_ctx" where
  "wcoll_ctx_create path = \<lparr>whl = hostlist_new, path_list = tokens '':'' path, include_cache = []\<rparr>"

definition wcoll_ctx_file_is_cached :: "wcoll_ctx \<Rightarrow> string \<Rightarrow> bool \<times> wcoll_ctx" where
  "wcoll_ctx_file_is_cached ctx file =
    (if file \<in> set (include_cache ctx) then (True, ctx)
     else (False, ctx\<lparr>include_cache := file # include_cache ctx\<rparr>))"

text \<open>The loop over the directories; \<open>snprintf\<close> must have room for the terminator.\<close>

fun path_lookup_loop :: "files \<Rightarrow> string list \<Rightarrow> string \<Rightarrow> nat \<Rightarrow> string option" where
  "path_lookup_loop fs [] name len = None"
| "path_lookup_loop fs (s # ss) name len =
    (let buf = s @ ''/'' @ name
     in if length buf \<ge> len then None
        else if readable fs buf then Some buf
        else path_lookup_loop fs ss name len)"

definition wcoll_ctx_path_lookup :: "files \<Rightarrow> wcoll_ctx \<Rightarrow> string \<Rightarrow> nat \<Rightarrow> string option" where
  "wcoll_ctx_path_lookup fs ctx name len = path_lookup_loop fs (path_list ctx) name len"

text \<open>\<open>strncpy\<close> leaves no terminator behind \<open>len - 1\<close> characters; no shorter name is cut.\<close>

definition wcoll_ctx_resolve_path :: "files \<Rightarrow> wcoll_ctx \<Rightarrow> string \<Rightarrow> nat \<Rightarrow> string option" where
  "wcoll_ctx_resolve_path fs ctx file len =
    (if take 1 file = ''/'' \<or> take 2 file = ''./'' \<or> take 3 file = ''../'' then Some (take (len - 1) file)
     else wcoll_ctx_path_lookup fs ctx file len)"

section \<open>Lines\<close>

definition INCLUDE_SEP :: string where
  "INCLUDE_SEP = [LF, CHR 0x0D, CHR 0x09, CHR '' '']"

text \<open>\<open>strtok\<close>: the next token and what is behind its separator\<close>

definition strtok :: "string \<Rightarrow> string \<Rightarrow> string option \<times> string" where
  "strtok p sep =
    (let p = dropWhile (strchr sep) p
     in if p = [] then (None, [])
        else (Some (takeWhile (\<lambda>c. \<not> strchr sep c) p), drop 1 (dropWhile (\<lambda>c. \<not> strchr sep c) p)))"

definition include_file :: "string \<Rightarrow> string option" where
  "include_file line =
    (if take 8 line \<noteq> ''#include'' then None
     else
       let p = dropWhile (\<lambda>c. c = CHR '' '' \<or> c = CHR 0x09) (drop 8 line);
           (tok, p) = strtok p INCLUDE_SEP
       in if tok = None \<or> fst (strtok p INCLUDE_SEP) \<noteq> None then None else tok)"

text \<open>\<open>rd\<close> is \<open>wcoll_ctx_read_file\<close>.\<close>

definition wcoll_ctx_read_line ::
  "(wcoll_ctx \<Rightarrow> string \<Rightarrow> wcoll_ctx fate option) \<Rightarrow> errno \<Rightarrow> wcoll_ctx \<Rightarrow> string \<Rightarrow> wcoll_ctx fate option" where
  "wcoll_ctx_read_line rd stale ctx line =
    (let line = cstr line in
     case (if take 1 line = ''#'' then
             case include_file line of Some included \<Rightarrow> rd ctx included | None \<Rightarrow> Some (Continues ctx)
           else Some (Continues ctx)) of
       None \<Rightarrow> None
     | Some Exits \<Rightarrow> Some Exits
     | Some (Continues ctx) \<Rightarrow>
         let line = takeWhile (\<lambda>c. c \<noteq> CHR ''#'') line;
             line = xstrcln line None
         in if line \<noteq> [] then
              map_option (\<lambda>(_, hl). Continues (ctx\<lparr>whl := hl\<rparr>)) (hostlist_push stale (whl ctx) (Some line))
            else Some (Continues ctx))"

fun read_lines ::
  "(wcoll_ctx \<Rightarrow> string \<Rightarrow> wcoll_ctx fate option) \<Rightarrow> errno \<Rightarrow> wcoll_ctx \<Rightarrow> string list \<Rightarrow> wcoll_ctx fate option" where
  "read_lines rd stale ctx [] = Some (Continues ctx)"
| "read_lines rd stale ctx (l # ls) =
    (case wcoll_ctx_read_line rd stale ctx l of
       None \<Rightarrow> None
     | Some Exits \<Rightarrow> Some Exits
     | Some (Continues ctx) \<Rightarrow> read_lines rd stale ctx ls)"

definition wcoll_ctx_read_stream ::
  "(wcoll_ctx \<Rightarrow> string \<Rightarrow> wcoll_ctx fate option) \<Rightarrow> errno \<Rightarrow> wcoll_ctx \<Rightarrow> string \<Rightarrow> wcoll_ctx fate option" where
  "wcoll_ctx_read_stream rd stale ctx text = read_lines rd stale ctx (fgets_lines LINEBUFSIZE text)"

text \<open>The first argument bounds the depth of includes.\<close>

fun wcoll_ctx_read_file :: "nat \<Rightarrow> files \<Rightarrow> errno \<Rightarrow> wcoll_ctx \<Rightarrow> string \<Rightarrow> wcoll_ctx fate option" where
  "wcoll_ctx_read_file 0 fs stale ctx f = None"
| "wcoll_ctx_read_file (Suc n) fs stale ctx f =
    (case wcoll_ctx_resolve_path fs ctx f 4096 of
       None \<Rightarrow> Some Exits
     | Some fq_path \<Rightarrow>
         case wcoll_ctx_file_is_cached ctx fq_path of
           (True, ctx) \<Rightarrow> Some (Continues ctx)
         | (False, ctx) \<Rightarrow>
             if \<not> readable fs fq_path then Some Exits
             else case contents fs fq_path of
                    None \<Rightarrow> Some Exits
                  | Some text \<Rightarrow> wcoll_ctx_read_stream (wcoll_ctx_read_file n fs stale) stale ctx text)"

definition read_wcoll_path :: "nat \<Rightarrow> files \<Rightarrow> errno \<Rightarrow> string \<Rightarrow> string \<Rightarrow> hostlist fate option" where
  "read_wcoll_path n fs stale path file =
    map_option (\<lambda>r. case r of Exits \<Rightarrow> Exits | Continues ctx \<Rightarrow> Continues (whl ctx))
      (wcoll_ctx_read_file n fs stale (wcoll_ctx_create path) file)"

text \<open>POSIX \<open>dirname\<close>\<close>

definition strip_slashes :: "string \<Rightarrow> string" where
  "strip_slashes s = rev (dropWhile (\<lambda>c. c = CHR ''/'') (rev s))"

definition dirname :: "string \<Rightarrow> string" where
  "dirname s =
    (let t = strip_slashes s
     in if t = [] then (if s = [] then ''.'' else ''/'')
        else if \<not> strchr t (CHR ''/'') then ''.''
        else let u = strip_slashes (rev (dropWhile (\<lambda>c. c \<noteq> CHR ''/'') (rev t)))
             in if u = [] then ''/'' else u)"

definition get_file_path :: "string option \<Rightarrow> nat \<Rightarrow> string" where
  "get_file_path file len =
    (case file of
       None \<Rightarrow> ''.''
     | Some file \<Rightarrow> if length (dirname file) < len - 1 then dirname file else ''.'')"

text \<open>
  \<open>f\<close> is the text of the open stream, \<open>std_in\<close> that of standard input. The file
  name is compared before it is tested, so a null one is undefined behaviour.
\<close>

definition read_wcoll :: "nat \<Rightarrow> files \<Rightarrow> errno \<Rightarrow> string \<Rightarrow> string option \<Rightarrow> string option \<Rightarrow> hostlist fate option" where
  "read_wcoll n fs stale std_in file f =
    (case file of
       None \<Rightarrow> None
     | Some name \<Rightarrow>
         let (f, file) = (if name = ''-'' then (Some std_in, None) else (f, file))
         in case (case f of Some text \<Rightarrow> Some text
                  | None \<Rightarrow> if readable fs name then contents fs name else None) of
              None \<Rightarrow> Some Exits
            | Some text \<Rightarrow>
                map_option (\<lambda>r. case r of Exits \<Rightarrow> Exits | Continues ctx \<Rightarrow> Continues (whl ctx))
                  (wcoll_ctx_read_stream (wcoll_ctx_read_file n fs stale) stale
                    (wcoll_ctx_create (get_file_path file 4096)) text))"

section \<open>Reading hosts\<close>

text \<open>What a line that is not an \<open>#include\<close> says: a list of items, maybe empty\<close>

definition line_items :: "string \<Rightarrow> host_item list \<Rightarrow> bool" where
  "line_items line is \<longleftrightarrow> include_file (cstr line) = None \<and> list_all item_ok is \<and>
     xstrcln (takeWhile (\<lambda>c. c \<noteq> CHR ''#'') (cstr line)) None = commas (map item_text is)"

lemma read_line_items:
  assumes "line_items line is" "hl_ok (whl ctx)"
    and "length (hosts (whl ctx)) + length (concat (map item_hosts is)) < 2 ^ 31"
  shows "\<exists>hl. wcoll_ctx_read_line rd stale ctx line = Some (Continues (ctx\<lparr>whl := hl\<rparr>)) \<and> hl_ok hl \<and>
    hosts hl = hosts (whl ctx) @ concat (map item_hosts is)"
proof (cases "is")
  case Nil
  then show ?thesis using assms by (auto simp: wcoll_ctx_read_line_def line_items_def Let_def intro!: exI [of _ "whl ctx"])
next
  case (Cons i is')
  have "item_text i \<noteq> []" using assms(1) Cons item_text_ne [of i] by (simp add: line_items_def)
  then have "commas (map item_text is) \<noteq> []" using Cons by (cases is') auto
  then show ?thesis
    using hostlist_push_items [OF assms(2) _ assms(3), of stale] assms(1)
    by (auto simp: wcoll_ctx_read_line_def line_items_def Let_def)
qed

lemma read_lines_items:
  assumes "list_all2 line_items ls iss" "hl_ok (whl ctx)"
    and "length (hosts (whl ctx)) + length (concat (map item_hosts (concat iss))) < 2 ^ 31"
  shows "\<exists>hl. read_lines rd stale ctx ls = Some (Continues (ctx\<lparr>whl := hl\<rparr>)) \<and> hl_ok hl \<and>
    hosts hl = hosts (whl ctx) @ concat (map item_hosts (concat iss))"
  using assms
proof (induction arbitrary: ctx rule: list_all2_induct)
  case Nil
  then show ?case by (auto intro!: exI [of _ "whl ctx"])
next
  case (Cons l ls "is" iss)
  obtain hl where hl: "wcoll_ctx_read_line rd stale ctx l = Some (Continues (ctx\<lparr>whl := hl\<rparr>))" "hl_ok hl"
    "hosts hl = hosts (whl ctx) @ concat (map item_hosts is)"
    using read_line_items [OF Cons.hyps(1) Cons.prems(1)] Cons.prems(2) by auto
  then show ?case using Cons.IH [of "ctx\<lparr>whl := hl\<rparr>"] Cons.prems(2) by auto
qed

section \<open>Includes end\<close>

text \<open>No line makes the parser run for ever.\<close>

definition lines_end :: "files \<Rightarrow> errno \<Rightarrow> bool" where
  "lines_end fs stale \<longleftrightarrow> (\<forall>p text l. contents fs p = Some text \<longrightarrow> l \<in> set (fgets_lines LINEBUFSIZE text) \<longrightarrow>
     hostlist_create stale (Some (xstrcln (takeWhile (\<lambda>c. c \<noteq> CHR ''#'') (cstr l)) None)) \<noteq> None)"

definition existing :: "files \<Rightarrow> string set" where
  "existing fs = {p. readable fs p \<and> contents fs p \<noteq> None}"

text \<open>What a run does to the cache of included files\<close>

definition cache_grows :: "wcoll_ctx \<Rightarrow> wcoll_ctx fate option \<Rightarrow> bool" where
  "cache_grows ctx r \<longleftrightarrow> (case r of
       None \<Rightarrow> False
     | Some Exits \<Rightarrow> True
     | Some (Continues ctx') \<Rightarrow> set (include_cache ctx) \<subseteq> set (include_cache ctx') \<and> distinct (include_cache ctx'))"

lemma read_line_grows:
  assumes "distinct (include_cache ctx)"
    and "hostlist_create stale (Some (xstrcln (takeWhile (\<lambda>c. c \<noteq> CHR ''#'') (cstr l)) None)) \<noteq> None"
    and "\<And>f. cache_grows ctx (rd ctx f)"
  shows "cache_grows ctx (wcoll_ctx_read_line rd stale ctx l)"
proof -
  let ?l = "xstrcln (takeWhile (\<lambda>c. c \<noteq> CHR ''#'') (cstr l)) None"
  have p: "\<exists>r hl'. hostlist_push stale hl (Some ?l) = Some (r, hl')" for hl
    using assms(2) by (cases "hostlist_create stale (Some ?l)") (auto simp: hostlist_push_def split: sum.split prod.split)
  define q where "q = (if take 1 (cstr l) = ''#'' then
      case include_file (cstr l) of Some included \<Rightarrow> rd ctx included | None \<Rightarrow> Some (Continues ctx)
      else Some (Continues ctx))"
  have "cache_grows ctx (Some (Continues ctx))" using assms(1) by (simp add: cache_grows_def)
  then have q: "cache_grows ctx q" using assms(3) by (simp add: q_def split: option.split)
  have e: "wcoll_ctx_read_line rd stale ctx l = (case q of None \<Rightarrow> None | Some Exits \<Rightarrow> Some Exits
      | Some (Continues ctx) \<Rightarrow> if ?l \<noteq> [] then
          map_option (\<lambda>(_, hl). Continues (ctx\<lparr>whl := hl\<rparr>)) (hostlist_push stale (whl ctx) (Some ?l))
        else Some (Continues ctx))"
    by (simp only: wcoll_ctx_read_line_def Let_def q_def)
  show ?thesis
  proof (cases q)
    case None
    then show ?thesis using q by (simp add: cache_grows_def)
  next
    case (Some r)
    show ?thesis
    proof (cases r)
      case Exits
      then show ?thesis using Some by (simp add: e cache_grows_def)
    next
      case (Continues ctx1)
      obtain x hl' where "hostlist_push stale (whl ctx1) (Some ?l) = Some (x, hl')" using p by blast
      then show ?thesis using q Some Continues by (simp add: e cache_grows_def)
    qed
  qed
qed

lemma read_lines_grows:
  assumes "distinct (include_cache ctx)"
    and "\<forall>l\<in>set ls. hostlist_create stale (Some (xstrcln (takeWhile (\<lambda>c. c \<noteq> CHR ''#'') (cstr l)) None)) \<noteq> None"
    and "\<And>ctx' f. set (include_cache ctx) \<subseteq> set (include_cache ctx') \<Longrightarrow> distinct (include_cache ctx') \<Longrightarrow> cache_grows ctx' (rd ctx' f)"
  shows "cache_grows ctx (read_lines rd stale ctx ls)"
  using assms
proof (induction ls arbitrary: ctx)
  case (Cons l ls)
  have "cache_grows ctx (wcoll_ctx_read_line rd stale ctx l)"
    by (rule read_line_grows) (use Cons.prems in auto)
  then consider "wcoll_ctx_read_line rd stale ctx l = Some Exits"
    | ctx1 where "wcoll_ctx_read_line rd stale ctx l = Some (Continues ctx1)"
      "set (include_cache ctx) \<subseteq> set (include_cache ctx1)" "distinct (include_cache ctx1)"
    by (auto simp: cache_grows_def split: option.splits fate.splits)
  then show ?case
  proof cases
    case 1
    then show ?thesis by (simp add: cache_grows_def)
  next
    case 2
    have "cache_grows ctx1 (read_lines rd stale ctx1 ls)"
      by (rule Cons.IH) (use Cons.prems 2 in auto)
    then show ?thesis using 2 by (auto simp: cache_grows_def split: option.splits fate.splits)
  qed
qed (simp add: cache_grows_def)

lemma read_file_ends:
  assumes "finite (existing fs)" "lines_end fs stale" "distinct (include_cache ctx)"
    and "card (existing fs - set (include_cache ctx)) < n"
  shows "cache_grows ctx (wcoll_ctx_read_file n fs stale ctx f)"
  using assms(3,4)
proof (induction n arbitrary: ctx f)
  case (Suc n)
  show ?case
  proof (cases "wcoll_ctx_resolve_path fs ctx f 4096")
    case None
    then show ?thesis by (simp add: cache_grows_def)
  next
    case (Some fq)
    show ?thesis
    proof (cases "fq \<in> set (include_cache ctx) \<or> \<not> readable fs fq \<or> contents fs fq = None")
      case True
      then show ?thesis using Suc.prems Some
        by (auto simp: cache_grows_def wcoll_ctx_file_is_cached_def split: option.split)
    next
      case False
      then obtain body where body: "contents fs fq = Some body" by blast
      let ?ctx = "ctx\<lparr>include_cache := fq # include_cache ctx\<rparr>"
      have fq: "fq \<in> existing fs - set (include_cache ctx)" using False body by (simp add: existing_def)
      have "cache_grows ?ctx (wcoll_ctx_read_stream (wcoll_ctx_read_file n fs stale) stale ?ctx body)"
        unfolding wcoll_ctx_read_stream_def
      proof (rule read_lines_grows)
        show "distinct (include_cache ?ctx)" using Suc.prems(1) False by simp
        show "\<forall>l\<in>set (fgets_lines LINEBUFSIZE body).
            hostlist_create stale (Some (xstrcln (takeWhile (\<lambda>c. c \<noteq> CHR ''#'') (cstr l)) None)) \<noteq> None"
          using assms(2) body unfolding lines_end_def by blast
        fix ctx' :: wcoll_ctx and f assume c: "set (include_cache ?ctx) \<subseteq> set (include_cache ctx')" "distinct (include_cache ctx')"
        then have "existing fs - set (include_cache ctx') \<subset> existing fs - set (include_cache ctx)" using fq by auto
        then have "card (existing fs - set (include_cache ctx')) < card (existing fs - set (include_cache ctx))"
          using assms(1) by (intro psubset_card_mono) simp_all
        then show "cache_grows ctx' (wcoll_ctx_read_file n fs stale ctx' f)"
          using Suc.IH [OF c(2)] Suc.prems(2) by simp
      qed
      then show ?thesis
        using Some False body
        by (auto simp: cache_grows_def wcoll_ctx_file_is_cached_def split: option.splits fate.splits)
    qed
  qed
qed simp

lemma read_wcoll_items:
  assumes "name \<noteq> ''-''" "readable fs name" "contents fs name = Some body"
    and "list_all2 line_items (fgets_lines LINEBUFSIZE body) iss"
    and "length (concat (map item_hosts (concat iss))) < 2 ^ 31"
  shows "\<exists>hl. read_wcoll n fs stale si (Some name) None = Some (Continues hl) \<and> hl_ok hl \<and>
    hosts hl = concat (map item_hosts (concat iss))"
proof -
  let ?ctx = "wcoll_ctx_create (get_file_path (Some name) 4096)"
  have "hl_ok (whl ?ctx)" "hosts (whl ?ctx) = []" using hostlist_new_ok by (simp_all add: wcoll_ctx_create_def)
  then show ?thesis
    using read_lines_items [OF assms(4), of ?ctx "wcoll_ctx_read_file n fs stale" stale] assms(1-3,5)
    by (auto simp: read_wcoll_def wcoll_ctx_read_stream_def Let_def)
qed

lemma read_wcoll_returns:
  assumes "finite (existing fs)" "lines_end fs stale" "card (existing fs) < n"
  shows "name \<noteq> ''-'' \<Longrightarrow> read_wcoll n fs stale si (Some name) None \<noteq> None" "read_wcoll_path n fs stale path name \<noteq> None"
proof -
  have c: "card (existing fs - set x) < n" for x
    using card_mono [OF assms(1), of "existing fs - set x"] assms(3) by auto
  let ?ctx = "\<lambda>p. wcoll_ctx_create p"
  have d: "distinct (include_cache (?ctx p))" for p by (simp add: wcoll_ctx_create_def)
  have "cache_grows (?ctx path) (wcoll_ctx_read_file n fs stale (?ctx path) name)"
    by (rule read_file_ends [OF assms(1,2) d c])
  then show "read_wcoll_path n fs stale path name \<noteq> None"
    by (auto simp: read_wcoll_path_def cache_grows_def split: option.splits)
  have "cache_grows (?ctx p) (wcoll_ctx_read_stream (wcoll_ctx_read_file n fs stale) stale (?ctx p) body)"
    if "contents fs name = Some body" for body p
    unfolding wcoll_ctx_read_stream_def
  proof (rule read_lines_grows [OF d])
    show "\<forall>l\<in>set (fgets_lines LINEBUFSIZE body).
        hostlist_create stale (Some (xstrcln (takeWhile (\<lambda>c. c \<noteq> CHR ''#'') (cstr l)) None)) \<noteq> None"
      using assms(2) that unfolding lines_end_def by blast
  qed (rule read_file_ends [OF assms(1,2) _ c])
  then show "name \<noteq> ''-'' \<Longrightarrow> read_wcoll n fs stale si (Some name) None \<noteq> None"
    by (fastforce simp: read_wcoll_def cache_grows_def split: option.splits)
qed

end
