(* ===== verification/Dsh_Output.thy ===== *)
theory Dsh_Output
  imports Cbuf_Calls XString
begin

text \<open>
  The output side of a remote command (\<open>pdsh/dsh.c\<close>): the bytes read from the two
  descriptors of a connection go through the thread's circular buffers, are cut into lines, and
  every line is written with one call, behind the label of its host. The return code of the
  command is taken off the line that carries it.

  A write is the stream and the text handed to it, \<open>None\<close> when the formatter is called
  with the wrong arguments.
\<close>

datatype stream = Out | Err

type_synonym out_call = "stream \<times> string option"

datatype state_t = DSH_NEW | DSH_RCMD | DSH_READING | DSH_DONE | DSH_FAILED | DSH_CANCELED

text \<open>The part of \<open>thd_t\<close> that concerns output; descriptors are \<open>-1\<close> when closed.\<close>

record thd =
  tstate :: state_t
  thost :: string
  tlabels :: bool
  tsopt :: bool
  tkill :: bool
  trc :: int
  tfd :: int
  tefd :: int
  toutbuf :: cbuf
  terrbuf :: cbuf

section \<open>Return codes in the output\<close>

definition RC_MAGIC :: string where
  "RC_MAGIC = ''XXRETCODE:''"

fun strstr :: "string \<Rightarrow> string \<Rightarrow> nat option" where
  "strstr [] pat = (if pat = [] then Some 0 else None)"
| "strstr (c # cs) pat =
    (if take (length pat) (c # cs) = pat then Some 0 else map_option Suc (strstr cs pat))"

text \<open>\<open>atoi\<close> is \<open>strtol\<close>, which saturates, and a conversion to 32 bits.\<close>

definition atoi :: "string \<Rightarrow> int" where
  "atoi s =
    (let t = dropWhile isspace s;
         (neg, u) = (case t of c # cs \<Rightarrow> if c = CHR ''-'' then (True, cs)
                                       else if c = CHR ''+'' then (False, cs) else (False, t)
                     | [] \<Rightarrow> (False, t));
         n = int (dec_val (takeWhile isdigit u));
         v = (if neg then max (- (2 ^ 63)) (- n) else min (2 ^ 63 - 1) n)
     in sint (word_of_int v :: 32 word))"

text \<open>
  With text in front of the code, a newline is stored over its first character and \<open>p\<close> is
  advanced; \<open>p += strlen(RC_MAGIC)\<close> then points behind the first digit.
\<close>

definition extract_rc :: "string \<Rightarrow> int \<times> string" where
  "extract_rc buf =
    (case strstr buf RC_MAGIC of
       None \<Rightarrow> (0, buf)
     | Some p \<Rightarrow>
         let (p', buf') = (if last buf = LF \<and> p \<noteq> 0 then (p + 1, take p buf @ [LF]) else (p, take p buf))
         in (atoi (drop (p' + length RC_MAGIC) buf), buf'))"

section \<open>Lines\<close>

text \<open>What \<open>_flush_lines\<close> does with the bytes of one line; \<open>buf\<close> is zero-filled.\<close>

definition emit_line :: "err_env \<Rightarrow> stream \<Rightarrow> bool \<Rightarrow> thd \<Rightarrow> byte list \<Rightarrow> thd \<times> out_call list" where
  "emit_line env st read_rc th line =
    (let s = cstr line;
         (rc, s) = (if read_rc then extract_rc s else (trc th, s));
         th = th\<lparr>trc := rc\<rparr>
     in (th, if length s > 0 then
               [(st, if tlabels th then verr env ''%S: %s'' [Str (thost th), Str s] else verr env ''%s'' [Str s])]
             else []))"

partial_function (option) flush_lines ::
  "err_env \<Rightarrow> cbuf \<Rightarrow> stream \<Rightarrow> bool \<Rightarrow> thd \<Rightarrow> out_call list \<Rightarrow> (cbuf \<times> thd \<times> out_call list) option" where
  "flush_lines env cb st read_rc th ws =
    (case cbuf_peek_line cb (Some [NUL]) 1 1 of
       None \<Rightarrow> None
     | Some (Inl e, _) \<Rightarrow>
         Some (cb, th, ws @ [(Err, verr env (''%p: %S: Failed to peek line: %m'' @ [LF]) [Str (thost th)])])
     | Some (Inr n, _) \<Rightarrow>
         if n = 0 then Some (cb, th, ws)
         else
           case cbuf_read cb (Some (replicate (nat (n + 1)) NUL)) n of
             (Inl e, _, cb) \<Rightarrow>
               Some (cb, th, ws @ [(Err, verr env (''%p: %S: Failed to read line from buffer: %m'' @ [LF]) [Str (thost th)])])
           | (Inr k, buf, cb) \<Rightarrow>
               if k \<noteq> 0 then
                 case emit_line env st read_rc th (the buf) of
                   (th, w) \<Rightarrow> flush_lines env cb st read_rc th (ws @ w)
               else flush_lines env cb st read_rc th ws)"

definition do_output ::
  "allocator \<Rightarrow> err_env \<Rightarrow> int \<Rightarrow> rd_event list \<Rightarrow> cbuf \<Rightarrow> stream \<Rightarrow> bool \<Rightarrow> thd
    \<Rightarrow> (int \<times> rd_event list \<times> cbuf \<times> thd \<times> out_call list) option" where
  "do_output mem env fd ev cb st read_rc th =
    (case cbuf_write_from_fd mem cb fd ev (-1) of
       (Inl e, dropped, ev, cb) \<Rightarrow>
         Some (if e = EAGAIN then (1, ev, cb, th, [])
               else (-1, ev, cb, th, [(Err, verr env (''%p: %S: read: %m'' @ [LF]) [Str (thost th)])]))
     | (Inr rc, dropped, ev, cb) \<Rightarrow>
         map_option (\<lambda>(cb, th, ws). (rc, ev, cb, th, ws)) (flush_lines env cb st read_rc th []))"

text \<open>
  \<open>_flush_output\<close> passes the array \<open>t\<close>, so the entry of the first thread, to
  \<open>_flush_lines\<close>; that entry is \<open>t0\<close>.
\<close>

partial_function (option) flush_rest ::
  "err_env \<Rightarrow> cbuf \<Rightarrow> stream \<Rightarrow> thd \<Rightarrow> bool \<Rightarrow> out_call list \<Rightarrow> (cbuf \<times> out_call list) option" where
  "flush_rest env cb st th labeled ws =
    (case cbuf_read cb (Some (replicate 8192 NUL)) 8191 of
       (Inl e, _, cb) \<Rightarrow> Some (cb, ws)
     | (Inr n, buf, cb) \<Rightarrow>
         if n > 0 then
           flush_rest env cb st th (labeled \<or> tlabels th)
             (ws @ (if tlabels th \<and> \<not> labeled then [(st, verr env ''%S: '' [Str (thost th)])] else [])
              @ [(st, verr env ''%s'' [Str (cstr (take (nat n) (the buf)))])])
         else Some (cb, ws))"

definition flush_output :: "err_env \<Rightarrow> cbuf \<Rightarrow> stream \<Rightarrow> thd \<Rightarrow> thd \<Rightarrow> (cbuf \<times> out_call list) option" where
  "flush_output env cb st t0 th =
    (case flush_lines env cb st False t0 [] of
       None \<Rightarrow> None
     | Some (cb, _, ws) \<Rightarrow> flush_rest env cb st th False ws)"

text \<open>The answer, what is left of the descriptor, the thread and the writes\<close>

definition handle_rcmd_stdout ::
  "allocator \<Rightarrow> err_env \<Rightarrow> rd_event list \<Rightarrow> thd \<Rightarrow> (int \<times> rd_event list \<times> thd \<times> out_call list) option" where
  "handle_rcmd_stdout mem env ev th =
    map_option (\<lambda>(rc, ev, cb, th, ws). (rc, ev, th\<lparr>toutbuf := cb, tfd := (if rc \<le> 0 then -1 else tfd th)\<rparr>, ws))
      (do_output mem env (tfd th) ev (toutbuf th) Out True th)"

definition handle_rcmd_stderr ::
  "allocator \<Rightarrow> err_env \<Rightarrow> rd_event list \<Rightarrow> thd \<Rightarrow> (int \<times> rd_event list \<times> thd \<times> out_call list) option" where
  "handle_rcmd_stderr mem env ev th =
    map_option (\<lambda>(rc, ev, cb, th, ws). (rc, ev, th\<lparr>terrbuf := cb, tefd := (if rc \<le> 0 then -1 else tefd th)\<rparr>, ws))
      (do_output mem env (tefd th) ev (terrbuf th) Err False th)"

text \<open>Whether the program ends: the exit status 1 of \<open>errx\<close> after its messages\<close>

definition die_if_signalled :: "err_env \<Rightarrow> thd \<Rightarrow> out_call list option" where
  "die_if_signalled env th =
    (let sig = trc th - 128
     in if sig \<le> 0 then None
        else Some [(Err, verr env (''%p: process on host %S killed by signal %d'' @ [LF]) [Str (thost th), Num sig]),
                   (Err, verr env (''%p: terminating all processes.'' @ [LF]) [])])"

section \<open>The poll loop of a thread\<close>

text \<open>
  One answer of \<open>xpoll\<close>: interrupted, with whether the command's time is up; failed; or which
  of the descriptors are ready (\<open>revents & (XPOLLREAD|XPOLLERR)\<close>).
\<close>

datatype poll_event = PollIntr bool | PollErr | PollReady bool bool

datatype outcome = Finished state_t | Exited

text \<open>
  The poll set: \<open>xpfds[0].fd\<close> and \<open>xpfds[1].fd\<close>. \<open>None\<close> is a loop that
  still waits when the events are used up.
\<close>

fun rsh_loop ::
  "allocator \<Rightarrow> err_env \<Rightarrow> bool \<Rightarrow> bool \<Rightarrow> poll_event list \<Rightarrow> rd_event list \<Rightarrow> rd_event list \<Rightarrow> thd \<Rightarrow> out_call list
    \<Rightarrow> (outcome \<times> thd \<times> rd_event list \<times> rd_event list \<times> out_call list) option" where
  "rsh_loop mem env o0 e0 polls oev eev th ws =
    (if \<not> o0 \<and> \<not> e0 then Some (Finished DSH_DONE, th, oev, eev, ws)
     else
       case polls of
         [] \<Rightarrow> None
       | PollErr # polls \<Rightarrow>
           Some (Finished DSH_FAILED, th, oev, eev, ws @ [(Err, verr env (''%p: %S: xpoll: %m'' @ [LF]) [Str (thost th)])])
       | PollIntr timeout # polls \<Rightarrow>
           if timeout then
             Some (Finished DSH_FAILED, th, oev, eev,
               ws @ [(Err, verr env (''%p: %S: command timeout'' @ [LF]) [Str (thost th)])])
           else rsh_loop mem env o0 e0 polls oev eev th ws
       | PollReady ro re # polls \<Rightarrow>
           (case (if o0 \<and> ro then handle_rcmd_stdout mem env oev th else Some (1, oev, th, [])) of
              None \<Rightarrow> None
            | Some (rc1, oev, th, w1) \<Rightarrow>
              case (if tsopt th \<and> e0 \<and> re then handle_rcmd_stderr mem env eev th else Some (1, eev, th, [])) of
                None \<Rightarrow> None
              | Some (rc2, eev, th, w2) \<Rightarrow>
                  case (if tkill th then die_if_signalled env th else None) of
                    Some w3 \<Rightarrow> Some (Exited, th, oev, eev, ws @ w1 @ w2 @ w3)
                  | None \<Rightarrow>
                      rsh_loop mem env (o0 \<and> rc1 > 0) (e0 \<and> rc2 > 0) polls oev eev th (ws @ w1 @ w2)))"

declare rsh_loop.simps [simp del]

text \<open>
  The rest of \<open>_rsh_thread\<close>: nothing is read when the connection failed or the thread was
  canceled while it connected. \<open>drc\<close> is the answer of \<open>rcmd_destroy\<close>, \<open>t0\<close>
  the first entry of the thread array. The last component of the result is whether the whole
  job ends.
\<close>

definition rsh_thread ::
  "allocator \<Rightarrow> err_env \<Rightarrow> thd \<Rightarrow> poll_event list \<Rightarrow> rd_event list \<Rightarrow> rd_event list \<Rightarrow> int \<Rightarrow> thd
    \<Rightarrow> (outcome \<times> thd \<times> rd_event list \<times> rd_event list \<times> out_call list) option" where
  "rsh_thread mem env t0 polls oev eev drc th =
    (case (if tfd th = -1 then Some (Finished DSH_FAILED, th, oev, eev, [])
           else if tstate th = DSH_CANCELED then Some (Finished DSH_DONE, th, oev, eev, [])
           else rsh_loop mem env (tfd th \<ge> 0) (tsopt th \<and> tefd th \<ge> 0) polls oev eev
                  (th\<lparr>tstate := DSH_READING\<rparr>) []) of
       None \<Rightarrow> None
     | Some (Exited, th, oev, eev, ws) \<Rightarrow> Some (Exited, th, oev, eev, ws)
     | Some (Finished st, th, oev, eev, ws) \<Rightarrow>
         let th = th\<lparr>tstate := st\<rparr>
         in case flush_output env (toutbuf th) Out t0 th of
              None \<Rightarrow> None
            | Some (ob, w1) \<Rightarrow>
                case flush_output env (terrbuf th) Err t0 th of
                  None \<Rightarrow> None
                | Some (eb, w2) \<Rightarrow>
                    let th = th\<lparr>toutbuf := ob, terrbuf := eb, trc := (if trc th = 0 \<and> drc > 0 then drc else trc th)\<rparr>
                    in if tkill th \<and> (tstate th = DSH_FAILED \<or> trc th > 0)
                       then Some (Exited, th, oev, eev,
                              ws @ w1 @ w2 @ [(Err, verr env (''%p: terminating all processes'' @ [LF]) [])])
                       else Some (Finished st, th, oev, eev, ws @ w1 @ w2))"

end
