(* ===== verification/Dsh_Lines.thy ===== *)
theory Dsh_Lines
  imports Dsh_Output
begin

text \<open>
  What the output functions of \<open>Dsh_Output\<close> do to a stream of bytes: the lines of a byte
  list, the loop of \<open>_flush_lines\<close> as a map over them, and the poll loop as a function of the
  bytes that were read.
\<close>

section \<open>Lines of a stream\<close>

text \<open>The complete lines, each with its newline, and what is left\<close>

fun split_lines :: "byte list \<Rightarrow> byte list list \<times> byte list" where
  "split_lines [] = ([], [])"
| "split_lines (x # xs) =
    (case split_lines xs of
       (ls, r) \<Rightarrow>
         if x = LF then ([x] # ls, r)
         else case ls of [] \<Rightarrow> ([], x # r) | l # ls \<Rightarrow> ((x # l) # ls, r))"

lemma concat_split_lines: "split_lines xs = (ls, r) \<Longrightarrow> concat ls @ r = xs"
  by (induction xs arbitrary: ls r) (auto split: prod.splits if_splits list.splits)

lemma split_lines_line: "split_lines xs = (ls, r) \<Longrightarrow> LF \<notin> set r \<and> (\<forall>l\<in>set ls. \<exists>k. l = k @ [LF] \<and> LF \<notin> set k)"
proof (induction xs arbitrary: ls r)
  case (Cons x xs)
  obtain ls1 r1 where s: "split_lines xs = (ls1, r1)" by force
  note IH = Cons.IH [OF s]
  show ?case
  proof (cases "x = LF \<or> ls1 = []")
    case True
    then show ?thesis using Cons.prems IH s by (auto split: if_splits)
  next
    case False
    then obtain l ls2 where l: "ls1 = l # ls2" by (cases ls1) auto
    then obtain k where k: "l = k @ [LF]" "LF \<notin> set k" using IH by auto
    have "ls = (x # l) # ls2" "r = r1" using Cons.prems s l False by auto
    moreover have "\<exists>k'. x # l = k' @ [LF] \<and> LF \<notin> set k'" using k False by (intro exI [of _ "x # k"]) auto
    ultimately show ?thesis using IH l by auto
  qed
qed simp

lemma split_lines_append:
  "split_lines (xs @ ys) = (fst (split_lines xs) @ fst (split_lines (snd (split_lines xs) @ ys)),
     snd (split_lines (snd (split_lines xs) @ ys)))"
proof (induction xs)
  case (Cons x xs)
  obtain ls r where s: "split_lines xs = (ls, r)" by force
  obtain ls2 r2 where s2: "split_lines (r @ ys) = (ls2, r2)" by force
  show ?case
    using Cons s s2 by (cases ls) (auto split: list.splits)
qed (simp add: prod_eq_iff)

lemma split_lines_none: "LF \<notin> set xs \<Longrightarrow> split_lines xs = ([], xs)"
  by (induction xs) auto

lemma split_lines_Cons:
  assumes "split_lines xs = (l # ls, r)"
  shows "\<exists>ys. xs = l @ ys \<and> split_lines ys = (ls, r)"
  using assms
proof (induction xs arbitrary: l ls r)
  case (Cons x xs)
  obtain ls1 r1 where s: "split_lines xs = (ls1, r1)" by force
  show ?case
  proof (cases "x = LF")
    case True
    then show ?thesis using Cons.prems s by auto
  next
    case False
    then obtain l1 ls2 where l1: "ls1 = l1 # ls2" using Cons.prems s by (cases ls1) auto
    then show ?thesis using Cons.IH [of l1 ls2 r1] Cons.prems s False by auto
  qed
qed simp

lemma unread_lines_first:
  "unread_lines xs c 1 = (case fst (split_lines xs) of [] \<Rightarrow> [] | l # _ \<Rightarrow> l)"
proof -
  have "lines_prefix 1 xs = (case fst (split_lines xs) of [] \<Rightarrow> None | l # _ \<Rightarrow> Some l)"
    by (induction xs) (auto split: prod.splits list.splits)
  then show ?thesis by (simp add: unread_lines_def split: list.split)
qed

section \<open>The loop over lines\<close>

fun emit_lines :: "err_env \<Rightarrow> stream \<Rightarrow> bool \<Rightarrow> thd \<Rightarrow> byte list list \<Rightarrow> thd \<times> out_call list" where
  "emit_lines env st rr th [] = (th, [])"
| "emit_lines env st rr th (l # ls) =
    (let (th, w) = emit_line env st rr th l; (th, ws) = emit_lines env st rr th ls in (th, w @ ws))"

lemma cstr_NUL [simp]: "cstr (xs @ [NUL]) = cstr xs"
  by (induction xs) (auto simp: cstr_def)

lemma flush_lines_spec:
  assumes "cbuf_is_valid cb" "split_lines (unread cb) = (ls, r)" "emit_lines env st rr th ls = (th', w)"
  shows "\<exists>cb'. flush_lines env cb st rr th ws = Some (cb', th', ws @ w) \<and> cbuf_is_valid cb' \<and>
    unread cb' = r \<and> maxsize cb' = maxsize cb \<and> overwrite cb' = overwrite cb"
  using assms
proof (induction ls arbitrary: cb th ws w)
  case Nil
  have "unread cb = r" using concat_split_lines [OF Nil(2)] by simp
  moreover have "cbuf_peek_line cb (Some [NUL]) 1 1 = Some (Inr 0, Some [NUL])"
    using cbuf_peek_line_spec [OF Nil(1), of 1 1 "[NUL]"] Nil(2) by (simp add: unread_lines_first)
  ultimately show ?case using Nil by (subst flush_lines.simps) simp
next
  case (Cons l ls)
  obtain ys where ys: "unread cb = l @ ys" "split_lines ys = (ls, r)"
    using split_lines_Cons [OF Cons.prems(2)] by blast
  have l: "l \<noteq> []" using split_lines_line [OF Cons.prems(2)] by auto
  have p: "cbuf_peek_line cb (Some [NUL]) 1 1 = Some (Inr (int (length l)), Some (store_at [NUL] [NUL]))"
    using cbuf_peek_line_spec [OF Cons.prems(1), of 1 1 "[NUL]"] Cons.prems(2) l
    by (simp add: unread_lines_first)
  obtain q out cb1 where r: "cbuf_read cb (Some (replicate (nat (int (length l) + 1)) NUL)) (int (length l)) = (q, out, cb1)"
    by (metis prod_cases3)
  note R = cbuf_read_spec [OF Cons.prems(1) _ r]
  have u: "used cb = int (length (unread cb))" using cbuf_valid_range(5) [OF Cons.prems(1)] by simp
  have q: "q = Inr (int (length l))" using R(1) unfolding u ys(1) by simp
  have out: "out = Some (l @ [NUL])"
  proof -
    have "nat (int (length l) + 1) = length l + 1" by simp
    then have "replicate (nat (int (length l) + 1)) NUL = replicate (length l) NUL @ [NUL]"
      by (simp add: replicate_append_same)
    then show ?thesis using R(2) ys(1) by (simp add: store_at_def)
  qed
  have cb1: "unread cb1 = ys" "cbuf_is_valid cb1" using R(3,4) ys(1) by simp_all
  have cb1': "maxsize cb1 = maxsize cb" "overwrite cb1 = overwrite cb"
    using r q l by (auto simp: cbuf_read_def cbuf_dropper_def cbuf_shrink_def Let_def split: prod.splits if_splits)
  obtain th1 w1 where e: "emit_line env st rr th l = (th1, w1)" by force
  obtain w2 where w2: "emit_lines env st rr th1 ls = (th', w2)" "w = w1 @ w2"
    using Cons.prems(3) e by (auto split: prod.splits)
  have e': "emit_line env st rr th (l @ [NUL]) = (th1, w1)" using e by (simp add: emit_line_def)
  have split1: "split_lines (unread cb1) = (ls, r)" using ys(2) cb1(1) by simp
  have "flush_lines env cb st rr th ws = flush_lines env cb1 st rr th1 (ws @ w1)"
    using l by (subst flush_lines.simps) (simp add: p r q out e')
  then show ?case using Cons.IH [OF cb1(2) split1 w2(1), of "ws @ w1"] w2(2) cb1' by auto
qed

text \<open>Reading into a buffer does not lose data as long as a chunk fits behind the partial line.\<close>

lemma writer_bsize:
  assumes "cbuf_writer mem cb len getf src nd0 = (r, nd, src', cb')"
    and "(if len > bsize cb - used cb \<and> bsize cb < maxsize cb
      then cbuf_grow mem cb (len - (bsize cb - used cb)) else (0, cb)) = (g, c)"
  shows "bsize cb' = bsize c"
  using assms(1) unfolding cbuf_writer_def Let_def assms(2) case_prod_conv
  by (auto simp: cbuf_advance_def Let_def split: if_splits prod.splits)

lemma write_from_fd_no_drop:
  assumes "cbuf_is_valid cb" "used cb + CBUF_CHUNK \<le> maxsize cb" "\<And>n. mem n"
    and "cbuf_write_from_fd mem cb fd ev (-1) = (r, nd, ev', cb')"
  obtains bs where "fd_rest ev = bs @ fd_rest ev'" "unread cb' = unread cb @ bs" "cbuf_is_valid cb'"
    "maxsize cb' = maxsize cb" "(\<exists>e. r = Inl e) \<Longrightarrow> bs = []"
proof -
  obtain bs where bs: "fd_rest ev = bs @ fd_rest ev'" "appended bs cb cb'"
    "bs = [] \<Longrightarrow> r = Inr 0 \<or> (\<exists>e. r = Inl e)"
    "bs \<noteq> [] \<Longrightarrow> r = Inr (int (length bs)) \<and> nd = max 0 (used cb + int (length bs) - bsize cb')"
    using cbuf_write_from_fd_spec [OF assms(1,4)] by blast
  note v = cbuf_valid_range [OF assms(1)]
  define l where "l = (let nfree = bsize cb - used cb in if nfree = 0 then min (bsize cb) CBUF_CHUNK else nfree)"
  have "used cb + int (length bs) \<le> bsize cb'"
  proof (cases "fd < 0 \<or> l \<le> 0")
    case True
    then have "ev' = ev" using assms(4) by (auto simp: cbuf_write_from_fd_def l_def Let_def split: if_splits)
    then have "bs = []" using bs(1) by simp
    then show ?thesis using v bs(2) by (simp add: appended_def)
  next
    case False
    then have w: "cbuf_writer mem cb l cbuf_get_fd ev 0 = (r, nd, ev', cb')" and l: "0 < l"
      using assms(4) by (simp_all add: cbuf_write_from_fd_def l_def Let_def split: if_splits)
    obtain bs' where bs': "fd_rest ev = bs' @ fd_rest ev'" "int (length bs') \<le> l"
    proof (rule fd_source.cbuf_writer_spec [OF assms(1) l w])
      fix bs' assume "fd_rest ev = bs' @ fd_rest ev'" "int (length bs') \<le> l"
      then show thesis by (rule that)
    qed
    have n: "int (length bs) \<le> l" using bs'(2) bs(1) bs'(1) by simp
    obtain g c where c: "(if l > bsize cb - used cb \<and> bsize cb < maxsize cb
      then cbuf_grow mem cb (l - (bsize cb - used cb)) else (0, cb)) = (g, c)" by force
    have b: "bsize cb' = bsize c" by (rule writer_bsize [OF w c])
    show ?thesis
    proof (cases "bsize cb = used cb")
      case True
      then have lc: "l = min (bsize cb) CBUF_CHUNK" by (simp add: l_def)
      have lt: "bsize cb < maxsize cb" using assms(2) True by (simp add: CBUF_CHUNK_def)
      then have "cbuf_grow mem cb l = (g, c)" using c True l by simp
      from cbuf_grow_enough [where mem = mem, OF assms(1) l assms(3) this] have "min (bsize cb + l) (maxsize cb) \<le> bsize c" .
      moreover have "bsize cb + l \<le> maxsize cb" using assms(2) True lc by simp
      ultimately show ?thesis using n True b by simp
    next
      case False
      then have "l = bsize cb - used cb" by (simp add: l_def Let_def)
      then show ?thesis using n bs(2) by (simp add: appended_def)
    qed
  qed
  then have "unread cb' = unread cb @ bs"
    using bs(2) v(5) by (simp add: appended_def)
  then show thesis using that [of bs] bs by (auto simp: appended_def)
qed

section \<open>The poll loop\<close>

text \<open>What is written for a line of standard output, and the return code after some lines\<close>

definition labelled :: "err_env \<Rightarrow> thd \<Rightarrow> string \<Rightarrow> string" where
  "labelled env th s = (if tlabels th then percent_S env (thost th) @ '': '' @ s else s)"

definition shown :: "err_env \<Rightarrow> thd \<Rightarrow> byte list \<Rightarrow> out_call list" where
  "shown env th l =
    (let s = snd (extract_rc (cstr l)) in if s = [] then [] else [(Out, Some (labelled env th s))])"

definition lines_rc :: "int \<Rightarrow> byte list list \<Rightarrow> int" where
  "lines_rc rc ls = (if ls = [] then rc else fst (extract_rc (cstr (last ls))))"

lemma labelled_frame [simp]: "labelled env (th\<lparr>trc := x\<rparr>) = labelled env th"
  "labelled env (th\<lparr>tstate := st\<rparr>) = labelled env th" "labelled env (th\<lparr>toutbuf := cb\<rparr>) = labelled env th"
  "labelled env (th\<lparr>tfd := fd\<rparr>) = labelled env th" "labelled env (th\<lparr>terrbuf := cb\<rparr>) = labelled env th"
  "labelled env (th\<lparr>tefd := fd\<rparr>) = labelled env th"
  by (simp_all add: labelled_def fun_eq_iff)

lemma shown_cong: "labelled env th' = labelled env th \<Longrightarrow> shown env th' = shown env th"
  by (rule ext) (simp add: shown_def Let_def)

lemma lines_rc_append: "lines_rc (lines_rc rc ls) ls' = lines_rc rc (ls @ ls')"
  by (simp add: lines_rc_def)

lemma emit_line_read:
  "emit_line env Out True th l = (th\<lparr>trc := fst (extract_rc (cstr l))\<rparr>, shown env th l)"
  by (simp add: emit_line_def shown_def labelled_def verr_labelled verr_text split: prod.split)

lemma emit_lines_read:
  "emit_lines env Out True th ls = (th\<lparr>trc := lines_rc (trc th) ls\<rparr>, concat (map (shown env th) ls))"
proof (induction ls arbitrary: th)
  case (Cons l ls)
  have "shown env (th\<lparr>trc := x\<rparr>) = shown env th" for x by (rule shown_cong) simp
  then show ?case using Cons by (simp add: emit_line_read lines_rc_def)
qed (simp add: lines_rc_def)

text \<open>
  A stream a buffer can carry: each line, and what follows the last one, leaves room for a
  chunk.
\<close>

definition stream_ok :: "int \<Rightarrow> byte list \<Rightarrow> bool" where
  "stream_ok mx s \<longleftrightarrow> (\<forall>l\<in>set (snd (split_lines s) # fst (split_lines s)). int (length l) + CBUF_CHUNK \<le> mx)"

definition line_list :: "byte list list \<Rightarrow> bool" where
  "line_list ls \<longleftrightarrow> (\<forall>l\<in>set ls. \<exists>k. l = k @ [LF] \<and> LF \<notin> set k)"

lemma split_lines_concat:
  assumes "line_list ls"
  shows "split_lines (concat ls @ s) = (ls @ fst (split_lines s), snd (split_lines s))"
  using assms
proof (induction ls)
  case (Cons l ls)
  then obtain k where k: "l = k @ [LF]" "LF \<notin> set k" by (auto simp: line_list_def)
  have "split_lines (k @ LF # ys) = ((k @ [LF]) # fst (split_lines ys), snd (split_lines ys))" for ys
    using k(2) by (induction k) (auto split: prod.splits)
  from this [of "concat ls @ s"] show ?case using Cons k(1) by (simp add: line_list_def)
qed simp

lemma partial_line_bound:
  assumes "stream_ok mx (r @ s)" "LF \<notin> set r"
  shows "int (length r) + CBUF_CHUNK \<le> mx"
proof -
  obtain ls t where s: "split_lines s = (ls, t)" by force
  have "split_lines (r @ s) = (case ls of [] \<Rightarrow> ([], r @ t) | l # ls \<Rightarrow> ((r @ l) # ls, t))"
    using assms(2) by (induction r) (auto simp: s split: list.splits)
  then show ?thesis using assms(1) by (cases ls) (auto simp: stream_ok_def)
qed

lemma stream_ok_rest: "stream_ok mx (concat ls @ s) \<Longrightarrow> line_list ls \<Longrightarrow> stream_ok mx s"
  by (simp add: stream_ok_def split_lines_concat)

lemma handle_stdout_spec:
  assumes "cbuf_is_valid (toutbuf th)" "LF \<notin> set (unread (toutbuf th))" "\<And>n. mem n"
    and "stream_ok (maxsize (toutbuf th)) (unread (toutbuf th) @ fd_rest oev)"
  shows "\<exists>rc oev' th' ls ws. handle_rcmd_stdout mem env oev th = Some (rc, oev', th', ws) \<and>
    filter (\<lambda>w. fst w = Out) ws = concat (map (shown env th) ls) \<and>
    unread (toutbuf th) @ fd_rest oev = concat ls @ unread (toutbuf th') @ fd_rest oev' \<and>
    line_list ls \<and> trc th' = lines_rc (trc th) ls \<and>
    LF \<notin> set (unread (toutbuf th')) \<and> cbuf_is_valid (toutbuf th') \<and>
    maxsize (toutbuf th') = maxsize (toutbuf th) \<and> labelled env th' = labelled env th \<and>
    terrbuf th' = terrbuf th \<and> tkill th' = tkill th \<and> tsopt th' = tsopt th"
proof -
  let ?cb = "toutbuf th"
  obtain r nd oev' cb1 where w: "cbuf_write_from_fd mem ?cb (tfd th) oev (-1) = (r, nd, oev', cb1)"
    by (metis prod_cases4)
  have "int (length (unread ?cb)) + CBUF_CHUNK \<le> maxsize ?cb"
    using partial_line_bound [OF assms(4,2)] .
  then have b: "used ?cb + CBUF_CHUNK \<le> maxsize ?cb" using cbuf_valid_range(5) [OF assms(1)] by simp
  obtain bs where bs: "fd_rest oev = bs @ fd_rest oev'" "unread cb1 = unread ?cb @ bs" "cbuf_is_valid cb1"
    "maxsize cb1 = maxsize ?cb" "(\<exists>e. r = Inl e) \<Longrightarrow> bs = []"
    using write_from_fd_no_drop [OF assms(1) b assms(3) w] by blast
  show ?thesis
  proof (cases r)
    case (Inl e)
    then have "bs = []" using bs(5) by simp
    then show ?thesis
      using Inl w bs assms(2)
      by (intro exI [of _ "if e = EAGAIN then 1 else -1"] exI [of _ oev'] exI [of _ "th\<lparr>toutbuf := cb1, tfd := (if e = EAGAIN then tfd th else -1)\<rparr>"]
          exI [of _ "[]"] exI [of _ "if e = EAGAIN then [] else [(Err, verr env (''%p: %S: read: %m'' @ [LF]) [Str (thost th)])]"])
        (simp add: handle_rcmd_stdout_def do_output_def lines_rc_def line_list_def)
  next
    case (Inr n)
    obtain ls rest where sl: "split_lines (unread cb1) = (ls, rest)" by force
    have lines: "LF \<notin> set rest" "line_list ls"
      using split_lines_line [OF sl] by (auto simp: line_list_def)
    have all: "unread ?cb @ fd_rest oev = concat ls @ rest @ fd_rest oev'"
      using bs(1,2) concat_split_lines [OF sl] by (metis append.assoc)
    define rc where "rc = lines_rc (trc th) ls"
    have e: "emit_lines env Out True th ls = (th\<lparr>trc := rc\<rparr>, concat (map (shown env th) ls))"
      by (simp add: emit_lines_read rc_def)
    from flush_lines_spec [OF bs(3) sl e, of "[]"] obtain cb2 where cb2:
      "flush_lines env cb1 Out True th [] = Some (cb2, th\<lparr>trc := rc\<rparr>, concat (map (shown env th) ls))"
      "cbuf_is_valid cb2" "unread cb2 = rest" "maxsize cb2 = maxsize cb1" by auto
    then have "handle_rcmd_stdout mem env oev th =
        Some (n, oev', th\<lparr>trc := rc, toutbuf := cb2, tfd := (if n \<le> 0 then -1 else tfd th)\<rparr>,
          concat (map (shown env th) ls))"
      using Inr w by (simp add: handle_rcmd_stdout_def do_output_def)
    then show ?thesis
      using all cb2(2-4) bs(4) lines by (auto simp: rc_def shown_def Let_def filter_id_conv)
  qed
qed

lemma emit_line_frame:
  "emit_line env st rr th l = (th', w) \<Longrightarrow> th' = th\<lparr>trc := trc th'\<rparr> \<and> (\<forall>x\<in>set w. fst x = st)"
  by (auto simp: emit_line_def Let_def split: prod.splits if_splits)

lemma emit_lines_frame:
  "emit_lines env st rr th ls = (th', w) \<Longrightarrow> th' = th\<lparr>trc := trc th'\<rparr> \<and> (\<forall>x\<in>set w. fst x = st)"
proof (induction ls arbitrary: th w)
  case (Cons l ls)
  obtain th1 w1 where e: "emit_line env st rr th l = (th1, w1)" by force
  obtain w2 where w2: "emit_lines env st rr th1 ls = (th', w2)" "w = w1 @ w2"
    using Cons.prems e by (auto split: prod.splits)
  obtain a b where "th1 = th\<lparr>trc := a\<rparr>" "th' = th1\<lparr>trc := b\<rparr>"
    using emit_line_frame [OF e] Cons.IH [OF w2(1)] by blast
  then have "th' = th\<lparr>trc := trc th'\<rparr>" by simp
  moreover have "\<forall>x\<in>set w. fst x = st" using emit_line_frame [OF e] Cons.IH [OF w2(1)] w2(2) by auto
  ultimately show ?case by blast
qed simp

lemma emit_lines_keep: "emit_lines env st False th ls = (th', w) \<Longrightarrow> trc th' = trc th"
proof (induction ls arbitrary: th w)
  case (Cons l ls)
  obtain th1 w1 where e: "emit_line env st False th l = (th1, w1)" by force
  then have "trc th1 = trc th" by (auto simp: emit_line_def Let_def)
  moreover obtain w2 where "emit_lines env st False th1 ls = (th', w2)"
    using Cons.prems e by (auto split: prod.splits)
  ultimately show ?case using Cons.IH by simp
qed simp

lemma handle_stderr_spec:
  assumes "cbuf_is_valid (terrbuf th)"
  shows "\<exists>rc eev' th' ws. handle_rcmd_stderr mem env eev th = Some (rc, eev', th', ws) \<and>
    filter (\<lambda>w. fst w = Out) ws = [] \<and> toutbuf th' = toutbuf th \<and> cbuf_is_valid (terrbuf th') \<and>
    labelled env th' = labelled env th \<and> tkill th' = tkill th \<and> tsopt th' = tsopt th \<and> trc th' = trc th"
proof -
  obtain r nd eev' cb1 where w: "cbuf_write_from_fd mem (terrbuf th) (tefd th) eev (-1) = (r, nd, eev', cb1)"
    by (metis prod_cases4)
  obtain bs where "appended bs (terrbuf th) cb1"
    using cbuf_write_from_fd_spec [OF assms w] by blast
  then have v: "cbuf_is_valid cb1" by (simp add: appended_def)
  show ?thesis
  proof (cases r)
    case (Inl e)
    then show ?thesis using w v by (auto simp: handle_rcmd_stderr_def do_output_def)
  next
    case (Inr n)
    obtain ls rest where sl: "split_lines (unread cb1) = (ls, rest)" by force
    obtain th1 ws where e: "emit_lines env Err False th ls = (th1, ws)" by force
    obtain rc where rc: "th1 = th\<lparr>trc := rc\<rparr>" "\<forall>x\<in>set ws. fst x = Err" using emit_lines_frame [OF e] by blast
    from flush_lines_spec [OF v sl e, of "[]"] obtain cb2 where
      "flush_lines env cb1 Err False th [] = Some (cb2, th1, ws)" "cbuf_is_valid cb2" by auto
    then show ?thesis
      using Inr w rc emit_lines_keep [OF e] by (auto simp: handle_rcmd_stderr_def do_output_def filter_empty_conv)
  qed
qed

text \<open>What holds of a thread between two turns of the loop\<close>

definition thd_ok :: "thd \<Rightarrow> rd_event list \<Rightarrow> bool" where
  "thd_ok th oev \<longleftrightarrow> cbuf_is_valid (toutbuf th) \<and> cbuf_is_valid (terrbuf th) \<and>
     LF \<notin> set (unread (toutbuf th)) \<and>
     stream_ok (maxsize (toutbuf th)) (unread (toutbuf th) @ fd_rest oev)"

lemma rsh_loop_lines:
  assumes "rsh_loop mem env o0 e0 polls oev eev th ws = Some (oc, th', oev', eev', ws')"
    and "thd_ok th oev" "\<And>n. mem n" "\<not> tkill th"
  shows "\<exists>ls. filter (\<lambda>w. fst w = Out) ws' =
      filter (\<lambda>w. fst w = Out) ws @ concat (map (shown env th) ls) \<and> line_list ls \<and>
    unread (toutbuf th) @ fd_rest oev = concat ls @ unread (toutbuf th') @ fd_rest oev' \<and>
    thd_ok th' oev' \<and> labelled env th' = labelled env th \<and> \<not> tkill th' \<and> (\<exists>st. oc = Finished st) \<and>
    trc th' = lines_rc (trc th) ls"
  using assms(1,2,4)
proof (induction polls arbitrary: o0 e0 oev eev th ws)
  case Nil
  then have "\<not> o0 \<and> \<not> e0" by (subst (asm) rsh_loop.simps) (auto split: if_splits)
  then show ?case using Nil
    by (subst (asm) rsh_loop.simps) (auto simp: line_list_def lines_rc_def intro!: exI [of _ "[]"])
next
  case (Cons pe polls)
  show ?case
  proof (cases "\<not> o0 \<and> \<not> e0")
    case True
    then show ?thesis using Cons.prems
      by (subst (asm) rsh_loop.simps) (auto simp: line_list_def lines_rc_def intro!: exI [of _ "[]"])
  next
    case F: False
    show ?thesis
    proof (cases pe)
      case (PollIntr tmo)
      show ?thesis
      proof (cases tmo)
        case True
        then show ?thesis using Cons.prems F PollIntr
          by (subst (asm) rsh_loop.simps) (auto simp: line_list_def lines_rc_def intro!: exI [of _ "[]"])
      next
        case False
        then have "rsh_loop mem env o0 e0 polls oev eev th ws = Some (oc, th', oev', eev', ws')"
          using Cons.prems(1) F PollIntr by (subst (asm) rsh_loop.simps) auto
        from Cons.IH [OF this Cons.prems(2,3)] show ?thesis .
      qed
    next
      case PollErr
      then show ?thesis using Cons.prems F
        by (subst (asm) rsh_loop.simps) (auto simp: line_list_def lines_rc_def intro!: exI [of _ "[]"])
    next
      case (PollReady ro re)
      have "\<exists>rc1 oev1 th1 ls w1. (if o0 \<and> ro then handle_rcmd_stdout mem env oev th else Some (1, oev, th, [])) = Some (rc1, oev1, th1, w1) \<and>
        filter (\<lambda>w. fst w = Out) w1 = concat (map (shown env th) ls) \<and>
        unread (toutbuf th) @ fd_rest oev = concat ls @ unread (toutbuf th1) @ fd_rest oev1 \<and> line_list ls \<and>
        LF \<notin> set (unread (toutbuf th1)) \<and> cbuf_is_valid (toutbuf th1) \<and>
        maxsize (toutbuf th1) = maxsize (toutbuf th) \<and> labelled env th1 = labelled env th \<and>
        terrbuf th1 = terrbuf th \<and> tkill th1 = tkill th \<and> tsopt th1 = tsopt th \<and> trc th1 = lines_rc (trc th) ls"
      proof (cases "o0 \<and> ro")
        case True
        have ok: "cbuf_is_valid (toutbuf th)" "LF \<notin> set (unread (toutbuf th))"
          "stream_ok (maxsize (toutbuf th)) (unread (toutbuf th) @ fd_rest oev)"
          using Cons.prems(2) by (simp_all add: thd_ok_def)
        show ?thesis using handle_stdout_spec [where mem = mem and env = env, OF ok(1,2) assms(3) ok(3)] True by simp blast
      next
        case False
        then have "(if o0 \<and> ro then handle_rcmd_stdout mem env oev th else Some (1, oev, th, [])) = Some (1, oev, th, [])"
          by (rule if_not_P)
        then show ?thesis using Cons.prems(2)
          by (intro exI [of _ 1] exI [of _ oev] exI [of _ th] exI [of _ "[]"]) (simp add: line_list_def lines_rc_def thd_ok_def)
      qed
      then obtain rc1 oev1 th1 ls w1 where h1: "(if o0 \<and> ro then handle_rcmd_stdout mem env oev th else Some (1, oev, th, [])) = Some (rc1, oev1, th1, w1)"
        "filter (\<lambda>w. fst w = Out) w1 = concat (map (shown env th) ls)"
        "unread (toutbuf th) @ fd_rest oev = concat ls @ unread (toutbuf th1) @ fd_rest oev1" "line_list ls"
        "LF \<notin> set (unread (toutbuf th1))" "cbuf_is_valid (toutbuf th1)"
        "maxsize (toutbuf th1) = maxsize (toutbuf th)" "labelled env th1 = labelled env th"
        "terrbuf th1 = terrbuf th" "tkill th1 = tkill th" "tsopt th1 = tsopt th" "trc th1 = lines_rc (trc th) ls" by blast
      have "cbuf_is_valid (terrbuf th1)" using Cons.prems(2) h1(9) by (simp add: thd_ok_def)
      from handle_stderr_spec [OF this, of mem env eev]
      have "\<exists>rc2 eev2 th2 w2. (if tsopt th1 \<and> e0 \<and> re then handle_rcmd_stderr mem env eev th1 else Some (1, eev, th1, [])) = Some (rc2, eev2, th2, w2) \<and>
        filter (\<lambda>w. fst w = Out) w2 = [] \<and> toutbuf th2 = toutbuf th1 \<and> cbuf_is_valid (terrbuf th2) \<and>
        labelled env th2 = labelled env th1 \<and> tkill th2 = tkill th1 \<and> trc th2 = trc th1"
        using \<open>cbuf_is_valid (terrbuf th1)\<close> by (cases "tsopt th1 \<and> e0 \<and> re") auto
      then obtain rc2 eev2 th2 w2 where h2: "(if tsopt th1 \<and> e0 \<and> re then handle_rcmd_stderr mem env eev th1 else Some (1, eev, th1, [])) = Some (rc2, eev2, th2, w2)"
        "filter (\<lambda>w. fst w = Out) w2 = []" "toutbuf th2 = toutbuf th1" "cbuf_is_valid (terrbuf th2)"
        "labelled env th2 = labelled env th1" "tkill th2 = tkill th1" "trc th2 = trc th1" by blast
      have step: "rsh_loop mem env (o0 \<and> rc1 > 0) (e0 \<and> rc2 > 0) polls oev1 eev2 th2 (ws @ w1 @ w2) = Some (oc, th', oev', eev', ws')"
        using Cons.prems(1,3) F h2(6) h1(10)
        by (subst (asm) rsh_loop.simps) (simp add: PollReady h1(1) h2(1))
      have "stream_ok (maxsize (toutbuf th)) (unread (toutbuf th1) @ fd_rest oev1)"
        using stream_ok_rest [of _ ls] Cons.prems(2) h1(3,4) by (simp add: thd_ok_def line_list_def)
      then have ok2: "thd_ok th2 oev1" using h1 h2 by (simp add: thd_ok_def)
      have "\<not> tkill th2" using h1(10) h2(6) Cons.prems(3) by simp
      from Cons.IH [OF step ok2 this] obtain ls2 where ls2:
        "filter (\<lambda>w. fst w = Out) ws' = filter (\<lambda>w. fst w = Out) (ws @ w1 @ w2) @ concat (map (shown env th2) ls2)"
        "line_list ls2" "unread (toutbuf th2) @ fd_rest oev1 = concat ls2 @ unread (toutbuf th') @ fd_rest oev'"
        "thd_ok th' oev'" "labelled env th' = labelled env th2" "\<not> tkill th'" "\<exists>st. oc = Finished st"
        "trc th' = lines_rc (trc th2) ls2" by blast
      show ?thesis
        using ls2 h1(2,3,4,8,12) h2(2,3,5,7) shown_cong [of env th2 th]
        by (intro exI [of _ "ls @ ls2"]) (auto simp: line_list_def lines_rc_append)
    qed
  qed
qed

section \<open>The end of a thread\<close>

abbreviation said :: "out_call list \<Rightarrow> string" where
  "said ws \<equiv> concat (map (\<lambda>w. the (snd w)) ws)"

lemma flush_rest_spec:
  assumes "cbuf_is_valid cb"
  shows "\<exists>cb' w. flush_rest env cb st th labeled ws = Some (cb', ws @ w) \<and> unread cb' = [] \<and>
    (NUL \<notin> set (unread cb) \<longrightarrow>
      said w = (if tlabels th \<and> \<not> labeled \<and> unread cb \<noteq> [] then percent_S env (thost th) @ '': '' else []) @ unread cb) \<and>
    (\<forall>x\<in>set w. fst x = st \<and> snd x \<noteq> None)"
  using assms
proof (induction "length (unread cb)" arbitrary: cb labeled ws rule: less_induct)
  case less
  obtain q out cb1 where r: "cbuf_read cb (Some (replicate 8192 NUL)) 8191 = (q, out, cb1)" by (metis prod_cases3)
  have "(0::int) \<le> 8191" by simp
  note R = cbuf_read_spec [OF less.prems(1) this r]
  have u: "used cb = int (length (unread cb))" using cbuf_valid_range(5) [OF less.prems(1)] by simp
  show ?case
  proof (cases "unread cb = []")
    case True
    then have "q = Inr 0" "unread cb1 = []" using R(1,3) unfolding u by simp_all
    then show ?thesis using True by (subst flush_rest.simps) (simp add: r)
  next
    case False
    define n where "n = min 8191 (int (length (unread cb)))"
    have n: "q = Inr n" "0 < n" "n = min 8191 (int (length (unread cb)))"
      using R(1) False unfolding u by (simp_all only: n_def) (simp del: length_unread)
    let ?t = "take 8191 (unread cb)"
    have tk: "take (nat n) (the out) = ?t"
    proof -
      have "nat (min 8191 (int k)) = min 8191 k" for k by arith
      then have "nat n = length ?t" unfolding n(3) by (simp add: min.commute del: length_unread)
      moreover have "the out = ?t @ drop (length ?t) (replicate 8192 NUL)" using R(2) by (simp add: store_at_def)
      ultimately show ?thesis by (simp only: append_eq_conv_conj [THEN iffD1, OF refl, THEN conjunct1] take_append diff_self_eq_0 take_0 append_Nil2 order_refl take_all)
    qed
    have c: "cstr ?t = ?t" if "NUL \<notin> set (unread cb)" using that by (meson cstr_id in_set_takeD)
    have "length (unread cb1) < length (unread cb)" using R(3) False by (cases "unread cb") simp_all
    moreover have no_label: "(if tlabels th \<and> \<not> (labeled \<or> tlabels th) \<and> unread cb1 \<noteq> [] then p else []) = []"
      for p :: string by auto
    moreover define w1 where "w1 = (if tlabels th \<and> \<not> labeled then [(st, verr env ''%S: '' [Str (thost th)])] else [])
        @ [(st, verr env ''%s'' [Str (cstr ?t)])]"
    ultimately obtain cb' w where w: "flush_rest env cb1 st th (labeled \<or> tlabels th) (ws @ w1) = Some (cb', (ws @ w1) @ w)"
      "unread cb' = []" "NUL \<notin> set (unread cb1) \<longrightarrow> said w = unread cb1" "\<forall>x\<in>set w. fst x = st \<and> snd x \<noteq> None"
      using less.hyps [OF _ R(4), of "labeled \<or> tlabels th" "ws @ w1", unfolded no_label append_Nil] by blast
    have "flush_rest env cb st th labeled ws = flush_rest env cb1 st th (labeled \<or> tlabels th) (ws @ w1)"
      using n(1,2) by (subst flush_rest.simps) (simp add: r tk w1_def)
    moreover have "said w1 = (if tlabels th \<and> \<not> labeled then percent_S env (thost th) @ '': '' else []) @ cstr ?t"
      by (simp add: w1_def verr_label verr_text)
    moreover have "?t @ unread cb1 = unread cb" "NUL \<notin> set (unread cb) \<longrightarrow> NUL \<notin> set (unread cb1)"
      using R(3) by (auto dest: in_set_dropD)
    moreover have "\<forall>x\<in>set w1. fst x = st \<and> snd x \<noteq> None" by (simp add: w1_def verr_label verr_text)
    ultimately show ?thesis using w c False by (intro exI [of _ cb'] exI [of _ "w1 @ w"]) auto
  qed
qed

lemma flush_output_spec:
  assumes "cbuf_is_valid cb" "LF \<notin> set (unread cb)"
  shows "\<exists>cb' w. flush_output env cb st t0 th = Some (cb', w) \<and> unread cb' = [] \<and>
    (NUL \<notin> set (unread cb) \<longrightarrow> said w = (if unread cb = [] then [] else labelled env th (unread cb))) \<and>
    (\<forall>x\<in>set w. fst x = st \<and> snd x \<noteq> None)"
proof -
  have "split_lines (unread cb) = ([], unread cb)" by (rule split_lines_none [OF assms(2)])
  from flush_lines_spec [OF assms(1) this, of env st False t0 t0 "[]" "[]"] obtain cb1 where
    "flush_lines env cb st False t0 [] = Some (cb1, t0, [])" "cbuf_is_valid cb1" "unread cb1 = unread cb" by auto
  then show ?thesis
    using flush_rest_spec [of cb1 env st th False "[]"] by (auto simp: flush_output_def labelled_def)
qed

lemma flush_output_frame:
  assumes "cbuf_is_valid cb" "flush_output env cb st t0 th = Some (cb', w)"
  shows "\<forall>x\<in>set w. fst x = st"
proof -
  obtain ls rest where sl: "split_lines (unread cb) = (ls, rest)" by force
  obtain th1 ws where e: "emit_lines env st False t0 ls = (th1, ws)" by force
  from flush_lines_spec [OF assms(1) sl e, of "[]"] obtain cb1 where
    f: "flush_lines env cb st False t0 [] = Some (cb1, th1, ws)" "cbuf_is_valid cb1" by auto
  from flush_rest_spec [OF f(2), of env st th False ws] obtain cb2 w1 where
    r: "flush_rest env cb1 st th False ws = Some (cb2, ws @ w1)" "\<forall>x\<in>set w1. fst x = st" by blast
  then have "w = ws @ w1" using assms(2) f(1) by (simp add: flush_output_def)
  then show ?thesis using r(2) emit_lines_frame [OF e] by auto
qed

lemma rsh_thread_lines:
  assumes "rsh_thread mem env t0 polls oev eev drc th = Some (oc, th', oev', eev', ws)"
    and "0 \<le> tfd th" "tstate th \<noteq> DSH_CANCELED" "\<not> tkill th" "\<And>n. mem n"
    and "thd_ok th oev" "unread (toutbuf th) = []"
  shows "\<exists>ls r w st. oc = Finished st \<and> fd_rest oev = concat ls @ r @ fd_rest oev' \<and> line_list ls \<and> LF \<notin> set r \<and>
    filter (\<lambda>w. fst w = Out) ws = concat (map (shown env th) ls) @ w \<and>
    (NUL \<notin> set r \<longrightarrow> said w = (if r = [] then [] else labelled env th r)) \<and>
    trc th' = (let rc = lines_rc (trc th) ls in if rc = 0 \<and> drc > 0 then drc else rc)"
proof -
  have f: "tfd th \<noteq> -1" using assms(2) by simp
  obtain out th1 oev1 eev1 w0 where l: "rsh_loop mem env (tfd th \<ge> 0) (tsopt th \<and> tefd th \<ge> 0) polls oev eev
      (th\<lparr>tstate := DSH_READING\<rparr>) [] = Some (out, th1, oev1, eev1, w0)"
    using assms(1) f assms(3) by (fastforce simp: rsh_thread_def split: option.splits)
  have "thd_ok (th\<lparr>tstate := DSH_READING\<rparr>) oev" "\<not> tkill (th\<lparr>tstate := DSH_READING\<rparr>)"
    using assms(4,6) by (simp_all add: thd_ok_def)
  moreover have "shown env (th\<lparr>tstate := x\<rparr>) = shown env th" for x by (rule shown_cong) simp
  ultimately have "\<exists>ls. filter (\<lambda>w. fst w = Out) w0 = concat (map (shown env th) ls) \<and> line_list ls \<and>
    fd_rest oev = concat ls @ unread (toutbuf th1) @ fd_rest oev1 \<and> thd_ok th1 oev1 \<and>
    labelled env th1 = labelled env th \<and> \<not> tkill th1 \<and> (\<exists>st. out = Finished st) \<and> trc th1 = lines_rc (trc th) ls"
    using rsh_loop_lines [OF l _ assms(5)] assms(7) by simp
  then obtain ls st where ls:
    "filter (\<lambda>w. fst w = Out) w0 = concat (map (shown env th) ls)" "line_list ls"
    "fd_rest oev = concat ls @ unread (toutbuf th1) @ fd_rest oev1" "thd_ok th1 oev1"
    "labelled env th1 = labelled env th" "\<not> tkill th1" "out = Finished st" "trc th1 = lines_rc (trc th) ls"
    by blast
  let ?th = "th1\<lparr>tstate := st\<rparr>" and ?r = "unread (toutbuf th1)"
  have ok: "cbuf_is_valid (toutbuf ?th)" "cbuf_is_valid (terrbuf ?th)" "LF \<notin> set ?r"
    using ls(4) by (auto simp: thd_ok_def)
  have lb: "labelled env ?th = labelled env th" using ls(5) by simp
  obtain ob w1 where w1: "flush_output env (toutbuf ?th) Out t0 ?th = Some (ob, w1)"
    "NUL \<notin> set ?r \<longrightarrow> said w1 = (if ?r = [] then [] else labelled env th ?r)" "\<forall>x\<in>set w1. fst x = Out \<and> snd x \<noteq> None"
    using flush_output_spec [of "toutbuf ?th" env Out t0 ?th, unfolded lb] ok by auto
  obtain eb w2 where w2: "flush_output env (terrbuf ?th) Err t0 ?th = Some (eb, w2)"
    using assms(1) f assms(3) l ls(7) w1(1) by (fastforce simp: rsh_thread_def Let_def split: option.splits)
  have "filter (\<lambda>w. fst w = Out) w2 = []" using flush_output_frame [OF ok(2) w2] by (auto simp: filter_empty_conv)
  moreover have "filter (\<lambda>w. fst w = Out) w1 = w1" using w1(3) by (simp add: filter_id_conv)
  moreover have "oc = Finished st" "oev' = oev1" "ws = w0 @ w1 @ w2"
    "trc th' = (if trc th1 = 0 \<and> drc > 0 then drc else trc th1)"
    using assms(1) f assms(3) l ls(6,7) w1(1) w2 by (auto simp: rsh_thread_def Let_def)
  ultimately show ?thesis
    using ls(1-3,8) ok(3) w1(2) by (intro exI [of _ ls] exI [of _ ?r] exI [of _ w1] exI [of _ st]) (simp add: Let_def)
qed

section \<open>The return code\<close>

lemma strstr_magic: "strstr (s @ RC_MAGIC @ t) RC_MAGIC \<noteq> None"
  by (induction s) (auto simp: RC_MAGIC_def)

lemma take_append_prefix: "length s \<le> n \<Longrightarrow> take n (s @ t) = s @ take (n - length s) t"
  by simp

text \<open>No earlier occurrence: the text in front has no \<open>X\<close>, with which the mark begins.\<close>

lemma strstr_first:
  assumes "CHR ''X'' \<notin> set s"
  shows "strstr (s @ RC_MAGIC @ t) RC_MAGIC = Some (length s)"
  using assms by (induction s) (auto simp: RC_MAGIC_def)

lemma atoi_dec:
  assumes "n < 2 ^ 31"
  shows "atoi (dec n @ [LF]) = int n"
proof -
  obtain c cs where d: "dec n = c # cs" by (cases "dec n") auto
  have c: "isdigit c" "c \<noteq> CHR ''-''" "c \<noteq> CHR ''+''" "\<not> isspace c"
    using dec_digits [of c n] d isdigit_not_space by (auto simp: isdigit_iff)
  have "\<not> isdigit LF" by (simp add: isdigit_iff LF_def)
  then have tk: "takeWhile isdigit (dec n @ [LF]) = dec n"
    using dec_digits [of _ n] by (simp add: takeWhile_append2)
  have dw: "dropWhile isspace (dec n @ [LF]) = dec n @ [LF]" using c d by simp
  have sg: "(case dec n @ [LF] of c # cs \<Rightarrow> if c = CHR ''-'' then (True, cs)
      else if c = CHR ''+'' then (False, cs) else (False, dec n @ [LF]) | [] \<Rightarrow> (False, dec n @ [LF])) = (False, dec n @ [LF])"
    using c d by simp
  have m: "min (2 ^ 63 - 1) (int n) = int n" using assms by simp
  have "sint (word_of_int (int n) :: 32 word) = int n"
  proof -
    have "uint (word_of_int (int n) :: 32 word) = int n"
      using assms by (simp only: uint_word_of_int) simp
    then show ?thesis using assms by (simp add: sint_uint signed_take_bit_int_eq_self)
  qed
  then show ?thesis unfolding atoi_def dw Let_def sg case_prod_conv tk dec_val_dec if_False m .
qed

lemma extract_rc_line:
  assumes "n < 2 ^ 31"
  shows "extract_rc (RC_MAGIC @ dec n @ [LF]) = (int n, [])"
  using strstr_first [of "[]" "dec n @ [LF]"] atoi_dec [OF assms] by (simp add: extract_rc_def)

text \<open>Behind other text of the line the first digit is skipped.\<close>

lemma extract_rc_behind_text:
  assumes "s \<noteq> []" "CHR ''X'' \<notin> set s"
  shows "extract_rc (s @ RC_MAGIC @ dec n @ [LF]) = (atoi (tl (dec n) @ [LF]), s @ [LF])"
proof -
  have "strstr (s @ RC_MAGIC @ dec n @ [LF]) RC_MAGIC = Some (length s)" by (rule strstr_first [OF assms(2)])
  moreover have "drop (length s + 1 + length RC_MAGIC) (s @ RC_MAGIC @ dec n @ [LF]) = tl (dec n) @ [LF]"
    by (cases "dec n") simp_all
  ultimately show ?thesis using assms(1) by (simp add: extract_rc_def Let_def)
qed

end
