(* ===== verification/Dsh_Drain.thy ===== *)
theory Dsh_Drain
  imports Dsh_Lines
begin

text \<open>
  The poll loop ends: as long as the connection answers, each report of \<open>xpoll\<close> takes
  something off the descriptor it reports or closes it, and what has been taken off is everything.
\<close>

section \<open>Descriptors that fail only for lack of data\<close>

definition reads_ok :: "rd_event list \<Rightarrow> bool" where
  "reads_ok ev \<longleftrightarrow> list_all (\<lambda>e. e \<noteq> RdData [] \<and> (\<forall>x. e = RdErr x \<longrightarrow> x = EAGAIN)) ev"

definition pauses :: "rd_event list \<Rightarrow> nat" where
  "pauses ev = length (filter (\<lambda>e. \<exists>x. e = RdErr x) ev)"

definition work :: "rd_event list \<Rightarrow> nat" where
  "work ev = length (fd_rest ev) + pauses ev"

lemma get_fd_ok:
  assumes "cbuf_get_fd ev n = (r, ev')" "reads_ok ev" "0 < n"
  shows "reads_ok ev' \<and> pauses ev' \<le> pauses ev \<and>
    (\<forall>e. r = Inl e \<longrightarrow> e = EAGAIN \<and> pauses ev' < pauses ev) \<and> (r = Inr [] \<longrightarrow> ev' = [])"
  using assms
  by (induction ev n rule: cbuf_get_fd.induct) (auto simp: reads_ok_def pauses_def split: if_splits)

lemma get_fd_length: "cbuf_get_fd ev n = (Inr bs, ev') \<Longrightarrow> 0 < n \<Longrightarrow> int (length bs) \<le> n"
  using cbuf_get_fd_ok by blast

lemma writer_loop_ok:
  assumes "writer_loop cbuf_get_fd ev d i len m0 = (ev', d', i', nl, m)"
    and "reads_ok ev" "0 \<le> i" "i < int (length d)"
  shows "reads_ok ev' \<and> pauses ev' \<le> pauses ev \<and> nl \<le> len \<and>
    (0 < len \<and> nl = len \<longrightarrow> m = Inl EAGAIN \<and> pauses ev' < pauses ev \<or> m = Inr 0 \<and> ev' = [])"
  using assms
proof (induction "nat len" arbitrary: ev d i len m0 rule: less_induct)
  case less
  show ?case
  proof (cases "len \<le> 0")
    case True
    then show ?thesis using less.prems by (simp add: writer_loop.simps [of cbuf_get_fd])
  next
    case False
    define n where "n = min len (int (length d) - i)"
    have n: "0 < n" "n \<le> len" "n \<le> int (length d) - i" using False less.prems(4) by (auto simp: n_def)
    obtain r ev1 where g: "cbuf_get_fd ev n = (r, ev1)" by force
    note G = get_fd_ok [OF g less.prems(2) n(1)]
    show ?thesis
    proof (cases r)
      case (Inl e)
      then have "(ev', d', i', nl, m) = (ev1, d, i, len, Inl e)"
        using less.prems(1) False g by (simp add: writer_loop.simps [of cbuf_get_fd ev] n_def [symmetric])
      then show ?thesis using G Inl by simp
    next
      case (Inr bs)
      have bn: "int (length bs) \<le> n" using get_fd_length [of ev n bs ev1] g n(1) Inr by simp
      show ?thesis
      proof (cases "bs = []")
        case True
        then have "(ev', d', i', nl, m) = (ev1, d, i, len, Inr 0)"
          using less.prems(1) False g Inr by (simp add: writer_loop.simps [of cbuf_get_fd ev] n_def [symmetric])
        then show ?thesis using G Inr True by auto
      next
        case ne: False
        have lb: "length (blit d i bs) = length d"
          using bn n(3) less.prems(3) by simp
        show ?thesis
        proof (cases "n = int (length bs)")
          case True
          then have rec: "writer_loop cbuf_get_fd ev1 (blit d i bs) ((i + n) mod int (length d)) (len - n) (Inr n) = (ev', d', i', nl, m)"
            using less.prems(1) False g Inr ne
            by (simp add: writer_loop.simps [of cbuf_get_fd ev] n_def [symmetric] Let_def)
          have "0 < int (length d)" using less.prems(3,4) by linarith
          then have "0 \<le> (i + n) mod int (length d)" "(i + n) mod int (length d) < int (length (blit d i bs))"
            by (simp_all add: lb)
          moreover have "nat (len - n) < nat len" using n(1) False by simp
          ultimately have "reads_ok ev' \<and> pauses ev' \<le> pauses ev1 \<and> nl \<le> len - n"
            using less.hyps [OF _ rec] G by blast
          then show ?thesis using G n(1) by simp
        next
          case F: False
          then have "(ev', d', i', nl, m) = (ev1, blit d i bs, (i + int (length bs)) mod int (length d), len - int (length bs), Inr (int (length bs)))"
            using less.prems(1) False g Inr ne
            by (simp add: writer_loop.simps [of cbuf_get_fd ev] n_def [symmetric] Let_def)
          then show ?thesis using G ne by simp
        qed
      qed
    qed
  qed
qed

lemma writer_ok:
  assumes "cbuf_is_valid cb" "overwrite cb = CBUF_WRAP_MANY" "0 < len" "reads_ok ev"
    and "cbuf_writer mem cb len cbuf_get_fd ev nd0 = (r, nd, ev', cb')"
  shows "reads_ok ev' \<and> pauses ev' \<le> pauses ev \<and>
    ((\<exists>n. r = Inr n \<and> 0 < n) \<or> r = Inl EAGAIN \<and> pauses ev' < pauses ev \<or> r = Inr 0 \<and> ev' = [])"
proof -
  obtain g c where c: "(if len > bsize cb - used cb \<and> bsize cb < maxsize cb
      then cbuf_grow mem cb (len - (bsize cb - used cb)) else (0, cb)) = (g, c)"
    by (meson surj_pair)
  note grown = cbuf_grow_if [OF assms(1) c]
  have ow: "overwrite c = CBUF_WRAP_MANY" using grown assms(2) by simp
  obtain s1 d i nl m where loop: "writer_loop cbuf_get_fd ev (data c) (i_in c) len (Inr 0) = (s1, d, i, nl, m)"
    by (metis prod_cases5)
  have v: "0 \<le> i_in c" "i_in c < int (length (data c))"
    using cbuf_valid_range [OF grown(1)] cbuf_valid_length [OF grown(1)] by auto
  note L = writer_loop_ok [OF loop assms(4) v]
  have "(r, ev') = (if len - nl = 0 then m else Inr (len - nl), s1)"
    using assms(5) unfolding cbuf_writer_def Let_def c case_prod_conv ow cbuf_overwrite_t.case loop
    by (auto split: if_splits)
  then show ?thesis using L assms(3) by auto
qed

lemma write_from_fd_ok:
  assumes "cbuf_is_valid cb" "overwrite cb = CBUF_WRAP_MANY" "0 \<le> fd" "reads_ok ev"
    and "cbuf_write_from_fd mem cb fd ev (-1) = (r, nd, ev', cb')"
  shows "reads_ok ev' \<and> work ev' \<le> work ev \<and>
    ((\<exists>n. r = Inr n \<and> 0 < n) \<and> work ev' < work ev \<or> r = Inl EAGAIN \<and> work ev' < work ev \<or> r = Inr 0 \<and> ev' = [])"
proof -
  define l where "l = (let nfree = bsize cb - used cb in if nfree = 0 then min (bsize cb) CBUF_CHUNK else nfree)"
  have l: "0 < l" using cbuf_valid_range [OF assms(1)] by (auto simp: l_def Let_def CBUF_CHUNK_def)
  then have "cbuf_writer mem cb l cbuf_get_fd ev 0 = (r, nd, ev', cb')"
    using assms(3,5) by (simp add: cbuf_write_from_fd_def l_def [symmetric] Let_def [of "-1"])
  note W = writer_ok [OF assms(1,2) l assms(4) this]
  obtain bs where bs: "fd_rest ev = bs @ fd_rest ev'" "bs = [] \<Longrightarrow> r = Inr 0 \<or> (\<exists>e. r = Inl e)"
    using cbuf_write_from_fd_spec [OF assms(1,5)] by blast
  show ?thesis
  proof (cases "\<exists>n. r = Inr n \<and> 0 < n")
    case True
    then have "bs \<noteq> []" using bs(2) by auto
    then have "work ev' < work ev" using W bs(1) by (cases bs) (auto simp: work_def)
    then show ?thesis using True W by simp
  next
    case False
    then show ?thesis using W bs(1) by (auto simp: work_def)
  qed
qed

section \<open>One answer of a descriptor\<close>

lemma do_output_ok:
  assumes "cbuf_is_valid cb" "overwrite cb = CBUF_WRAP_MANY" "0 \<le> fd" "reads_ok ev"
  shows "\<exists>rc ev' cb' q ws. do_output mem env fd ev cb st rr th = Some (rc, ev', cb', th\<lparr>trc := q\<rparr>, ws) \<and>
    reads_ok ev' \<and> work ev' \<le> work ev \<and> (0 < rc \<and> work ev' < work ev \<or> rc = 0 \<and> ev' = []) \<and>
    cbuf_is_valid cb' \<and> overwrite cb' = CBUF_WRAP_MANY"
proof -
  obtain r nd ev' cb1 where w: "cbuf_write_from_fd mem cb fd ev (-1) = (r, nd, ev', cb1)"
    by (metis prod_cases4)
  note W = write_from_fd_ok [OF assms w]
  obtain bs where "appended bs cb cb1" using cbuf_write_from_fd_spec [OF assms(1) w] by blast
  then have cb1: "cbuf_is_valid cb1" "overwrite cb1 = CBUF_WRAP_MANY" using assms(2) by (simp_all add: appended_def)
  show ?thesis
  proof (cases r)
    case (Inl e)
    then show ?thesis using W w cb1 by (intro exI [of _ 1] exI [of _ ev'] exI [of _ cb1] exI [of _ "trc th"]) (simp add: do_output_def)
  next
    case (Inr n)
    obtain ls rest where sl: "split_lines (unread cb1) = (ls, rest)" by force
    obtain th1 ws where e: "emit_lines env st rr th ls = (th1, ws)" by force
    from flush_lines_spec [OF cb1(1) sl e, of "[]"] obtain cb2 where
      "flush_lines env cb1 st rr th [] = Some (cb2, th1, ws)" "cbuf_is_valid cb2" "overwrite cb2 = overwrite cb1" by auto
    moreover obtain q where "th1 = th\<lparr>trc := q\<rparr>" using emit_lines_frame [OF e] by blast
    ultimately show ?thesis using Inr W w cb1 by (auto simp: do_output_def)
  qed
qed

section \<open>The loop\<close>

definition out_ok :: "thd \<Rightarrow> bool" where
  "out_ok th \<longleftrightarrow> cbuf_is_valid (toutbuf th) \<and> overwrite (toutbuf th) = CBUF_WRAP_MANY \<and>
     cbuf_is_valid (terrbuf th) \<and> overwrite (terrbuf th) = CBUF_WRAP_MANY"

text \<open>
  \<open>xpoll\<close> is interrupted at most by signals that do not end the command; each answer reports
  either descriptor, both or none, in any order. How many report the one and the other
\<close>

definition undisturbed :: "poll_event list \<Rightarrow> bool" where
  "undisturbed polls \<longleftrightarrow> PollErr \<notin> set polls \<and> PollIntr True \<notin> set polls"

fun reports_out :: "poll_event \<Rightarrow> bool" where
  "reports_out (PollReady ro re) = ro"
| "reports_out _ = False"

fun reports_err :: "poll_event \<Rightarrow> bool" where
  "reports_err (PollReady ro re) = re"
| "reports_err _ = False"

definition out_reports :: "poll_event list \<Rightarrow> nat" where
  "out_reports polls = length (filter reports_out polls)"

definition err_reports :: "poll_event list \<Rightarrow> nat" where
  "err_reports polls = length (filter reports_err polls)"

text \<open>What one report of a descriptor does, with the descriptor open and reported or not\<close>

lemma stdout_answer:
  assumes "out_ok th" "reads_ok oev" "o0 \<Longrightarrow> 0 \<le> tfd th"
  shows "\<exists>rc oev1 th1 w. (if o0 \<and> ro then handle_rcmd_stdout mem env oev th else Some (1, oev, th, [])) = Some (rc, oev1, th1, w) \<and>
    reads_ok oev1 \<and> work oev1 \<le> work oev \<and>
    (o0 \<and> 0 < rc \<longrightarrow> (ro \<longrightarrow> work oev1 < work oev) \<and> tfd th1 = tfd th) \<and> (o0 \<and> \<not> 0 < rc \<longrightarrow> oev1 = []) \<and> (\<not> o0 \<longrightarrow> oev1 = oev) \<and>
    out_ok th1 \<and> tkill th1 = tkill th \<and> tsopt th1 = tsopt th \<and> tefd th1 = tefd th"
proof (cases "o0 \<and> ro")
  case True
  have ok: "cbuf_is_valid (toutbuf th)" "overwrite (toutbuf th) = CBUF_WRAP_MANY"
    "cbuf_is_valid (terrbuf th)" "overwrite (terrbuf th) = CBUF_WRAP_MANY"
    using assms(1) by (simp_all add: out_ok_def)
  have fd: "0 \<le> tfd th" using assms(3) True by simp
  obtain rc oev1 cb1 q w1 where o: "do_output mem env (tfd th) oev (toutbuf th) Out True th = Some (rc, oev1, cb1, th\<lparr>trc := q\<rparr>, w1)"
    "reads_ok oev1" "work oev1 \<le> work oev" "0 < rc \<and> work oev1 < work oev \<or> rc = 0 \<and> oev1 = []"
    "cbuf_is_valid cb1" "overwrite cb1 = CBUF_WRAP_MANY"
    using do_output_ok [OF ok(1,2) fd assms(2)] by blast
  show ?thesis using True o(1-6) ok by (auto simp: handle_rcmd_stdout_def out_ok_def)
next
  case False
  then show ?thesis using assms(1,2) by auto
qed

lemma stderr_answer:
  assumes "out_ok th" "reads_ok eev" "e0 \<Longrightarrow> 0 \<le> tefd th \<and> tsopt th"
  shows "\<exists>rc eev1 th1 w. (if tsopt th \<and> e0 \<and> re then handle_rcmd_stderr mem env eev th else Some (1, eev, th, [])) = Some (rc, eev1, th1, w) \<and>
    reads_ok eev1 \<and> work eev1 \<le> work eev \<and>
    (e0 \<and> 0 < rc \<longrightarrow> (re \<longrightarrow> work eev1 < work eev) \<and> tefd th1 = tefd th) \<and> (e0 \<and> \<not> 0 < rc \<longrightarrow> eev1 = []) \<and> (\<not> e0 \<longrightarrow> eev1 = eev) \<and>
    out_ok th1 \<and> tkill th1 = tkill th \<and> tsopt th1 = tsopt th \<and> tfd th1 = tfd th"
proof (cases "e0 \<and> re")
  case True
  have ok: "cbuf_is_valid (terrbuf th)" "overwrite (terrbuf th) = CBUF_WRAP_MANY"
    "cbuf_is_valid (toutbuf th)" "overwrite (toutbuf th) = CBUF_WRAP_MANY"
    using assms(1) by (simp_all add: out_ok_def)
  have fd: "0 \<le> tefd th" "tsopt th" using assms(3) True by simp_all
  obtain rc eev1 cb1 q w1 where o: "do_output mem env (tefd th) eev (terrbuf th) Err False th = Some (rc, eev1, cb1, th\<lparr>trc := q\<rparr>, w1)"
    "reads_ok eev1" "work eev1 \<le> work eev" "0 < rc \<and> work eev1 < work eev \<or> rc = 0 \<and> eev1 = []"
    "cbuf_is_valid cb1" "overwrite cb1 = CBUF_WRAP_MANY"
    using do_output_ok [OF ok(1,2) fd(1) assms(2)] by blast
  show ?thesis using True o(1-6) ok fd by (auto simp: handle_rcmd_stderr_def out_ok_def)
next
  case False
  then show ?thesis using assms(1,2) by auto
qed

lemma rsh_loop_ends:
  assumes "undisturbed polls" "o0 \<Longrightarrow> work oev < out_reports polls" "e0 \<Longrightarrow> work eev < err_reports polls"
    and "out_ok th" "reads_ok oev" "reads_ok eev" "\<not> tkill th"
    and "o0 \<Longrightarrow> 0 \<le> tfd th" "e0 \<Longrightarrow> 0 \<le> tefd th \<and> tsopt th"
  shows "\<exists>th' oev' eev' ws'. rsh_loop mem env o0 e0 polls oev eev th ws = Some (Finished DSH_DONE, th', oev', eev', ws') \<and>
    (o0 \<longrightarrow> oev' = []) \<and> (\<not> o0 \<longrightarrow> oev' = oev) \<and>
    (e0 \<longrightarrow> eev' = []) \<and> (\<not> e0 \<longrightarrow> eev' = eev) \<and> out_ok th' \<and> \<not> tkill th'"
  using assms
proof (induction polls arbitrary: o0 e0 oev eev th ws)
  case Nil
  then have "\<not> o0 \<and> \<not> e0" by (auto simp: out_reports_def err_reports_def)
  then show ?case using Nil by (subst rsh_loop.simps) simp
next
  case (Cons pe polls)
  have und: "undisturbed polls" using Cons.prems(1) by (simp add: undisturbed_def)
  show ?case
  proof (cases "\<not> o0 \<and> \<not> e0")
    case True
    then show ?thesis using Cons.prems by (subst rsh_loop.simps) simp
  next
    case F: False
    show ?thesis
    proof (cases "pe = PollIntr False")
      case True
      have "o0 \<Longrightarrow> work oev < out_reports polls" "e0 \<Longrightarrow> work eev < err_reports polls"
        using Cons.prems(2,3) by (simp_all add: out_reports_def err_reports_def True)
      then show ?thesis
        using Cons.IH [of o0 oev e0 eev th ws] Cons.prems und True F by (subst rsh_loop.simps) auto
    next
      case False
      then obtain ro re where pe: "pe = PollReady ro re"
        using Cons.prems(1) by (cases pe) (auto simp: undisturbed_def)
      obtain rc1 oev1 th1 w1 where h1: "(if o0 \<and> ro then handle_rcmd_stdout mem env oev th else Some (1, oev, th, [])) = Some (rc1, oev1, th1, w1)"
        "reads_ok oev1" "work oev1 \<le> work oev"
        "o0 \<Longrightarrow> 0 < rc1 \<Longrightarrow> (ro \<longrightarrow> work oev1 < work oev) \<and> tfd th1 = tfd th" "o0 \<Longrightarrow> \<not> 0 < rc1 \<Longrightarrow> oev1 = []" "\<not> o0 \<Longrightarrow> oev1 = oev"
        "out_ok th1" "tkill th1 = tkill th" "tsopt th1 = tsopt th" "tefd th1 = tefd th"
        using stdout_answer [OF Cons.prems(4,5,8)] by blast
      have e1: "e0 \<Longrightarrow> 0 \<le> tefd th1 \<and> tsopt th1" using Cons.prems(9) h1(9,10) by simp
      obtain rc2 eev2 th2 w2 where h2: "(if tsopt th1 \<and> e0 \<and> re then handle_rcmd_stderr mem env eev th1 else Some (1, eev, th1, [])) = Some (rc2, eev2, th2, w2)"
        "reads_ok eev2" "work eev2 \<le> work eev"
        "e0 \<Longrightarrow> 0 < rc2 \<Longrightarrow> (re \<longrightarrow> work eev2 < work eev) \<and> tefd th2 = tefd th1" "e0 \<Longrightarrow> \<not> 0 < rc2 \<Longrightarrow> eev2 = []" "\<not> e0 \<Longrightarrow> eev2 = eev"
        "out_ok th2" "tkill th2 = tkill th1" "tsopt th2 = tsopt th1" "tfd th2 = tfd th1"
        using stderr_answer [OF h1(7) Cons.prems(6) e1] by blast
      have step: "rsh_loop mem env o0 e0 (pe # polls) oev eev th ws =
          rsh_loop mem env (o0 \<and> rc1 > 0) (e0 \<and> rc2 > 0) polls oev1 eev2 th2 (ws @ w1 @ w2)"
        by (subst rsh_loop.simps)
          (simp only: F if_False pe list.case poll_event.case h1(1) h2(1) option.case case_prod_conv,
            simp add: h1(8) h2(8) Cons.prems(7))
      have "work oev1 < out_reports polls" if "o0 \<and> rc1 > 0"
        using that h1(3,4) Cons.prems(2) by (cases ro) (auto simp: out_reports_def pe)
      moreover have "work eev2 < err_reports polls" if "e0 \<and> rc2 > 0"
        using that h2(3,4) Cons.prems(3) by (cases re) (auto simp: err_reports_def pe)
      moreover have "\<not> tkill th2" using h1(8) h2(8) Cons.prems(7) by simp
      moreover have "0 \<le> tfd th2" if "o0 \<and> rc1 > 0" using that h1(4) h2(10) Cons.prems(8) by auto
      moreover have "0 \<le> tefd th2 \<and> tsopt th2" if "e0 \<and> rc2 > 0" using that h2(4,9) e1 by auto
      ultimately obtain th' oev' eev' ws' where r:
        "rsh_loop mem env (o0 \<and> rc1 > 0) (e0 \<and> rc2 > 0) polls oev1 eev2 th2 (ws @ w1 @ w2) = Some (Finished DSH_DONE, th', oev', eev', ws')"
        "o0 \<and> rc1 > 0 \<longrightarrow> oev' = []" "\<not> (o0 \<and> rc1 > 0) \<longrightarrow> oev' = oev1" "e0 \<and> rc2 > 0 \<longrightarrow> eev' = []"
        "\<not> (e0 \<and> rc2 > 0) \<longrightarrow> eev' = eev2" "out_ok th'" "\<not> tkill th'"
        using Cons.IH [OF und _ _ h2(7) h1(2) h2(2), of "o0 \<and> rc1 > 0" "e0 \<and> rc2 > 0" "ws @ w1 @ w2"] by blast
      have "o0 \<longrightarrow> oev' = []" "\<not> o0 \<longrightarrow> oev' = oev" "e0 \<longrightarrow> eev' = []" "\<not> e0 \<longrightarrow> eev' = eev"
        using r(2-5) h1(5,6) h2(5,6) by auto
      then show ?thesis using r(1,6,7) unfolding step by blast
    qed
  qed
qed

section \<open>The thread\<close>

lemma flush_output_returns:
  assumes "cbuf_is_valid cb"
  shows "\<exists>cb' w. flush_output env cb st t0 th = Some (cb', w)"
proof -
  obtain ls rest where sl: "split_lines (unread cb) = (ls, rest)" by force
  obtain th1 ws where e: "emit_lines env st False t0 ls = (th1, ws)" by force
  from flush_lines_spec [OF assms sl e, of "[]"] obtain cb1 where
    f: "flush_lines env cb st False t0 [] = Some (cb1, th1, ws)" "cbuf_is_valid cb1" by auto
  from flush_rest_spec [OF f(2), of env st th False ws] show ?thesis using f(1) by (auto simp: flush_output_def)
qed

lemma rsh_thread_ends:
  assumes "0 \<le> tfd th" "tstate th \<noteq> DSH_CANCELED" "\<not> tkill th" "out_ok th" "tsopt th \<Longrightarrow> 0 \<le> tefd th"
    and "reads_ok oev" "reads_ok eev" "undisturbed polls"
    and "work oev < out_reports polls" "tsopt th \<Longrightarrow> work eev < err_reports polls"
  shows "\<exists>th' eev' ws. rsh_thread mem env t0 polls oev eev drc th = Some (Finished DSH_DONE, th', [], eev', ws)"
proof -
  let ?th = "th\<lparr>tstate := DSH_READING\<rparr>"
  have ok: "out_ok ?th" "\<not> tkill ?th" using assms(3,4) by (simp_all add: out_ok_def)
  obtain th' eev' ws where l: "rsh_loop mem env (0 \<le> tfd th) (tsopt th \<and> 0 \<le> tefd th) polls oev eev ?th [] =
      Some (Finished DSH_DONE, th', [], eev', ws)" "out_ok th'" "\<not> tkill th'"
    using rsh_loop_ends [where polls = polls and oev = oev and eev = eev and th = ?th and ws = "[]" and
        ?o0.0 = "0 \<le> tfd th" and ?e0.0 = "tsopt th \<and> 0 \<le> tefd th" and mem = mem and env = env] assms ok by fastforce
  obtain ob w1 where w1: "flush_output env (toutbuf th') Out t0 (th'\<lparr>tstate := DSH_DONE\<rparr>) = Some (ob, w1)"
    using flush_output_returns l(2) unfolding out_ok_def by blast
  obtain eb w2 where w2: "flush_output env (terrbuf th') Err t0 (th'\<lparr>tstate := DSH_DONE\<rparr>) = Some (eb, w2)"
    using flush_output_returns l(2) unfolding out_ok_def by blast
  show ?thesis using assms(1,2) l(1,3) by (simp add: rsh_thread_def Let_def w1 w2)
qed

end
