(* ===== verification/Dsh_Setup.thy ===== *)
theory Dsh_Setup
  imports Dsh_Drain
begin

text \<open>
  The straight-line parts of \<open>dsh()\<close> (\<open>pdsh/dsh.c\<close>): the command that is sent to the
  hosts, the entry of a host in the thread array, whether labels carry domains, and the exit
  value. The composition with the threads of \<open>Dsh_Output\<close> is at the end.
\<close>

section \<open>Options and the command\<close>

datatype pers_t = DSH | PCP

text \<open>The fields of \<open>opt_t\<close> that \<open>dsh()\<close> reads\<close>

record opt_t =
  labels :: bool
  separate_stderr :: bool
  kill_on_fail :: bool
  ret_remote_rc :: bool
  ocmd :: string
  dshpath :: "string option"
  getstat :: "string option"
  preserve :: bool
  recursive :: bool
  reverse_copy :: bool
  remote_program_path :: string
  infile_names :: "string list"
  outfile_name :: string

abbreviation cat :: "xstr option \<Rightarrow> string \<Rightarrow> xstr option" where
  "cat s t \<equiv> Some (xstrcat s t)"

definition prepend_path :: "pers_t \<Rightarrow> opt_t \<Rightarrow> opt_t" where
  "prepend_path p opt =
    (case dshpath opt of
       Some path \<Rightarrow> if p = DSH then opt\<lparr>ocmd := xtext (xstrcat (Strdup (Some path)) (ocmd opt))\<rparr> else opt
     | None \<Rightarrow> opt)"

definition append_getstat :: "pers_t \<Rightarrow> opt_t \<Rightarrow> opt_t" where
  "append_getstat p opt =
    (let opt = (if kill_on_fail opt \<or> ret_remote_rc opt
                then opt\<lparr>getstat := Some ('';echo '' @ RC_MAGIC @ ''$?'')\<rparr> else opt)
     in case getstat opt of
          Some g \<Rightarrow> if p = DSH then opt\<lparr>ocmd := xtext (xstrcat (Strdup (Some (ocmd opt))) g)\<rparr> else opt
        | None \<Rightarrow> opt)"

text \<open>The command of a copy; \<open>n\<close> is the number of files \<open>pcp_expand_dirs\<close> found.\<close>

definition copy_command :: "nat \<Rightarrow> opt_t \<Rightarrow> string" where
  "copy_command n opt =
    (let cmd = cat None (remote_program_path opt);
         cmd = (if recursive opt then cat cmd '' -r'' else cmd);
         cmd = (if preserve opt then cat cmd '' -p'' else cmd);
         cmd = (if n > 1 then cat cmd '' -y'' else cmd);
         cmd = cat cmd '' -z '';
         cmd = cat cmd (outfile_name opt)
     in xtext_of cmd)"

fun add_infiles :: "string list \<Rightarrow> xstr option \<Rightarrow> xstr option" where
  "add_infiles [] cmd = cmd"
| "add_infiles (f # fs) cmd = add_infiles fs (cat (cat cmd '' '') f)"

definition reverse_command :: "opt_t \<Rightarrow> string" where
  "reverse_command opt =
    (let cmd = cat None (remote_program_path opt);
         cmd = (if recursive opt then cat cmd '' -r'' else cmd);
         cmd = (if preserve opt then cat cmd '' -p'' else cmd);
         cmd = cat cmd '' -Z '';
         cmd = add_infiles (infile_names opt) cmd
     in xtext_of cmd)"

definition build_command :: "pers_t \<Rightarrow> nat \<Rightarrow> opt_t \<Rightarrow> opt_t" where
  "build_command p n opt =
    (let opt = append_getstat p (prepend_path p opt);
         opt = (if p = PCP \<and> \<not> reverse_copy opt then opt\<lparr>ocmd := copy_command n opt\<rparr> else opt)
     in if p = PCP \<and> reverse_copy opt then opt\<lparr>ocmd := reverse_command opt\<rparr> else opt)"

text \<open>The command of one copy thread\<close>

definition rcp_command :: "opt_t \<Rightarrow> string \<Rightarrow> string" where
  "rcp_command opt host =
    (if reverse_copy opt then xtext_of (cat (cat (cat None (ocmd opt)) '' '') host) else ocmd opt)"

lemma xtext_of_cat [simp]: "xtext_of (cat s t) = xtext_of s @ t"
  using xstrcat_spec [of s t] by (simp add: xtext_of_def)

lemma xtext_of_None [simp]: "xtext_of None = []"
  by (simp add: xtext_of_def)

lemma xtext_cat_Strdup: "xtext (xstrcat (Strdup (Some s)) t) = s @ t"
  using xstrcat_spec [of "Strdup (Some s)" t] by (simp add: Strdup_def xtext_of_def)

lemma add_infiles_text: "xtext_of (add_infiles fs cmd) = xtext_of cmd @ concat (map (\<lambda>f. '' '' @ f) fs)"
  by (induction fs arbitrary: cmd) auto

lemma build_command_dsh:
  "ocmd (build_command DSH n opt) = (case dshpath opt of None \<Rightarrow> [] | Some p \<Rightarrow> p) @ ocmd opt @
     (if kill_on_fail opt \<or> ret_remote_rc opt then '';echo '' @ RC_MAGIC @ ''$?''
      else case getstat opt of None \<Rightarrow> [] | Some g \<Rightarrow> g)"
  by (auto simp: build_command_def append_getstat_def prepend_path_def xtext_cat_Strdup Let_def
      simp del: append_assoc split: option.split)

lemma build_command_copy:
  "\<not> reverse_copy opt \<Longrightarrow> ocmd (build_command PCP n opt) = remote_program_path opt @
     (if recursive opt then '' -r'' else []) @ (if preserve opt then '' -p'' else []) @
     (if n > 1 then '' -y'' else []) @ '' -z '' @ outfile_name opt"
  by (auto simp: build_command_def append_getstat_def prepend_path_def copy_command_def Let_def split: option.split)

lemma build_command_reverse:
  "reverse_copy opt \<Longrightarrow> ocmd (build_command PCP n opt) = remote_program_path opt @
     (if recursive opt then '' -r'' else []) @ (if preserve opt then '' -p'' else []) @ '' -Z '' @
     concat (map (\<lambda>f. '' '' @ f) (infile_names opt))"
  by (auto simp: build_command_def append_getstat_def prepend_path_def reverse_command_def Let_def
      add_infiles_text split: option.split)

section \<open>The entries of the thread array\<close>

text \<open>\<open>rcmd_ok\<close>: \<open>rcmd_create\<close> found a module for the host.\<close>

definition thd_init :: "allocator \<Rightarrow> opt_t \<Rightarrow> bool \<Rightarrow> string \<Rightarrow> thd option" where
  "thd_init mem opt rcmd_ok host =
    (case (cbuf_create mem 64 131072, cbuf_create mem 64 131072) of
       (Inr ob, Inr eb) \<Rightarrow>
         Some \<lparr>tstate = (if rcmd_ok then DSH_NEW else DSH_CANCELED), thost = host, tlabels = labels opt,
               tsopt = separate_stderr opt, tkill = kill_on_fail opt, trc = 0, tfd = -1, tefd = -1,
               toutbuf = ob, terrbuf = eb\<rparr>
     | _ \<Rightarrow> None)"

text \<open>The loop that finds out whether the hosts have different domains\<close>

fun domain_loop :: "string option \<Rightarrow> bool \<Rightarrow> string list \<Rightarrow> bool" where
  "domain_loop domain in_label [] = in_label"
| "domain_loop domain in_label (h # hs) =
    (if \<not> in_label \<and> strchr h (CHR ''.'') then
       let d = dropWhile (\<lambda>c. c \<noteq> CHR ''.'') h
       in case domain of
            None \<Rightarrow> domain_loop (Some d) in_label hs
          | Some domain' \<Rightarrow> domain_loop domain (if d \<noteq> domain' then True else in_label) hs
     else domain_loop domain in_label hs)"

definition label_env :: "string list \<Rightarrow> err_env \<Rightarrow> err_env" where
  "label_env hosts env = (if domain_loop None False hosts then err_no_strip_domain env else env)"

lemma domain_loop_True [simp]: "domain_loop d True hs"
  by (induction hs arbitrary: d) auto

abbreviation domain_of :: "string \<Rightarrow> string" where
  "domain_of h \<equiv> dropWhile (\<lambda>c. c \<noteq> CHR ''.'') h"

lemma domain_loop_Some:
  "domain_loop (Some d) False hs \<longleftrightarrow> (\<exists>h\<in>set hs. strchr h (CHR ''.'') \<and> domain_of h \<noteq> d)"
  by (induction hs) auto

lemma domain_loop_same:
  "\<not> domain_loop None False hs \<Longrightarrow> h \<in> set hs \<Longrightarrow> h' \<in> set hs \<Longrightarrow> strchr h (CHR ''.'') \<Longrightarrow> strchr h' (CHR ''.'')
    \<Longrightarrow> domain_of h = domain_of h'"
proof (induction hs)
  case (Cons x hs)
  show ?case
  proof (cases "strchr x (CHR ''.'')")
    case True
    then show ?thesis using Cons.prems by (auto simp: domain_loop_Some)
  next
    case False
    then show ?thesis using Cons by auto
  qed
qed simp

lemma percent_S_distinct:
  assumes "h \<in> set hosts" "h' \<in> set hosts" "strchr h (CHR ''.'')" "strchr h' (CHR ''.'')"
    and "length h < LINEBUFSIZE" "length h' < LINEBUFSIZE" "percent_S (label_env hosts env) h = percent_S (label_env hosts env) h'"
  shows "h = h'"
proof -
  have t: "to_tmpstr h = h" "to_tmpstr h' = h'" using assms(5,6) by (auto simp: to_tmpstr_def)
  have ne: "h \<noteq> []" "h' \<noteq> []" using assms(3,4) by auto
  show ?thesis
  proof (cases "keep_host_domain (label_env hosts env)")
    case True
    then show ?thesis using assms(7) t by (simp add: percent_S_def)
  next
    case False
    then have "\<not> domain_loop None False hosts" by (auto simp: label_env_def err_no_strip_domain_def split: if_splits)
    then have d: "domain_of h = domain_of h'" using domain_loop_same assms(1-4) by blast
    let ?n = "\<lambda>h. takeWhile (\<lambda>c. c \<noteq> CHR ''.'') h"
    have e: "percent_S (label_env hosts env) s = (if isdigit (hd s) then s else ?n s)"
      if "s \<noteq> []" "to_tmpstr s = s" for s
      using that False by (simp add: percent_S_def)
    have dot: "\<not> isdigit (CHR ''.'')" by (simp add: isdigit_iff)
    have hdn: "?n s = [] \<or> hd (?n s) = hd s" for s by (cases s) auto
    consider "isdigit (hd h)" "isdigit (hd h')" | "\<not> isdigit (hd h)" "\<not> isdigit (hd h')"
      | "isdigit (hd h)" "\<not> isdigit (hd h')" | "\<not> isdigit (hd h)" "isdigit (hd h')" by blast
    then show ?thesis
    proof cases
      case 1
      then show ?thesis using assms(7) e ne t by simp
    next
      case 2
      then have "?n h = ?n h'" using assms(7) e ne t by simp
      then show ?thesis using d by (metis takeWhile_dropWhile_id)
    next
      case 3
      then have "h = ?n h'" using assms(7) e ne t by simp
      then show ?thesis using 3 hdn [of h'] ne by auto
    next
      case 4
      then have "?n h = h'" using assms(7) e ne t by simp
      then show ?thesis using 4 hdn [of h] ne by auto
    qed
  qed
qed

section \<open>The exit value\<close>

definition RC_FAILED :: int where
  "RC_FAILED = 254"

fun rc_loop :: "int \<Rightarrow> thd list \<Rightarrow> int" where
  "rc_loop rc [] = rc"
| "rc_loop rc (th # ths) =
    (let rc = (if tstate th = DSH_FAILED then RC_FAILED else rc)
     in rc_loop (if trc th > rc then trc th else rc) ths)"

definition dsh_rc :: "opt_t \<Rightarrow> thd list \<Rightarrow> int" where
  "dsh_rc opt t = (if ret_remote_rc opt then rc_loop 0 t else 0)"

lemma Max_insert_max: "finite S \<Longrightarrow> Max (insert (max a b) S) = Max (insert a (insert b (S :: int set)))"
  by (cases "S = {}") (auto simp: max.assoc)

lemma rc_loop_max:
  "\<forall>th\<in>set t. tstate th \<noteq> DSH_FAILED \<Longrightarrow> rc_loop rc t = Max (insert rc (trc ` set t))"
proof (induction t arbitrary: rc)
  case (Cons th t)
  have "rc_loop rc (th # t) = rc_loop (max rc (trc th)) t"
    using Cons.prems by (simp add: max_def Let_def)
  then show ?case using Cons Max_insert_max [of "trc ` set t" rc "trc th"] by simp
qed simp

lemma rc_loop_append: "rc_loop rc (xs @ ys) = rc_loop (rc_loop rc xs) ys"
  by (induction xs arbitrary: rc) (auto simp: Let_def)

lemma rc_loop_failed:
  assumes "tstate f = DSH_FAILED" "\<forall>th\<in>set ys. tstate th \<noteq> DSH_FAILED"
  shows "rc_loop rc (xs @ f # ys) = Max (insert RC_FAILED (trc ` set (f # ys)))"
proof -
  have "rc_loop rc (xs @ f # ys) = rc_loop (max RC_FAILED (trc f)) ys"
    using assms(1) by (simp add: rc_loop_append max_def Let_def)
  then show ?thesis using rc_loop_max [OF assms(2)] Max_insert_max [of "trc ` set ys" RC_FAILED "trc f"] by simp
qed

section \<open>A host from its entry to its output\<close>

lemma thd_init_ok:
  assumes "thd_init mem opt True host = Some th0" "\<not> kill_on_fail opt"
    and "stream_ok 131072 (fd_rest oev)"
  shows "out_ok (th0\<lparr>tfd := fd, tefd := efd\<rparr>) \<and> thd_ok (th0\<lparr>tfd := fd, tefd := efd\<rparr>) oev \<and>
    unread (toutbuf th0) = [] \<and> tstate th0 = DSH_NEW \<and> \<not> tkill th0 \<and> trc th0 = 0 \<and>
    tsopt th0 = separate_stderr opt \<and> tlabels th0 = labels opt \<and> thost th0 = host"
proof -
  obtain cb where cb: "cbuf_create mem 64 131072 = Inr cb"
    and th: "toutbuf th0 = cb" "terrbuf th0 = cb" "tstate th0 = DSH_NEW" "tkill th0 = kill_on_fail opt" "trc th0 = 0"
      "tsopt th0 = separate_stderr opt" "tlabels th0 = labels opt" "thost th0 = host"
    using assms(1) by (auto simp: thd_init_def split: sum.splits)
  have "overwrite cb = CBUF_WRAP_MANY" "maxsize cb = 131072"
    using cb by (auto simp: cbuf_create_def Let_def split: if_splits)
  then show ?thesis
    using cbuf_create_valid [OF cb] assms(2,3) th by (simp add: out_ok_def thd_ok_def)
qed

lemma host_output:
  assumes "thd_init mem opt True host = Some th0" "\<not> kill_on_fail opt" "\<And>n. mem n"
    and "0 \<le> fd" "separate_stderr opt \<Longrightarrow> 0 \<le> efd"
    and "stream_ok 131072 (fd_rest oev)" "reads_ok oev" "reads_ok eev"
    and "undisturbed polls" "work oev < out_reports polls" "separate_stderr opt \<Longrightarrow> work eev < err_reports polls"
    and "split_lines (fd_rest oev) = (ls, r)"
  shows "\<exists>th eev' ws w.
    rsh_thread mem env t0 polls oev eev drc (th0\<lparr>tfd := fd, tefd := efd\<rparr>) = Some (Finished DSH_DONE, th, [], eev', ws) \<and>
    filter (\<lambda>w. fst w = Out) ws = concat (map (shown env th0) ls) @ w \<and>
    (NUL \<notin> set r \<longrightarrow> said w = (if r = [] then [] else labelled env th0 r)) \<and>
    trc th = (let rc = lines_rc 0 ls in if rc = 0 \<and> drc > 0 then drc else rc)"
proof -
  let ?th = "th0\<lparr>tfd := fd, tefd := efd\<rparr>"
  have I: "out_ok ?th" "thd_ok ?th oev" "unread (toutbuf ?th) = []" "tstate ?th \<noteq> DSH_CANCELED" "\<not> tkill ?th"
    "trc ?th = 0" "tsopt ?th \<Longrightarrow> 0 \<le> tefd ?th" "0 \<le> tfd ?th"
    "tsopt ?th \<Longrightarrow> work eev < err_reports polls"
    using thd_init_ok [OF assms(1,2,6)] assms(4,5,11) by simp_all
  obtain th eev' ws where t: "rsh_thread mem env t0 polls oev eev drc ?th = Some (Finished DSH_DONE, th, [], eev', ws)"
    using rsh_thread_ends [OF I(8,4,5,1,7) assms(7-10) I(9)] by blast
  have lb: "labelled env ?th = labelled env th0" by simp
  note sh = shown_cong [OF lb]
  from rsh_thread_lines [OF t I(8,4,5) assms(3) I(2,3)] obtain ls' r' w where L:
    "fd_rest oev = concat ls' @ r'" "line_list ls'" "LF \<notin> set r'"
    "filter (\<lambda>w. fst w = Out) ws = concat (map (shown env th0) ls') @ w"
    "NUL \<notin> set r' \<longrightarrow> said w = (if r' = [] then [] else labelled env th0 r')"
    "trc th = (let rc = lines_rc 0 ls' in if rc = 0 \<and> drc > 0 then drc else rc)"
    unfolding lb sh I(6) by auto
  have "ls' = ls \<and> r' = r"
    using assms(12) split_lines_concat [OF L(2), of r'] split_lines_none [OF L(3)] L(1) by simp
  then show ?thesis using t L by blast
qed

text \<open>The line the appended \<open>echo\<close> writes carries the return code and is not shown.\<close>

definition plain_line :: "byte list \<Rightarrow> bool" where
  "plain_line l \<longleftrightarrow> NUL \<notin> set l \<and> strstr l RC_MAGIC = None"

lemma shown_plain: "plain_line l \<Longrightarrow> l \<noteq> [] \<Longrightarrow> shown env th l = [(Out, Some (labelled env th l))]"
  by (simp add: plain_line_def shown_def extract_rc_def)

lemma shown_plain_lines:
  assumes "list_all plain_line ls" "line_list ls"
  shows "concat (map (shown env th) ls) = map (\<lambda>l. (Out, Some (labelled env th l))) ls"
  using assms by (induction ls) (auto simp: line_list_def shown_plain)

lemma rc_line:
  assumes "n < 2 ^ 31"
  shows "shown env th (RC_MAGIC @ dec n @ [LF]) = []" "lines_rc rc (ls @ [RC_MAGIC @ dec n @ [LF]]) = int n"
proof -
  have "NUL \<notin> set (dec n)" using dec_digits [of NUL n] by (auto simp: isdigit_iff NUL_def)
  then have "NUL \<notin> set (RC_MAGIC @ dec n @ [LF])" by (auto simp: RC_MAGIC_def NUL_def LF_def)
  then show "shown env th (RC_MAGIC @ dec n @ [LF]) = []" "lines_rc rc (ls @ [RC_MAGIC @ dec n @ [LF]]) = int n"
    using extract_rc_line [OF assms] by (simp_all add: shown_def lines_rc_def)
qed

lemma rc_line_ok: "line_list [RC_MAGIC @ dec n @ [LF]]"
proof -
  have "LF \<notin> set (RC_MAGIC @ dec n)" using dec_digits [of LF n] by (auto simp: isdigit_iff LF_def RC_MAGIC_def)
  then show ?thesis by (auto simp: line_list_def intro!: exI [of _ "RC_MAGIC @ dec n"])
qed

text \<open>Behind an unfinished line a code of one digit is lost.\<close>

lemma extract_rc_digit_lost:
  assumes "s \<noteq> []" "CHR ''X'' \<notin> set s" "n < 10"
  shows "extract_rc (s @ RC_MAGIC @ dec n @ [LF]) = (0, s @ [LF])"
proof -
  have "tl (dec n) = []" using assms(3) by (subst dec.simps) simp
  moreover have "atoi [LF] = 0" by (simp add: atoi_def LF_def isspace_def isdigit_def dec_val_def)
  ultimately show ?thesis using extract_rc_behind_text [OF assms(1,2), of n] by simp
qed

end
