(* ===== verification/Pcp_Client.thy ===== *)
theory Pcp_Client
  imports Pcp_Server Wcoll Dsh_Setup
begin

text \<open>
  The sending side of a copy (\<open>pdsh/pcp_client.c\<close>): \<open>pcp_expand_dirs\<close> lists
  the files to send, \<open>pcp_client\<close> sends each as records of the \<open>rcp\<close> protocol
  and reads an answer behind every one. What \<open>stat\<close>, \<open>access\<close>, \<open>open\<close>
  and \<open>opendir\<close> find is a parameter; the size of a file is the length of its data.
\<close>

section \<open>Files to send\<close>

datatype ckind = KFile string | KDir "string list" | KOther

record cstat_t =
  cmode :: nat
  cmtime :: int
  catime :: int
  ckind :: ckind

record client_os =
  cstat :: "string \<Rightarrow> cstat_t option"
  caccess :: "string \<Rightarrow> bool"
  copen :: "string \<Rightarrow> bool"

record pcp_filename =
  filename :: string
  by_user :: bool

definition EXIT_SUBDIR_FILENAME :: string where
  "EXIT_SUBDIR_FILENAME = ''a!b@c#d$''"

definition EXIT_SUBDIR_FLAG :: string where
  "EXIT_SUBDIR_FLAG = ''E'' @ [LF]"

definition MAXPATHNAMELEN :: nat where
  "MAXPATHNAMELEN = 4096"

text \<open>
  The loop of \<open>_rexpand_dir\<close> over the entries of a directory; paths are cut to the buffer.
\<close>

partial_function (option) rexpand_dir ::
  "client_os \<Rightarrow> string \<Rightarrow> string list \<Rightarrow> pcp_filename list \<Rightarrow> pcp_filename list fate option" where
  "rexpand_dir os name entries acc =
    (case entries of
       [] \<Rightarrow> Some (Continues (acc @ [\<lparr>filename = EXIT_SUBDIR_FILENAME, by_user = False\<rparr>]))
     | d # ds \<Rightarrow>
         if d = ''.'' \<or> d = ''..'' then rexpand_dir os name ds acc
         else
           let file = take (MAXPATHNAMELEN - 1) (name @ ''/'' @ d);
               acc = acc @ [\<lparr>filename = file, by_user = False\<rparr>]
           in case cstat os file of
                None \<Rightarrow> Some Exits
              | Some sb \<Rightarrow>
                  if \<not> caccess os name then Some Exits
                  else (case ckind sb of
                          KOther \<Rightarrow> Some Exits
                        | KFile _ \<Rightarrow> rexpand_dir os name ds acc
                        | KDir es \<Rightarrow>
                            if \<not> copen os file then Some Exits
                            else Option.bind (rexpand_dir os file es acc)
                              (\<lambda>r. case r of Exits \<Rightarrow> Some Exits | Continues acc \<Rightarrow> rexpand_dir os name ds acc)))"

fun expand_files :: "client_os \<Rightarrow> string list \<Rightarrow> pcp_filename list \<Rightarrow> pcp_filename list fate option" where
  "expand_files os [] acc = Some (Continues acc)"
| "expand_files os (name # names) acc =
    (if \<not> caccess os name then Some Exits
     else case cstat os name of
       None \<Rightarrow> Some Exits
     | Some sb \<Rightarrow>
         let acc = acc @ [\<lparr>filename = name, by_user = True\<rparr>]
         in case ckind sb of
              KDir es \<Rightarrow>
                if \<not> copen os name then Some Exits
                else (case rexpand_dir os name es acc of
                        None \<Rightarrow> None
                      | Some Exits \<Rightarrow> Some Exits
                      | Some (Continues acc) \<Rightarrow> expand_files os names acc)
            | _ \<Rightarrow> expand_files os names acc)"

definition pcp_expand_dirs :: "client_os \<Rightarrow> string list \<Rightarrow> pcp_filename list fate option" where
  "pcp_expand_dirs os infiles = expand_files os infiles []"

section \<open>The connection\<close>

text \<open>Answers to come, bytes sent, and the results of the calls of \<open>write\<close> to come; when
  there are none left every write is complete.\<close>

record client_state =
  cresp :: string
  csent :: string
  cwrites :: "int list"

text \<open>The loop of \<open>_pcp_write\<close>: its result, what it has sent, and the results left.\<close>

fun pcp_write_loop :: "int list \<Rightarrow> string \<Rightarrow> bool \<times> string \<times> int list" where
  "pcp_write_loop [] buf = (True, buf, [])"
| "pcp_write_loop (w # ws) buf =
    (if buf = [] then (True, [], w # ws)
     else if w \<le> 0 then (False, [], ws)
     else
       let n = min (nat w) (length buf)
       in case pcp_write_loop ws (drop n buf) of (ok, sent, ws) \<Rightarrow> (ok, take n buf @ sent, ws))"

definition pcp_write :: "string \<Rightarrow> client_state \<Rightarrow> int \<times> client_state" where
  "pcp_write buf st =
    (case pcp_write_loop (cwrites st) buf of
       (ok, sent, ws) \<Rightarrow> (if ok then int (length buf) else -1, st\<lparr>csent := csent st @ sent, cwrites := ws\<rparr>))"

text \<open>\<open>fd_read_line\<close> with room for so many characters\<close>

fun fd_read_line :: "nat \<Rightarrow> string \<Rightarrow> string \<times> string" where
  "fd_read_line 0 s = ([], s)"
| "fd_read_line (Suc n) [] = ([], [])"
| "fd_read_line (Suc n) (c # s) =
    (if c = LF then ([c], s) else case fd_read_line n s of (l, s) \<Rightarrow> (c # l, s))"

text \<open>The message of an answer is printed; only the end of the answer matters here.\<close>

definition pcp_response :: "client_state \<Rightarrow> int \<times> client_state" where
  "pcp_response st =
    (case cresp st of
       [] \<Rightarrow> (-1, st)
     | c # s \<Rightarrow>
         if c = NUL then (0, st\<lparr>cresp := s\<rparr>)
         else if c = CHR 0x01 then (-1, st\<lparr>cresp := snd (fd_read_line (BUFSIZ - 1) s)\<rparr>)
         else (0, st\<lparr>cresp := snd (fd_read_line (BUFSIZ - 2) s)\<rparr>))"

text \<open>The assertions of \<open>pcp_sendstr\<close> end the program.\<close>

definition pcp_sendstr :: "string \<Rightarrow> client_state \<Rightarrow> (int \<times> client_state) fate" where
  "pcp_sendstr str st =
    (if str = [] \<or> last str \<noteq> LF then Exits
     else case pcp_write str st of (n, st) \<Rightarrow> Continues (if n < 0 then -1 else 0, st))"

fun send_data_loop :: "nat \<Rightarrow> string \<Rightarrow> client_state \<Rightarrow> int \<times> client_state" where
  "send_data_loop 0 bs st = (0, st)"
| "send_data_loop (Suc n) bs st =
    (if bs = [] then (0, st)
     else case pcp_write (take BUFSIZ bs) st of
       (n', st) \<Rightarrow> if n' < 0 then (-1, st) else send_data_loop n (drop BUFSIZ bs) st)"

text \<open>\<open>read\<close> returns blocks of \<open>BUFSIZ\<close> bytes; each makes the data shorter.\<close>

definition pcp_send_file_data :: "client_os \<Rightarrow> string \<Rightarrow> string \<Rightarrow> client_state \<Rightarrow> int \<times> client_state" where
  "pcp_send_file_data os file bs st = (if \<not> copen os file then (-1, st) else send_data_loop (length bs) bs st)"

section \<open>Sending files\<close>

text \<open>\<open>goto fail\<close> after a call that returned a negative value\<close>

definition unless_failed ::
  "int \<times> client_state \<Rightarrow> (client_state \<Rightarrow> (int \<times> client_state) fate) \<Rightarrow> (int \<times> client_state) fate" where
  "unless_failed r f = (case r of (n, st) \<Rightarrow> if n < 0 then Continues (0, st) else f st)"

text \<open>A record, cut to the buffer, and its answer\<close>

definition send_record ::
  "string \<Rightarrow> client_state \<Rightarrow> (client_state \<Rightarrow> (int \<times> client_state) fate) \<Rightarrow> (int \<times> client_state) fate" where
  "send_record tmpstr st f =
    (case pcp_sendstr (take (BUFSIZ - 1) tmpstr) st of
       Exits \<Rightarrow> Exits
     | Continues r \<Rightarrow> unless_failed r (\<lambda>st. unless_failed (pcp_response st) f))"

text \<open>\<open>%04o\<close> of a mode without the type of the file\<close>

definition octal_mode :: "nat \<Rightarrow> string" where
  "octal_mode m = [digit (m div 512 mod 8), digit (m div 64 mod 8), digit (m div 8 mod 8), digit (m mod 8)]"

definition times_record :: "cstat_t \<Rightarrow> string" where
  "times_record sb = ''T'' @ show_int 0 (cmtime sb) @ '' 0 '' @ show_int 0 (catime sb) @ '' 0'' @ [LF]"

definition dir_record :: "cstat_t \<Rightarrow> string \<Rightarrow> string" where
  "dir_record sb out = ''D'' @ octal_mode (cmode sb) @ '' 0 '' @ xbasename out @ [LF]"

definition file_record :: "cstat_t \<Rightarrow> nat \<Rightarrow> string \<Rightarrow> string" where
  "file_record sb fsize out = ''C'' @ octal_mode (cmode sb) @ '' '' @ dec fsize @ '' '' @ xbasename out @ [LF]"

definition pcp_sendfile ::
  "client_os \<Rightarrow> bool \<Rightarrow> string \<Rightarrow> string option \<Rightarrow> client_state \<Rightarrow> (int \<times> client_state) fate" where
  "pcp_sendfile os preserving file output_file st =
    (let out = (case output_file of None \<Rightarrow> file | Some o' \<Rightarrow> o')
     in case cstat os file of
          None \<Rightarrow> Continues (0, st)
        | Some sb \<Rightarrow>
            (if preserving then send_record (times_record sb) st else (\<lambda>f. f st))
              (\<lambda>st. case ckind sb of
                 KDir _ \<Rightarrow> send_record (dir_record sb out) st (\<lambda>st. Continues (1, st))
               | KOther \<Rightarrow> send_record (file_record sb 0 out) st (\<lambda>st. Continues (1, st))
               | KFile bs \<Rightarrow>
                   send_record (file_record sb (length bs) out) st
                     (\<lambda>st. unless_failed (pcp_send_file_data os file bs st)
                       (\<lambda>st. unless_failed (pcp_write [NUL] st)
                         (\<lambda>st. unless_failed (pcp_response st) (\<lambda>st. Continues (1, st)))))))"

text \<open>\<open>struct pcp_client\<close> without the descriptors and the list\<close>

record pcp_cli =
  cpreserve :: bool
  cclient :: bool
  chost :: string

definition output_name :: "pcp_cli \<Rightarrow> pcp_filename \<Rightarrow> string option" where
  "output_name pcp pf =
    (if cclient pcp \<and> by_user pf
     then Some (xtext_of (cat (cat (Strdup (Some (filename pf))) ''.'') (chost pcp))) else None)"

text \<open>The result of \<open>pcp_sendfile\<close> is not looked at.\<close>

definition pcp_send_one :: "client_os \<Rightarrow> pcp_cli \<Rightarrow> pcp_filename \<Rightarrow> client_state \<Rightarrow> client_state fate" where
  "pcp_send_one os pcp pf st =
    (if filename pf = EXIT_SUBDIR_FILENAME then
       (case pcp_sendstr EXIT_SUBDIR_FLAG st of
          Exits \<Rightarrow> Exits
        | Continues (n, st) \<Rightarrow>
            if n < 0 then Exits
            else (case pcp_response st of (n, st) \<Rightarrow> if n < 0 then Exits else Continues st))
     else
       (case pcp_sendfile os (cpreserve pcp) (filename pf) (output_name pcp pf) st of
          Exits \<Rightarrow> Exits
        | Continues (_, st) \<Rightarrow> Continues st))"

fun send_all :: "client_os \<Rightarrow> pcp_cli \<Rightarrow> pcp_filename list \<Rightarrow> client_state \<Rightarrow> client_state fate" where
  "send_all os pcp [] st = Continues st"
| "send_all os pcp (pf # pfs) st =
    (case pcp_send_one os pcp pf st of Exits \<Rightarrow> Exits | Continues st \<Rightarrow> send_all os pcp pfs st)"

definition pcp_client :: "client_os \<Rightarrow> pcp_cli \<Rightarrow> pcp_filename list \<Rightarrow> client_state \<Rightarrow> (int \<times> client_state) fate" where
  "pcp_client os pcp infiles st =
    (case pcp_response st of
       (n, st) \<Rightarrow>
         if n < 0 then Continues (-1, st)
         else case send_all os pcp infiles st of Exits \<Rightarrow> Exits | Continues st \<Rightarrow> Continues (0, st))"

end
