(* ===== verification/Pcp.thy ===== *)
theory Pcp
  imports Pcp_Client
begin

text \<open>
  A copy as a whole: trees of files, the records that stand for them in the protocol, and the
  proof that what \<open>pcp_client\<close> sends for a tree makes \<open>pcp_server\<close> build it.
\<close>

section \<open>Trees of files\<close>

text \<open>Mode, times of modification and access, and the data or the entries\<close>

datatype ftree = FFile nat int int string | FDir nat int int "(string \<times> ftree) list"

fun tree_at :: "client_os \<Rightarrow> string \<Rightarrow> ftree \<Rightarrow> bool" where
  "tree_at os p (FFile m mt ac bs) \<longleftrightarrow>
    length p < MAXPATHNAMELEN \<and> p \<noteq> EXIT_SUBDIR_FILENAME \<and> copen os p \<and>
    cstat os p = Some \<lparr>cmode = m, cmtime = mt, catime = ac, ckind = KFile bs\<rparr>"
| "tree_at os p (FDir m mt ac es) \<longleftrightarrow>
    length p < MAXPATHNAMELEN \<and> p \<noteq> EXIT_SUBDIR_FILENAME \<and> copen os p \<and> caccess os p \<and>
    (\<exists>names. cstat os p = Some \<lparr>cmode = m, cmtime = mt, catime = ac, ckind = KDir names\<rparr> \<and>
       filter (\<lambda>d. d \<noteq> ''.'' \<and> d \<noteq> ''..'') names = map fst es) \<and>
    list_all (\<lambda>(n, t). tree_at os (p @ ''/'' @ n) t) es"

definition name_ok :: "string \<Rightarrow> bool" where
  "name_ok n \<longleftrightarrow> n \<noteq> [] \<and> CHR ''/'' \<notin> set n \<and> NUL \<notin> set n \<and> LF \<notin> set n"

section \<open>Records of a tree\<close>

definition times_part :: "bool \<Rightarrow> int \<Rightarrow> int \<Rightarrow> string" where
  "times_part preserving mt ac =
    (if preserving then times_record \<lparr>cmode = 0, cmtime = mt, catime = ac, ckind = KOther\<rparr> else [])"

text \<open>What is sent for a file, or for a directory before its entries, and the answers to it\<close>

fun tree_head :: "bool \<Rightarrow> string \<Rightarrow> ftree \<Rightarrow> string" where
  "tree_head pr out (FFile m mt ac bs) =
    times_part pr mt ac @ file_record \<lparr>cmode = m, cmtime = mt, catime = ac, ckind = KOther\<rparr> (length bs) out @ bs @ [NUL]"
| "tree_head pr out (FDir m mt ac es) =
    times_part pr mt ac @ dir_record \<lparr>cmode = m, cmtime = mt, catime = ac, ckind = KOther\<rparr> out"

definition head_acks :: "bool \<Rightarrow> ftree \<Rightarrow> nat" where
  "head_acks pr t = (if pr then 1 else 0) + (case t of FFile _ _ _ _ \<Rightarrow> 2 | FDir _ _ _ _ \<Rightarrow> 1)"

fun wire :: "bool \<Rightarrow> string \<Rightarrow> ftree \<Rightarrow> string" where
  "wire pr out (FFile m mt ac bs) = tree_head pr out (FFile m mt ac bs)"
| "wire pr out (FDir m mt ac es) =
    tree_head pr out (FDir m mt ac es) @ concat (map (\<lambda>(n, t). wire pr n t) es) @ EXIT_SUBDIR_FLAG"

fun acks :: "bool \<Rightarrow> ftree \<Rightarrow> nat" where
  "acks pr (FFile m mt ac bs) = head_acks pr (FFile m mt ac bs)"
| "acks pr (FDir m mt ac es) = head_acks pr (FDir m mt ac es) + sum_list (map (\<lambda>(n, t). acks pr t) es) + 1"

text \<open>The modes fit, the names do not disturb the protocol, and the records fit the buffers.\<close>

fun tree_fits :: "bool \<Rightarrow> string \<Rightarrow> ftree \<Rightarrow> bool" where
  "tree_fits pr out (FFile m mt ac bs) \<longleftrightarrow>
    m < 4096 \<and> name_ok (xbasename out) \<and> (pr \<longrightarrow> 0 \<le> mt \<and> 0 \<le> ac) \<and> length (times_part pr mt ac) < BUFSIZ \<and>
    length (file_record \<lparr>cmode = m, cmtime = mt, catime = ac, ckind = KOther\<rparr> (length bs) out) < BUFSIZ"
| "tree_fits pr out (FDir m mt ac es) \<longleftrightarrow>
    m < 4096 \<and> name_ok (xbasename out) \<and> (pr \<longrightarrow> 0 \<le> mt \<and> 0 \<le> ac) \<and> length (times_part pr mt ac) < BUFSIZ \<and>
    length (dir_record \<lparr>cmode = m, cmtime = mt, catime = ac, ckind = KOther\<rparr> out) < BUFSIZ \<and>
    distinct (map fst es) \<and> list_all (\<lambda>(n, t). CHR ''/'' \<notin> set n \<and> tree_fits pr n t) es"

lemma xbasename_plain: "CHR ''/'' \<notin> set n \<Longrightarrow> xbasename n = n"
  by (simp add: xbasename_def)

lemma xbasename_path: "CHR ''/'' \<notin> set n \<Longrightarrow> xbasename (p @ ''/'' @ n) = n"
proof -
  assume "CHR ''/'' \<notin> set n"
  then have "takeWhile (\<lambda>c. c \<noteq> CHR ''/'') (rev n @ CHR ''/'' # rev p) = rev n"
    by (subst takeWhile_append2) auto
  then show ?thesis by (simp add: xbasename_def)
qed

section \<open>What the client sends\<close>

abbreviation progress :: "int list \<Rightarrow> bool" where
  "progress ws \<equiv> list_all (\<lambda>w. 0 < w) ws"

lemma write_loop_all: "progress ws \<Longrightarrow> \<exists>ws'. pcp_write_loop ws buf = (True, buf, ws') \<and> progress ws'"
proof (induction ws arbitrary: buf)
  case (Cons w ws)
  obtain ws' where "pcp_write_loop ws (drop (min (nat w) (length buf)) buf) = (True, drop (min (nat w) (length buf)) buf, ws')" "progress ws'"
    using Cons.IH [of "drop (min (nat w) (length buf)) buf"] Cons.prems by auto
  then show ?case using Cons.prems by (cases "buf = []") (auto simp: Let_def)
qed simp

lemma pcp_write_all:
  assumes "progress ws"
  shows "\<exists>ws'. progress ws' \<and>
    pcp_write buf \<lparr>cresp = r, csent = s, cwrites = ws\<rparr> = (int (length buf), \<lparr>cresp = r, csent = s @ buf, cwrites = ws'\<rparr>)"
  using write_loop_all [OF assms, of buf] by (auto simp: pcp_write_def)

lemma send_record_all:
  assumes "progress ws" "tmp \<noteq> []" "last tmp = LF" "length tmp < BUFSIZ"
  shows "\<exists>ws'. progress ws' \<and> (\<forall>f. send_record tmp \<lparr>cresp = NUL # r, csent = s, cwrites = ws\<rparr> f =
    f \<lparr>cresp = r, csent = s @ tmp, cwrites = ws'\<rparr>)"
  using pcp_write_all [OF assms(1), of tmp "NUL # r" s] assms(2-4)
  by (auto simp: send_record_def pcp_sendstr_def unless_failed_def pcp_response_def)

lemma send_data_all:
  "progress ws \<Longrightarrow> length bs \<le> n \<Longrightarrow> \<exists>ws'. progress ws' \<and>
    send_data_loop n bs \<lparr>cresp = r, csent = s, cwrites = ws\<rparr> = (0, \<lparr>cresp = r, csent = s @ bs, cwrites = ws'\<rparr>)"
proof (induction n bs "\<lparr>cresp = r, csent = s, cwrites = ws\<rparr>" arbitrary: s ws rule: send_data_loop.induct)
  case (2 n bs)
  show ?case
  proof (cases "bs = []")
    case False
    obtain ws1 where w: "progress ws1" "pcp_write (take BUFSIZ bs) \<lparr>cresp = r, csent = s, cwrites = ws\<rparr> =
        (int (length (take BUFSIZ bs)), \<lparr>cresp = r, csent = s @ take BUFSIZ bs, cwrites = ws1\<rparr>)"
      using pcp_write_all [OF 2(2)] by blast
    have "length (drop BUFSIZ bs) \<le> n" using 2(3) False by (cases bs) (auto simp: BUFSIZ_def)
    then obtain ws' where "progress ws'" "send_data_loop n (drop BUFSIZ bs) \<lparr>cresp = r, csent = s @ take BUFSIZ bs, cwrites = ws1\<rparr> =
        (0, \<lparr>cresp = r, csent = s @ bs, cwrites = ws'\<rparr>)"
      using 2(1) [OF False w(2) [symmetric] _ w(1)] by auto
    then show ?thesis using False w(2) by auto
  qed (use 2 in auto)
qed auto

lemma records_end:
  "times_record sb \<noteq> []" "last (times_record sb) = LF" "dir_record sb out \<noteq> []" "last (dir_record sb out) = LF"
  "file_record sb k out \<noteq> []" "last (file_record sb k out) = LF"
  by (simp_all add: times_record_def dir_record_def file_record_def)

lemma records_cong:
  "times_record \<lparr>cmode = m, cmtime = mt, catime = ac, ckind = k\<rparr> = times_record \<lparr>cmode = 0, cmtime = mt, catime = ac, ckind = KOther\<rparr>"
  "dir_record \<lparr>cmode = m, cmtime = mt, catime = ac, ckind = k\<rparr> = dir_record \<lparr>cmode = m, cmtime = mt, catime = ac, ckind = KOther\<rparr>"
  "file_record \<lparr>cmode = m, cmtime = mt, catime = ac, ckind = k\<rparr> = file_record \<lparr>cmode = m, cmtime = mt, catime = ac, ckind = KOther\<rparr>"
  by (simp_all add: times_record_def dir_record_def file_record_def fun_eq_iff)

lemma send_times:
  assumes "progress ws" "length (times_part pr mt ac) < BUFSIZ" "cmtime sb = mt" "catime sb = ac"
  shows "\<exists>ws'. progress ws' \<and> (\<forall>f.
    (if pr then send_record (times_record sb) \<lparr>cresp = replicate (if pr then 1 else 0) NUL @ r, csent = s, cwrites = ws\<rparr>
     else (\<lambda>f. f \<lparr>cresp = replicate (if pr then 1 else 0) NUL @ r, csent = s, cwrites = ws\<rparr>)) f =
    f \<lparr>cresp = r, csent = s @ times_part pr mt ac, cwrites = ws'\<rparr>)"
proof (cases pr)
  case True
  then have e: "times_record sb = times_part pr mt ac"
    using assms(3,4) by (simp add: times_part_def times_record_def)
  have "times_part pr mt ac \<noteq> []" "last (times_part pr mt ac) = LF" using records_end(1,2) e by metis+
  then show ?thesis using send_record_all [OF assms(1) _ _ assms(2), of r s] True by (simp add: e)
next
  case False
  then show ?thesis using assms(1) by (auto simp: times_part_def)
qed

lemma sendfile_head:
  assumes "tree_at os p t" "tree_fits pr out t" "progress ws" "(case o' of None \<Rightarrow> p | Some x \<Rightarrow> x) = out'" "xbasename out' = xbasename out"
  shows "\<exists>ws'. progress ws' \<and>
    pcp_sendfile os pr p o' \<lparr>cresp = replicate (head_acks pr t) NUL @ r, csent = s, cwrites = ws\<rparr> =
    Continues (1, \<lparr>cresp = r, csent = s @ tree_head pr out t, cwrites = ws'\<rparr>)"
proof (cases t)
  case (FDir m mt ac es)
  then obtain names where st: "cstat os p = Some \<lparr>cmode = m, cmtime = mt, catime = ac, ckind = KDir names\<rparr>"
    using assms(1) by auto
  let ?sb = "\<lparr>cmode = m, cmtime = mt, catime = ac, ckind = KDir names\<rparr>"
  have d: "dir_record ?sb out' = dir_record \<lparr>cmode = m, cmtime = mt, catime = ac, ckind = KOther\<rparr> out"
    using assms(5) by (simp add: dir_record_def)
  have n: "replicate (head_acks pr t) NUL @ r = replicate (if pr then 1 else 0) NUL @ NUL # r"
    using FDir by (simp add: head_acks_def)
  have fits: "length (times_part pr mt ac) < BUFSIZ" "length (dir_record ?sb out') < BUFSIZ"
    using assms(2) FDir d by simp_all
  obtain ws1 where w1: "progress ws1" "\<And>f. (if pr then send_record (times_record ?sb) \<lparr>cresp = replicate (if pr then 1 else 0) NUL @ NUL # r, csent = s, cwrites = ws\<rparr>
     else (\<lambda>f. f \<lparr>cresp = replicate (if pr then 1 else 0) NUL @ NUL # r, csent = s, cwrites = ws\<rparr>)) f =
    f \<lparr>cresp = NUL # r, csent = s @ times_part pr mt ac, cwrites = ws1\<rparr>"
    using send_times [OF assms(3) fits(1), of ?sb "NUL # r" s] by auto
  obtain ws2 where w2: "progress ws2" "\<And>f. send_record (dir_record ?sb out') \<lparr>cresp = NUL # r, csent = s @ times_part pr mt ac, cwrites = ws1\<rparr> f =
      f \<lparr>cresp = r, csent = (s @ times_part pr mt ac) @ dir_record ?sb out', cwrites = ws2\<rparr>"
    using send_record_all [OF w1(1) records_end(3,4) fits(2)] by blast
  have "pcp_sendfile os pr p o' \<lparr>cresp = replicate (head_acks pr t) NUL @ r, csent = s, cwrites = ws\<rparr> =
    Continues (1, \<lparr>cresp = r, csent = s @ tree_head pr out t, cwrites = ws2\<rparr>)"
    unfolding pcp_sendfile_def Let_def st option.case n w1(2) assms(4) by (simp add: w2(2) [unfolded d append_assoc] d FDir)
  then show ?thesis using w2(1) by blast
next
  case (FFile m mt ac bs)
  let ?sb = "\<lparr>cmode = m, cmtime = mt, catime = ac, ckind = KFile bs\<rparr>"
  have st: "cstat os p = Some ?sb" "copen os p" using assms(1) FFile by auto
  let ?rec = "file_record ?sb (length bs) out'"
  have d: "?rec = file_record \<lparr>cmode = m, cmtime = mt, catime = ac, ckind = KOther\<rparr> (length bs) out"
    using assms(5) by (simp add: file_record_def)
  have n: "replicate (head_acks pr t) NUL @ r = replicate (if pr then 1 else 0) NUL @ NUL # NUL # r"
    using FFile by (simp add: head_acks_def numeral_2_eq_2)
  have fits: "length (times_part pr mt ac) < BUFSIZ" "length ?rec < BUFSIZ" using assms(2) FFile d by simp_all
  obtain ws1 where w1: "progress ws1" "\<And>f. (if pr then send_record (times_record ?sb) \<lparr>cresp = replicate (if pr then 1 else 0) NUL @ NUL # NUL # r, csent = s, cwrites = ws\<rparr>
     else (\<lambda>f. f \<lparr>cresp = replicate (if pr then 1 else 0) NUL @ NUL # NUL # r, csent = s, cwrites = ws\<rparr>)) f =
    f \<lparr>cresp = NUL # NUL # r, csent = s @ times_part pr mt ac, cwrites = ws1\<rparr>"
    using send_times [OF assms(3) fits(1), of ?sb "NUL # NUL # r" s] by auto
  let ?s1 = "s @ times_part pr mt ac"
  obtain ws2 where w2: "progress ws2" "\<And>f. send_record ?rec \<lparr>cresp = NUL # NUL # r, csent = ?s1, cwrites = ws1\<rparr> f =
      f \<lparr>cresp = NUL # r, csent = ?s1 @ ?rec, cwrites = ws2\<rparr>"
    using send_record_all [OF w1(1) records_end(5,6) fits(2)] by blast
  obtain ws3 where w3: "progress ws3" "send_data_loop (length bs) bs \<lparr>cresp = NUL # r, csent = ?s1 @ ?rec, cwrites = ws2\<rparr> =
      (0, \<lparr>cresp = NUL # r, csent = (?s1 @ ?rec) @ bs, cwrites = ws3\<rparr>)"
    using send_data_all [OF w2(1) order_refl] by blast
  obtain ws4 where w4: "progress ws4" "pcp_write [NUL] \<lparr>cresp = NUL # r, csent = (?s1 @ ?rec) @ bs, cwrites = ws3\<rparr> =
      (int (length [NUL]), \<lparr>cresp = NUL # r, csent = ((?s1 @ ?rec) @ bs) @ [NUL], cwrites = ws4\<rparr>)"
    using pcp_write_all [OF w3(1)] by blast
  have "pcp_sendfile os pr p o' \<lparr>cresp = replicate (head_acks pr t) NUL @ r, csent = s, cwrites = ws\<rparr> =
    Continues (1, \<lparr>cresp = r, csent = s @ tree_head pr out t, cwrites = ws4\<rparr>)"
    unfolding pcp_sendfile_def Let_def st(1) option.case n w1(2) assms(4)
    by (simp add: w2(2) [unfolded d append_assoc] pcp_send_file_data_def st(2) w3(2) [unfolded d append_assoc] unless_failed_def w4(2) [unfolded d append_assoc] pcp_response_def d FFile)
  then show ?thesis using w4(1) by blast
qed

section \<open>The list of files\<close>

fun listing :: "bool \<Rightarrow> string \<Rightarrow> ftree \<Rightarrow> pcp_filename list" where
  "listing u p (FFile m mt ac bs) = [\<lparr>filename = p, by_user = u\<rparr>]"
| "listing u p (FDir m mt ac es) = \<lparr>filename = p, by_user = u\<rparr> #
    concat (map (\<lambda>(n, t). listing False (p @ ''/'' @ n) t) es) @ [\<lparr>filename = EXIT_SUBDIR_FILENAME, by_user = False\<rparr>]"

text \<open>The entries of a directory, read in the order of the system\<close>

lemma rexpand_entries:
  assumes "filter (\<lambda>d. d \<noteq> ''.'' \<and> d \<noteq> ''..'') names = map fst es" "caccess os p"
    and "\<And>n t. (n, t) \<in> set es \<Longrightarrow> tree_at os (p @ ''/'' @ n) t"
    and "\<And>n m mt ac es' names' acc. (n, FDir m mt ac es') \<in> set es \<Longrightarrow>
      filter (\<lambda>d. d \<noteq> ''.'' \<and> d \<noteq> ''..'') names' = map fst es' \<Longrightarrow>
      rexpand_dir os (p @ ''/'' @ n) names' acc =
        Some (Continues (acc @ tl (listing False (p @ ''/'' @ n) (FDir m mt ac es'))))"
  shows "rexpand_dir os p names acc =
    Some (Continues (acc @ concat (map (\<lambda>(n, t). listing False (p @ ''/'' @ n) t) es) @ [\<lparr>filename = EXIT_SUBDIR_FILENAME, by_user = False\<rparr>]))"
  using assms(1,3,4)
proof (induction names arbitrary: es acc)
  case Nil
  then show ?case by (subst rexpand_dir.simps) simp
next
  case (Cons d ds)
  show ?case
  proof (cases "d = ''.'' \<or> d = ''..''")
    case True
    then show ?thesis using Cons by (subst rexpand_dir.simps) auto
  next
    case False
    then obtain t es' where es: "es = (d, t) # es'" using Cons.prems(1) by (cases es) auto
    have at: "tree_at os (p @ ''/'' @ d) t" using Cons.prems(2) es by simp
    have l: "length (p @ ''/'' @ d) < MAXPATHNAMELEN" using at by (cases t) simp_all
    then have cut: "take (MAXPATHNAMELEN - 1) (p @ ''/'' @ d) = p @ ''/'' @ d"
      by (intro take_all) simp
    have IH: "rexpand_dir os p ds acc' = Some (Continues (acc' @ concat (map (\<lambda>(n, t). listing False (p @ ''/'' @ n) t) es') @
        [\<lparr>filename = EXIT_SUBDIR_FILENAME, by_user = False\<rparr>]))" for acc'
    proof (rule Cons.IH)
      show "filter (\<lambda>d. d \<noteq> ''.'' \<and> d \<noteq> ''..'') ds = map fst es'" using Cons.prems(1) es False by simp
      fix n t assume "(n, t) \<in> set es'"
      then show "tree_at os (p @ ''/'' @ n) t" by (intro Cons.prems(2)) (simp add: es)
    next
      fix n m mt ac es2 names' acc
      assume "(n, FDir m mt ac es2) \<in> set es'" "filter (\<lambda>d. d \<noteq> ''.'' \<and> d \<noteq> ''..'') names' = map fst es2"
      then show "rexpand_dir os (p @ ''/'' @ n) names' acc =
          Some (Continues (acc @ tl (listing False (p @ ''/'' @ n) (FDir m mt ac es2))))"
        by (intro Cons.prems(3)) (simp_all add: es)
    qed
    note step = rexpand_dir.simps [of os p "d # ds" acc, unfolded list.case Let_def cut]
    show ?thesis
    proof (cases t)
      case (FFile m mt ac bs)
      then have "cstat os (p @ ''/'' @ d) = Some \<lparr>cmode = m, cmtime = mt, catime = ac, ckind = KFile bs\<rparr>" using at by simp
      then show ?thesis unfolding step by (simp add: False assms(2) IH es FFile)
    next
      case (FDir m mt ac es2)
      then obtain names' where n: "cstat os (p @ ''/'' @ d) = Some \<lparr>cmode = m, cmtime = mt, catime = ac, ckind = KDir names'\<rparr>"
        "filter (\<lambda>d. d \<noteq> ''.'' \<and> d \<noteq> ''..'') names' = map fst es2" "copen os (p @ ''/'' @ d)" using at by auto
      have "rexpand_dir os (p @ ''/'' @ d) names' acc' = Some (Continues (acc' @ tl (listing False (p @ ''/'' @ d) t)))" for acc'
        using Cons.prems(3) [of d m mt ac es2 names'] n(2) es FDir by simp
      then show ?thesis unfolding step using n(1,3) by (simp add: False assms(2) IH es FDir)
    qed
  qed
qed

lemma rexpand_dir_tree:
  assumes "tree_at os p t" "t = FDir m mt ac es" "filter (\<lambda>d. d \<noteq> ''.'' \<and> d \<noteq> ''..'') names = map fst es"
  shows "rexpand_dir os p names acc = Some (Continues (acc @ tl (listing False p t)))"
  using assms
proof (induction t arbitrary: p m mt ac es names acc)
  case (FDir m0 mt0 ac0 es0)
  have es: "es0 = es" using FDir.prems(2) by simp
  have at: "tree_at os (p @ ''/'' @ n) t" if "(n, t) \<in> set es" for n t
    using FDir.prems(1) that es by (auto simp: list_all_iff)
  have sub: "rexpand_dir os (p @ ''/'' @ n) names' acc = Some (Continues (acc @ tl (listing False (p @ ''/'' @ n) (FDir m' mt' ac' es'))))"
    if "(n, FDir m' mt' ac' es') \<in> set es" "filter (\<lambda>d. d \<noteq> ''.'' \<and> d \<noteq> ''..'') names' = map fst es'" for n m' mt' ac' es' names' acc
    using FDir.IH [of "(n, FDir m' mt' ac' es')" "FDir m' mt' ac' es'", OF _ _ at [OF that(1)] refl that(2)] that(1) es by simp
  have "caccess os p" using FDir.prems(1) by simp
  then show ?case using rexpand_entries [OF FDir.prems(3) _ at sub, of acc] FDir.prems(2) by simp
qed simp

lemma expand_files_listing:
  assumes "list_all2 (\<lambda>p t. tree_at os p t \<and> caccess os p) ps ts"
  shows "expand_files os ps acc = Some (Continues (acc @ concat (map2 (listing True) ps ts)))"
  using assms
proof (induction ps ts arbitrary: acc rule: list_all2_induct)
  case (Cons p ps t ts)
  show ?case
  proof (cases t)
    case (FDir m mt ac es)
    then obtain names where n: "cstat os p = Some \<lparr>cmode = m, cmtime = mt, catime = ac, ckind = KDir names\<rparr>"
      "filter (\<lambda>d. d \<noteq> ''.'' \<and> d \<noteq> ''..'') names = map fst es" "copen os p" using Cons(1) by auto
    then show ?thesis using rexpand_dir_tree [OF _ FDir n(2)] Cons by (simp add: FDir Let_def)
  qed (use Cons in \<open>simp add: Let_def\<close>)
qed simp

section \<open>The whole list\<close>

lemma send_exit:
  assumes "progress ws"
  shows "\<exists>ws'. progress ws' \<and> pcp_send_one os pcp \<lparr>filename = EXIT_SUBDIR_FILENAME, by_user = False\<rparr>
    \<lparr>cresp = NUL # r, csent = s, cwrites = ws\<rparr> = Continues \<lparr>cresp = r, csent = s @ EXIT_SUBDIR_FLAG, cwrites = ws'\<rparr>"
  using pcp_write_all [OF assms, of EXIT_SUBDIR_FLAG "NUL # r" s]
  by (auto simp: pcp_send_one_def pcp_sendstr_def EXIT_SUBDIR_FLAG_def pcp_response_def)

lemma send_head:
  assumes "tree_at os p t" "tree_fits (cpreserve pcp) out t" "progress ws"
    "xbasename (case output_name pcp \<lparr>filename = p, by_user = u\<rparr> of None \<Rightarrow> p | Some x \<Rightarrow> x) = xbasename out"
  shows "\<exists>ws'. progress ws' \<and> pcp_send_one os pcp \<lparr>filename = p, by_user = u\<rparr>
      \<lparr>cresp = replicate (head_acks (cpreserve pcp) t) NUL @ r, csent = s, cwrites = ws\<rparr> =
    Continues \<lparr>cresp = r, csent = s @ tree_head (cpreserve pcp) out t, cwrites = ws'\<rparr>"
proof -
  have "p \<noteq> EXIT_SUBDIR_FILENAME" using assms(1) by (cases t) simp_all
  then show ?thesis using sendfile_head [OF assms(1-3) refl assms(4), of r s] by (auto simp: pcp_send_one_def)
qed

lemma send_listing:
  assumes "tree_at os p t" "tree_fits (cpreserve pcp) out t" "progress ws"
    "xbasename (case output_name pcp \<lparr>filename = p, by_user = u\<rparr> of None \<Rightarrow> p | Some x \<Rightarrow> x) = xbasename out"
  shows "\<exists>ws'. progress ws' \<and> send_all os pcp (listing u p t @ pfs)
      \<lparr>cresp = replicate (acks (cpreserve pcp) t) NUL @ r, csent = s, cwrites = ws\<rparr> =
    send_all os pcp pfs \<lparr>cresp = r, csent = s @ wire (cpreserve pcp) out t, cwrites = ws'\<rparr>"
  using assms
proof (induction t arbitrary: p out u ws s r pfs)
  case (FFile m mt ac bs)
  then show ?case using send_head [OF FFile(1-4), of r s] by auto
next
  case (FDir m mt ac es)
  let ?pr = "cpreserve pcp"
  let ?t = "FDir m mt ac es"
  have entries: "\<exists>ws'. progress ws' \<and> send_all os pcp (concat (map (\<lambda>(n, t). listing False (p @ ''/'' @ n) t) es') @ pfs)
      \<lparr>cresp = replicate (sum_list (map (\<lambda>(n, t). acks ?pr t) es')) NUL @ r, csent = s, cwrites = ws\<rparr> =
    send_all os pcp pfs \<lparr>cresp = r, csent = s @ concat (map (\<lambda>(n, t). wire ?pr n t) es'), cwrites = ws'\<rparr>"
    if "set es' \<subseteq> set es" "progress ws" for es' ws s r pfs
    using that
  proof (induction es' arbitrary: ws s)
    case (Cons e es')
    obtain n t where e: "e = (n, t)" by force
    have in_es: "(n, t) \<in> set es" using Cons.prems e by simp
    then have "tree_at os (p @ ''/'' @ n) t" "CHR ''/'' \<notin> set n" "tree_fits ?pr n t"
      using FDir.prems(1,2) by (auto simp: list_all_iff)
    then obtain ws1 where w1: "progress ws1" "send_all os pcp (listing False (p @ ''/'' @ n) t @ concat (map (\<lambda>(n, t). listing False (p @ ''/'' @ n) t) es') @ pfs)
        \<lparr>cresp = replicate (acks ?pr t) NUL @ replicate (sum_list (map (\<lambda>(n, t). acks ?pr t) es')) NUL @ r, csent = s, cwrites = ws\<rparr> =
      send_all os pcp (concat (map (\<lambda>(n, t). listing False (p @ ''/'' @ n) t) es') @ pfs)
        \<lparr>cresp = replicate (sum_list (map (\<lambda>(n, t). acks ?pr t) es')) NUL @ r, csent = s @ wire ?pr n t, cwrites = ws1\<rparr>"
      using FDir.IH [OF in_es, of t "p @ ''/'' @ n" n ws False] Cons.prems(2) xbasename_path xbasename_plain
      by (fastforce simp: output_name_def)
    obtain ws2 where "progress ws2" "send_all os pcp (concat (map (\<lambda>(n, t). listing False (p @ ''/'' @ n) t) es') @ pfs)
        \<lparr>cresp = replicate (sum_list (map (\<lambda>(n, t). acks ?pr t) es')) NUL @ r, csent = s @ wire ?pr n t, cwrites = ws1\<rparr> =
      send_all os pcp pfs \<lparr>cresp = r, csent = (s @ wire ?pr n t) @ concat (map (\<lambda>(n, t). wire ?pr n t) es'), cwrites = ws2\<rparr>"
      using Cons.IH [OF _ w1(1), of "s @ wire ?pr n t"] Cons.prems(1) by auto
    then show ?case using w1(2) by (auto simp: e replicate_add)
  qed auto
  let ?k = "sum_list (map (\<lambda>(n, t). acks ?pr t) es)"
  obtain ws1 where w1: "progress ws1" "pcp_send_one os pcp \<lparr>filename = p, by_user = u\<rparr>
      \<lparr>cresp = replicate (head_acks ?pr ?t) NUL @ replicate ?k NUL @ NUL # r, csent = s, cwrites = ws\<rparr> =
    Continues \<lparr>cresp = replicate ?k NUL @ NUL # r, csent = s @ tree_head ?pr out ?t, cwrites = ws1\<rparr>"
    using send_head [OF FDir.prems] by blast
  let ?exit = "\<lparr>filename = EXIT_SUBDIR_FILENAME, by_user = False\<rparr>"
  let ?s2 = "(s @ tree_head ?pr out ?t) @ concat (map (\<lambda>(n, t). wire ?pr n t) es)"
  obtain ws2 where w2: "progress ws2" "send_all os pcp (concat (map (\<lambda>(n, t). listing False (p @ ''/'' @ n) t) es) @ ?exit # pfs)
      \<lparr>cresp = replicate ?k NUL @ NUL # r, csent = s @ tree_head ?pr out ?t, cwrites = ws1\<rparr> =
    send_all os pcp (?exit # pfs) \<lparr>cresp = NUL # r, csent = ?s2, cwrites = ws2\<rparr>"
    using entries [OF order_refl w1(1)] by blast
  obtain ws3 where w3: "progress ws3" "pcp_send_one os pcp ?exit \<lparr>cresp = NUL # r, csent = ?s2, cwrites = ws2\<rparr> =
      Continues \<lparr>cresp = r, csent = ?s2 @ EXIT_SUBDIR_FLAG, cwrites = ws3\<rparr>"
    using send_exit [OF w2(1)] by blast
  have k: "replicate (acks ?pr ?t) NUL @ r = replicate (head_acks ?pr ?t) NUL @ replicate ?k NUL @ NUL # r"
    by (simp only: acks.simps replicate_add append_assoc) simp
  show ?case unfolding k using w1(2) w2(2) w3 by (intro exI [of _ ws3]) simp
qed

end
