(* ===== verification/Pcp_Copy.thy ===== *)
theory Pcp_Copy
  imports Pcp
begin

text \<open>
  The server on the records of a tree: each is parsed back, and where nothing stands at the path
  the tree is built as it was.
\<close>

section \<open>Records read back\<close>

lemma read_rest_line: "LF \<notin> set r \<Longrightarrow> length r < n \<Longrightarrow> read_rest n (r @ LF # s) = Some (r @ [LF], s)"
  by (induction r arbitrary: n) auto

lemma sink_step_record:
  assumes "sinput st = c # r @ LF # s" "c \<noteq> LF" "LF \<notin> set r" "length (c # r @ [LF]) < BUFSIZ"
  shows "sink_step os svr targ isdir sv st = sink_record os svr targ isdir (c # r @ [LF]) sv (st\<lparr>sinput := s\<rparr>)"
proof -
  have "length r < BUFSIZ - 2" using assms(4) by simp
  then show ?thesis using read_rest_line [OF assms(3)] assms(1,2) by (simp add: sink_step_def)
qed

lemma getnum_dec: "s = [] \<or> \<not> isdigit (hd s) \<Longrightarrow> getnum (dec n @ s) = (n, s)"
proof -
  assume "s = [] \<or> \<not> isdigit (hd s)"
  then have s: "takeWhile isdigit s = []" "dropWhile isdigit s = s" by (cases s; auto)+
  have d: "\<And>c. c \<in> set (dec n) \<Longrightarrow> isdigit c" by (rule dec_digits)
  have "takeWhile isdigit (dec n @ s) = dec n" "dropWhile isdigit (dec n @ s) = s"
    using d s by (simp_all add: takeWhile_append2 dropWhile_append2)
  then show ?thesis by (simp add: getnum_def)
qed

lemma not_digits: "\<not> isdigit (CHR '' '')" "\<not> isdigit NUL" "\<not> isdigit LF"
  by (simp_all add: isdigit_iff NUL_def LF_def)

lemma dec_0: "dec 0 = ''0''"
  by (simp add: dec.simps)

lemma getnum_0: "getnum (CHR ''0'' # CHR '' '' # s) = (0, CHR '' '' # s)" "getnum ''0'' = (0, [])"
  using getnum_dec [of "CHR '' '' # s" 0] getnum_dec [of "[]" 0] by (simp_all add: dec_0 not_digits)

lemma show_int_nat: "0 \<le> x \<Longrightarrow> show_int 0 x = dec (nat x)"
  by (simp add: show_int_def fmt0_def)

lemma parse_times_record:
  assumes "0 \<le> mt" "0 \<le> ac"
  shows "parse_times (show_int 0 mt @ '' 0 '' @ show_int 0 ac @ '' 0'') = Inr ((nat ac, 0), (nat mt, 0))"
  using getnum_dec [of "'' 0 '' @ dec (nat ac) @ '' 0''" "nat mt"] getnum_dec [of "'' 0''" "nat ac"] assms
  by (simp add: show_int_nat parse_times_def not_digits getnum_0)

lemma octal_Cons: "d < 8 \<Longrightarrow> octal (Suc n) k (digit d # s) = octal n (8 * k + d) s"
  by (simp add: less_eq_char_def of_char_digit)

lemma octal_mode_parse: "m < 4096 \<Longrightarrow> octal 4 0 (octal_mode m @ s) = Some (m, s)"
proof -
  assume m: "m < 4096"
  have four: "(4::nat) = Suc (Suc (Suc (Suc 0)))" and b: "\<And>x::nat. x mod 8 < 8" by simp_all
  have "octal 4 0 (octal_mode m @ s) =
      Some (8 * (8 * (8 * (8 * 0 + m div 512 mod 8) + m div 64 mod 8) + m div 8 mod 8) + m mod 8, s)"
    by (simp only: octal_mode_def append.simps four octal_Cons b octal.simps(1))
  moreover have "8 * (8 * (8 * (8 * 0 + m div 512 mod 8) + m div 64 mod 8) + m div 8 mod 8) + m mod 8 = m"
  proof -
    have "m div 64 = m div 8 div 8" "m div 512 = m div 64 div 8" by (simp_all flip: div_mult2_eq)
    then have "8 * (m div 512) + m div 64 mod 8 = m div 64" "8 * (m div 64) + m div 8 mod 8 = m div 8" by simp_all
    moreover have "8 * 0 + m div 512 mod 8 = m div 512" using m by simp
    moreover have "8 * (m div 8) + m mod 8 = m" by simp
    ultimately show ?thesis by (simp only:)
  qed
  ultimately show ?thesis by (simp only:)
qed

lemma parse_file_record:
  assumes "m < 4096" "NUL \<notin> set n"
  shows "parse_file (octal_mode m @ '' '' @ dec k @ '' '' @ n) = Inr (m, k, n)"
  using getnum_dec [of "CHR '' '' # n" k] assms by (simp add: parse_file_def octal_mode_parse not_digits)

lemma records_no_LF:
  "LF \<notin> set (octal_mode m)" "LF \<notin> set (dec k)" "LF \<notin> set (show_int 0 x)"
  "LF \<noteq> CHR '' ''" "LF \<noteq> CHR ''0''" "LF \<noteq> CHR ''T''" "LF \<noteq> CHR ''C''" "LF \<noteq> CHR ''D''" "LF \<noteq> CHR ''E''" "LF \<noteq> CHR ''-''"
proof -
  have d: "digit k \<noteq> LF" if "k < 8" for k
  proof -
    have "k < 10" using that by simp
    then show ?thesis using isdigit_digit not_digits(3) by metis
  qed
  show "LF \<notin> set (octal_mode m)" using d [THEN not_sym] by (simp add: octal_mode_def)
  show k: "LF \<notin> set (dec k)" for k using dec_digits not_digits(3) by blast
  show "LF \<noteq> CHR ''-''" by (simp add: LF_def)
  then show "LF \<notin> set (show_int 0 x)" using k by (simp add: show_int_def fmt0_def)
qed (simp_all add: LF_def)

section \<open>A system where everything succeeds\<close>

definition os_fine :: "sink_os \<Rightarrow> bool" where
  "os_fine os \<longleftrightarrow> (\<forall>fs p. open_ok os fs p) \<and>
    (\<forall>p. utimes_ok os p \<and> truncate_ok os p \<and> blksize os p \<noteq> None) \<and>
    (\<forall>p pos n. n \<le> write_len os p pos n) \<and> (\<forall>n. malloc_ok os n \<and> reply_ok os n) \<and>
    (\<forall>p m. written_mode os p (written_mode os p m) = written_mode os p m)"

text \<open>
  The mode of a new directory, and of a new file when its data have been written and its size has
  been set; a second write clears no more than the first.
\<close>

definition dir_mode :: "sink_os \<Rightarrow> pcp_svr \<Rightarrow> string \<Rightarrow> nat \<Rightarrow> nat" where
  "dir_mode os svr np m = mkdir_mode os np (create_mode os svr m)"

definition file_mode :: "sink_os \<Rightarrow> pcp_svr \<Rightarrow> string \<Rightarrow> nat \<Rightarrow> nat" where
  "file_mode os svr np m = written_mode os np (open_mode os np (create_mode os svr m))"

text \<open>A system that keeps the permission bits it is asked for; the others may be dropped.\<close>

definition perms_kept :: "sink_os \<Rightarrow> bool" where
  "perms_kept os \<longleftrightarrow> (\<forall>p m. mkdir_mode os p m mod 512 = m mod 512 \<and> open_mode os p m mod 512 = m mod 512 \<and>
     written_mode os p m mod 512 = m mod 512)"

lemma perms_kept_modes:
  "perms_kept os \<Longrightarrow> dir_mode os svr np m mod 512 = create_mode os svr m mod 512 \<and>
     file_mode os svr np m mod 512 = create_mode os svr m mod 512"
  by (simp add: perms_kept_def dir_mode_def file_mode_def)

definition mkdir_fine :: "sink_os \<Rightarrow> bool" where
  "mkdir_fine os \<longleftrightarrow> (\<forall>fs p. mkdir_ok os fs p)"

lemma os_fineD:
  assumes "os_fine os"
  shows "open_ok os fs p" "utimes_ok os p" "truncate_ok os p" "\<exists>b. blksize os p = Some b"
    "min (write_len os p pos n) n = n" "malloc_ok os n" "reply_ok os n"
    "written_mode os p (written_mode os p m) = written_mode os p m"
  using assms by (auto simp: os_fine_def min_absorb2)

lemma reply_fine: "os_fine os \<Longrightarrow> reply_with os r st = st\<lparr>replies := replies st @ [r]\<rparr>"
  by (simp add: reply_with_def os_fineD(7))

lemma flush_block_fine:
  assumes "os_fine os" "sfiles st np = Some (Reg m None c)"
  shows "flush_block os np buf NO (length c) st =
    (NO, length (c @ buf), st\<lparr>sfiles := (sfiles st)(np \<mapsto> Reg (written_mode os np m) None (c @ buf))\<rparr>)"
  using assms(2) by (simp add: flush_block_def os_fineD(5) [OF assms(1)] write_at_def on_data_def Let_def)

lemma copy_data_fine:
  assumes "os_fine os" "sfiles st np = Some (Reg m None c)" "rest \<le> length (sinput st)"
  shows "\<exists>buf' c' m'. copy_data os np rest buf NO (length c) st =
      (True, buf', NO, length c', st\<lparr>sinput := drop rest (sinput st), sfiles := (sfiles st)(np \<mapsto> Reg m' None c')\<rparr>) \<and>
    c' @ buf' = c @ buf @ take rest (sinput st) \<and> written_mode os np m' = written_mode os np m"
  using assms(2,3)
proof (induction rest arbitrary: buf c m st rule: less_induct)
  case (less rest)
  show ?case
  proof (cases "rest = 0")
    case True
    have "st\<lparr>sfiles := (sfiles st)(np \<mapsto> Reg m None c)\<rparr> = st" using less.prems(1) by (simp add: fun_upd_idem)
    then show ?thesis using True by (subst copy_data.simps) (auto intro!: exI [of _ c] exI [of _ m])
  next
    case False
    define amt where "amt = min BUFSIZ rest"
    have a: "rest - amt < rest" "amt \<le> rest" "\<not> length (sinput st) < amt" "rest - amt \<le> length (drop amt (sinput st))"
      using False less.prems(2) by (auto simp: amt_def BUFSIZ_def)
    let ?st = "st\<lparr>sinput := drop amt (sinput st)\<rparr>"
    let ?buf = "buf @ take amt (sinput st)"
    have tk: "take amt (sinput st) @ take (rest - amt) (drop amt (sinput st)) = take rest (sinput st)"
      using a(2) by (metis le_add_diff_inverse take_add)
    have dr: "drop (rest - amt) (drop amt (sinput st)) = drop rest (sinput st)" using a(2) by simp
    show ?thesis
    proof (cases "length ?buf = bufcnt st")
      case True
      let ?m = "written_mode os np m"
      let ?st1 = "?st\<lparr>sfiles := (sfiles ?st)(np \<mapsto> Reg ?m None (c @ ?buf))\<rparr>"
      have fl: "flush_block os np ?buf NO (length c) ?st = (NO, length (c @ ?buf), ?st1)"
        using less.prems(1) by (intro flush_block_fine [OF assms(1)]) simp
      have p: "sfiles ?st1 np = Some (Reg ?m None (c @ ?buf))" "rest - amt \<le> length (sinput ?st1)" using a(4) by simp_all
      have e: "?st1\<lparr>sinput := drop (rest - amt) (sinput ?st1), sfiles := (sfiles ?st1)(np \<mapsto> x)\<rparr> =
          st\<lparr>sinput := drop rest (sinput st), sfiles := (sfiles st)(np \<mapsto> x)\<rparr>" for x using dr by simp
      obtain buf' c' m' where IH: "copy_data os np (rest - amt) [] NO (length (c @ ?buf)) ?st1 =
          (True, buf', NO, length c', st\<lparr>sinput := drop rest (sinput st), sfiles := (sfiles st)(np \<mapsto> Reg m' None c')\<rparr>)"
        "c' @ buf' = (c @ ?buf) @ [] @ take (rest - amt) (sinput ?st1)" "written_mode os np m' = written_mode os np ?m"
        using less.IH [OF a(1) p, of "[]"] unfolding e by blast
      have "copy_data os np rest buf NO (length c) st = copy_data os np (rest - amt) [] NO (length (c @ ?buf)) ?st1"
        using False True a(3) by (subst copy_data.simps) (simp add: Let_def fl [simplified] flip: amt_def)
      moreover have "c' @ buf' = c @ buf @ take rest (sinput st)" using IH(2) tk by simp
      ultimately show ?thesis using IH(3) os_fineD(8) [OF assms(1)] unfolding IH(1) by metis
    next
      case F: False
      have p: "sfiles ?st np = Some (Reg m None c)" "rest - amt \<le> length (sinput ?st)" using less.prems(1) a(4) by simp_all
      have e: "?st\<lparr>sinput := drop (rest - amt) (sinput ?st), sfiles := (sfiles ?st)(np \<mapsto> x)\<rparr> =
          st\<lparr>sinput := drop rest (sinput st), sfiles := (sfiles st)(np \<mapsto> x)\<rparr>" for x using dr by simp
      obtain buf' c' m' where IH: "copy_data os np (rest - amt) ?buf NO (length c) ?st =
          (True, buf', NO, length c', st\<lparr>sinput := drop rest (sinput st), sfiles := (sfiles st)(np \<mapsto> Reg m' None c')\<rparr>)"
        "c' @ buf' = c @ ?buf @ take (rest - amt) (sinput ?st)" "written_mode os np m' = written_mode os np m"
        using less.IH [OF a(1) p, of ?buf] unfolding e by blast
      have "copy_data os np rest buf NO (length c) st = copy_data os np (rest - amt) ?buf NO (length c) ?st"
        using False F a(3) by (subst copy_data.simps) (simp add: Let_def flip: amt_def)
      moreover have "c' @ buf' = c @ buf @ take rest (sinput st)" using IH(2) tk by simp
      ultimately show ?thesis using IH(3) unfolding IH(1) by blast
    qed
  qed
qed

lemma sink_data_fine:
  assumes "os_fine os" "sfiles st np = Some (Reg m None [])" "sinput st = bs @ NUL # s"
  shows "sink_data os np (length bs) sv st = Goes (sv\<lparr>setimes := 0\<rparr>)
    (st\<lparr>sinput := s, sfiles := (sfiles st)(np \<mapsto> Reg (written_mode os np m) (if setimes sv > 0 then Some (tv sv) else None) bs),
      replies := replies st @ [Ack]\<rparr>)"
proof -
  obtain buf c m' where c: "copy_data os np (length bs) [] NO 0 st =
      (True, buf, NO, length c, st\<lparr>sinput := NUL # s, sfiles := (sfiles st)(np \<mapsto> Reg m' None c)\<rparr>)" "c @ buf = bs"
    "written_mode os np m' = written_mode os np m"
    using copy_data_fine [OF assms(1,2), of "length bs" "[]"] assms(3) by auto
  let ?st = "st\<lparr>sinput := NUL # s, sfiles := (sfiles st)(np \<mapsto> Reg m' None c)\<rparr>"
  define m2 where "m2 = (if buf \<noteq> [] then written_mode os np m' else m')"
  have m2: "written_mode os np m2 = written_mode os np m" using c(3) os_fineD(8) [OF assms(1)] by (simp add: m2_def)
  have fl: "(if buf \<noteq> [] then flush_block os np buf NO (length c) ?st else (NO, length c, ?st)) =
      (NO, length bs, st\<lparr>sinput := NUL # s, sfiles := (sfiles st)(np \<mapsto> Reg m2 None bs)\<rparr>)"
    using flush_block_fine [OF assms(1), of ?st np m' c buf] c(2) by (auto simp: m2_def)
  show ?thesis
    unfolding sink_data_def c(1) by (simp add: fl Let_def truncate_to_def on_data_def os_fineD [OF assms(1)] response_def
        reply_fine [OF assms(1)] utimes_def m2)
qed


lemma allocbuf_fine: "os_fine os \<Longrightarrow> \<exists>b. allocbuf os np st = (True, st\<lparr>bufcnt := b\<rparr>)"
  using os_fineD(4) [of os np] os_fineD(6) [of os] by (auto simp: allocbuf_def Let_def)

text \<open>The times a copy has\<close>

definition node_times :: "bool \<Rightarrow> int \<Rightarrow> int \<Rightarrow> timevals option" where
  "node_times pr mt ac = (if pr then Some ((nat ac, 0), (nat mt, 0)) else None)"

lemma sink_file_fine:
  assumes "os_fine os" "sfiles st np = None" "sinput st = bs @ NUL # s"
  shows "\<exists>b. sink_file os svr np m (length bs) sv st = Goes (sv\<lparr>setimes := 0\<rparr>)
    \<lparr>sinput = s, sfiles = (sfiles st)(np \<mapsto> Reg (file_mode os svr np m) (if setimes sv > 0 then Some (tv sv) else None) bs),
     replies = replies st @ [Ack, Ack], bufcnt = b\<rparr>"
proof -
  let ?st = "st\<lparr>sfiles := (sfiles st)(np \<mapsto> Reg (open_mode os np (create_mode os svr m)) None []), replies := replies st @ [Ack]\<rparr>"
  obtain b where b: "allocbuf os np ?st = (True, ?st\<lparr>bufcnt := b\<rparr>)" using allocbuf_fine [OF assms(1)] by blast
  have "sink_file os svr np m (length bs) sv st = sink_data os np (length bs) sv (?st\<lparr>bufcnt := b\<rparr>)"
    using assms(2) b by (simp add: sink_file_def is_directory_def os_fineD [OF assms(1)] reply_fine [OF assms(1)] Let_def)
  also have "\<dots> = Goes (sv\<lparr>setimes := 0\<rparr>)
    \<lparr>sinput = s, sfiles = (sfiles st)(np \<mapsto> Reg (file_mode os svr np m) (if setimes sv > 0 then Some (tv sv) else None) bs),
     replies = replies st @ [Ack, Ack], bufcnt = b\<rparr>"
    using sink_data_fine [OF assms(1), of "?st\<lparr>bufcnt := b\<rparr>" np "open_mode os np (create_mode os svr m)" bs s sv] assms(3)
    by (simp add: file_mode_def)
  finally show ?thesis by blast
qed

section \<open>Steps of the loop\<close>

lemma sink_loop_goes: "sink_step os svr targ d sv st = Goes sv' st' \<Longrightarrow> sink_loop os svr targ d sv st = sink_loop os svr targ d sv' st'"
  by (subst sink_loop.simps) simp

lemma sink_times:
  assumes "os_fine os" "sinput st = times_part pr mt ac @ s" "setimes sv = 0" "pr \<longrightarrow> 0 \<le> mt \<and> 0 \<le> ac"
    and "length (times_part pr mt ac) < BUFSIZ"
  shows "\<exists>sv'. sink_loop os svr targ d sv st =
      sink_loop os svr targ d sv' (st\<lparr>sinput := s, replies := replies st @ replicate (if pr then 1 else 0) Ack\<rparr>) \<and>
    (if setimes sv' > 0 then Some (tv sv') else None) = node_times pr mt ac"
proof (cases pr)
  case True
  let ?r = "show_int 0 mt @ '' 0 '' @ show_int 0 ac @ '' 0''"
  have e: "times_part pr mt ac = CHR ''T'' # ?r @ [LF]" using True by (simp add: times_part_def times_record_def)
  have "LF \<notin> set ?r" using records_no_LF by auto
  then have "sink_step os svr targ d sv st = sink_record os svr targ d (CHR ''T'' # ?r @ [LF]) sv (st\<lparr>sinput := s\<rparr>)"
    using assms(2,5) e records_no_LF(6) by (intro sink_step_record) simp_all
  also have "\<dots> = Goes (sv\<lparr>setimes := 1, tv := ((nat ac, 0), (nat mt, 0))\<rparr>) (st\<lparr>sinput := s, replies := replies st @ [Ack]\<rparr>)"
    using parse_times_record [of mt ac] assms(3,4) True
    by (simp add: sink_record_def Let_def butlast_append os_fineD(7) [OF assms(1)] reply_fine [OF assms(1)])
  finally show ?thesis using sink_loop_goes True by (fastforce simp: node_times_def)
next
  case False
  then have "st\<lparr>sinput := s, replies := replies st @ replicate (if pr then 1 else 0) Ack\<rparr> = st" using assms(2) by (simp add: times_part_def)
  then show ?thesis using False assms(3) by (auto simp: node_times_def)
qed

lemma sink_entry_record:
  assumes "os_fine os" "sinput st = r @ s" "c = CHR ''C'' \<or> c = CHR ''D''" "r = c # octal_mode m @ '' '' @ dec k @ '' '' @ n @ [LF]"
    and "length r < BUFSIZ" "m < 4096" "name_ok n" "targ \<noteq> []"
  shows "\<exists>cur. sink_step os svr targ True sv st =
    (if c = CHR ''D'' then sink_directory os svr (targ @ ''/'' @ n) m (sv\<lparr>cursize := cur\<rparr>) (st\<lparr>sinput := s\<rparr>)
     else sink_file os svr (targ @ ''/'' @ n) m k (sv\<lparr>cursize := cur\<rparr>) (st\<lparr>sinput := s\<rparr>))"
proof -
  let ?r = "octal_mode m @ '' '' @ dec k @ '' '' @ n"
  have n: "LF \<notin> set n" "NUL \<notin> set n" using assms(7) by (simp_all add: name_ok_def)
  have r: "LF \<notin> set ?r" using records_no_LF n by auto
  have "sink_step os svr targ True sv st = sink_record os svr targ True (c # ?r @ [LF]) sv (st\<lparr>sinput := s\<rparr>)"
    using assms(2-5) r records_no_LF(7,8) by (intro sink_step_record) auto
  also have "\<dots> = sink_entry os svr targ True c ?r sv (st\<lparr>sinput := s\<rparr>)"
    using assms(3) by (auto simp: sink_record_def Let_def butlast_append)
  finally show ?thesis
    using parse_file_record [OF assms(6) n(2), of k] assms(8)
    by (auto simp: sink_entry_def sink_name_def os_fineD(6) [OF assms(1)] Let_def)
qed

section \<open>What stands at a path\<close>

fun nodes :: "sink_os \<Rightarrow> pcp_svr \<Rightarrow> string \<Rightarrow> ftree \<Rightarrow> (string \<times> fnode) list" where
  "nodes os svr p (FFile m mt ac bs) = [(p, Reg (file_mode os svr p m) (node_times (spreserve svr) mt ac) bs)]"
| "nodes os svr p (FDir m mt ac es) =
    (p, Directory (dir_mode os svr p m) (node_times (spreserve svr) mt ac)) #
    concat (map (\<lambda>(n, t). nodes os svr (p @ ''/'' @ n) t) es)"

definition fresh :: "file_map \<Rightarrow> string \<Rightarrow> bool" where
  "fresh fs p \<longleftrightarrow> fs p = None \<and> (\<forall>s. fs (p @ ''/'' @ s) = None)"

lemma nodes_below: "q \<in> fst ` set (nodes os svr p t) \<Longrightarrow> q = p \<or> (\<exists>s. q = p @ ''/'' @ s)"
proof (induction t arbitrary: p q)
  case (FDir m mt ac es)
  show ?case
  proof (cases "q = p")
    case False
    then obtain n t where e: "(n, t) \<in> set es" "q \<in> fst ` set (nodes os svr (p @ ''/'' @ n) t)"
      using FDir.prems by (auto simp del: append.simps)
    then show ?thesis using FDir.IH [OF e(1), of t q "p @ ''/'' @ n"] by auto
  qed simp
qed simp

lemma below_sibling:
  assumes "p @ ''/'' @ n @ s = p @ ''/'' @ n' @ s'" "CHR ''/'' \<notin> set n" "CHR ''/'' \<notin> set n'"
    "s = [] \<or> hd s = CHR ''/''" "s' = [] \<or> hd s' = CHR ''/''"
  shows "n = n'"
proof -
  have t: "takeWhile (\<lambda>c. c \<noteq> CHR ''/'') (n @ s) = n" if "CHR ''/'' \<notin> set n" "s = [] \<or> hd s = CHR ''/''" for n s :: string
  proof -
    have "takeWhile (\<lambda>c. c \<noteq> CHR ''/'') (n @ s) = n @ takeWhile (\<lambda>c. c \<noteq> CHR ''/'') s"
      by (rule takeWhile_append2) (use that in auto)
    then show ?thesis using that(2) by (cases s) auto
  qed
  show ?thesis using t [OF assms(2,4)] t [OF assms(3,5)] assms(1) by simp
qed

lemma fresh_sibling:
  assumes "fresh fs (p @ ''/'' @ n')" "n \<noteq> n'" "CHR ''/'' \<notin> set n" "CHR ''/'' \<notin> set n'"
  shows "fresh (fs ++ map_of (nodes os svr (p @ ''/'' @ n) t)) (p @ ''/'' @ n')"
proof -
  have "map_of (nodes os svr (p @ ''/'' @ n) t) (p @ ''/'' @ n' @ s') = None" if s': "s' = [] \<or> hd s' = CHR ''/''" for s'
  proof (rule ccontr)
    assume "\<not> ?thesis"
    then have "p @ ''/'' @ n' @ s' \<in> fst ` set (nodes os svr (p @ ''/'' @ n) t)" by (simp add: map_of_eq_None_iff)
    from nodes_below [OF this] show False
    proof (elim disjE exE)
      assume "p @ ''/'' @ n' @ s' = p @ ''/'' @ n"
      then show False using below_sibling [of p n' s' n "[]"] assms(2-4) s' by simp
    next
      fix s assume "p @ ''/'' @ n' @ s' = (p @ ''/'' @ n) @ ''/'' @ s"
      then show False using below_sibling [of p n' s' n "''/'' @ s"] assms(2-4) s' by simp
    qed
  qed
  from this [of "[]"] this [of "''/'' @ _"] show ?thesis using assms(1) by (simp add: fresh_def map_add_def)
qed

lemma fresh_child: "fresh fs p \<Longrightarrow> fresh (fs(p \<mapsto> x)) (p @ ''/'' @ n)"
  by (auto simp: fresh_def)

lemma fresh_keeps: "fresh fs p \<Longrightarrow> fs q = Some x \<Longrightarrow> (fs ++ map_of (nodes os svr p t)) q = Some x"
proof -
  assume f: "fresh fs p" "fs q = Some x"
  have "q \<notin> fst ` set (nodes os svr p t)"
  proof
    assume "q \<in> fst ` set (nodes os svr p t)"
    from nodes_below [OF this] show False using f by (auto simp: fresh_def)
  qed
  then show ?thesis using f(2) by (simp add: map_add_Some_iff map_of_eq_None_iff)
qed

section \<open>The server builds a tree\<close>

lemma sink_head_file:
  assumes "os_fine os" "tree_fits (spreserve svr) out (FFile m mt ac bs)" "targ \<noteq> []"
    and "sfiles st (targ @ ''/'' @ xbasename out) = None" "setimes sv = 0"
    and "sinput st = tree_head (spreserve svr) out (FFile m mt ac bs) @ s"
  shows "\<exists>sv' b. sink_loop os svr targ True sv st = sink_loop os svr targ True sv'
      \<lparr>sinput = s, sfiles = sfiles st ++ map_of (nodes os svr (targ @ ''/'' @ xbasename out) (FFile m mt ac bs)),
       replies = replies st @ replicate (head_acks (spreserve svr) (FFile m mt ac bs)) Ack, bufcnt = b\<rparr> \<and> setimes sv' = 0"
proof -
  let ?pr = "spreserve svr"
  let ?np = "targ @ ''/'' @ xbasename out"
  let ?r = "file_record \<lparr>cmode = m, cmtime = mt, catime = ac, ckind = KOther\<rparr> (length bs) out"
  have fits: "m < 4096" "name_ok (xbasename out)" "?pr \<longrightarrow> 0 \<le> mt \<and> 0 \<le> ac" "length (times_part ?pr mt ac) < BUFSIZ" "length ?r < BUFSIZ"
    using assms(2) by simp_all
  have inp: "sinput st = times_part ?pr mt ac @ ?r @ bs @ NUL # s" using assms(6) by simp
  let ?st1 = "st\<lparr>sinput := ?r @ bs @ NUL # s, replies := replies st @ replicate (if ?pr then 1 else 0) Ack\<rparr>"
  obtain sv1 where t: "sink_loop os svr targ True sv st = sink_loop os svr targ True sv1 ?st1"
    "(if setimes sv1 > 0 then Some (tv sv1) else None) = node_times ?pr mt ac"
    using sink_times [OF assms(1) inp assms(5) fits(3,4)] by blast
  have r: "?r = CHR ''C'' # octal_mode m @ '' '' @ dec (length bs) @ '' '' @ xbasename out @ [LF]" by (simp add: file_record_def)
  have i1: "sinput ?st1 = ?r @ bs @ NUL # s" by simp
  obtain cur where e: "sink_step os svr targ True sv1 ?st1 =
      sink_file os svr ?np m (length bs) (sv1\<lparr>cursize := cur\<rparr>) (?st1\<lparr>sinput := bs @ NUL # s\<rparr>)"
    using sink_entry_record [OF assms(1) i1 disjI1 [OF refl] r fits(5,1,2) assms(3), of svr sv1] by auto
  have tt: "(if setimes (sv1\<lparr>cursize := cur\<rparr>) > 0 then Some (tv (sv1\<lparr>cursize := cur\<rparr>)) else None) = node_times ?pr mt ac"
    using t(2) by (cases "setimes sv1 > 0") simp_all
  obtain b where f: "sink_file os svr ?np m (length bs) (sv1\<lparr>cursize := cur\<rparr>) (?st1\<lparr>sinput := bs @ NUL # s\<rparr>) =
      Goes (sv1\<lparr>cursize := cur, setimes := 0\<rparr>) \<lparr>sinput = s, sfiles = (sfiles st)(?np \<mapsto> Reg (file_mode os svr ?np m) (node_times ?pr mt ac) bs),
       replies = (replies st @ replicate (if ?pr then 1 else 0) Ack) @ [Ack, Ack], bufcnt = b\<rparr>"
    using sink_file_fine [OF assms(1), of "?st1\<lparr>sinput := bs @ NUL # s\<rparr>" ?np bs s svr m "sv1\<lparr>cursize := cur\<rparr>"] assms(4)
    unfolding tt by auto
  have k: "(replies st @ replicate (if ?pr then 1 else 0) Ack) @ [Ack, Ack] = replies st @ replicate (head_acks ?pr (FFile m mt ac bs)) Ack"
    by (simp add: head_acks_def numeral_2_eq_2)
  have "sink_loop os svr targ True sv st = sink_loop os svr targ True (sv1\<lparr>cursize := cur, setimes := 0\<rparr>)
      \<lparr>sinput = s, sfiles = sfiles st ++ map_of (nodes os svr ?np (FFile m mt ac bs)),
       replies = replies st @ replicate (head_acks ?pr (FFile m mt ac bs)) Ack, bufcnt = b\<rparr>"
    using sink_loop_goes [OF e [unfolded f]] t(1) unfolding k by simp
  then show ?thesis by (intro exI [of _ "sv1\<lparr>cursize := cur, setimes := 0\<rparr>"] exI [of _ b]) simp
qed

lemma sink_start_fine:
  assumes "os_fine os" "starget_is_dir svr \<Longrightarrow> is_directory (sfiles st) (soutfile svr)"
  shows "sink_start os svr p st = (Some (is_directory (sfiles st) p), st\<lparr>replies := replies st @ [Ack]\<rparr>)"
  using assms(2) by (simp add: sink_start_def verifydir_def os_fineD [OF assms(1)] reply_fine [OF assms(1)] Let_def)

lemma sink_exit:
  assumes "os_fine os" "sinput st = EXIT_SUBDIR_FLAG @ s"
  shows "sink_loop os svr targ d sv st = Some (st\<lparr>sinput := s, replies := replies st @ [Ack]\<rparr>)"
proof -
  have "sink_step os svr targ d sv st = sink_record os svr targ d (CHR ''E'' # [] @ [LF]) sv (st\<lparr>sinput := s\<rparr>)"
    using assms(2) records_no_LF(9) by (intro sink_step_record) (simp_all add: EXIT_SUBDIR_FLAG_def BUFSIZ_def)
  then have "sink_step os svr targ d sv st = Ended (st\<lparr>sinput := s, replies := replies st @ [Ack]\<rparr>)"
    by (simp add: sink_record_def os_fineD(7) [OF assms(1)] reply_fine [OF assms(1)])
  then show ?thesis by (subst sink_loop.simps) simp
qed

definition builds :: "sink_os \<Rightarrow> pcp_svr \<Rightarrow> string \<Rightarrow> string \<Rightarrow> nat \<Rightarrow> (string \<times> fnode) list \<Rightarrow> bool" where
  "builds os svr targ inp k ns \<longleftrightarrow>
    (\<forall>(sv::sink_vars) (st::sink_state) s. sinput st = inp @ s \<longrightarrow> setimes sv = 0 \<longrightarrow> (\<forall>p\<in>fst ` set ns. sfiles st p = None) \<longrightarrow>
      (starget_is_dir svr \<longrightarrow> is_directory (sfiles st) (soutfile svr)) \<longrightarrow>
      (\<exists>sv' b. sink_loop os svr targ True sv st = sink_loop os svr targ True sv'
          \<lparr>sinput = s, sfiles = sfiles st ++ map_of ns, replies = replies st @ replicate k Ack, bufcnt = b\<rparr> \<and> setimes sv' = 0))"

lemma builds_step:
  assumes "builds os svr targ inp k ns" "sinput st = inp @ s" "setimes sv = 0" "\<forall>p\<in>fst ` set ns. sfiles st p = None"
    and "starget_is_dir svr \<longrightarrow> is_directory (sfiles st) (soutfile svr)"
  shows "\<exists>sv' b. sink_loop os svr targ True sv st = sink_loop os svr targ True sv'
      \<lparr>sinput = s, sfiles = sfiles st ++ map_of ns, replies = replies st @ replicate k Ack, bufcnt = b\<rparr> \<and> setimes sv' = 0"
  using assms unfolding builds_def by blast

lemma map_of_fresh_directory:
  assumes "\<forall>p\<in>fst ` set ns. fs p = None" "is_directory fs q"
  shows "is_directory (fs ++ map_of ns) q"
proof -
  obtain m t where q: "fs q = Some (Directory m t)" using assms(2) by (auto simp: is_directory_def)
  then have "q \<notin> fst ` set ns" using assms(1) by force
  then show ?thesis using q by (auto simp: is_directory_def map_add_Some_iff map_of_eq_None_iff)
qed

lemma builds_append:
  assumes "builds os svr targ inp k ns" "builds os svr targ inp' k' ns'" "fst ` set ns \<inter> fst ` set ns' = {}"
  shows "builds os svr targ (inp @ inp') (k + k') (ns @ ns')"
  unfolding builds_def
proof (intro allI impI)
  fix sv :: sink_vars and st :: sink_state and s
  assume a: "sinput st = (inp @ inp') @ s" "setimes sv = 0" "\<forall>p\<in>fst ` set (ns @ ns'). sfiles st p = None"
    "starget_is_dir svr \<longrightarrow> is_directory (sfiles st) (soutfile svr)"
  have f: "\<forall>p\<in>fst ` set ns. sfiles st p = None" "\<forall>p\<in>fst ` set ns'. sfiles st p = None" using a(3) by auto
  obtain sv1 b where 1: "sink_loop os svr targ True sv st = sink_loop os svr targ True sv1
      \<lparr>sinput = inp' @ s, sfiles = sfiles st ++ map_of ns, replies = replies st @ replicate k Ack, bufcnt = b\<rparr>" "setimes sv1 = 0"
    using builds_step [OF assms(1) _ a(2) f(1) a(4), of "inp' @ s"] a(1) by auto
  let ?st1 = "\<lparr>sinput = inp' @ s, sfiles = sfiles st ++ map_of ns, replies = replies st @ replicate k Ack, bufcnt = b\<rparr>"
  have "sfiles ?st1 p = None" if "p \<in> fst ` set ns'" for p
  proof -
    have "p \<notin> fst ` set ns" using assms(3) that by blast
    then show ?thesis using bspec [OF f(2) that] by (simp add: map_add_def map_of_eq_None_iff split: option.split)
  qed
  moreover have "starget_is_dir svr \<longrightarrow> is_directory (sfiles ?st1) (soutfile svr)"
    using map_of_fresh_directory [OF f(1)] a(4) by simp
  ultimately obtain sv2 b' where 2: "sink_loop os svr targ True sv1 ?st1 = sink_loop os svr targ True sv2
      \<lparr>sinput = s, sfiles = sfiles ?st1 ++ map_of ns', replies = replies ?st1 @ replicate k' Ack, bufcnt = b'\<rparr>" "setimes sv2 = 0"
    using builds_step [OF assms(2) _ 1(2), of ?st1 s] by auto
  have "map_of ns ++ map_of ns' = map_of ns' ++ map_of ns"
    using assms(3) by (intro map_add_comm) (simp add: dom_map_of_conv_image_fst)
  then have m: "(sfiles st ++ map_of ns) ++ map_of ns' = sfiles st ++ map_of (ns @ ns')"
    by (simp flip: map_add_assoc)
  show "\<exists>sv' b. sink_loop os svr targ True sv st = sink_loop os svr targ True sv'
      \<lparr>sinput = s, sfiles = sfiles st ++ map_of (ns @ ns'), replies = replies st @ replicate (k + k') Ack, bufcnt = b\<rparr> \<and> setimes sv' = 0"
    using 1(1) 2 m by (auto simp: replicate_add intro!: exI [of _ sv2] exI [of _ b'])
qed

lemma builds_concat:
  assumes "\<And>n t. (n, t) \<in> set es \<Longrightarrow> builds os svr p (f n t) (g t) (nodes os svr (p @ ''/'' @ n) t) \<and> CHR ''/'' \<notin> set n"
    and "distinct (map fst es)"
  shows "builds os svr p (concat (map (\<lambda>(n, t). f n t) es)) (sum_list (map (\<lambda>(n, t). g t) es))
    (concat (map (\<lambda>(n, t). nodes os svr (p @ ''/'' @ n) t) es))"
  using assms
proof (induction es)
  case Nil
  have "\<exists>b. st = \<lparr>sinput = sinput st, sfiles = sfiles st, replies = replies st, bufcnt = b\<rparr>" for st :: sink_state by (cases st) simp
  then show ?case by (simp add: builds_def) metis
next
  case (Cons e es)
  obtain n t where e: "e = (n, t)" by force
  have dj: "fst ` set (nodes os svr (p @ ''/'' @ n) t) \<inter> fst ` set (concat (map (\<lambda>(n, t). nodes os svr (p @ ''/'' @ n) t) es)) = {}"
  proof (rule ccontr)
    assume "\<not> ?thesis"
    then obtain q n' t' where q: "q \<in> fst ` set (nodes os svr (p @ ''/'' @ n) t)" "(n', t') \<in> set es"
      "q \<in> fst ` set (nodes os svr (p @ ''/'' @ n') t')" by (auto simp del: append.simps)
    have s: "\<exists>s. q = p @ ''/'' @ k @ s \<and> (s = [] \<or> hd s = CHR ''/'')" if "q \<in> fst ` set (nodes os svr (p @ ''/'' @ k) t'')" for k t''
      using nodes_below [OF that] by (metis append_Nil2 append_assoc append_Cons append_Nil list.sel(1))
    obtain s1 s2 where "q = p @ ''/'' @ n @ s1" "s1 = [] \<or> hd s1 = CHR ''/''" "q = p @ ''/'' @ n' @ s2" "s2 = [] \<or> hd s2 = CHR ''/''"
      using s [OF q(1)] s [OF q(3)] by blast
    then have "n = n'" using below_sibling [of p n s1 n' s2] Cons.prems(1) [of n t] Cons.prems(1) [of n' t'] q(2) e by simp
    then show False using Cons.prems(2) q(2) e by (auto simp: image_iff)
  qed
  have "builds os svr p (f n t) (g t) (nodes os svr (p @ ''/'' @ n) t)" using Cons.prems(1) [of n t] e by simp
  moreover have "builds os svr p (concat (map (\<lambda>(n, t). f n t) es)) (sum_list (map (\<lambda>(n, t). g t) es))
      (concat (map (\<lambda>(n, t). nodes os svr (p @ ''/'' @ n) t) es))"
    by (rule Cons.IH) (use Cons.prems in auto)
  ultimately show ?case using builds_append [OF _ _ dj] by (simp add: e)
qed

lemma builds_file:
  assumes "os_fine os" "tree_fits (spreserve svr) out (FFile m mt ac bs)" "targ \<noteq> []"
  shows "builds os svr targ (wire (spreserve svr) out (FFile m mt ac bs)) (acks (spreserve svr) (FFile m mt ac bs))
    (nodes os svr (targ @ ''/'' @ xbasename out) (FFile m mt ac bs))"
  unfolding builds_def wire.simps acks.simps
  using sink_head_file [OF assms] by simp

lemma map_add_replaced: "(f(p \<mapsto> y) ++ map_of ns)(p \<mapsto> x) = f ++ map_of ((p, x) # ns)"
  by (rule ext) (auto simp: map_add_def split: option.split)

text \<open>A directory: its record and times, its entries, and the record that leaves it\<close>

lemma enter_directory:
  assumes fine: "os_fine os" "mkdir_fine os" and fits: "tree_fits (spreserve svr) out (FDir m mt ac es)" and targ: "targ \<noteq> []"
    and st: "sinput st = tree_head (spreserve svr) out (FDir m mt ac es) @ s" "setimes sv = 0"
      "sfiles st (targ @ ''/'' @ xbasename out) = None" "starget_is_dir svr \<longrightarrow> is_directory (sfiles st) (soutfile svr)"
  shows "\<exists>sv'. (if setimes sv' > 0 then Some (tv sv') else None) = node_times (spreserve svr) mt ac \<and>
    sink_loop os svr targ True sv st =
      Option.bind (sink_loop os svr (targ @ ''/'' @ xbasename out) True sink_vars0
          (st\<lparr>sinput := s, sfiles := (sfiles st)(targ @ ''/'' @ xbasename out \<mapsto> Directory (dir_mode os svr (targ @ ''/'' @ xbasename out) m) None),
            replies := replies st @ replicate (head_acks (spreserve svr) (FDir m mt ac es)) Ack\<rparr>))
        (\<lambda>st. case left_directory os (targ @ ''/'' @ xbasename out) sv' st of (sv, st) \<Rightarrow> sink_loop os svr targ True sv st)"
proof -
  let ?pr = "spreserve svr"
  let ?np = "targ @ ''/'' @ xbasename out"
  let ?r = "dir_record \<lparr>cmode = m, cmtime = mt, catime = ac, ckind = KOther\<rparr> out"
  have F: "m < 4096" "name_ok (xbasename out)" "?pr \<longrightarrow> 0 \<le> mt \<and> 0 \<le> ac" "length (times_part ?pr mt ac) < BUFSIZ" "length ?r < BUFSIZ"
    using fits by simp_all
  have inp: "sinput st = times_part ?pr mt ac @ ?r @ s" using st(1) by simp
  let ?st1 = "st\<lparr>sinput := ?r @ s, replies := replies st @ replicate (if ?pr then 1 else 0) Ack\<rparr>"
  obtain sv1 where t: "sink_loop os svr targ True sv st = sink_loop os svr targ True sv1 ?st1"
    "(if setimes sv1 > 0 then Some (tv sv1) else None) = node_times ?pr mt ac"
    using sink_times [OF fine(1) inp st(2) F(3,4)] by blast
  have r: "?r = CHR ''D'' # octal_mode m @ '' '' @ dec 0 @ '' '' @ xbasename out @ [LF]" by (simp add: dir_record_def dec_0)
  have i1: "sinput ?st1 = ?r @ s" by simp
  obtain cur where e: "sink_step os svr targ True sv1 ?st1 =
      sink_directory os svr ?np m (sv1\<lparr>cursize := cur\<rparr>) (?st1\<lparr>sinput := s\<rparr>)"
    using sink_entry_record [OF fine(1) i1 disjI2 [OF refl] r F(5,1,2) targ, of svr sv1] by auto
  let ?st2 = "?st1\<lparr>sinput := s, sfiles := (sfiles st)(?np \<mapsto> Directory (dir_mode os svr ?np m) None)\<rparr>"
  have st2: "sink_directory os svr ?np m (sv1\<lparr>cursize := cur\<rparr>) (?st1\<lparr>sinput := s\<rparr>) = Enters ?np (sv1\<lparr>cursize := cur\<rparr>) ?st2"
    using st(3) fine(2) by (simp add: sink_directory_def mkdir_fine_def dir_mode_def)
  have "starget_is_dir svr \<Longrightarrow> is_directory (sfiles ?st2) (soutfile svr)" using st(3,4) by (auto simp: is_directory_def)
  moreover have "is_directory (sfiles ?st2) ?np" by (simp add: is_directory_def)
  ultimately have st3: "sink_start os svr ?np ?st2 = (Some True, ?st2\<lparr>replies := replies ?st2 @ [Ack]\<rparr>)"
    using sink_start_fine [OF fine(1), of svr ?st2 ?np] by simp
  have k: "?st2\<lparr>replies := replies ?st2 @ [Ack]\<rparr> =
      st\<lparr>sinput := s, sfiles := (sfiles st)(?np \<mapsto> Directory (dir_mode os svr ?np m) None),
        replies := replies st @ replicate (head_acks ?pr (FDir m mt ac es)) Ack\<rparr>"
    by (simp add: head_acks_def)
  have "(if setimes (sv1\<lparr>cursize := cur\<rparr>) > 0 then Some (tv (sv1\<lparr>cursize := cur\<rparr>)) else None) = node_times ?pr mt ac"
    using t(2) by (cases "setimes sv1 > 0") simp_all
  moreover have "sink_loop os svr targ True sv st = Option.bind (sink_loop os svr ?np True sink_vars0 (?st2\<lparr>replies := replies ?st2 @ [Ack]\<rparr>))
      (\<lambda>st. case left_directory os ?np (sv1\<lparr>cursize := cur\<rparr>) st of (sv, st) \<Rightarrow> sink_loop os svr targ True sv st)"
    unfolding t(1) by (subst sink_loop.simps) (simp only: e st2 sink_next.case st3 prod.case option.case)
  ultimately show ?thesis unfolding k by blast
qed

lemma leave_directory:
  assumes "os_fine os" "np \<notin> fst ` set ns" "sfiles st = fs(np \<mapsto> Directory m None) ++ map_of ns"
    and "(if setimes sv > 0 then Some (tv sv) else None) = t"
  shows "left_directory os np sv st = (sv\<lparr>setimes := 0\<rparr>, st\<lparr>sfiles := fs ++ map_of ((np, Directory m t) # ns)\<rparr>)"
proof -
  have at: "(fs(np \<mapsto> Directory m None) ++ map_of ns) np = Some (Directory m None)"
    using assms(2) by (simp add: map_add_Some_iff map_of_eq_None_iff)
  show ?thesis
  proof (cases "setimes sv > 0")
    case True
    then have "t = Some (tv sv)" using assms(4) by simp
    then show ?thesis
      using True at map_add_replaced [of fs np "Directory m None" ns "Directory m (Some (tv sv))"] assms(3)
      by (simp add: left_directory_def utimes_def os_fineD(2) [OF assms(1)])
  next
    case False
    then have "t = None" "sv\<lparr>setimes := 0\<rparr> = sv" using assms(4) by simp_all
    moreover have "fs(np \<mapsto> Directory m None) ++ map_of ns = fs ++ map_of ((np, Directory m None) # ns)"
      unfolding map_add_replaced [of fs np "Directory m None" ns, symmetric] using at by (simp only: fun_upd_idem)
    ultimately show ?thesis using False assms(3) by (simp add: left_directory_def)
  qed
qed

lemma nodes_not_above: "p \<notin> fst ` set (concat (map (\<lambda>(n, t). nodes os svr (p @ ''/'' @ n) t) es))"
proof
  assume "p \<in> fst ` set (concat (map (\<lambda>(n, t). nodes os svr (p @ ''/'' @ n) t) es))"
  then obtain n t where "p \<in> fst ` set (nodes os svr (p @ ''/'' @ n) t)" by (auto simp del: append.simps)
  from nodes_below [OF this] show False by auto
qed

lemma builds_directory:
  assumes fine: "os_fine os" "mkdir_fine os" and fits: "tree_fits (spreserve svr) out (FDir m mt ac es)" and targ: "targ \<noteq> []"
    and entries: "builds os svr (targ @ ''/'' @ xbasename out) (concat (map (\<lambda>(n, t). wire (spreserve svr) n t) es))
      (sum_list (map (\<lambda>(n, t). acks (spreserve svr) t) es))
      (concat (map (\<lambda>(n, t). nodes os svr ((targ @ ''/'' @ xbasename out) @ ''/'' @ n) t) es))"
  shows "builds os svr targ (wire (spreserve svr) out (FDir m mt ac es)) (acks (spreserve svr) (FDir m mt ac es))
    (nodes os svr (targ @ ''/'' @ xbasename out) (FDir m mt ac es))"
  unfolding builds_def
proof (intro allI impI)
  let ?pr = "spreserve svr"
  let ?np = "targ @ ''/'' @ xbasename out"
  let ?W = "concat (map (\<lambda>(n, t). wire ?pr n t) es)"
  let ?K = "sum_list (map (\<lambda>(n, t). acks ?pr t) es)"
  let ?N = "concat (map (\<lambda>(n, t). nodes os svr (?np @ ''/'' @ n) t) es)"
  let ?D = "Directory (dir_mode os svr ?np m)"
  fix sv :: sink_vars and st :: sink_state and s
  assume a: "sinput st = wire ?pr out (FDir m mt ac es) @ s" "setimes sv = 0"
    "\<forall>p\<in>fst ` set (nodes os svr ?np (FDir m mt ac es)). sfiles st p = None"
    "starget_is_dir svr \<longrightarrow> is_directory (sfiles st) (soutfile svr)"
  have new: "sfiles st ?np = None" "\<forall>p\<in>fst ` set ?N. sfiles st p = None" using a(3) by simp_all
  note np_new = nodes_not_above [of ?np os svr es]
  let ?st3 = "st\<lparr>sinput := ?W @ EXIT_SUBDIR_FLAG @ s, sfiles := (sfiles st)(?np \<mapsto> ?D None),
      replies := replies st @ replicate (head_acks ?pr (FDir m mt ac es)) Ack\<rparr>"
  have inp: "sinput st = tree_head ?pr out (FDir m mt ac es) @ ?W @ EXIT_SUBDIR_FLAG @ s" using a(1) by simp
  obtain sv1 where t: "(if setimes sv1 > 0 then Some (tv sv1) else None) = node_times ?pr mt ac"
    "sink_loop os svr targ True sv st = Option.bind (sink_loop os svr ?np True sink_vars0 ?st3)
      (\<lambda>st. case left_directory os ?np sv1 st of (sv, st) \<Rightarrow> sink_loop os svr targ True sv st)"
    using enter_directory [OF fine fits targ inp a(2) new(1) a(4)] by blast
  have new3: "\<forall>p\<in>fst ` set ?N. ((sfiles st)(?np \<mapsto> ?D None)) p = None"
  proof
    fix p assume p: "p \<in> fst ` set ?N"
    then have ne: "p \<noteq> ?np" using np_new by metis
    show "((sfiles st)(?np \<mapsto> ?D None)) p = None" unfolding fun_upd_other [OF ne] by (rule bspec [OF new(2) p])
  qed
  have f3: "sfiles ?st3 = (sfiles st)(?np \<mapsto> ?D None)" and i3: "sinput ?st3 = ?W @ EXIT_SUBDIR_FLAG @ s" and sv0: "setimes sink_vars0 = 0"
    by (simp_all add: sink_vars0_def)
  have new4: "\<forall>p\<in>fst ` set ?N. sfiles ?st3 p = None" unfolding f3 by (rule new3)
  have out3: "starget_is_dir svr \<longrightarrow> is_directory (sfiles ?st3) (soutfile svr)" using a(4) new(1) by (auto simp: is_directory_def)
  obtain sv4 b where st4: "sink_loop os svr ?np True sink_vars0 ?st3 = sink_loop os svr ?np True sv4
      \<lparr>sinput = EXIT_SUBDIR_FLAG @ s, sfiles = sfiles ?st3 ++ map_of ?N, replies = replies ?st3 @ replicate ?K Ack, bufcnt = b\<rparr>"
    using builds_step [OF entries i3 sv0 new4 out3] by blast
  let ?st5 = "\<lparr>sinput = s, sfiles = (sfiles st)(?np \<mapsto> ?D None) ++ map_of ?N, replies = (replies ?st3 @ replicate ?K Ack) @ [Ack], bufcnt = b\<rparr>"
  have st5: "sink_loop os svr ?np True sink_vars0 ?st3 = Some ?st5" 
    using sink_exit [OF fine(1), where s = s and st = "?st5\<lparr>sinput := EXIT_SUBDIR_FLAG @ s, replies := replies ?st3 @ replicate ?K Ack\<rparr>"]
    unfolding st4 by simp
  have k: "(replies ?st3 @ replicate ?K Ack) @ [Ack] = replies st @ replicate (acks ?pr (FDir m mt ac es)) Ack"
    by (simp only: acks.simps replicate_add append_assoc) simp
  have st6: "left_directory os ?np sv1 ?st5 = (sv1\<lparr>setimes := 0\<rparr>, ?st5\<lparr>sfiles := sfiles st ++ map_of (nodes os svr ?np (FDir m mt ac es))\<rparr>)"
    using leave_directory [OF fine(1) np_new _ t(1), of ?st5 "sfiles st" "dir_mode os svr ?np m"] by simp
  have "sink_loop os svr targ True sv st = sink_loop os svr targ True (sv1\<lparr>setimes := 0\<rparr>)
      (?st5\<lparr>sfiles := sfiles st ++ map_of (nodes os svr ?np (FDir m mt ac es))\<rparr>)"
    unfolding t(2) st5 bind.bind_lunit st6 by simp
  then show "\<exists>sv' b. sink_loop os svr targ True sv st = sink_loop os svr targ True sv'
      \<lparr>sinput = s, sfiles = sfiles st ++ map_of (nodes os svr ?np (FDir m mt ac es)),
       replies = replies st @ replicate (acks ?pr (FDir m mt ac es)) Ack, bufcnt = b\<rparr> \<and> setimes sv' = 0"
    using k by (intro exI [of _ "sv1\<lparr>setimes := 0\<rparr>"] exI [of _ b]) simp
qed

lemma builds_tree:
  assumes "os_fine os" "mkdir_fine os" "tree_fits (spreserve svr) out t" "targ \<noteq> []"
  shows "builds os svr targ (wire (spreserve svr) out t) (acks (spreserve svr) t) (nodes os svr (targ @ ''/'' @ xbasename out) t)"
  using assms(3,4)
proof (induction t arbitrary: out targ)
  case (FFile m mt ac bs)
  then show ?case by (intro builds_file [OF assms(1)])
next
  case (FDir m mt ac es)
  let ?np = "targ @ ''/'' @ xbasename out"
  have "builds os svr ?np (wire (spreserve svr) n t) (acks (spreserve svr) t) (nodes os svr (?np @ ''/'' @ n) t) \<and> CHR ''/'' \<notin> set n"
    if "(n, t) \<in> set es" for n t
  proof -
    have "CHR ''/'' \<notin> set n" "tree_fits (spreserve svr) n t" using FDir.prems(1) that by (auto simp: list_all_iff)
    then show ?thesis using FDir.IH [of "(n, t)" t n ?np] that xbasename_plain by simp
  qed
  then show ?case using FDir.prems by (intro builds_directory [OF assms(1,2)] builds_concat) simp_all
qed

section \<open>A copy as a whole\<close>

text \<open>The name a file of the user gets: in a reverse copy that of the host is appended.\<close>

definition copy_name :: "pcp_cli \<Rightarrow> string \<Rightarrow> string" where
  "copy_name pcp p = xbasename (if cclient pcp then p @ ''.'' @ chost pcp else p)"

lemma copy_name_output:
  "xbasename (case output_name pcp \<lparr>filename = p, by_user = True\<rparr> of None \<Rightarrow> p | Some x \<Rightarrow> x) = copy_name pcp p"
proof -
  have "xtext_of (Strdup (Some p)) = p" by (simp add: Strdup_def xtext_of_def)
  then show ?thesis by (simp add: output_name_def copy_name_def)
qed

lemma xbasename_no_slash: "CHR ''/'' \<notin> set (xbasename p)"
  by (auto simp: xbasename_def dest: set_takeWhileD)

lemma copy_name_base [simp]: "xbasename (copy_name pcp p) = copy_name pcp p"
  unfolding copy_name_def by (rule xbasename_plain) (rule xbasename_no_slash)

lemma send_files:
  assumes "list_all2 (\<lambda>p t. tree_at os p t \<and> tree_fits (cpreserve pcp) (copy_name pcp p) t) ps ts" "progress ws"
  shows "\<exists>ws'. progress ws' \<and> send_all os pcp (concat (map2 (listing True) ps ts))
      \<lparr>cresp = replicate (sum_list (map (acks (cpreserve pcp)) ts)) NUL, csent = s, cwrites = ws\<rparr> =
    Continues \<lparr>cresp = [], csent = s @ concat (map2 (\<lambda>p t. wire (cpreserve pcp) (copy_name pcp p) t) ps ts), cwrites = ws'\<rparr>"
  using assms
proof (induction ps ts arbitrary: s ws rule: list_all2_induct)
  case (Cons p ps t ts)
  let ?k = "sum_list (map (acks (cpreserve pcp)) ts)"
  let ?s1 = "s @ wire (cpreserve pcp) (copy_name pcp p) t"
  obtain ws1 where 1: "progress ws1" "send_all os pcp (listing True p t @ concat (map2 (listing True) ps ts))
      \<lparr>cresp = replicate (acks (cpreserve pcp) t) NUL @ replicate ?k NUL, csent = s, cwrites = ws\<rparr> =
    send_all os pcp (concat (map2 (listing True) ps ts)) \<lparr>cresp = replicate ?k NUL, csent = ?s1, cwrites = ws1\<rparr>"
    using send_listing [of os p t pcp "copy_name pcp p" ws True] Cons(1) Cons.prems copy_name_output copy_name_base by metis
  obtain ws2 where 2: "progress ws2" "send_all os pcp (concat (map2 (listing True) ps ts)) \<lparr>cresp = replicate ?k NUL, csent = ?s1, cwrites = ws1\<rparr> =
      Continues \<lparr>cresp = [], csent = ?s1 @ concat (map2 (\<lambda>p t. wire (cpreserve pcp) (copy_name pcp p) t) ps ts), cwrites = ws2\<rparr>"
    using Cons.IH [OF 1(1)] by blast
  show ?case using 1(2) 2 by (intro exI [of _ ws2]) (simp add: replicate_add)
qed simp

text \<open>All files of the user, each with its name at the target\<close>

lemma builds_files:
  assumes fine: "os_fine os" "mkdir_fine os" and targ: "targ \<noteq> []"
    and trees: "list_all2 (\<lambda>p t. tree_fits (spreserve svr) (copy_name pcp p) t) files ts"
    and names: "distinct (map (copy_name pcp) files)"
  shows "builds os svr targ (concat (map2 (\<lambda>p t. wire (spreserve svr) (copy_name pcp p) t) files ts))
    (sum_list (map (acks (spreserve svr)) ts))
    (concat (map2 (\<lambda>p t. nodes os svr (targ @ ''/'' @ copy_name pcp p) t) files ts))"
proof -
  let ?pr = "spreserve svr"
  let ?es = "map2 (\<lambda>p t. (copy_name pcp p, t)) files ts"
  have len: "length files = length ts" using trees by (rule list_all2_lengthD)
  have W: "concat (map2 (\<lambda>p t. wire ?pr (copy_name pcp p) t) files ts) = concat (map (\<lambda>(n, t). wire ?pr n t) ?es)"
    by (rule arg_cong [of _ _ concat]) auto
  have K: "sum_list (map (acks ?pr) ts) = sum_list (map (\<lambda>(n, t). acks ?pr t) ?es)"
    by (rule arg_cong [of _ _ sum_list], rule nth_equalityI) (use len in auto)
  have N: "concat (map2 (\<lambda>p t. nodes os svr (targ @ ''/'' @ copy_name pcp p) t) files ts) =
      concat (map (\<lambda>(n, t). nodes os svr (targ @ ''/'' @ n) t) ?es)"
    by (rule arg_cong [of _ _ concat]) auto
  have b: "builds os svr targ (wire ?pr n t) (acks ?pr t) (nodes os svr (targ @ ''/'' @ n) t) \<and> CHR ''/'' \<notin> set n"
    if nt: "(n, t) \<in> set ?es" for n t
  proof -
    obtain p where p: "n = copy_name pcp p" "(p, t) \<in> set (zip files ts)" using nt by auto
    then have "tree_fits ?pr n t" using trees by (auto simp: list_all2_iff)
    then show ?thesis using builds_tree [OF fine _ targ] p(1) xbasename_no_slash copy_name_base by (metis copy_name_def)
  qed
  have "map fst ?es = map (copy_name pcp) files" by (rule nth_equalityI) (use len in auto)
  then have dist: "distinct (map fst ?es)" using names by simp
  show ?thesis unfolding W K N by (rule builds_concat [OF b dist])
qed

lemma pcp_copy:
  assumes fine: "os_fine os" "mkdir_fine os" and targ: "soutfile svr \<noteq> []" "is_directory fs (soutfile svr)" and pr: "cpreserve pcp = spreserve svr"
    and trees: "list_all2 (\<lambda>p t. tree_at cos p t \<and> caccess cos p \<and> tree_fits (spreserve svr) (copy_name pcp p) t) files ts"
    and names: "distinct (map (copy_name pcp) files)"
    and new: "\<forall>p\<in>set files. fresh fs (soutfile svr @ ''/'' @ copy_name pcp p)"
    and ws: "list_all (\<lambda>w. 0 < w) ws"
  shows "\<exists>pfs cst st. pcp_expand_dirs cos files = Some (Continues pfs) \<and>
    pcp_client cos pcp pfs \<lparr>cresp = concat (map (reply_bytes env) (replies st)), csent = [], cwrites = ws\<rparr> = Continues (0, cst) \<and>
    cresp cst = [] \<and>
    pcp_server os svr \<lparr>sinput = csent cst, sfiles = fs, replies = [], bufcnt = 0\<rparr> = Some st \<and>
    sinput st = [] \<and> set (replies st) = {Ack} \<and>
    sfiles st = fs ++ map_of (concat (map2 (\<lambda>p t. nodes os svr (soutfile svr @ ''/'' @ copy_name pcp p) t) files ts))"
proof -
  let ?pr = "spreserve svr"
  let ?W = "concat (map2 (\<lambda>p t. wire ?pr (copy_name pcp p) t) files ts)"
  let ?K = "sum_list (map (acks ?pr) ts)"
  let ?N = "concat (map2 (\<lambda>p t. nodes os svr (soutfile svr @ ''/'' @ copy_name pcp p) t) files ts)"
  have fits: "list_all2 (\<lambda>p t. tree_at cos p t \<and> tree_fits (cpreserve pcp) (copy_name pcp p) t) files ts"
    "list_all2 (\<lambda>p t. tree_at cos p t \<and> caccess cos p) files ts"
    using trees pr by (auto elim!: list_all2_mono)
  have expand: "pcp_expand_dirs cos files = Some (Continues (concat (map2 (listing True) files ts)))"
    using expand_files_listing [OF fits(2), of "[]"] by (simp add: pcp_expand_dirs_def)
  obtain ws' where client: "send_all cos pcp (concat (map2 (listing True) files ts)) \<lparr>cresp = replicate ?K NUL, csent = [], cwrites = ws\<rparr> =
      Continues \<lparr>cresp = [], csent = ?W, cwrites = ws'\<rparr>"
    using send_files [OF fits(1) ws, of "[]"] pr by auto
  have build: "builds os svr (soutfile svr) ?W ?K ?N"
    using trees by (intro builds_files [OF fine targ(1) _ names]) (auto elim!: list_all2_mono)
  let ?sta = "\<lparr>sinput = ?W, sfiles = fs, replies = [Ack], bufcnt = 0\<rparr>"
  have "sfiles ?sta q = None" if q: "q \<in> fst ` set ?N" for q
  proof -
    obtain p t where "p \<in> set files" "q \<in> fst ` set (nodes os svr (soutfile svr @ ''/'' @ copy_name pcp p) t)"
      using q by (auto dest: set_zip_leftD simp del: append.simps)
    then show ?thesis using new nodes_below [of q] by (fastforce simp: fresh_def)
  qed
  then obtain sv b where loop: "sink_loop os svr (soutfile svr) True sink_vars0 ?sta = sink_loop os svr (soutfile svr) True sv
      \<lparr>sinput = [], sfiles = fs ++ map_of ?N, replies = [Ack] @ replicate ?K Ack, bufcnt = b\<rparr>"
    using builds_step [OF build, of ?sta "[]" sink_vars0] targ(2) by (auto simp: sink_vars0_def)
  let ?st = "\<lparr>sinput = [], sfiles = fs ++ map_of ?N, replies = [Ack] @ replicate ?K Ack, bufcnt = b\<rparr>"
  have "sink_loop os svr (soutfile svr) True sv ?st = Some ?st" by (subst sink_loop.simps) (simp add: sink_step_def)
  then have server: "pcp_server os svr \<lparr>sinput = ?W, sfiles = fs, replies = [], bufcnt = 0\<rparr> = Some ?st"
    using loop targ(2) by (simp add: pcp_server_def sink_start_fine [OF fine(1)])
  have r: "concat (map (reply_bytes env) (replies ?st)) = NUL # replicate ?K NUL"
    by (simp add: reply_bytes_def)
  have "pcp_client cos pcp (concat (map2 (listing True) files ts)) \<lparr>cresp = NUL # replicate ?K NUL, csent = [], cwrites = ws\<rparr> =
      Continues (0, \<lparr>cresp = [], csent = ?W, cwrites = ws'\<rparr>)"
    using client by (simp add: pcp_client_def pcp_response_def)
  moreover have "set (replicate ?K Ack) \<subseteq> {Ack}" by auto
  ultimately show ?thesis using expand server r by (intro exI [of _ "concat (map2 (listing True) files ts)"]
      exI [of _ "\<lparr>cresp = [], csent = ?W, cwrites = ws'\<rparr>"] exI [of _ ?st]) simp
qed

section \<open>A directory that is refused\<close>

lemma fd_read_line_line: "LF \<notin> set w \<Longrightarrow> length w < n \<Longrightarrow> fd_read_line n (w @ LF # s) = (w @ [LF], s)"
proof (induction w arbitrary: n)
  case Nil
  then show ?case by (cases n) simp_all
next
  case (Cons c w)
  then show ?case by (cases n) auto
qed

lemma response_complaint:
  assumes "reply_bytes env c = CHR 0x01 # w @ [LF]" "LF \<notin> set w" "length w < BUFSIZ - 1"
  shows "pcp_response \<lparr>cresp = reply_bytes env c @ r, csent = s, cwrites = ws\<rparr> =
    (-1, \<lparr>cresp = r, csent = s, cwrites = ws\<rparr>)"
  using fd_read_line_line [OF assms(2,3), of r] assms(1) by (simp add: pcp_response_def NUL_def)

text \<open>The client sends the record of the directory and takes the refusal as the end of this file only.\<close>

lemma send_refused:
  assumes "tree_at os p (FDir m mt ac es)" "tree_fits False out (FDir m mt ac es)" "\<not> cpreserve pcp" "progress ws"
    and "xbasename (case output_name pcp \<lparr>filename = p, by_user = u\<rparr> of None \<Rightarrow> p | Some x \<Rightarrow> x) = xbasename out"
    and "reply_bytes env c = CHR 0x01 # w @ [LF]" "LF \<notin> set w" "length w < BUFSIZ - 1"
  shows "\<exists>ws'. progress ws' \<and> pcp_send_one os pcp \<lparr>filename = p, by_user = u\<rparr>
      \<lparr>cresp = reply_bytes env c @ r, csent = s, cwrites = ws\<rparr> =
    Continues \<lparr>cresp = r, csent = s @ tree_head False out (FDir m mt ac es), cwrites = ws'\<rparr>"
proof -
  let ?o = "case output_name pcp \<lparr>filename = p, by_user = u\<rparr> of None \<Rightarrow> p | Some x \<Rightarrow> x"
  obtain names where st: "cstat os p = Some \<lparr>cmode = m, cmtime = mt, catime = ac, ckind = KDir names\<rparr>" "p \<noteq> EXIT_SUBDIR_FILENAME"
    using assms(1) by auto
  let ?r = "dir_record \<lparr>cmode = m, cmtime = mt, catime = ac, ckind = KDir names\<rparr> ?o"
  have r: "?r = tree_head False out (FDir m mt ac es)" using assms(5) by (simp add: dir_record_def times_part_def)
  then have "length ?r < BUFSIZ" using assms(2) by (simp add: times_part_def)
  then have t: "take (BUFSIZ - 1) ?r = ?r" by simp
  obtain ws' where w: "progress ws'" "pcp_write ?r \<lparr>cresp = reply_bytes env c @ r, csent = s, cwrites = ws\<rparr> =
      (int (length ?r), \<lparr>cresp = reply_bytes env c @ r, csent = s @ ?r, cwrites = ws'\<rparr>)"
    using pcp_write_all [OF assms(4)] by blast
  note resp = response_complaint [OF assms(6-8), of r "s @ ?r" ws']
  have "send_record ?r \<lparr>cresp = reply_bytes env c @ r, csent = s, cwrites = ws\<rparr> (\<lambda>st. Continues (1, st)) =
      Continues (0, \<lparr>cresp = r, csent = s @ ?r, cwrites = ws'\<rparr>)"
    unfolding send_record_def t by (simp add: pcp_sendstr_def records_end w(2) unless_failed_def resp)
  then have "pcp_send_one os pcp \<lparr>filename = p, by_user = u\<rparr>
      \<lparr>cresp = reply_bytes env c @ r, csent = s, cwrites = ws\<rparr> =
    Continues \<lparr>cresp = r, csent = s @ ?r, cwrites = ws'\<rparr>"
    using assms(3) st by (simp add: pcp_send_one_def pcp_sendfile_def Let_def)
  then show ?thesis using w(1) unfolding r by blast
qed

lemma LF_plain: "LF \<noteq> CHR ''/''" "LF \<noteq> CHR '':''" "LF \<noteq> CHR '' ''"
  by (simp_all add: LF_def)

lemma complaint_text:
  "reply_bytes env (Complaint (''%s: %m'' @ [LF]) [Str s]) = CHR 0x01 # s @ '': '' @ strerror env @ [LF]"
  by (simp add: reply_bytes_def verr_simps LF_def)

lemma refused_sent:
  assumes pr: "\<not> cpreserve pcp"
    and tree: "tree_at cos p t" "caccess cos p" "tree_fits False (copy_name pcp p) t" "t = FDir m mt ac [(n, FFile m' mt' ac' bs)]"
    and c: "reply_bytes env c = CHR 0x01 # w @ [LF]" "LF \<notin> set w" "length w < BUFSIZ - 1" and ws: "list_all (\<lambda>w. 0 < w) ws"
  shows "\<exists>pfs ws'. pcp_expand_dirs cos [p] = Some (Continues pfs) \<and>
    pcp_client cos pcp pfs \<lparr>cresp = NUL # reply_bytes env c @ [NUL, NUL, NUL], csent = [], cwrites = ws\<rparr> =
      Continues (0, \<lparr>cresp = [], csent = tree_head False (copy_name pcp p) t @ tree_head False n (FFile m' mt' ac' bs) @ EXIT_SUBDIR_FLAG,
        cwrites = ws'\<rparr>)"
proof -
  let ?f = "FFile m' mt' ac' bs"
  let ?file = "\<lparr>filename = p @ ''/'' @ n, by_user = False\<rparr>"
  let ?exit = "\<lparr>filename = EXIT_SUBDIR_FILENAME, by_user = False\<rparr>"
  let ?C = "reply_bytes env c"
  let ?H = "tree_head False (copy_name pcp p) t"
  let ?F = "tree_head False n ?f"
  have n: "CHR ''/'' \<notin> set n" "tree_fits False n ?f" "tree_at cos (p @ ''/'' @ n) ?f" using tree by simp_all
  have pfs: "pcp_expand_dirs cos [p] = Some (Continues [\<lparr>filename = p, by_user = True\<rparr>, ?file, ?exit])"
    using expand_files_listing [of cos "[p]" "[t]" "[]"] tree by (simp add: pcp_expand_dirs_def)
  have x0: "xbasename (case output_name pcp \<lparr>filename = p, by_user = True\<rparr> of None \<Rightarrow> p | Some x \<Rightarrow> x) = xbasename (copy_name pcp p)"
    unfolding copy_name_output by simp
  obtain ws1 where 1: "progress ws1" "pcp_send_one cos pcp \<lparr>filename = p, by_user = True\<rparr>
      \<lparr>cresp = ?C @ [NUL, NUL, NUL], csent = [], cwrites = ws\<rparr> =
    Continues \<lparr>cresp = [NUL, NUL, NUL], csent = ?H, cwrites = ws1\<rparr>"
    using send_refused [OF tree(1) [unfolded tree(4)] tree(3) [unfolded tree(4)] pr ws x0 c,
        of "[NUL, NUL, NUL]" "[]"] tree(4) by auto
  have x: "xbasename (case output_name pcp ?file of None \<Rightarrow> p @ ''/'' @ n | Some x \<Rightarrow> x) = xbasename n"
    using xbasename_path [OF n(1)] xbasename_plain [OF n(1)] by (simp add: output_name_def)
  obtain ws2 where 2: "progress ws2" "pcp_send_one cos pcp ?file \<lparr>cresp = [NUL, NUL, NUL], csent = ?H, cwrites = ws1\<rparr> =
    Continues \<lparr>cresp = [NUL], csent = ?H @ ?F, cwrites = ws2\<rparr>"
    using send_head [OF n(3) _ 1(1) x, of "[NUL]" ?H] n(2) pr by (auto simp: head_acks_def numeral_2_eq_2)
  obtain ws3 where 3: "pcp_send_one cos pcp ?exit \<lparr>cresp = [NUL], csent = ?H @ ?F, cwrites = ws2\<rparr> =
    Continues \<lparr>cresp = [], csent = (?H @ ?F) @ EXIT_SUBDIR_FLAG, cwrites = ws3\<rparr>"
    using send_exit [OF 2(1), of cos pcp "[]"] by blast
  show ?thesis using pfs 1(2) 2(2) 3 by (simp add: pcp_client_def pcp_response_def)
qed

lemma refused_received:
  assumes fine: "os_fine os" "\<not> mkdir_ok os fs (soutfile svr @ ''/'' @ d)" and pr: "\<not> spreserve svr" and d: "xbasename d = d"
    and targ: "soutfile svr \<noteq> []" "is_directory fs (soutfile svr)"
    and tree: "tree_fits False d t" "t = FDir m mt ac [(n, FFile m' mt' ac' bs)]"
    and new: "fs (soutfile svr @ ''/'' @ d) = None" "fs (soutfile svr @ ''/'' @ n) = None"
  shows "\<exists>b. pcp_server os svr
      \<lparr>sinput = tree_head False d t @ tree_head False n (FFile m' mt' ac' bs) @ EXIT_SUBDIR_FLAG, sfiles = fs, replies = [], bufcnt = 0\<rparr> =
    Some \<lparr>sinput = [], sfiles = fs(soutfile svr @ ''/'' @ n \<mapsto> Reg (file_mode os svr (soutfile svr @ ''/'' @ n) m') None bs),
       replies = [Ack, Complaint (''%s: %m'' @ [LF]) [Str (soutfile svr @ ''/'' @ d)], Ack, Ack, Ack], bufcnt = b\<rparr>"
proof -
  let ?F = "tree_head False n (FFile m' mt' ac' bs)"
  let ?fs = "fs(soutfile svr @ ''/'' @ n \<mapsto> Reg (file_mode os svr (soutfile svr @ ''/'' @ n) m') None bs)"
  let ?r = "dir_record \<lparr>cmode = m, cmtime = mt, catime = ac, ckind = KOther\<rparr> d"
  let ?start = "\<lparr>sinput = ?r @ ?F @ EXIT_SUBDIR_FLAG, sfiles = fs, replies = [Ack], bufcnt = 0\<rparr>"
  have n: "xbasename n = n" "tree_fits False n (FFile m' mt' ac' bs)" using tree by (auto intro: xbasename_plain)
  have H: "tree_head False d t = ?r" using tree(2) by (simp add: times_part_def)
  have r: "?r = CHR ''D'' # octal_mode m @ '' '' @ dec 0 @ '' '' @ d @ [LF]" by (simp add: dir_record_def dec_0 d)
  have F: "length ?r < BUFSIZ" "m < 4096" "name_ok d" using tree d by simp_all
  have i: "sinput ?start = ?r @ ?F @ EXIT_SUBDIR_FLAG" by simp
  obtain cur where "sink_step os svr (soutfile svr) True sink_vars0 ?start =
      sink_directory os svr (soutfile svr @ ''/'' @ d) m (sink_vars0\<lparr>cursize := cur\<rparr>) (?start\<lparr>sinput := ?F @ EXIT_SUBDIR_FLAG\<rparr>)"
    using sink_entry_record [OF fine(1) i disjI2 [OF refl] r F targ(1), of svr sink_vars0] by auto
  let ?sv1 = "sink_vars0\<lparr>cursize := cur\<rparr>"
  let ?st1 = "\<lparr>sinput = ?F @ EXIT_SUBDIR_FLAG, sfiles = fs, replies = [Ack, Complaint (''%s: %m'' @ [LF]) [Str (soutfile svr @ ''/'' @ d)]], bufcnt = 0\<rparr>"
  have "sink_step os svr (soutfile svr) True sink_vars0 ?start = Goes ?sv1 ?st1"
    using \<open>sink_step _ _ _ _ _ _ = _\<close> fine(2) new(1) by (simp add: sink_directory_def complain_def reply_fine [OF fine(1)])
  note loop1 = sink_loop_goes [OF this]
  have f1: "sfiles ?st1 (soutfile svr @ ''/'' @ xbasename n) = None" using new(2) n(1) by simp
  obtain sv2 b where loop2: "sink_loop os svr (soutfile svr) True ?sv1 ?st1 = sink_loop os svr (soutfile svr) True sv2
      \<lparr>sinput = EXIT_SUBDIR_FLAG, sfiles = ?fs, replies = [Ack, Complaint (''%s: %m'' @ [LF]) [Str (soutfile svr @ ''/'' @ d)], Ack, Ack], bufcnt = b\<rparr>"
    using sink_head_file [OF fine(1) _ targ(1) f1, of svr m' mt' ac' bs ?sv1 EXIT_SUBDIR_FLAG] n pr
    by (auto simp: sink_vars0_def node_times_def head_acks_def numeral_2_eq_2)
  let ?stop = "\<lparr>sinput = EXIT_SUBDIR_FLAG, sfiles = ?fs, replies = [Ack, Complaint (''%s: %m'' @ [LF]) [Str (soutfile svr @ ''/'' @ d)], Ack, Ack], bufcnt = b\<rparr>"
  have "sink_loop os svr (soutfile svr) True sink_vars0 ?start = Some (?stop\<lparr>sinput := [], replies := replies ?stop @ [Ack]\<rparr>)"
    unfolding loop1 loop2 using sink_exit [OF fine(1), where st = ?stop and s = "[]"] by simp
  then show ?thesis using targ(2) unfolding H by (simp add: pcp_server_def sink_start_fine [OF fine(1)])
qed

lemma refused_directory:
  assumes fine: "os_fine os" "\<not> mkdir_ok os fs (soutfile svr @ ''/'' @ copy_name pcp p)"
    and targ: "soutfile svr \<noteq> []" "is_directory fs (soutfile svr)" and pr: "\<not> cpreserve pcp" "\<not> spreserve svr"
    and tree: "tree_at cos p t" "caccess cos p" "tree_fits False (copy_name pcp p) t" "t = FDir m mt ac [(n, FFile m' mt' ac' bs)]"
    and new: "fs (soutfile svr @ ''/'' @ copy_name pcp p) = None" "fs (soutfile svr @ ''/'' @ n) = None"
    and err: "LF \<notin> set (soutfile svr)" "LF \<notin> set (strerror env)"
      "length (soutfile svr) + length (copy_name pcp p) + length (strerror env) + 4 < BUFSIZ" and ws: "list_all (\<lambda>w. 0 < w) ws"
  shows "\<exists>pfs cst st. pcp_expand_dirs cos [p] = Some (Continues pfs) \<and>
    pcp_client cos pcp pfs \<lparr>cresp = concat (map (reply_bytes env) (replies st)), csent = [], cwrites = ws\<rparr> = Continues (0, cst) \<and>
    cresp cst = [] \<and>
    pcp_server os svr \<lparr>sinput = csent cst, sfiles = fs, replies = [], bufcnt = 0\<rparr> = Some st \<and>
    sinput st = [] \<and> sfiles st = fs(soutfile svr @ ''/'' @ n \<mapsto> Reg (file_mode os svr (soutfile svr @ ''/'' @ n) m') None bs)"
proof -
  let ?np = "soutfile svr @ ''/'' @ copy_name pcp p"
  let ?c = "Complaint (''%s: %m'' @ [LF]) [Str ?np]"
  let ?w = "?np @ '': '' @ strerror env"
  have "name_ok (copy_name pcp p)" using tree(3,4) copy_name_base [of pcp p] by simp
  then have c: "reply_bytes env ?c = CHR 0x01 # ?w @ [LF]" "LF \<notin> set ?w" "length ?w < BUFSIZ - 1"
    using err LF_plain complaint_text [of env ?np] by (simp_all add: name_ok_def)
  let ?H = "tree_head False (copy_name pcp p) t @ tree_head False n (FFile m' mt' ac' bs) @ EXIT_SUBDIR_FLAG"
  obtain pfs ws' where cl: "pcp_expand_dirs cos [p] = Some (Continues pfs)"
    "pcp_client cos pcp pfs \<lparr>cresp = NUL # reply_bytes env ?c @ [NUL, NUL, NUL], csent = [], cwrites = ws\<rparr> =
      Continues (0, \<lparr>cresp = [], csent = ?H, cwrites = ws'\<rparr>)"
    using refused_sent [OF pr(1) tree c ws] by blast
  obtain b where s: "pcp_server os svr \<lparr>sinput = ?H, sfiles = fs, replies = [], bufcnt = 0\<rparr> =
      Some \<lparr>sinput = [], sfiles = fs(soutfile svr @ ''/'' @ n \<mapsto> Reg (file_mode os svr (soutfile svr @ ''/'' @ n) m') None bs),
        replies = [Ack, ?c, Ack, Ack, Ack], bufcnt = b\<rparr>" (is "_ = Some ?st")
    using refused_received [OF fine pr(2) copy_name_base targ tree(3,4) new] by blast
  have "concat (map (reply_bytes env) (replies ?st)) = NUL # reply_bytes env ?c @ [NUL, NUL, NUL]"
    by (simp add: reply_bytes_def)
  then show ?thesis using cl s by (intro exI [of _ pfs] exI [of _ "\<lparr>cresp = [], csent = ?H, cwrites = ws'\<rparr>"] exI [of _ ?st]) simp
qed

end
