(* ===== verification/Hostlist_Filter.thy ===== *)
theory Hostlist_Filter
  imports Hostlist_Iter
begin

text \<open>
  Removing hosts while iterating: where \<open>hostlist_remove\<close> leaves its iterator, and the
  loop of \<open>hostlist_filter_regex\<close> (\<open>pdsh/opt.c\<close>) that keeps the hosts a regular
  expression selects. An iterator may be moved back over hosts it has passed, but never past the
  place of the removed host, so the loop ends and misses none.
\<close>

section \<open>The iterator after a removal\<close>

lemma delete_host_frame:
  assumes "hostrange_delete_host hr n = (new, hr')" "n \<le> hi hr" "n \<noteq> lo hr \<Longrightarrow> 0 < n"
  shows "unat (hi hr') \<le> unat (hi hr) \<and> width hr' = width hr \<and> singlehost hr' = singlehost hr \<and>
    (\<forall>h. new = Some h \<longrightarrow> singlehost h \<and> singlehost hr \<or> hi h = hi hr \<and> width h = width hr \<and> singlehost h = singlehost hr)"
proof -
  have "0 < n \<Longrightarrow> unat (n - 1) \<le> unat (hi hr)"
    using assms(2) by (metis less_imp_le order_trans unat_mono word_le_nat_alt word_less_1 word_not_simps(1) measure_unat)
  moreover have "hi (hostrange_copy hr) = hi hr \<or> singlehost hr" "width (hostrange_copy hr) = width hr \<or> singlehost hr"
    "singlehost (hostrange_copy hr) = singlehost hr"
    by (simp_all add: hostrange_copy_def hostrange_create_def hostrange_create_single_def)
  ultimately show ?thesis using assms
    by (auto simp: hostrange_delete_host_def split: if_splits)
qed

lemma hostlist_remove_iter:
  assumes "hl_ok hl" "k < length (ilist hl)" "iter_ok (hranges hl) (ilist hl ! k)"
    and "hidx (ilist hl ! k) < int (length (hranges hl))" "0 \<le> hdepth (ilist hl ! k)"
    and "hostlist_remove hl k = Some (x, hl')"
  defines "p \<equiv> iter_pos (hranges hl) (ilist hl ! k)"
  shows "length (ilist hl') = length (ilist hl)" "iter_ok (hranges hl') (ilist hl' ! k)"
    "iter_pos (hranges hl') (ilist hl' ! k) \<le> p - 1"
    "suffixes_fit hl \<Longrightarrow> suffixes_fit hl'"
proof -
  define i where "i = ilist hl ! k"
  define j where "j = nat (hidx i)"
  define m where "m = nat (hdepth i)"
  define rs where "rs = hranges hl"
  define r where "r = rs ! j"
  have I: "hidx i = int j" "hdepth i = int m" "hfresh i" "j < length rs" "m < length (hr_hosts r)"
    using assms(3-5) by (auto simp: i_def j_def m_def r_def rs_def iter_ok_def)
  have p: "p - 1 = before rs j + m"
    using I assms(4) by (simp add: p_def rs_def i_def [symmetric] iter_pos_def j_def nat_add_distrib)
  have ok: "hr_ok r" using hl_okD(1) [OF assms(1)] I(4) by (simp add: r_def rs_def list_all_length range_ok_def)
  obtain new hr where d: "hostrange_delete_host r (lo r + of_int (hdepth i)) = (new, hr)" by force
  have d': "hostrange_delete_host r (lo r + of_nat m) = (new, hr)" using d by (simp add: I(2))
  have K: "hidx (ilist hl ! k) = int j" "hdepth (ilist hl ! k) = int m" "hfresh (ilist hl ! k)"
    "hostrange_delete_host (hranges hl ! j) (lo (hranges hl ! j) + of_nat m) = (new, hr)"
    using I d' by (simp_all add: i_def [symmetric] rs_def r_def)
  have R: "hl' = (let hl = hl\<lparr>hranges := rs[j := hr]\<rparr>; hl =
      (case new of
         Some new \<Rightarrow>
           let hl = snd (hostlist_insert_range hl new (j + 1))
           in hl\<lparr>ilist := (ilist hl)[k := (ilist hl ! k)\<lparr>hidx := int j + 1, hdepth := -1,
                    hfresh := (int j + 1 < int (length (hranges hl)))\<rparr>]\<rparr>
       | None \<Rightarrow>
           if hostrange_empty hr then hostlist_delete_range hl j
           else hl\<lparr>ilist := (ilist hl)[k := i\<lparr>hdepth := int m - 1\<rparr>]\<rparr>)
      in hl\<lparr>nhosts := nhosts hl - 1\<rparr>)"
    using assms(6) K unfolding hostlist_remove_def Let_def K(1,2) i_def rs_def
    by (simp add: K(4)) (auto simp: K split: option.splits)
  have bf: "before (rs[j := q] @ xs) j = before rs j" for q xs using I(4) by (simp add: before_def)
  have goal: "length (ilist hl') = length (ilist hl) \<and> iter_ok (hranges hl') (ilist hl' ! k) \<and>
    iter_pos (hranges hl') (ilist hl' ! k) \<le> before rs j + m \<and> (suffixes_fit hl \<longrightarrow> suffixes_fit hl')"
  proof (cases "new = None \<and> hostrange_empty hr")
    case True
    have m: "m = 0"
    proof (cases "singlehost r")
      case True
      then show ?thesis using I(5) by (simp add: hr_hosts_def)
    next
      case False
      then have "length (hr_hosts r) = 1"
        using hostrange_delete_host_spec(1) [OF ok False I(5) refl d'] True by blast
      then show ?thesis using I(5) by simp
    qed
    have rs': "hranges hl' = take j rs @ drop (Suc j) rs"
      using R True by (simp add: hostlist_delete_range_def hostlist_shift_iterators_def Let_def)
    have ne: "r' \<in> set rs \<Longrightarrow> hr_hosts r' \<noteq> []" for r'
      using hl_okD(1) [OF assms(1)] hr_hosts_ne by (auto simp: list_all_iff range_ok_def rs_def)
    show ?thesis
    proof (cases j)
      case 0
      then have "ilist hl' ! k = hostlist_iterator_reset (drop 1 rs) (i\<lparr>hidx := - 1\<rparr>)"
        using R True assms(2) I
        by (simp add: hostlist_delete_range_def hostlist_shift_iterators_def Let_def i_def [symmetric])
      moreover have "length (ilist hl') = length (ilist hl)"
        using R True by (simp add: hostlist_delete_range_def hostlist_shift_iterators_def Let_def)
      ultimately show ?thesis
        using rs' 0 by (auto simp: hostlist_iterator_reset_def iter_ok_def iter_pos_def before_def suffixes_fit_def
            rs_def list_all_iff dest: in_set_dropD)
    next
      case (Suc j0)
      have it: "ilist hl' ! k = i\<lparr>hidx := int j0, hfresh := True\<rparr>" "length (ilist hl') = length (ilist hl)"
        using R True assms(2) I Suc
        by (simp_all add: hostlist_delete_range_def hostlist_shift_iterators_def Let_def i_def [symmetric])
      have n: "hranges hl' ! j0 = rs ! j0" "j0 < length (hranges hl')" using rs' I(4) Suc by (simp_all add: nth_append)
      have "0 < length (hr_hosts (rs ! j0))" using ne [of "rs ! j0"] I(4) Suc by simp
      moreover have "before (hranges hl') j0 = before rs j0" using rs' Suc I(4) by (simp add: before_def)
      moreover have "before rs (Suc j0) = before rs j0 + length (hr_hosts (rs ! j0))"
        using before_Suc [of j0 rs] I(4) Suc by simp
      ultimately show ?thesis
        using it n I(2) m rs' Suc
        by (auto simp: iter_ok_def iter_pos_def suffixes_fit_def rs_def list_all_iff Suc_le_eq dest: in_set_takeD in_set_dropD)
    qed
  next
    case ne: False
    have ns: "\<not> singlehost r"
    proof
      assume "singlehost r"
      then have "new = None \<and> hostrange_empty hr" using d' ok I(5)
        by (auto simp: hostrange_delete_host_def hr_ok_def hr_hosts_def hostrange_empty_def)
      then show False using ne by blast
    qed
    note S = hostrange_delete_host_spec [OF ok ns I(5) refl d']
    have un: "unat (lo r + of_nat m :: ulong) = unat (lo r) + m" and le: "unat (lo r) + m \<le> unat (hi r)"
      using unat_nth_number [OF ok ns I(5)] by simp_all
    have fit: "unat (hi hr) \<le> unat (hi r) \<and> width hr = width r \<and> singlehost hr = singlehost r \<and>
      (\<forall>h. new = Some h \<longrightarrow> singlehost h \<and> singlehost r \<or> hi h = hi r \<and> width h = width r \<and> singlehost h = singlehost r)"
      by (rule delete_host_frame [OF d']) (use un le in \<open>auto simp: word_le_nat_alt word_less_nat_alt\<close>)
    have fits: "suffixes_fit hl \<Longrightarrow> singlehost q \<or> width q \<le> 14 \<and> unat (hi q) < 10 ^ 14" if "q = hr \<or> new = Some q" for q
      using that fit I(4) by (auto simp: suffixes_fit_def list_all_length rs_def r_def)
    show ?thesis
    proof (cases new)
      case None
      then have rs': "hranges hl' = rs[j := hr]" and it: "ilist hl' ! k = i\<lparr>hdepth := int m - 1\<rparr>"
        "length (ilist hl') = length (ilist hl)"
        using R ne assms(2) by (simp_all add: Let_def)
      have "length (hr_hosts hr) = length (hr_hosts r) - 1" using S(2) None ne I(5) by simp
      moreover have "suffixes_fit hl \<Longrightarrow> suffixes_fit hl'"
        using fits [of hr] set_update_subset_insert [of rs j hr]
        by (auto simp: suffixes_fit_def rs' list_all_iff rs_def [symmetric])
      ultimately show ?thesis
        using it rs' I bf [of hr "[]"] by (auto simp: iter_ok_def iter_pos_def)
    next
      case (Some h)
      have rs': "hranges hl' = take (Suc j) (rs[j := hr]) @ hostrange_copy h # drop (Suc j) rs"
        using R Some I(4) by (simp add: hostlist_insert_range_def Let_def)
      have it: "hidx (ilist hl' ! k) = int j + 1" "hdepth (ilist hl' ! k) = -1" "hfresh (ilist hl' ! k)"
        "length (ilist hl') = length (ilist hl)"
        using R Some I(4) assms(2) by (simp_all add: hostlist_insert_range_def Let_def)
      have "before (hranges hl') (Suc j) = before rs j + m"
        using S(3) [OF Some] I(4,5) by (simp add: rs' before_def take_Suc_conv_app_nth)
      moreover have "suffixes_fit hl \<Longrightarrow> suffixes_fit hl'"
      proof -
        assume f: "suffixes_fit hl"
        have el: "q \<in> set rs \<or> q = hr \<or> q = hostrange_copy h" if "q \<in> set (hranges hl')" for q
          using that set_update_subset_insert [of rs j hr] unfolding rs'
          by (auto dest: in_set_takeD in_set_dropD)
        have c: "width (hostrange_copy h) = width h" "hi (hostrange_copy h) = hi h" "\<not> singlehost h"
          using S(3) [OF Some] by (simp_all add: hostrange_copy_def hostrange_create_def)
        have "singlehost q \<or> width q \<le> 14 \<and> unat (hi q) < 10 ^ 14" if "q \<in> set (hranges hl')" for q
          using el [OF that] fits [OF _ f, of hr] fits [OF _ f, of h] c Some f
          by (elim disjE) (simp_all add: suffixes_fit_def list_all_iff rs_def)
        then show ?thesis by (simp add: suffixes_fit_def list_all_iff)
      qed
      moreover have "nat (int j + 1) = Suc j" by simp
      ultimately show ?thesis
        using it I(4) by (auto simp: iter_ok_def iter_pos_def rs')
    qed
  qed
  then show "length (ilist hl') = length (ilist hl)" "iter_ok (hranges hl') (ilist hl' ! k)"
    "iter_pos (hranges hl') (ilist hl' ! k) \<le> p - 1" "suffixes_fit hl \<Longrightarrow> suffixes_fit hl'"
    using p by simp_all
qed

section \<open>Filtering\<close>

text \<open>What \<open>regexec\<close> answers: 0, \<open>REG_NOMATCH\<close> or another code\<close>

datatype regexec_rc = RegMatch | RegNoMatch | RegError

record regex_info =
  rexclude :: bool
  rpattern :: string

text \<open>
  The loop runs on the first iterator of the list; \<open>regexec\<close> is a parameter. \<open>None\<close>
  is a loop that does not end, or an access through a stale pointer.
\<close>

partial_function (option) filter_regex_loop ::
  "(string \<Rightarrow> string \<Rightarrow> regexec_rc) \<Rightarrow> regex_info \<Rightarrow> hostlist \<Rightarrow> hostlist option" where
  "filter_regex_loop regexec re hl =
    (case hostlist_next hl (ilist hl ! 0) of
       None \<Rightarrow> None
     | Some (host, i) \<Rightarrow>
         let hl = hl\<lparr>ilist := (ilist hl)[0 := i]\<rparr>
         in case host of
              None \<Rightarrow> Some hl
            | Some host \<Rightarrow>
                let rc = regexec (rpattern re) host
                in if rexclude re \<and> rc = RegMatch \<or> \<not> rexclude re \<and> rc = RegNoMatch then
                     case hostlist_remove hl 0 of
                       None \<Rightarrow> None
                     | Some (_, hl) \<Rightarrow> filter_regex_loop regexec re hl
                   else filter_regex_loop regexec re hl)"

definition hostlist_filter_regex ::
  "(string \<Rightarrow> string \<Rightarrow> regexec_rc) \<Rightarrow> hostlist \<Rightarrow> regex_info \<Rightarrow> hostlist option" where
  "hostlist_filter_regex regexec hl re =
    map_option (\<lambda>hl. hostlist_iterator_destroy hl 0) (filter_regex_loop regexec re (hostlist_iterator_create hl))"

text \<open>The hosts an expression leaves\<close>

definition regex_keeps :: "(string \<Rightarrow> string \<Rightarrow> regexec_rc) \<Rightarrow> regex_info \<Rightarrow> string \<Rightarrow> bool" where
  "regex_keeps regexec re h \<longleftrightarrow>
     (if rexclude re then regexec (rpattern re) h \<noteq> RegMatch else regexec (rpattern re) h \<noteq> RegNoMatch)"

lemma hostlist_next_at:
  assumes "hl_ok hl" "suffixes_fit hl" "iter_ok (hranges hl) i" "iter_pos (hranges hl) i < length (hosts hl)"
  shows "\<exists>i'. hostlist_next hl i = Some (Some (hosts hl ! iter_pos (hranges hl) i), i') \<and> iter_ok (hranges hl) i' \<and>
    iter_pos (hranges hl) i' = iter_pos (hranges hl) i + 1 \<and> hidx i' < int (length (hranges hl)) \<and> 0 \<le> hdepth i'"
proof -
  obtain i' where n: "hostlist_next hl i = Some (Some (hosts hl ! iter_pos (hranges hl) i), i')"
    "iter_ok (hranges hl) i'" "iter_pos (hranges hl) i' = iter_pos (hranges hl) i + 1"
    using hostlist_next_spec [OF assms(1-3)] assms(4) by auto
  have ok: "list_all hr_ok (hranges hl)" using hl_okD(1) [OF assms(1)] by (auto simp: list_all_iff range_ok_def)
  obtain i2 where "iterator_advance (hranges hl) i = Some i2" "hidx i2 < int (length (hranges hl))" "0 \<le> hdepth i2"
    using advance_spec [OF ok assms(3)] hl_okD(3) [OF assms(1)] assms(4) by (auto simp: hosts_def)
  moreover have "iterator_advance (hranges hl) i = Some i'"
    using n(1) by (auto simp: hostlist_next_def Let_def split: option.splits if_splits)
  ultimately show ?thesis using n by auto
qed

lemma ilist_frame [simp]:
  "hl_ok (hl\<lparr>ilist := x\<rparr>) = hl_ok hl" "hosts (hl\<lparr>ilist := x\<rparr>) = hosts hl" "suffixes_fit (hl\<lparr>ilist := x\<rparr>) = suffixes_fit hl"
  by (simp_all add: hl_ok_def hosts_def suffixes_fit_def)

lemma filter_regex_loop_spec:
  assumes "hl_ok hl" "suffixes_fit hl" "ilist hl \<noteq> []" "iter_ok (hranges hl) (ilist hl ! 0)"
    and "list_all (regex_keeps regexec re) (take (iter_pos (hranges hl) (ilist hl ! 0)) (hosts hl))"
  shows "\<exists>hl'. filter_regex_loop regexec re hl = Some hl' \<and> hl_ok hl' \<and> suffixes_fit hl' \<and>
    hosts hl' = filter (regex_keeps regexec re) (hosts hl)"
  using assms
proof (induction "(length (hosts hl), length (hosts hl) - iter_pos (hranges hl) (ilist hl ! 0))" arbitrary: hl
    rule: wf_induct_rule [OF wf_lex_prod [OF wf_less_than wf_less_than]])
  case (1 hl)
  let ?K = "regex_keeps regexec re"
  define p where "p = iter_pos (hranges hl) (ilist hl ! 0)"
  show ?case
  proof (cases "p < length (hosts hl)")
    case False
    then obtain i' where "hostlist_next hl (ilist hl ! 0) = Some (None, i')"
      using hostlist_next_spec [OF 1(2,3,5)] by (auto simp: p_def)
    moreover have "filter ?K (hosts hl) = hosts hl"
      using 1(6) False by (simp add: p_def [symmetric] list_all_iff filter_id_conv)
    ultimately show ?thesis using 1(2,3) by (subst filter_regex_loop.simps) simp
  next
    case True
    define h where "h = hosts hl ! p"
    obtain i' where n: "hostlist_next hl (ilist hl ! 0) = Some (Some h, i')" "iter_ok (hranges hl) i'"
      "iter_pos (hranges hl) i' = p + 1" "hidx i' < int (length (hranges hl))" "0 \<le> hdepth i'"
      using hostlist_next_at [OF 1(2,3,5)] True by (auto simp: p_def h_def)
    let ?hl = "hl\<lparr>ilist := (ilist hl)[0 := i']\<rparr>"
    have i0: "ilist ?hl ! 0 = i'" "ilist ?hl \<noteq> []" "hranges ?hl = hranges hl" using 1(4) by (cases "ilist hl"; simp)+
    have ok: "hl_ok ?hl" "suffixes_fit ?hl" "hosts ?hl = hosts hl" using 1(2,3) by simp_all
    show ?thesis
    proof (cases "?K h")
      case True
      have tk: "take (p + 1) (hosts hl) = take p (hosts hl) @ [h]"
        using \<open>p < length (hosts hl)\<close> by (simp add: take_Suc_conv_app_nth h_def)
      have "filter_regex_loop regexec re hl = filter_regex_loop regexec re ?hl"
        using True by (subst filter_regex_loop.simps) (auto simp: n(1) Let_def regex_keeps_def split: if_splits)
      moreover have "\<exists>hl'. filter_regex_loop regexec re ?hl = Some hl' \<and> hl_ok hl' \<and> suffixes_fit hl' \<and> hosts hl' = filter ?K (hosts ?hl)"
      proof (rule 1(1))
        show "((length (hosts ?hl), length (hosts ?hl) - iter_pos (hranges ?hl) (ilist ?hl ! 0)),
            length (hosts hl), length (hosts hl) - iter_pos (hranges hl) (ilist hl ! 0)) \<in> less_than <*lex*> less_than"
          using \<open>p < length (hosts hl)\<close> unfolding i0 ok(3) n(3) p_def [symmetric] by simp
        show "list_all ?K (take (iter_pos (hranges ?hl) (ilist ?hl ! 0)) (hosts ?hl))"
          using 1(6) True unfolding i0 ok(3) n(3) tk by (simp add: p_def)
      qed (use ok i0 n(2) in simp_all)
      ultimately show ?thesis using ok(3) by simp
    next
      case False
      have k: "0 < length (ilist ?hl)" using i0(2) by simp
      have it: "iter_ok (hranges ?hl) (ilist ?hl ! 0)" "hidx (ilist ?hl ! 0) < int (length (hranges ?hl))"
        "0 \<le> hdepth (ilist ?hl ! 0)" using n(2,4,5) unfolding i0 by simp_all
      obtain hl2 where R: "hostlist_remove ?hl 0 = Some (1, hl2)" "hl_ok hl2"
        "hosts hl2 = take p (hosts hl) @ drop (Suc p) (hosts hl)"
        using hostlist_remove_hosts [OF ok(1) k it] unfolding i0 ok(3) n(3) by auto
      note I = hostlist_remove_iter [OF ok(1) k it R(1), unfolded i0 n(3)]
      have q: "iter_pos (hranges hl2) (ilist hl2 ! 0) \<le> p" using I(3) by simp
      have len: "length (hosts hl2) < length (hosts hl)" using R(3) \<open>p < length (hosts hl)\<close> by simp
      have "filter_regex_loop regexec re hl = filter_regex_loop regexec re hl2"
        using False by (subst filter_regex_loop.simps) (auto simp: n(1) R(1) Let_def regex_keeps_def split: if_splits)
      moreover have "\<exists>hl'. filter_regex_loop regexec re hl2 = Some hl' \<and> hl_ok hl' \<and> suffixes_fit hl' \<and> hosts hl' = filter ?K (hosts hl2)"
      proof (rule 1(1))
        show "((length (hosts hl2), length (hosts hl2) - iter_pos (hranges hl2) (ilist hl2 ! 0)),
            length (hosts hl), length (hosts hl) - iter_pos (hranges hl) (ilist hl ! 0)) \<in> less_than <*lex*> less_than"
          using len by simp
        have tk: "take (iter_pos (hranges hl2) (ilist hl2 ! 0)) (hosts hl2) = take (iter_pos (hranges hl2) (ilist hl2 ! 0)) (take p (hosts hl))"
          using q \<open>p < length (hosts hl)\<close> unfolding R(3) by (simp add: min_def)
        show "list_all ?K (take (iter_pos (hranges hl2) (ilist hl2 ! 0)) (hosts hl2))"
          unfolding tk using 1(6) [folded p_def] by (rule list_all_take)
        show "ilist hl2 \<noteq> []" using I(1) k by auto
      qed (use R(2) I(2) I(4) [OF ok(2)] in simp_all)
      moreover have "filter ?K (hosts hl2) = filter ?K (hosts hl)"
      proof -
        have e: "hosts hl = take p (hosts hl) @ h # drop (Suc p) (hosts hl)"
          using \<open>p < length (hosts hl)\<close> unfolding h_def by (rule id_take_nth_drop)
        then have "filter ?K (hosts hl) = filter ?K (take p (hosts hl) @ h # drop (Suc p) (hosts hl))" by (rule arg_cong)
        then show ?thesis using R(3) False by simp
      qed
      ultimately show ?thesis by simp
    qed
  qed
qed

lemma hostlist_filter_regex_spec:
  assumes "hl_ok hl" "suffixes_fit hl"
  shows "\<exists>hl'. hostlist_filter_regex regexec hl re = Some hl' \<and> hl_ok hl' \<and> suffixes_fit hl' \<and>
    hosts hl' = filter (regex_keeps regexec re) (hosts hl)"
proof -
  let ?hl = "hostlist_iterator_create hl"
  have "iter_pos (hranges ?hl) (ilist ?hl ! 0) = 0" "iter_ok (hranges ?hl) (ilist ?hl ! 0)"
    by (auto simp: hostlist_iterator_create_def iter_pos_def iter_ok_def before_def)
  moreover have "hl_ok ?hl" "suffixes_fit ?hl" "hosts ?hl = hosts hl" "ilist ?hl \<noteq> []"
    using assms by (simp_all add: hostlist_iterator_create_def)
  ultimately obtain hl' where "filter_regex_loop regexec re ?hl = Some hl'" "hl_ok hl'" "suffixes_fit hl'"
    "hosts hl' = filter (regex_keeps regexec re) (hosts hl)"
    using filter_regex_loop_spec [of ?hl regexec re] by auto
  then show ?thesis by (simp add: hostlist_filter_regex_def hostlist_iterator_destroy_def)
qed

end
