(* ===== verification/Rcmd.thy ===== *)
theory Rcmd
  imports Hostlist_Roundtrip
begin

text \<open>
  The choice of the remote command (\<open>pdsh/rcmd.c\<close>): which module and which user name a
  host is connected with. Hosts are registered one list at a time, and the first registration of
  a host wins. The lists are the sequences the lists of \<open>List_Ops\<close> implement.

  Modules are known by name. What \<open>mod.c\<close> finds is a parameter: \<open>loaded name\<close>
  is \<open>mod_get_module("rcmd", name) != NULL\<close>, and \<open>resolves name\<close> says that the
  three functions every module must export are found.
\<close>

record rcmd_module =
  mname :: string
  resolve_hosts :: bool

record node_rcmd_info =
  nhostname :: string
  username :: "string option"
  rmod :: "string option"

record rcmd_state =
  host_info_list :: "node_rcmd_info list option"
  rcmd_module_list :: "rcmd_module list option"
  default_rcmd_module :: "string option"
  current_rcmd_module :: "string option"

record rcmd_modules =
  loaded :: "string \<Rightarrow> bool"
  resolves :: "string \<Rightarrow> bool"

definition rcmd_start :: rcmd_state where
  "rcmd_start = \<lparr>host_info_list = None, rcmd_module_list = None, default_rcmd_module = None,
     current_rcmd_module = None\<rparr>"

section \<open>Registration\<close>

definition rcmd_module_create :: "rcmd_modules \<Rightarrow> string \<Rightarrow> rcmd_module option" where
  "rcmd_module_create ms name =
    (if resolves ms name then Some \<lparr>mname = name, resolve_hosts = True\<rparr> else None)"

definition host_rcmd_info :: "rcmd_state \<Rightarrow> string \<Rightarrow> node_rcmd_info option" where
  "host_rcmd_info st host =
    (case host_info_list st of None \<Rightarrow> None | Some l \<Rightarrow> find (\<lambda>x. nhostname x = host) l)"

definition rcmd_module_register :: "rcmd_modules \<Rightarrow> rcmd_state \<Rightarrow> string \<Rightarrow> string option \<times> rcmd_state" where
  "rcmd_module_register ms st name =
    (let (l, found) =
       (case rcmd_module_list st of
          None \<Rightarrow> ([], None)
        | Some l \<Rightarrow> (l, find (\<lambda>x. mname x = name) l));
         st = st\<lparr>rcmd_module_list := Some l\<rparr>
     in case found of
          Some m \<Rightarrow> (Some (mname m), st)
        | None \<Rightarrow>
            if \<not> loaded ms name then (None, st)
            else case rcmd_module_create ms name of
                   None \<Rightarrow> (None, st)
                 | Some m \<Rightarrow> (Some name, st\<lparr>rcmd_module_list := Some (l @ [m])\<rparr>))"

text \<open>The loop over the hosts; \<open>None\<close> is a loop that does not end.\<close>

partial_function (option) register_hosts ::
  "string option \<Rightarrow> string option \<Rightarrow> hostlist \<Rightarrow> node_rcmd_info list \<Rightarrow> node_rcmd_info list option" where
  "register_hosts m user hl infos =
    (case hostlist_pop hl of
       (None, hl) \<Rightarrow> Some infos
     | (Some host, hl) \<Rightarrow>
         if find (\<lambda>x. nhostname x = host) infos \<noteq> None then register_hosts m user hl infos
         else register_hosts m user hl (infos @ [\<lparr>nhostname = host, username = user, rmod = m\<rparr>]))"

definition hostlist_register_rcmd ::
  "errno \<Rightarrow> rcmd_state \<Rightarrow> string \<Rightarrow> string option \<Rightarrow> string option \<Rightarrow> (int \<times> rcmd_state) option" where
  "hostlist_register_rcmd stale st arg m user =
    (case hostlist_create stale (Some arg) of
       None \<Rightarrow> None
     | Some (Inl e) \<Rightarrow> Some (-1, st)
     | Some (Inr hl) \<Rightarrow>
         map_option (\<lambda>infos. (0, st\<lparr>host_info_list := Some infos\<rparr>))
           (register_hosts m user hl (case host_info_list st of None \<Rightarrow> [] | Some l \<Rightarrow> l)))"

definition rcmd_register_default_rcmd :: "rcmd_modules \<Rightarrow> rcmd_state \<Rightarrow> string \<Rightarrow> int \<times> rcmd_state" where
  "rcmd_register_default_rcmd ms st name =
    (case rcmd_module_register ms st name of
       (None, st) \<Rightarrow> (-1, st)
     | (Some m, st) \<Rightarrow> (0, st\<lparr>default_rcmd_module := Some m\<rparr>))"

definition rcmd_register_defaults ::
  "rcmd_modules \<Rightarrow> errno \<Rightarrow> rcmd_state \<Rightarrow> string option \<Rightarrow> string option \<Rightarrow> string option \<Rightarrow> (int \<times> rcmd_state) option" where
  "rcmd_register_defaults ms stale st arg name user =
    (case (case name of None \<Rightarrow> Some (None, st)
           | Some name \<Rightarrow> (case rcmd_module_register ms st name of
               (None, st) \<Rightarrow> None | (Some m, st) \<Rightarrow> Some (Some m, st))) of
       None \<Rightarrow> Some (-1, snd (rcmd_module_register ms st (the name)))
     | Some (m, st) \<Rightarrow>
         case arg of
           None \<Rightarrow> Some (0, st\<lparr>default_rcmd_module := m\<rparr>)
         | Some arg \<Rightarrow> hostlist_register_rcmd stale st arg m user)"

definition rcmd_rank :: "string list" where
  "rcmd_rank = [''mrsh'', ''rsh'', ''ssh'', ''krb4'', ''qsh'', ''mqsh'', ''exec'', ''xcpu'']"

definition rcmd_get_default_module :: "rcmd_modules \<Rightarrow> rcmd_state \<Rightarrow> string option" where
  "rcmd_get_default_module ms st =
    (case default_rcmd_module st of
       Some m \<Rightarrow> Some m
     | None \<Rightarrow> find (loaded ms) rcmd_rank)"

section \<open>Connections\<close>

record rcmd_info =
  ifd :: int
  iefd :: int
  imod :: string
  iruser :: "string option"

definition rcmd_info_create :: "string \<Rightarrow> rcmd_info" where
  "rcmd_info_create m = \<lparr>ifd = -1, iefd = -1, imod = m, iruser = None\<rparr>"

definition rcmd_create :: "rcmd_state \<Rightarrow> string \<Rightarrow> rcmd_info option" where
  "rcmd_create st host =
    (let n = host_rcmd_info st host;
         m = (case n of None \<Rightarrow> None | Some n \<Rightarrow> rmod n)
     in case (case m of None \<Rightarrow> default_rcmd_module st | Some m \<Rightarrow> Some m) of
          None \<Rightarrow> None
        | Some m \<Rightarrow>
            let rcmd = rcmd_info_create m
            in Some (case n of
                 Some n \<Rightarrow> if username n \<noteq> None then rcmd\<lparr>iruser := username n\<rparr> else rcmd
               | None \<Rightarrow> rcmd))"

text \<open>
  The module's function gets the host, the local and the remote user, the command, the rank
  and whether a second descriptor is wanted; it answers with the descriptors.
\<close>

definition rcmd_connect ::
  "(string \<Rightarrow> string \<Rightarrow> string \<Rightarrow> string \<Rightarrow> string \<Rightarrow> nat \<Rightarrow> bool \<Rightarrow> int \<times> int) \<Rightarrow> rcmd_info \<Rightarrow> string
    \<Rightarrow> string \<Rightarrow> string \<Rightarrow> string \<Rightarrow> nat \<Rightarrow> bool \<Rightarrow> rcmd_info" where
  "rcmd_connect call rcmd host locuser remuser cmd nodeid error_fd =
    (let remuser = (case iruser rcmd of Some u \<Rightarrow> u | None \<Rightarrow> remuser);
         (fd, efd) = call (imod rcmd) host locuser remuser cmd nodeid error_fd
     in rcmd\<lparr>ifd := fd, iefd := (if error_fd then efd else iefd rcmd)\<rparr>)"

text \<open>The modules whose \<open>init\<close> is called, in order\<close>

definition rcmd_init :: "rcmd_state \<Rightarrow> string list option" where
  "rcmd_init st =
    (case rcmd_module_list st of
       None \<Rightarrow> (case default_rcmd_module st of None \<Rightarrow> None | Some m \<Rightarrow> Some [m])
     | Some l \<Rightarrow> Some (map mname l))"

definition rcmd_opt_set :: "rcmd_state \<Rightarrow> bool \<Rightarrow> bool \<Rightarrow> int result \<times> rcmd_state" where
  "rcmd_opt_set st known v =
    (case current_rcmd_module st of
       None \<Rightarrow> (Inl ESRCH, st)
     | Some m \<Rightarrow>
         if known then
           (Inr 0, st\<lparr>rcmd_module_list :=
              map_option (map (\<lambda>x. if mname x = m then x\<lparr>resolve_hosts := v\<rparr> else x)) (rcmd_module_list st)\<rparr>)
         else (Inl EINVAL, st))"

section \<open>The first registration wins\<close>

lemma find_append: "find P (xs @ ys) = (case find P xs of None \<Rightarrow> find P ys | Some x \<Rightarrow> Some x)"
  by (induction xs) auto

lemma register_hosts_spec:
  assumes "hl_ok hl"
  shows "\<exists>infos'. register_hosts m user hl infos = Some infos' \<and>
    (\<forall>h. find (\<lambda>x. nhostname x = h) infos' = (case find (\<lambda>x. nhostname x = h) infos of
       Some n \<Rightarrow> Some n
     | None \<Rightarrow> if h \<in> set (hosts hl) then Some \<lparr>nhostname = h, username = user, rmod = m\<rparr> else None))"
  using assms
proof (induction "length (hosts hl)" arbitrary: hl infos)
  case 0
  then have "hosts hl = []" by simp
  moreover have "nhosts hl = 0" using hl_okD(2) [OF 0(2)] \<open>hosts hl = []\<close> by simp
  ultimately show ?case
    by (subst register_hosts.simps) (auto simp: hostlist_pop_def split: option.split)
next
  case (Suc k)
  obtain host hl' where p: "hostlist_pop hl = (host, hl')" by force
  have ne: "hosts hl \<noteq> []" using Suc(2) by auto
  note P = hostlist_pop_spec [OF Suc(3) ne p]
  have s: "set (hosts hl) = insert (last (hosts hl)) (set (butlast (hosts hl)))"
    using ne by (metis append_butlast_last_id list.set(1,2) set_append Un_insert_right sup_bot_right)
  let ?h = "last (hosts hl)"
  let ?infos = "if find (\<lambda>x. nhostname x = ?h) infos \<noteq> None then infos
    else infos @ [\<lparr>nhostname = ?h, username = user, rmod = m\<rparr>]"
  have e: "register_hosts m user hl infos = register_hosts m user hl' ?infos"
    by (subst register_hosts.simps) (simp add: p P(1))
  have "k = length (hosts hl')" using Suc(2) P(2) by simp
  from Suc(1) [OF this P(3), of ?infos] obtain infos' where I: "register_hosts m user hl' ?infos = Some infos'"
    "\<And>h. find (\<lambda>x. nhostname x = h) infos' = (case find (\<lambda>x. nhostname x = h) ?infos of
       Some n \<Rightarrow> Some n
     | None \<Rightarrow> if h \<in> set (hosts hl') then Some \<lparr>nhostname = h, username = user, rmod = m\<rparr> else None)" by blast
  have A: "find (\<lambda>x. nhostname x = h) ?infos = (case find (\<lambda>x. nhostname x = h) infos of
      Some n \<Rightarrow> Some n
    | None \<Rightarrow> if h = ?h then Some \<lparr>nhostname = h, username = user, rmod = m\<rparr> else None)" for h
    by (cases "find (\<lambda>x. nhostname x = ?h) infos") (auto simp: find_append split: option.split)
  have "find (\<lambda>x. nhostname x = h) infos' = (case find (\<lambda>x. nhostname x = h) infos of
      Some n \<Rightarrow> Some n
    | None \<Rightarrow> if h \<in> set (hosts hl) then Some \<lparr>nhostname = h, username = user, rmod = m\<rparr> else None)" for h
    unfolding I(2) A s P(2) by (cases "find (\<lambda>x. nhostname x = h) infos") simp_all
  then show ?case unfolding e using I(1) by blast
qed

text \<open>A sequence of registrations, each with its hosts, module and user\<close>

type_synonym registration = "host_item list \<times> string option \<times> string option"

fun register_all :: "rcmd_modules \<Rightarrow> errno \<Rightarrow> rcmd_state \<Rightarrow> registration list \<Rightarrow> rcmd_state option" where
  "register_all ms stale st [] = Some st"
| "register_all ms stale st ((is, m, user) # rs) =
    (case rcmd_register_defaults ms stale st (Some (commas (map item_text is))) m user of
       None \<Rightarrow> None
     | Some (_, st) \<Rightarrow> register_all ms stale st rs)"

definition reg_hosts :: "registration \<Rightarrow> string list" where
  "reg_hosts r = concat (map item_hosts (fst r))"

definition reg_ok :: "rcmd_modules \<Rightarrow> registration \<Rightarrow> bool" where
  "reg_ok ms r \<longleftrightarrow> list_all item_ok (fst r) \<and> length (reg_hosts r) < 2 ^ 31 \<and>
     (case fst (snd r) of None \<Rightarrow> True | Some m \<Rightarrow> loaded ms m \<and> resolves ms m)"

lemma module_register_ok:
  assumes "loaded ms m" "resolves ms m"
  shows "\<exists>st'. rcmd_module_register ms st m = (Some m, st') \<and> host_info_list st' = host_info_list st \<and>
    default_rcmd_module st' = default_rcmd_module st"
  using assms by (auto simp: rcmd_module_register_def rcmd_module_create_def Let_def find_Some_iff split: option.split)

lemma register_defaults_ok:
  assumes "reg_ok ms (is, m, user)"
  shows "\<exists>st'. rcmd_register_defaults ms stale st (Some (commas (map item_text is))) m user = Some (0, st') \<and>
    default_rcmd_module st' = default_rcmd_module st \<and>
    (\<forall>h. host_rcmd_info st' h = (case host_rcmd_info st h of
       Some n \<Rightarrow> Some n
     | None \<Rightarrow> if h \<in> set (reg_hosts (is, m, user)) then Some \<lparr>nhostname = h, username = user, rmod = m\<rparr> else None))"
proof -
  have "\<exists>st1. (case m of None \<Rightarrow> Some (None, st)
      | Some name \<Rightarrow> (case rcmd_module_register ms st name of
          (None, st) \<Rightarrow> None | (Some m, st) \<Rightarrow> Some (Some m, st))) = Some (m, st1) \<and>
      host_info_list st1 = host_info_list st \<and> default_rcmd_module st1 = default_rcmd_module st"
  proof (cases m)
    case (Some name)
    then have "loaded ms name" "resolves ms name" using assms by (simp_all add: reg_ok_def)
    then show ?thesis using module_register_ok [of ms name st] Some by auto
  qed simp
  then obtain st1 where st1: "(case m of None \<Rightarrow> Some (None, st)
      | Some name \<Rightarrow> (case rcmd_module_register ms st name of
          (None, st) \<Rightarrow> None | (Some m, st) \<Rightarrow> Some (Some m, st))) = Some (m, st1)"
    "host_info_list st1 = host_info_list st" "default_rcmd_module st1 = default_rcmd_module st" by blast
  obtain hl where hl: "hostlist_create stale (Some (commas (map item_text is))) = Some (Inr hl)" "hl_ok hl"
    "hosts hl = reg_hosts (is, m, user)"
    using hostlist_create_items [of "is" stale] assms by (auto simp: reg_ok_def reg_hosts_def)
  let ?old = "case host_info_list st1 of None \<Rightarrow> [] | Some l \<Rightarrow> l"
  obtain infos where I: "register_hosts m user hl ?old = Some infos"
    "\<forall>h. find (\<lambda>x. nhostname x = h) infos = (case find (\<lambda>x. nhostname x = h) ?old of
       Some n \<Rightarrow> Some n
     | None \<Rightarrow> if h \<in> set (hosts hl) then Some \<lparr>nhostname = h, username = user, rmod = m\<rparr> else None)"
    using register_hosts_spec [OF hl(2), of m user ?old] by blast
  have "find (\<lambda>x. nhostname x = h) ?old = host_rcmd_info st h" for h
    using st1(2) by (simp add: host_rcmd_info_def split: option.split)
  then show ?thesis
    using st1 I hl by (simp add: rcmd_register_defaults_def hostlist_register_rcmd_def host_rcmd_info_def)
qed

lemma register_all_first:
  assumes "list_all (reg_ok ms) rs"
  shows "\<exists>st'. register_all ms stale st rs = Some st' \<and> default_rcmd_module st' = default_rcmd_module st \<and>
    (\<forall>h. host_rcmd_info st' h = (case host_rcmd_info st h of
       Some n \<Rightarrow> Some n
     | None \<Rightarrow> map_option (\<lambda>r. \<lparr>nhostname = h, username = snd (snd r), rmod = fst (snd r)\<rparr>)
         (find (\<lambda>r. h \<in> set (reg_hosts r)) rs)))"
  using assms
proof (induction rs arbitrary: st)
  case Nil
  then show ?case by (auto split: option.split)
next
  case (Cons r rs)
  obtain "is" m user where r: "r = (is, m, user)" by (metis prod_cases3)
  then have "reg_ok ms (is, m, user)" using Cons.prems by simp
  from register_defaults_ok [OF this, of stale st] obtain st1 where st1:
    "rcmd_register_defaults ms stale st (Some (commas (map item_text is))) m user = Some (0, st1)"
    "default_rcmd_module st1 = default_rcmd_module st"
    "\<And>h. host_rcmd_info st1 h = (case host_rcmd_info st h of
       Some n \<Rightarrow> Some n
     | None \<Rightarrow> if h \<in> set (reg_hosts r) then Some \<lparr>nhostname = h, username = user, rmod = m\<rparr> else None)"
    using r by blast
  have "list_all (reg_ok ms) rs" using Cons.prems by simp
  from Cons.IH [OF this, of st1] obtain st' where st':
    "register_all ms stale st1 rs = Some st'" "default_rcmd_module st' = default_rcmd_module st1"
    "\<And>h. host_rcmd_info st' h = (case host_rcmd_info st1 h of
       Some n \<Rightarrow> Some n
     | None \<Rightarrow> map_option (\<lambda>r. \<lparr>nhostname = h, username = snd (snd r), rmod = fst (snd r)\<rparr>)
         (find (\<lambda>r. h \<in> set (reg_hosts r)) rs))" by blast
  have "host_rcmd_info st' h = (case host_rcmd_info st h of
       Some n \<Rightarrow> Some n
     | None \<Rightarrow> map_option (\<lambda>r. \<lparr>nhostname = h, username = snd (snd r), rmod = fst (snd r)\<rparr>)
         (find (\<lambda>r. h \<in> set (reg_hosts r)) (r # rs)))" for h
    unfolding st'(3) st1(3) using r by (cases "host_rcmd_info st h") simp_all
  then show ?case using st1(1,2) st'(1,2) r by simp
qed

text \<open>The module and the user a host is connected with\<close>

lemma rcmd_create_first:
  assumes "list_all (reg_ok ms) rs" "register_all ms stale rcmd_start rs = Some st"
  shows "rcmd_create (st\<lparr>default_rcmd_module := d\<rparr>) h =
    (let r = find (\<lambda>r. h \<in> set (reg_hosts r)) rs;
         m = (case r of Some (_, Some m, _) \<Rightarrow> Some m | _ \<Rightarrow> d)
     in map_option (\<lambda>m. (rcmd_info_create m)\<lparr>iruser := (case r of None \<Rightarrow> None | Some r \<Rightarrow> snd (snd r))\<rparr>) m)"
proof -
  have "host_rcmd_info (st\<lparr>default_rcmd_module := d\<rparr>) h =
      map_option (\<lambda>r. \<lparr>nhostname = h, username = snd (snd r), rmod = fst (snd r)\<rparr>) (find (\<lambda>r. h \<in> set (reg_hosts r)) rs)"
    using register_all_first [OF assms(1), of stale rcmd_start] assms(2)
    by (auto simp: host_rcmd_info_def rcmd_start_def)
  then show ?thesis
    by (auto simp: rcmd_create_def Let_def rcmd_info_create_def split: option.split)
qed

end
