(* ===== verification/Wcoll_Args.thy ===== *)
theory Wcoll_Args
  imports "HOL-Library.Multiset" Hostlist_Filter Wcoll Rcmd
begin

text \<open>
  The target hosts on the command line (\<open>pdsh/opt.c\<close>): the arguments of \<open>-w\<close> and
  \<open>-x\<close>, with files, exclusions, regular expressions and the prefixes that choose a module
  or a user, and the filtering that follows. \<open>None\<close> is a run that does not return, and
  \<open>Exits\<close> one that ends the program with a message.
\<close>

record opt_wcoll =
  wcoll :: "hostlist option"
  exclude_list :: "string list option"
  regex_list :: "regex_info list option"
  orcmd :: rcmd_state

text \<open>What the program asks of its environment: files, modules, regular expressions\<close>

record wcoll_env =
  efiles :: files
  emodules :: rcmd_modules
  eregcomp :: "string \<Rightarrow> bool"
  eregexec :: "string \<Rightarrow> string \<Rightarrow> regexec_rc"
  estdin :: string
  edepth :: nat
  estale :: errno

definition opt_wcoll_start :: opt_wcoll where
  "opt_wcoll_start = \<lparr>wcoll = None, exclude_list = None, regex_list = None, orcmd = rcmd_start\<rparr>"

section \<open>One argument\<close>

text \<open>\<open>[rcmd_type:][user@]hosts\<close>; the result is the type, the user and the hosts.\<close>

definition get_host_rcmd_type :: "string \<Rightarrow> (string option \<times> string option \<times> string) fate" where
  "get_host_rcmd_type arg =
    (let p = length (takeWhile (\<lambda>c. c \<noteq> CHR '':'') arg);
         q = length (takeWhile (\<lambda>c. c \<noteq> CHR ''@'') arg);
         colon = strchr arg CHR '':''; at = strchr arg CHR ''@''
     in if colon \<and> at \<and> p > q then Exits
        else
          let typed = colon \<and> take 1 (drop (p + 1) arg) \<noteq> '':'';
              rtype = (if typed then Some (take p arg) else None);
              start = (if typed then p + 1 else 0);
              user = (if at then Some (drop start (take q arg)) else None)
          in Continues (rtype, user, drop (if at then q + 1 else start) arg))"

definition regex_info_create :: "wcoll_env \<Rightarrow> string \<Rightarrow> bool \<Rightarrow> regex_info option" where
  "regex_info_create env r exclude =
    (if eregcomp env r then Some \<lparr>rexclude = exclude, rpattern = r\<rparr> else None)"

text \<open>
  \<open>n*=2 < 0x7fffff\<close> multiplies by the result of the comparison, which is 1: the buffer
  does not grow.
\<close>

partial_function (option) ranged_string_loop :: "hostlist \<Rightarrow> nat \<Rightarrow> string option" where
  "ranged_string_loop hl n =
    (case hostlist_ranged_string hl (n - 1) of
       (len, s) \<Rightarrow>
         if len < 0 then
           let n = n * (if (2 :: int) < 0x7fffff then 1 else 0)
           in if n \<noteq> 0 then ranged_string_loop hl n else Some s
         else Some s)"

definition list_push_hostlist :: "string list \<Rightarrow> hostlist \<Rightarrow> string list option" where
  "list_push_hostlist l hl = map_option (\<lambda>s. s # l) (ranged_string_loop hl 4096)"

definition hostlist_assign :: "hostlist option \<Rightarrow> hostlist \<Rightarrow> hostlist" where
  "hostlist_assign hlp hl2 =
    (let h = (case hlp of None \<Rightarrow> hostlist_new | Some h \<Rightarrow> h); (_, h, _) = hostlist_push_list h (Some hl2) in h)"

definition wcoll_arg_process :: "wcoll_env \<Rightarrow> string \<Rightarrow> opt_wcoll \<Rightarrow> opt_wcoll fate option" where
  "wcoll_arg_process env arg opt =
    (let excl = (case exclude_list opt of None \<Rightarrow> [] | Some l \<Rightarrow> l);
         rxs = (case regex_list opt of None \<Rightarrow> [] | Some l \<Rightarrow> l);
         opt = opt\<lparr>exclude_list := Some excl, regex_list := Some rxs\<rparr>;
         excluded = (take 1 arg = ''-'');
         p = dropWhile isspace (if excluded then drop 1 arg else arg)
     in if take 1 p = ''^'' then
          case read_wcoll (edepth env) (efiles env) (estale env) (estdin env) (Some (drop 1 p)) None of
            None \<Rightarrow> None
          | Some Exits \<Rightarrow> Some Exits
          | Some (Continues hl) \<Rightarrow>
              if excluded then
                map_option (\<lambda>l. Continues (opt\<lparr>exclude_list := Some l\<rparr>)) (list_push_hostlist excl hl)
              else Some (Continues (opt\<lparr>wcoll := Some (hostlist_assign (wcoll opt) hl)\<rparr>))
        else if take 1 p = ''/'' then
          let r = drop 1 p;
              r = (if r \<noteq> [] \<and> last r = CHR ''/'' then butlast r else r)
          in case regex_info_create env r excluded of
               None \<Rightarrow> Some Exits
             | Some re \<Rightarrow> Some (Continues (opt\<lparr>regex_list := Some (re # rxs)\<rparr>))
        else if excluded then Some (Continues (opt\<lparr>exclude_list := Some (p # excl)\<rparr>))
        else
          let h = (case wcoll opt of None \<Rightarrow> hostlist_new | Some h \<Rightarrow> h)
          in case get_host_rcmd_type p of
               Exits \<Rightarrow> Some Exits
             | Continues (rcmd_type, user, targets) \<Rightarrow>
                 case hostlist_push (estale env) h (Some targets) of
                   None \<Rightarrow> None
                 | Some (_, h) \<Rightarrow>
                     let opt = opt\<lparr>wcoll := Some h\<rparr>
                     in if rcmd_type \<noteq> None \<or> user \<noteq> None then
                          case rcmd_register_defaults (emodules env) (estale env) (orcmd opt) (Some targets) rcmd_type user of
                            None \<Rightarrow> None
                          | Some (rc, st) \<Rightarrow>
                              if rc < 0 then Some Exits else Some (Continues (opt\<lparr>orcmd := st\<rparr>))
                        else Some (Continues opt))"

section \<open>All arguments\<close>

fun args_loop :: "wcoll_env \<Rightarrow> string list \<Rightarrow> opt_wcoll \<Rightarrow> opt_wcoll fate option" where
  "args_loop env [] opt = Some (Continues opt)"
| "args_loop env (a # as) opt =
    (case wcoll_arg_process env a opt of
       None \<Rightarrow> None
     | Some Exits \<Rightarrow> Some Exits
     | Some (Continues opt) \<Rightarrow> args_loop env as opt)"

definition wcoll_args_process :: "wcoll_env \<Rightarrow> opt_wcoll \<Rightarrow> string \<Rightarrow> opt_wcoll fate option" where
  "wcoll_args_process env opt args = args_loop env (tokens '','' args) opt"

fun append_excluded_loop :: "wcoll_env \<Rightarrow> string list \<Rightarrow> opt_wcoll \<Rightarrow> opt_wcoll fate option" where
  "append_excluded_loop env [] opt = Some (Continues opt)"
| "append_excluded_loop env (s # ss) opt =
    (case wcoll_args_process env opt (CHR ''-'' # s) of
       None \<Rightarrow> None
     | Some Exits \<Rightarrow> Some Exits
     | Some (Continues opt) \<Rightarrow> append_excluded_loop env ss opt)"

definition wcoll_append_excluded :: "wcoll_env \<Rightarrow> opt_wcoll \<Rightarrow> string \<Rightarrow> opt_wcoll fate option" where
  "wcoll_append_excluded env opt args = append_excluded_loop env (tokens '','' args) opt"

text \<open>The cases \<open>-w\<close> and \<open>-x\<close> of the loop over the options\<close>

datatype target_opt = OptW string | OptX string

definition target_opt_process :: "wcoll_env \<Rightarrow> opt_wcoll \<Rightarrow> target_opt \<Rightarrow> opt_wcoll fate option" where
  "target_opt_process env opt c =
    (case c of
       OptW arg \<Rightarrow> wcoll_args_process env opt (if arg = ''-'' then ''^-'' else arg)
     | OptX arg \<Rightarrow> wcoll_append_excluded env opt arg)"

section \<open>Filtering\<close>

fun wcoll_apply_excluded :: "errno \<Rightarrow> hostlist \<Rightarrow> string list \<Rightarrow> hostlist option" where
  "wcoll_apply_excluded stale hl [] = Some hl"
| "wcoll_apply_excluded stale hl (arg # as) =
    (case hostlist_delete stale hl (Some arg) of
       None \<Rightarrow> None
     | Some (_, hl) \<Rightarrow> wcoll_apply_excluded stale hl as)"

fun wcoll_apply_regex :: "(string \<Rightarrow> string \<Rightarrow> regexec_rc) \<Rightarrow> hostlist \<Rightarrow> regex_info list \<Rightarrow> hostlist option" where
  "wcoll_apply_regex regexec hl [] = Some hl"
| "wcoll_apply_regex regexec hl (re # rs) =
    (case hostlist_filter_regex regexec hl re of
       None \<Rightarrow> None
     | Some hl \<Rightarrow> wcoll_apply_regex regexec hl rs)"

partial_function (option) expand_loop :: "errno \<Rightarrow> hostlist \<Rightarrow> hostlist \<Rightarrow> hostlist option" where
  "expand_loop stale hl new =
    (case hostlist_shift hl of
       (None, hl) \<Rightarrow> Some new
     | (Some h, hl) \<Rightarrow>
         (case hostlist_push stale new (Some h) of
            None \<Rightarrow> None
          | Some (_, new) \<Rightarrow> expand_loop stale hl new))"

definition wcoll_expand :: "errno \<Rightarrow> hostlist \<Rightarrow> hostlist option" where
  "wcoll_expand stale hl = expand_loop stale hl hostlist_new"

text \<open>The end of \<open>opt_args\<close>: \<open>mods\<close> is what \<open>mod_read_wcoll\<close> makes of the list.\<close>

definition opt_args_wcoll ::
  "wcoll_env \<Rightarrow> (hostlist option \<Rightarrow> hostlist option) \<Rightarrow> string option \<Rightarrow> opt_wcoll \<Rightarrow> opt_wcoll fate option" where
  "opt_args_wcoll env mods wcoll_var opt =
    (let opt = opt\<lparr>wcoll := mods (wcoll opt)\<rparr>
     in case (case wcoll opt of
                Some hl \<Rightarrow> Some (Continues (Some hl))
              | None \<Rightarrow>
                  (case wcoll_var of
                     None \<Rightarrow> Some (Continues None)
                   | Some val \<Rightarrow>
                       map_option (\<lambda>r. case r of Exits \<Rightarrow> Exits | Continues hl \<Rightarrow> Continues (Some hl))
                         (read_wcoll (edepth env) (efiles env) (estale env) (estdin env) (Some val) None))) of
          None \<Rightarrow> None
        | Some Exits \<Rightarrow> Some Exits
        | Some (Continues None) \<Rightarrow> Some (Continues opt)
        | Some (Continues (Some hl)) \<Rightarrow>
            case wcoll_apply_excluded (estale env) hl (case exclude_list opt of None \<Rightarrow> [] | Some l \<Rightarrow> l) of
              None \<Rightarrow> None
            | Some hl \<Rightarrow>
                case wcoll_apply_regex (eregexec env) hl (case regex_list opt of None \<Rightarrow> [] | Some l \<Rightarrow> l) of
                  None \<Rightarrow> None
                | Some hl \<Rightarrow>
                    map_option (\<lambda>hl. Continues (opt\<lparr>wcoll := Some hl\<rparr>)) (wcoll_expand (estale env) hl))"

section \<open>The list that does not fit\<close>

text \<open>
  A ranged string that needs more than 4095 bytes is asked for again and again, into the same
  buffer.
\<close>

lemma ranged_string_loop_Some:
  "ranged_string_loop hl n = Some s \<Longrightarrow> n = 0 \<or> 0 \<le> fst (hostlist_ranged_string hl (n - 1))"
  by (erule ranged_string_loop.raw_induct [where P = "\<lambda>hl n s. n = 0 \<or> 0 \<le> fst (hostlist_ranged_string hl (n - 1))", rotated])
    (fastforce simp: Let_def split: prod.splits if_splits)

lemma ranged_string_loop_endless:
  assumes "fst (hostlist_ranged_string hl (n - 1)) < 0" "n \<noteq> 0"
  shows "ranged_string_loop hl n = None"
  using ranged_string_loop_Some [of hl n] assms by (cases "ranged_string_loop hl n") auto

lemma ranged_string_loop_fits:
  assumes "list_all (\<lambda>r. prefix r \<noteq> []) (hranges hl)" "n \<noteq> 0"
  shows "ranged_string_loop hl n =
    (if length (ranged_text (hranges hl)) < n - 1 then Some (ranged_text (hranges hl)) else None)"
proof (cases "length (ranged_text (hranges hl)) < n - 1")
  case True
  then show ?thesis
    using hostlist_ranged_string_text [OF assms(1), of "n - 1"]
    by (subst ranged_string_loop.simps) (simp add: Let_def)
next
  case False
  then show ?thesis
    using hostlist_ranged_string_text [OF assms(1), of "n - 1"] assms(2)
    by (simp add: ranged_string_loop_endless Let_def)
qed

section \<open>Lists of targets\<close>

text \<open>Items with no prefix that makes them an exclusion, a file, an expression or names a module or user\<close>

definition target_item :: "host_item \<Rightarrow> bool" where
  "target_item i \<longleftrightarrow> item_ok i \<and> hd (item_text i) \<notin> {CHR ''-'', CHR ''^'', CHR ''/''} \<and>
     \<not> isspace (hd (item_text i)) \<and> CHR '':'' \<notin> set (item_text i) \<and> CHR ''@'' \<notin> set (item_text i)"

lemma comma_sep: "set '','' \<subseteq> set HL_SEP"
  by (simp add: HL_SEP_def)

lemma item_text_comma: "item_ok i \<Longrightarrow> item_text i \<noteq> [] \<and> hd (item_text i) \<noteq> CHR '',''"
  using item_text_ne [of i] by (auto simp: HL_SEP_def)

lemma split_next_tok_item:
  assumes "item_ok i" "s = [] \<or> hd s = CHR '',''"
  shows "split_next_tok '','' (item_text i @ s) = (Some (item_text i), dropWhile (\<lambda>c. c = CHR '','') s)"
proof -
  have "tok_scan '','' (item_text i @ s) 0 = (item_text i, s)"
    by (rule tok_scan_item [OF assms(1) comma_sep]) (use assms(2) in auto)
  moreover have "dropWhile (strchr '','') (item_text i @ s) = item_text i @ s"
    using item_text_comma [OF assms(1)] by (cases "item_text i") auto
  ultimately show ?thesis
    using item_text_comma [OF assms(1)] by (simp add: split_next_tok_def)
qed

lemma tokens_items: "list_all item_ok is \<Longrightarrow> tokens '','' (commas (map item_text is)) = map item_text is"
proof (induction "is" rule: induct_list012)
  case 1
  then show ?case by (subst tokens.simps) (simp add: split_next_tok_def)
next
  case (2 i)
  have "tokens '','' [] = []" by (subst tokens.simps) (simp add: split_next_tok_def)
  then show ?case using 2 split_next_tok_item [of i "[]"] by (subst tokens.simps) simp
next
  case (3 i j js)
  let ?r = "commas (map item_text (j # js))"
  have j: "item_text j \<noteq> [] \<and> hd (item_text j) \<noteq> CHR '',''" using 3(3) item_text_comma [of j] by simp
  then have "dropWhile (\<lambda>c. c = CHR '','') ?r = ?r" by (cases "item_text j"; cases js) auto
  then have "split_next_tok '','' (item_text i @ CHR '','' # ?r) = (Some (item_text i), ?r)"
    using split_next_tok_item [of i "CHR '','' # ?r"] 3(3) by simp
  then show ?case using 3 by (subst tokens.simps) simp
qed

lemma tokens_excluded: "item_ok i \<Longrightarrow> tokens '','' (CHR ''-'' # item_text i) = [CHR ''-'' # item_text i]"
proof -
  assume i: "item_ok i"
  have "tok_scan '','' (item_text i @ []) 0 = (item_text i, [])"
    by (rule tok_scan_item [OF i comma_sep]) simp
  moreover have "tokens '','' [] = []" by (subst tokens.simps) (simp add: split_next_tok_def)
  ultimately show ?thesis by (subst tokens.simps) (simp add: split_next_tok_def)
qed

section \<open>What the options collect\<close>

definition some_list :: "'a list option \<Rightarrow> 'a list" where
  "some_list x = (case x of None \<Rightarrow> [] | Some l \<Rightarrow> l)"

definition wcoll_hosts :: "opt_wcoll \<Rightarrow> string list" where
  "wcoll_hosts opt = (case wcoll opt of None \<Rightarrow> [] | Some hl \<Rightarrow> hosts hl)"

definition wcoll_ok :: "opt_wcoll \<Rightarrow> bool" where
  "wcoll_ok opt \<longleftrightarrow> (case wcoll opt of None \<Rightarrow> True | Some hl \<Rightarrow> hl_ok hl)"

lemma get_host_rcmd_type_plain:
  "CHR '':'' \<notin> set s \<Longrightarrow> CHR ''@'' \<notin> set s \<Longrightarrow> get_host_rcmd_type s = Continues (None, None, s)"
  by (simp add: get_host_rcmd_type_def Let_def)

lemma target_item_text:
  assumes "target_item i"
  obtains c cs where "item_text i = c # cs" "c \<noteq> CHR ''-''" "c \<noteq> CHR ''^''" "c \<noteq> CHR ''/''" "\<not> isspace c"
  using assms item_text_ne [of i] by (cases "item_text i") (auto simp: target_item_def)

lemma arg_process_target:
  assumes "target_item i" "wcoll_ok opt" "length (wcoll_hosts opt) + length (item_hosts i) < 2 ^ 31"
  shows "\<exists>opt'. wcoll_arg_process env (item_text i) opt = Some (Continues opt') \<and> wcoll_ok opt' \<and>
    wcoll_hosts opt' = wcoll_hosts opt @ item_hosts i \<and> exclude_list opt' = Some (some_list (exclude_list opt)) \<and>
    regex_list opt' = Some (some_list (regex_list opt)) \<and> orcmd opt' = orcmd opt \<and> wcoll opt' \<noteq> None"
proof -
  obtain c cs where t: "item_text i = c # cs" "c \<noteq> CHR ''-''" "c \<noteq> CHR ''^''" "c \<noteq> CHR ''/''" "\<not> isspace c"
    using target_item_text [OF assms(1)] by blast
  have i: "item_ok i" "CHR '':'' \<notin> set (item_text i)" "CHR ''@'' \<notin> set (item_text i)"
    using assms(1) by (simp_all add: target_item_def)
  let ?h = "case wcoll opt of None \<Rightarrow> hostlist_new | Some h \<Rightarrow> h"
  have "hl_ok ?h" "hosts ?h = wcoll_hosts opt"
    using assms(2) hostlist_new_ok by (auto simp: wcoll_ok_def wcoll_hosts_def split: option.splits)
  then obtain hl' where p: "hostlist_push (estale env) ?h (Some (item_text i)) = Some (int (length (item_hosts i)), hl')"
    "hl_ok hl'" "hosts hl' = wcoll_hosts opt @ item_hosts i"
    using hostlist_push_items [of ?h "[i]" "estale env"] i(1) assms(3) by auto
  have d: "dropWhile isspace (item_text i) = item_text i" using t by simp
  have e: "take (Suc 0) (item_text i) \<noteq> ''-''" "take (Suc 0) (item_text i) \<noteq> ''^''" "take (Suc 0) (item_text i) \<noteq> ''/''"
    using t by simp_all
  have "wcoll_arg_process env (item_text i) opt = Some (Continues
      (opt\<lparr>exclude_list := Some (some_list (exclude_list opt)), regex_list := Some (some_list (regex_list opt)), wcoll := Some hl'\<rparr>))"
    using p(1) get_host_rcmd_type_plain [OF i(2,3)]
    by (cases "wcoll opt") (simp_all add: wcoll_arg_process_def Let_def d e some_list_def)
  then show ?thesis using p(2,3) by (simp add: wcoll_ok_def wcoll_hosts_def some_list_def)
qed

lemma arg_process_excluded:
  assumes "target_item i"
  shows "wcoll_arg_process env (CHR ''-'' # item_text i) opt = Some (Continues
    (opt\<lparr>exclude_list := Some (item_text i # some_list (exclude_list opt)), regex_list := Some (some_list (regex_list opt))\<rparr>))"
proof -
  obtain c cs where t: "item_text i = c # cs" "c \<noteq> CHR ''-''" "c \<noteq> CHR ''^''" "c \<noteq> CHR ''/''" "\<not> isspace c"
    using target_item_text [OF assms] by blast
  then show ?thesis by (simp add: wcoll_arg_process_def Let_def some_list_def)
qed

lemma args_loop_targets:
  assumes "list_all target_item is" "wcoll_ok opt"
    and "length (wcoll_hosts opt) + length (concat (map item_hosts is)) < 2 ^ 31"
  shows "\<exists>opt'. args_loop env (map item_text is) opt = Some (Continues opt') \<and> wcoll_ok opt' \<and>
    wcoll_hosts opt' = wcoll_hosts opt @ concat (map item_hosts is) \<and>
    some_list (exclude_list opt') = some_list (exclude_list opt) \<and>
    some_list (regex_list opt') = some_list (regex_list opt) \<and> orcmd opt' = orcmd opt \<and>
    (is \<noteq> [] \<longrightarrow> wcoll opt' \<noteq> None)"
  using assms
proof (induction "is" arbitrary: opt)
  case (Cons i js)
  obtain opt1 where 1: "wcoll_arg_process env (item_text i) opt = Some (Continues opt1)" "wcoll_ok opt1"
    "wcoll_hosts opt1 = wcoll_hosts opt @ item_hosts i" "exclude_list opt1 = Some (some_list (exclude_list opt))"
    "regex_list opt1 = Some (some_list (regex_list opt))" "orcmd opt1 = orcmd opt" "wcoll opt1 \<noteq> None"
    using arg_process_target [of i opt env] Cons.prems by auto
  have "\<exists>opt'. args_loop env (map item_text js) opt1 = Some (Continues opt') \<and> wcoll_ok opt' \<and>
      wcoll_hosts opt' = wcoll_hosts opt1 @ concat (map item_hosts js) \<and>
      some_list (exclude_list opt') = some_list (exclude_list opt1) \<and>
      some_list (regex_list opt') = some_list (regex_list opt1) \<and> orcmd opt' = orcmd opt1 \<and>
      (js \<noteq> [] \<longrightarrow> wcoll opt' \<noteq> None)"
    using Cons.prems 1(2,3) by (intro Cons.IH) simp_all
  then show ?case using 1 by (cases "js = []") (auto simp: some_list_def)
qed simp

lemma append_excluded_targets:
  assumes "list_all target_item is"
  shows "\<exists>opt'. append_excluded_loop env (map item_text is) opt = Some (Continues opt') \<and> wcoll opt' = wcoll opt \<and>
    some_list (exclude_list opt') = rev (map item_text is) @ some_list (exclude_list opt) \<and>
    some_list (regex_list opt') = some_list (regex_list opt) \<and> orcmd opt' = orcmd opt"
  using assms
proof (induction "is" arbitrary: opt)
  case (Cons i js)
  let ?opt = "opt\<lparr>exclude_list := Some (item_text i # some_list (exclude_list opt)), regex_list := Some (some_list (regex_list opt))\<rparr>"
  have "item_ok i" using Cons.prems by (simp add: target_item_def)
  then have "wcoll_args_process env opt (CHR ''-'' # item_text i) = Some (Continues ?opt)"
    using arg_process_excluded [of i env opt] Cons.prems by (simp add: wcoll_args_process_def tokens_excluded)
  moreover have "\<exists>opt'. append_excluded_loop env (map item_text js) ?opt = Some (Continues opt') \<and> wcoll opt' = wcoll ?opt \<and>
    some_list (exclude_list opt') = rev (map item_text js) @ some_list (exclude_list ?opt) \<and>
    some_list (regex_list opt') = some_list (regex_list ?opt) \<and> orcmd opt' = orcmd ?opt"
    using Cons.prems by (intro Cons.IH) simp
  ultimately show ?case by (auto simp: some_list_def)
qed simp

text \<open>A command line with items to take and items to leave out\<close>

datatype targets = Take "host_item list" | Leave "host_item list"

fun targets_opt :: "targets \<Rightarrow> target_opt" where
  "targets_opt (Take is) = OptW (commas (map item_text is))"
| "targets_opt (Leave is) = OptX (commas (map item_text is))"

fun targets_ok :: "targets \<Rightarrow> bool" where
  "targets_ok (Take is) \<longleftrightarrow> is \<noteq> [] \<and> list_all target_item is"
| "targets_ok (Leave is) \<longleftrightarrow> list_all target_item is"

fun taken :: "targets list \<Rightarrow> host_item list" where
  "taken [] = []"
| "taken (Take is # ts) = is @ taken ts"
| "taken (Leave is # ts) = taken ts"

fun left :: "targets list \<Rightarrow> host_item list" where
  "left [] = []"
| "left (Take is # ts) = left ts"
| "left (Leave is # ts) = is @ left ts"

fun target_opts_process :: "wcoll_env \<Rightarrow> opt_wcoll \<Rightarrow> target_opt list \<Rightarrow> opt_wcoll fate option" where
  "target_opts_process env opt [] = Some (Continues opt)"
| "target_opts_process env opt (c # cs) =
    (case target_opt_process env opt c of
       None \<Rightarrow> None
     | Some Exits \<Rightarrow> Some Exits
     | Some (Continues opt) \<Rightarrow> target_opts_process env opt cs)"

lemma target_opts_collect:
  assumes "list_all targets_ok ts" "wcoll_ok opt"
    and "length (wcoll_hosts opt) + length (concat (map item_hosts (taken ts))) < 2 ^ 31"
  shows "\<exists>opt'. target_opts_process env opt (map targets_opt ts) = Some (Continues opt') \<and> wcoll_ok opt' \<and>
    wcoll_hosts opt' = wcoll_hosts opt @ concat (map item_hosts (taken ts)) \<and>
    some_list (exclude_list opt') = rev (map item_text (left ts)) @ some_list (exclude_list opt) \<and>
    some_list (regex_list opt') = some_list (regex_list opt) \<and> orcmd opt' = orcmd opt \<and>
    (wcoll opt \<noteq> None \<or> taken ts \<noteq> [] \<longrightarrow> wcoll opt' \<noteq> None)"
  using assms
proof (induction ts arbitrary: opt)
  case (Cons t ts)
  define P where "P opt' = (wcoll_ok opt' \<and>
    wcoll_hosts opt' = wcoll_hosts opt @ concat (map item_hosts (taken [t])) \<and>
    some_list (exclude_list opt') = rev (map item_text (left [t])) @ some_list (exclude_list opt) \<and>
    some_list (regex_list opt') = some_list (regex_list opt) \<and> orcmd opt' = orcmd opt \<and>
    (wcoll opt \<noteq> None \<or> taken [t] \<noteq> [] \<longrightarrow> wcoll opt' \<noteq> None))" for opt'
  have "\<exists>opt1. target_opt_process env opt (targets_opt t) = Some (Continues opt1) \<and> P opt1"
  proof (cases t)
    case (Take xs)
    have xs: "list_all target_item xs" "list_all item_ok xs" "xs \<noteq> []"
      using Cons.prems(1) by (auto simp: Take list_all_iff target_item_def)
    have "commas (map item_text xs) \<noteq> ''-''"
    proof -
      obtain i js where x: "xs = i # js" using xs(3) by (cases xs) auto
      then have "target_item i" using xs(1) by simp
      then obtain c cs where "item_text i = c # cs" "c \<noteq> CHR ''-''" using target_item_text by blast
      then show ?thesis using x by (cases js) simp_all
    qed
    moreover have "length (wcoll_hosts opt) + length (concat (map item_hosts xs)) < 2 ^ 31"
      using Cons.prems(3) by (simp add: Take)
    ultimately show ?thesis
      using xs(3) args_loop_targets [OF xs(1) Cons.prems(2), of env] by (auto simp: P_def Take target_opt_process_def wcoll_args_process_def tokens_items [OF xs(2)])
  next
    case (Leave xs)
    have xs: "list_all target_item xs" "list_all item_ok xs"
      using Cons.prems(1) by (auto simp: Leave list_all_iff target_item_def)
    show ?thesis
      using append_excluded_targets [OF xs(1), of env opt] Cons.prems(2)
      by (auto simp: P_def Leave target_opt_process_def wcoll_append_excluded_def tokens_items [OF xs(2)]
          wcoll_ok_def wcoll_hosts_def)
  qed
  then obtain opt1 where 1: "target_opt_process env opt (targets_opt t) = Some (Continues opt1)" "P opt1" by blast
  have s: "taken (t # ts) = taken [t] @ taken ts" "left (t # ts) = left [t] @ left ts" by (cases t; simp)+
  have "\<exists>opt'. target_opts_process env opt1 (map targets_opt ts) = Some (Continues opt') \<and> wcoll_ok opt' \<and>
    wcoll_hosts opt' = wcoll_hosts opt1 @ concat (map item_hosts (taken ts)) \<and>
    some_list (exclude_list opt') = rev (map item_text (left ts)) @ some_list (exclude_list opt1) \<and>
    some_list (regex_list opt') = some_list (regex_list opt1) \<and> orcmd opt' = orcmd opt1 \<and>
    (wcoll opt1 \<noteq> None \<or> taken ts \<noteq> [] \<longrightarrow> wcoll opt' \<noteq> None)"
    using Cons.prems 1(2) by (intro Cons.IH) (simp_all add: P_def s)
  then show ?case using 1 unfolding s by (auto simp: P_def)
qed simp

section \<open>The final list\<close>

lemma item_hosts_NUL:
  assumes "item_ok i" "h \<in> set (item_hosts i)"
  shows "NUL \<notin> set h"
proof (cases i)
  case (Host x)
  then show ?thesis using assms plain_NUL [of x] by simp
next
  case (Ranges p rs sfx)
  obtain r where "h \<in> set (span_hosts p sfx r)" using assms(2) by (auto simp: Ranges)
  then obtain n where h: "h = p @ fmt0 (length (fst r)) n @ sfx"
    unfolding span_hosts_def set_map by (blast elim: imageE)
  have "NUL \<notin> set (fmt0 (length (fst r)) n)" using fmt0_digits digit_not_sep by blast
  then show ?thesis using assms(1) plain_NUL [of p] plain_NUL [of sfx] by (simp add: Ranges h)
qed

lemma apply_excluded_items:
  assumes "hl_ok hl" "list_all item_ok is" "length (concat (map item_hosts is)) < 2 ^ 31"
    and "\<forall>h\<in>set (concat (map item_hosts is)). findable h"
  shows "\<exists>hl'. wcoll_apply_excluded stale hl (map item_text is) = Some hl' \<and> hl_ok hl' \<and>
    hosts hl' = fold remove1 (concat (map item_hosts is)) (hosts hl)"
  using assms
proof (induction "is" arbitrary: hl)
  case (Cons i js)
  have i: "item_ok i" using Cons.prems(2) by simp
  have "\<forall>h\<in>set (concat (map item_hosts [i])). NUL \<notin> set h \<and> findable h"
    using Cons.prems(4) item_hosts_NUL [OF i] by simp
  moreover have "length (concat (map item_hosts [i])) < 2 ^ 31" "list_all item_ok [i]" using Cons.prems(2,3) by simp_all
  ultimately obtain n hl1 where d: "hostlist_delete stale hl (Some (item_text i)) = Some (n, hl1)" "hl_ok hl1"
    "hosts hl1 = fold remove1 (rev (item_hosts i)) (hosts hl)"
    using hostlist_delete_items [OF Cons.prems(1), of "[i]" stale] by auto
  have "\<exists>hl'. wcoll_apply_excluded stale hl1 (map item_text js) = Some hl' \<and> hl_ok hl' \<and>
    hosts hl' = fold remove1 (concat (map item_hosts js)) (hosts hl1)"
    using Cons.prems by (intro Cons.IH [OF d(2)]) simp_all
  moreover have "fold remove1 (rev (item_hosts i)) xs = fold remove1 (item_hosts i) xs" for xs
    by (intro fun_cong [OF fold_multiset_equiv]) (simp_all add: fun_eq_iff remove1_commute)
  ultimately show ?case using d by auto
qed simp

lemma expand_loop_spec:
  assumes "hl_ok hl" "hl_ok new" "\<forall>h\<in>set (hosts hl). item_ok (Host h)"
    and "length (hosts new) + length (hosts hl) < 2 ^ 31"
  shows "\<exists>hl'. expand_loop stale hl new = Some hl' \<and> hl_ok hl' \<and> hosts hl' = hosts new @ hosts hl"
  using assms
proof (induction "hosts hl" arbitrary: hl new)
  case Nil
  then show ?case using hostlist_shift_empty [of hl] by (subst expand_loop.simps) simp
next
  case (Cons h hs)
  obtain host hl1 where sh: "hostlist_shift hl = (host, hl1)" by force
  have ne: "hosts hl \<noteq> []" using Cons.hyps(2) by (metis list.distinct(1))
  note S = hostlist_shift_spec [OF Cons.prems(1) ne sh]
  have h: "host = Some h" "hosts hl1 = hs" "item_ok (Host h)"
    using S Cons.hyps(2) Cons.prems(3) by (metis list.sel(1), metis list.sel(3), metis list.set_intros(1))
  have len: "length (hosts new) + length (h # hs) < 2 ^ 31" using Cons.prems(4) Cons.hyps(2) by simp
  obtain n new1 where p: "hostlist_push stale new (Some h) = Some (n, new1)" "hl_ok new1" "hosts new1 = hosts new @ [h]"
    using hostlist_push_items [OF Cons.prems(2), of "[Host h]" stale] h(3) len by auto
  have "\<exists>hl'. expand_loop stale hl1 new1 = Some hl' \<and> hl_ok hl' \<and> hosts hl' = hosts new1 @ hosts hl1"
  proof (rule Cons.hyps(1) [OF _ S(3) p(2)])
    show "hs = hosts hl1" using h(2) by simp
    show "\<forall>h\<in>set (hosts hl1). item_ok (Host h)"
      using Cons.prems(3) unfolding h(2) Cons.hyps(2) [symmetric] by simp
    show "length (hosts new1) + length (hosts hl1) < 2 ^ 31" using len unfolding p(3) h(2) by simp
  qed
  then show ?case
    using sh h p Cons.hyps(2) by (subst expand_loop.simps) auto
qed

lemma set_fold_remove1: "set (fold remove1 es xs) \<subseteq> set xs"
proof (induction es arbitrary: xs)
  case (Cons e es)
  show ?case using Cons.IH [of "remove1 e xs"] set_remove1_subset [of e xs] by simp
qed simp

lemma length_fold_remove1: "length (fold remove1 es xs) \<le> length xs"
proof (induction es arbitrary: xs)
  case (Cons e es)
  show ?case using Cons.IH [of "remove1 e xs"] by (simp add: length_remove1 split: if_splits)
qed simp

lemma fold_remove1_distinct: "distinct xs \<Longrightarrow> fold remove1 es xs = filter (\<lambda>x. x \<notin> set es) xs"
  by (induction es arbitrary: xs) (auto simp: distinct_remove1_removeAll removeAll_filter_not_eq intro!: filter_cong)

lemma mset_concat_rev: "mset (concat (map f (rev xs))) = mset (concat (map f xs))"
  by (induction xs) simp_all

lemma target_list:
  assumes "list_all targets_ok ts" "taken ts \<noteq> []"
    and "length (concat (map item_hosts (taken ts))) < 2 ^ 31" "length (concat (map item_hosts (left ts))) < 2 ^ 31"
    and "list_all (\<lambda>h. item_ok (Host h)) (concat (map item_hosts (taken ts)))"
    and "list_all findable (concat (map item_hosts (left ts)))"
  shows "\<exists>opt opt' hl. target_opts_process env opt_wcoll_start (map targets_opt ts) = Some (Continues opt) \<and>
    opt_args_wcoll env (\<lambda>w. w) var opt = Some (Continues opt') \<and> wcoll opt' = Some hl \<and> hl_ok hl \<and>
    hosts hl = fold remove1 (concat (map item_hosts (left ts))) (concat (map item_hosts (taken ts)))"
proof -
  let ?t = "concat (map item_hosts (taken ts))" and ?l = "concat (map item_hosts (left ts))"
  have s: "wcoll_ok opt_wcoll_start" "wcoll_hosts opt_wcoll_start = []" "some_list (exclude_list opt_wcoll_start) = []"
    "some_list (regex_list opt_wcoll_start) = []"
    by (simp_all add: wcoll_ok_def wcoll_hosts_def some_list_def opt_wcoll_start_def)
  obtain opt where o: "target_opts_process env opt_wcoll_start (map targets_opt ts) = Some (Continues opt)"
    "wcoll_ok opt" "wcoll_hosts opt = ?t" "some_list (exclude_list opt) = rev (map item_text (left ts))"
    "some_list (regex_list opt) = []" "wcoll opt \<noteq> None"
    using target_opts_collect [OF assms(1) s(1), of env] s assms(2,3) by auto
  obtain hl where hl: "wcoll opt = Some hl" "hl_ok hl" "hosts hl = ?t"
    using o(2,3,6) by (auto simp: wcoll_ok_def wcoll_hosts_def)
  let ?r = "concat (map item_hosts (rev (left ts)))"
  have m: "mset ?r = mset ?l" by (rule mset_concat_rev)
  have f: "fold remove1 ?r xs = fold remove1 ?l xs" for xs
    using m by (intro fun_cong [OF fold_multiset_equiv]) (simp_all add: fun_eq_iff remove1_commute)
  have lok: "list_all item_ok (rev (left ts))"
  proof -
    have "list_all item_ok (left ts)" using assms(1)
      by (induction ts rule: left.induct) (auto simp: list_all_iff target_item_def)
    then show ?thesis by (simp add: list_all_iff)
  qed
  have lr: "length ?r < 2 ^ 31" using mset_eq_length [OF m] assms(4) by simp
  have fr: "\<forall>h\<in>set ?r. findable h" using mset_eq_setD [OF m] assms(6) by (simp add: list_all_iff)
  obtain hl1 where x: "wcoll_apply_excluded (estale env) hl (map item_text (rev (left ts))) = Some hl1" "hl_ok hl1"
    "hosts hl1 = fold remove1 ?l ?t"
    using apply_excluded_items [OF hl(2) lok lr fr, of "estale env"] hl(3) f by auto
  have "\<forall>h\<in>set (hosts hl1). item_ok (Host h)"
    using set_fold_remove1 [of ?l ?t] assms(5) by (auto simp: x(3) list_all_iff)
  moreover have "length (hosts hostlist_new) + length (hosts hl1) < 2 ^ 31"
    using length_fold_remove1 [of ?l ?t] assms(3) hostlist_new_ok(2) by (simp add: x(3))
  ultimately obtain hl2 where e: "wcoll_expand (estale env) hl1 = Some hl2" "hl_ok hl2" "hosts hl2 = hosts hl1"
    using expand_loop_spec [OF x(2) hostlist_new_ok(1)] hostlist_new_ok(2) by (auto simp: wcoll_expand_def)
  have "opt_args_wcoll env (\<lambda>w. w) var opt = Some (Continues (opt\<lparr>wcoll := Some hl2\<rparr>))"
    using hl(1) x(1) e(1) o(4,5) by (simp add: opt_args_wcoll_def some_list_def [symmetric] rev_map)
  then show ?thesis using o(1) e(2,3) x(3) by auto
qed

end
