(* ===== verification/Options.thy ===== *)
theory Options
  imports Wcoll_Args Dsh_Setup
begin

text \<open>
  The options of the program (\<open>pdsh/opt.c\<close>): the option record, defaults, the
  environment, POSIX \<open>getopt\<close>, and the table of option letters to which modules add
  theirs. A function that ends the program with a message is \<open>Exits\<close>.
\<close>

section \<open>The option record\<close>

text \<open>
  \<open>opt_t\<close>: the fields \<open>dsh()\<close> reads are in \<open>dsh_opt\<close>, those of the target
  list come first. Strings that may be null stand outside \<open>dsh_opt\<close> and are filled in when
  \<open>dsh()\<close> is called. \<open>strip_domain\<close> is the flag of the message functions.
\<close>

record options = opt_wcoll +
  dsh_opt :: opt_t
  progname :: string
  debug :: bool
  info_only :: bool
  test_range_expansion :: bool
  altnames :: bool
  sigint_terminates :: bool
  luser :: string
  luid :: nat
  ruser :: string
  ofanout :: int
  connect_timeout :: int
  command_timeout :: int
  rcmd_name :: "string option"
  misc_modules :: "string option"
  oresolve_hosts :: bool
  stdin_unavailable :: bool
  cmd :: "string option"
  outfile :: "string option"
  local_path :: "string option"
  remote_path :: "string option"
  opt_pcp_server :: bool
  target_is_directory :: bool
  opt_pcp_client :: bool
  pcp_client_host :: "string option"
  strip_domain :: bool

text \<open>What the program asks of the system when it starts\<close>

record host_env =
  getenv :: "string \<Rightarrow> string option"
  getcwd :: "string option"
  access_ok :: "string \<Rightarrow> bool"
  self_pw :: "(string \<times> nat) option"
  pw_shell :: "string \<Rightarrow> string option"
  login_name_sysconf :: int

text \<open>The defaults of \<open>configure\<close>\<close>

definition DFLT_FANOUT :: int where
  "DFLT_FANOUT = 32"

definition CONNECT_TIMEOUT :: int where
  "CONNECT_TIMEOUT = 10"

section \<open>The path of the program\<close>

definition check_path :: "host_env \<Rightarrow> string \<Rightarrow> string \<Rightarrow> string \<Rightarrow> string option" where
  "check_path env dir cwd argv0 =
    (let abspath = (if take 1 dir \<noteq> ''/'' then cat (Strdup (Some cwd)) ''/'' else None);
         abspath = cat abspath dir;
         abspath = cat abspath ''/'';
         abspath = cat abspath argv0
     in if access_ok env (xtext_of abspath) then Some (xtext_of abspath) else None)"

text \<open>The loop over the directories; empty ones are skipped.\<close>

function path_loop :: "host_env \<Rightarrow> string \<Rightarrow> string \<Rightarrow> string \<Rightarrow> string option" where
  "path_loop env cwd argv0 dir =
    (case cut_at CHR '':'' dir of
       (d, Some rest) \<Rightarrow>
         (case (if d \<noteq> [] then check_path env d cwd argv0 else None) of
            Some abspath \<Rightarrow> Some abspath
          | None \<Rightarrow> path_loop env cwd argv0 rest)
     | (d, None) \<Rightarrow> if d \<noteq> [] then check_path env d cwd argv0 else None)"
  by pat_completeness auto
termination
  by (relation "measure (\<lambda>(_, _, _, dir). length dir)") (auto dest!: sym [of _ "cut_at _ _"] simp: cut_at_Some)

declare path_loop.simps [simp del]

definition find_path :: "host_env \<Rightarrow> string \<Rightarrow> string option fate" where
  "find_path env argv0 =
    (if take 1 argv0 = ''/'' then Continues (Some argv0)
     else case getcwd env of
       None \<Rightarrow> Exits
     | Some cwd \<Rightarrow>
         if take 1 argv0 = ''.'' \<or> strchr argv0 (CHR ''/'') then
           Continues (Some (xtext_of (cat (cat (Strdup (Some cwd)) ''/'') argv0)))
         else case getenv env ''PATH'' of
           None \<Rightarrow> Exits
         | Some path \<Rightarrow> Continues (path_loop env cwd argv0 path))"

section \<open>Defaults\<close>

definition DEFAULT_MAX_USERNAME_LENGTH :: int where
  "DEFAULT_MAX_USERNAME_LENGTH = 16"

definition login_name_max_len :: "host_env \<Rightarrow> int" where
  "login_name_max_len env =
    (if login_name_sysconf env \<le> 0 then DEFAULT_MAX_USERNAME_LENGTH else login_name_sysconf env)"

definition copy_username :: "host_env \<Rightarrow> string \<Rightarrow> string fate" where
  "copy_username env src = (if int (length src) > login_name_max_len env then Exits else Continues src)"

text \<open>The option letters of \<open>getopt\<close>\<close>

definition GEN_ARGS :: string where
  "GEN_ARGS = ''hLNKR:M:t:cqf:w:x:l:u:bI:dVT:Q''"

definition DSH_ARGS :: string where
  "DSH_ARGS = ''Sk''"

definition PCP_ARGS :: string where
  "PCP_ARGS = ''pryzZe:''"

definition init_pdsh_options :: "pers_t \<Rightarrow> string" where
  "init_pdsh_options p = xtext_of (cat (Strdup (Some GEN_ARGS)) (if p = DSH then DSH_ARGS else PCP_ARGS))"

text \<open>The personality, and whether copies go the other way\<close>

definition program_kind :: "string \<Rightarrow> (pers_t \<times> bool) fate" where
  "program_kind name =
    (if name = ''pdsh'' \<or> name = ''dsh'' then Continues (DSH, False)
     else if name = ''pdcp'' \<or> name = ''dcp'' \<or> name = ''pcp'' then Continues (PCP, False)
     else if name = ''rpdcp'' then Continues (PCP, True)
     else Exits)"

definition opt_default :: "host_env \<Rightarrow> string \<Rightarrow> (pers_t \<times> string \<times> options) fate" where
  "opt_default env argv0 =
    (case program_kind (xbasename argv0) of
       Exits \<Rightarrow> Exits
     | Continues (p, reverse) \<Rightarrow>
         (case self_pw env of
            None \<Rightarrow> Exits
          | Some (name, uid) \<Rightarrow>
              (case copy_username env name of
                 Exits \<Rightarrow> Exits
               | Continues user \<Rightarrow>
                   (case find_path env argv0 of
                      Exits \<Rightarrow> Exits
                    | Continues lpath \<Rightarrow> Continues (p, init_pdsh_options p,
                        \<lparr>wcoll = None, exclude_list = None, regex_list = None, orcmd = rcmd_start,
                         dsh_opt = \<lparr>labels = True, separate_stderr = True, kill_on_fail = False,
                           ret_remote_rc = False, ocmd = [], dshpath = None, getstat = None, preserve = False,
                           recursive = False, reverse_copy = reverse, remote_program_path = [],
                           infile_names = [], outfile_name = []\<rparr>,
                         progname = xbasename argv0, debug = False, info_only = False,
                         test_range_expansion = False, altnames = False, sigint_terminates = False,
                         luser = user, luid = uid, ruser = user, ofanout = DFLT_FANOUT,
                         connect_timeout = CONNECT_TIMEOUT, command_timeout = 0, rcmd_name = None,
                         misc_modules = None, oresolve_hosts = True, stdin_unavailable = False,
                         cmd = None, outfile = None, local_path = lpath, remote_path = lpath,
                         opt_pcp_server = False, target_is_directory = False, opt_pcp_client = False,
                         pcp_client_host = None, strip_domain = True\<rparr>)))))"

section \<open>Numbers\<close>

text \<open>\<open>strtoul\<close> sets \<open>errno\<close> when the digits exceed the range.\<close>

definition strtoul_digits_of :: "string \<Rightarrow> string" where
  "strtoul_digits_of s =
    (let t = dropWhile isspace s
     in takeWhile isdigit (if take 1 t = ''-'' \<or> take 1 t = ''+'' then drop 1 t else t))"

definition string_to_int :: "string \<Rightarrow> int option" where
  "string_to_int val =
    (let (n, p) = strtoul val
     in if dec_val (strtoul_digits_of val) \<ge> 2 ^ 64 \<or> p \<noteq> [] then None else Some (int_of_ulong n))"

section \<open>The environment\<close>

definition env_int :: "host_env \<Rightarrow> string \<Rightarrow> int \<Rightarrow> int fate" where
  "env_int env name old =
    (case getenv env name of
       None \<Rightarrow> Continues old
     | Some rhs \<Rightarrow> (case string_to_int rhs of None \<Rightarrow> Exits | Some n \<Rightarrow> Continues n))"

definition dshpath_prefix :: "host_env \<Rightarrow> string \<Rightarrow> string \<Rightarrow> string" where
  "dshpath_prefix env user rhs =
    (let shell = (case pw_shell env user of
           Some s \<Rightarrow> if s \<noteq> [] then xbasename s else ''sh'' | None \<Rightarrow> ''sh'')
     in if shell = ''csh'' \<or> shell = ''tcsh''
        then xtext_of (cat (cat (Strdup (Some ''setenv PATH '')) rhs) '';'')
        else xtext_of (cat (cat (Strdup (Some ''PATH='')) rhs) '';''))"

definition opt_env :: "host_env \<Rightarrow> pers_t \<Rightarrow> options \<Rightarrow> options fate" where
  "opt_env env p opt =
    (case env_int env ''FANOUT'' (ofanout opt) of
       Exits \<Rightarrow> Exits
     | Continues f \<Rightarrow>
         (case env_int env ''PDSH_CONNECT_TIMEOUT'' (connect_timeout opt) of
            Exits \<Rightarrow> Exits
          | Continues ct \<Rightarrow>
              (case env_int env ''PDSH_COMMAND_TIMEOUT'' (command_timeout opt) of
                 Exits \<Rightarrow> Exits
               | Continues ut \<Rightarrow>
                   let opt = opt\<lparr>ofanout := f, connect_timeout := ct, command_timeout := ut\<rparr>;
                       opt = (case getenv env ''PDSH_RCMD_TYPE'' of None \<Rightarrow> opt | Some r \<Rightarrow> opt\<lparr>rcmd_name := Some r\<rparr>);
                       opt = (case getenv env ''PDSH_MISC_MODULES'' of None \<Rightarrow> opt | Some r \<Rightarrow> opt\<lparr>misc_modules := Some r\<rparr>);
                       opt = (case getenv env ''DSHPATH'' of
                                None \<Rightarrow> opt
                              | Some r \<Rightarrow> opt\<lparr>dsh_opt := (dsh_opt opt)\<lparr>dshpath := Some (dshpath_prefix env (luser opt) r)\<rparr>\<rparr>)
                   in Continues
                        (if p = PCP then
                           (case getenv env ''PDSH_REMOTE_PDCP_PATH'' of
                              None \<Rightarrow> opt
                            | Some r \<Rightarrow> opt\<lparr>remote_path := Some r\<rparr>)
                         else opt))))"

section \<open>Option letters\<close>

definition takes_arg :: "string \<Rightarrow> char \<Rightarrow> bool" where
  "takes_arg ostr c \<longleftrightarrow> take 1 (drop 1 (dropWhile (\<lambda>d. d \<noteq> c) ostr)) = '':''"

text \<open>
  \<open>getopt\<close> stops at the first argument that is not an option: \<open>opt_args_early\<close>
  sets \<open>POSIXLY_CORRECT\<close> for its first call, and the library keeps that order. The first
  function reads the letters of one argument, the second all arguments; they return the pairs of
  letter and argument, and the arguments that follow.
\<close>

type_synonym optarg = "char \<times> string option"

fun getopt_cluster :: "string \<Rightarrow> string \<Rightarrow> string list \<Rightarrow> optarg list \<times> string list" where
  "getopt_cluster ostr [] as = ([], as)"
| "getopt_cluster ostr (c # cs) as =
    (if \<not> strchr ostr c \<or> c = CHR '':'' \<or> c = CHR '';'' then
       (let (os, as) = getopt_cluster ostr cs as in ((CHR ''?'', None) # os, as))
     else if takes_arg ostr c then
       if cs \<noteq> [] then ([(c, Some cs)], as)
       else case as of [] \<Rightarrow> ([(CHR ''?'', None)], []) | a # as \<Rightarrow> ([(c, Some a)], as)
     else (let (os, as) = getopt_cluster ostr cs as in ((c, None) # os, as)))"

lemma getopt_cluster_shorter: "(os, as') = getopt_cluster ostr cs as \<Longrightarrow> length as' \<le> length as"
  by (induction ostr cs as arbitrary: os as' rule: getopt_cluster.induct)
    (auto split: if_splits list.splits prod.splits)

function getopt :: "string \<Rightarrow> string list \<Rightarrow> optarg list \<times> string list" where
  "getopt ostr [] = ([], [])"
| "getopt ostr (a # as) =
    (if a = ''--'' then ([], as)
     else if take 1 a \<noteq> ''-'' \<or> a = ''-'' then ([], a # as)
     else
       let (os, as) = getopt_cluster ostr (drop 1 a) as;
           (os', rest) = getopt ostr as
       in (os @ os', rest))"
  by pat_completeness auto
termination
  by (relation "measure (\<lambda>(_, as). length as)") (auto dest: getopt_cluster_shorter)

declare getopt.simps [simp del]

text \<open>An option of a module: its letter, whether it takes an argument, and for which programs\<close>

record 'o module_option =
  oletter :: char
  oarg :: bool
  opers :: "pers_t set"
  ofun :: "'o \<Rightarrow> char \<Rightarrow> string option \<Rightarrow> int \<times> 'o"

definition opt_register :: "pers_t \<Rightarrow> string \<Rightarrow> 'o module_option list \<Rightarrow> bool \<times> string" where
  "opt_register p letters tab =
    (if list_ex (\<lambda>q. p \<in> opers q \<and> strchr letters (oletter q)) tab then (False, letters)
     else (True, foldl (\<lambda>letters q. if p \<in> opers q
             then letters @ [oletter q] @ (if oarg q then '':'' else []) else letters) letters tab))"

text \<open>The options handled before modules are loaded\<close>

definition opt_args_early :: "string \<Rightarrow> string list \<Rightarrow> options \<Rightarrow> options" where
  "opt_args_early letters argv opt =
    foldl (\<lambda>opt (c, a).
        if c = CHR ''M'' then opt\<lparr>misc_modules := a\<rparr>
        else if c = CHR ''d'' then opt\<lparr>debug := True\<rparr>
        else opt) opt (fst (getopt letters argv))"

section \<open>What is accepted as a number\<close>

lemma isspace_sign: "isspace c \<Longrightarrow> c \<noteq> CHR ''-'' \<and> c \<noteq> CHR ''+''"
  by (auto simp: isspace_def)

lemma isdigit_sign: "isdigit c \<Longrightarrow> c \<noteq> CHR ''-'' \<and> c \<noteq> CHR ''+''"
  by (auto simp: isdigit_iff)

text \<open>White space, a sign and digits\<close>

definition signed_number :: "string \<Rightarrow> string \<Rightarrow> string \<Rightarrow> bool" where
  "signed_number ws sg ds \<longleftrightarrow> list_all isspace ws \<and> sg \<in> {[], ''-'', ''+''} \<and> number ds"

lemma strtoul_signed:
  assumes "signed_number ws sg ds"
  shows "strtoul_digits_of (ws @ sg @ ds) = ds"
    "strtoul (ws @ sg @ ds) =
      (if dec_val ds \<ge> 2 ^ 64 then ULONG_MAX else if sg = ''-'' then - of_nat (dec_val ds) else of_nat (dec_val ds), [])"
proof -
  obtain d ds' where d: "ds = d # ds'" "isdigit d" "list_all isdigit ds'"
    using assms by (cases ds) (auto simp: signed_number_def number_def)
  have sg: "sg = [] \<or> sg = ''-'' \<or> sg = ''+''" using assms by (simp add: signed_number_def)
  have ns: "\<not> isspace (CHR ''-'')" "\<not> isspace (CHR ''+'')" using isspace_sign by blast+
  have t: "dropWhile isspace (ws @ sg @ ds) = sg @ ds"
  proof -
    have "dropWhile isspace (ws @ sg @ ds) = dropWhile isspace (sg @ ds)"
      using assms by (subst dropWhile_append2) (auto simp: signed_number_def list_all_iff)
    then show ?thesis using sg ns isdigit_not_space [OF d(2)] d(1) by auto
  qed
  have ds: "takeWhile isdigit ds = ds"
    using assms by (simp add: signed_number_def number_def list_all_iff takeWhile_eq_all_conv)
  have nd: "d \<noteq> CHR ''-''" "d \<noteq> CHR ''+''" using isdigit_sign [OF d(2)] by simp_all
  show "strtoul_digits_of (ws @ sg @ ds) = ds"
    unfolding strtoul_digits_of_def t Let_def using sg ds d(1) nd by auto
  show "strtoul (ws @ sg @ ds) =
      (if dec_val ds \<ge> 2 ^ 64 then ULONG_MAX else if sg = ''-'' then - of_nat (dec_val ds) else of_nat (dec_val ds), [])"
    unfolding strtoul_def t Let_def using sg ds d(1) nd by auto
qed

lemma strtoul_all:
  assumes "snd (strtoul s) = []" "s \<noteq> []"
  shows "\<exists>ws sg ds. s = ws @ sg @ ds \<and> signed_number ws sg ds"
proof -
  define t where "t = dropWhile isspace s"
  define sg where "sg = (if take 1 t = ''-'' \<or> take 1 t = ''+'' then take 1 t else [])"
  define u where "u = drop (length sg) t"
  define ds where "ds = takeWhile isdigit u"
  have t: "s = takeWhile isspace s @ t" "t = sg @ u" by (simp add: t_def) (cases t, auto simp: sg_def u_def)
  have "snd (strtoul s) = (if ds = [] then s else drop (length ds) u)"
    by (cases t) (auto simp: strtoul_def Let_def t_def [symmetric] ds_def u_def sg_def)
  then have "ds \<noteq> []" "drop (length ds) u = []" using assms by (auto split: if_splits)
  then have "u = ds" "number ds"
    by (metis append_Nil2 ds_def dropWhile_eq_drop takeWhile_dropWhile_id)
      (use \<open>ds \<noteq> []\<close> in \<open>simp add: number_def ds_def list_all_iff, metis set_takeWhileD\<close>)
  moreover have "sg \<in> {[], ''-'', ''+''}" by (auto simp: sg_def)
  moreover have "list_all isspace (takeWhile isspace s)" by (auto simp: list_all_iff dest: set_takeWhileD)
  ultimately show ?thesis using t unfolding signed_number_def by metis
qed

lemma string_to_int_None:
  "string_to_int val = None \<longleftrightarrow> val \<noteq> [] \<and>
    \<not> (\<exists>ws sg ds. val = ws @ sg @ ds \<and> signed_number ws sg ds \<and> dec_val ds < 2 ^ 64)"
proof (cases "val = []")
  case True
  then show ?thesis by (simp add: string_to_int_def strtoul_def strtoul_digits_of_def dec_val_def)
next
  case ne: False
  show ?thesis
  proof
    assume N: "string_to_int val = None"
    have False if "val = ws @ sg @ ds" "signed_number ws sg ds" "dec_val ds < 2 ^ 64" for ws sg ds
      using N strtoul_signed [OF that(2)] that(1,3) by (auto simp: string_to_int_def)
    then show "val \<noteq> [] \<and> \<not> (\<exists>ws sg ds. val = ws @ sg @ ds \<and> signed_number ws sg ds \<and> dec_val ds < 2 ^ 64)"
      using ne by blast
  next
    assume N: "val \<noteq> [] \<and> \<not> (\<exists>ws sg ds. val = ws @ sg @ ds \<and> signed_number ws sg ds \<and> dec_val ds < 2 ^ 64)"
    show "string_to_int val = None"
    proof (cases "snd (strtoul val) = []")
      case True
      then obtain ws sg ds where v: "val = ws @ sg @ ds" "signed_number ws sg ds" using strtoul_all [OF _ ne] by blast
      then have "2 ^ 64 \<le> dec_val ds" using N by fastforce
      then show ?thesis using strtoul_signed(1) [OF v(2)] v(1) by (simp add: string_to_int_def)
    next
      case False
      then show ?thesis by (auto simp: string_to_int_def split: prod.split)
    qed
  qed
qed

lemma string_to_int_number: "number s \<Longrightarrow> dec_val s < 2 ^ 31 \<Longrightarrow> string_to_int s = Some (int (dec_val s))"
proof -
  assume s: "number s" "dec_val s < 2 ^ 31"
  have "signed_number [] [] s" using s(1) by (simp add: signed_number_def)
  note S = strtoul_signed [OF this, simplified]
  have u: "unat (of_nat (dec_val s) :: ulong) = dec_val s" using s(2) by (intro unat_of_nat_small) simp
  show ?thesis
    using s(2) S by (simp add: string_to_int_def int_of_ulong_small u)
qed

section \<open>The options are found again\<close>

definition opt_words :: "optarg \<Rightarrow> string list" where
  "opt_words q = (case q of (c, None) \<Rightarrow> [[CHR ''-'', c]] | (c, Some a) \<Rightarrow> [[CHR ''-'', c], a])"

definition opt_known :: "string \<Rightarrow> optarg \<Rightarrow> bool" where
  "opt_known ostr q \<longleftrightarrow> strchr ostr (fst q) \<and> fst q \<notin> {CHR '':'', CHR '';'', CHR ''-''} \<and>
     (snd q \<noteq> None \<longleftrightarrow> takes_arg ostr (fst q))"

lemma getopt_step:
  assumes "c \<noteq> CHR ''-''" "getopt_cluster ostr [c] as = (os, r)" "getopt ostr r = (os', rest)"
  shows "getopt ostr ([CHR ''-'', c] # as) = (os @ os', rest)"
  using assms by (simp add: getopt.simps(2))

lemma getopt_words:
  assumes "list_all (opt_known ostr) os" "rest = [] \<or> take 1 (hd rest) \<noteq> ''-'' \<or> hd rest = ''-''"
  shows "getopt ostr (concat (map opt_words os) @ rest) = (os, rest)"
  using assms(1)
proof (induction os)
  case Nil
  have "hd rest \<noteq> ''--''" if "rest \<noteq> []" using assms(2) that by auto
  then show ?case using assms(2) by (cases rest) (auto simp: getopt.simps)
next
  case (Cons q os)
  obtain c a where q: "q = (c, a)" by force
  have c: "strchr ostr c" "c \<noteq> CHR '':''" "c \<noteq> CHR '';''" "c \<noteq> CHR ''-''" "a \<noteq> None \<longleftrightarrow> takes_arg ostr c"
    using Cons.prems by (auto simp: opt_known_def q)
  have IH: "getopt ostr (concat (map opt_words os) @ rest) = (os, rest)" using Cons by simp
  show ?case
  proof (cases a)
    case None
    then have "getopt_cluster ostr [c] (concat (map opt_words os) @ rest) = ([(c, None)], concat (map opt_words os) @ rest)"
      using c by simp
    from getopt_step [OF c(4) this IH] show ?thesis by (simp add: q None opt_words_def [of "(c, None)"])
  next
    case (Some x)
    then have "getopt_cluster ostr [c] (x # concat (map opt_words os) @ rest) = ([(c, Some x)], concat (map opt_words os) @ rest)"
      using c by simp
    from getopt_step [OF c(4) this IH] show ?thesis by (simp add: q Some opt_words_def [of "(c, Some x)"])
  qed
qed

section \<open>Registered letters\<close>

definition letters_for :: "pers_t \<Rightarrow> 'o module_option list \<Rightarrow> char set" where
  "letters_for p tab = oletter ` {q \<in> set tab. p \<in> opers q}"

lemma letters_for_simps:
  "letters_for p [] = {}"
  "letters_for p (q # tab) = (if p \<in> opers q then insert (oletter q) (letters_for p tab) else letters_for p tab)"
  by (auto simp: letters_for_def)

lemma register_letters:
  "set ls \<union> letters_for p tab \<subseteq>
    set (foldl (\<lambda>letters q. if p \<in> opers q then letters @ [oletter q] @ (if oarg q then '':'' else []) else letters) ls tab)"
proof (induction tab arbitrary: ls)
  case (Cons q tab)
  show ?case using Cons.IH [of "if p \<in> opers q then ls @ [oletter q] @ (if oarg q then '':'' else []) else ls"]
    by (auto simp: letters_for_simps split: if_splits)
qed (simp add: letters_for_simps)

lemma opt_register_ok:
  assumes "opt_register p ls tab = (r, ls')"
  shows "r \<longleftrightarrow> letters_for p tab \<inter> set ls = {}"
    "\<not> r \<Longrightarrow> ls' = ls" "r \<Longrightarrow> set ls \<union> letters_for p tab \<subseteq> set ls'"
proof -
  show r: "r \<longleftrightarrow> letters_for p tab \<inter> set ls = {}"
    using assms by (auto simp: opt_register_def letters_for_def list_ex_iff split: if_splits)
  show "\<not> r \<Longrightarrow> ls' = ls" "r \<Longrightarrow> set ls \<union> letters_for p tab \<subseteq> set ls'"
    using assms register_letters [of ls p tab] unfolding opt_register_def by (auto split: if_splits)
qed

end
