(* ===== verification/Mod.thy ===== *)
theory Mod
  imports Options
begin

text \<open>
  Modules (\<open>pdsh/mod.c\<close>): which files are loaded, which of two modules with the same name
  stays, the order of initialization, the options modules register, and the calls into modules.
  What the dynamic linker finds in a file and the functions of the modules are parameters; lists
  are the sequences the lists of \<open>List_Ops\<close> implement. Paths are assumed to fit their
  buffers.
\<close>

section \<open>Modules\<close>

text \<open>\<open>pinit\<close> is the value of the \<open>init\<close> function, if there is one; \<open>prcmd\<close>
  says that the functions of a remote command are there.\<close>

record pdsh_module =
  ptype :: "string option"
  pname :: "string option"
  ppers :: "pers_t set"
  pinit :: "int option"
  pread :: "(options \<Rightarrow> hostlist option \<times> options) option"
  ppostop :: "(options \<Rightarrow> int \<times> options) option"
  prcmd :: bool
  ptable :: "options module_option list"

record module_components =
  mfile :: string
  mprio :: int
  mactive :: bool
  pmod :: pdsh_module

text \<open>\<open>init_calls\<close> records the files whose \<open>init\<close> has been called.\<close>

record mod_state =
  module_list :: "module_components list"
  letters :: string
  init_calls :: "string list"

definition DEFAULT_MODULE_PRIORITY :: int where
  "DEFAULT_MODULE_PRIORITY = 100"

definition mod_create :: "string \<Rightarrow> pdsh_module \<Rightarrow> int option \<Rightarrow> module_components" where
  "mod_create file pm prio =
    \<lparr>mfile = file, mprio = (case prio of None \<Rightarrow> DEFAULT_MODULE_PRIORITY | Some n \<Rightarrow> n), mactive = False, pmod = pm\<rparr>"

section \<open>Registration\<close>

definition description_match :: "string \<Rightarrow> string \<Rightarrow> module_components \<Rightarrow> bool" where
  "description_match typ name m \<longleftrightarrow> ptype (pmod m) = Some typ \<and> pname (pmod m) = Some name"

definition mod_get_module :: "module_components list \<Rightarrow> string \<Rightarrow> string \<Rightarrow> module_components option" where
  "mod_get_module ms typ name = find (description_match typ name) ms"

definition mod_delete :: "string \<Rightarrow> string \<Rightarrow> module_components list \<Rightarrow> module_components list" where
  "mod_delete typ name ms = filter (\<lambda>m. \<not> description_match typ name m) ms"

definition mod_register :: "pers_t \<Rightarrow> module_components \<Rightarrow> module_components list \<Rightarrow> int \<times> module_components list" where
  "mod_register p m ms =
    (case (ptype (pmod m), pname (pmod m)) of
       (Some typ, Some name) \<Rightarrow>
         let (refused, ms) =
           (case mod_get_module ms typ name of
              None \<Rightarrow> (False, ms)
            | Some prev \<Rightarrow> if mprio m > mprio prev then (False, mod_delete typ name ms) else (True, ms))
         in if refused \<or> p \<notin> ppers (pmod m) then (-1, ms) else (0, m # ms)
     | _ \<Rightarrow> (-1, ms))"

section \<open>Files\<close>

record fstat =
  is_reg :: bool
  is_dir :: bool
  owner :: nat
  world_writable :: bool
  sticky :: bool
  file_id :: "nat \<times> nat"

text \<open>What \<open>dlopen\<close> and \<open>dlsym\<close> find: the module information and the priority\<close>

record mod_env =
  stat :: "string \<Rightarrow> fstat option"
  getuid :: nat
  readdir :: "string \<Rightarrow> string list option"
  dlopen :: "string \<Rightarrow> (pdsh_module option \<times> int option) option"

datatype perm_error_t = DIR_OK | DIR_NOT_DIRECTORY | DIR_BAD_OWNER | DIR_WORLD_WRITABLE

definition dir_permission_error :: "mod_env \<Rightarrow> fstat \<Rightarrow> nat \<Rightarrow> perm_error_t" where
  "dir_permission_error env st alt_uid =
    (if \<not> is_dir st then DIR_NOT_DIRECTORY
     else if owner st \<noteq> 0 \<and> owner st \<noteq> getuid env \<and> owner st \<noteq> alt_uid then DIR_BAD_OWNER
     else if world_writable st \<and> \<not> sticky st then DIR_WORLD_WRITABLE
     else DIR_OK)"

definition MAXPATHLEN :: nat where
  "MAXPATHLEN = 4096"

text \<open>The loop from a directory up to the root; \<open>dirbuf\<close> has \<open>pos\<close> characters.\<close>

function path_permissions_loop :: "mod_env \<Rightarrow> nat \<Rightarrow> nat \<times> nat \<Rightarrow> string \<Rightarrow> bool" where
  "path_permissions_loop env pdsh_owner root dirbuf =
    (case stat env dirbuf of
       None \<Rightarrow> False
     | Some st \<Rightarrow>
         if dir_permission_error env st pdsh_owner \<noteq> DIR_OK then False
         else if length dirbuf > MAXPATHLEN - 3 then False
         else if file_id st = root then True
         else path_permissions_loop env pdsh_owner root (dirbuf @ ''/..''))"
  by pat_completeness auto
termination
  by (relation "measure (\<lambda>(_, _, _, dirbuf). MAXPATHLEN - length dirbuf)") (auto simp: MAXPATHLEN_def)

declare path_permissions_loop.simps [simp del]

definition path_permissions_ok :: "mod_env \<Rightarrow> string \<Rightarrow> nat \<Rightarrow> bool" where
  "path_permissions_ok env dir pdsh_owner =
    (case stat env ''/'' of
       None \<Rightarrow> False
     | Some st \<Rightarrow> path_permissions_loop env pdsh_owner (file_id st) (take MAXPATHLEN dir))"

definition is_loaded :: "string \<Rightarrow> module_components list \<Rightarrow> bool" where
  "is_loaded file ms \<longleftrightarrow> find (\<lambda>m. mfile m = file) ms \<noteq> None"

definition mod_load_dynamic :: "pers_t \<Rightarrow> mod_env \<Rightarrow> string \<Rightarrow> module_components list \<Rightarrow> int \<times> module_components list" where
  "mod_load_dynamic p env path ms =
    (case dlopen env path of
       None \<Rightarrow> (-1, ms)
     | Some (info, prio) \<Rightarrow>
         if is_loaded path ms then (-1, ms)
         else case info of
           None \<Rightarrow> (-1, ms)
         | Some pm \<Rightarrow> mod_register p (mod_create path pm prio) ms)"

text \<open>The checks on a file of the directory\<close>

definition file_secure :: "mod_env \<Rightarrow> nat \<Rightarrow> fstat \<Rightarrow> bool" where
  "file_secure env pdsh_owner st \<longleftrightarrow> is_reg st \<and>
     \<not> (owner st \<noteq> 0 \<and> owner st \<noteq> getuid env \<and> owner st \<noteq> pdsh_owner) \<and> \<not> world_writable st"

fun load_entries ::
  "pers_t \<Rightarrow> mod_env \<Rightarrow> nat \<Rightarrow> string \<Rightarrow> string list \<Rightarrow> nat \<Rightarrow> module_components list \<Rightarrow> nat \<times> module_components list" where
  "load_entries p env pdsh_owner dir [] n ms = (n, ms)"
| "load_entries p env pdsh_owner dir (name # names) n ms =
    (let path = dir @ ''/'' @ name
     in case stat env path of
          None \<Rightarrow> load_entries p env pdsh_owner dir names n ms
        | Some st \<Rightarrow>
            if \<not> file_secure env pdsh_owner st then load_entries p env pdsh_owner dir names n ms
            else case mod_load_dynamic p env path ms of
                   (rc, ms) \<Rightarrow> load_entries p env pdsh_owner dir names (if rc < 0 then n else n + 1) ms)"

definition mod_load_dynamic_modules ::
  "pers_t \<Rightarrow> mod_env \<Rightarrow> string \<Rightarrow> string option \<Rightarrow> module_components list \<Rightarrow> (int \<times> module_components list) fate" where
  "mod_load_dynamic_modules p env dir program ms =
    (case program of
       None \<Rightarrow> Continues (-1, ms)
     | Some program \<Rightarrow>
         (case stat env program of
            None \<Rightarrow> Continues (-1, ms)
          | Some st \<Rightarrow>
              if \<not> path_permissions_ok env dir (owner st) then Continues (-1, ms)
              else case readdir env dir of
                None \<Rightarrow> Continues (-1, ms)
              | Some names \<Rightarrow>
                  (case load_entries p env (owner st) dir names 0 ms of
                     (n, ms) \<Rightarrow> if n = 0 then Exits else Continues (0, ms))))"

section \<open>Initialization\<close>

text \<open>\<open>_mod_initialize\<close> on one module of the list, with the letters and the record of calls\<close>

definition mod_initialize ::
  "pers_t \<Rightarrow> module_components \<Rightarrow> string \<Rightarrow> string list \<Rightarrow> int \<times> module_components \<times> string \<times> string list" where
  "mod_initialize p m ls calls =
    (case opt_register p ls (ptable (pmod m)) of
       (False, ls) \<Rightarrow> (-1, m, ls, calls)
     | (True, ls) \<Rightarrow>
         (case pinit (pmod m) of
            None \<Rightarrow> (0, m\<lparr>mactive := True\<rparr>, ls, calls)
          | Some rc \<Rightarrow>
              if rc < 0 then (-1, m, ls, calls @ [mfile m])
              else (0, m\<lparr>mactive := True\<rparr>, ls, calls @ [mfile m])))"

text \<open>The same on the element at an index of the list\<close>

definition mod_initialize_at :: "pers_t \<Rightarrow> nat \<Rightarrow> mod_state \<Rightarrow> mod_state" where
  "mod_initialize_at p i st =
    (case mod_initialize p (module_list st ! i) (letters st) (init_calls st) of
       (_, m, ls, calls) \<Rightarrow> st\<lparr>module_list := (module_list st)[i := m], letters := ls, init_calls := calls\<rparr>)"

definition find_misc :: "string \<Rightarrow> module_components \<Rightarrow> bool" where
  "find_misc name m \<longleftrightarrow> description_match ''misc'' name m"

definition mod_initialize_by_name :: "pers_t \<Rightarrow> mod_state \<Rightarrow> string \<Rightarrow> mod_state" where
  "mod_initialize_by_name p st name =
    (let i = length (takeWhile (\<lambda>m. \<not> find_misc name m) (module_list st))
     in if i < length (module_list st) then mod_initialize_at p i st else st)"

definition mod_initialize_modules_by_name :: "pers_t \<Rightarrow> string option \<Rightarrow> mod_state \<Rightarrow> mod_state" where
  "mod_initialize_modules_by_name p names st =
    (case names of
       None \<Rightarrow> st
     | Some names \<Rightarrow> if names = [] then st else foldl (mod_initialize_by_name p) st (tokens '','' names))"

definition mod_init_list :: "pers_t \<Rightarrow> mod_state \<Rightarrow> mod_state" where
  "mod_init_list p st = foldl (\<lambda>st i. mod_initialize_at p i st) st [0..<length (module_list st)]"

text \<open>The order: priorities downwards, then names. The difference is assumed to fit an \<open>int\<close>.\<close>

definition mod_cmp :: "module_components \<Rightarrow> module_components \<Rightarrow> int" where
  "mod_cmp x y =
    (if mprio x = mprio y then strcmp (the (pname (pmod x))) (the (pname (pmod y))) else mprio y - mprio x)"

definition mod_load_modules ::
  "pers_t \<Rightarrow> mod_env \<Rightarrow> string \<Rightarrow> options \<Rightarrow> mod_state \<Rightarrow> (int \<times> mod_state) fate" where
  "mod_load_modules p env dir opt st =
    (case mod_load_dynamic_modules p env dir (local_path opt) (module_list st) of
       Exits \<Rightarrow> Exits
     | Continues (rc, ms) \<Rightarrow>
         let st = st\<lparr>module_list := insertion_sort mod_cmp ms\<rparr>;
             st = mod_initialize_modules_by_name p (misc_modules opt) st
         in Continues (rc, mod_init_list p st))"

section \<open>Calls into modules\<close>

fun read_wcoll_mods :: "module_components list \<Rightarrow> options \<Rightarrow> options" where
  "read_wcoll_mods [] opt = opt"
| "read_wcoll_mods (m # ms) opt =
    (case (if mactive m then pread (pmod m) else None) of
       None \<Rightarrow> read_wcoll_mods ms opt
     | Some f \<Rightarrow>
         (case f opt of
            (None, opt) \<Rightarrow> read_wcoll_mods ms opt
          | (Some hl, opt) \<Rightarrow>
              read_wcoll_mods ms
                (case wcoll opt of
                   Some w \<Rightarrow> opt\<lparr>wcoll := Some (fst (snd (hostlist_push_list w (Some hl))))\<rparr>
                 | None \<Rightarrow> opt\<lparr>wcoll := Some hl\<rparr>)))"

definition mod_read_wcoll :: "mod_state \<Rightarrow> options \<Rightarrow> options" where
  "mod_read_wcoll st opt = read_wcoll_mods (module_list st) opt"

fun postop_mods :: "module_components list \<Rightarrow> options \<Rightarrow> int \<Rightarrow> int \<times> options" where
  "postop_mods [] opt errors = (errors, opt)"
| "postop_mods (m # ms) opt errors =
    (case (if mactive m then ppostop (pmod m) else None) of
       None \<Rightarrow> postop_mods ms opt errors
     | Some f \<Rightarrow> (case f opt of (e, opt) \<Rightarrow> postop_mods ms opt (errors + e)))"

definition mod_postop :: "mod_state \<Rightarrow> options \<Rightarrow> int \<times> options" where
  "mod_postop st opt = postop_mods (module_list st) opt 0"

definition mod_find_opt :: "module_components \<Rightarrow> char \<Rightarrow> options module_option option" where
  "mod_find_opt m c = find (\<lambda>q. oletter q = c) (ptable (pmod m))"

fun process_opt_mods :: "module_components list \<Rightarrow> options \<Rightarrow> char \<Rightarrow> string option \<Rightarrow> int \<times> options" where
  "process_opt_mods [] opt c arg = (-1, opt)"
| "process_opt_mods (m # ms) opt c arg =
    (case (if mactive m then mod_find_opt m c else None) of
       Some q \<Rightarrow> ofun q opt c arg
     | None \<Rightarrow> process_opt_mods ms opt c arg)"

definition mod_process_opt :: "mod_state \<Rightarrow> options \<Rightarrow> char \<Rightarrow> string option \<Rightarrow> int \<times> options" where
  "mod_process_opt st opt c arg = process_opt_mods (module_list st) opt c arg"

definition mod_count :: "mod_state \<Rightarrow> string option \<Rightarrow> nat" where
  "mod_count st typ =
    (case typ of None \<Rightarrow> length (module_list st)
     | Some t \<Rightarrow> length (filter (\<lambda>m. ptype (pmod m) = Some t) (module_list st)))"

definition mod_get_names :: "mod_state \<Rightarrow> string option \<Rightarrow> bool \<Rightarrow> string list" where
  "mod_get_names st typ get_active =
    foldl (\<lambda>l m. if (typ = None \<or> ptype (pmod m) = typ) \<and> get_active = mactive m then the (pname (pmod m)) # l else l)
      [] (module_list st)"

definition mod_rcmd_modules :: "mod_state \<Rightarrow> rcmd_modules" where
  "mod_rcmd_modules st =
    \<lparr>loaded = \<lambda>name. mod_get_module (module_list st) ''rcmd'' name \<noteq> None,
     resolves = \<lambda>name. (case mod_get_module (module_list st) ''rcmd'' name of None \<Rightarrow> False | Some m \<Rightarrow> prcmd (pmod m))\<rparr>"

section \<open>One module for a name\<close>

definition mod_key :: "module_components \<Rightarrow> string option \<times> string option" where
  "mod_key m = (ptype (pmod m), pname (pmod m))"

definition mods_ok :: "pers_t \<Rightarrow> module_components list \<Rightarrow> bool" where
  "mods_ok p ms \<longleftrightarrow> distinct (map mod_key ms) \<and> distinct (map mfile ms) \<and>
     (\<forall>m\<in>set ms. p \<in> ppers (pmod m) \<and> ptype (pmod m) \<noteq> None \<and> pname (pmod m) \<noteq> None)"

lemma description_match_key: "description_match t n m \<longleftrightarrow> mod_key m = (Some t, Some n)"
  by (simp add: description_match_def mod_key_def)

lemma distinct_map_filter_mod: "distinct (map f xs) \<Longrightarrow> distinct (map f (filter P xs))"
  by (simp add: distinct_map inj_on_def)

lemma mod_register_set: "set (snd (mod_register p m ms)) \<subseteq> insert m (set ms)"
  by (auto simp: mod_register_def mod_delete_def Let_def split: option.split if_splits)

lemma mod_register_ok:
  assumes "mods_ok p ms" "mfile m \<notin> mfile ` set ms"
  shows "mods_ok p (snd (mod_register p m ms))"
proof (cases "ptype (pmod m) = None \<or> pname (pmod m) = None")
  case True
  then show ?thesis using assms(1) by (auto simp: mod_register_def split: option.split)
next
  case False
  then obtain t n where k: "ptype (pmod m) = Some t" "pname (pmod m) = Some n" by auto
  define ms' where "ms' = (case mod_get_module ms t n of None \<Rightarrow> ms | Some prev \<Rightarrow> if mprio m > mprio prev then mod_delete t n ms else ms)"
  have sub: "set ms' \<subseteq> set ms" "mods_ok p ms'"
    using assms(1) by (auto simp: ms'_def mods_ok_def mod_delete_def distinct_map_filter_mod split: option.split)
  have "mod_key m \<notin> mod_key ` set ms'" if "\<not> (case mod_get_module ms t n of None \<Rightarrow> False | Some prev \<Rightarrow> \<not> mprio m > mprio prev)"
  proof (cases "mod_get_module ms t n")
    case None
    then have "\<forall>x\<in>set ms. \<not> description_match t n x" by (auto simp: mod_get_module_def find_None_iff)
    then show ?thesis using None k by (auto simp: ms'_def description_match_key mod_key_def)
  next
    case (Some prev)
    then show ?thesis using that k by (auto simp: ms'_def mod_delete_def description_match_key mod_key_def)
  qed
  then show ?thesis
    using sub assms(2) k
    by (auto simp: mod_register_def ms'_def mods_ok_def Let_def split: option.splits if_splits)
qed

text \<open>Which of the modules with a name stays: the first of those with the highest priority\<close>

definition better :: "module_components option \<Rightarrow> module_components \<Rightarrow> module_components option" where
  "better b m = (case b of None \<Rightarrow> Some m | Some x \<Rightarrow> if mprio m > mprio x then Some m else Some x)"

lemma get_delete_other: "(t, n) \<noteq> (t', n') \<Longrightarrow> mod_get_module (mod_delete t' n' ms) t n = mod_get_module ms t n"
  by (induction ms) (auto simp: mod_get_module_def mod_delete_def description_match_def)

lemma get_register:
  assumes "ptype (pmod m) \<noteq> None" "pname (pmod m) \<noteq> None" "p \<in> ppers (pmod m)"
  shows "mod_get_module (snd (mod_register p m ms)) t n =
    (if description_match t n m then better (mod_get_module ms t n) m else mod_get_module ms t n)"
proof -
  obtain t' n' where k: "ptype (pmod m) = Some t'" "pname (pmod m) = Some n'" using assms by auto
  have C: "mod_get_module (m # xs) t n = (if description_match t n m then Some m else mod_get_module xs t n)" for xs
    by (simp add: mod_get_module_def)
  show ?thesis
  proof (cases "(t, n) = (t', n')")
    case True
    then have "description_match t n m" using k by (simp add: description_match_def)
    then show ?thesis using k assms(3) True C by (auto simp: mod_register_def better_def Let_def split: option.split)
  next
    case False
    then have "\<not> description_match t n m" using k by (auto simp: description_match_def)
    then show ?thesis
      using k assms(3) C get_delete_other [OF False] by (auto simp: mod_register_def Let_def split: option.split)
  qed
qed

definition register_mods :: "pers_t \<Rightarrow> module_components list \<Rightarrow> module_components list" where
  "register_mods p xs = foldl (\<lambda>ms m. snd (mod_register p m ms)) [] xs"

lemma get_register_mods:
  assumes "\<forall>m\<in>set xs. ptype (pmod m) \<noteq> None \<and> pname (pmod m) \<noteq> None \<and> p \<in> ppers (pmod m)"
  shows "mod_get_module (register_mods p xs) t n = foldl better None (filter (description_match t n) xs)"
  using assms
proof (induction xs rule: rev_induct)
  case Nil
  then show ?case by (simp add: register_mods_def mod_get_module_def)
next
  case (snoc x xs)
  then show ?case using get_register [of x p "register_mods p xs" t n] by (simp add: register_mods_def)
qed

lemma foldl_better:
  "case foldl better None xs of
     None \<Rightarrow> xs = []
   | Some m \<Rightarrow> \<exists>us vs. xs = us @ m # vs \<and> (\<forall>x\<in>set us. mprio x < mprio m) \<and> (\<forall>x\<in>set vs. mprio x \<le> mprio m)"
proof (induction xs rule: rev_induct)
  case (snoc x xs)
  show ?case
  proof (cases "foldl better None xs")
    case None
    then show ?thesis using snoc by (auto simp: better_def [of None x] intro!: exI [of _ "[]"])
  next
    case (Some m)
    then obtain us vs where e: "xs = us @ m # vs" "\<forall>x\<in>set us. mprio x < mprio m" "\<forall>x\<in>set vs. mprio x \<le> mprio m"
      using snoc by auto
    show ?thesis
    proof (cases "mprio x > mprio m")
      case True
      then have "\<forall>y\<in>set xs. mprio y < mprio x" using e by force
      then have "\<exists>us vs. xs @ [x] = us @ x # vs \<and> (\<forall>y\<in>set us. mprio y < mprio x) \<and> (\<forall>y\<in>set vs. mprio y \<le> mprio x)"
        by (intro exI [of _ xs] exI [of _ "[]"]) simp
      then show ?thesis using Some True by (simp add: better_def [of "Some m" x])
    next
      case False
      then have "xs @ [x] = us @ m # (vs @ [x])" "\<forall>y\<in>set (vs @ [x]). mprio y \<le> mprio m" using e by auto
      then have "\<exists>us vs. xs @ [x] = us @ m # vs \<and> (\<forall>y\<in>set us. mprio y < mprio m) \<and> (\<forall>y\<in>set vs. mprio y \<le> mprio m)"
        using e(2) by blast
      then show ?thesis using Some False by (simp add: better_def [of "Some m" x])
    qed
  qed
qed simp

section \<open>Only safe files are loaded\<close>

definition trusted :: "mod_env \<Rightarrow> nat \<Rightarrow> fstat \<Rightarrow> bool" where
  "trusted env pdsh_owner st \<longleftrightarrow> owner st = 0 \<or> owner st = getuid env \<or> owner st = pdsh_owner"

text \<open>From a directory to the root, all directories belong to trusted users and only they can write\<close>

definition dirs_safe :: "mod_env \<Rightarrow> nat \<Rightarrow> string \<Rightarrow> bool" where
  "dirs_safe env pdsh_owner dir \<longleftrightarrow>
    (\<exists>n. (\<forall>k\<le>n. \<exists>st. stat env (dir @ concat (replicate k ''/..'')) = Some st \<and> is_dir st \<and>
            trusted env pdsh_owner st \<and> (world_writable st \<longrightarrow> sticky st)) \<and>
         map_option file_id (stat env (dir @ concat (replicate n ''/..''))) = map_option file_id (stat env ''/''))"

lemma path_permissions_safe:
  assumes "path_permissions_loop env ow (file_id rst) dir" "stat env ''/'' = Some rst"
  shows "dirs_safe env ow dir"
  using assms
proof (induction env ow "file_id rst" dir rule: path_permissions_loop.induct)
  case (1 env ow dir)
  obtain st where st: "stat env dir = Some st" "dir_permission_error env st ow = DIR_OK"
    and rec: "file_id st = file_id rst \<or> path_permissions_loop env ow (file_id rst) (dir @ ''/..'')"
    and len: "\<not> length dir > MAXPATHLEN - 3"
    using 1(2) by (subst (asm) path_permissions_loop.simps) (auto split: option.splits if_splits)
  have ok: "is_dir st \<and> trusted env ow st \<and> (world_writable st \<longrightarrow> sticky st)"
    using st(2) by (auto simp: dir_permission_error_def trusted_def split: if_splits)
  show ?case
  proof (cases "file_id st = file_id rst")
    case True
    then show ?thesis using st(1) ok 1(3) unfolding dirs_safe_def by (intro exI [of _ 0]) simp
  next
    case False
    then have "path_permissions_loop env ow (file_id rst) (dir @ ''/..'')" using rec by blast
    then have "dirs_safe env ow (dir @ ''/..'')" using 1(1) st False len 1(3) by auto
    then obtain n where n: "\<forall>k\<le>n. \<exists>st. stat env ((dir @ ''/..'') @ concat (replicate k ''/..'')) = Some st \<and> is_dir st \<and>
            trusted env ow st \<and> (world_writable st \<longrightarrow> sticky st)"
      "map_option file_id (stat env ((dir @ ''/..'') @ concat (replicate n ''/..''))) = map_option file_id (stat env ''/'')"
      unfolding dirs_safe_def by blast
    have "\<exists>st. stat env (dir @ concat (replicate k ''/..'')) = Some st \<and> is_dir st \<and>
            trusted env ow st \<and> (world_writable st \<longrightarrow> sticky st)" if "k \<le> Suc n" for k
      using that n(1) st(1) ok by (cases k) auto
    then show ?thesis using n(2) unfolding dirs_safe_def by (intro exI [of _ "Suc n"]) simp
  qed
qed

lemma mod_load_dynamic_cases:
  assumes "mod_load_dynamic p env path ms = (rc, ms1)"
  shows "ms1 = ms \<or> \<not> is_loaded path ms \<and> (\<exists>pm prio. ms1 = snd (mod_register p (mod_create path pm prio) ms))"
proof (cases "dlopen env path")
  case (Some lib)
  obtain info prio where lib: "lib = (info, prio)" by force
  show ?thesis
  proof (cases "is_loaded path ms \<or> info = None")
    case True
    then show ?thesis using assms Some lib by (auto simp: mod_load_dynamic_def split: if_splits)
  next
    case False
    then obtain pm where "info = Some pm" by blast
    then have "mod_register p (mod_create path pm prio) ms = (rc, ms1)"
      using assms Some lib False by (simp add: mod_load_dynamic_def)
    then have "ms1 = snd (mod_register p (mod_create path pm prio) ms)" by simp
    then show ?thesis using False by blast
  qed
qed (use assms in \<open>simp add: mod_load_dynamic_def\<close>)

lemma load_entries_spec:
  assumes "load_entries p env ow dir names n ms = (n', ms')" "mods_ok p ms"
  shows "mods_ok p ms' \<and> (\<forall>m\<in>set ms' - set ms. \<not> mactive m \<and>
    (\<exists>name\<in>set names. mfile m = dir @ ''/'' @ name) \<and>
    (\<exists>st. stat env (mfile m) = Some st \<and> is_reg st \<and> trusted env ow st \<and> \<not> world_writable st))"
  using assms
proof (induction names arbitrary: n ms)
  case Nil
  then show ?case by simp
next
  case (Cons name names)
  let ?path = "dir @ ''/'' @ name"
  show ?case
  proof (cases "stat env ?path")
    case None
    then show ?thesis using Cons by auto
  next
    case (Some st)
    show ?thesis
    proof (cases "file_secure env ow st")
      case False
      then show ?thesis using Cons Some by auto
    next
      case True
      obtain rc ms1 where l: "mod_load_dynamic p env ?path ms = (rc, ms1)" by force
      have e: "load_entries p env ow dir names (if rc < 0 then n else n + 1) ms1 = (n', ms')"
        using Cons.prems(1) Some True l by simp
      have m1: "mods_ok p ms1 \<and> (\<forall>m\<in>set ms1 - set ms. \<not> mactive m \<and> mfile m = ?path)"
      proof -
        consider "ms1 = ms" | pm prio where "\<not> is_loaded ?path ms" "ms1 = snd (mod_register p (mod_create ?path pm prio) ms)"
          using mod_load_dynamic_cases [OF l] by blast
        then show ?thesis
        proof cases
          case 1
          then show ?thesis using Cons.prems(2) by simp
        next
          case 2
          have "?path \<notin> mfile ` set ms" using 2(1) by (auto simp: is_loaded_def find_None_iff)
          then have "mods_ok p ms1" using mod_register_ok [OF Cons.prems(2)] 2(2) by (simp add: mod_create_def)
          then show ?thesis using mod_register_set [of p "mod_create ?path pm prio" ms] 2(2) by (auto simp: mod_create_def)
        qed
      qed
      have IH: "mods_ok p ms'" "\<And>m. m \<in> set ms' - set ms1 \<Longrightarrow> \<not> mactive m \<and>
          (\<exists>name\<in>set names. mfile m = dir @ ''/'' @ name) \<and>
          (\<exists>st. stat env (mfile m) = Some st \<and> is_reg st \<and> trusted env ow st \<and> \<not> world_writable st)"
        using Cons.IH [OF e] m1 by blast+
      have sec: "is_reg st \<and> trusted env ow st \<and> \<not> world_writable st"
        using True by (auto simp: file_secure_def trusted_def)
      have "\<not> mactive m \<and> (\<exists>name'\<in>set (name # names). mfile m = dir @ ''/'' @ name') \<and>
          (\<exists>st. stat env (mfile m) = Some st \<and> is_reg st \<and> trusted env ow st \<and> \<not> world_writable st)"
        if "m \<in> set ms' - set ms" for m
      proof (cases "m \<in> set ms1")
        case True
        then have "\<not> mactive m" "mfile m = ?path" using m1 that by blast+
        then show ?thesis using Some sec by simp
      next
        case False
        then show ?thesis using IH(2) [of m] that by auto
      qed
      then show ?thesis using IH(1) by blast
    qed
  qed
qed

lemma load_modules_safe:
  assumes "mod_load_dynamic_modules p env dir program [] = Continues (rc, ms)" "length dir \<le> MAXPATHLEN"
  shows "mods_ok p ms" "m \<in> set ms \<Longrightarrow> \<not> mactive m \<and> (\<exists>prog pst. program = Some prog \<and> stat env prog = Some pst \<and>
    dirs_safe env (owner pst) dir \<and> (\<exists>name. mfile m = dir @ ''/'' @ name) \<and>
    (\<exists>st. stat env (mfile m) = Some st \<and> is_reg st \<and> trusted env (owner pst) st \<and> \<not> world_writable st))"
proof -
  have e: "mods_ok p []" by (simp add: mods_ok_def)
  consider "ms = []" | prog pst names n where "program = Some prog" "stat env prog = Some pst"
    "path_permissions_ok env dir (owner pst)" "load_entries p env (owner pst) dir names 0 [] = (n, ms)"
    using assms(1) by (auto simp: mod_load_dynamic_modules_def split: option.splits if_splits prod.splits)
  then have "mods_ok p ms \<and> (\<forall>m\<in>set ms. \<not> mactive m \<and> (\<exists>prog pst. program = Some prog \<and> stat env prog = Some pst \<and>
    dirs_safe env (owner pst) dir \<and> (\<exists>name. mfile m = dir @ ''/'' @ name) \<and>
    (\<exists>st. stat env (mfile m) = Some st \<and> is_reg st \<and> trusted env (owner pst) st \<and> \<not> world_writable st)))"
  proof cases
    case 1
    then show ?thesis using e by simp
  next
    case 2
    obtain rst where "stat env ''/'' = Some rst" "path_permissions_loop env (owner pst) (file_id rst) dir"
      using 2(3) assms(2) by (auto simp: path_permissions_ok_def split: option.splits)
    then have "dirs_safe env (owner pst) dir" using path_permissions_safe by blast
    then show ?thesis using load_entries_spec [OF 2(4) e] 2(1,2) by fastforce
  qed
  then show "mods_ok p ms" "m \<in> set ms \<Longrightarrow> \<not> mactive m \<and> (\<exists>prog pst. program = Some prog \<and> stat env prog = Some pst \<and>
    dirs_safe env (owner pst) dir \<and> (\<exists>name. mfile m = dir @ ''/'' @ name) \<and>
    (\<exists>st. stat env (mfile m) = Some st \<and> is_reg st \<and> trusted env (owner pst) st \<and> \<not> world_writable st))"
    by blast+
qed

section \<open>An option has one module\<close>

text \<open>The letters of an active module\<close>

definition owned :: "pers_t \<Rightarrow> module_components \<Rightarrow> char set" where
  "owned p m = (if mactive m then letters_for p (ptable (pmod m)) else {})"

definition owned_ok :: "pers_t \<Rightarrow> string \<Rightarrow> mod_state \<Rightarrow> bool" where
  "owned_ok p ls0 st \<longleftrightarrow> set ls0 \<subseteq> set (letters st) \<and>
     (\<forall>i<length (module_list st). owned p (module_list st ! i) \<subseteq> set (letters st) - set ls0 \<and>
        (\<forall>j<i. owned p (module_list st ! i) \<inter> owned p (module_list st ! j) = {}))"

lemma mod_initialize_owned:
  assumes "mod_initialize p m ls calls = (rc, m', ls', calls')"
  shows "set ls \<subseteq> set ls'" "owned p m' \<subseteq> owned p m \<union> set ls'" "owned p m' = owned p m \<or> owned p m' \<inter> set ls = {}"
proof -
  obtain r l where r: "opt_register p ls (ptable (pmod m)) = (r, l)" by force
  note R = opt_register_ok [OF r]
  have "m' = m \<and> (ls' = l) \<or> r \<and> m' = m\<lparr>mactive := True\<rparr> \<and> ls' = l"
    using assms r by (auto simp: mod_initialize_def split: bool.splits option.splits if_splits)
  then show "set ls \<subseteq> set ls'" "owned p m' \<subseteq> owned p m \<union> set ls'" "owned p m' = owned p m \<or> owned p m' \<inter> set ls = {}"
    using R by (cases r; auto simp: owned_def)+
qed

lemma mod_initialize_at_owned:
  assumes "owned_ok p ls0 st" "i < length (module_list st)"
  shows "owned_ok p ls0 (mod_initialize_at p i st)"
    "length (module_list (mod_initialize_at p i st)) = length (module_list st)"
proof -
  let ?ms = "module_list st"
  obtain rc m' ls' calls' where r: "mod_initialize p (?ms ! i) (letters st) (init_calls st) = (rc, m', ls', calls')"
    by (metis prod_cases4)
  note R = mod_initialize_owned [OF r]
  have st': "module_list (mod_initialize_at p i st) = ?ms[i := m']" "letters (mod_initialize_at p i st) = ls'"
    using r by (simp_all add: mod_initialize_at_def)
  have O: "set ls0 \<subseteq> set (letters st)" "\<And>k. k < length ?ms \<Longrightarrow> owned p (?ms ! k) \<subseteq> set (letters st) - set ls0"
    "\<And>k j. k < length ?ms \<Longrightarrow> j < length ?ms \<Longrightarrow> j \<noteq> k \<Longrightarrow> owned p (?ms ! k) \<inter> owned p (?ms ! j) = {}"
    using assms(1) unfolding owned_ok_def by (blast, blast, metis inf_commute linorder_neqE_nat)
  have m': "owned p m' \<subseteq> set ls' - set ls0" using R O(1) O(2) [OF assms(2)] by blast
  have d: "owned p m' \<inter> owned p (?ms ! j) = {}" if "j < length ?ms" "j \<noteq> i" for j
    using R(3) O(2) [OF that(1)] O(3) [OF assms(2) that] by blast
  show "owned_ok p ls0 (mod_initialize_at p i st)"
    unfolding owned_ok_def st'
  proof (intro conjI allI impI)
    show "set ls0 \<subseteq> set ls'" using O(1) R(1) by blast
  next
    fix k assume k: "k < length (?ms[i := m'])"
    then show "owned p (?ms[i := m'] ! k) \<subseteq> set ls' - set ls0"
      using m' O(2) [of k] R(1) by (cases "k = i") auto
    fix j assume j: "j < k"
    show "owned p (?ms[i := m'] ! k) \<inter> owned p (?ms[i := m'] ! j) = {}"
      using k j d O(3) [of k j] by (cases "k = i"; cases "j = i") (auto simp: inf_commute)
  qed
  show "length (module_list (mod_initialize_at p i st)) = length ?ms" by (simp add: st')
qed

lemma mod_init_list_owned:
  assumes "owned_ok p ls0 st" "\<forall>i\<in>set is. i < length (module_list st)"
  shows "owned_ok p ls0 (foldl (\<lambda>st i. mod_initialize_at p i st) st is)"
  using assms
proof (induction "is" arbitrary: st)
  case (Cons i js)
  then show ?case using mod_initialize_at_owned [of p ls0 st i] by simp
qed simp

lemma mod_initialize_by_name_owned:
  assumes "owned_ok p ls0 st"
  shows "owned_ok p ls0 (mod_initialize_by_name p st name)"
  using mod_initialize_at_owned [OF assms] assms by (auto simp: mod_initialize_by_name_def Let_def)

lemma foldl_by_name_owned: "owned_ok p ls0 st \<Longrightarrow> owned_ok p ls0 (foldl (mod_initialize_by_name p) st names)"
  by (induction names arbitrary: st) (auto intro: mod_initialize_by_name_owned)

text \<open>Initialization changes no more of a module than its flag.\<close>

lemma mod_initialize_frame:
  assumes "\<And>m. f (m\<lparr>mactive := True\<rparr>) = f m"
  shows "map f (module_list (mod_initialize_at p i st)) = map f (module_list st)"
proof -
  obtain rc m' ls' calls' where r: "mod_initialize p (module_list st ! i) (letters st) (init_calls st) = (rc, m', ls', calls')"
    by (metis prod_cases4)
  have "f m' = f (module_list st ! i)"
    using r assms by (auto simp: mod_initialize_def split: prod.splits bool.splits option.splits if_splits)
  moreover have "map f (xs[i := m']) = map f xs" if "f m' = f (xs ! i)" for xs
    by (metis that list_update_beyond list_update_id map_update not_less)
  ultimately show ?thesis by (simp add: mod_initialize_at_def r)
qed

lemma foldl_frame:
  assumes "\<And>st x. map f (module_list (g st x)) = map f (module_list st)"
  shows "map f (module_list (foldl g st xs)) = map f (module_list st)"
  by (induction xs arbitrary: st) (simp_all add: assms)

lemma mod_load_modules_frame:
  assumes "mod_load_modules p env dir opt st = Continues (rc, st')" "\<And>m. f (m\<lparr>mactive := True\<rparr>) = f m"
  shows "\<exists>ms. mod_load_dynamic_modules p env dir (local_path opt) (module_list st) = Continues (rc, ms) \<and>
    mset (map f (module_list st')) = mset (map f ms)"
proof (cases "mod_load_dynamic_modules p env dir (local_path opt) (module_list st)")
  case Exits
  then show ?thesis using assms(1) by (simp add: mod_load_modules_def)
next
  case (Continues r)
  obtain rc' ms where r: "r = (rc', ms)" by force
  let ?st = "st\<lparr>module_list := insertion_sort mod_cmp ms\<rparr>"
  have e: "rc' = rc" "st' = mod_init_list p (mod_initialize_modules_by_name p (misc_modules opt) ?st)"
    using assms(1) Continues r by (simp_all add: mod_load_modules_def Let_def)
  note F = mod_initialize_frame [of f, OF assms(2)]
  have n: "map f (module_list (mod_initialize_by_name p st x)) = map f (module_list st)" for st x
    using F by (simp add: mod_initialize_by_name_def Let_def)
  have "map f (module_list (mod_initialize_modules_by_name p (misc_modules opt) ?st)) = map f (module_list ?st)"
    using foldl_frame [of f "mod_initialize_by_name p", OF n] by (simp add: mod_initialize_modules_by_name_def split: option.split)
  moreover have "map f (module_list (mod_init_list p st)) = map f (module_list st)" for st
    unfolding mod_init_list_def by (rule foldl_frame) (rule F)
  ultimately have "map f (module_list st') = map f (insertion_sort mod_cmp ms)" unfolding e(2) by simp
  then show ?thesis using Continues r e(1) by simp
qed

lemma mod_load_modules_owned:
  assumes "mod_load_modules p env dir opt \<lparr>module_list = [], letters = ls0, init_calls = []\<rparr> = Continues (rc, st)"
    and "length dir \<le> MAXPATHLEN"
  shows "owned_ok p ls0 st"
proof -
  obtain ms where l: "mod_load_dynamic_modules p env dir (local_path opt) [] = Continues (rc, ms)"
    and st: "st = mod_init_list p (mod_initialize_modules_by_name p (misc_modules opt)
      \<lparr>module_list = insertion_sort mod_cmp ms, letters = ls0, init_calls = []\<rparr>)"
  proof (cases "mod_load_dynamic_modules p env dir (local_path opt) []")
    case Exits
    then show thesis using assms(1) by (simp add: mod_load_modules_def)
  next
    case (Continues r)
    obtain rc' ms where r: "r = (rc', ms)" by force
    then have "Continues (rc', mod_init_list p (mod_initialize_modules_by_name p (misc_modules opt)
      \<lparr>module_list = insertion_sort mod_cmp ms, letters = ls0, init_calls = []\<rparr>)) = Continues (rc, st)"
      using assms(1) Continues by (simp add: mod_load_modules_def Let_def)
    then show thesis using that [of ms] Continues r by simp
  qed
  have "\<not> mactive m" if "m \<in> set (insertion_sort mod_cmp ms)" for m
  proof -
    have "m \<in> set ms" using mset_eq_setD [OF mset_insertion_sort [of mod_cmp ms]] that by simp
    then show ?thesis by (rule conjunct1 [OF load_modules_safe(2) [OF l assms(2)]])
  qed
  then have "owned_ok p ls0 \<lparr>module_list = insertion_sort mod_cmp ms, letters = ls0, init_calls = []\<rparr>"
    by (auto simp: owned_ok_def owned_def)
  then show ?thesis
    unfolding st mod_init_list_def
    by (intro mod_init_list_owned) (auto simp: mod_initialize_modules_by_name_def foldl_by_name_owned split: option.split)
qed

text \<open>The module that has a letter gets it, unless another has it for the other program only.\<close>

lemma mod_process_opt_owner:
  assumes "owned_ok p ls0 st" "i < length (module_list st)" "c \<in> owned p (module_list st ! i)"
    and "\<forall>m\<in>set (module_list st). mactive m \<longrightarrow> (\<forall>q\<in>set (ptable (pmod m)). oletter q = c \<longrightarrow> p \<in> opers q)"
  shows "\<exists>q. mod_find_opt (module_list st ! i) c = Some q \<and> mod_process_opt st opt c arg = ofun q opt c arg"
proof -
  let ?ms = "module_list st"
  have own: "mactive m \<and> mod_find_opt m c \<noteq> None \<longleftrightarrow> c \<in> owned p m" if "m \<in> set ?ms" for m
    using assms(4) that by (auto simp: owned_def letters_for_def mod_find_opt_def find_None_iff)
  have "\<not> c \<in> owned p (?ms ! j)" if "j < i" for j
    using assms(1-3) that unfolding owned_ok_def by (meson disjoint_iff)
  then have before: "\<forall>m\<in>set (take i ?ms). \<not> (mactive m \<and> mod_find_opt m c \<noteq> None)"
  proof (intro ballI)
    fix m assume "m \<in> set (take i ?ms)"
    then obtain j where "j < i" "m = ?ms ! j" using assms(2) by (auto simp: in_set_conv_nth)
    then show "\<not> (mactive m \<and> mod_find_opt m c \<noteq> None)"
      using own [of m] assms(2) \<open>\<And>j. j < i \<Longrightarrow> \<not> c \<in> owned p (?ms ! j)\<close> by simp
  qed
  obtain q where q: "mactive (?ms ! i)" "mod_find_opt (?ms ! i) c = Some q"
    using own [of "?ms ! i"] assms(2,3) by auto
  have "process_opt_mods (xs @ ?ms ! i # ys) opt c arg = ofun q opt c arg"
    if "\<forall>m\<in>set xs. \<not> (mactive m \<and> mod_find_opt m c \<noteq> None)" for xs ys
    using that q by (induction xs) (auto split: option.split)
  from this [OF before, of "drop (Suc i) ?ms"] show ?thesis
    using q(2) id_take_nth_drop [OF assms(2)] by (simp add: mod_process_opt_def)
qed

lemma modules_loaded:
  assumes "mod_load_modules p env dir opt \<lparr>module_list = [], letters = ls0, init_calls = []\<rparr> = Continues (rc, st)"
    and "length dir \<le> MAXPATHLEN"
  shows "distinct (map mod_key (module_list st))"
    "m \<in> set (module_list st) \<Longrightarrow> \<exists>prog pst. local_path opt = Some prog \<and> stat env prog = Some pst \<and>
      dirs_safe env (owner pst) dir \<and> (\<exists>name. mfile m = dir @ ''/'' @ name) \<and>
      (\<exists>sb. stat env (mfile m) = Some sb \<and> is_reg sb \<and> trusted env (owner pst) sb \<and> \<not> world_writable sb)"
proof -
  obtain ms where l: "mod_load_dynamic_modules p env dir (local_path opt) [] = Continues (rc, ms)"
    and k: "mset (map mod_key (module_list st)) = mset (map mod_key ms)"
    using mod_load_modules_frame [OF assms(1), of mod_key] by (auto simp: mod_key_def)
  have f: "mset (map mfile (module_list st)) = mset (map mfile ms)"
    using mod_load_modules_frame [OF assms(1), of mfile] l by simp
  have "distinct (map mod_key ms)" using load_modules_safe(1) [OF l assms(2)] by (simp add: mods_ok_def)
  then show "distinct (map mod_key (module_list st))" using k by (metis mset_eq_imp_distinct_iff)
  assume "m \<in> set (module_list st)"
  then have "mfile m \<in> mfile ` set ms" using mset_eq_setD [OF f] by (metis image_eqI list.set_map)
  then obtain m' where m': "m' \<in> set ms" "mfile m = mfile m'" by blast
  note S = load_modules_safe(2) [OF l assms(2) m'(1)]
  show "\<exists>prog pst. local_path opt = Some prog \<and> stat env prog = Some pst \<and>
      dirs_safe env (owner pst) dir \<and> (\<exists>name. mfile m = dir @ ''/'' @ name) \<and>
      (\<exists>sb. stat env (mfile m) = Some sb \<and> is_reg sb \<and> trusted env (owner pst) sb \<and> \<not> world_writable sb)"
    unfolding m'(2) by (rule conjunct2 [OF S])
qed

end
