(* ===== verification/Opt_Args.thy ===== *)
theory Opt_Args
  imports Mod
begin

text \<open>
  The command line (\<open>opt_args\<close> and \<open>opt_verify\<close> of \<open>pdsh/opt.c\<close>) and what
  \<open>main\<close> does with it. \<open>None\<close> is a run that does not return, \<open>Exits\<close> one that ends
  the program: with a message, after \<open>-h\<close>, \<open>-V\<close>, \<open>-L\<close> and \<open>-T\<close>, or with
  the usage text.
\<close>

section \<open>One option\<close>

definition targets_of :: "options \<Rightarrow> opt_wcoll" where
  "targets_of opt = \<lparr>wcoll = wcoll opt, exclude_list = exclude_list opt, regex_list = regex_list opt, orcmd = orcmd opt\<rparr>"

definition set_targets :: "options \<Rightarrow> opt_wcoll \<Rightarrow> options" where
  "set_targets opt w =
    opt\<lparr>wcoll := wcoll w, exclude_list := exclude_list w, regex_list := regex_list w, orcmd := orcmd w\<rparr>"

definition lift_targets :: "options \<Rightarrow> opt_wcoll fate option \<Rightarrow> options fate option" where
  "lift_targets opt r =
    map_option (\<lambda>f. case f of Exits \<Rightarrow> Exits | Continues w \<Rightarrow> Continues (set_targets opt w)) r"

definition test_module_option :: "mod_state \<Rightarrow> options \<Rightarrow> optarg \<Rightarrow> options fate" where
  "test_module_option mods opt q =
    (case mod_process_opt mods opt (fst q) (snd q) of (rc, opt) \<Rightarrow> if rc < 0 then Exits else Continues opt)"

text \<open>The body of the loop; \<open>optarg\<close> is there for the letters that take an argument.\<close>

definition opt_step ::
  "wcoll_env \<Rightarrow> host_env \<Rightarrow> mod_state \<Rightarrow> pers_t \<Rightarrow> optarg \<Rightarrow> options \<Rightarrow> options fate option" where
  "opt_step wenv env mods p q opt =
    (let c = fst q; arg = (case snd q of None \<Rightarrow> [] | Some a \<Rightarrow> a); d = dsh_opt opt;
         wenv = wenv\<lparr>emodules := mod_rcmd_modules mods\<rparr>
     in if c = CHR ''M'' then Some (Continues opt)
        else if c = CHR ''N'' then Some (Continues (opt\<lparr>dsh_opt := d\<lparr>labels := False\<rparr>\<rparr>))
        else if c = CHR ''L'' then Some Exits
        else if c = CHR ''R'' then Some (Continues (opt\<lparr>rcmd_name := Some arg\<rparr>))
        else if c = CHR ''S'' then Some (Continues (opt\<lparr>dsh_opt := d\<lparr>ret_remote_rc := True\<rparr>\<rparr>))
        else if c = CHR ''f'' then
          Some (case string_to_int arg of None \<Rightarrow> Exits | Some n \<Rightarrow> Continues (opt\<lparr>ofanout := n\<rparr>))
        else if c = CHR ''w'' then lift_targets opt (target_opt_process wenv (targets_of opt) (OptW arg))
        else if c = CHR ''x'' then lift_targets opt (target_opt_process wenv (targets_of opt) (OptX arg))
        else if c = CHR ''q'' then Some (Continues (opt\<lparr>info_only := True\<rparr>))
        else if c = CHR ''t'' then Some (Continues (opt\<lparr>connect_timeout := atoi arg\<rparr>))
        else if c = CHR ''u'' then Some (Continues (opt\<lparr>command_timeout := atoi arg\<rparr>))
        else if c = CHR ''b'' then Some (Continues (opt\<lparr>sigint_terminates := True\<rparr>))
        else if c = CHR ''l'' then
          Some (case copy_username env arg of Exits \<Rightarrow> Exits | Continues u \<Rightarrow> Continues (opt\<lparr>ruser := u\<rparr>))
        else if c = CHR ''r'' \<and> p = PCP then Some (Continues (opt\<lparr>dsh_opt := d\<lparr>recursive := True\<rparr>\<rparr>))
        else if c = CHR ''p'' \<and> p = PCP then Some (Continues (opt\<lparr>dsh_opt := d\<lparr>preserve := True\<rparr>\<rparr>))
        else if c = CHR ''e'' \<and> p = PCP then Some (Continues (opt\<lparr>remote_path := Some arg\<rparr>))
        else if c = CHR ''V'' \<or> c = CHR ''T'' \<or> c = CHR ''h'' then Some Exits
        else if c = CHR ''Q'' then Some (Continues (opt\<lparr>info_only := True, test_range_expansion := True\<rparr>))
        else if c = CHR ''K'' then Some (Continues (opt\<lparr>strip_domain := False\<rparr>))
        else if c = CHR ''y'' \<and> p = PCP then Some (Continues (opt\<lparr>target_is_directory := True\<rparr>))
        else if c = CHR ''z'' \<and> p = PCP then Some (Continues (opt\<lparr>opt_pcp_server := True\<rparr>))
        else if c = CHR ''Z'' \<and> p = PCP then Some (Continues (opt\<lparr>opt_pcp_client := True\<rparr>))
        else if c = CHR ''k'' then Some (Continues (opt\<lparr>dsh_opt := d\<lparr>kill_on_fail := True\<rparr>\<rparr>))
        else Some (test_module_option mods opt q))"

fun opt_loop ::
  "wcoll_env \<Rightarrow> host_env \<Rightarrow> mod_state \<Rightarrow> pers_t \<Rightarrow> optarg list \<Rightarrow> options \<Rightarrow> options fate option" where
  "opt_loop wenv env mods p [] opt = Some (Continues opt)"
| "opt_loop wenv env mods p (q # qs) opt =
    (case opt_step wenv env mods p q opt of
       None \<Rightarrow> None
     | Some Exits \<Rightarrow> Some Exits
     | Some (Continues opt) \<Rightarrow> opt_loop wenv env mods p qs opt)"

section \<open>The rest of the command line\<close>

definition default_rcmd :: "mod_state \<Rightarrow> options \<Rightarrow> options fate" where
  "default_rcmd mods opt =
    (let ms = mod_rcmd_modules mods;
         opt = (if rcmd_name opt = None then opt\<lparr>rcmd_name := rcmd_get_default_module ms (orcmd opt)\<rparr> else opt)
     in case rcmd_name opt of
          None \<Rightarrow> Continues opt
        | Some name \<Rightarrow>
            (case rcmd_register_default_rcmd ms (orcmd opt) name of
               (rc, st) \<Rightarrow> if rc < 0 then Exits else Continues (opt\<lparr>orcmd := st\<rparr>)))"

fun build_cmd :: "string list \<Rightarrow> xstr option \<Rightarrow> xstr option" where
  "build_cmd [] s = s"
| "build_cmd (w # ws) s = build_cmd ws (cat (if s \<noteq> None then cat s '' '' else s) w)"

definition cat_to :: "string option \<Rightarrow> string \<Rightarrow> string option" where
  "cat_to s t = Some (xtext_of (cat (Strdup s) t))"

definition take_words :: "pers_t \<Rightarrow> string list \<Rightarrow> options \<Rightarrow> options" where
  "take_words p ws opt =
    (if p = DSH then opt\<lparr>cmd := map_option xtext (build_cmd ws (Strdup (cmd opt)))\<rparr>
     else
       let opt = opt\<lparr>dsh_opt := (dsh_opt opt)\<lparr>infile_names := infile_names (dsh_opt opt) @ butlast ws\<rparr>\<rparr>
       in if ws = [] then opt
          else if opt_pcp_client opt then opt\<lparr>pcp_client_host := cat_to (pcp_client_host opt) (last ws)\<rparr>
          else opt\<lparr>outfile := cat_to (outfile opt) (last ws)\<rparr>)"

definition opt_args ::
  "wcoll_env \<Rightarrow> host_env \<Rightarrow> mod_state \<Rightarrow> pers_t \<Rightarrow> string list \<Rightarrow> options \<Rightarrow> options fate option" where
  "opt_args wenv env mods p argv opt =
    (let (qs, ws) = getopt (letters mods) argv
     in case opt_loop wenv env mods p qs opt of
          None \<Rightarrow> None
        | Some Exits \<Rightarrow> Some Exits
        | Some (Continues opt) \<Rightarrow>
            (case default_rcmd mods opt of
               Exits \<Rightarrow> Some Exits
             | Continues opt \<Rightarrow>
                 let opt = take_words p ws opt
                 in if opt_pcp_server opt then Some (Continues opt)
                    else
                      let opt = mod_read_wcoll mods opt
                      in lift_targets opt (opt_args_wcoll wenv (\<lambda>w. w) (getenv env ''WCOLL'') (targets_of opt))))"

section \<open>Checks\<close>

fun infile_names_loop :: "(string \<Rightarrow> fstat option) \<Rightarrow> bool \<Rightarrow> string list \<Rightarrow> bool \<Rightarrow> bool" where
  "infile_names_loop st recur [] verified = verified"
| "infile_names_loop st recur (name # names) verified =
    (case st name of
       None \<Rightarrow> infile_names_loop st recur names False
     | Some sb \<Rightarrow>
         if \<not> is_reg sb \<and> \<not> is_dir sb then False
         else if is_dir sb \<and> \<not> recur then False
         else infile_names_loop st recur names verified)"

definition infile_names_check :: "(string \<Rightarrow> fstat option) \<Rightarrow> options \<Rightarrow> bool" where
  "infile_names_check st opt = infile_names_loop st (recursive (dsh_opt opt)) (infile_names (dsh_opt opt)) True"

text \<open>
  \<open>S_ISDIR(statbuf.st_mode)\<close> behind a failed \<open>stat\<close> reads a variable without a value;
  the result is false in any case.
\<close>

definition opt_verify :: "mod_state \<Rightarrow> (string \<Rightarrow> fstat option) \<Rightarrow> pers_t \<Rightarrow> options \<Rightarrow> (bool \<times> options) fate" where
  "opt_verify mods st p opt =
    (case mod_postop mods opt of
       (errors, opt) \<Rightarrow>
         let v = \<not> errors > 0; d = dsh_opt opt
         in if p = DSH \<and> stdin_unavailable opt \<and> cmd opt = None then Exits
            else
              let v = (if \<not> opt_pcp_server opt \<and> \<not> opt_pcp_client opt then
                         v \<and> \<not> (case wcoll opt of None \<Rightarrow> True | Some hl \<Rightarrow> nhosts hl = 0) \<and>
                         \<not> connect_timeout opt < 0 \<and> \<not> command_timeout opt < 0
                       else v);
                  v = (if p = PCP \<and> \<not> opt_pcp_server opt \<and> \<not> opt_pcp_client opt then
                         v \<and> \<not> (outfile opt = None \<or> infile_names d = []) \<and> \<not> target_is_directory opt \<and>
                         (\<not> reverse_copy d \<longrightarrow> infile_names_check st opt) \<and>
                         (reverse_copy d \<longrightarrow> (case outfile opt of None \<Rightarrow> True
                            | Some out \<Rightarrow> (case st out of None \<Rightarrow> False | Some sb \<Rightarrow> is_dir sb)))
                       else v);
                  v = (v \<and> \<not> (p = PCP \<and> opt_pcp_server opt \<and> opt_pcp_client opt));
                  v = (if p = PCP \<and> opt_pcp_server opt then
                         v \<and> infile_names d = [] \<and> outfile opt \<noteq> None \<and> pcp_client_host opt = None \<and> \<not> reverse_copy d
                       else v)
              in if p = PCP \<and> opt_pcp_client opt then
                   let opt = opt\<lparr>dsh_opt := d\<lparr>reverse_copy := False\<rparr>\<rparr>;
                       v = (v \<and> infile_names d \<noteq> [] \<and> outfile opt = None \<and> pcp_client_host opt \<noteq> None \<and>
                         (infile_names d \<noteq> [] \<longrightarrow> infile_names_check st opt))
                   in Continues (v, opt)
                 else Continues (v, opt))"

section \<open>The program\<close>

text \<open>What \<open>main\<close> does after the checks; the value 1 is returned if they fail.\<close>

datatype main_action =
  ListOptions options
| PcpServer options
| PcpClient options
| RunDsh options opt_t
| Interactive options
| NotVerified

definition dsh_args :: "options \<Rightarrow> opt_t" where
  "dsh_args opt = (dsh_opt opt)\<lparr>ocmd := (case cmd opt of None \<Rightarrow> [] | Some s \<Rightarrow> s),
     outfile_name := (case outfile opt of None \<Rightarrow> [] | Some s \<Rightarrow> s),
     remote_program_path := (case remote_path opt of None \<Rightarrow> [] | Some s \<Rightarrow> s)\<rparr>"

definition main_dispatch :: "pers_t \<Rightarrow> bool \<Rightarrow> options \<Rightarrow> main_action" where
  "main_dispatch p verified opt =
    (if \<not> verified then NotVerified
     else if info_only opt then ListOptions opt
     else if p = PCP \<and> opt_pcp_server opt then PcpServer opt
     else if p = PCP \<and> opt_pcp_client opt then PcpClient opt
     else if p = PCP \<or> cmd opt \<noteq> None then RunDsh opt (dsh_args opt)
     else Interactive opt)"

record main_env =
  hosts_env :: wcoll_env
  sys_env :: host_env
  mods_env :: mod_env
  geteuid :: nat
  pdsh_module_dir :: string

definition module_dir :: "main_env \<Rightarrow> string" where
  "module_dir env =
    (case getenv (sys_env env) ''PDSH_MODULE_DIR'' of
       None \<Rightarrow> pdsh_module_dir env
     | Some m \<Rightarrow>
         if getuid (mods_env env) = 0 \<or> getuid (mods_env env) \<noteq> geteuid env then pdsh_module_dir env else m)"

definition pdsh_main :: "main_env \<Rightarrow> string \<Rightarrow> string list \<Rightarrow> main_action fate option" where
  "pdsh_main env argv0 argv =
    (case opt_default (sys_env env) argv0 of
       Exits \<Rightarrow> Some Exits
     | Continues (p, ls, opt) \<Rightarrow>
         (case opt_env (sys_env env) p opt of
            Exits \<Rightarrow> Some Exits
          | Continues opt \<Rightarrow>
              let opt = opt_args_early ls argv opt
              in case mod_load_modules p (mods_env env) (module_dir env) opt \<lparr>module_list = [], letters = ls, init_calls = []\<rparr> of
                   Exits \<Rightarrow> Some Exits
                 | Continues (rc, mods) \<Rightarrow>
                     if rc < 0 then Some Exits
                     else case opt_args (hosts_env env) (sys_env env) mods p argv opt of
                            None \<Rightarrow> None
                          | Some Exits \<Rightarrow> Some Exits
                          | Some (Continues opt) \<Rightarrow>
                              Some (case opt_verify mods (stat (mods_env env)) p opt of
                                      Exits \<Rightarrow> Exits
                                    | Continues (verified, opt) \<Rightarrow> Continues (main_dispatch p verified opt))))"

section \<open>Letters nobody has\<close>

text \<open>The usage text ends the program for a letter without a case and without a module.\<close>

lemma module_option_exits:
  assumes "\<forall>m\<in>set (module_list mods). mactive m \<longrightarrow> c \<notin> oletter ` set (ptable (pmod m))"
  shows "test_module_option mods opt (c, a) = Exits"
proof -
  have "mod_find_opt m c = None" if "m \<in> set (module_list mods)" "mactive m" for m
    using assms that by (auto simp: mod_find_opt_def find_None_iff)
  then have "process_opt_mods ms opt c a = (-1, opt)" if "set ms \<subseteq> set (module_list mods)" for ms
    using that by (induction ms) auto
  then show ?thesis by (simp add: test_module_option_def mod_process_opt_def)
qed

section \<open>The command line as a whole\<close>

lemma targets_of_set [simp]: "targets_of (set_targets opt w) = w"
  by (simp add: targets_of_def set_targets_def)

lemma set_targets_twice [simp]: "set_targets (set_targets opt w) w' = set_targets opt w'"
  by (simp add: set_targets_def)

lemma set_targets_same [simp]: "set_targets opt (targets_of opt) = opt"
  by (simp add: targets_of_def set_targets_def)

lemma lift_targets_twice [simp]: "lift_targets (set_targets opt w) r = lift_targets opt r"
  unfolding lift_targets_def set_targets_twice by (rule refl)

fun targets_optarg :: "targets \<Rightarrow> optarg" where
  "targets_optarg (Take is) = (CHR ''w'', Some (commas (map item_text is)))"
| "targets_optarg (Leave is) = (CHR ''x'', Some (commas (map item_text is)))"

lemma opt_step_targets:
  "opt_step wenv env mods p (targets_optarg t) opt =
    lift_targets opt (target_opt_process (wenv\<lparr>emodules := mod_rcmd_modules mods\<rparr>) (targets_of opt) (targets_opt t))"
  by (cases t) (simp_all add: opt_step_def)

lemma opt_loop_targets:
  "opt_loop wenv env mods p (map targets_optarg ts) opt =
    lift_targets opt (target_opts_process (wenv\<lparr>emodules := mod_rcmd_modules mods\<rparr>) (targets_of opt) (map targets_opt ts))"
proof (induction ts arbitrary: opt)
  case Nil
  then show ?case by (simp add: lift_targets_def)
next
  case (Cons t ts)
  show ?case
    by (cases "target_opt_process (wenv\<lparr>emodules := mod_rcmd_modules mods\<rparr>) (targets_of opt) (targets_opt t)")
      (auto simp: opt_step_targets lift_targets_def Cons.IH split: fate.split)
qed

lemma opt_args_wcoll_frame:
  "opt_args_wcoll wenv f var (w\<lparr>orcmd := r\<rparr>) =
    map_option (\<lambda>x. case x of Exits \<Rightarrow> Exits | Continues w \<Rightarrow> Continues (w\<lparr>orcmd := r\<rparr>)) (opt_args_wcoll wenv f var w)"
  by (cases w) (simp add: opt_args_wcoll_def Let_def option.map_comp comp_def split: option.split fate.split)

lemma build_cmd_more: "xtext_of (build_cmd ws (Some s)) = xtext s @ concat (map (\<lambda>w. '' '' @ w) ws) \<and> build_cmd ws (Some s) \<noteq> None"
proof (induction ws arbitrary: s)
  case (Cons w ws)
  have "xtext (xstrcat (Some (xstrcat (Some s) '' '')) w) = xtext s @ '' '' @ w"
    using xtext_of_cat [of "Some (xstrcat (Some s) '' '')" w] xtext_of_cat [of "Some s" "'' ''"] by (simp add: xtext_of_def)
  then show ?case using Cons [of "xstrcat (Some (xstrcat (Some s) '' '')) w"] by simp
qed (simp add: xtext_of_def)

lemma joined_blanks: "joined '' '' (w # ws) = w @ concat (map (\<lambda>w. '' '' @ w) ws)"
  by (induction ws arbitrary: w) simp_all

lemma build_cmd_joined: "map_option xtext (build_cmd ws None) = (if ws = [] then None else Some (joined '' '' ws))"
proof (cases ws)
  case (Cons w vs)
  have "xtext (xstrcat None w) = w" using xtext_of_cat [of None w] by (simp add: xtext_of_def)
  then show ?thesis
    using build_cmd_more [of vs "xstrcat None w"] joined_blanks [of w vs] Cons by (auto simp: xtext_of_def)
qed simp

text \<open>
  Modules whose own options have not been given: they name no hosts if there are some already,
  and on options that satisfy \<open>P\<close> they have nothing to do when all options have been read.
\<close>

definition idle_read :: "pdsh_module \<Rightarrow> bool" where
  "idle_read m \<longleftrightarrow> (\<forall>f opt. pread m = Some f \<longrightarrow> wcoll opt \<noteq> None \<longrightarrow> f opt = (None, opt))"

definition idle_postop :: "(options \<Rightarrow> bool) \<Rightarrow> pdsh_module \<Rightarrow> bool" where
  "idle_postop P m \<longleftrightarrow> (\<forall>f opt. ppostop m = Some f \<longrightarrow> P opt \<longrightarrow> f opt = (0, opt))"

lemma read_wcoll_mods_idle:
  assumes "\<forall>m\<in>set ms. mactive m \<longrightarrow> idle_read (pmod m)" "wcoll opt \<noteq> None"
  shows "read_wcoll_mods ms opt = opt"
  using assms by (induction ms) (auto simp: idle_read_def split: option.splits)

lemma postop_mods_idle:
  assumes "\<forall>m\<in>set ms. mactive m \<longrightarrow> idle_postop P (pmod m)" "P opt"
  shows "postop_mods ms opt e = (e, opt)"
  using assms by (induction ms) (auto simp: idle_postop_def split: option.splits)

lemma takes_arg_prefix: "strchr s c \<Longrightarrow> last s \<noteq> c \<Longrightarrow> takes_arg (s @ ext) c = takes_arg s c"
proof (induction s)
  case (Cons d s)
  then show ?case by (cases "d = c"; cases s) (auto simp: takes_arg_def)
qed simp

lemma targets_known: "opt_known (init_pdsh_options p @ ext) (targets_optarg t)"
proof -
  have i: "init_pdsh_options p = GEN_ARGS @ (if p = DSH then DSH_ARGS else PCP_ARGS)"
    using xtext_of_cat [of "Strdup (Some GEN_ARGS)"] by (simp add: init_pdsh_options_def xtext_of_def Strdup_def)
  have g: "strchr GEN_ARGS CHR ''w'' \<and> strchr GEN_ARGS CHR ''x'' \<and> takes_arg GEN_ARGS CHR ''w'' \<and> takes_arg GEN_ARGS CHR ''x''"
    by (simp add: GEN_ARGS_def takes_arg_def)
  have l: "last GEN_ARGS \<noteq> CHR ''w''" "last GEN_ARGS \<noteq> CHR ''x''" by (simp_all add: GEN_ARGS_def)
  show ?thesis
    using g l unfolding i append_assoc by (cases t) (simp_all add: opt_known_def takes_arg_prefix)
qed

lemma mod_initialize_letters:
  "mod_initialize p m ls calls = (rc, m', ls', calls') \<Longrightarrow> \<exists>ext. ls' = ls @ ext"
proof -
  have f: "\<exists>ext. foldl (\<lambda>letters q. if p \<in> opers q then letters @ [oletter q] @ (if oarg q then '':'' else []) else letters) ls tab = ls @ ext"
    for ls :: string and tab :: "options module_option list"
  proof (induction tab arbitrary: ls)
    case (Cons q tab)
    show ?case using Cons [of "if p \<in> opers q then ls @ [oletter q] @ (if oarg q then '':'' else []) else ls"] by auto
  qed simp
  obtain r l where r: "opt_register p ls (ptable (pmod m)) = (r, l)" by force
  have "\<exists>ext. l = ls @ ext" using r f by (auto simp: opt_register_def split: if_splits)
  moreover assume "mod_initialize p m ls calls = (rc, m', ls', calls')"
  then have "ls' = l" using r by (auto simp: mod_initialize_def split: bool.splits option.splits if_splits)
  ultimately show ?thesis by simp
qed

lemma mod_initialize_at_letters: "\<exists>ext. letters (mod_initialize_at p i st) = letters st @ ext"
proof -
  obtain rc m' ls' calls' where r: "mod_initialize p (module_list st ! i) (letters st) (init_calls st) = (rc, m', ls', calls')"
    by (metis prod_cases4)
  show ?thesis using mod_initialize_letters [OF r] by (simp add: mod_initialize_at_def r)
qed

lemma foldl_letters:
  assumes "\<And>st x. \<exists>ext. letters (f st x) = letters st @ ext"
  shows "\<exists>ext. letters (foldl f st xs) = letters st @ ext"
proof (induction xs arbitrary: st)
  case (Cons x xs)
  show ?case using Cons [of "f st x"] assms [of st x] by auto
qed simp

lemma mod_load_modules_letters:
  assumes "mod_load_modules p env dir opt st = Continues (rc, st')"
  shows "\<exists>ext. letters st' = letters st @ ext"
proof -
  obtain ms where "st' = mod_init_list p (mod_initialize_modules_by_name p (misc_modules opt) (st\<lparr>module_list := ms\<rparr>))"
    using assms by (cases "mod_load_dynamic_modules p env dir (local_path opt) (module_list st)")
      (auto simp: mod_load_modules_def Let_def split: prod.splits)
  moreover have n: "\<exists>ext. letters (mod_initialize_by_name p st x) = letters st @ ext" for st x
    using mod_initialize_at_letters by (simp add: mod_initialize_by_name_def Let_def)
  have "\<exists>ext. letters (mod_initialize_modules_by_name p (misc_modules opt) (st\<lparr>module_list := ms\<rparr>)) = letters st @ ext" for ms
    using foldl_letters [of "mod_initialize_by_name p", OF n, of "st\<lparr>module_list := ms\<rparr>"]
    by (simp add: mod_initialize_modules_by_name_def split: option.split)
  moreover have "\<exists>ext. letters (mod_init_list p st) = letters st @ ext" for st
    unfolding mod_init_list_def by (rule foldl_letters) (rule mod_initialize_at_letters)
  ultimately show ?thesis by (metis append_assoc)
qed

text \<open>Words that are not options\<close>

definition plain_words :: "string list \<Rightarrow> bool" where
  "plain_words ws \<longleftrightarrow> ws = [] \<or> take 1 (hd ws) \<noteq> ''-'' \<or> hd ws = ''-''"

lemma opt_args_targets:
  assumes "letters mods = init_pdsh_options DSH @ ext"
    and "\<forall>m\<in>set (module_list mods). mactive m \<longrightarrow> idle_read (pmod m)"
    and "rcmd_name opt = None" "rcmd_get_default_module (mod_rcmd_modules mods) rcmd_start = Some r" "resolves (mod_rcmd_modules mods) r"
    and "targets_of opt = opt_wcoll_start" "cmd opt = None" "\<not> opt_pcp_server opt"
    and "list_all targets_ok ts" "taken ts \<noteq> []"
    and "length (concat (map item_hosts (taken ts))) < 2 ^ 31" "length (concat (map item_hosts (left ts))) < 2 ^ 31"
    and "list_all (\<lambda>h. item_ok (Host h)) (concat (map item_hosts (taken ts)))"
    and "list_all findable (concat (map item_hosts (left ts)))"
    and "plain_words ws"
  shows "\<exists>w hl. opt_args wenv env mods DSH (concat (map opt_words (map targets_optarg ts)) @ ws) opt =
      Some (Continues ((set_targets opt w)\<lparr>rcmd_name := Some r, cmd := (if ws = [] then None else Some (joined '' '' ws))\<rparr>)) \<and>
    wcoll w = Some hl \<and> hl_ok hl \<and>
    hosts hl = fold remove1 (concat (map item_hosts (left ts))) (concat (map item_hosts (taken ts)))"
proof -
  have g: "getopt (letters mods) (concat (map opt_words (map targets_optarg ts)) @ ws) = (map targets_optarg ts, ws)"
    using assms(15) unfolding assms(1) plain_words_def
    by (intro getopt_words) (simp_all add: list_all_iff targets_known)
  let ?wenv = "wenv\<lparr>emodules := mod_rcmd_modules mods\<rparr>"
  have env: "estale ?wenv = estale wenv" "eregexec ?wenv = eregexec wenv" "edepth ?wenv = edepth wenv"
    "efiles ?wenv = efiles wenv" "estdin ?wenv = estdin wenv" by simp_all
  have same: "opt_args_wcoll ?wenv f var w = opt_args_wcoll wenv f var w" for f var w
    unfolding opt_args_wcoll_def env by (rule refl)
  obtain w1 w2 hl where w: "target_opts_process ?wenv opt_wcoll_start (map targets_opt ts) = Some (Continues w1)"
    "opt_args_wcoll wenv (\<lambda>w. w) (getenv env ''WCOLL'') w1 = Some (Continues w2)" "wcoll w2 = Some hl" "hl_ok hl"
    "hosts hl = fold remove1 (concat (map item_hosts (left ts))) (concat (map item_hosts (taken ts)))"
    using target_list [OF assms(9-14), of ?wenv "getenv env ''WCOLL''"] same by auto
  have l: "opt_loop wenv env mods DSH (map targets_optarg ts) opt = Some (Continues (set_targets opt w1))"
    using w(1) assms(6) by (simp add: opt_loop_targets lift_targets_def)
  have o1: "orcmd w1 = rcmd_start" "wcoll w1 \<noteq> None"
    using target_opts_collect [OF assms(9), of opt_wcoll_start ?wenv] w(1) assms(10,11)
    by (auto simp: wcoll_ok_def wcoll_hosts_def opt_wcoll_start_def)
  have ld: "loaded (mod_rcmd_modules mods) r"
    using assms(4) by (auto simp: rcmd_get_default_module_def rcmd_start_def find_Some_iff)
  obtain st where st: "rcmd_register_default_rcmd (mod_rcmd_modules mods) rcmd_start r = (0, st)"
    using module_register_ok [OF ld assms(5), of rcmd_start] by (auto simp: rcmd_register_default_rcmd_def)
  have d: "default_rcmd mods (set_targets opt w1) =
      Continues ((set_targets opt (w1\<lparr>orcmd := st\<rparr>))\<lparr>rcmd_name := Some r\<rparr>)"
    using assms(3,4) st o1(1) by (simp add: default_rcmd_def Let_def set_targets_def)
  let ?opt = "(set_targets opt (w1\<lparr>orcmd := st\<rparr>))\<lparr>rcmd_name := Some r, cmd := (if ws = [] then None else Some (joined '' '' ws))\<rparr>"
  have t: "take_words DSH ws ((set_targets opt (w1\<lparr>orcmd := st\<rparr>))\<lparr>rcmd_name := Some r\<rparr>) = ?opt"
    using build_cmd_joined [of ws] assms(7) by (simp add: take_words_def set_targets_def Strdup_def)
  have tt: "targets_of ?opt = w1\<lparr>orcmd := st\<rparr>" by (simp add: targets_of_def set_targets_def)
  have s: "opt_pcp_server ?opt = False" "mod_read_wcoll mods ?opt = ?opt"
    using assms(8) o1(2) unfolding mod_read_wcoll_def by (auto simp: set_targets_def intro!: read_wcoll_mods_idle assms(2))
  have st': "set_targets ?opt x = (set_targets opt x)\<lparr>rcmd_name := Some r, cmd := (if ws = [] then None else Some (joined '' '' ws))\<rparr>" for x
    by (simp add: set_targets_def)
  have "opt_args wenv env mods DSH (concat (map opt_words (map targets_optarg ts)) @ ws) opt =
      lift_targets ?opt (opt_args_wcoll wenv (\<lambda>w. w) (getenv env ''WCOLL'') (w1\<lparr>orcmd := st\<rparr>))"
    unfolding opt_args_def Let_def g prod.case l option.case fate.case d t s if_False tt by (rule refl)
  also have "\<dots> = Some (Continues ((set_targets opt (w2\<lparr>orcmd := st\<rparr>))\<lparr>rcmd_name := Some r, cmd := (if ws = [] then None else Some (joined '' '' ws))\<rparr>))"
    unfolding opt_args_wcoll_frame w(2) lift_targets_def by (simp add: st')
  finally show ?thesis using w(3-5) by (intro exI [of _ "w2\<lparr>orcmd := st\<rparr>"] exI [of _ hl]) simp
qed

section \<open>The program as a whole\<close>

lemma opt_verify_runs:
  assumes "opt_verify mods st p opt = Continues (True, opt')" "\<not> (p = PCP \<and> opt_pcp_server opt')"
    "\<not> (p = PCP \<and> opt_pcp_client opt')" "p = DSH \<Longrightarrow> \<not> opt_pcp_server opt' \<and> \<not> opt_pcp_client opt'"
  shows "\<exists>hl. wcoll opt' = Some hl \<and> nhosts hl \<noteq> 0" "0 \<le> connect_timeout opt'" "0 \<le> command_timeout opt'"
    "p = PCP \<Longrightarrow> outfile opt' \<noteq> None \<and> infile_names (dsh_opt opt') \<noteq> []"
proof -
  obtain e opt1 where m: "mod_postop mods opt = (e, opt1)" by force
  have "(\<exists>hl. wcoll opt' = Some hl \<and> nhosts hl \<noteq> 0) \<and> 0 \<le> connect_timeout opt' \<and> 0 \<le> command_timeout opt' \<and>
      (p = PCP \<longrightarrow> outfile opt' \<noteq> None \<and> infile_names (dsh_opt opt') \<noteq> [])"
  proof (cases p)
    case DSH
    then have "opt' = opt1" using assms(1) by (simp add: opt_verify_def m Let_def split: if_splits)
    then show ?thesis using assms(1,4) DSH by (simp add: opt_verify_def m Let_def split: if_splits option.splits)
  next
    case PCP
    have c: "\<not> opt_pcp_client opt1" using assms(1,3) PCP by (auto simp: opt_verify_def m Let_def)
    then have "opt' = opt1" using assms(1) PCP by (simp add: opt_verify_def m Let_def)
    then show ?thesis using assms(1,2) c PCP by (simp add: opt_verify_def m Let_def split: if_splits option.splits)
  qed
  then show "\<exists>hl. wcoll opt' = Some hl \<and> nhosts hl \<noteq> 0" "0 \<le> connect_timeout opt'" "0 \<le> command_timeout opt'"
    "p = PCP \<Longrightarrow> outfile opt' \<noteq> None \<and> infile_names (dsh_opt opt') \<noteq> []" by simp_all
qed

lemma opt_verify_passive:
  assumes "\<forall>m\<in>set (module_list mods). mactive m \<longrightarrow> idle_postop P (pmod m)" "P opt"
    and "\<not> opt_pcp_server opt" "\<not> opt_pcp_client opt" "cmd opt \<noteq> None"
    and "wcoll opt = Some hl" "nhosts hl \<noteq> 0" "0 \<le> connect_timeout opt" "0 \<le> command_timeout opt"
  shows "opt_verify mods st DSH opt = Continues (True, opt)"
proof -
  have "mod_postop mods opt = (0, opt)" by (simp add: mod_postop_def postop_mods_idle [OF assms(1,2)])
  then show ?thesis using assms(3-) by (simp add: opt_verify_def Let_def)
qed

lemma early_foldl:
  "list_all (\<lambda>q. fst q \<noteq> CHR ''M'' \<and> fst q \<noteq> CHR ''d'') qs \<Longrightarrow>
   foldl (\<lambda>opt (c, a). if c = CHR ''M'' then opt\<lparr>misc_modules := a\<rparr>
      else if c = CHR ''d'' then opt\<lparr>debug := True\<rparr> else opt) opt qs = opt"
  by (induction qs) auto

text \<open>The environment variables the program reads are not set.\<close>

definition clean_env :: "main_env \<Rightarrow> bool" where
  "clean_env env \<longleftrightarrow> (\<forall>v\<in>{''FANOUT'', ''PDSH_CONNECT_TIMEOUT'', ''PDSH_COMMAND_TIMEOUT'', ''PDSH_RCMD_TYPE'',
      ''PDSH_MISC_MODULES'', ''DSHPATH'', ''PDSH_REMOTE_PDCP_PATH'', ''PDSH_MODULE_DIR''}. getenv (sys_env env) v = None)"

lemma opt_env_clean: "clean_env env \<Longrightarrow> opt_env (sys_env env) p opt = Continues opt"
  by (simp add: clean_env_def opt_env_def env_int_def)

lemma pdsh_runs:
  assumes D: "opt_default (sys_env env) argv0 = Continues (DSH, ls, opt0)" and E: "clean_env env"
    and L: "mod_load_modules DSH (mods_env env) (pdsh_module_dir env) opt0 \<lparr>module_list = [], letters = ls, init_calls = []\<rparr> = Continues (rc, mods)" "0 \<le> rc"
    and P: "\<forall>m\<in>set (module_list mods). mactive m \<longrightarrow>
      idle_read (pmod m) \<and> idle_postop (\<lambda>opt. connect_timeout opt = CONNECT_TIMEOUT) (pmod m)"
    and R: "rcmd_get_default_module (mod_rcmd_modules mods) rcmd_start = Some r" "resolves (mod_rcmd_modules mods) r"
    and T: "list_all targets_ok ts" "taken ts \<noteq> []"
      "length (concat (map item_hosts (taken ts))) < 2 ^ 31" "length (concat (map item_hosts (left ts))) < 2 ^ 31"
      "list_all (\<lambda>h. item_ok (Host h)) (concat (map item_hosts (taken ts)))"
      "list_all findable (concat (map item_hosts (left ts)))"
      "fold remove1 (concat (map item_hosts (left ts))) (concat (map item_hosts (taken ts))) \<noteq> []"
    and W: "plain_words ws" "ws \<noteq> []"
  shows "\<exists>opt hl. pdsh_main env argv0 (concat (map opt_words (map targets_optarg ts)) @ ws) = Some (Continues (RunDsh opt (dsh_args opt))) \<and>
    wcoll opt = Some hl \<and> hl_ok hl \<and>
    hosts hl = fold remove1 (concat (map item_hosts (left ts))) (concat (map item_hosts (taken ts))) \<and>
    ocmd (dsh_args opt) = joined '' '' ws \<and> ofanout opt = DFLT_FANOUT \<and> \<not> opt_pcp_server opt \<and> \<not> opt_pcp_client opt"
proof -
  have d: "ls = init_pdsh_options DSH" "targets_of opt0 = opt_wcoll_start" "rcmd_name opt0 = None" "cmd opt0 = None"
    "\<not> opt_pcp_server opt0" "\<not> opt_pcp_client opt0" "ofanout opt0 = DFLT_FANOUT" "connect_timeout opt0 = CONNECT_TIMEOUT" "0 \<le> command_timeout opt0"
    "\<not> info_only opt0"
    using D by (auto simp: opt_default_def targets_of_def opt_wcoll_start_def CONNECT_TIMEOUT_def
        split: fate.splits option.splits prod.splits)
  obtain ext where ext: "letters mods = init_pdsh_options DSH @ ext"
    using mod_load_modules_letters [OF L(1)] d(1) by auto
  let ?argv = "concat (map opt_words (map targets_optarg ts)) @ ws"
  have "opt_known ls (targets_optarg t)" for t using targets_known [of DSH "[]" t] d(1) by simp
  then have g: "getopt ls ?argv = (map targets_optarg ts, ws)"
    using W(1) unfolding plain_words_def by (intro getopt_words) (simp_all add: list_all_iff)
  have "fst (targets_optarg t) \<noteq> CHR ''M'' \<and> fst (targets_optarg t) \<noteq> CHR ''d''" for t by (cases t) simp_all
  then have early: "opt_args_early ls ?argv opt0 = opt0"
    unfolding opt_args_early_def g fst_conv by (intro early_foldl) (auto simp: list_all_iff)
  have dir: "module_dir env = pdsh_module_dir env" using E by (simp add: module_dir_def clean_env_def)
  have pr: "\<forall>m\<in>set (module_list mods). mactive m \<longrightarrow> idle_read (pmod m)"
    "\<forall>m\<in>set (module_list mods). mactive m \<longrightarrow> idle_postop (\<lambda>opt. connect_timeout opt = CONNECT_TIMEOUT) (pmod m)"
    using P by blast+
  obtain w hl where o: "opt_args (hosts_env env) (sys_env env) mods DSH ?argv opt0 =
      Some (Continues ((set_targets opt0 w)\<lparr>rcmd_name := Some r, cmd := (if ws = [] then None else Some (joined '' '' ws))\<rparr>))"
    "wcoll w = Some hl" "hl_ok hl" "hosts hl = fold remove1 (concat (map item_hosts (left ts))) (concat (map item_hosts (taken ts)))"
    using opt_args_targets [OF ext pr(1) d(3) R d(2,4,5) T(1-6) W(1), of "hosts_env env" "sys_env env"] by blast
  define opt where "opt = (set_targets opt0 w)\<lparr>rcmd_name := Some r, cmd := (if ws = [] then None else Some (joined '' '' ws))\<rparr>"
  have opt: "wcoll opt = Some hl" "cmd opt = Some (joined '' '' ws)" "\<not> opt_pcp_server opt" "\<not> opt_pcp_client opt"
    "connect_timeout opt = CONNECT_TIMEOUT" "0 \<le> command_timeout opt" "ofanout opt = DFLT_FANOUT" "\<not> info_only opt"
    using d o(2) W(2) by (simp_all add: opt_def set_targets_def)
  have "nhosts hl \<noteq> 0" using hl_okD(2) [OF o(3)] o(4) T(7) by simp
  then have v: "opt_verify mods (stat (mods_env env)) DSH opt = Continues (True, opt)"
    using opt_verify_passive [OF pr(2) opt(5,3,4) _ opt(1) _ _ opt(6)] opt(2,5) by (simp add: CONNECT_TIMEOUT_def)
  have nl: "\<not> rc < 0" using L(2) by simp
  have disp: "main_dispatch DSH True opt = RunDsh opt (dsh_args opt)"
    using opt by (simp add: main_dispatch_def)
  have "pdsh_main env argv0 ?argv = Some (Continues (RunDsh opt (dsh_args opt)))"
    unfolding pdsh_main_def D fate.case prod.case opt_env_clean [OF E] Let_def early dir L(1)
      if_not_P [OF nl] o(1) [folded opt_def] option.case v disp by (rule refl)
  then show ?thesis using opt o(3,4) by (auto simp: dsh_args_def)
qed

lemma main_dispatch_runs:
  "main_dispatch p v opt = RunDsh opt' d \<longleftrightarrow> v \<and> opt' = opt \<and> d = dsh_args opt \<and> \<not> info_only opt \<and>
     \<not> (p = PCP \<and> opt_pcp_server opt) \<and> \<not> (p = PCP \<and> opt_pcp_client opt) \<and> (p = PCP \<or> cmd opt \<noteq> None)"
  by (auto simp: main_dispatch_def)

lemma pdsh_main_verified:
  assumes "pdsh_main env argv0 argv = Some (Continues a)"
  shows "\<exists>mods p opt v opt'. opt_verify mods (stat (mods_env env)) p opt = Continues (v, opt') \<and> a = main_dispatch p v opt'"
  using assms unfolding pdsh_main_def Let_def
  by (simp split: fate.splits prod.splits if_splits option.splits) blast

end
