(* ===== verification/Pcp_Remote.thy ===== *)
theory Pcp_Remote
  imports Pcp_Copy Opt_Args
begin

text \<open>
  How a copy is set up: the threads of \<open>dsh()\<close> and the remote program start
  \<open>pcp_server\<close> and \<open>pcp_client\<close> with values of their options, and the remote
  program learns its options from the command \<open>dsh()\<close> has built.
\<close>

section \<open>The two sides\<close>

text \<open>\<open>_pcp_server\<close> and \<open>_pcp_client\<close> of \<open>dsh.c\<close> on the options the
  thread entry was made from, and \<open>_pcp_remote_server\<close> and \<open>_pcp_remote_client\<close>
  of \<open>main.c\<close>\<close>

definition thread_svr :: "options \<Rightarrow> opt_t \<Rightarrow> pcp_svr" where
  "thread_svr opt d =
    \<lparr>spreserve = preserve d, starget_is_dir = target_is_directory opt, soutfile = outfile_name d\<rparr>"

definition thread_cli :: "options \<Rightarrow> opt_t \<Rightarrow> string \<Rightarrow> pcp_cli" where
  "thread_cli opt d host = \<lparr>cpreserve = preserve d, cclient = opt_pcp_client opt, chost = host\<rparr>"

definition remote_svr :: "options \<Rightarrow> pcp_svr" where
  "remote_svr opt =
    \<lparr>spreserve = preserve (dsh_opt opt), starget_is_dir = target_is_directory opt,
     soutfile = (case outfile opt of None \<Rightarrow> [] | Some s \<Rightarrow> s)\<rparr>"

definition remote_cli :: "options \<Rightarrow> pcp_cli" where
  "remote_cli opt =
    \<lparr>cpreserve = preserve (dsh_opt opt), cclient = opt_pcp_client opt,
     chost = (case pcp_client_host opt of None \<Rightarrow> [] | Some s \<Rightarrow> s)\<rparr>"

definition pcp_remote_server :: "sink_os \<Rightarrow> options \<Rightarrow> sink_state \<Rightarrow> sink_state option" where
  "pcp_remote_server os opt st = pcp_server os (remote_svr opt) st"

definition pcp_remote_client :: "client_os \<Rightarrow> options \<Rightarrow> client_state \<Rightarrow> (int \<times> client_state) fate option" where
  "pcp_remote_client os opt st =
    (case pcp_expand_dirs os (infile_names (dsh_opt opt)) of
       None \<Rightarrow> None
     | Some Exits \<Rightarrow> Some Exits
     | Some (Continues infiles) \<Rightarrow> Some (pcp_client os (remote_cli opt) infiles st))"

section \<open>The command of a copy\<close>

definition copy_flags :: "nat \<Rightarrow> opt_t \<Rightarrow> optarg list" where
  "copy_flags n d =
    (if recursive d then [(CHR ''r'', None)] else []) @ (if preserve d then [(CHR ''p'', None)] else []) @
    (if n > 1 then [(CHR ''y'', None)] else []) @ [(CHR ''z'', None)]"

definition copy_words :: "nat \<Rightarrow> opt_t \<Rightarrow> string list" where
  "copy_words n d = concat (map opt_words (copy_flags n d)) @ [outfile_name d]"

lemma copy_command_words: "copy_command n d = joined '' '' (remote_program_path d # copy_words n d)"
  by (simp add: copy_command_def copy_words_def copy_flags_def opt_words_def joined_blanks Let_def)

lemma copy_flags_known: "list_all (opt_known (init_pdsh_options PCP @ ext)) (copy_flags n d)"
proof -
  have i: "init_pdsh_options PCP = GEN_ARGS @ PCP_ARGS"
    using xtext_of_cat [of "Strdup (Some GEN_ARGS)"] by (simp add: init_pdsh_options_def xtext_of_def Strdup_def)
  have h: "\<forall>c\<in>{CHR ''r'', CHR ''p'', CHR ''y'', CHR ''z''}. strchr (init_pdsh_options PCP) c \<and>
      last (init_pdsh_options PCP) \<noteq> c \<and> \<not> takes_arg (init_pdsh_options PCP) c"
    unfolding i by (simp add: GEN_ARGS_def PCP_ARGS_def takes_arg_def)
  have k: "opt_known (init_pdsh_options PCP @ ext) (c, None)" if "c \<in> {CHR ''r'', CHR ''p'', CHR ''y'', CHR ''z''}" for c
  proof -
    have "strchr (init_pdsh_options PCP) c" "last (init_pdsh_options PCP) \<noteq> c" "\<not> takes_arg (init_pdsh_options PCP) c"
      using h that by blast+
    then show ?thesis using that takes_arg_prefix [of c "init_pdsh_options PCP" ext] by (auto simp: opt_known_def)
  qed
  show ?thesis by (simp add: copy_flags_def k)
qed

lemma copy_flags_early: "list_all (\<lambda>q. fst q \<noteq> CHR ''M'' \<and> fst q \<noteq> CHR ''d'') (copy_flags n d)"
  by (simp add: copy_flags_def)

lemma opt_loop_append:
  "opt_loop wenv env mods p (qs @ qs') opt =
    (case opt_loop wenv env mods p qs opt of
       None \<Rightarrow> None | Some Exits \<Rightarrow> Some Exits | Some (Continues opt) \<Rightarrow> opt_loop wenv env mods p qs' opt)"
  by (induction qs arbitrary: opt) (simp_all split: option.split fate.split)

definition copy_options :: "nat \<Rightarrow> opt_t \<Rightarrow> options \<Rightarrow> options" where
  "copy_options n d opt =
    opt\<lparr>dsh_opt := (dsh_opt opt)\<lparr>recursive := recursive d, preserve := preserve d\<rparr>,
      target_is_directory := n > 1, opt_pcp_server := True\<rparr>"

lemma opt_loop_copy_flags:
  assumes "\<not> recursive (dsh_opt opt)" "\<not> preserve (dsh_opt opt)" "\<not> target_is_directory opt"
  shows "opt_loop wenv env mods PCP (copy_flags n d) opt = Some (Continues (copy_options n d opt))"
proof -
  have r: "opt_loop wenv env mods PCP (if b then [(CHR ''r'', None)] else []) opt =
      Some (Continues (opt\<lparr>dsh_opt := (dsh_opt opt)\<lparr>recursive := b\<rparr>\<rparr>))" if "\<not> recursive (dsh_opt opt)" for b and opt :: options
    using that by (cases b) (simp_all add: opt_step_def)
  have p: "opt_loop wenv env mods PCP (if b then [(CHR ''p'', None)] else []) opt =
      Some (Continues (opt\<lparr>dsh_opt := (dsh_opt opt)\<lparr>preserve := b\<rparr>\<rparr>))" if "\<not> preserve (dsh_opt opt)" for b and opt :: options
    using that by (cases b) (simp_all add: opt_step_def)
  have y: "opt_loop wenv env mods PCP (if b then [(CHR ''y'', None)] else []) opt =
      Some (Continues (opt\<lparr>target_is_directory := b\<rparr>))" if "\<not> target_is_directory opt" for b and opt :: options
    using that by (cases b) (simp_all add: opt_step_def)
  show ?thesis
    using assms by (simp add: copy_flags_def opt_loop_append r p y opt_step_def copy_options_def)
qed

lemma default_rcmd_ok:
  assumes "rcmd_name opt = None" "orcmd opt = rcmd_start" "rcmd_get_default_module (mod_rcmd_modules mods) rcmd_start = Some r"
    and "resolves (mod_rcmd_modules mods) r"
  shows "\<exists>st. default_rcmd mods opt = Continues (opt\<lparr>rcmd_name := Some r, orcmd := st\<rparr>)"
proof -
  have ld: "loaded (mod_rcmd_modules mods) r"
    using assms(3) by (auto simp: rcmd_get_default_module_def rcmd_start_def find_Some_iff)
  obtain st where "rcmd_register_default_rcmd (mod_rcmd_modules mods) rcmd_start r = (0, st)"
    using module_register_ok [OF ld assms(4), of rcmd_start] by (auto simp: rcmd_register_default_rcmd_def)
  then show ?thesis using assms by (auto simp: default_rcmd_def Let_def)
qed

text \<open>The remote program, called with the words of the command, becomes the server the sender wants.\<close>

lemma remote_server_runs:
  assumes D: "opt_default (sys_env env) argv0 = Continues (PCP, ls, opt0)" "\<not> reverse_copy (dsh_opt opt0)" and E: "clean_env env"
    and L: "mod_load_modules PCP (mods_env env) (pdsh_module_dir env) opt0 \<lparr>module_list = [], letters = ls, init_calls = []\<rparr> = Continues (rc, mods)" "0 \<le> rc"
    and P: "\<forall>m\<in>set (module_list mods). mactive m \<longrightarrow>
      idle_postop (\<lambda>opt. wcoll opt = None \<and> connect_timeout opt = CONNECT_TIMEOUT) (pmod m)"
    and R: "rcmd_get_default_module (mod_rcmd_modules mods) rcmd_start = Some r" "resolves (mod_rcmd_modules mods) r"
    and W: "plain_words [outfile_name d]"
  shows "\<exists>opt. pdsh_main env argv0 (copy_words n d) = Some (Continues (PcpServer opt)) \<and>
    remote_svr opt = \<lparr>spreserve = preserve d, starget_is_dir = (n > 1), soutfile = outfile_name d\<rparr>"
proof -
  have d: "ls = init_pdsh_options PCP" "rcmd_name opt0 = None" "orcmd opt0 = rcmd_start" "\<not> info_only opt0" "outfile opt0 = None"
    "\<not> recursive (dsh_opt opt0)" "\<not> preserve (dsh_opt opt0)" "\<not> target_is_directory opt0" "\<not> opt_pcp_client opt0"
    "infile_names (dsh_opt opt0) = []" "pcp_client_host opt0 = None" "stdin_unavailable opt0 = False"
    "wcoll opt0 = None" "connect_timeout opt0 = CONNECT_TIMEOUT"
    using D(1) by (auto simp: opt_default_def split: fate.splits option.splits prod.splits)
  obtain ext where ext: "letters mods = init_pdsh_options PCP @ ext"
    using mod_load_modules_letters [OF L(1)] d(1) by auto
  have g: "getopt (init_pdsh_options PCP @ e) (copy_words n d) = (copy_flags n d, [outfile_name d])" for e
    using W unfolding copy_words_def by (intro getopt_words copy_flags_known) (simp add: plain_words_def)
  have early: "opt_args_early ls (copy_words n d) opt0 = opt0"
    using g [of "[]"] unfolding opt_args_early_def d(1) by (simp add: early_foldl [OF copy_flags_early])
  let ?opt1 = "copy_options n d opt0"
  obtain st where st: "default_rcmd mods ?opt1 = Continues (?opt1\<lparr>rcmd_name := Some r, orcmd := st\<rparr>)"
    using default_rcmd_ok [OF _ _ R, of ?opt1] d(2,3) by (auto simp: copy_options_def)
  let ?opt2 = "?opt1\<lparr>rcmd_name := Some r, orcmd := st\<rparr>"
  let ?opt = "?opt2\<lparr>outfile := Some (outfile_name d)\<rparr>"
  have "take_words PCP [outfile_name d] ?opt2 = ?opt"
    using d(5,9) by (simp add: take_words_def cat_to_def copy_options_def Strdup_def)
  then have o: "opt_args (hosts_env env) (sys_env env) mods PCP (copy_words n d) opt0 = Some (Continues ?opt)"
    unfolding opt_args_def ext g by (simp add: opt_loop_copy_flags [OF d(6-8)] st Let_def) (simp add: copy_options_def)
  have dir: "module_dir env = pdsh_module_dir env" using E by (simp add: module_dir_def clean_env_def)
  have v: "opt_verify mods (stat (mods_env env)) PCP ?opt = Continues (True, ?opt)"
    using d D(2) postop_mods_idle [OF P, of ?opt 0] by (simp add: opt_verify_def mod_postop_def copy_options_def Let_def)
  have m: "main_dispatch PCP True ?opt = PcpServer ?opt" using d(4) by (simp add: main_dispatch_def copy_options_def)
  have nl: "\<not> rc < 0" using L(2) by simp
  have "pdsh_main env argv0 (copy_words n d) = Some (Continues (PcpServer ?opt))"
    unfolding pdsh_main_def D(1) fate.case prod.case opt_env_clean [OF E] Let_def early dir L(1) if_not_P [OF nl] o option.case v m by (rule refl)
  moreover have "remote_svr ?opt = \<lparr>spreserve = preserve d, starget_is_dir = (n > 1), soutfile = outfile_name d\<rparr>"
    by (simp add: remote_svr_def copy_options_def)
  ultimately show ?thesis by blast
qed

end
