(* ===== verification/Dsh_Sched.thy ===== *)
theory Dsh_Sched
  imports Dsh_Output
begin

text \<open>
  The fan-out of \<open>pdsh/dsh.c\<close>: the main thread that starts one thread per host and keeps at
  most \<open>fanout\<close> of them running, the threads, and the signals thread that cancels pending
  ones. A step is one critical section, or one access to the state of a thread outside of them;
  the steps of all threads interleave freely.

  \<open>threadcount_mutex\<close> is held by the main thread and by an ending thread within one step
  only. The signals thread holds it while it walks over the array, so its walk excludes their
  steps, but not the threads' changes of their own states, which \<open>thd_mutex\<close> guards: its
  test of an entry and its assignment to it are two steps, and the thread may move in between.

  What comes from outside are the requests to cancel and the returns of
  \<open>pthread_cond_wait\<close> without a signal, which POSIX allows; a run is described by the number
  of steps of the program and the list of these events. A step that ends the process (a failing
  \<open>pthread_create\<close>, an interrupt, \<open>-k\<close>) is not one of them.
\<close>

section \<open>States\<close>

text \<open>
  Where the main thread is: at the top of the loop for host \<open>i\<close>, waiting on the condition
  variable, waking up from it, at the second loop and waiting there, and behind it.
\<close>

datatype main_pc = Loop nat | Wait nat | Woken nat | Join | JoinWait | MainDone

text \<open>
  A thread: not created, created, connecting, behind the critical section of
  \<open>_update_connect_state\<close>, reading, canceled while it connected, about to decrement
  \<open>threadcount\<close>, ended.
\<close>

datatype thread_pc = Idle | Created | Connecting | Deciding | Reading | Skipping | Finishing | Gone

text \<open>
  The signals thread: waiting for a signal, or with the mutex held about to test entry
  \<open>k\<close>, or to set it after a test that succeeded
\<close>

datatype signals_pc = Quiet | Scan nat | Mark nat

record dsh_state =
  mpc :: main_pc
  wpc :: "nat \<Rightarrow> thread_pc"
  wst :: "nat \<Rightarrow> state_t"
  threadcount :: nat
  spc :: signals_pc

text \<open>\<open>_thd_init\<close> cancels the hosts for which \<open>rcmd_create\<close> fails.\<close>

definition dsh_init :: "(nat \<Rightarrow> bool) \<Rightarrow> dsh_state" where
  "dsh_init norcmd = \<lparr>mpc = Loop 0, wpc = \<lambda>_. Idle, wst = \<lambda>i. if norcmd i then DSH_CANCELED else DSH_NEW,
     threadcount = 0, spc = Quiet\<rparr>"

section \<open>Steps\<close>

text \<open>The loop that advances past canceled threads\<close>

function skip_canceled :: "(nat \<Rightarrow> state_t) \<Rightarrow> nat \<Rightarrow> nat \<Rightarrow> nat" where
  "skip_canceled st n i = (if st i = DSH_CANCELED \<and> i < n then skip_canceled st n (Suc i) else i)"
  by pat_completeness auto
termination by (relation "measure (\<lambda>(_, n, i). n - i)") auto

declare skip_canceled.simps [simp del]

text \<open>The rest of the body of the loop, with room for another thread\<close>

definition start_thread :: "nat \<Rightarrow> nat \<Rightarrow> dsh_state \<Rightarrow> dsh_state" where
  "start_thread n i s =
    (let j = skip_canceled (wst s) n i
     in if j \<ge> n then s\<lparr>mpc := Join\<rparr>
        else s\<lparr>mpc := Loop (Suc j), wpc := (wpc s)(j := Created), threadcount := threadcount s + 1\<rparr>)"

text \<open>A thread that sets its own state with \<open>thd_mutex\<close> held and goes on\<close>

definition thread_sets :: "state_t \<Rightarrow> thread_pc \<Rightarrow> nat \<Rightarrow> dsh_state \<Rightarrow> dsh_state" where
  "thread_sets st x i s = s\<lparr>wst := (wst s)(i := st), wpc := (wpc s)(i := x)\<rparr>"

text \<open>The critical section of \<open>_update_connect_state\<close>, and the test behind it\<close>

definition connected :: "nat \<Rightarrow> dsh_state \<Rightarrow> dsh_state" where
  "connected i s =
    thread_sets (if wst s i \<noteq> DSH_CANCELED then DSH_READING else wst s i) Deciding i s"

definition connect_decides :: "nat \<Rightarrow> dsh_state \<Rightarrow> dsh_state" where
  "connect_decides i s = s\<lparr>wpc := (wpc s)(i := if wst s i = DSH_CANCELED then Skipping else Reading)\<rparr>"

text \<open>The end of a thread: \<open>threadcount--\<close> and the signal that wakes the main thread\<close>

definition end_thread :: "nat \<Rightarrow> dsh_state \<Rightarrow> dsh_state" where
  "end_thread i s =
    s\<lparr>wpc := (wpc s)(i := Gone), threadcount := threadcount s - 1,
      mpc := (case mpc s of Wait k \<Rightarrow> Woken k | JoinWait \<Rightarrow> Join | m \<Rightarrow> m)\<rparr>"

text \<open>One entry of \<open>_cancel_pending_threads\<close>: the test, and the assignment\<close>

definition test_entry :: "nat \<Rightarrow> dsh_state \<Rightarrow> dsh_state" where
  "test_entry k s = s\<lparr>spc := (if wst s k = DSH_NEW \<or> wst s k = DSH_RCMD then Mark k else Scan (Suc k))\<rparr>"

definition cancel_entry :: "nat \<Rightarrow> dsh_state \<Rightarrow> dsh_state" where
  "cancel_entry k s = s\<lparr>spc := Scan (Suc k), wst := (wst s)(k := DSH_CANCELED)\<rparr>"

text \<open>The steps of the program\<close>

inductive run_step :: "int \<Rightarrow> nat \<Rightarrow> dsh_state \<Rightarrow> dsh_state \<Rightarrow> bool" for fanout n where
  full: "mpc s = Loop i \<Longrightarrow> i < n \<Longrightarrow> spc s = Quiet \<Longrightarrow> fanout = int (threadcount s) \<Longrightarrow>
    run_step fanout n s (s\<lparr>mpc := Wait i\<rparr>)"
| room: "mpc s = Loop i \<Longrightarrow> i < n \<Longrightarrow> spc s = Quiet \<Longrightarrow> fanout \<noteq> int (threadcount s) \<Longrightarrow>
    run_step fanout n s (start_thread n i s)"
| woken: "mpc s = Woken i \<Longrightarrow> spc s = Quiet \<Longrightarrow> run_step fanout n s (start_thread n i s)"
| started: "mpc s = Loop i \<Longrightarrow> n \<le> i \<Longrightarrow> run_step fanout n s (s\<lparr>mpc := Join\<rparr>)"
| join_wait: "mpc s = Join \<Longrightarrow> spc s = Quiet \<Longrightarrow> 0 < threadcount s \<Longrightarrow> run_step fanout n s (s\<lparr>mpc := JoinWait\<rparr>)"
| joined: "mpc s = Join \<Longrightarrow> spc s = Quiet \<Longrightarrow> threadcount s = 0 \<Longrightarrow> run_step fanout n s (s\<lparr>mpc := MainDone\<rparr>)"
| connect: "wpc s i = Created \<Longrightarrow> run_step fanout n s (thread_sets DSH_RCMD Connecting i s)"
| refused: "wpc s i = Connecting \<Longrightarrow> run_step fanout n s (thread_sets DSH_FAILED Finishing i s)"
| accepted: "wpc s i = Connecting \<Longrightarrow> run_step fanout n s (connected i s)"
| decided: "wpc s i = Deciding \<Longrightarrow> run_step fanout n s (connect_decides i s)"
| finished: "wpc s i = Reading \<Longrightarrow> r = DSH_DONE \<or> r = DSH_FAILED \<Longrightarrow>
    run_step fanout n s (thread_sets r Finishing i s)"
| skipped: "wpc s i = Skipping \<Longrightarrow> run_step fanout n s (thread_sets DSH_DONE Finishing i s)"
| ended: "wpc s i = Finishing \<Longrightarrow> spc s = Quiet \<Longrightarrow> run_step fanout n s (end_thread i s)"
| scan: "spc s = Scan k \<Longrightarrow> k < n \<Longrightarrow> run_step fanout n s (test_entry k s)"
| mark: "spc s = Mark k \<Longrightarrow> run_step fanout n s (cancel_entry k s)"
| scanned: "spc s = Scan k \<Longrightarrow> n \<le> k \<Longrightarrow> run_step fanout n s (s\<lparr>spc := Quiet\<rparr>)"

text \<open>
  The events from outside: a request to cancel may arrive at any time, and each of the two
  calls of \<open>pthread_cond_wait\<close> may return without a signal.
\<close>

datatype outside_event = CancelRequest | SpuriousWakeup | SpuriousJoin

inductive outside_step :: "outside_event \<Rightarrow> dsh_state \<Rightarrow> dsh_state \<Rightarrow> bool" where
  cancel: "spc s = Quiet \<Longrightarrow> outside_step CancelRequest s (s\<lparr>spc := Scan 0\<rparr>)"
| wakeup: "mpc s = Wait i \<Longrightarrow> spc s = Quiet \<Longrightarrow> outside_step SpuriousWakeup s (s\<lparr>mpc := Woken i\<rparr>)"
| join_wakeup: "mpc s = JoinWait \<Longrightarrow> spc s = Quiet \<Longrightarrow> outside_step SpuriousJoin s (s\<lparr>mpc := Join\<rparr>)"

text \<open>
  The states in which a run of \<open>dsh()\<close> may be after \<open>m\<close> steps of the program and the
  events \<open>es\<close>, when \<open>norcmd\<close> are the hosts whose \<open>rcmd_create\<close> failed
\<close>

inductive reachable :: "int \<Rightarrow> nat \<Rightarrow> (nat \<Rightarrow> bool) \<Rightarrow> nat \<Rightarrow> outside_event list \<Rightarrow> dsh_state \<Rightarrow> bool"
  for fanout n norcmd where
  start: "reachable fanout n norcmd 0 [] (dsh_init norcmd)"
| run: "reachable fanout n norcmd m es s \<Longrightarrow> run_step fanout n s t \<Longrightarrow> reachable fanout n norcmd (Suc m) es t"
| outside: "reachable fanout n norcmd m es s \<Longrightarrow> outside_step e s t \<Longrightarrow> reachable fanout n norcmd m (es @ [e]) t"

inductive_cases run_step_from: "run_step fanout n s t"
inductive_cases outside_from: "outside_step e s t"

section \<open>What holds in every reachable state\<close>

definition active :: "(nat \<Rightarrow> thread_pc) \<Rightarrow> nat set" where
  "active w = {i. w i \<noteq> Idle \<and> w i \<noteq> Gone}"

text \<open>The hosts before this one have been dealt with.\<close>

fun main_pos :: "nat \<Rightarrow> main_pc \<Rightarrow> nat" where
  "main_pos n (Loop i) = min i n"
| "main_pos n (Wait i) = i"
| "main_pos n (Woken i) = i"
| "main_pos n _ = n"

text \<open>How a thread and its entry in the array agree\<close>

fun entry_ok :: "thread_pc \<Rightarrow> state_t \<Rightarrow> bool" where
  "entry_ok Idle st = (st = DSH_NEW \<or> st = DSH_CANCELED)"
| "entry_ok Created st = (st = DSH_NEW \<or> st = DSH_CANCELED)"
| "entry_ok Connecting st = (st = DSH_RCMD \<or> st = DSH_CANCELED)"
| "entry_ok Deciding st = (st = DSH_READING \<or> st = DSH_CANCELED)"
| "entry_ok Reading st = (st = DSH_READING \<or> st = DSH_CANCELED)"
| "entry_ok Skipping st = (st = DSH_CANCELED)"
| "entry_ok Finishing st = (st = DSH_DONE \<or> st = DSH_FAILED \<or> st = DSH_CANCELED)"
| "entry_ok Gone st = (st = DSH_DONE \<or> st = DSH_FAILED \<or> st = DSH_CANCELED)"

lemma entry_ok_canceled [simp]: "entry_ok x DSH_CANCELED"
  by (cases x) simp_all

definition sched_inv :: "nat \<Rightarrow> dsh_state \<Rightarrow> bool" where
  "sched_inv n s \<longleftrightarrow>
     threadcount s = card (active (wpc s)) \<and>
     (\<forall>i. main_pos n (mpc s) \<le> i \<longrightarrow> wpc s i = Idle) \<and>
     (\<forall>i<main_pos n (mpc s). wpc s i = Idle \<longrightarrow> wst s i = DSH_CANCELED) \<and>
     (\<forall>i. entry_ok (wpc s i) (wst s i)) \<and>
     main_pos n (mpc s) \<le> n \<and> (mpc s = MainDone \<longrightarrow> threadcount s = 0) \<and>
     (\<forall>k. spc s = Mark k \<longrightarrow> k < n)"

text \<open>
  What the signals on the condition variable add: whoever waits has a thread to wait for; and
  the bound, which counts on no wakeup without a signal
\<close>

definition wait_inv :: "int \<Rightarrow> dsh_state \<Rightarrow> bool" where
  "wait_inv fanout s \<longleftrightarrow>
     (case mpc s of Wait i \<Rightarrow> int (threadcount s) = fanout | JoinWait \<Rightarrow> 0 < threadcount s | _ \<Rightarrow> True)"

definition room_inv :: "int \<Rightarrow> dsh_state \<Rightarrow> bool" where
  "room_inv fanout s \<longleftrightarrow> int (threadcount s) \<le> fanout \<and>
     (case mpc s of Woken i \<Rightarrow> int (threadcount s) < fanout | _ \<Rightarrow> True)"

text \<open>What holds as long as no request to cancel has arrived, of a host whose \<open>rcmd_create\<close> did not fail\<close>

definition calm_inv :: "(nat \<Rightarrow> bool) \<Rightarrow> dsh_state \<Rightarrow> bool" where
  "calm_inv norcmd s \<longleftrightarrow> spc s = Quiet \<and> (\<forall>i. wst s i = DSH_CANCELED \<longrightarrow> norcmd i)"

definition bad_inv :: "(nat \<Rightarrow> bool) \<Rightarrow> dsh_state \<Rightarrow> bool" where
  "bad_inv norcmd s \<longleftrightarrow> (\<forall>i. norcmd i \<longrightarrow> wpc s i = Idle \<and> wst s i = DSH_CANCELED)"

lemma sched_invD:
  assumes "sched_inv n s"
  shows "threadcount s = card (active (wpc s))" "\<And>i. main_pos n (mpc s) \<le> i \<Longrightarrow> wpc s i = Idle"
    "\<And>i. i < main_pos n (mpc s) \<Longrightarrow> wpc s i = Idle \<Longrightarrow> wst s i = DSH_CANCELED"
    "\<And>i. entry_ok (wpc s i) (wst s i)" "main_pos n (mpc s) \<le> n"
    "mpc s = MainDone \<Longrightarrow> threadcount s = 0" "\<And>k. spc s = Mark k \<Longrightarrow> k < n"
  using assms by (auto simp: sched_inv_def)

lemma finite_active:
  assumes "sched_inv n s"
  shows "finite (active (wpc s))"
proof (rule finite_subset)
  show "active (wpc s) \<subseteq> {..<main_pos n (mpc s)}"
  proof
    fix i assume "i \<in> active (wpc s)"
    then have "wpc s i \<noteq> Idle" by (simp add: active_def)
    then show "i \<in> {..<main_pos n (mpc s)}" using sched_invD(2) [OF assms, of i] by (meson lessThan_iff not_le)
  qed
qed simp

lemma active_move: "w i \<noteq> Idle \<Longrightarrow> w i \<noteq> Gone \<Longrightarrow> x \<noteq> Idle \<Longrightarrow> x \<noteq> Gone \<Longrightarrow> active (w(i := x)) = active w"
  by (auto simp: active_def)

lemma active_new: "w i = Idle \<Longrightarrow> active (w(i := Created)) = insert i (active w) \<and> i \<notin> active w"
  by (auto simp: active_def)

lemma active_gone: "active (w(i := Gone)) = active w - {i}"
  by (auto simp: active_def)

lemma skip_canceled_spec:
  assumes "i \<le> n"
  shows "i \<le> skip_canceled st n i \<and> skip_canceled st n i \<le> n \<and>
    (\<forall>k. i \<le> k \<longrightarrow> k < skip_canceled st n i \<longrightarrow> st k = DSH_CANCELED) \<and>
    (skip_canceled st n i < n \<longrightarrow> st (skip_canceled st n i) \<noteq> DSH_CANCELED)"
  using assms
proof (induction st n i rule: skip_canceled.induct)
  case (1 st n i)
  show ?case
  proof (cases "st i = DSH_CANCELED \<and> i < n")
    case True
    then have e: "skip_canceled st n i = skip_canceled st n (Suc i)" by (subst skip_canceled.simps) simp
    have "st k = DSH_CANCELED" if "i \<le> k" "k < skip_canceled st n (Suc i)" for k
      using that 1 True by (cases "k = i") auto
    then show ?thesis using 1 True unfolding e by auto
  next
    case False
    then have "skip_canceled st n i = i" by (subst skip_canceled.simps) auto
    then show ?thesis using 1 False by auto
  qed
qed

lemma start_thread_inv:
  assumes "sched_inv n s" "mpc s = Loop i \<or> mpc s = Woken i" "i < n \<or> mpc s = Woken i"
  shows "sched_inv n (start_thread n i s)"
proof -
  note I = sched_invD [OF assms(1)]
  have i: "main_pos n (mpc s) = i" "i \<le> n" using assms(2,3) I(5) by auto
  define j where "j = skip_canceled (wst s) n i"
  note J = skip_canceled_spec [OF i(2), of "wst s", folded j_def]
  have idle: "wpc s k = Idle" if "i \<le> k" for k using I(2) i(1) that by simp
  have before: "wst s k = DSH_CANCELED" if "k < j" "wpc s k = Idle" for k
    using that I(3) [of k] J i(1) by (cases "k < i") auto
  show ?thesis
  proof (cases "n \<le> j")
    case True
    then have "start_thread n i s = s\<lparr>mpc := Join\<rparr>" by (simp add: start_thread_def Let_def j_def)
    moreover have "j = n" using True J by simp
    ultimately show ?thesis using I(1,4,7) idle before i(2) by (simp add: sched_inv_def)
  next
    case False
    then have st: "start_thread n i s = s\<lparr>mpc := Loop (Suc j), wpc := (wpc s)(j := Created), threadcount := threadcount s + 1\<rparr>"
      by (simp add: start_thread_def Let_def j_def)
    have ij: "wpc s j = Idle" using idle J by simp
    have "wst s j = DSH_NEW" using I(4) [of j] ij J False by simp
    moreover have "card (active ((wpc s)(j := Created))) = threadcount s + 1"
      using active_new [of "wpc s" j, OF ij] finite_active [OF assms(1)] I(1) by simp
    ultimately show ?thesis
      using I(4,7) idle before J False by (auto simp: sched_inv_def st less_Suc_eq)
  qed
qed

lemma thread_move_inv:
  assumes "sched_inv n s" "wpc s i \<noteq> Idle" "wpc s i \<noteq> Gone" "x \<noteq> Idle" "x \<noteq> Gone" "entry_ok x st"
  shows "sched_inv n (thread_sets st x i s)"
proof -
  note I = sched_invD [OF assms(1)]
  have "active ((wpc s)(i := x)) = active (wpc s)" by (rule active_move) (use assms in auto)
  moreover have "i < main_pos n (mpc s)" using I(2) [of i] assms(2) by (meson not_le)
  ultimately show ?thesis using I assms(4,6) by (auto simp: sched_inv_def thread_sets_def)
qed

lemma connect_decides_inv:
  assumes "sched_inv n s" "wpc s i = Deciding"
  shows "sched_inv n (connect_decides i s)"
proof -
  have "entry_ok Deciding (wst s i)" using sched_invD(4) [OF assms(1), of i] assms(2) by simp
  then have "sched_inv n (thread_sets (wst s i) (if wst s i = DSH_CANCELED then Skipping else Reading) i s)"
    by (intro thread_move_inv) (use assms in auto)
  then show ?thesis by (simp add: thread_sets_def connect_decides_def)
qed

lemma end_thread_inv:
  assumes "sched_inv n s" "wpc s i = Finishing"
  shows "sched_inv n (end_thread i s)"
proof -
  note I = sched_invD [OF assms(1)]
  have a: "i \<in> active (wpc s)" using assms(2) by (simp add: active_def)
  then have c: "card (active (wpc s) - {i}) = threadcount s - 1" using I(1) by simp
  have p: "main_pos n (mpc (end_thread i s)) = main_pos n (mpc s)"
    by (cases "mpc s") (simp_all add: end_thread_def)
  have "entry_ok Gone (wst s i)" using I(4) [of i] assms(2) by simp
  then have "\<forall>k. entry_ok (wpc (end_thread i s) k) (wst (end_thread i s) k)"
    using I(4) by (simp add: end_thread_def)
  moreover have "threadcount s \<noteq> 0" using a I(1) finite_active [OF assms(1)] by auto
  then have "mpc s \<noteq> MainDone" using I(6) by auto
  moreover have "i < main_pos n (mpc s)" using I(2) [of i] assms(2) by (cases "i < main_pos n (mpc s)") auto
  ultimately show ?thesis
    using I(2,3,5,7) c p by (auto simp: sched_inv_def end_thread_def active_gone split: main_pc.splits)
qed

lemma cancel_entry_inv:
  assumes "sched_inv n s"
  shows "sched_inv n (cancel_entry k s)"
  using sched_invD [OF assms] by (auto simp: sched_inv_def cancel_entry_def)

lemma test_entry_inv:
  assumes "sched_inv n s" "k < n"
  shows "sched_inv n (test_entry k s)"
  using sched_invD [OF assms(1)] assms(2) by (auto simp: sched_inv_def test_entry_def)

lemma run_step_inv: "run_step fanout n s t \<Longrightarrow> sched_inv n s \<Longrightarrow> sched_inv n t"
proof (induction rule: run_step.induct)
  case (room s i)
  then show ?case by (simp add: start_thread_inv)
next
  case (woken s i)
  then show ?case by (simp add: start_thread_inv)
next
  case (accepted s i)
  then show ?case unfolding connected_def by (intro thread_move_inv) auto
qed (auto intro: thread_move_inv end_thread_inv cancel_entry_inv test_entry_inv connect_decides_inv, auto simp: sched_inv_def)

lemma outside_step_inv: "outside_step e s t \<Longrightarrow> sched_inv n s \<Longrightarrow> sched_inv n t"
  by (induction rule: outside_step.induct) (auto simp: sched_inv_def)

lemma dsh_init_inv: "sched_inv n (dsh_init norcmd)"
  by (simp add: sched_inv_def dsh_init_def active_def)

lemma reachable_inv: "reachable fanout n norcmd m es s \<Longrightarrow> sched_inv n s"
  by (induction rule: reachable.induct) (auto intro: dsh_init_inv run_step_inv outside_step_inv)

lemma ended_running:
  assumes "sched_inv n s" "wpc s i = Finishing"
  shows "0 < threadcount s"
proof -
  have "i \<in> active (wpc s)" using assms(2) by (simp add: active_def)
  then show ?thesis using sched_invD(1) [OF assms(1)] finite_active [OF assms(1)] by (auto simp: card_gt_0_iff)
qed

lemmas step_defs = start_thread_def connected_def connect_decides_def thread_sets_def test_entry_def cancel_entry_def Let_def

lemma run_step_wait: "run_step fanout n s t \<Longrightarrow> wait_inv fanout s \<Longrightarrow> wait_inv fanout t"
proof (induction rule: run_step.induct)
  case (ended s i)
  then show ?case by (cases "mpc s") (auto simp: wait_inv_def end_thread_def)
qed (auto simp: wait_inv_def step_defs split: main_pc.splits)

lemma reachable_wait: "reachable fanout n norcmd m es s \<Longrightarrow> wait_inv fanout s"
proof (induction rule: reachable.induct)
  case (outside m es s e t)
  from outside(2,3) show ?case by (induction rule: outside_step.induct) (simp_all add: wait_inv_def split: main_pc.splits)
next
  case (run m es s t)
  then show ?case using run_step_wait by blast
qed (simp add: wait_inv_def dsh_init_def)

lemma run_step_room:
  assumes "run_step fanout n s t" "sched_inv n s" "wait_inv fanout s" "room_inv fanout s" "0 < fanout"
  shows "room_inv fanout t"
  using assms
proof (induction rule: run_step.induct)
  case (ended s i)
  then show ?case using ended_running [OF ended(3,1)]
    by (cases "mpc s") (auto simp: room_inv_def wait_inv_def end_thread_def)
qed (auto simp: room_inv_def step_defs split: main_pc.splits)

lemma reachable_room:
  "reachable fanout n norcmd m es s \<Longrightarrow> 0 < fanout \<Longrightarrow> SpuriousWakeup \<notin> set es \<Longrightarrow> room_inv fanout s"
proof (induction rule: reachable.induct)
  case (run m es s t)
  then show ?case using run_step_room reachable_inv reachable_wait by blast
next
  case (outside m es s e t)
  from outside(2) have "e \<noteq> SpuriousWakeup \<Longrightarrow> room_inv fanout s \<Longrightarrow> room_inv fanout t"
    by (induction rule: outside_step.induct) (simp_all add: room_inv_def split: main_pc.splits)
  then show ?case using outside by auto
qed (simp add: room_inv_def dsh_init_def)

lemma start_thread_bad:
  assumes "sched_inv n s" "mpc s = Loop i \<or> mpc s = Woken i" "i < n \<or> mpc s = Woken i" "bad_inv norcmd s"
  shows "bad_inv norcmd (start_thread n i s)"
proof -
  have i: "i \<le> n" using assms(2,3) sched_invD(5) [OF assms(1)] by auto
  show ?thesis using assms(4) skip_canceled_spec [OF i, of "wst s"] by (auto simp: bad_inv_def start_thread_def Let_def)
qed

lemma reachable_bad: "reachable fanout n norcmd m es s \<Longrightarrow> bad_inv norcmd s"
proof (induction rule: reachable.induct)
  case (run m es s t)
  from run(2,3) reachable_inv [OF run(1)] show ?case
  proof (induction rule: run_step.induct)
    case (room s i)
    then show ?case by (simp add: start_thread_bad)
  next
    case (woken s i)
    then show ?case by (simp add: start_thread_bad)
  qed (auto simp: bad_inv_def step_defs end_thread_def)
next
  case (outside m es s e t)
  from outside(2,3) show ?case by (induction rule: outside_step.induct) (simp_all add: bad_inv_def)
qed (simp add: bad_inv_def dsh_init_def)

lemma reachable_calm: "reachable fanout n norcmd m es s \<Longrightarrow> CancelRequest \<notin> set es \<Longrightarrow> calm_inv norcmd s"
proof (induction rule: reachable.induct)
  case (run m es s t)
  have c: "calm_inv norcmd s" using run by simp
  from run(2) c show ?case
    by (induction rule: run_step.induct) (auto simp: calm_inv_def step_defs end_thread_def split: if_splits)
next
  case (outside m es s e t)
  from outside(2) have "e \<noteq> CancelRequest \<Longrightarrow> calm_inv norcmd s \<Longrightarrow> calm_inv norcmd t"
    by (induction rule: outside_step.induct) (simp_all add: calm_inv_def)
  then show ?case using outside by auto
qed (simp add: calm_inv_def dsh_init_def)

section \<open>Every run ends\<close>

fun thread_rank :: "thread_pc \<Rightarrow> nat" where
  "thread_rank Idle = 6"
| "thread_rank Created = 5"
| "thread_rank Connecting = 4"
| "thread_rank Deciding = 3"
| "thread_rank Reading = 2"
| "thread_rank Skipping = 2"
| "thread_rank Finishing = 1"
| "thread_rank Gone = 0"

fun main_rank :: "nat \<Rightarrow> main_pc \<Rightarrow> nat" where
  "main_rank n (Loop i) = 4 * (n - i) + 4"
| "main_rank n (Woken i) = 4 * (n - i) + 3"
| "main_rank n (Wait i) = 4 * (n - i) + 2"
| "main_rank n Join = 2"
| "main_rank n JoinWait = 1"
| "main_rank n MainDone = 0"

fun scan_rank :: "nat \<Rightarrow> signals_pc \<Rightarrow> nat" where
  "scan_rank n Quiet = 0"
| "scan_rank n (Scan k) = 2 * (n - k) + 1"
| "scan_rank n (Mark k) = 2 * (n - k)"

text \<open>A bound on the steps that are left when no more signals arrive\<close>

definition steps_left :: "nat \<Rightarrow> dsh_state \<Rightarrow> nat" where
  "steps_left n s = 2 * (\<Sum>i<n. thread_rank (wpc s i)) + main_rank n (mpc s) + scan_rank n (spc s)"

lemma rank_sum_less:
  fixes w :: "nat \<Rightarrow> thread_pc"
  assumes "i < n" "thread_rank x < thread_rank (w i)"
  shows "(\<Sum>k<n. thread_rank ((w(i := x)) k)) < (\<Sum>k<n. thread_rank (w k))"
  by (rule sum_strict_mono_ex1) (use assms in \<open>auto intro!: bexI [of _ i]\<close>)

lemma thread_in_range:
  assumes "sched_inv n s" "wpc s i \<noteq> Idle"
  shows "i < n"
proof (rule ccontr)
  assume "\<not> i < n"
  then have "main_pos n (mpc s) \<le> i" using sched_invD(5) [OF assms(1)] by simp
  then show False using sched_invD(2) [OF assms(1)] assms(2) by blast
qed

lemma thread_step_less:
  assumes "sched_inv n s" "wpc s i \<noteq> Idle" "thread_rank x < thread_rank (wpc s i)"
    and "wpc t = (wpc s)(i := x)" "main_rank n (mpc t) \<le> main_rank n (mpc s) + 1" "spc t = spc s"
  shows "steps_left n t < steps_left n s"
  using rank_sum_less [where w = "wpc s", OF thread_in_range [OF assms(1,2)] assms(3)] assms(4-6)
  by (simp add: steps_left_def del: fun_upd_apply)

lemma start_thread_less:
  assumes "sched_inv n s" "i \<le> n" "main_pos n (mpc s) = i" "4 * (n - i) + 3 \<le> main_rank n (mpc s)"
  shows "steps_left n (start_thread n i s) < steps_left n s"
proof -
  define j where "j = skip_canceled (wst s) n i"
  note J = skip_canceled_spec [OF assms(2), of "wst s", folded j_def]
  show ?thesis
  proof (cases "n \<le> j")
    case True
    then show ?thesis using assms(4) by (simp add: start_thread_def Let_def j_def [symmetric] steps_left_def)
  next
    case False
    have "wpc s j = Idle" using sched_invD(2) [OF assms(1)] assms(3) J by simp
    then have "(\<Sum>k<n. thread_rank (((wpc s)(j := Created)) k)) < (\<Sum>k<n. thread_rank (wpc s k))"
      by (intro rank_sum_less) (use False in simp_all)
    moreover have "4 * (n - Suc j) + 4 \<le> 4 * (n - i)" using J False by arith
    then have "main_rank n (Loop (Suc j)) \<le> main_rank n (mpc s)" using assms(4) by simp
    ultimately show ?thesis
      using False by (simp add: start_thread_def Let_def j_def [symmetric] steps_left_def del: fun_upd_apply)
  qed
qed

lemma run_step_less: "run_step fanout n s t \<Longrightarrow> sched_inv n s \<Longrightarrow> steps_left n t < steps_left n s"
proof (induction rule: run_step.induct)
  case (room s i)
  then show ?case by (intro start_thread_less) simp_all
next
  case (woken s i)
  then show ?case using sched_invD(5) [of n s] by (intro start_thread_less) simp_all
next
  case (accepted s i)
  then show ?case by (intro thread_step_less [of n s i Deciding]) (simp_all add: connected_def thread_sets_def)
next
  case (decided s i)
  then show ?case
    by (intro thread_step_less [of n s i "if wst s i = DSH_CANCELED then Skipping else Reading"])
      (simp_all add: connect_decides_def)
next
  case (ended s i)
  then show ?case
    by (intro thread_step_less [of n s i Gone]) (auto simp: end_thread_def split: main_pc.splits)
next
  case (connect s i)
  then show ?case by (intro thread_step_less [of n s i Connecting]) (simp_all add: thread_sets_def)
next
  case (refused s i)
  then show ?case by (intro thread_step_less [of n s i Finishing]) (simp_all add: thread_sets_def)
next
  case (finished s i r)
  then show ?case by (intro thread_step_less [of n s i Finishing]) (simp_all add: thread_sets_def)
next
  case (skipped s i)
  then show ?case by (intro thread_step_less [of n s i Finishing]) (simp_all add: thread_sets_def)
next
  case (mark s k)
  then have "k < n" using sched_invD(7) by blast
  then show ?case using mark by (simp add: steps_left_def cancel_entry_def)
next
  case (scan s k)
  then have "n - Suc k < n - k" by arith
  then show ?case using scan by (simp add: steps_left_def test_entry_def)
qed (simp_all add: steps_left_def)

text \<open>A request to cancel or a wakeup adds at most as much as one walk over the array takes.\<close>

lemma outside_step_adds: "outside_step e s t \<Longrightarrow> steps_left n t \<le> steps_left n s + 2 * n + 1"
  by (induction rule: outside_step.induct) (simp_all add: steps_left_def)

lemma steps_left_init: "steps_left n (dsh_init norcmd) = 16 * n + 4"
  by (simp add: steps_left_def dsh_init_def)

lemma steps_bounded:
  "reachable fanout n norcmd m es s \<Longrightarrow> m + steps_left n s \<le> 16 * n + 4 + (2 * n + 1) * length es"
proof (induction rule: reachable.induct)
  case (run m es s t)
  then show ?case using run_step_less [OF run(2) reachable_inv [OF run(1)]] by simp
next
  case (outside m es s e t)
  then show ?case using outside_step_adds [OF outside(2), of n] by (simp add: algebra_simps)
qed (simp add: steps_left_init)

lemma thread_can_move:
  assumes "i \<in> active (wpc s)" "spc s = Quiet"
  shows "\<exists>t. run_step fanout n s t"
proof -
  have i: "wpc s i \<noteq> Idle" "wpc s i \<noteq> Gone" using assms(1) by (simp_all add: active_def)
  show ?thesis
  proof (cases "wpc s i")
    case Created
    then show ?thesis by (blast intro: run_step.connect)
  next
    case Connecting
    then show ?thesis by (blast intro: run_step.refused)
  next
    case Deciding
    then show ?thesis by (blast intro: run_step.decided)
  next
    case Reading
    then show ?thesis by (blast intro: run_step.finished)
  next
    case Skipping
    then show ?thesis by (blast intro: run_step.skipped)
  next
    case Finishing
    then show ?thesis using assms(2) by (blast intro: run_step.ended)
  qed (use i in auto)
qed

lemma progress:
  assumes "reachable fanout n norcmd m es s" "0 < fanout" "mpc s \<noteq> MainDone"
  shows "\<exists>t. run_step fanout n s t"
proof (cases "spc s")
  case (Scan k)
  then show ?thesis by (metis run_step.scan run_step.scanned not_le)
next
  case (Mark k)
  then show ?thesis by (blast intro: run_step.mark)
next
  case Quiet
  note I = sched_invD [OF reachable_inv [OF assms(1)]] and R = reachable_wait [OF assms(1)]
  have busy: "\<exists>t. run_step fanout n s t" if "0 < threadcount s"
  proof -
    have "active (wpc s) \<noteq> {}" using that I(1) by auto
    then show ?thesis using thread_can_move Quiet by blast
  qed
  show ?thesis
  proof (cases "mpc s")
    case (Loop i)
    then show ?thesis using Quiet
      by (cases "i < n"; cases "fanout = int (threadcount s)")
        (blast intro: run_step.full run_step.room run_step.started not_le_imp_less leI)+
  next
    case (Wait i)
    then show ?thesis using busy R assms(2) by (simp add: wait_inv_def)
  next
    case (Woken i)
    then show ?thesis using Quiet by (blast intro: run_step.woken)
  next
    case Join
    then show ?thesis using Quiet
      by (cases "threadcount s = 0") (auto intro: run_step.join_wait run_step.joined)
  next
    case JoinWait
    then show ?thesis using busy R by (simp add: wait_inv_def)
  qed (use assms(3) in simp)
qed

lemma all_handled:
  assumes "reachable fanout n norcmd m es s" "mpc s = MainDone" "i < n"
  shows "wpc s i = Gone \<and> wst s i \<in> {DSH_DONE, DSH_FAILED, DSH_CANCELED} \<or>
    wpc s i = Idle \<and> wst s i = DSH_CANCELED"
proof -
  note inv = reachable_inv [OF assms(1)]
  note I = sched_invD [OF inv]
  have "active (wpc s) = {}" using I(1,6) assms(2) finite_active [OF inv] by simp
  then have "wpc s i = Idle \<or> wpc s i = Gone" by (auto simp: active_def)
  then show ?thesis using I(3) [of i] I(4) [of i] assms(2,3) by auto
qed

section \<open>When the bound fails\<close>

text \<open>The state in which the first \<open>k\<close> threads have been created and have not yet run\<close>

definition started :: "nat \<Rightarrow> dsh_state" where
  "started k = \<lparr>mpc = Loop k, wpc = \<lambda>i. if i < k then Created else Idle, wst = \<lambda>_. DSH_NEW,
     threadcount = k, spc = Quiet\<rparr>"

lemma started_0: "started 0 = dsh_init (\<lambda>_. False)"
  by (simp add: started_def dsh_init_def)

lemma start_thread_started:
  assumes "k < n"
  shows "start_thread n k ((started k)\<lparr>mpc := m\<rparr>) = started (Suc k)"
proof -
  have "skip_canceled (\<lambda>_. DSH_NEW) n k = k" by (subst skip_canceled.simps) simp
  then show ?thesis using assms by (auto simp: start_thread_def started_def fun_eq_iff)
qed

lemma started_step:
  assumes "k < n" "fanout \<noteq> int k"
  shows "run_step fanout n (started k) (started (Suc k))"
proof -
  have "run_step fanout n (started k) (start_thread n k (started k))"
    by (rule run_step.room) (use assms in \<open>simp_all add: started_def\<close>)
  then show ?thesis using start_thread_started [OF assms(1), of "Loop k"] by (simp add: started_def)
qed

lemma started_steps:
  assumes "k \<le> m" "m \<le> n" "\<forall>j. k \<le> j \<and> j < m \<longrightarrow> fanout \<noteq> int j"
  shows "(run_step fanout n)\<^sup>*\<^sup>* (started k) (started m)"
  using assms
proof (induction m)
  case (Suc m)
  show ?case
  proof (cases "k = Suc m")
    case False
    then have "(run_step fanout n)\<^sup>*\<^sup>* (started k) (started m)" using Suc by simp
    moreover have "run_step fanout n (started m) (started (Suc m))" using Suc.prems False by (intro started_step) auto
    ultimately show ?thesis by (rule rtranclp.rtrancl_into_rtrancl)
  qed simp
qed simp

lemma reachable_runs:
  "(run_step fanout n)\<^sup>*\<^sup>* s t \<Longrightarrow> reachable fanout n norcmd m es s \<Longrightarrow> \<exists>m'. reachable fanout n norcmd m' es t"
  by (induction rule: rtranclp_induct) (auto intro: reachable.run)

lemma active_started: "active (wpc (started k)) = {..<k}"
  by (auto simp: active_def started_def)

lemma started_reachable:
  assumes "m \<le> n" "\<forall>j<m. fanout \<noteq> int j"
  shows "\<exists>k. reachable fanout n (\<lambda>_. False) k [] (started m)"
  using reachable_runs [OF started_steps [of 0 m n fanout]] assms reachable.start [of fanout n "\<lambda>_. False"]
  by (auto simp: started_0)

text \<open>With as many threads as \<open>fanout\<close>, the main thread waits.\<close>

lemma waiting_reachable:
  assumes "k < n"
  shows "\<exists>m. reachable (int k) n (\<lambda>_. False) m [] ((started k)\<lparr>mpc := Wait k\<rparr>)"
proof -
  obtain m where "reachable (int k) n (\<lambda>_. False) m [] (started k)"
    using started_reachable [of k n "int k"] assms by auto
  moreover have "run_step (int k) n (started k) ((started k)\<lparr>mpc := Wait k\<rparr>)"
    by (rule run_step.full) (use assms in \<open>simp_all add: started_def\<close>)
  ultimately show ?thesis by (blast intro: reachable.run)
qed

text \<open>With a fan-out of zero there is no thread whose end could wake it.\<close>

lemma stuck_zero: "\<not> run_step 0 n ((started 0)\<lparr>mpc := Wait 0\<rparr>) t"
  by (auto simp: started_def elim: run_step_from)

text \<open>
  The main thread tests for room with \<open>if\<close>, not \<open>while\<close>, and for equality: after
  one wakeup without a signal, which POSIX allows, there is one thread too many, and then the
  test never holds again, so all remaining hosts are started at once.
\<close>

lemma overrun_runs:
  assumes "k < n"
  shows "(run_step (int k) n)\<^sup>*\<^sup>* ((started k)\<lparr>mpc := Woken k\<rparr>) (started n)"
proof -
  have "run_step (int k) n ((started k)\<lparr>mpc := Woken k\<rparr>) (start_thread n k ((started k)\<lparr>mpc := Woken k\<rparr>))"
    by (rule run_step.woken) (simp_all add: started_def)
  then have "run_step (int k) n ((started k)\<lparr>mpc := Woken k\<rparr>) (started (Suc k))"
    using start_thread_started [OF assms] by simp
  moreover have "(run_step (int k) n)\<^sup>*\<^sup>* (started (Suc k)) (started n)"
    by (rule started_steps) (use assms in auto)
  ultimately show ?thesis by (rule converse_rtranclp_into_rtranclp)
qed

lemma spurious_waiting: "outside_step SpuriousWakeup ((started k)\<lparr>mpc := Wait k\<rparr>) ((started k)\<lparr>mpc := Woken k\<rparr>)"
  using outside_step.wakeup [of "(started k)\<lparr>mpc := Wait k\<rparr>" k] by (simp add: started_def)

lemma overrun_reachable:
  assumes "k < n"
  shows "\<exists>m. reachable (int k) n (\<lambda>_. False) m [SpuriousWakeup] (started n)"
proof -
  obtain m where "reachable (int k) n (\<lambda>_. False) m [] ((started k)\<lparr>mpc := Wait k\<rparr>)"
    using waiting_reachable [OF assms] by blast
  from reachable.outside [OF this spurious_waiting]
  have "reachable (int k) n (\<lambda>_. False) m [SpuriousWakeup] ((started k)\<lparr>mpc := Woken k\<rparr>)" by simp
  then show ?thesis using reachable_runs [OF overrun_runs [OF assms]] by blast
qed

section \<open>Races with a cancellation\<close>

text \<open>A state in which the only thread connects and the signals thread has tested its entry\<close>

definition racing :: dsh_state where
  "racing = thread_sets DSH_RCMD Connecting 0 ((started 1)\<lparr>spc := Mark 0\<rparr>)"

lemma racing_reachable: "\<exists>m. reachable 1 1 (\<lambda>_. False) m [CancelRequest] racing"
proof -
  obtain m where "reachable 1 1 (\<lambda>_. False) m [] (started 1)"
    using started_reachable [of 1 1 1] by auto
  moreover have "run_step 1 1 (started 1) (thread_sets DSH_RCMD Connecting 0 (started 1))" (is "run_step 1 1 _ ?c")
    by (rule run_step.connect) (simp add: started_def)
  ultimately have "reachable 1 1 (\<lambda>_. False) (Suc m) [] ?c" by (blast intro: reachable.run)
  moreover have "outside_step CancelRequest ?c (?c\<lparr>spc := Scan 0\<rparr>)"
    by (rule outside_step.cancel) (simp add: started_def thread_sets_def)
  ultimately have "reachable 1 1 (\<lambda>_. False) (Suc m) [CancelRequest] (?c\<lparr>spc := Scan 0\<rparr>)"
    using reachable.outside [of 1 1 "\<lambda>_. False" "Suc m" "[]" ?c] by simp
  moreover have "run_step 1 1 (?c\<lparr>spc := Scan 0\<rparr>) (test_entry 0 (?c\<lparr>spc := Scan 0\<rparr>))"
    by (rule run_step.scan) simp_all
  then have "run_step 1 1 (?c\<lparr>spc := Scan 0\<rparr>) racing"
    by (simp add: racing_def test_entry_def thread_sets_def started_def)
  ultimately show ?thesis by (blast intro: reachable.run)
qed

end
