(* ===== verification/Pipecmd.thy ===== *)
theory Pipecmd
  imports Opt_Args
begin

text \<open>
  Remote commands that are programs of this system (\<open>common/pipecmd.c\<close>), and the two
  modules that use them: \<open>modules/execcmd.c\<close>, which runs any command for each host, and
  \<open>modules/sshcmd.c\<close>, which runs \<open>ssh\<close>. What the calls of the system give is a
  parameter.
\<close>

section \<open>Arguments\<close>

text \<open>\<open>struct pipe_info_struct\<close>; an argument is the null pointer when it is empty.\<close>

record pipe_info =
  pipath :: string
  picmd :: string
  pitarget :: string
  piuser :: string
  pirank :: int
  piargs :: "string option list"
  pipid :: int
  pifd :: int
  piefd :: int

definition pipe_info_create :: "string \<Rightarrow> string \<Rightarrow> string \<Rightarrow> int \<Rightarrow> pipe_info" where
  "pipe_info_create path target user rank =
    \<lparr>pipath = path, picmd = xbasename path, pitarget = target, piuser = user, pirank = rank,
     piargs = [], pipid = 0, pifd = -1, piefd = -1\<rparr>"

text \<open>
  The loop of \<open>pipecmd_format_arg\<close>; \<open>None\<close> when it steps over the end of the
  argument, which happens when that ends with a percent sign.
\<close>

fun format_loop :: "pipe_info \<Rightarrow> string \<Rightarrow> xstr option \<Rightarrow> xstr option option" where
  "format_loop e [] str = Some str"
| "format_loop e [c] str = (if c = CHR ''%'' then None else Some (Some (xstrcatchar str c)))"
| "format_loop e (c # d # s) str =
    (if c = CHR ''%'' then
       if d = CHR ''h'' then format_loop e s (Some (xstrcat str (pitarget e)))
       else if d = CHR ''u'' then format_loop e s (Some (xstrcat str (piuser e)))
       else if d = CHR ''n'' then format_loop e s (Some (xstrcat str (show_int 1 (pirank e))))
       else if d = CHR ''%'' then format_loop e s (Some (xstrcatchar str (CHR ''%'')))
       else format_loop e s (Some (xstrcatchar (Some (xstrcatchar str (CHR ''%''))) d))
     else format_loop e (d # s) (Some (xstrcatchar str c)))"

definition pipecmd_format_arg :: "pipe_info \<Rightarrow> string \<Rightarrow> string option option" where
  "pipecmd_format_arg e arg = map_option (map_option xtext) (format_loop e arg None)"

definition cmd_args_create :: "pipe_info \<Rightarrow> string list \<Rightarrow> string option list option" where
  "cmd_args_create e argv = map_option ((#) (Some (picmd e))) (those (map (pipecmd_format_arg e) argv))"

text \<open>What \<open>execvp\<close> takes from the array: the strings before the first null pointer.\<close>

definition exec_argv :: "string option list \<Rightarrow> string list" where
  "exec_argv args = map the (takeWhile (\<lambda>a. a \<noteq> None) args)"

section \<open>Starting and waiting\<close>

text \<open>The two pairs of sockets, and the process \<open>fork\<close> makes\<close>

record pipe_os =
  std_pair :: "(int \<times> int) option"
  err_pair :: "(int \<times> int) option"
  forked :: "int option"

definition pipecmd_start :: "pipe_os \<Rightarrow> (int \<times> int \<times> int) option" where
  "pipecmd_start os =
    (case std_pair os of
       None \<Rightarrow> None
     | Some (sp0, sp1) \<Rightarrow>
         (case err_pair os of
            None \<Rightarrow> None
          | Some (esp0, esp1) \<Rightarrow> map_option (\<lambda>pid. (sp0, esp0, pid)) (forked os)))"

text \<open>
  \<open>pipecmd\<close>: \<open>None\<close> when an argument cannot be formatted, and otherwise the process,
  if it was started; it executes \<open>pipath\<close> with the arguments \<open>exec_argv\<close> takes.
\<close>

definition pipecmd :: "pipe_os \<Rightarrow> string \<Rightarrow> string list \<Rightarrow> string \<Rightarrow> string \<Rightarrow> int \<Rightarrow> pipe_info option option" where
  "pipecmd os path args target user rank =
    (let p = pipe_info_create path target user rank
     in map_option
          (\<lambda>as. map_option (\<lambda>(fd, efd, pid). p\<lparr>piargs := as, pifd := fd, piefd := efd, pipid := pid\<rparr>) (pipecmd_start os))
          (cmd_args_create p args))"

definition pipecmd_stdoutfd :: "pipe_info option \<Rightarrow> int" where
  "pipecmd_stdoutfd p = (case p of None \<Rightarrow> -1 | Some p \<Rightarrow> pifd p)"

definition pipecmd_stderrfd :: "pipe_info option \<Rightarrow> int" where
  "pipecmd_stderrfd p = (case p of None \<Rightarrow> -1 | Some p \<Rightarrow> piefd p)"

text \<open>The status of a process: how it is read by the macros of \<open>sys/wait.h\<close>\<close>

definition WEXITSTATUS :: "nat \<Rightarrow> nat" where
  "WEXITSTATUS status = status div 256 mod 256"

definition WTERMSIG :: "nat \<Rightarrow> nat" where
  "WTERMSIG status = status mod 128"

definition WIFEXITED :: "nat \<Rightarrow> bool" where
  "WIFEXITED status \<longleftrightarrow> WTERMSIG status = 0"

definition WIFSIGNALED :: "nat \<Rightarrow> bool" where
  "WIFSIGNALED status \<longleftrightarrow> 0 < WTERMSIG status \<and> WTERMSIG status < 127"

text \<open>
  The result, the status and the messages of \<open>pipecmd_wait\<close>; \<open>waited\<close> is
  \<open>None\<close> when \<open>waitpid\<close> fails.
\<close>

definition pipecmd_wait :: "err_env \<Rightarrow> pipe_info option \<Rightarrow> nat option \<Rightarrow> int \<times> nat option \<times> string option list" where
  "pipecmd_wait env p waited =
    (case p of
       None \<Rightarrow> (-1, None, [])
     | Some p \<Rightarrow>
         let target = Str (pitarget p); name = Str (xbasename (pipath p));
             ws = (if waited = None then [verr env (''%p: %S: %s pid %ld: waitpid: %m'' @ [LF]) [target, name, Num (pipid p)]] else []);
             status = (case waited of None \<Rightarrow> 0 | Some s \<Rightarrow> s);
             ws = ws @
               (if status = 0 then []
                else if WIFEXITED status then
                  [verr env (''%p: %S: %s exited with exit code %d'' @ [LF]) [target, name, Num (int (WEXITSTATUS status))]]
                else if WIFSIGNALED status then
                  [verr env (''%p: %S: %s killed by signal %d'' @ [LF]) [target, name, Num (int (WTERMSIG status))]]
                else [verr env (''%p: %S: %s exited with nonzero status 0x%04x'' @ [LF]) [target, name, Num (int status)]])
         in (0, Some status, ws))"

definition pipecmd_signal :: "(int \<Rightarrow> int \<Rightarrow> int) \<Rightarrow> pipe_info option \<Rightarrow> int \<Rightarrow> int" where
  "pipecmd_signal kill p signo = (case p of None \<Rightarrow> -1 | Some p \<Rightarrow> kill (pipid p) signo)"

section \<open>The module \<open>exec\<close>\<close>

definition mod_exec_postop :: "options \<Rightarrow> int" where
  "mod_exec_postop opt =
    (if rcmd_name opt = Some ''exec'' \<and> connect_timeout opt \<noteq> CONNECT_TIMEOUT then 1 else 0)"

text \<open>Privileges are dropped, and the names of the hosts are not looked up.\<close>

definition exec_init :: "nat \<Rightarrow> nat \<Rightarrow> bool \<Rightarrow> rcmd_state \<Rightarrow> rcmd_state fate" where
  "exec_init euid uid setuid_ok st =
    (if euid = 0 \<and> uid \<noteq> 0 \<and> \<not> setuid_ok then Exits
     else case rcmd_opt_set st True False of (Inl _, _) \<Rightarrow> Exits | (Inr _, st) \<Rightarrow> Continues st)"

definition execcmd :: "pipe_os \<Rightarrow> string list \<Rightarrow> string \<Rightarrow> string \<Rightarrow> string \<Rightarrow> int \<Rightarrow> pipe_info option option" where
  "execcmd os remote_argv ahost remuser command rank =
    (let argv = (if remote_argv = [] then [''sh'', ''-c'', command] else remote_argv)
     in pipecmd os (hd argv) (tl argv) ahost remuser rank)"

definition exec_signal :: "(int \<Rightarrow> int \<Rightarrow> int) \<Rightarrow> pipe_info option \<Rightarrow> int \<Rightarrow> int" where
  "exec_signal kill p signum = pipecmd_signal kill p signum"

definition exec_destroy :: "err_env \<Rightarrow> pipe_info option \<Rightarrow> nat option \<Rightarrow> nat" where
  "exec_destroy env p waited =
    (case pipecmd_wait env p waited of
       (r, status, _) \<Rightarrow> if r < 0 then 1 else (case status of None \<Rightarrow> 1 | Some s \<Rightarrow> WEXITSTATUS s))"

section \<open>The module \<open>ssh\<close>\<close>

text \<open>
  The arguments are kept in a list of \<open>list.c\<close>, here as its sequence; \<open>tokens\<close> is
  what \<open>list_split\<close> leaves in a list.
\<close>

definition DEFAULT_SSH_ARGS :: string where
  "DEFAULT_SSH_ARGS = ''-2 -a -x %h''"

definition sshcmd_args_init :: "host_env \<Rightarrow> string list" where
  "sshcmd_args_init sys =
    (let str = (case getenv sys ''PDSH_SSH_ARGS_APPEND'' of
                  None \<Rightarrow> None
                | Some val \<Rightarrow> Some (xstrcatchar (Strdup (Some val)) (CHR '' '')));
         val = (case getenv sys ''PDSH_SSH_ARGS'' of None \<Rightarrow> DEFAULT_SSH_ARGS | Some v \<Rightarrow> v)
     in tokens '' '' (xtext (xstrcat str val)))"

text \<open>The option \<open>configure\<close> sets by default\<close>

definition SSH_CONNECT_TIMEOUT_OPTION :: "int \<Rightarrow> string" where
  "SSH_CONNECT_TIMEOUT_OPTION timeout = ''-oConnectTimeout='' @ show_int 1 timeout"

definition ssh_args_prepend_timeout :: "int \<Rightarrow> string list \<Rightarrow> string list" where
  "ssh_args_prepend_timeout timeout args =
    (if timeout \<le> 0 then args else take 63 (SSH_CONNECT_TIMEOUT_OPTION timeout) # args)"

definition mod_ssh_postop :: "host_env \<Rightarrow> options \<Rightarrow> string list" where
  "mod_ssh_postop sys opt =
    ssh_args_prepend_timeout (connect_timeout opt) (sshcmd_args_init sys) @
    (case dshpath (dsh_opt opt) of None \<Rightarrow> [] | Some path \<Rightarrow> [path])"

definition sshcmd_init :: "nat \<Rightarrow> nat \<Rightarrow> bool \<Rightarrow> rcmd_state \<Rightarrow> rcmd_state fate" where
  "sshcmd_init euid uid setuid_ok st =
    (if euid = 0 \<and> uid \<noteq> 0 \<and> \<not> setuid_ok then Exits
     else case rcmd_opt_set st True False of (Inl _, _) \<Rightarrow> Exits | (Inr _, st) \<Rightarrow> Continues st)"

definition arg_has_parameter :: "string \<Rightarrow> string \<Rightarrow> bool" where
  "arg_has_parameter arg s =
    (case strstr arg s of None \<Rightarrow> False | Some p \<Rightarrow> p = 0 \<or> arg ! (p - 1) \<noteq> CHR ''%'')"

text \<open>\<open>list_insert\<close> puts the option in front of the argument \<open>list_find\<close> has stopped at.\<close>

definition fixup_ssh_args :: "string list \<Rightarrow> bool \<Rightarrow> string list" where
  "fixup_ssh_args args need_user =
    (let got_user = (need_user \<and> list_ex (\<lambda>a. arg_has_parameter a ''%u'') args);
         got_host = list_ex (\<lambda>a. arg_has_parameter a ''%h'') args;
         args = (if need_user \<and> \<not> got_user then
                   if got_host then
                     takeWhile (\<lambda>a. \<not> arg_has_parameter a ''%h'') args @ ''-l%u'' # dropWhile (\<lambda>a. \<not> arg_has_parameter a ''%h'') args
                   else args @ [''-l%u'']
                 else args)
     in if \<not> got_host then args @ [''%h''] else args)"

definition ssh_argv_create :: "string list \<Rightarrow> string list \<Rightarrow> string list" where
  "ssh_argv_create arg_list remote_argv = arg_list @ remote_argv"

definition sshcmd ::
  "pipe_os \<Rightarrow> pers_t \<Rightarrow> string list \<Rightarrow> string list \<Rightarrow> string \<Rightarrow> string \<Rightarrow> string \<Rightarrow> string \<Rightarrow> int \<Rightarrow> pipe_info option option" where
  "sshcmd os p ssh_args_list remote_argv ahost locuser remuser command rank =
    (let remote_argv = (if p = PCP \<or> remote_argv = [] then [command] else remote_argv)
     in pipecmd os ''ssh'' (ssh_argv_create (fixup_ssh_args ssh_args_list (locuser \<noteq> remuser)) remote_argv) ahost remuser rank)"

definition SIGTERM :: int where
  "SIGTERM = 15"

definition sshcmd_signal :: "(int \<Rightarrow> int \<Rightarrow> int) \<Rightarrow> pipe_info option \<Rightarrow> int \<Rightarrow> int" where
  "sshcmd_signal kill p signum = pipecmd_signal kill p SIGTERM"

definition sshcmd_destroy :: "err_env \<Rightarrow> pipe_info option \<Rightarrow> nat option \<Rightarrow> nat" where
  "sshcmd_destroy env p waited =
    (case pipecmd_wait env p waited of (_, status, _) \<Rightarrow> WEXITSTATUS (case status of None \<Rightarrow> 0 | Some s \<Rightarrow> s))"

section \<open>What is executed\<close>

lemma format_loop_plain:
  "CHR ''%'' \<notin> set s \<Longrightarrow> \<exists>r. format_loop e s str = Some r \<and> xtext_of r = xtext_of str @ s \<and> (r = None \<longleftrightarrow> str = None \<and> s = [])"
proof (induction e s str rule: format_loop.induct)
  case (3 e c d s str)
  then obtain r where "format_loop e (d # s) (Some (xstrcatchar str c)) = Some r" "xtext_of r = xtext_of (Some (xstrcatchar str c)) @ d # s"
      "r \<noteq> None" by auto
  then show ?case using 3(7) xstrcatchar_spec [of str c] by (auto simp: xtext_of_def)
qed (auto simp: xtext_of_def xstrcatchar_spec)

lemma format_arg_plain:
  assumes "CHR ''%'' \<notin> set s" "s \<noteq> []"
  shows "pipecmd_format_arg e s = Some (Some s)"
  using format_loop_plain [OF assms(1), of e None] assms(2) by (auto simp: pipecmd_format_arg_def xtext_of_def)

lemma format_arg_empty: "pipecmd_format_arg e [] = Some None"
  by (simp add: pipecmd_format_arg_def)

lemma format_arg_params:
  "pipecmd_format_arg e ''%h'' = Some (Some (pitarget e))" "pipecmd_format_arg e ''-l%u'' = Some (Some (''-l'' @ piuser e))"
  by (simp_all add: pipecmd_format_arg_def xstrcat_spec xstrcatchar_spec xtext_of_def)

text \<open>
  The parameters of a word: the host, the user and the rank, and \<open>%%\<close> for a percent sign;
  others stay. A word that ends with a single percent sign has no expansion.
\<close>

fun expand_word :: "string \<Rightarrow> string \<Rightarrow> int \<Rightarrow> string \<Rightarrow> string option" where
  "expand_word host user rank [] = Some []"
| "expand_word host user rank [c] = (if c = CHR ''%'' then None else Some [c])"
| "expand_word host user rank (c # d # s) =
    (if c \<noteq> CHR ''%'' then map_option ((#) c) (expand_word host user rank (d # s))
     else map_option ((@)
       (if d = CHR ''h'' then host else if d = CHR ''u'' then user else if d = CHR ''n'' then show_int 1 rank
        else if d = CHR ''%'' then ''%'' else [c, d])) (expand_word host user rank s))"

lemma format_loop_expands:
  "expand_word (pitarget e) (piuser e) (pirank e) s = Some x \<Longrightarrow>
    \<exists>r. format_loop e s str = Some r \<and> xtext_of r = xtext_of str @ x \<and> (r = None \<longleftrightarrow> str = None \<and> s = [])"
proof (induction e s str arbitrary: x rule: format_loop.induct)
  case (3 e c d s str)
  note X = xtext_of_def xstrcat_spec xstrcatchar_spec
  show ?case
  proof (cases "c = CHR ''%''")
    case True
    then obtain y where y: "expand_word (pitarget e) (piuser e) (pirank e) s = Some y"
        "x = (if d = CHR ''h'' then pitarget e else if d = CHR ''u'' then piuser e else if d = CHR ''n'' then show_int 1 (pirank e)
          else if d = CHR ''%'' then ''%'' else [c, d]) @ y" using 3(7) by auto
    consider "d = CHR ''h''" | "d = CHR ''u''" | "d = CHR ''n''" | "d = CHR ''%''"
      | "d \<noteq> CHR ''h''" "d \<noteq> CHR ''u''" "d \<noteq> CHR ''n''" "d \<noteq> CHR ''%''" by blast
    then show ?thesis
    proof cases
      case 1 then show ?thesis using 3(1) [OF True 1 y(1)] y(2) True by (auto simp: X)
    next
      case 2 then show ?thesis using 3(2) [OF True _ 2 y(1)] y(2) True by (auto simp: X)
    next
      case h: 3 then show ?thesis using 3(3) [OF True _ _ h y(1)] y(2) True by (auto simp: X)
    next
      case 4 then show ?thesis using 3(4) [OF True _ _ _ 4 y(1)] y(2) True by (auto simp: X)
    next
      case 5 then show ?thesis using 3(5) [OF True 5 y(1)] y(2) True by (auto simp: X)
    qed
  next
    case False
    then obtain y where "expand_word (pitarget e) (piuser e) (pirank e) (d # s) = Some y" "x = c # y" using 3(7) by auto
    then show ?thesis using 3(6) [OF False] False by (auto simp: X)
  qed
qed (auto simp: xtext_of_def xstrcatchar_spec split: if_splits)

lemma format_arg_expands:
  assumes "expand_word (pitarget e) (piuser e) (pirank e) s = Some x"
  shows "pipecmd_format_arg e s = Some (if s = [] then None else Some x)"
  using format_loop_expands [OF assms, of None] assms by (auto simp: pipecmd_format_arg_def xtext_of_def split: option.split)

text \<open>Words without a percent sign that are not empty\<close>

definition plain_args :: "string list \<Rightarrow> bool" where
  "plain_args ws \<longleftrightarrow> list_all (\<lambda>w. w \<noteq> [] \<and> CHR ''%'' \<notin> set w) ws"

lemma those_map_Some: "those (map (\<lambda>x. Some (f x)) xs) = Some (map f xs)"
  by (induction xs) simp_all

lemma those_append: "those (xs @ ys) = (case those xs of None \<Rightarrow> None | Some xs \<Rightarrow> map_option ((@) xs) (those ys))"
  by (induction xs) (cases "those ys"; simp split: option.split)+

lemma format_plain_args: "plain_args ws \<Longrightarrow> map (pipecmd_format_arg e) ws = map (\<lambda>w. Some (Some w)) ws"
  by (simp add: plain_args_def format_arg_plain list_all_iff)

lemma exec_argv_simps: "exec_argv (map Some ws) = ws" "exec_argv (map Some ws @ None # as) = ws"
  by (induction ws) (simp_all add: exec_argv_def)

lemma show_int_plain: "show_int w n \<noteq> []" "CHR ''%'' \<notin> set (show_int w n)"
  using fmt0_digits [of "CHR ''%''" w] by (auto simp: show_int_def isdigit_iff)

lemma tokens_default: "tokens '' '' DEFAULT_SSH_ARGS = [''-2'', ''-a'', ''-x'', ''%h'']"
  by code_simp

definition ssh_timeout_args :: "int \<Rightarrow> string list" where
  "ssh_timeout_args timeout = (if timeout \<le> 0 then [] else [take 63 (SSH_CONNECT_TIMEOUT_OPTION timeout)])"

lemma ssh_timeout_plain: "plain_args (ssh_timeout_args timeout)"
  using show_int_plain [of 1 timeout]
  by (auto simp: ssh_timeout_args_def plain_args_def SSH_CONNECT_TIMEOUT_OPTION_def take_Cons' dest: in_set_takeD)

lemma no_parameter: "CHR ''%'' \<notin> set a \<Longrightarrow> \<not> arg_has_parameter a (CHR ''%'' # s)"
proof -
  assume a: "CHR ''%'' \<notin> set a"
  then have "strstr a (CHR ''%'' # s) = None" by (induction a) (auto split: if_splits)
  then show ?thesis by (simp add: arg_has_parameter_def)
qed

lemma fixup_plain:
  assumes "plain_args as" "plain_args bs"
  shows "fixup_ssh_args (as @ ''%h'' # bs) need = as @ (if need then [''-l%u''] else []) @ ''%h'' # bs"
proof -
  have n: "\<not> arg_has_parameter a (CHR ''%'' # s)" if "a \<in> set as \<or> a \<in> set bs" for a s
    using assms that no_parameter by (auto simp: plain_args_def list_all_iff)
  have "\<not> list_ex (\<lambda>a. arg_has_parameter a ''%u'') (as @ ''%h'' # bs)" "list_ex (\<lambda>a. arg_has_parameter a ''%h'') (as @ ''%h'' # bs)"
    using n by (auto simp: list_ex_iff arg_has_parameter_def)
  moreover have "takeWhile (\<lambda>a. \<not> arg_has_parameter a ''%h'') (as @ ''%h'' # bs) = as"
      "dropWhile (\<lambda>a. \<not> arg_has_parameter a ''%h'') (as @ ''%h'' # bs) = ''%h'' # bs"
    using n by (simp_all add: arg_has_parameter_def takeWhile_append dropWhile_append)
  ultimately show ?thesis by (simp add: fixup_ssh_args_def Let_def)
qed

text \<open>The words \<open>execvp\<close> takes: an empty one ends them.\<close>

definition expand_words :: "string \<Rightarrow> string \<Rightarrow> int \<Rightarrow> string list \<Rightarrow> string list" where
  "expand_words host user rank ws = map (\<lambda>w. the (expand_word host user rank w)) (takeWhile (\<lambda>w. w \<noteq> []) ws)"

lemma expand_plain: "CHR ''%'' \<notin> set w \<Longrightarrow> expand_word host user rank w = Some w"
  by (induction host user rank w rule: expand_word.induct) auto

lemma expand_words_append:
  "[] \<notin> set ws \<Longrightarrow> expand_words host user rank (ws @ vs) = map (\<lambda>w. the (expand_word host user rank w)) ws @ expand_words host user rank vs"
  by (induction ws) (auto simp: expand_words_def)

lemma those_format:
  assumes "\<forall>w\<in>set argv. expand_word (pitarget e) (piuser e) (pirank e) w \<noteq> None"
  shows "\<exists>as. those (map (pipecmd_format_arg e) argv) = Some as \<and>
    exec_argv as = expand_words (pitarget e) (piuser e) (pirank e) argv"
  using assms
proof (induction argv)
  case (Cons w argv)
  then obtain x where x: "expand_word (pitarget e) (piuser e) (pirank e) w = Some x" by auto
  show ?case using Cons format_arg_expands [OF x] x by (auto simp: expand_words_def exec_argv_def)
qed (simp add: expand_words_def exec_argv_def)

lemma pipecmd_runs:
  assumes "pipecmd_start os = Some (fd, efd, pid)"
    and "\<forall>w\<in>set argv. expand_word target user rank w \<noteq> None"
  shows "\<exists>p. pipecmd os path argv target user rank = Some (Some p) \<and> pipath p = path \<and> pifd p = fd \<and> piefd p = efd \<and>
    pipid p = pid \<and> exec_argv (piargs p) = xbasename path # expand_words target user rank argv"
proof -
  let ?e = "pipe_info_create path target user rank"
  have e: "pitarget ?e = target" "piuser ?e = user" "pirank ?e = rank" "picmd ?e = xbasename path"
    by (simp_all add: pipe_info_create_def)
  obtain as where "those (map (pipecmd_format_arg ?e) argv) = Some as" "exec_argv as = expand_words target user rank argv"
    using those_format [of argv ?e] assms(2) unfolding e by blast
  then show ?thesis using assms(1) by (simp add: pipecmd_def cmd_args_create_def pipe_info_create_def exec_argv_def)
qed

lemma xbasename_plain_ssh: "xbasename ''ssh'' = ''ssh''"
  by code_simp

text \<open>The arguments \<open>ssh\<close> is executed with when the environment sets none\<close>

lemma ssh_executed:
  assumes "pipecmd_start os = Some (fd, efd, pid)"
    and "getenv sys ''PDSH_SSH_ARGS_APPEND'' = None" "getenv sys ''PDSH_SSH_ARGS'' = None"
    and "plain_args paths" "paths = (case dshpath (dsh_opt opt) of None \<Rightarrow> [] | Some path \<Rightarrow> [path])"
    and "words = (if p = PCP \<or> remote_argv = [] then [command] else remote_argv)"
    and "\<forall>w\<in>set words. expand_word ahost remuser rank w \<noteq> None"
  shows "\<exists>pi. sshcmd os p (mod_ssh_postop sys opt) remote_argv ahost locuser remuser command rank = Some (Some pi) \<and>
    pipath pi = ''ssh'' \<and> pifd pi = fd \<and> piefd pi = efd \<and>
    exec_argv (piargs pi) = ''ssh'' # ssh_timeout_args (connect_timeout opt) @ [''-2'', ''-a'', ''-x''] @
      (if locuser \<noteq> remuser then [''-l'' @ remuser] else []) @ ahost # paths @ expand_words ahost remuser rank words"
proof -
  let ?as = "ssh_timeout_args (connect_timeout opt) @ [''-2'', ''-a'', ''-x'']"
  let ?u = "if locuser \<noteq> remuser then [''-l%u''] else []"
  let ?argv = "(?as @ ?u @ ''%h'' # paths) @ words"
  have "mod_ssh_postop sys opt = ?as @ ''%h'' # paths"
    using assms(2,3,5) xstrcat_spec [of None DEFAULT_SSH_ARGS] tokens_default
    by (simp add: mod_ssh_postop_def ssh_args_prepend_timeout_def sshcmd_args_init_def ssh_timeout_args_def xtext_of_def)
  moreover have as: "plain_args ?as" using ssh_timeout_plain by (simp add: plain_args_def)
  ultimately have f: "fixup_ssh_args (mod_ssh_postop sys opt) (locuser \<noteq> remuser) = ?as @ ?u @ ''%h'' # paths"
    using fixup_plain [OF as assms(4), of "locuser \<noteq> remuser"] by simp
  have pl: "w \<noteq> []" "expand_word ahost remuser rank w = Some w" if "w \<in> set ?as \<or> w \<in> set paths" for w
    using as assms(4) that expand_plain [of w] unfolding plain_args_def list_all_iff by auto
  have ex: "\<forall>w\<in>set ?argv. expand_word ahost remuser rank w \<noteq> None"
    using pl(2) assms(7) by (auto split: if_splits)
  have "map (\<lambda>w. the (expand_word ahost remuser rank w)) ws = ws" if "set ws \<subseteq> set ?as \<union> set paths" for ws
    using pl(2) that by (intro map_idI) auto
  then have m: "map (\<lambda>w. the (expand_word ahost remuser rank w)) ?as = ?as"
      "map (\<lambda>w. the (expand_word ahost remuser rank w)) paths = paths" by blast+
  have "[] \<notin> set (?as @ ?u @ ''%h'' # paths)" using pl(1) by auto
  from expand_words_append [OF this, of ahost remuser rank words] m
  have "expand_words ahost remuser rank ?argv = ?as @ (if locuser \<noteq> remuser then [''-l'' @ remuser] else []) @
      ahost # paths @ expand_words ahost remuser rank words" by simp
  then show ?thesis using pipecmd_runs [OF assms(1) ex, of "''ssh''"]
    unfolding sshcmd_def Let_def f ssh_argv_create_def assms(6) [symmetric] xbasename_plain_ssh by auto
qed

text \<open>An empty argument is turned into the null pointer that ends the array.\<close>

lemma exec_stops_at_empty:
  assumes "pipecmd_start os = Some (fd, efd, pid)" "plain_args ws" "plain_args rest"
  shows "\<exists>p. execcmd os (path # ws @ [] # rest) ahost remuser command rank = Some (Some p) \<and>
    exec_argv (piargs p) = xbasename path # ws"
proof -
  let ?e = "pipe_info_create path ahost remuser rank"
  have "those (map (pipecmd_format_arg ?e) (ws @ [] # rest)) = Some (map Some ws @ None # map Some rest)"
    using those_map_Some [of Some ws] those_map_Some [of Some rest]
    by (simp add: those_append format_plain_args [OF assms(2)] format_plain_args [OF assms(3)] format_arg_empty)
  then have "cmd_args_create ?e (ws @ [] # rest) = Some (Some (picmd ?e) # map Some ws @ None # map Some rest)"
    by (simp add: cmd_args_create_def)
  then show ?thesis
    using assms(1) exec_argv_simps(2) [of "picmd ?e # ws" "map Some rest"]
    by (simp add: execcmd_def pipecmd_def) (simp add: pipe_info_create_def)
qed

end
