(* ===== verification/Dsh_Signals.thy ===== *)
theory Dsh_Signals
  imports Dsh_Setup
begin

text \<open>
  The other threads of \<open>pdsh/dsh.c\<close>: the watchdog, the signals thread, and the threads of a
  copy. The clock is a parameter, and does not move while a signal is handled.
\<close>

section \<open>Timeouts\<close>

text \<open>An entry of the thread array with its times; a time that is not set is 0.\<close>

record timed_thd = thd +
  tstart :: int
  tconnect :: int
  tfinish :: int

record timeouts =
  tdebug :: bool
  tm_connect :: int
  tm_command :: int

definition thd_connect_timeout :: "timeouts \<Rightarrow> int \<Rightarrow> timed_thd \<Rightarrow> bool" where
  "thd_connect_timeout tm now th \<longleftrightarrow> tm_connect tm > 0 \<and> tstart th \<noteq> -1 \<and> tstart th + tm_connect tm < now"

definition thd_command_timeout :: "timeouts \<Rightarrow> int \<Rightarrow> timed_thd \<Rightarrow> bool" where
  "thd_command_timeout tm now th \<longleftrightarrow> tm_command tm > 0 \<and> tconnect th \<noteq> -1 \<and> tconnect th + tm_command tm < now"

text \<open>One pass of \<open>_wdog\<close>: the threads that get a \<open>SIGALRM\<close>\<close>

fun wdog_pass :: "timeouts \<Rightarrow> int \<Rightarrow> nat \<Rightarrow> timed_thd list \<Rightarrow> nat list" where
  "wdog_pass tm now i [] = []"
| "wdog_pass tm now i (th # ths) =
    (case tstate th of
       DSH_RCMD \<Rightarrow> if thd_connect_timeout tm now th then [i] else []
     | DSH_READING \<Rightarrow> if thd_command_timeout tm now th then [i] else []
     | _ \<Rightarrow> []) @ wdog_pass tm now (Suc i) ths"

section \<open>Signals\<close>

definition INTR_TIME :: int where
  "INTR_TIME = 1"

definition SIGINT :: int where
  "SIGINT = 2"

definition time_left :: "err_env \<Rightarrow> timeouts \<Rightarrow> int \<Rightarrow> int \<Rightarrow> out_call" where
  "time_left env tm limit ttl =
    (Err, if tdebug tm \<and> limit \<noteq> 0 then verr env ('' (timeout in %d secs)'' @ [LF]) [Num ttl] else verr env [LF] [])"

fun list_slowthreads :: "err_env \<Rightarrow> timeouts \<Rightarrow> int \<Rightarrow> timed_thd list \<Rightarrow> out_call list" where
  "list_slowthreads env tm now [] = []"
| "list_slowthreads env tm now (th # ths) =
    (let h = [Str (thost th)];
         word = (\<lambda>w. if tdebug tm then [(Err, verr env (''%p: %S: ['' @ w @ '']'' @ [LF]) h)] else [])
     in (case tstate th of
           DSH_READING \<Rightarrow>
             [(Err, verr env ''%p: %S: command in progress'' h),
              time_left env tm (tm_command tm) (tconnect th + tm_command tm - now)]
         | DSH_RCMD \<Rightarrow>
             [(Err, verr env ''%p: %S: connecting'' h),
              time_left env tm (tm_connect tm) (tstart th + tm_connect tm - now)]
         | DSH_NEW \<Rightarrow> word ''new''
         | DSH_FAILED \<Rightarrow> word ''failed''
         | DSH_DONE \<Rightarrow> word ''done''
         | DSH_CANCELED \<Rightarrow> word ''canceled'') @ list_slowthreads env tm now ths)"

text \<open>The threads a signal is forwarded for\<close>

fun fwd_signal :: "nat \<Rightarrow> timed_thd list \<Rightarrow> nat list" where
  "fwd_signal i [] = []"
| "fwd_signal i (th # ths) = (if tstate th = DSH_READING then [i] else []) @ fwd_signal (Suc i) ths"

fun cancel_loop :: "timed_thd list \<Rightarrow> nat \<Rightarrow> timed_thd list \<times> nat" where
  "cancel_loop [] n = ([], n)"
| "cancel_loop (th # ths) n =
    (let c = (tstate th = DSH_NEW \<or> tstate th = DSH_RCMD)
     in case cancel_loop ths (if c then n + 1 else n) of
          (ths, n) \<Rightarrow> ((if c then th\<lparr>tstate := DSH_CANCELED\<rparr> else th) # ths, n))"

definition cancel_pending_threads :: "err_env \<Rightarrow> timed_thd list option \<Rightarrow> timed_thd list option \<times> out_call list" where
  "cancel_pending_threads env t =
    (case t of
       None \<Rightarrow> (None, [])
     | Some ths \<Rightarrow>
         (case cancel_loop ths 0 of
            (ths, n) \<Rightarrow> (Some ths, [(Err, verr env (''%p: Canceled %d pending threads.'' @ [LF]) [Num (int n)])])))"

text \<open>
  What the handling of a signal does: it ends the program after forwarding \<open>SIGINT\<close>, stops it,
  or goes on. The array is the null pointer when \<open>dsh()\<close> has freed it.
\<close>

datatype sig_result =
  Aborts "nat list" "out_call list"
| Stops
| Handled "timed_thd list option" int "out_call list"

definition handle_sigint ::
  "err_env \<Rightarrow> timeouts \<Rightarrow> bool \<Rightarrow> int \<Rightarrow> int \<Rightarrow> timed_thd list option \<Rightarrow> sig_result" where
  "handle_sigint env tm sigint_term now last_intr t =
    (case t of
       None \<Rightarrow> Handled None last_intr []
     | Some ths \<Rightarrow>
         if sigint_term then
           Aborts (fwd_signal 0 ths) [(Err, verr env (''%p: batch mode interrupt, aborting.'' @ [LF]) [])]
         else if now - last_intr > INTR_TIME then
           Handled t now
             ([(Err, verr env (''%p: interrupt (one more within %d sec to abort)'' @ [LF]) [Num INTR_TIME]),
               (Err, verr env (''%p:  (^Z within %d sec to cancel pending threads)'' @ [LF]) [Num INTR_TIME])]
              @ list_slowthreads env tm now ths)
         else Aborts (fwd_signal 0 ths) [(Err, verr env (''%p: interrupt, aborting.'' @ [LF]) [])])"

definition handle_sigtstp :: "err_env \<Rightarrow> int \<Rightarrow> int \<Rightarrow> timed_thd list option \<Rightarrow> sig_result" where
  "handle_sigtstp env now last_intr t =
    (case t of
       None \<Rightarrow> Handled None last_intr []
     | Some ths \<Rightarrow>
         if now - last_intr > INTR_TIME then Stops
         else case cancel_pending_threads env t of (t, ws) \<Rightarrow> Handled t last_intr ws)"

text \<open>
  The loop of \<open>_signals_thread\<close>. An event is a signal with the time at which it is handled
  and the array as the other threads have left it by then, or an interruption of
  \<open>sigwait\<close>. The result is the first abort, if there is one; a stopped program goes on when it is
  continued.
\<close>

datatype sig_event = SigInt | SigTstp | SigIntr

fun signals_thread ::
  "err_env \<Rightarrow> timeouts \<Rightarrow> bool \<Rightarrow> int \<Rightarrow> (sig_event \<times> int \<times> timed_thd list option) list \<Rightarrow> sig_result option" where
  "signals_thread env tm st last_intr [] = None"
| "signals_thread env tm st last_intr ((ev, now, t) # evs) =
    (if t = None then None
     else case ev of
       SigIntr \<Rightarrow> signals_thread env tm st last_intr evs
     | SigInt \<Rightarrow>
         (case handle_sigint env tm st now last_intr t of
            Aborts fw ws \<Rightarrow> Some (Aborts fw ws)
          | Stops \<Rightarrow> signals_thread env tm st last_intr evs
          | Handled _ last_intr _ \<Rightarrow> signals_thread env tm st last_intr evs)
     | SigTstp \<Rightarrow>
         (case handle_sigtstp env now last_intr t of
            Aborts fw ws \<Rightarrow> Some (Aborts fw ws)
          | Stops \<Rightarrow> signals_thread env tm st last_intr evs
          | Handled _ last_intr _ \<Rightarrow> signals_thread env tm st last_intr evs))"

section \<open>The threads of a copy\<close>

text \<open>The loop over what the remote program writes to its standard error\<close>

partial_function (option) stderr_loop ::
  "allocator \<Rightarrow> err_env \<Rightarrow> rd_event list \<Rightarrow> thd \<Rightarrow> out_call list \<Rightarrow> (rd_event list \<times> thd \<times> out_call list) option" where
  "stderr_loop mem env ev th ws =
    (case handle_rcmd_stderr mem env ev th of
       None \<Rightarrow> None
     | Some (rc, ev, th, w) \<Rightarrow> if rc > 0 then stderr_loop mem env ev th (ws @ w) else Some (ev, th, ws @ w))"

text \<open>\<open>rv\<close> is the result of \<open>_pcp_server\<close> or \<open>_pcp_client\<close>.\<close>

definition parallel_copy ::
  "allocator \<Rightarrow> err_env \<Rightarrow> bool \<Rightarrow> int \<Rightarrow> rd_event list \<Rightarrow> thd \<Rightarrow> thd \<Rightarrow> (int \<times> rd_event list \<times> thd \<times> out_call list) option" where
  "parallel_copy mem env reverse rv eev t0 th =
    (if \<not> reverse \<and> rv < 0 \<or> reverse then
       (case stderr_loop mem env eev th [] of
          None \<Rightarrow> None
        | Some (eev, th, ws) \<Rightarrow>
            (case flush_output env (terrbuf th) Err t0 th of
               None \<Rightarrow> None
             | Some (eb, w) \<Rightarrow> Some (rv, eev, th\<lparr>terrbuf := eb\<rparr>, ws @ w)))
     else Some (rv, eev, th, []))"

text \<open>\<open>_rcp_thread\<close> behind \<open>rcmd_connect\<close>; \<open>drc\<close> is the answer of \<open>rcmd_destroy\<close>.\<close>

definition rcp_thread ::
  "allocator \<Rightarrow> err_env \<Rightarrow> bool \<Rightarrow> int \<Rightarrow> rd_event list \<Rightarrow> int \<Rightarrow> thd \<Rightarrow> thd \<Rightarrow> (thd \<times> out_call list) option" where
  "rcp_thread mem env reverse rv eev drc t0 th =
    (case (if tfd th = -1 then Some (DSH_FAILED, th, [])
           else if tstate th = DSH_CANCELED then Some (DSH_DONE, th, [])
           else map_option (\<lambda>(_, _, th, ws). (DSH_DONE, th, ws))
             (parallel_copy mem env reverse rv eev t0 (th\<lparr>tstate := DSH_READING\<rparr>))) of
       None \<Rightarrow> None
     | Some (result, th, ws) \<Rightarrow>
         Some (th\<lparr>tstate := result, trc := (if trc th = 0 \<and> drc > 0 then drc else trc th)\<rparr>, ws))"

section \<open>Statistics and limits\<close>

definition TIME_T_YEAR :: int where
  "TIME_T_YEAR = 60 * 60 * 24 * 7 * 52"

record debug_stats =
  con_tot :: int
  con_min :: int
  con_max :: int
  cmd_tot :: int
  cmd_min :: int
  cmd_max :: int
  nfailed :: nat
  ncanceled :: nat

definition stats0 :: debug_stats where
  "stats0 = \<lparr>con_tot = 0, con_min = TIME_T_YEAR, con_max = 0, cmd_tot = 0, cmd_min = TIME_T_YEAR, cmd_max = 0,
     nfailed = 0, ncanceled = 0\<rparr>"

text \<open>The loop of \<open>_dump_debug_stats\<close>; \<open>None\<close> is its assertion.\<close>

fun stats_loop :: "timed_thd list \<Rightarrow> debug_stats \<Rightarrow> debug_stats option" where
  "stats_loop [] s = Some s"
| "stats_loop (th # ths) s =
    (if tstate th = DSH_FAILED then stats_loop ths (s\<lparr>nfailed := nfailed s + 1\<rparr>)
     else if tstate th = DSH_CANCELED then stats_loop ths (s\<lparr>ncanceled := ncanceled s + 1\<rparr>)
     else if tstart th = 0 \<or> tconnect th = 0 \<or> tfinish th = 0 then None
     else
       let c = tconnect th - tstart th; d = tfinish th - tconnect th
       in stats_loop ths
            (s\<lparr>con_tot := con_tot s + c, cmd_tot := cmd_tot s + d, con_min := min (con_min s) c, con_max := max (con_max s) c,
               cmd_min := min (cmd_min s) d, cmd_max := max (cmd_max s) d\<rparr>))"

text \<open>Division in C rounds towards zero.\<close>

definition average :: "int \<Rightarrow> int \<Rightarrow> int" where
  "average tot k = sgn tot * (\<bar>tot\<bar> div k)"

definition dump_debug_stats :: "err_env \<Rightarrow> timed_thd list \<Rightarrow> out_call list option" where
  "dump_debug_stats env ths =
    map_option
      (\<lambda>s.
        (if length ths > nfailed s then
           let k = int (length ths - nfailed s)
           in [(Err, verr env (''Connect time:  Avg: %d sec, Min: %d sec,  Max: %d sec'' @ [LF])
                  [Num (average (con_tot s) k), Num (con_min s), Num (con_max s)]),
               (Err, verr env (''Command time:  Avg: %d sec, Min: %d sec,  Max: %d sec'' @ [LF])
                  [Num (average (cmd_tot s) k), Num (cmd_min s), Num (cmd_max s)])]
         else [(Err, verr env (''Connect time:  no sucesses'' @ [LF]) []), (Err, verr env (''Command time:  no sucesses'' @ [LF]) [])])
        @ [(Err, verr env (''Failures:      %d'' @ [LF]) [Num (int (nfailed s))])]
        @ (if ncanceled s > 0 then [(Err, verr env (''Canceled:      %d'' @ [LF]) [Num (int (ncanceled s))])] else []))
      (stats_loop ths stats0)"

text \<open>
  The limit of open files, current and maximal: \<open>None\<close> when \<open>getrlimit\<close> fails. Twice
  the fan-out is assumed to fit an \<open>int\<close>; it is compared as an unsigned number.
\<close>

definition increase_nofile_limit :: "int \<Rightarrow> bool \<Rightarrow> (64 word \<times> 64 word) option \<Rightarrow> (64 word \<times> 64 word) option" where
  "increase_nofile_limit fanout setrlimit_ok rlim =
    (case rlim of
       None \<Rightarrow> None
     | Some (cur, mx) \<Rightarrow>
         let nfds = word_of_int (2 * fanout + 32)
         in Some (if cur < mx \<and> cur \<le> nfds \<and> setrlimit_ok then mx else cur, mx))"

section \<open>When the job is aborted\<close>

text \<open>The times at which interrupts are handled while the array is there\<close>

fun interrupts :: "(sig_event \<times> int \<times> timed_thd list option) list \<Rightarrow> int list" where
  "interrupts [] = []"
| "interrupts ((ev, now, t) # evs) = (if t = None then [] else (if ev = SigInt then [now] else []) @ interrupts evs)"

text \<open>Two interrupts in a row within \<open>INTR_TIME\<close>\<close>

fun close_pair :: "int list \<Rightarrow> bool" where
  "close_pair (a # b # ts) \<longleftrightarrow> b - a \<le> INTR_TIME \<or> close_pair (b # ts)"
| "close_pair _ \<longleftrightarrow> False"

lemma signals_thread_aborts:
  "(signals_thread env tm st last_intr evs \<noteq> None) \<longleftrightarrow>
    (if st then interrupts evs \<noteq> [] else close_pair (last_intr # interrupts evs))"
proof (induction env tm st last_intr evs rule: signals_thread.induct)
  case (2 env tm st last_intr ev now t evs)
  show ?case
  proof (cases "t = None")
    case False
    then obtain ths where t: "t = Some ths" by blast
    show ?thesis
    proof (cases ev)
      case SigInt
      then show ?thesis
        using 2(2) [OF False SigInt, of t now] t
        by (cases st; cases "now - last_intr > INTR_TIME") (simp_all add: handle_sigint_def)
    next
      case SigTstp
      then show ?thesis
        using 2(3) [OF False SigTstp] 2(4) [OF False SigTstp, of "fst (cancel_pending_threads env t)" last_intr "snd (cancel_pending_threads env t)"] t
        by (cases st; cases "now - last_intr > INTR_TIME") (simp_all add: handle_sigtstp_def split: prod.split)
    next
      case SigIntr
      then show ?thesis using 2(5) [OF False SigIntr] t by simp
    qed
  qed simp
qed simp

end
