(* ===== verification/Target_Groups.thy ===== *)
theory Target_Groups
  imports Hostset Opt_Args
begin

text \<open>
  Modules that choose the target hosts: \<open>modules/machines.c\<close>, \<open>modules/dshgroup.c\<close>
  and \<open>modules/netgroup.c\<close>. The variables of a module are its state; what the functions of
  the system find of net groups is a parameter. \<open>qs\<close> is the call of \<open>qsort\<close> in
  \<open>hostlist_uniq\<close>. \<open>None\<close> is a run that does not return.
\<close>

section \<open>All machines\<close>

definition PATH_MACHINES :: string where
  "PATH_MACHINES = ''/etc/machines''"

definition machines_opt_a :: "bool \<Rightarrow> int \<times> bool" where
  "machines_opt_a allnodes = (0, True)"

definition read_machines ::
  "nat \<Rightarrow> files \<Rightarrow> errno \<Rightarrow> bool \<Rightarrow> options \<Rightarrow> hostlist option fate option" where
  "read_machines n fs stale allnodes opt =
    (if \<not> allnodes then Some (Continues None)
     else if wcoll opt \<noteq> None then Some Exits
     else map_option (\<lambda>r. case r of Exits \<Rightarrow> Exits | Continues hl \<Rightarrow> Continues (Some hl))
       (read_wcoll n fs stale [] (Some PATH_MACHINES) None))"

section \<open>Groups\<close>

record group_opts =
  ggroups :: "string list option"
  gexgroups :: "string list option"

text \<open>\<open>list_split_append\<close> on the sequence of a list\<close>

definition split_append :: "string list option \<Rightarrow> string \<Rightarrow> string list option" where
  "split_append l arg = Some ((case l of None \<Rightarrow> [] | Some l \<Rightarrow> l) @ tokens '','' arg)"

definition group_process_opt :: "group_opts \<Rightarrow> char \<Rightarrow> string \<Rightarrow> int \<times> group_opts" where
  "group_process_opt st c arg =
    (if c = CHR ''g'' then (0, st\<lparr>ggroups := split_append (ggroups st) arg\<rparr>)
     else if c = CHR ''X'' then (0, st\<lparr>gexgroups := split_append (gexgroups st) arg\<rparr>)
     else (-1, st))"

text \<open>The loop of \<open>_read_groups\<close>: \<open>read\<close> gives the hosts of a group, or the null pointer.\<close>

fun read_groups_loop ::
  "(string \<Rightarrow> hostlist option fate option) \<Rightarrow> string list \<Rightarrow> hostlist option \<Rightarrow> hostlist option fate option" where
  "read_groups_loop read [] hl = Some (Continues hl)"
| "read_groups_loop read (g # gs) hl =
    (case read g of
       None \<Rightarrow> None
     | Some Exits \<Rightarrow> Some Exits
     | Some (Continues None) \<Rightarrow> read_groups_loop read gs hl
     | Some (Continues (Some l)) \<Rightarrow>
         read_groups_loop read gs
           (Some (case hl of None \<Rightarrow> l | Some hl \<Rightarrow> fst (snd (hostlist_push_list hl (Some l))))))"

definition read_groups ::
  "(hostrange list \<Rightarrow> hostrange list) \<Rightarrow> (string \<Rightarrow> hostlist option fate option) \<Rightarrow> string list \<Rightarrow> hostlist option fate option" where
  "read_groups qs read gs =
    map_option (\<lambda>r. case r of Exits \<Rightarrow> Exits | Continues hl \<Rightarrow> Continues (map_option (hostlist_uniq qs) hl))
      (read_groups_loop read gs None)"

text \<open>\<open>read_groupfile\<close> and \<open>read_netgroup\<close>\<close>

definition read_group_wcoll ::
  "(hostrange list \<Rightarrow> hostrange list) \<Rightarrow> (string \<Rightarrow> hostlist option fate option) \<Rightarrow> group_opts \<Rightarrow> options \<Rightarrow> hostlist option fate option" where
  "read_group_wcoll qs read st opt =
    (case ggroups st of
       None \<Rightarrow> Some (Continues None)
     | Some gs \<Rightarrow> if wcoll opt \<noteq> None then Some Exits else read_groups qs read gs)"

text \<open>The loop of \<open>_delete_all\<close> over the hosts of \<open>dl\<close>\<close>

partial_function (option) delete_hosts_loop :: "hostlist \<Rightarrow> hostlist \<Rightarrow> hl_iter \<Rightarrow> int \<Rightarrow> (int \<times> hostlist) option" where
  "delete_hosts_loop hl dl i rc =
    (case hostlist_next dl i of
       None \<Rightarrow> None
     | Some (None, _) \<Rightarrow> Some (rc, hl)
     | Some (Some host, i) \<Rightarrow>
         (case hostlist_delete_host hl host of (k, hl) \<Rightarrow> delete_hosts_loop hl dl i (rc + k)))"

definition delete_all :: "hostlist \<Rightarrow> hostlist \<Rightarrow> (int \<times> hostlist) option" where
  "delete_all hl dl = delete_hosts_loop hl dl (hd (ilist (hostlist_iterator_create dl))) 0"

definition group_postop ::
  "(hostrange list \<Rightarrow> hostrange list) \<Rightarrow> (string \<Rightarrow> hostlist option fate option) \<Rightarrow> group_opts \<Rightarrow> options \<Rightarrow> (int \<times> options) fate option" where
  "group_postop qs read st opt =
    (case (wcoll opt, gexgroups st) of
       (Some wc, Some gs) \<Rightarrow>
         (case read_groups qs read gs of
            None \<Rightarrow> None
          | Some Exits \<Rightarrow> Some Exits
          | Some (Continues None) \<Rightarrow> Some (Continues (0, opt))
          | Some (Continues (Some hl)) \<Rightarrow>
              map_option (\<lambda>(_, wc). Continues (0, opt\<lparr>wcoll := Some wc\<rparr>)) (delete_all wc hl))
     | _ \<Rightarrow> Some (Continues (0, opt)))"

subsection \<open>Files of groups\<close>

definition DSHGROUP_PATH :: string where
  "DSHGROUP_PATH = ''/etc/dsh/group''"

text \<open>The search path; a path from the environment alone is assumed to fit the buffer.\<close>

definition dshgroup_search_path :: "host_env \<Rightarrow> string option" where
  "dshgroup_search_path sys =
    (let path = (case getenv sys ''DSHGROUP_PATH'' of None \<Rightarrow> DSHGROUP_PATH | Some p \<Rightarrow> p)
     in case getenv sys ''HOME'' of
          None \<Rightarrow> Some path
        | Some home \<Rightarrow>
            let s = home @ ''/.dsh/group:'' @ path
            in if length s > 4095 then None else Some (take 4094 s))"

definition read_groupfile :: "nat \<Rightarrow> files \<Rightarrow> errno \<Rightarrow> host_env \<Rightarrow> string \<Rightarrow> hostlist option fate option" where
  "read_groupfile n fs stale sys name =
    (case dshgroup_search_path sys of
       None \<Rightarrow> Some Exits
     | Some path \<Rightarrow>
         map_option (\<lambda>r. case r of Exits \<Rightarrow> Exits | Continues hl \<Rightarrow> Continues (Some hl)) (read_wcoll_path n fs stale path name))"

subsection \<open>Net groups\<close>

text \<open>The hosts of the triples of a net group; a triple without a host has none.\<close>

fun netgroup_loop :: "errno \<Rightarrow> string option list \<Rightarrow> hostlist option \<Rightarrow> hostlist option fate option" where
  "netgroup_loop stale [] hl = Some (Continues hl)"
| "netgroup_loop stale (host # hs) hl =
    (case hl of
       None \<Rightarrow>
         (case hostlist_create stale host of
            None \<Rightarrow> None
          | Some (Inl e) \<Rightarrow> netgroup_loop stale hs None
          | Some (Inr hl) \<Rightarrow> netgroup_loop stale hs (Some hl))
     | Some hl \<Rightarrow>
         (case hostlist_push stale hl host of
            None \<Rightarrow> None
          | Some (_, hl) \<Rightarrow> netgroup_loop stale hs (Some hl)))"

definition read_netgroup :: "errno \<Rightarrow> (string \<Rightarrow> string option list) \<Rightarrow> string \<Rightarrow> hostlist option fate option" where
  "read_netgroup stale netgr name = netgroup_loop stale (netgr name) None"

section \<open>Hosts the loops can handle\<close>

text \<open>The number at the end of a name fits the buffers of the loops over a list.\<close>

definition handy :: "string \<Rightarrow> bool" where
  "handy h \<longleftrightarrow> NUL \<notin> set h \<and> findable h \<and> length (num_suffix h) \<le> 14"

lemma length_num_suffix: "length (num_suffix h) = length (takeWhile isdigit (rev h))"
proof -
  have "length (takeWhile isdigit (rev h)) + length (dropWhile isdigit (rev h)) = length h"
    by (metis length_append length_rev takeWhile_dropWhile_id)
  then show ?thesis by (simp add: num_suffix_def host_prefix_end_def)
qed

lemma num_suffix_fmt0: "length (fmt0 w n) \<le> length (num_suffix (p @ fmt0 w n))"
proof -
  have "takeWhile isdigit (rev (fmt0 w n) @ rev p) = rev (fmt0 w n) @ takeWhile isdigit (rev p)"
    using fmt0_digits by (intro takeWhile_append2) auto
  then show ?thesis by (simp add: length_num_suffix)
qed

lemma dec_less: "n < 10 ^ length (dec n)"
proof (induction n rule: less_induct)
  case (less n)
  show ?case
  proof (cases "n < 10")
    case False
    then have "n div 10 < 10 ^ length (dec (n div 10))" by (intro less) simp
    then have "n < 10 * 10 ^ length (dec (n div 10))" by linarith
    then show ?thesis using False by (subst dec.simps) simp
  qed (simp add: dec.simps [of n])
qed

lemma suffixes_fit_hosts:
  assumes "list_all range_ok (hranges hl)" "\<forall>h\<in>set (hosts hl). length (num_suffix h) \<le> 14"
  shows "suffixes_fit hl"
proof -
  have "width r \<le> 14 \<and> unat (hi r) < 10 ^ 14" if r: "r \<in> set (hranges hl)" "\<not> singlehost r" for r
  proof -
    let ?n = "unat (hi r)"
    have "hr_ok r" using assms(1) r(1) by (auto simp: list_all_iff range_ok_def)
    then have "unat (lo r) \<le> ?n" using hr_ok_bounds(1) r(2) by blast
    then have "prefix r @ fmt0 (width r) ?n \<in> set (hr_hosts r)" using r(2) by (simp add: hr_hosts_def)
    then have "prefix r @ fmt0 (width r) ?n \<in> set (hosts hl)" using r(1) by (auto simp: hosts_def)
    then have "length (fmt0 (width r) ?n) \<le> 14" using assms(2) num_suffix_fmt0 le_trans by blast
    then have l: "width r \<le> 14" "length (dec ?n) \<le> 14" by (simp_all add: length_fmt0)
    have "?n < 10 ^ length (dec ?n)" by (rule dec_less)
    also have "\<dots> \<le> 10 ^ 14" using l(2) by (intro power_increasing) simp_all
    finally show ?thesis using l(1) by simp
  qed
  then show ?thesis by (auto simp: suffixes_fit_def list_all_iff)
qed

section \<open>What a group adds and takes away\<close>

text \<open>A call of \<open>qsort\<close> that puts ranges with the same prefix in order\<close>

definition sorts_ranges :: "(hostrange list \<Rightarrow> hostrange list) \<Rightarrow> bool" where
  "sorts_ranges qs \<longleftrightarrow>
    (\<forall>rs. lo_sorted (qs rs) \<and> mset (map hr_hosts (qs rs)) = mset (map hr_hosts rs) \<and>
       (list_all range_ok rs \<longrightarrow> list_all range_ok (qs rs)))"

lemma sorts_ranges_sort: "sorts_ranges (sort_key lo)"
proof -
  have "sorted_wrt (\<lambda>a b. prefix a = prefix b \<and> \<not> singlehost a \<and> \<not> singlehost b \<longrightarrow> lo a \<le> lo b) (sort_key lo rs)"
    for rs :: "hostrange list"
    using sorted_sort_key [of lo rs] unfolding sorted_map by (rule sorted_wrt_mono_rel [rotated]) simp
  then show ?thesis by (simp add: sorts_ranges_def lo_sorted_def list_all_iff)
qed

lemma read_groups_loop_spec:
  assumes "list_all2 (\<lambda>g l. read g = Some (Continues (Some l)) \<and> hl_ok l) gs ls" "hl_ok hl"
    and "length (hosts hl) + length (concat (map hosts ls)) < 2 ^ 31"
  shows "\<exists>hl'. read_groups_loop read gs (Some hl) = Some (Continues (Some hl')) \<and> hl_ok hl' \<and>
    hosts hl' = hosts hl @ concat (map hosts ls)"
  using assms
proof (induction gs ls arbitrary: hl rule: list_all2_induct)
  case (Cons g gs l ls)
  obtain n h h2 where p: "hostlist_push_list hl (Some l) = (n, h, h2)" by (metis prod_cases3)
  have "length (hosts hl) + length (hosts l) < 2 ^ 31" using Cons.prems(2) by simp
  note P = hostlist_push_list_spec [OF Cons.prems(1) _ this p]
  show ?case using Cons.IH [of h] Cons.hyps(1) Cons.prems(2) P p by auto
qed simp

lemma read_groups_spec:
  assumes "list_all2 (\<lambda>g l. read g = Some (Continues (Some l)) \<and> hl_ok l) gs ls" "gs \<noteq> []"
    and "length (concat (map hosts ls)) < 2 ^ 31" "sorts_ranges qs"
  shows "\<exists>hl. read_groups qs read gs = Some (Continues (Some hl)) \<and> hl_ok hl \<and> set (hosts hl) = \<Union> (set (map (set \<circ> hosts) ls))"
proof -
  obtain g gs' where gs: "gs = g # gs'" using assms(2) by (cases gs) auto
  then obtain l ls' where ls: "ls = l # ls'" "read g = Some (Continues (Some l))" "hl_ok l"
      "list_all2 (\<lambda>g l. read g = Some (Continues (Some l)) \<and> hl_ok l) gs' ls'"
    using assms(1) by (auto simp: list_all2_Cons1)
  obtain hl where hl: "read_groups_loop read gs' (Some l) = Some (Continues (Some hl))" "hl_ok hl"
      "hosts hl = hosts l @ concat (map hosts ls')"
    using read_groups_loop_spec [OF ls(4,3)] assms(3) ls(1) by auto
  have "list_all range_ok (qs (hranges hl))" "lo_sorted (qs (hranges hl))"
      "mset (map hr_hosts (qs (hranges hl))) = mset (map hr_hosts (hranges hl))"
    using assms(4) hl_okD(1) [OF hl(2)] by (auto simp: sorts_ranges_def)
  note U = hostlist_uniq_spec [where qs = qs, OF hl(2) this]
  show ?thesis using U hl ls gs by (auto simp: read_groups_def)
qed

lemma delete_hosts_loop_spec:
  assumes "hl_ok dl" "suffixes_fit dl" "iter_ok (hranges dl) i" "hl_ok hl"
    and "\<forall>h\<in>set (hosts dl). NUL \<notin> set h \<and> findable h"
  shows "\<exists>n hl'. delete_hosts_loop hl dl i rc = Some (n, hl') \<and> hl_ok hl' \<and>
    hosts hl' = fold remove1 (drop (iter_pos (hranges dl) i) (hosts dl)) (hosts hl)"
  using assms(3,4)
proof (induction "length (hosts dl) - iter_pos (hranges dl) i" arbitrary: i hl rc)
  case 0
  then obtain i' where "hostlist_next dl i = Some (None, i')"
    using hostlist_next_spec [OF assms(1,2) 0(2)] by auto
  then show ?case using 0 by (subst delete_hosts_loop.simps) simp
next
  case (Suc m)
  let ?p = "iter_pos (hranges dl) i"
  have p: "?p < length (hosts dl)" using Suc(2) by simp
  then obtain i' where i': "hostlist_next dl i = Some (Some (hosts dl ! ?p), i')" "iter_ok (hranges dl) i'"
      "iter_pos (hranges dl) i' = ?p + 1"
    using hostlist_next_spec [OF assms(1,2) Suc(3)] by auto
  obtain k h where d: "hostlist_delete_host hl (hosts dl ! ?p) = (k, h)" by force
  have "NUL \<notin> set (hosts dl ! ?p)" "findable (hosts dl ! ?p)" using assms(5) p by simp_all
  note D = hostlist_delete_host_spec [OF Suc(4) this d]
  have "m = length (hosts dl) - iter_pos (hranges dl) i'" using Suc(2) i'(3) by simp
  then obtain n hl' where "delete_hosts_loop h dl i' (rc + k) = Some (n, hl')" "hl_ok hl'"
      "hosts hl' = fold remove1 (drop (?p + 1) (hosts dl)) (hosts h)"
    using Suc(1) [OF _ i'(2) D(3)] i'(3) by metis
  moreover have "drop ?p (hosts dl) = hosts dl ! ?p # drop (?p + 1) (hosts dl)"
    using p by (simp add: Cons_nth_drop_Suc)
  ultimately show ?case using i'(1) d D(2) by (subst delete_hosts_loop.simps) simp
qed

lemma delete_hosts_spec:
  assumes "hl_ok dl" "hl_ok hl" "\<forall>h\<in>set (hosts dl). handy h"
  shows "\<exists>n hl'. delete_all hl dl = Some (n, hl') \<and> hl_ok hl' \<and> hosts hl' = fold remove1 (hosts dl) (hosts hl)"
proof -
  let ?i = "hd (ilist (hostlist_iterator_create dl))"
  have "iter_ok (hranges dl) ?i" "iter_pos (hranges dl) ?i = 0"
    using hl_okD(1) [OF assms(1)]
    by (auto simp: hostlist_iterator_create_def iter_ok_def iter_pos_def before_0)
  moreover have "suffixes_fit dl" "\<forall>h\<in>set (hosts dl). NUL \<notin> set h \<and> findable h"
    using suffixes_fit_hosts [OF hl_okD(1) [OF assms(1)]] assms(3) by (simp_all add: handy_def)
  ultimately show ?thesis using delete_hosts_loop_spec [OF assms(1) _ _ assms(2), of ?i 0] by (simp add: delete_all_def)
qed

text \<open>Hosts of excluded groups are taken off.\<close>

lemma group_postop_spec:
  assumes "list_all2 (\<lambda>g l. read g = Some (Continues (Some l)) \<and> hl_ok l) gs ls" "gs \<noteq> []"
    and "length (concat (map hosts ls)) < 2 ^ 31" "sorts_ranges qs" "\<forall>l\<in>set ls. \<forall>h\<in>set (hosts l). handy h"
    and "wcoll opt = Some wc" "hl_ok wc" "gexgroups st = Some gs"
  shows "\<exists>hl wc'. read_groups qs read gs = Some (Continues (Some hl)) \<and> set (hosts hl) = \<Union> (set (map (set \<circ> hosts) ls)) \<and>
    group_postop qs read st opt = Some (Continues (0, opt\<lparr>wcoll := Some wc'\<rparr>)) \<and> hl_ok wc' \<and>
    hosts wc' = fold remove1 (hosts hl) (hosts wc) \<and>
    (distinct (hosts wc) \<longrightarrow> hosts wc' = filter (\<lambda>h. \<forall>l\<in>set ls. h \<notin> set (hosts l)) (hosts wc))"
proof -
  obtain hl where hl: "read_groups qs read gs = Some (Continues (Some hl))" "hl_ok hl"
      "set (hosts hl) = \<Union> (set (map (set \<circ> hosts) ls))"
    using read_groups_spec [OF assms(1-4)] by blast
  have "\<forall>h\<in>set (hosts hl). handy h" using assms(5) hl(3) by auto
  from delete_hosts_spec [OF hl(2) assms(7) this] obtain n wc' where
    "delete_all wc hl = Some (n, wc')" "hl_ok wc'" "hosts wc' = fold remove1 (hosts hl) (hosts wc)" by blast
  then show ?thesis using hl(1,3) assms(6,8)
    by (intro exI [of _ hl] exI [of _ wc']) (auto simp: group_postop_def fold_remove1_distinct)
qed

end
