(* ===== verification/Genders.thy ===== *)
theory Genders
  imports Target_Groups
begin

text \<open>
  The module \<open>modules/genders.c\<close>: target hosts, exclusions, alternate names and remote
  commands from a genders database. The library that reads the database is a parameter;
  \<open>qs\<close> is the call of \<open>qsort\<close> in \<open>hostlist_uniq\<close>.
\<close>

section \<open>The database\<close>

text \<open>
  The answers of \<open>genders_testattr\<close> for a node, an attribute and the size of the buffer; the
  answer of \<open>genders_query\<close>, or \<open>None\<close> for an error; and the node
  \<open>genders_getnodes\<close> finds for a value of an attribute, if there is exactly one.
\<close>

datatype testattr = HasAttr string | NoAttr | NotFound | AttrError

record genders_lib =
  g_query :: "string option \<Rightarrow> string list option"
  g_testattr :: "string \<Rightarrow> string \<Rightarrow> nat \<Rightarrow> testattr"
  g_node_of :: "string \<Rightarrow> string \<Rightarrow> string option"
  g_maxvallen :: "nat option"
  g_handle_ok :: bool
  g_load_ok :: "string \<Rightarrow> bool"
  g_index_ok :: "string \<Rightarrow> bool"

text \<open>The variables of the module; \<open>ghandle\<close> says that there is a handle.\<close>

record genders_opts =
  gallnodes :: bool
  gopt_i :: bool
  ginvoked :: bool
  ggenalt :: bool
  ghandle :: bool
  gfile :: "string option"
  gattrlist :: "string list option"
  gexcllist :: "string list option"

definition ALTNAME :: string where
  "ALTNAME = ''altname''"

definition genders_process_opt :: "genders_opts \<Rightarrow> char \<Rightarrow> string \<Rightarrow> int \<times> genders_opts" where
  "genders_process_opt st c arg =
    (let all = st\<lparr>gallnodes := True\<rparr>;
         r = (if c = CHR ''a'' then Some (all\<lparr>gexcllist := split_append (gexcllist st) ''pdsh_all_skip''\<rparr>)
              else if c = CHR ''A'' then Some all
              else if c = CHR ''i'' then Some (st\<lparr>gopt_i := True\<rparr>)
              else if c = CHR ''g'' then Some (st\<lparr>gattrlist := split_append (gattrlist st) arg\<rparr>)
              else if c = CHR ''X'' then Some (st\<lparr>gexcllist := split_append (gexcllist st) arg\<rparr>)
              else if c = CHR ''F'' then Some (st\<lparr>gfile := Some arg\<rparr>)
              else None)
     in case r of None \<Rightarrow> (-1, st) | Some st \<Rightarrow> (0, st\<lparr>ginvoked := True\<rparr>))"

definition genders_filename_create :: "host_env \<Rightarrow> string \<Rightarrow> string" where
  "genders_filename_create sys file =
    (if file \<noteq> [] \<and> (hd file = CHR ''/'' \<or> hd file = CHR ''.'') then file
     else
       let s = Strdup (Some (case getenv sys ''PDSH_GENDERS_DIR'' of None \<Rightarrow> ''/etc'' | Some d \<Rightarrow> d));
           s = Some (xstrcatchar s (CHR ''/''))
       in xtext (xstrcat s file))"

definition handle_create :: "genders_lib \<Rightarrow> host_env \<Rightarrow> genders_opts \<Rightarrow> genders_opts fate" where
  "handle_create g sys st =
    (if \<not> g_handle_ok g then Exits
     else
       let file = (case gfile st of
             Some f \<Rightarrow> genders_filename_create sys f
           | None \<Rightarrow>
               (case getenv sys ''PDSH_GENDERS_FILE'' of
                  Some f \<Rightarrow> genders_filename_create sys f
                | None \<Rightarrow> genders_filename_create sys ''genders''))
       in if \<not> g_load_ok g file \<and> ginvoked st then Exits else Continues (st\<lparr>ghandle := True\<rparr>))"

definition need_handle :: "genders_lib \<Rightarrow> host_env \<Rightarrow> genders_opts \<Rightarrow> genders_opts fate" where
  "need_handle g sys st = (if ghandle st then Continues st else handle_create g sys st)"

section \<open>Lists of hosts\<close>

text \<open>Both lengths \<open>_maxnamelen\<close> compares come from \<open>genders_getmaxvallen\<close>.\<close>

definition maxnamelen :: "genders_lib \<Rightarrow> nat option" where
  "maxnamelen g = (case (g_maxvallen g, g_maxvallen g) of (Some v, Some n) \<Rightarrow> Some (max v n) | _ \<Rightarrow> None)"

definition altname_of :: "genders_lib \<Rightarrow> nat \<Rightarrow> string \<Rightarrow> string" where
  "altname_of g maxlen host =
    (case g_testattr g host ALTNAME (maxlen + 1) of
       HasAttr v \<Rightarrow> v
     | NotFound \<Rightarrow> (case g_node_of g ALTNAME host of None \<Rightarrow> host | Some n \<Rightarrow> n)
     | _ \<Rightarrow> host)"

partial_function (option) altnames_loop ::
  "genders_lib \<Rightarrow> nat \<Rightarrow> hostlist \<Rightarrow> hl_iter \<Rightarrow> hostlist \<Rightarrow> hostlist option" where
  "altnames_loop g maxlen hl i ret =
    (case hostlist_next hl i of
       None \<Rightarrow> None
     | Some (None, _) \<Rightarrow> Some ret
     | Some (Some host, i) \<Rightarrow> altnames_loop g maxlen hl i (snd (hostlist_push_host ret (Some (altname_of g maxlen host)))))"

abbreviation new_iter :: "hostlist \<Rightarrow> hl_iter" where
  "new_iter hl \<equiv> hd (ilist (hostlist_iterator_create hl))"

definition genders_to_altnames :: "genders_lib \<Rightarrow> hostlist \<Rightarrow> hostlist fate option" where
  "genders_to_altnames g hl =
    (case maxnamelen g of
       None \<Rightarrow> Some Exits
     | Some maxlen \<Rightarrow> map_option Continues (altnames_loop g maxlen hl (new_iter hl) hostlist_new))"

definition genders_to_hostlist :: "(hostrange list \<Rightarrow> hostrange list) \<Rightarrow> string list \<Rightarrow> hostlist" where
  "genders_to_hostlist qs nodes =
    hostlist_uniq qs (foldl (\<lambda>hl n. snd (hostlist_push_host hl (Some n))) hostlist_new nodes)"

definition read_genders_attr ::
  "(hostrange list \<Rightarrow> hostrange list) \<Rightarrow> genders_lib \<Rightarrow> string option \<Rightarrow> hostlist fate" where
  "read_genders_attr qs g query =
    (case g_query g query of None \<Rightarrow> Exits | Some nodes \<Rightarrow> Continues (genders_to_hostlist qs nodes))"

text \<open>\<open>_read_genders\<close> takes the queries off their list, whose rest it leaves.\<close>

definition read_genders ::
  "(hostrange list \<Rightarrow> hostrange list) \<Rightarrow> genders_lib \<Rightarrow> bool \<Rightarrow> string list option
    \<Rightarrow> (hostlist option \<times> string list option) fate option" where
  "read_genders qs g allnodes attrs =
    (case attrs of
       None \<Rightarrow>
         (if allnodes then
            Some (case read_genders_attr qs g None of Exits \<Rightarrow> Exits | Continues hl \<Rightarrow> Continues (Some hl, None))
          else Some (Continues (None, None)))
     | Some as \<Rightarrow>
         if as = [] then Some (Continues (None, attrs))
         else
           map_option (\<lambda>r. case r of Exits \<Rightarrow> Exits | Continues hl \<Rightarrow> Continues (hl, Some []))
             (read_groups qs
               (\<lambda>q. Some (case read_genders_attr qs g (Some q) of Exits \<Rightarrow> Exits | Continues hl \<Rightarrow> Continues (Some hl))) as))"

partial_function (option) intersect_loop ::
  "hostlist \<Rightarrow> hostlist \<Rightarrow> hl_iter \<Rightarrow> hostlist \<Rightarrow> hostlist option" where
  "intersect_loop h1 h2 i r =
    (case hostlist_next h1 i of
       None \<Rightarrow> None
     | Some (None, _) \<Rightarrow> Some r
     | Some (Some host, i) \<Rightarrow>
         (case hostlist_find h2 (Some host) of
            (k, h2) \<Rightarrow> intersect_loop h1 h2 i (if k \<ge> 0 then snd (hostlist_push_host r (Some host)) else r)))"

definition hostlist_intersect :: "hostlist \<Rightarrow> hostlist \<Rightarrow> hostlist option" where
  "hostlist_intersect h1 h2 = intersect_loop h1 h2 (new_iter h1) hostlist_new"

definition genders_query_with_altnames ::
  "(hostrange list \<Rightarrow> hostrange list) \<Rightarrow> genders_lib \<Rightarrow> string \<Rightarrow> hostlist fate option" where
  "genders_query_with_altnames qs g query =
    (case read_genders_attr qs g (Some query) of
       Exits \<Rightarrow> Some Exits
     | Continues r \<Rightarrow>
         (case genders_to_altnames g r of
            None \<Rightarrow> None
          | Some Exits \<Rightarrow> Some Exits
          | Some (Continues alt) \<Rightarrow> Some (Continues (fst (snd (hostlist_push_list r (Some alt)))))))"

fun genders_filter_loop ::
  "(hostrange list \<Rightarrow> hostrange list) \<Rightarrow> genders_lib \<Rightarrow> hostlist \<Rightarrow> string list \<Rightarrow> hostlist \<Rightarrow> hostlist fate option" where
  "genders_filter_loop qs g hl [] result = Some (Continues result)"
| "genders_filter_loop qs g hl (q # queries) result =
    (case genders_query_with_altnames qs g q of
       None \<Rightarrow> None
     | Some Exits \<Rightarrow> Some Exits
     | Some (Continues ghl) \<Rightarrow>
         (case hostlist_intersect hl ghl of
            None \<Rightarrow> None
          | Some r \<Rightarrow> genders_filter_loop qs g hl queries (fst (snd (hostlist_push_list result (Some r))))))"

definition genders_filter ::
  "(hostrange list \<Rightarrow> hostrange list) \<Rightarrow> genders_lib \<Rightarrow> hostlist \<Rightarrow> string list option \<Rightarrow> hostlist fate option" where
  "genders_filter qs g hl queries =
    (case queries of
       None \<Rightarrow> Some (Continues hl)
     | Some queries \<Rightarrow>
         if queries = [] then Some (Continues hl)
         else map_option (\<lambda>r. case r of Exits \<Rightarrow> Exits | Continues result \<Rightarrow> Continues (hostlist_uniq qs result))
           (genders_filter_loop qs g hl queries hostlist_new))"

section \<open>Remote commands\<close>

text \<open>\<open>[user@][rcmd]\<close>: the command and the user\<close>

definition rcmd_type_parse :: "string \<Rightarrow> string option \<times> string option" where
  "rcmd_type_parse val =
    (if CHR ''@'' \<in> set val then
       let user = takeWhile (\<lambda>c. c \<noteq> CHR ''@'') val; p = drop 1 (dropWhile (\<lambda>c. c \<noteq> CHR ''@'') val)
       in (if p = [] then None else Some p, Some user)
     else (Some val, None))"

text \<open>
  The size of the buffer is taken of the pointer, so it is 8 whatever \<open>len\<close> is.
\<close>

definition attrval_by_altname :: "genders_lib \<Rightarrow> string \<Rightarrow> string \<Rightarrow> nat \<Rightarrow> testattr fate" where
  "attrval_by_altname g host attr len =
    (if maxnamelen g = None then Exits
     else Continues (case g_node_of g ALTNAME host of None \<Rightarrow> AttrError | Some node \<Rightarrow> g_testattr g node attr 8))"

partial_function (option) rcmd_types_loop ::
  "genders_lib \<Rightarrow> rcmd_modules \<Rightarrow> errno \<Rightarrow> hostlist \<Rightarrow> hl_iter \<Rightarrow> rcmd_state \<Rightarrow> rcmd_state fate option" where
  "rcmd_types_loop g ms stale hl i st =
    (case hostlist_next hl i of
       None \<Rightarrow> None
     | Some (None, _) \<Rightarrow> Some (Continues st)
     | Some (Some host, i) \<Rightarrow>
         (case (case g_testattr g host ''pdsh_rcmd_type'' 64 of
                  NotFound \<Rightarrow> attrval_by_altname g host ''pdsh_rcmd_type'' 64
                | r \<Rightarrow> Continues r) of
            Exits \<Rightarrow> Some Exits
          | Continues (HasAttr val) \<Rightarrow>
              (case rcmd_type_parse val of
                 (rcmd, user) \<Rightarrow>
                   (case rcmd_register_defaults ms stale st (Some host) rcmd user of
                      None \<Rightarrow> None
                    | Some (_, st) \<Rightarrow> rcmd_types_loop g ms stale hl i st))
          | Continues _ \<Rightarrow> rcmd_types_loop g ms stale hl i st))"

definition register_genders_rcmd_types ::
  "genders_lib \<Rightarrow> rcmd_modules \<Rightarrow> errno \<Rightarrow> options \<Rightarrow> options fate option" where
  "register_genders_rcmd_types g ms stale opt =
    (case wcoll opt of
       None \<Rightarrow> Some (Continues opt)
     | Some hl \<Rightarrow>
         if \<not> g_index_ok g ''pdsh_rcmd_type'' then Some (Continues opt)
         else map_option (\<lambda>r. case r of Exits \<Rightarrow> Exits | Continues st \<Rightarrow> Continues (opt\<lparr>orcmd := st\<rparr>))
           (rcmd_types_loop g ms stale hl (new_iter hl) (orcmd opt)))"

section \<open>The operations of the module\<close>

definition genders_wcoll ::
  "(hostrange list \<Rightarrow> hostrange list) \<Rightarrow> genders_lib \<Rightarrow> host_env \<Rightarrow> options \<Rightarrow> genders_opts
    \<Rightarrow> (hostlist option \<times> genders_opts) fate option" where
  "genders_wcoll qs g sys opt st =
    (if gallnodes st \<and> gattrlist st \<noteq> None then Some Exits
     else if wcoll opt \<noteq> None \<or> \<not> gallnodes st \<and> gattrlist st = None then Some (Continues (None, st))
     else
       case need_handle g sys st of
         Exits \<Rightarrow> Some Exits
       | Continues st \<Rightarrow>
           let st = st\<lparr>ggenalt := True\<rparr>
           in map_option (\<lambda>r. case r of Exits \<Rightarrow> Exits | Continues (hl, as) \<Rightarrow> Continues (hl, st\<lparr>gattrlist := as\<rparr>))
                (read_genders qs g (gallnodes st) (gattrlist st)))"

text \<open>The part of \<open>genders_postop\<close> that takes excluded hosts off\<close>

definition genders_exclude ::
  "(hostrange list \<Rightarrow> hostrange list) \<Rightarrow> genders_lib \<Rightarrow> genders_opts \<Rightarrow> hostlist \<Rightarrow> (hostlist \<times> genders_opts) fate option" where
  "genders_exclude qs g st wc =
    (if gexcllist st = None then Some (Continues (wc, st))
     else
       case read_genders qs g (gallnodes st) (gexcllist st) of
         None \<Rightarrow> None
       | Some Exits \<Rightarrow> Some Exits
       | Some (Continues (None, as)) \<Rightarrow> Some (Continues (wc, st\<lparr>gexcllist := as\<rparr>))
       | Some (Continues (Some hl, as)) \<Rightarrow>
           (case genders_to_altnames g hl of
              None \<Rightarrow> None
            | Some Exits \<Rightarrow> Some Exits
            | Some (Continues alt) \<Rightarrow>
                (case delete_all wc hl of
                   None \<Rightarrow> None
                 | Some (_, wc) \<Rightarrow> map_option (\<lambda>(_, wc). Continues (wc, st\<lparr>gexcllist := as\<rparr>)) (delete_all wc alt))))"

definition genders_postop ::
  "(hostrange list \<Rightarrow> hostrange list) \<Rightarrow> genders_lib \<Rightarrow> host_env \<Rightarrow> rcmd_modules \<Rightarrow> errno \<Rightarrow> options \<Rightarrow> genders_opts
    \<Rightarrow> (options \<times> genders_opts) fate option" where
  "genders_postop qs g sys ms stale opt st =
    (case wcoll opt of
       None \<Rightarrow> Some (Continues (opt, st))
     | Some wc \<Rightarrow>
         (case need_handle g sys st of
            Exits \<Rightarrow> Some Exits
          | Continues st \<Rightarrow>
              (case (if gattrlist st \<noteq> None then genders_filter qs g wc (gattrlist st) else Some (Continues wc)) of
                 None \<Rightarrow> None
               | Some Exits \<Rightarrow> Some Exits
               | Some (Continues wc) \<Rightarrow>
                   (case genders_exclude qs g st wc of
                      None \<Rightarrow> None
                    | Some Exits \<Rightarrow> Some Exits
                    | Some (Continues (wc, st)) \<Rightarrow>
                        (case (if ggenalt st \<noteq> gopt_i st then genders_to_altnames g wc else Some (Continues wc)) of
                           None \<Rightarrow> None
                         | Some Exits \<Rightarrow> Some Exits
                         | Some (Continues wc) \<Rightarrow>
                             map_option (\<lambda>r. case r of Exits \<Rightarrow> Exits | Continues opt \<Rightarrow> Continues (opt, st))
                               (register_genders_rcmd_types g ms stale (opt\<lparr>wcoll := Some wc\<rparr>)))))))"

section \<open>What a query selects\<close>

lemma new_iter_ok: "hl_ok hl \<Longrightarrow> iter_ok (hranges hl) (new_iter hl) \<and> iter_pos (hranges hl) (new_iter hl) = 0"
  by (auto simp: hostlist_iterator_create_def iter_ok_def iter_pos_def before_0 dest: hl_okD(1))

lemma hl_ok_new: "hl_ok hostlist_new" "hosts hostlist_new = []"
  by (simp_all add: hl_ok_def hostlist_new_def hosts_def)

lemma push_nodes:
  assumes "hl_ok hl" "\<forall>n\<in>set ns. NUL \<notin> set n" "length (hosts hl) + length ns < 2 ^ 31"
  shows "hl_ok (foldl (\<lambda>hl n. snd (hostlist_push_host hl (Some n))) hl ns) \<and>
    hosts (foldl (\<lambda>hl n. snd (hostlist_push_host hl (Some n))) hl ns) = hosts hl @ ns"
  using assms
proof (induction ns arbitrary: hl)
  case (Cons n ns)
  obtain k hl' where p: "hostlist_push_host hl (Some n) = (k, hl')" by force
  have "NUL \<notin> set n" "length (hosts hl) + 1 < 2 ^ 31" using Cons.prems by simp_all
  note P = hostlist_push_host_spec [OF Cons.prems(1) this p]
  show ?case using Cons.IH [OF P(2)] Cons.prems p P(3) by simp
qed simp

lemma uniq_sorted:
  assumes "hl_ok hl" "sorts_ranges qs"
  shows "hl_ok (hostlist_uniq qs hl)" "set (hosts (hostlist_uniq qs hl)) = set (hosts hl)"
    "length (hosts (hostlist_uniq qs hl)) \<le> length (hosts hl)"
proof -
  have "list_all range_ok (qs (hranges hl))" "lo_sorted (qs (hranges hl))"
      "mset (map hr_hosts (qs (hranges hl))) = mset (map hr_hosts (hranges hl))"
    using assms(2) hl_okD(1) [OF assms(1)] by (auto simp: sorts_ranges_def)
  note U = hostlist_uniq_spec [where qs = qs, OF assms(1) this]
  then show "hl_ok (hostlist_uniq qs hl)" "set (hosts (hostlist_uniq qs hl)) = set (hosts hl)"
    "length (hosts (hostlist_uniq qs hl)) \<le> length (hosts hl)" by blast+
qed

lemma to_hostlist_spec:
  assumes "\<forall>n\<in>set ns. NUL \<notin> set n" "length ns < 2 ^ 31" "sorts_ranges qs"
  shows "hl_ok (genders_to_hostlist qs ns)" "set (hosts (genders_to_hostlist qs ns)) = set ns"
    "length (hosts (genders_to_hostlist qs ns)) \<le> length ns"
proof -
  have P: "hl_ok (foldl (\<lambda>hl n. snd (hostlist_push_host hl (Some n))) hostlist_new ns)"
    "hosts (foldl (\<lambda>hl n. snd (hostlist_push_host hl (Some n))) hostlist_new ns) = ns"
    using push_nodes [OF hl_ok_new(1) assms(1)] assms(2) hl_ok_new(2) by auto
  show "hl_ok (genders_to_hostlist qs ns)" "set (hosts (genders_to_hostlist qs ns)) = set ns"
    "length (hosts (genders_to_hostlist qs ns)) \<le> length ns"
    using uniq_sorted [OF P(1) assms(3)] P(2) by (simp_all add: genders_to_hostlist_def)
qed

lemma altnames_loop_spec:
  assumes "hl_ok hl" "suffixes_fit hl" "\<forall>h\<in>set (hosts hl). NUL \<notin> set (altname_of g k h)"
    and "iter_ok (hranges hl) i" "hl_ok ret" "length (hosts ret) + (length (hosts hl) - iter_pos (hranges hl) i) < 2 ^ 31"
  shows "\<exists>ret'. altnames_loop g k hl i ret = Some ret' \<and> hl_ok ret' \<and>
    hosts ret' = hosts ret @ map (altname_of g k) (drop (iter_pos (hranges hl) i) (hosts hl))"
  using assms(4-6)
proof (induction "length (hosts hl) - iter_pos (hranges hl) i" arbitrary: i ret)
  case 0
  then obtain i' where "hostlist_next hl i = Some (None, i')"
    using hostlist_next_spec [OF assms(1,2) 0(2)] by auto
  then show ?case using 0 by (subst altnames_loop.simps) simp
next
  case (Suc m)
  let ?p = "iter_pos (hranges hl) i"
  have p: "?p < length (hosts hl)" using Suc(2) by simp
  then obtain i' where i': "hostlist_next hl i = Some (Some (hosts hl ! ?p), i')" "iter_ok (hranges hl) i'"
      "iter_pos (hranges hl) i' = ?p + 1"
    using hostlist_next_spec [OF assms(1,2) Suc(3)] by auto
  obtain n h where d: "hostlist_push_host ret (Some (altname_of g k (hosts hl ! ?p))) = (n, h)" by force
  have "NUL \<notin> set (altname_of g k (hosts hl ! ?p))" "length (hosts ret) + 1 < 2 ^ 31" using assms(3) p Suc(2,5) by simp_all
  note P = hostlist_push_host_spec [OF Suc(4) this d]
  have m: "m = length (hosts hl) - iter_pos (hranges hl) i'" using Suc(2) i'(3) by simp
  have "length (hosts h) + (length (hosts hl) - iter_pos (hranges hl) i') < 2 ^ 31" using Suc(2,5) P(3) i'(3) by simp
  then obtain ret' where "altnames_loop g k hl i' h = Some ret'" "hl_ok ret'"
      "hosts ret' = hosts h @ map (altname_of g k) (drop (?p + 1) (hosts hl))"
    using Suc(1) [OF m i'(2) P(2)] i'(3) by metis
  moreover have "drop ?p (hosts hl) = hosts hl ! ?p # drop (?p + 1) (hosts hl)"
    using p by (simp add: Cons_nth_drop_Suc)
  ultimately show ?case using i'(1) d P(3) by (subst altnames_loop.simps) simp
qed

lemma intersect_loop_spec:
  assumes "hl_ok h1" "suffixes_fit h1" "\<forall>h\<in>set (hosts h1). handy h"
    and "iter_ok (hranges h1) i" "hl_ok h2" "hl_ok r" "length (hosts r) + (length (hosts h1) - iter_pos (hranges h1) i) < 2 ^ 31"
  shows "\<exists>r'. intersect_loop h1 h2 i r = Some r' \<and> hl_ok r' \<and>
    hosts r' = hosts r @ filter (\<lambda>h. h \<in> set (hosts h2)) (drop (iter_pos (hranges h1) i) (hosts h1))"
  using assms(4-7)
proof (induction "length (hosts h1) - iter_pos (hranges h1) i" arbitrary: i h2 r)
  case 0
  then obtain i' where "hostlist_next h1 i = Some (None, i')"
    using hostlist_next_spec [OF assms(1,2) 0(2)] by auto
  then show ?case using 0 by (subst intersect_loop.simps) simp
next
  case (Suc m)
  let ?p = "iter_pos (hranges h1) i"
  let ?h = "hosts h1 ! ?p"
  have p: "?p < length (hosts h1)" using Suc(2) by simp
  then obtain i' where i': "hostlist_next h1 i = Some (Some ?h, i')" "iter_ok (hranges h1) i'"
      "iter_pos (hranges h1) i' = ?p + 1"
    using hostlist_next_spec [OF assms(1,2) Suc(3)] by auto
  have h: "NUL \<notin> set ?h" "findable ?h" using assms(3) p by (simp_all add: handy_def)
  obtain k h2' where f: "hostlist_find h2 (Some ?h) = (k, h2')" by force
  note F = hostlist_find_spec [OF Suc(4) h f]
  define r1 where "r1 = (if k \<ge> 0 then snd (hostlist_push_host r (Some ?h)) else r)"
  have r1: "hl_ok r1 \<and> hosts r1 = hosts r @ (if ?h \<in> set (hosts h2) then [?h] else [])"
  proof (cases "?h \<in> set (hosts h2)")
    case True
    obtain n s where d: "hostlist_push_host r (Some ?h) = (n, s)" by force
    have "length (hosts r) + 1 < 2 ^ 31" using Suc(2,6) by simp
    note P = hostlist_push_host_spec [OF Suc(5) h(1) this d]
    show ?thesis using P(2,3) F(1) True d by (simp add: r1_def)
  next
    case False
    then show ?thesis using F(1) Suc(5) by (simp add: r1_def)
  qed
  have m: "m = length (hosts h1) - iter_pos (hranges h1) i'" using Suc(2) i'(3) by simp
  have "length (hosts r1) \<le> length (hosts r) + 1" using r1 by simp
  then have "length (hosts r1) + (length (hosts h1) - iter_pos (hranges h1) i') < 2 ^ 31" using Suc(6) p i'(3) by linarith
  then obtain r' where "intersect_loop h1 h2' i' r1 = Some r'" "hl_ok r'"
      "hosts r' = hosts r1 @ filter (\<lambda>h. h \<in> set (hosts h2')) (drop (?p + 1) (hosts h1))"
    using Suc(1) [OF m i'(2) F(3)] r1 i'(3) by metis
  moreover have "drop ?p (hosts h1) = ?h # drop (?p + 1) (hosts h1)"
    using p by (simp add: Cons_nth_drop_Suc)
  ultimately show ?case using i'(1) f r1 F(2) by (subst intersect_loop.simps) (simp add: r1_def [symmetric])
qed

text \<open>The nodes of a query and their alternate names\<close>

definition query_names :: "genders_lib \<Rightarrow> string \<Rightarrow> string set" where
  "query_names g q =
    (let ns = set (the (g_query g (Some q))) in ns \<union> altname_of g (the (maxnamelen g)) ` ns)"

definition query_ok :: "genders_lib \<Rightarrow> string \<Rightarrow> bool" where
  "query_ok g q \<longleftrightarrow>
    (case g_query g (Some q) of
       None \<Rightarrow> False
     | Some ns \<Rightarrow> 2 * length ns < 2 ^ 31 \<and> (\<forall>n\<in>set ns. handy n \<and> NUL \<notin> set (altname_of g (the (maxnamelen g)) n)))"

lemma query_with_altnames_spec:
  assumes "query_ok g q" "maxnamelen g = Some k" "sorts_ranges qs"
  shows "\<exists>r. genders_query_with_altnames qs g q = Some (Continues r) \<and> hl_ok r \<and> set (hosts r) = query_names g q"
proof -
  obtain ns where ns: "g_query g (Some q) = Some ns" "2 * length ns < 2 ^ 31"
      "\<forall>n\<in>set ns. handy n \<and> NUL \<notin> set (altname_of g k n)"
    using assms(1,2) by (auto simp: query_ok_def split: option.splits)
  let ?r = "genders_to_hostlist qs ns"
  have R: "hl_ok ?r" "set (hosts ?r) = set ns" "length (hosts ?r) \<le> length ns"
    using to_hostlist_spec [of ns qs] ns assms(3) by (simp_all add: handy_def)
  have f: "suffixes_fit ?r" using suffixes_fit_hosts [OF hl_okD(1) [OF R(1)]] R(2) ns(3) by (simp add: handy_def)
  obtain alt where alt: "altnames_loop g k ?r (new_iter ?r) hostlist_new = Some alt" "hl_ok alt"
      "hosts alt = map (altname_of g k) (hosts ?r)"
    using altnames_loop_spec [OF R(1) f _ conjunct1 [OF new_iter_ok [OF R(1)]] hl_ok_new(1), of g k] new_iter_ok [OF R(1)]
      R(2,3) ns(2,3) hl_ok_new(2) by auto
  obtain n h h2 where p: "hostlist_push_list ?r (Some alt) = (n, h, h2)" by (metis prod_cases3)
  have "length (hosts ?r) + length (hosts alt) < 2 ^ 31" using alt(3) R(3) ns(2) by simp
  note P = hostlist_push_list_spec [OF R(1) alt(2) this p]
  have "genders_query_with_altnames qs g q = Some (Continues h)"
    by (simp add: genders_query_with_altnames_def read_genders_attr_def ns(1) genders_to_altnames_def assms(2) alt(1) p)
  then show ?thesis using P(1,2) alt(3) R(2) by (simp add: query_names_def ns(1) assms(2) Let_def)
qed

lemma filter_loop_spec:
  assumes "list_all (query_ok g) queries" "maxnamelen g = Some k" "sorts_ranges qs"
    and "hl_ok hl" "\<forall>h\<in>set (hosts hl). handy h"
    and "hl_ok r" "length (hosts r) + length queries * length (hosts hl) < 2 ^ 31"
  shows "\<exists>r'. genders_filter_loop qs g hl queries r = Some (Continues r') \<and> hl_ok r' \<and>
    set (hosts r') = set (hosts r) \<union> {h \<in> set (hosts hl). \<exists>q\<in>set queries. h \<in> query_names g q}"
  using assms(1,6,7)
proof (induction queries arbitrary: r)
  case (Cons q queries)
  have f: "suffixes_fit hl" using suffixes_fit_hosts [OF hl_okD(1) [OF assms(4)]] assms(5) by (simp add: handy_def)
  obtain ghl where ghl: "genders_query_with_altnames qs g q = Some (Continues ghl)" "hl_ok ghl" "set (hosts ghl) = query_names g q"
    using query_with_altnames_spec [OF _ assms(2,3), of q] Cons.prems(1) by auto
  obtain x where x: "hostlist_intersect hl ghl = Some x" "hl_ok x" "hosts x = filter (\<lambda>h. h \<in> query_names g q) (hosts hl)"
    using intersect_loop_spec [OF assms(4) f assms(5) conjunct1 [OF new_iter_ok [OF assms(4)]] ghl(2) hl_ok_new(1)]
      new_iter_ok [OF assms(4)] hl_okD(3) [OF assms(4)] hl_ok_new(2) ghl(3) by (auto simp: hostlist_intersect_def)
  obtain n h h2 where p: "hostlist_push_list r (Some x) = (n, h, h2)" by (metis prod_cases3)
  have "length (hosts x) \<le> length (hosts hl)" using x(3) by simp
  then have l: "length (hosts r) + length (hosts x) < 2 ^ 31" "length (hosts r) + length (hosts x) + length queries * length (hosts hl) < 2 ^ 31"
    using Cons.prems(3) by simp_all
  note P = hostlist_push_list_spec [OF Cons.prems(2) x(2) l(1) p]
  show ?case
    using Cons.IH [OF _ P(1)] Cons.prems(1) l(2) P(2) x(1,3) ghl(1) p by auto
qed simp

lemma genders_filter_spec:
  assumes "list_all (query_ok g) queries" "queries \<noteq> []" "maxnamelen g = Some k" "sorts_ranges qs"
    and "hl_ok hl" "\<forall>h\<in>set (hosts hl). handy h" "length queries * length (hosts hl) < 2 ^ 31"
  shows "\<exists>hl'. genders_filter qs g hl (Some queries) = Some (Continues hl') \<and> hl_ok hl' \<and>
    set (hosts hl') = {h \<in> set (hosts hl). \<exists>q\<in>set queries. h \<in> query_names g q}"
proof -
  obtain r where r: "genders_filter_loop qs g hl queries hostlist_new = Some (Continues r)" "hl_ok r"
      "set (hosts r) = {h \<in> set (hosts hl). \<exists>q\<in>set queries. h \<in> query_names g q}"
    using filter_loop_spec [OF assms(1,3-6) hl_ok_new(1)] assms(7) hl_ok_new(2) by auto
  then show ?thesis using uniq_sorted [OF r(2) assms(4)] assms(2) by (simp add: genders_filter_def)
qed

section \<open>A value that is too long\<close>

text \<open>\<open>genders_testattr\<close> stores a value with its terminator, and fails if the buffer is too small.\<close>

definition stores_values :: "genders_lib \<Rightarrow> bool" where
  "stores_values g \<longleftrightarrow> (\<forall>node attr. \<exists>v. (\<forall>len. g_testattr g node attr len =
    (case v of Inl r \<Rightarrow> r | Inr s \<Rightarrow> if length s < len then HasAttr s else AttrError)) \<and> (\<forall>r s. v = Inl r \<longrightarrow> r \<noteq> HasAttr s))"

lemma altname_value_lost:
  assumes "stores_values g" "g_node_of g ALTNAME host = Some node" "g_testattr g node attr len = HasAttr val" "8 \<le> length val"
    and "maxnamelen g \<noteq> None"
  shows "attrval_by_altname g host attr len = Continues AttrError"
proof -
  obtain v where v: "\<And>len. g_testattr g node attr len =
      (case v of Inl r \<Rightarrow> r | Inr s \<Rightarrow> if length s < len then HasAttr s else AttrError)" "\<And>r s. v = Inl r \<Longrightarrow> r \<noteq> HasAttr s"
    using assms(1) unfolding stores_values_def by metis
  have "v = Inr val" using v(1) [of len] v(2) assms(3) by (cases v) (auto split: if_splits)
  then show ?thesis using v(1) [of 8] assms(2,4,5) by (simp add: attrval_by_altname_def)
qed

lemma rcmd_type_parse_text:
  assumes "CHR ''@'' \<notin> set user" "rcmd \<noteq> []"
  shows "rcmd_type_parse (user @ ''@'' @ rcmd) = (Some rcmd, Some user)" "rcmd_type_parse (user @ ''@'') = (None, Some user)"
    "rcmd_type_parse user = (Some user, None)"
proof -
  have "takeWhile (\<lambda>c. c \<noteq> CHR ''@'') (user @ CHR ''@'' # t) = user" for t
    using assms(1) by (subst takeWhile_append2) auto
  moreover have "dropWhile (\<lambda>c. c \<noteq> CHR ''@'') (user @ CHR ''@'' # t) = CHR ''@'' # t" for t
    using assms(1) by (subst dropWhile_append2) auto
  ultimately show "rcmd_type_parse (user @ ''@'' @ rcmd) = (Some rcmd, Some user)" "rcmd_type_parse (user @ ''@'') = (None, Some user)"
    "rcmd_type_parse user = (Some user, None)" using assms by (simp_all add: rcmd_type_parse_def)
qed

end
