(* ===== verification/Batch_Targets.thy ===== *)
theory Batch_Targets
  imports Genders
begin

text \<open>
  Target hosts from batch systems and from the state of nodes: \<open>modules/slurm.c\<close>,
  \<open>modules/torque.c\<close> and \<open>modules/nodeupdown.c\<close>. The libraries of these systems are
  parameters; the lists of options are kept as sequences. \<open>None\<close> is a run that does not
  return.
\<close>

section \<open>Common to both batch systems\<close>

definition str2jobid :: "string option \<Rightarrow> int fate" where
  "str2jobid str =
    (case str of
       None \<Rightarrow> Continues (-1)
     | Some s \<Rightarrow> let (jid, p) = strtoul s in if p \<noteq> [] then Exits else Continues (int_of_ulong jid))"

definition uniq_fate ::
  "(hostrange list \<Rightarrow> hostrange list) \<Rightarrow> (hostlist option \<times> 'a) fate option \<Rightarrow> (hostlist option \<times> 'a) fate option" where
  "uniq_fate qs = map_option (\<lambda>r. case r of Exits \<Rightarrow> Exits | Continues (hl, l) \<Rightarrow> Continues (map_option (hostlist_uniq qs) hl, l))"

section \<open>SLURM\<close>

text \<open>The answers of the controller, or \<open>None\<close> if it cannot be reached\<close>

record slurm_job =
  job_id :: "32 word"
  job_running :: bool
  job_nodes :: "string option"

record slurm_partition =
  part_name :: string
  part_nodes :: "string option"

record slurm_node =
  node_name :: "string option"
  features_act :: "string option"
  features :: "string option"

record slurm_lib =
  load_jobs :: "slurm_job list option"
  load_partitions :: "slurm_partition list option"
  load_node :: "slurm_node list option"

record slurm_opts =
  job_list :: "string list option"
  partition_list :: "string list option"
  constraint_list :: "string list option"

definition slurm_process_opt :: "slurm_opts \<Rightarrow> char \<Rightarrow> string \<Rightarrow> int \<times> slurm_opts" where
  "slurm_process_opt st c arg =
    (0,
     if c = CHR ''j'' then st\<lparr>job_list := split_append (job_list st) arg\<rparr>
     else if c = CHR ''P'' then st\<lparr>partition_list := split_append (partition_list st) arg\<rparr>
     else if c = CHR ''C'' then st\<lparr>constraint_list := split_append (constraint_list st) arg\<rparr>
     else st)"

definition append_hostlist :: "hostlist option \<Rightarrow> hostlist \<Rightarrow> hostlist" where
  "append_hostlist hl1 hl2 =
    (let hl = (case hl1 of None \<Rightarrow> hostlist_new | Some hl \<Rightarrow> hl) in fst (snd (hostlist_push_list hl (Some hl2))))"

definition slurm_jobid :: "host_env \<Rightarrow> int fate" where
  "slurm_jobid sys = str2jobid (getenv sys ''SLURM_JOBID'')"

text \<open>
  \<open>list_delete_all\<close> with \<open>_find_id\<close>, which ends the program at an entry that is not a
  number, and with \<open>_find_str\<close>
\<close>

definition jobid_requested :: "string list option \<Rightarrow> 32 word \<Rightarrow> (nat \<times> string list option) fate" where
  "jobid_requested l jid =
    (case l of
       None \<Rightarrow> Continues (0, None)
     | Some l \<Rightarrow>
         let is_id = (\<lambda>s. case str2jobid (Some s) of Exits \<Rightarrow> False | Continues n \<Rightarrow> word_of_int n = jid)
         in if list_ex (\<lambda>s. str2jobid (Some s) = Exits) l then Exits
            else Continues (length (filter is_id l), Some (filter (\<lambda>s. \<not> is_id s) l)))"

definition partition_requested :: "string list option \<Rightarrow> string \<Rightarrow> nat \<times> string list option" where
  "partition_requested l name =
    (case l of
       None \<Rightarrow> (0, None)
     | Some l \<Rightarrow> (length (filter ((=) name) l), Some (filter ((\<noteq>) name) l)))"

definition alljobids_requested :: "string list option \<Rightarrow> nat \<times> string list option" where
  "alljobids_requested l = partition_requested l ''all''"

definition hl_append :: "errno \<Rightarrow> hostlist option \<Rightarrow> string option \<Rightarrow> hostlist option option" where
  "hl_append stale hl nodes =
    (case hl of
       None \<Rightarrow> map_option (\<lambda>r. case r of Inl _ \<Rightarrow> None | Inr hl \<Rightarrow> Some hl) (hostlist_create stale nodes)
     | Some hl \<Rightarrow> map_option (\<lambda>(_, hl). Some hl) (hostlist_push stale hl nodes))"

text \<open>The loop of \<open>_slurm_wcoll\<close> over the jobs\<close>

fun slurm_jobs_loop ::
  "errno \<Rightarrow> bool \<Rightarrow> int \<Rightarrow> slurm_job list \<Rightarrow> hostlist option \<Rightarrow> string list option
    \<Rightarrow> (hostlist option \<times> string list option) fate option" where
  "slurm_jobs_loop stale alljobids envjobid [] hl l = Some (Continues (hl, l))"
| "slurm_jobs_loop stale alljobids envjobid (j # js) hl l =
    (if alljobids \<and> job_running j then
       (case hl_append stale hl (job_nodes j) of
          None \<Rightarrow> None
        | Some hl \<Rightarrow> slurm_jobs_loop stale alljobids envjobid js hl l)
     else if l = None \<and> job_id j = word_of_int envjobid then
       map_option (\<lambda>hl. Continues (hl, l)) (hl_append stale None (job_nodes j))
     else
       (case jobid_requested l (job_id j) of
          Exits \<Rightarrow> Some Exits
        | Continues (n, l) \<Rightarrow>
            if n > 0 then
              (case hl_append stale hl (job_nodes j) of
                 None \<Rightarrow> None
               | Some hl \<Rightarrow>
                   if l = Some [] then Some (Continues (hl, l)) else slurm_jobs_loop stale alljobids envjobid js hl l)
            else slurm_jobs_loop stale alljobids envjobid js hl l))"

definition slurm_wcoll ::
  "(hostrange list \<Rightarrow> hostrange list) \<Rightarrow> slurm_lib \<Rightarrow> host_env \<Rightarrow> errno \<Rightarrow> string list option
    \<Rightarrow> (hostlist option \<times> string list option) fate option" where
  "slurm_wcoll qs sl sys stale joblist =
    (case (if joblist = None then slurm_jobid sys else Continues 0) of
       Exits \<Rightarrow> Some Exits
     | Continues envjobid \<Rightarrow>
         if envjobid < 0 then Some (Continues (None, joblist))
         else
           (case load_jobs sl of
              None \<Rightarrow> Some Exits
            | Some js \<Rightarrow>
                (case alljobids_requested joblist of
                   (n, l) \<Rightarrow> uniq_fate qs (slurm_jobs_loop stale (n > 0) envjobid js None l))))"

fun partitions_loop ::
  "errno \<Rightarrow> slurm_partition list \<Rightarrow> hostlist option \<Rightarrow> string list option
    \<Rightarrow> (hostlist option \<times> string list option) fate option" where
  "partitions_loop stale [] hl l = Some (Continues (hl, l))"
| "partitions_loop stale (p # ps) hl l =
    (case partition_requested l (part_name p) of
       (n, l) \<Rightarrow>
         if n > 0 then
           (case hl_append stale hl (part_nodes p) of
              None \<Rightarrow> None
            | Some hl \<Rightarrow> if l = Some [] then Some (Continues (hl, l)) else partitions_loop stale ps hl l)
         else partitions_loop stale ps hl l)"

text \<open>The partitions left in the list are those the warnings name.\<close>

definition slurm_wcoll_partition ::
  "(hostrange list \<Rightarrow> hostrange list) \<Rightarrow> slurm_lib \<Rightarrow> errno \<Rightarrow> string list option
    \<Rightarrow> (hostlist option \<times> string list option) fate option" where
  "slurm_wcoll_partition qs sl stale l =
    (case load_partitions sl of
       None \<Rightarrow> Some Exits
     | Some ps \<Rightarrow> uniq_fate qs (partitions_loop stale ps None l))"

function features_include :: "string \<Rightarrow> string \<Rightarrow> bool" where
  "features_include f c =
    (let f = dropWhile (\<lambda>x. x = CHR '','') f; rest = drop (length c) f; r = dropWhile (\<lambda>x. x \<noteq> CHR '','') f
     in if take (length c) f = c \<and> (rest = [] \<or> hd rest = CHR '','') then True
        else if r = [] then False
        else features_include r c)"
  by pat_completeness auto

lemma features_rest_shorter:
  assumes "dropWhile (\<lambda>x. x \<noteq> CHR '','') (dropWhile (\<lambda>x. x = CHR '','') f) \<noteq> []"
  shows "length (dropWhile (\<lambda>x. x \<noteq> CHR '','') (dropWhile (\<lambda>x. x = CHR '','') f)) < length f"
proof -
  define g where "g = dropWhile (\<lambda>x. x = CHR '','') f"
  have "g \<noteq> []" using assms by (auto simp: g_def [symmetric])
  moreover from this have "hd g \<noteq> CHR '',''" using hd_dropWhile [of "\<lambda>x. x = CHR '',''" f] by (simp add: g_def)
  ultimately have "dropWhile (\<lambda>x. x \<noteq> CHR '','') g = dropWhile (\<lambda>x. x \<noteq> CHR '','') (tl g)" by (cases g) simp_all
  then have "length (dropWhile (\<lambda>x. x \<noteq> CHR '','') g) \<le> length (tl g)" using length_dropWhile_le by metis
  moreover have "length g \<le> length f" unfolding g_def by (rule length_dropWhile_le)
  ultimately show ?thesis using \<open>g \<noteq> []\<close> by (cases g) (simp_all add: g_def [symmetric])
qed

termination features_include
  by (relation "measure (length \<circ> fst)") (use features_rest_shorter in simp_all)

declare features_include.simps [simp del]

text \<open>
  The loop of \<open>_slurm_wcoll_constraint\<close>: a host is pushed once for each constraint its
  features include, as \<open>continue\<close> goes on with the next constraint. \<open>None\<close> is the use of
  the null pointer for a list of targets.
\<close>

definition constraint_matches :: "slurm_node \<Rightarrow> string list \<Rightarrow> nat" where
  "constraint_matches n cs =
    (case (case features_act n of None \<Rightarrow> features n | Some f \<Rightarrow> Some f) of
       None \<Rightarrow> 0
     | Some f \<Rightarrow> length (filter (features_include f) cs))"

fun constraint_loop ::
  "string list \<Rightarrow> slurm_node list \<Rightarrow> hostlist option \<Rightarrow> hostlist \<Rightarrow> hostlist option" where
  "constraint_loop cs [] wl hl = Some hl"
| "constraint_loop cs (n # ns) wl hl =
    (case node_name n of
       None \<Rightarrow> constraint_loop cs ns wl hl
     | Some name \<Rightarrow>
         (case wl of
            None \<Rightarrow> None
          | Some wl \<Rightarrow>
              (case hostlist_find wl (Some name) of
                 (k, wl) \<Rightarrow>
                   constraint_loop cs ns (Some wl)
                     (if k < 0 then hl
                      else ((\<lambda>hl. snd (hostlist_push_host hl (Some name))) ^^ constraint_matches n cs) hl))))"

definition slurm_wcoll_constraint :: "slurm_lib \<Rightarrow> hostlist option \<Rightarrow> string list \<Rightarrow> hostlist fate option" where
  "slurm_wcoll_constraint sl wl cs =
    (case load_node sl of
       None \<Rightarrow> Some Exits
     | Some ns \<Rightarrow> map_option Continues (constraint_loop cs ns wl hostlist_new))"

definition mod_slurm_wcoll ::
  "(hostrange list \<Rightarrow> hostrange list) \<Rightarrow> slurm_lib \<Rightarrow> host_env \<Rightarrow> errno \<Rightarrow> options \<Rightarrow> slurm_opts
    \<Rightarrow> (options \<times> slurm_opts) fate option" where
  "mod_slurm_wcoll qs sl sys stale opt st =
    (case (if partition_list st = None then Some (Continues (None, None)) else slurm_wcoll_partition qs sl stale (partition_list st)) of
       None \<Rightarrow> None
     | Some Exits \<Rightarrow> Some Exits
     | Some (Continues (hlp, pl)) \<Rightarrow>
         (case (if job_list st = None then Some (Continues (None, None)) else slurm_wcoll qs sl sys stale (job_list st)) of
            None \<Rightarrow> None
          | Some Exits \<Rightarrow> Some Exits
          | Some (Continues (hlj, jl)) \<Rightarrow>
              (case (if hlp = None \<and> hlj = None \<and> wcoll opt = None
                     then map_option (\<lambda>r. case r of Exits \<Rightarrow> Exits | Continues (hl, _) \<Rightarrow> Continues hl) (slurm_wcoll qs sl sys stale None)
                     else Some (Continues hlj)) of
                 None \<Rightarrow> None
               | Some Exits \<Rightarrow> Some Exits
               | Some (Continues hlj) \<Rightarrow>
                   let st = st\<lparr>partition_list := pl, job_list := jl\<rparr>;
                       wc = (case hlp of None \<Rightarrow> wcoll opt | Some hl \<Rightarrow> Some (append_hostlist (wcoll opt) hl));
                       wc = (case hlj of None \<Rightarrow> wc | Some hl \<Rightarrow> Some (append_hostlist wc hl))
                   in (case constraint_list st of
                         None \<Rightarrow> Some (Continues (opt\<lparr>wcoll := wc\<rparr>, st))
                       | Some cs \<Rightarrow>
                           map_option (\<lambda>r. case r of Exits \<Rightarrow> Exits | Continues hl \<Rightarrow> Continues (opt\<lparr>wcoll := Some hl\<rparr>, st))
                             (slurm_wcoll_constraint sl wc cs)))))"

section \<open>TORQUE\<close>

text \<open>
  The sizes of the library, the name of the server, and what \<open>pbs_statjob\<close> gives for a job:
  an error, no attributes, or the list of its hosts.
\<close>

datatype statjob = NoJob | NoAttribs | ExecHost string

record pbs_lib =
  PBS_MAXSEQNUM :: nat
  PBS_MAXSERVERNAME :: nat
  PBS_MAXHOSTNAME :: nat
  pbs_connects :: bool
  pbs_statserver :: "string option"
  pbs_statjob :: "string \<Rightarrow> statjob"

definition torque_process_opt :: "string list option \<Rightarrow> char \<Rightarrow> string \<Rightarrow> int \<times> string list option" where
  "torque_process_opt l c arg = (0, if c = CHR ''j'' then split_append l arg else l)"

text \<open>
  \<open>None\<close> when \<open>strncpy\<close> leaves the job without a terminator.
\<close>

definition create_fq_jobid :: "pbs_lib \<Rightarrow> string \<Rightarrow> string \<Rightarrow> string fate option" where
  "create_fq_jobid pbs jobid servername =
    (case str2jobid (Some jobid) of
       Exits \<Rightarrow> Some Exits
     | Continues n \<Rightarrow>
         if n < 0 then Some (Continues [])
         else if length jobid \<ge> PBS_MAXSEQNUM pbs then None
         else Some (Continues (jobid @ ''.'' @ take (PBS_MAXSERVERNAME pbs) servername)))"

definition next_hname :: "string \<Rightarrow> string option" where
  "next_hname p =
    (case dropWhile (\<lambda>c. c \<noteq> CHR ''+'') (dropWhile (\<lambda>c. c \<noteq> CHR ''/'') p) of
       [] \<Rightarrow> None
     | _ # p \<Rightarrow> Some p)"

definition copy_hname :: "pbs_lib \<Rightarrow> string \<Rightarrow> string" where
  "copy_hname pbs src = take (PBS_MAXHOSTNAME pbs - 2) (takeWhile (\<lambda>c. c \<noteq> CHR ''/'') src)"

definition hl_append_host :: "errno \<Rightarrow> hostlist option \<Rightarrow> string \<Rightarrow> hostlist option option" where
  "hl_append_host stale hl node =
    (case hl of
       None \<Rightarrow> hl_append stale None (Some node)
     | Some hl \<Rightarrow> Some (Some (snd (hostlist_push_host hl (Some node)))))"

lemma next_hname_shorter: "next_hname p = Some q \<Longrightarrow> length q < length p"
proof -
  assume a: "next_hname p = Some q"
  define g where "g = dropWhile (\<lambda>c. c \<noteq> CHR ''/'') p"
  have "length (dropWhile (\<lambda>c. c \<noteq> CHR ''+'') g) \<le> length g" "length g \<le> length p"
    unfolding g_def by (rule length_dropWhile_le)+
  then show ?thesis using a by (simp add: next_hname_def g_def [symmetric] split: list.splits)
qed

function exec_hosts :: "pbs_lib \<Rightarrow> string \<Rightarrow> string list" where
  "exec_hosts pbs p = copy_hname pbs p # (case next_hname p of None \<Rightarrow> [] | Some q \<Rightarrow> exec_hosts pbs q)"
  by pat_completeness auto
termination exec_hosts
  by (relation "measure (length \<circ> snd)") (simp_all add: next_hname_shorter)

declare exec_hosts.simps [simp del]

fun append_hosts :: "errno \<Rightarrow> string list \<Rightarrow> hostlist option \<Rightarrow> hostlist option option" where
  "append_hosts stale [] hl = Some hl"
| "append_hosts stale (h # hs) hl =
    (case hl_append_host stale hl h of None \<Rightarrow> None | Some hl \<Rightarrow> append_hosts stale hs hl)"

definition add_jobnodes :: "pbs_lib \<Rightarrow> errno \<Rightarrow> hostlist option \<Rightarrow> string \<Rightarrow> hostlist option option" where
  "add_jobnodes pbs stale hl jobdesc =
    (case pbs_statjob pbs jobdesc of
       NoJob \<Rightarrow> Some hl
     | NoAttribs \<Rightarrow> Some hl
     | ExecHost v \<Rightarrow> append_hosts stale (exec_hosts pbs v) hl)"

fun torque_jobs_loop :: "pbs_lib \<Rightarrow> errno \<Rightarrow> string \<Rightarrow> string list \<Rightarrow> hostlist option \<Rightarrow> hostlist option fate option" where
  "torque_jobs_loop pbs stale servername [] hl = Some (Continues hl)"
| "torque_jobs_loop pbs stale servername (j # js) hl =
    (case create_fq_jobid pbs j servername of
       None \<Rightarrow> None
     | Some Exits \<Rightarrow> Some Exits
     | Some (Continues jobid) \<Rightarrow>
         (case add_jobnodes pbs stale hl jobid of
            None \<Rightarrow> None
          | Some hl \<Rightarrow> torque_jobs_loop pbs stale servername js hl))"

text \<open>What \<open>strtok\<close> leaves of the name of the server\<close>

definition server_name :: "string \<Rightarrow> string" where
  "server_name name =
    (let r = dropWhile (\<lambda>c. c = CHR '':'') name
     in takeWhile (\<lambda>c. c = CHR '':'') name @ takeWhile (\<lambda>c. c \<noteq> CHR '':'') r)"

definition torque_wcoll ::
  "(hostrange list \<Rightarrow> hostrange list) \<Rightarrow> pbs_lib \<Rightarrow> host_env \<Rightarrow> errno \<Rightarrow> string list option \<Rightarrow> hostlist option fate option" where
  "torque_wcoll qs pbs sys stale joblist =
    (if joblist = None \<and> getenv sys ''PBS_JOBID'' = None then Some (Continues None)
     else if \<not> pbs_connects pbs then Some Exits
     else
       case pbs_statserver pbs of
         None \<Rightarrow> Some Exits
       | Some name \<Rightarrow>
           if length name \<ge> PBS_MAXSERVERNAME pbs then None
           else
             map_option (\<lambda>r. case r of Exits \<Rightarrow> Exits | Continues hl \<Rightarrow> Continues (map_option (hostlist_uniq qs) hl))
               (case joblist of
                  Some js \<Rightarrow> torque_jobs_loop pbs stale (server_name name) js None
                | None \<Rightarrow> map_option Continues (add_jobnodes pbs stale None (the (getenv sys ''PBS_JOBID'')))))"

definition mod_torque_wcoll ::
  "(hostrange list \<Rightarrow> hostrange list) \<Rightarrow> pbs_lib \<Rightarrow> host_env \<Rightarrow> errno \<Rightarrow> options \<Rightarrow> string list option \<Rightarrow> options fate option" where
  "mod_torque_wcoll qs pbs sys stale opt joblist =
    (if joblist \<noteq> None \<and> wcoll opt \<noteq> None then Some Exits
     else if wcoll opt \<noteq> None then Some (Continues opt)
     else map_option (\<lambda>r. case r of Exits \<Rightarrow> Exits | Continues hl \<Rightarrow> Continues (opt\<lparr>wcoll := hl\<rparr>))
       (torque_wcoll qs pbs sys stale joblist))"

section \<open>Nodes that are down\<close>

text \<open>
  The answers of the library: \<open>None\<close> if its handle or its data cannot be had. The loop runs on
  the first iterator of the list.
\<close>

partial_function (option) remove_down_loop :: "(string \<Rightarrow> bool) \<Rightarrow> hostlist \<Rightarrow> hostlist option" where
  "remove_down_loop down hl =
    (case hostlist_next hl (ilist hl ! 0) of
       None \<Rightarrow> None
     | Some (host, i) \<Rightarrow>
         let hl = hl\<lparr>ilist := (ilist hl)[0 := i]\<rparr>
         in case host of
              None \<Rightarrow> Some hl
            | Some host \<Rightarrow>
                if down host then
                  (case hostlist_remove hl 0 of
                     None \<Rightarrow> None
                   | Some (_, hl) \<Rightarrow> remove_down_loop down hl)
                else remove_down_loop down hl)"

definition remove_all_down_nodes :: "(string \<Rightarrow> bool) option \<Rightarrow> hostlist \<Rightarrow> hostlist fate option" where
  "remove_all_down_nodes lib hl =
    (case lib of
       None \<Rightarrow> Some Exits
     | Some down \<Rightarrow>
         map_option (\<lambda>hl. Continues (hostlist_iterator_destroy hl 0)) (remove_down_loop down (hostlist_iterator_create hl)))"

definition mod_nodeupdown_postop :: "(string \<Rightarrow> bool) option \<Rightarrow> bool \<Rightarrow> options \<Rightarrow> options fate option" where
  "mod_nodeupdown_postop lib verify opt =
    (case wcoll opt of
       None \<Rightarrow> Some (Continues opt)
     | Some hl \<Rightarrow>
         if \<not> verify then Some (Continues opt)
         else map_option (\<lambda>r. case r of Exits \<Rightarrow> Exits | Continues hl \<Rightarrow> Continues (opt\<lparr>wcoll := Some hl\<rparr>))
           (remove_all_down_nodes lib hl))"

section \<open>What they select\<close>

text \<open>A feature is included exactly if it is one of the fields between the commas.\<close>

lemma features_include_joined:
  assumes "c \<noteq> []" "CHR '','' \<notin> set c" "list_all (\<lambda>f. f \<noteq> [] \<and> CHR '','' \<notin> set f) fs"
  shows "features_include (joined '','' fs) c \<longleftrightarrow> c \<in> set fs"
    "fs \<noteq> [] \<Longrightarrow> features_include (CHR '','' # joined '','' fs) c \<longleftrightarrow> c \<in> set fs"
proof -
  have comma: "features_include (CHR '','' # f) c = features_include f c" for f
    by (subst (1 2) features_include.simps) simp
  have field: "features_include (f @ t) c \<longleftrightarrow> c = f \<or> t \<noteq> [] \<and> features_include t c"
    if f: "f \<noteq> []" "CHR '','' \<notin> set f" and t: "t = [] \<or> hd t = CHR '',''" for f t
  proof -
    have d: "dropWhile (\<lambda>x. x = CHR '','') (f @ t) = f @ t" using f by (cases f) auto
    have r: "dropWhile (\<lambda>x. x \<noteq> CHR '','') (f @ t) = t"
      using f(2) t by (subst dropWhile_append2) (auto simp: dropWhile_eq_self_iff)
    have C: "(take (length c) (f @ t) = c \<and> (drop (length c) (f @ t) = [] \<or> hd (drop (length c) (f @ t)) = CHR '','')) = (c = f)"
    proof
      assume a: "take (length c) (f @ t) = c \<and> (drop (length c) (f @ t) = [] \<or> hd (drop (length c) (f @ t)) = CHR '','')"
      consider "length c < length f" | "length c = length f" | "length f < length c" by linarith
      then show "c = f"
      proof cases
        case 1
        then have "hd (drop (length c) (f @ t)) = f ! length c" "drop (length c) (f @ t) \<noteq> []"
          by (simp_all add: hd_drop_conv_nth nth_append)
        then show ?thesis using a f(2) 1 nth_mem by metis
      next
        case 3
        then have "t \<noteq> [] \<and> c = f @ take (length c - length f) t" using a by (cases t) auto
        moreover have "take (length c - length f) t = hd t # take (length c - length f - 1) (tl t)" if "t \<noteq> []"
          using that 3 by (cases t; cases "length c - length f") simp_all
        ultimately have "hd t \<in> set c" by (metis in_set_conv_decomp)
        then show ?thesis using assms(2) t \<open>t \<noteq> [] \<and> _\<close> by auto
      next
        case 2
        then show ?thesis using a by simp
      qed
    next
      assume "c = f"
      then show "take (length c) (f @ t) = c \<and> (drop (length c) (f @ t) = [] \<or> hd (drop (length c) (f @ t)) = CHR '','')"
        using t by simp
    qed
    have "features_include (f @ t) c = (if c = f then True else if t = [] then False else features_include t c)"
      by (subst features_include.simps) (simp only: d r Let_def C)
    then show ?thesis by simp
  qed
  have empty: "\<not> features_include [] c" using assms(1) by (subst features_include.simps) simp
  show J: "features_include (joined '','' fs) c \<longleftrightarrow> c \<in> set fs"
    using assms(3)
  proof (induction "'',''" fs rule: joined.induct)
    case (2 f)
    then show ?case using field [of f "[]"] by auto
  next
    case (3 f g fs)
    then show ?case using field [of f "CHR '','' # joined '','' (g # fs)"] comma by auto
  qed (simp add: empty)
  show "features_include (CHR '','' # joined '','' fs) c \<longleftrightarrow> c \<in> set fs"
    using J comma by simp
qed

text \<open>The hosts of a job, listed as \<open>host/slot+host/slot\<close>\<close>

lemma exec_hosts_joined:
  assumes "hss \<noteq> []" "list_all (\<lambda>(h, s). CHR ''/'' \<notin> set h \<and> CHR ''+'' \<notin> set s) hss"
  shows "exec_hosts pbs (joined ''+'' (map (\<lambda>(h, s). h @ ''/'' @ s) hss)) = map (\<lambda>(h, _). take (PBS_MAXHOSTNAME pbs - 2) h) hss"
proof -
  let ?e = "\<lambda>(h, s). h @ ''/'' @ s"
  have c: "copy_hname pbs (h @ CHR ''/'' # t) = take (PBS_MAXHOSTNAME pbs - 2) h" if "CHR ''/'' \<notin> set h" for h t
  proof -
    have "takeWhile (\<lambda>c. c \<noteq> CHR ''/'') (h @ CHR ''/'' # t) = h" using that by (subst takeWhile_append2) auto
    then show ?thesis by (simp add: copy_hname_def)
  qed
  have n: "next_hname (h @ CHR ''/'' # s @ t) = (case t of [] \<Rightarrow> None | _ # q \<Rightarrow> Some q)"
    if "CHR ''/'' \<notin> set h" "CHR ''+'' \<notin> set s" "t = [] \<or> hd t = CHR ''+''" for h s t
  proof -
    have "dropWhile (\<lambda>c. c \<noteq> CHR ''/'') (h @ CHR ''/'' # s @ t) = CHR ''/'' # s @ t" using that(1) by (subst dropWhile_append2) auto
    moreover have "dropWhile (\<lambda>c. c \<noteq> CHR ''+'') (CHR ''/'' # s @ t) = t"
      using that(2,3) by (simp, subst dropWhile_append2) (auto simp: dropWhile_eq_self_iff)
    ultimately show ?thesis by (simp add: next_hname_def)
  qed
  show ?thesis using assms
  proof (induction hss rule: induct_list012)
    case (2 x)
    obtain h s where x: "x = (h, s)" by force
    show ?case using 2 c [of h s] n [of h s "[]"] by (subst exec_hosts.simps) (simp add: x)
  next
    case (3 x y zs)
    obtain h s where x: "x = (h, s)" by force
    let ?t = "joined ''+'' (map ?e (y # zs))"
    have "joined ''+'' (map ?e (x # y # zs)) = h @ CHR ''/'' # s @ CHR ''+'' # ?t" by (simp add: x)
    moreover have "next_hname (h @ CHR ''/'' # s @ CHR ''+'' # ?t) = Some ?t"
      using n [of h s "CHR ''+'' # ?t"] 3(4) x by simp
    moreover have "exec_hosts pbs ?t = map (\<lambda>(h, _). take (PBS_MAXHOSTNAME pbs - 2) h) (y # zs)" using 3(2,4) by simp
    ultimately show ?case using c [of h] 3(4) x by (subst exec_hosts.simps) simp
  qed simp
qed

text \<open>The hosts that pass the constraints, each as often as there are constraints it meets\<close>

lemma push_repeated:
  assumes "hl_ok hl" "NUL \<notin> set n" "length (hosts hl) + k < 2 ^ 31"
  shows "hl_ok (((\<lambda>hl. snd (hostlist_push_host hl (Some n))) ^^ k) hl) \<and>
    hosts (((\<lambda>hl. snd (hostlist_push_host hl (Some n))) ^^ k) hl) = hosts hl @ replicate k n"
  using assms(3)
proof (induction k)
  case (Suc k)
  let ?h = "((\<lambda>hl. snd (hostlist_push_host hl (Some n))) ^^ k) hl"
  obtain m h where p: "hostlist_push_host ?h (Some n) = (m, h)" by force
  have I: "hl_ok ?h" "hosts ?h = hosts hl @ replicate k n" using Suc by simp_all
  have "length (hosts ?h) + 1 < 2 ^ 31" using I(2) Suc(2) by simp
  note P = hostlist_push_host_spec [OF I(1) assms(2) this p]
  show ?case using P(2,3) p I(2) by (simp add: replicate_append_same)
qed (use assms in simp)

lemma constraint_loop_spec:
  assumes "hl_ok wl" "hl_ok hl" "\<forall>n\<in>set ns. \<exists>name. node_name n = Some name \<and> NUL \<notin> set name \<and> findable name"
    and "length (hosts hl) + sum_list (map (\<lambda>n. constraint_matches n cs) ns) < 2 ^ 31"
  shows "\<exists>hl'. constraint_loop cs ns (Some wl) hl = Some hl' \<and> hl_ok hl' \<and>
    hosts hl' = hosts hl @ concat (map (\<lambda>n. replicate (constraint_matches n cs) (the (node_name n)))
      (filter (\<lambda>n. the (node_name n) \<in> set (hosts wl)) ns))"
  using assms
proof (induction ns arbitrary: wl hl)
  case (Cons n ns)
  obtain name where name: "node_name n = Some name" "NUL \<notin> set name" "findable name" using Cons.prems(3) by auto
  obtain k wl' where f: "hostlist_find wl (Some name) = (k, wl')" by force
  note F = hostlist_find_spec [OF Cons.prems(1) name(2,3) f]
  define h where "h = (if k < 0 then hl else ((\<lambda>hl. snd (hostlist_push_host hl (Some name))) ^^ constraint_matches n cs) hl)"
  have "length (hosts hl) + constraint_matches n cs < 2 ^ 31" using Cons.prems(4) by simp
  note P = push_repeated [OF Cons.prems(2) name(2) this]
  have k: "k < 0 \<longleftrightarrow> name \<notin> set (hosts wl)" using F(1) by simp
  have h: "hl_ok h" "hosts h = hosts hl @ (if name \<in> set (hosts wl) then replicate (constraint_matches n cs) name else [])"
    using P Cons.prems(2) k by (simp_all add: h_def name(1))
  then have "length (hosts h) + sum_list (map (\<lambda>n. constraint_matches n cs) ns) < 2 ^ 31" using Cons.prems(4) by simp
  then show ?case
    using Cons.IH [OF F(3) h(1)] Cons.prems(3) h(2) F(2) f name(1) by (auto simp: h_def [symmetric])
qed simp

text \<open>Nodes that are down are removed during the iteration, as with a regular expression.\<close>

lemma remove_down_filters:
  assumes "filter_regex_loop (\<lambda>_ h. if down h then RegMatch else RegNoMatch) \<lparr>rexclude = True, rpattern = p\<rparr> hl = Some hl'"
  shows "remove_down_loop down hl = Some hl'"
proof -
  let ?r = "\<lambda>_ h. if down h then RegMatch else RegNoMatch" let ?re = "\<lparr>rexclude = True, rpattern = p\<rparr>"
  show ?thesis
  proof (rule filter_regex_loop.raw_induct [where P = "\<lambda>regexec re hl hl'. regexec = ?r \<longrightarrow> re = ?re \<longrightarrow> remove_down_loop down hl = Some hl'",
        OF _ assms, THEN mp, THEN mp])
    fix f :: "(string \<Rightarrow> string \<Rightarrow> regexec_rc) \<Rightarrow> regex_info \<Rightarrow> hostlist \<Rightarrow> hostlist option" and regexec re hl hl'
    let ?P = "\<lambda>regexec re hl hl'. regexec = ?r \<longrightarrow> re = ?re \<longrightarrow> remove_down_loop down hl = Some hl'"
    assume IH: "\<And>regexec re hl hl'. f regexec re hl = Some hl' \<Longrightarrow> ?P regexec re hl hl'"
      and run: "(case hostlist_next hl (ilist hl ! 0) of
          None \<Rightarrow> None
        | Some (host, i) \<Rightarrow>
            let hl = hl\<lparr>ilist := (ilist hl)[0 := i]\<rparr>
            in case host of
                 None \<Rightarrow> Some hl
               | Some host \<Rightarrow>
                   let rc = regexec (rpattern re) host
                   in if rexclude re \<and> rc = RegMatch \<or> \<not> rexclude re \<and> rc = RegNoMatch then
                        case hostlist_remove hl 0 of
                          None \<Rightarrow> None
                        | Some (_, hl) \<Rightarrow> f regexec re hl
                      else f regexec re hl) = Some hl'"
    show "?P regexec re hl hl'"
    proof (intro impI)
      assume e: "regexec = ?r" "re = ?re"
      have step: "f ?r ?re h = Some hl' \<Longrightarrow> remove_down_loop down h = Some hl'" for h
        using IH [of ?r ?re h hl'] by simp
      show "remove_down_loop down hl = Some hl'"
      proof (cases "hostlist_next hl (ilist hl ! 0)")
        case None
        then show ?thesis using run by simp
      next
        case (Some hi)
        then show ?thesis using run step
          by (cases hi; cases "fst hi")
            (subst remove_down_loop.simps, auto simp: e Let_def split: option.splits if_splits)+
      qed
    qed
  qed simp_all
qed

lemma remove_down_spec:
  assumes "hl_ok hl" "suffixes_fit hl"
  shows "\<exists>hl'. remove_all_down_nodes (Some down) hl = Some (Continues hl') \<and> hl_ok hl' \<and>
    hosts hl' = filter (\<lambda>h. \<not> down h) (hosts hl)"
proof -
  let ?r = "\<lambda>_ h. if down h then RegMatch else RegNoMatch" let ?re = "\<lparr>rexclude = True, rpattern = []\<rparr>"
  obtain h where h: "hostlist_filter_regex ?r hl ?re = Some h" "hl_ok h" "hosts h = filter (regex_keeps ?r ?re) (hosts hl)"
    using hostlist_filter_regex_spec [OF assms, of ?r ?re] by blast
  then obtain l where l: "filter_regex_loop ?r ?re (hostlist_iterator_create hl) = Some l" "h = hostlist_iterator_destroy l 0"
    by (auto simp: hostlist_filter_regex_def)
  have "regex_keeps ?r ?re = (\<lambda>h. \<not> down h)" by (simp add: regex_keeps_def fun_eq_iff)
  then show ?thesis
    using remove_down_filters [OF l(1)] h(2,3) l(2) by (simp add: remove_all_down_nodes_def)
qed

end
