(* ===== verification/Fd_Io.thy ===== *)
theory Fd_Io
  imports Cbuf_IO XString
begin

text \<open>
  Wrappers around calls of the system: reading and writing whole blocks (\<open>common/fd.c\<close>),
  waiting for descriptors (\<open>common/xpoll.c\<close>, as it is built with \<open>poll\<close>), and
  reserved ports from a privileged child (\<open>pdsh/privsep.c\<close>). What the system does is a
  parameter.
\<close>

section \<open>Whole blocks\<close>

text \<open>The events of the descriptor are consumed one by one; without events the input has ended.\<close>

fun fd_read_n :: "rd_event list \<Rightarrow> nat \<Rightarrow> byte list result \<times> rd_event list" where
  "fd_read_n es 0 = (Inr [], es)"
| "fd_read_n [] (Suc n) = (Inr [], [])"
| "fd_read_n (RdIntr # es) (Suc n) = fd_read_n es (Suc n)"
| "fd_read_n (RdErr e # es) (Suc n) = (Inl e, es)"
| "fd_read_n (RdData bs # es) (Suc n) =
    (if bs = [] then (Inr [], es)
     else if length bs > Suc n then (Inr (take (Suc n) bs), RdData (drop (Suc n) bs) # es)
     else case fd_read_n es (Suc n - length bs) of
            (Inl e, es) \<Rightarrow> (Inl e, es)
          | (Inr r, es) \<Rightarrow> (Inr (bs @ r), es))"

text \<open>A descriptor whose events are used up takes everything.\<close>

fun fd_write_n :: "wr_event list \<Rightarrow> byte list \<Rightarrow> byte list \<Rightarrow> int result \<times> fd_out" where
  "fd_write_n es out [] = (Inr 0, \<lparr>fd_events = es, fd_bytes = out\<rparr>)"
| "fd_write_n [] out bs = (Inr (int (length bs)), \<lparr>fd_events = [], fd_bytes = out @ bs\<rparr>)"
| "fd_write_n (WrIntr # es) out bs = fd_write_n es out bs"
| "fd_write_n (WrErr e # es) out bs = (Inl e, \<lparr>fd_events = es, fd_bytes = out\<rparr>)"
| "fd_write_n (WrAccept k # es) out bs =
    (case fd_write_n es (out @ take k bs) (drop k bs) of
       (Inl e, o') \<Rightarrow> (Inl e, o')
     | (Inr _, o') \<Rightarrow> (Inr (int (length bs)), o'))"

text \<open>\<open>fd_null_read_n\<close> stops behind the read that has brought a null byte.\<close>

fun fd_null_read_n :: "rd_event list \<Rightarrow> nat \<Rightarrow> byte list result \<times> rd_event list" where
  "fd_null_read_n es 0 = (Inr [], es)"
| "fd_null_read_n [] (Suc n) = (Inr [], [])"
| "fd_null_read_n (RdIntr # es) (Suc n) = fd_null_read_n es (Suc n)"
| "fd_null_read_n (RdErr e # es) (Suc n) = (Inl e, es)"
| "fd_null_read_n (RdData bs # es) (Suc n) =
    (if bs = [] then (Inr [], es)
     else
       let r = take (Suc n) bs; es = (if length bs > Suc n then RdData (drop (Suc n) bs) # es else es)
       in if NUL \<in> set r then (Inr r, es)
          else case fd_null_read_n es (Suc n - length r) of
                 (Inl e, es) \<Rightarrow> (Inl e, es)
               | (Inr t, es) \<Rightarrow> (Inr (r @ t), es))"

text \<open>Without errors exactly the first bytes are read, as many as there are before the end.\<close>

definition no_errors :: "rd_event list \<Rightarrow> bool" where
  "no_errors es \<longleftrightarrow> list_all (\<lambda>e. case e of RdErr _ \<Rightarrow> False | RdData bs \<Rightarrow> bs \<noteq> [] | RdIntr \<Rightarrow> True) es"

lemma fd_read_n_reads:
  assumes "no_errors es"
  shows "\<exists>es'. fd_read_n es n = (Inr (take n (fd_rest es)), es') \<and> fd_rest es' = drop n (fd_rest es) \<and> no_errors es'"
  using assms
proof (induction es n rule: fd_read_n.induct)
  case (5 bs es n)
  then have bs: "bs \<noteq> []" "no_errors es" by (simp_all add: no_errors_def)
  show ?case
  proof (cases "length bs > Suc n")
    case True
    then show ?thesis using bs by (simp add: no_errors_def)
  next
    case False
    then obtain es' where "fd_read_n es (Suc n - length bs) = (Inr (take (Suc n - length bs) (fd_rest es)), es')"
        "fd_rest es' = drop (Suc n - length bs) (fd_rest es)" "no_errors es'"
      using 5(1) bs by blast
    then show ?thesis using False bs by simp
  qed
qed (auto simp: no_errors_def)

text \<open>Whatever blocks the descriptor takes, all bytes go out in order or an error is returned.\<close>

lemma fd_write_n_writes:
  "case fd_write_n es out bs of
     (Inr n, o') \<Rightarrow> n = int (length bs) \<and> fd_bytes o' = out @ bs
   | (Inl e, o') \<Rightarrow> \<exists>k \<le> length bs. fd_bytes o' = out @ take k bs"
proof (induction es out bs rule: fd_write_n.induct)
  case (5 k es out b bs)
  define r where "r = fd_write_n es (out @ take k (b # bs)) (drop k (b # bs))"
  show ?case
  proof (cases r)
    case (Pair x o')
    show ?thesis
    proof (cases x)
      case (Inl e)
      then obtain j where j: "j \<le> length (drop k (b # bs))" "fd_bytes o' = (out @ take k (b # bs)) @ take j (drop k (b # bs))"
        using 5 Pair unfolding r_def by auto
      have "take k (b # bs) @ take j (drop k (b # bs)) = take (k + j) (b # bs)" by (rule take_add [symmetric])
      then have "fd_bytes o' = out @ take (min (k + j) (length (b # bs))) (b # bs)" using j(2) by (simp add: min_def)
      then show ?thesis using Pair Inl unfolding r_def by (auto simp: min_def split: if_splits intro: exI [of _ "k + j"])
    next
      case (Inr n)
      then have "fd_bytes o' = (out @ take k (b # bs)) @ drop k (b # bs)"
        using 5 Pair unfolding r_def by simp
      then show ?thesis using Pair Inr unfolding r_def by (simp only: fd_write_n.simps) simp
    qed
  qed
qed auto

section \<open>Waiting\<close>

definition XPOLLREAD :: "16 word" where "XPOLLREAD = 0x0001"
definition XPOLLWRITE :: "16 word" where "XPOLLWRITE = 0x0002"
definition XPOLLINVAL :: "16 word" where "XPOLLINVAL = 0x0010"
definition XPOLLERR :: "16 word" where "XPOLLERR = 0x0020"

record xpollfd =
  xfd :: int
  events :: "16 word"
  revents :: "16 word"

text \<open>What \<open>poll\<close> is asked for and answers for one descriptor\<close>

record pollfd =
  pfd :: int
  pollin :: bool
  pollout :: bool

record poll_answer =
  got_in :: bool
  got_out :: bool
  got_err :: bool
  got_hup :: bool
  got_nval :: bool

unbundle bit_operations_syntax

definition to_pollfd :: "xpollfd \<Rightarrow> pollfd" where
  "to_pollfd x = \<lparr>pfd = xfd x, pollin = (events x AND XPOLLREAD \<noteq> 0), pollout = (events x AND XPOLLWRITE \<noteq> 0)\<rparr>"

definition from_answer :: "poll_answer \<Rightarrow> xpollfd \<Rightarrow> xpollfd" where
  "from_answer a x =
    (let x = (if got_in a then x\<lparr>revents := revents x OR XPOLLREAD\<rparr> else x);
         x = (if got_out a then x\<lparr>revents := revents x OR XPOLLWRITE\<rparr> else x);
         x = (if got_err a \<or> got_hup a then x\<lparr>revents := revents x OR XPOLLERR\<rparr> else x)
     in if got_nval a then x\<lparr>revents := revents x OR XPOLLINVAL\<rparr> else x)"

text \<open>\<open>poll\<close> gives its result and an answer for each descriptor, or fails.\<close>

definition xpoll ::
  "(pollfd list \<Rightarrow> int \<Rightarrow> (int \<times> poll_answer list) result) \<Rightarrow> xpollfd list option \<Rightarrow> int \<Rightarrow> int result \<times> xpollfd list option" where
  "xpoll poll xfds timeout =
    (case xfds of
       None \<Rightarrow> (Inl EINVAL, None)
     | Some xs \<Rightarrow>
         if xs = [] then (Inl EINVAL, Some xs)
         else
           let xs = map (\<lambda>x. x\<lparr>revents := 0\<rparr>) xs
           in case poll (map to_pollfd xs) timeout of
                Inl e \<Rightarrow> (Inl e, Some xs)
              | Inr (rv, as) \<Rightarrow> (Inr rv, Some (map2 from_answer as xs)))"

section \<open>Reserved ports\<close>

definition AF_INET :: "32 word" where "AF_INET = 2"

text \<open>The family and the port in one \<open>int\<close>; the shifts act on its bits.\<close>

definition privsep_get_family :: "32 word \<Rightarrow> 32 word \<times> 32 word" where
  "privsep_get_family lport =
    (let family = signed_drop_bit 16 lport AND 0xffff
     in (if family \<noteq> 0 then family else AF_INET, lport AND 0xffff))"

definition privsep_set_family :: "32 word \<Rightarrow> 32 word \<Rightarrow> 32 word option" where
  "privsep_set_family lport family =
    (if (0xffff :: 32 word) <s family then None else Some (lport OR push_bit 16 family))"

text \<open>
  \<open>rresvport_af\<close> gives for a port and a family the socket, or \<open>None\<close>, and the port it
  leaves. The child answers a request with the socket and the port, and with the port \<open>-1\<close>
  alone if there is no socket.
\<close>

type_synonym rresvport = "32 word \<Rightarrow> 32 word \<Rightarrow> int option \<times> 32 word"

definition serve_request :: "rresvport \<Rightarrow> 32 word \<Rightarrow> int option \<times> 32 word" where
  "serve_request rresv req =
    (case privsep_get_family req of
       (family, lport) \<Rightarrow>
         (case rresv lport family of
            (None, _) \<Rightarrow> (None, -1)
          | (Some s, lport) \<Rightarrow> (Some s, lport)))"

definition recv_rresvport :: "int option \<times> 32 word \<Rightarrow> int option \<times> 32 word" where
  "recv_rresvport answer = (case answer of (s, lport) \<Rightarrow> (if lport <s 0 then None else s, lport))"

definition privsep_rresvport_af :: "rresvport \<Rightarrow> bool \<Rightarrow> rresvport" where
  "privsep_rresvport_af rresv privileged_child lport family =
    (if \<not> privileged_child then rresv lport family
     else
       case privsep_set_family lport family of
         None \<Rightarrow> (None, lport)
       | Some req \<Rightarrow> recv_rresvport (serve_request rresv req))"

definition privsep_rresvport :: "rresvport \<Rightarrow> bool \<Rightarrow> 32 word \<Rightarrow> int option \<times> 32 word" where
  "privsep_rresvport rresv privileged_child lport = privsep_rresvport_af rresv privileged_child lport AF_INET"

text \<open>A port and a family of 16 bits each are read back.\<close>

lemma family_read_back:
  assumes "unat lport < 2 ^ 16" "0 < unat family" "unat family < 2 ^ 16"
  shows "\<exists>req. privsep_set_family lport family = Some req \<and> privsep_get_family req = (family, lport)"
proof -
  have m: "(0xffff :: 32 word) = mask 16" by (simp add: mask_eq_exp_minus_1)
  have f: "\<not> bit family i" "\<not> bit lport i" if "16 \<le> i" for i
  proof -
    have "take_bit 16 (unat family) = unat family" "take_bit 16 (unat lport) = unat lport"
      using assms by (simp_all add: take_bit_nat_eq_self)
    then have "\<not> bit (unat family) i" "\<not> bit (unat lport) i" using that by (metis bit_take_bit_iff leD)+
    then show "\<not> bit family i" "\<not> bit lport i" by (simp_all add: bit_unsigned_iff bit_imp_le_length)
  qed
  have "int (unat family) < int (2 ^ 16)" using assms(3) by (simp only: of_nat_less_iff)
  then have u: "0 \<le> uint family" "uint family < 65536" by simp_all
  moreover have "(65536 :: int) < 2 ^ 31" by simp
  ultimately have "- (2 ^ 31) \<le> uint family" "uint family < 2 ^ 31" by linarith+
  then have "signed_take_bit 31 (uint family) = uint family" by (rule signed_take_bit_int_eq_self)
  then have "sint family \<le> 65535" using u by (simp add: sint_uint)
  moreover have "sint (0xffff :: 32 word) = 65535" by simp
  ultimately have s: "\<not> (0xffff :: 32 word) <s family" by (simp add: word_sless_alt)
  let ?req = "lport OR push_bit 16 family"
  have g: "bit family i \<Longrightarrow> i < 16" "bit lport i \<Longrightarrow> i < 16" for i using f by (meson not_le)+
  have "signed_drop_bit 16 ?req AND 0xffff = family"
    unfolding m using f by (intro bit_word_eqI) (auto simp: bit_simps dest: g)
  moreover have "?req AND 0xffff = lport"
    unfolding m using f by (intro bit_word_eqI) (auto simp: bit_simps dest: g)
  moreover have "family \<noteq> 0" using assms(2) by auto
  ultimately show ?thesis using s by (simp add: privsep_set_family_def privsep_get_family_def Let_def)
qed

text \<open>
  The client gets from the child what \<open>rresvport_af\<close> would have given itself, if that leaves
  ports that are not negative.
\<close>

lemma privsep_transparent:
  assumes "unat lport < 2 ^ 16" "0 < unat family" "unat family < 2 ^ 16"
    and "\<And>s p. rresv lport family = (Some s, p) \<Longrightarrow> \<not> p <s 0"
  shows "fst (privsep_rresvport_af rresv True lport family) = fst (privsep_rresvport_af rresv False lport family)"
    "fst (privsep_rresvport_af rresv True lport family) \<noteq> None \<Longrightarrow>
      privsep_rresvport_af rresv True lport family = privsep_rresvport_af rresv False lport family"
proof -
  obtain req where r: "privsep_set_family lport family = Some req" "privsep_get_family req = (family, lport)"
    using family_read_back [OF assms(1-3)] by blast
  have n: "(-1 :: 32 word) <s 0" by (simp add: word_sless_alt)
  show "fst (privsep_rresvport_af rresv True lport family) = fst (privsep_rresvport_af rresv False lport family)"
    "fst (privsep_rresvport_af rresv True lport family) \<noteq> None \<Longrightarrow>
      privsep_rresvport_af rresv True lport family = privsep_rresvport_af rresv False lport family"
    using r n assms(4) by (auto simp: privsep_rresvport_af_def serve_request_def recv_rresvport_def split: prod.split option.split)
qed

end
