(* ===== verification/Rcmd_Modules.thy ===== *)
theory Rcmd_Modules
  imports Fd_Io
begin

text \<open>
  Modules that connect to a daemon of the remote host: \<open>modules/xrcmd.c\<close> (rsh),
  \<open>modules/mcmd.c\<close> (mrsh) and \<open>modules/xcpucmd.c\<close>. What the system, the network
  and the remote host do is a parameter; the signal mask and most messages are left out.
\<close>

section \<open>Connections\<close>

text \<open>
  What a call returns, the value of \<open>*fd2p\<close>, the blocks written to the connection as far as
  they were taken, and the descriptors that were closed.
\<close>

record conn =
  cres :: int
  cfd2 :: int
  cwrote :: "string list"
  cclosed :: "int list"

definition conn0 :: "int \<Rightarrow> conn" where
  "conn0 fd2 = \<lparr>cres = -1, cfd2 = fd2, cwrote = [], cclosed = []\<rparr>"

definition close_fd :: "int \<Rightarrow> conn \<Rightarrow> conn" where
  "close_fd fd c = c\<lparr>cclosed := cclosed c @ [fd]\<rparr>"

text \<open>The ends \<open>bad\<close> and \<open>bad2\<close>\<close>

definition bad :: "int \<Rightarrow> conn \<Rightarrow> conn" where
  "bad s c = close_fd s (c\<lparr>cres := -1\<rparr>)"

definition bad2 :: "bool \<Rightarrow> int \<Rightarrow> conn \<Rightarrow> conn" where
  "bad2 lport s c = bad s (if lport then close_fd (cfd2 c) c else c)"

definition send :: "(string \<Rightarrow> int) \<Rightarrow> string \<Rightarrow> conn \<Rightarrow> int \<times> conn" where
  "send wr bs c = (wr bs, c\<lparr>cwrote := cwrote c @ [take (nat (wr bs)) bs]\<rparr>)"

section \<open>rsh\<close>

definition IPPORT_RESERVED :: nat where "IPPORT_RESERVED = 1024"

datatype connect_answer = Connected | AddrInUse | Refused | ConnectFailed

text \<open>
  The loop that finds a port: for each try what \<open>rresvport\<close> and \<open>connect\<close> answer. It
  gives the socket and its port, if there is one, and the sockets that were closed; \<open>None\<close> is a
  loop that still tries.
\<close>

fun connect_loop ::
  "bool \<Rightarrow> (rresvport \<times> connect_answer) list \<Rightarrow> nat \<Rightarrow> 32 word \<Rightarrow> int list \<Rightarrow> ((int \<times> 32 word) option \<times> int list) option" where
  "connect_loop child [] timo lport cl = None"
| "connect_loop child ((rr, a) # as) timo lport cl =
    (case privsep_rresvport rr child lport of
       (None, _) \<Rightarrow> Some (None, cl)
     | (Some s, lport) \<Rightarrow>
         if a = Connected then Some (Some (s, lport), cl)
         else if a = AddrInUse then connect_loop child as timo (lport - 1) (cl @ [s])
         else if a = Refused \<and> timo \<le> 16 then connect_loop child as (timo * 2) lport (cl @ [s])
         else Some (None, cl @ [s]))"

text \<open>
  The connection: the results of writing; the answers of \<open>rresvport\<close> and \<open>xpoll\<close>, that is
  its result and whether the connection itself is ready; the descriptor, port and family of
  \<open>accept\<close>; and what can be read, or an error.
\<close>

record rsh_io =
  io_write :: "string \<Rightarrow> int"
  io_rresv :: rresvport
  io_poll :: "int \<times> bool"
  io_accept :: "(int \<times> nat \<times> bool) option"
  io_in :: "string option"

definition rsh_stderr :: "bool \<Rightarrow> rsh_io \<Rightarrow> int \<Rightarrow> 32 word \<Rightarrow> conn \<Rightarrow> conn + 32 word \<times> conn" where
  "rsh_stderr child io s lport c =
    (case privsep_rresvport (io_rresv io) child lport of
       (None, _) \<Rightarrow> Inl (bad s c)
     | (Some s2, lport) \<Rightarrow>
         let num = take 7 (show_int 1 (sint lport)); (n, c) = send (io_write io) (num @ [NUL]) c
         in if n \<noteq> int (length num) + 1 then Inl (bad s (close_fd s2 c))
            else if fst (io_poll io) \<noteq> 1 \<or> snd (io_poll io) then Inl (bad s (close_fd s2 c))
            else
              let c = close_fd s2 c
              in case io_accept io of
                   None \<Rightarrow> Inl (bad s c)
                 | Some (s3, port, inet) \<Rightarrow>
                     let c = c\<lparr>cfd2 := s3\<rparr>
                     in if \<not> inet \<or> IPPORT_RESERVED \<le> port \<or> port < IPPORT_RESERVED div 2
                        then Inl (bad2 (lport \<noteq> 0) s c)
                        else Inr (lport, c))"

text \<open>
  The error string of the daemon behind its first byte, with a line feed; it is stored without
  regard to the size of the buffer.
\<close>

definition rsh_error :: "char \<Rightarrow> string \<Rightarrow> string option" where
  "rsh_error c rest =
    (let line = takeWhile (\<lambda>x. x \<noteq> LF) rest @ (if LF \<in> set rest then [LF] else []);
         msg = line @ (if last (c # line) \<noteq> LF then [LF] else [])
     in if length msg < LINEBUFSIZE then Some msg else None)"

text \<open>\<open>None\<close> is a run that does not return, or that has overrun the buffer.\<close>

definition rsh_start :: "rsh_io \<Rightarrow> int \<Rightarrow> 32 word \<Rightarrow> string \<Rightarrow> string \<Rightarrow> string \<Rightarrow> conn \<Rightarrow> conn option" where
  "rsh_start io s lport locuser remuser cmd c =
    (let lp = (lport \<noteq> 0); (n1, c1) = send (io_write io) (locuser @ [NUL]) c;
         (n2, c2) = send (io_write io) (remuser @ [NUL]) c1; (n3, c3) = send (io_write io) (cmd @ [NUL]) c2
     in if n1 < 0 then Some (bad2 lp s c1)
        else if n2 < 0 then Some (bad2 lp s c2)
        else if n3 < 0 then Some (bad2 lp s c3)
        else
          case io_in io of
            None \<Rightarrow> Some (bad2 lp s c3)
          | Some [] \<Rightarrow> Some (bad2 lp s c3)
          | Some (b # rest) \<Rightarrow>
              if b \<noteq> NUL then map_option (\<lambda>_. bad2 lp s c3) (rsh_error b rest)
              else Some (c3\<lparr>cres := s\<rparr>))"

definition xrcmd ::
  "bool \<Rightarrow> (rresvport \<times> connect_answer) list \<Rightarrow> rsh_io \<Rightarrow> bool \<Rightarrow> int \<Rightarrow> string \<Rightarrow> string \<Rightarrow> string \<Rightarrow> conn option" where
  "xrcmd child tries io want_err fd2 locuser remuser cmd =
    (case connect_loop child tries 1 (of_nat IPPORT_RESERVED - 1) [] of
       None \<Rightarrow> None
     | Some (None, cl) \<Rightarrow> Some ((conn0 fd2)\<lparr>cclosed := cl\<rparr>)
     | Some (Some (s, lport), cl) \<Rightarrow>
         let c = (conn0 fd2)\<lparr>cclosed := cl\<rparr>
         in if want_err then
              (case rsh_stderr child io s (lport - 1) c of
                 Inl c \<Rightarrow> Some c
               | Inr (lport, c) \<Rightarrow> rsh_start io s lport locuser remuser cmd c)
            else
              (case send (io_write io) [NUL] c of
                 (n, c) \<Rightarrow> if n \<noteq> 1 then Some (bad s c) else rsh_start io s 0 locuser remuser cmd c))"

text \<open>The signal goes to the remote process through the descriptor for standard error.\<close>

definition xrcmd_signal :: "int \<Rightarrow> int \<Rightarrow> (int \<times> string) list" where
  "xrcmd_signal efd signum = (if efd \<ge> 0 then [(efd, [char_of (nat signum)])] else [])"

section \<open>mrsh\<close>

definition MRSH_PROTOCOL_VERSION :: string where "MRSH_PROTOCOL_VERSION = ''2.1''"
definition MRSH_LOCALHOST_KEY :: string where "MRSH_LOCALHOST_KEY = ''LHOST''"
definition MRSH_LOCALHOST_KEYLEN :: nat where "MRSH_LOCALHOST_KEYLEN = 5"

text \<open>The random number of \<open>mcmd_init\<close>: the words \<open>read\<close> gives, or too few bytes\<close>

fun mcmd_init :: "nat \<Rightarrow> nat \<Rightarrow> bool \<Rightarrow> bool \<Rightarrow> 32 word option list \<Rightarrow> 32 word option option" where
  "mcmd_init euid uid setuid_ok open_ok [] = (if euid = 0 \<and> uid \<noteq> 0 \<and> \<not> setuid_ok \<or> \<not> open_ok then Some None else None)"
| "mcmd_init euid uid setuid_ok open_ok (r # rs) =
    (if euid = 0 \<and> uid \<noteq> 0 \<and> \<not> setuid_ok \<or> \<not> open_ok then Some None
     else case r of
            None \<Rightarrow> Some None
          | Some w \<Rightarrow> if w = 0 then mcmd_init euid uid setuid_ok open_ok rs else Some (Some w))"

text \<open>\<open>None\<close> for an error; the empty string if the host is another one\<close>

definition encode_localhost_string :: "string \<Rightarrow> string \<Rightarrow> nat \<Rightarrow> string option" where
  "encode_localhost_string host hostname maxlen =
    (if host \<noteq> ''localhost'' \<and> host \<noteq> ''127.0.0.1'' then Some []
     else if maxlen < MRSH_LOCALHOST_KEYLEN then None
     else Some (MRSH_LOCALHOST_KEY @ take (maxlen - MRSH_LOCALHOST_KEYLEN) hostname))"

definition dotted :: "byte list \<Rightarrow> string" where
  "dotted bs =
    show_int 1 (of_char (bs ! 0)) @ ''.'' @ show_int 1 (of_char (bs ! 1)) @ ''.'' @
    show_int 1 (of_char (bs ! 2)) @ ''.'' @ show_int 1 (of_char (bs ! 3))"

text \<open>The message: strings with their terminators, and one more null byte\<close>

definition mrsh_fields :: "string \<Rightarrow> string \<Rightarrow> string \<Rightarrow> string \<Rightarrow> string \<Rightarrow> string list" where
  "mrsh_fields remuser haddrdot num num_seq cmd = [remuser, MRSH_PROTOCOL_VERSION, haddrdot, num, num_seq, cmd]"

definition mrsh_message :: "string \<Rightarrow> string \<Rightarrow> string \<Rightarrow> string \<Rightarrow> string \<Rightarrow> string" where
  "mrsh_message remuser haddrdot num num_seq cmd =
    concat (map (\<lambda>f. f @ [NUL]) (mrsh_fields remuser haddrdot num num_seq cmd)) @ [NUL]"

text \<open>
  The sockets for the connection and for standard error, with the answers of the calls on them;
  \<open>munge_encode\<close>; and the bytes that can be read from both. The name of the host is shorter
  than its buffer.
\<close>

record mrsh_io =
  m_socket :: "int option"
  m_bind :: bool
  m_connect :: bool
  m_socket2 :: "int option"
  m_bind2 :: bool
  m_port :: "nat option"
  m_listen :: bool
  m_hostname :: string
  m_munge :: "string \<Rightarrow> string option"
  m_write :: "string \<Rightarrow> int"
  m_poll :: "int \<times> bool"
  m_accept :: "(int \<times> bool) option"
  m_verify :: "rd_event list"
  m_in :: "string option"

text \<open>The socket for standard error and its port: 0 without one\<close>

definition mrsh_listen :: "mrsh_io \<Rightarrow> bool \<Rightarrow> int \<Rightarrow> conn \<Rightarrow> conn + int \<times> nat" where
  "mrsh_listen io want_err s c =
    (if \<not> want_err then Inr (-1, 0)
     else
       case m_socket2 io of
         None \<Rightarrow> Inl (bad s c)
       | Some s2 \<Rightarrow>
           if \<not> m_bind2 io then Inl (bad s (close_fd s2 c))
           else
             case m_port io of
               None \<Rightarrow> Inl (bad s (close_fd s2 c))
             | Some port \<Rightarrow> if \<not> m_listen io then Inl (bad s (close_fd s2 c)) else Inr (s2, port))"

definition ntohl :: "byte list \<Rightarrow> 32 word" where
  "ntohl bs = foldl (\<lambda>w b. push_bit 8 w OR of_char b) 0 bs"

text \<open>The connection of the daemon, on which it sends the random number back\<close>

definition mrsh_accept :: "mrsh_io \<Rightarrow> 32 word \<Rightarrow> int \<Rightarrow> int \<Rightarrow> nat \<Rightarrow> conn \<Rightarrow> conn + conn" where
  "mrsh_accept io randy s s2 lport c =
    (if fst (m_poll io) \<noteq> 1 \<or> snd (m_poll io) then Inl (bad s (close_fd s2 c))
     else
       case m_accept io of
         None \<Rightarrow> Inl (bad s (close_fd s2 c))
       | Some (s3, inet) \<Rightarrow>
           if \<not> inet then Inl (bad2 (lport \<noteq> 0) s c)
           else
             let c = close_fd s2 c; (n, c) = send (m_write io) [NUL] c
             in if n < 0 then Inl (bad s (close_fd s3 c))
                else
                  case fst (fd_read_n (m_verify io) 4) of
                    Inl e \<Rightarrow> Inl (bad s (close_fd s3 c))
                  | Inr bs \<Rightarrow>
                      if length bs \<noteq> 4 \<or> ntohl bs \<noteq> randy then Inl (bad s (close_fd s3 c))
                      else Inr (c\<lparr>cfd2 := s3\<rparr>))"

definition mcmd ::
  "mrsh_io \<Rightarrow> 32 word \<Rightarrow> bool \<Rightarrow> int \<Rightarrow> string \<Rightarrow> byte list \<Rightarrow> string \<Rightarrow> string \<Rightarrow> nat \<Rightarrow> conn" where
  "mcmd io randy want_err fd2 ahost addr remuser cmd maxlen =
    (case m_socket io of
       None \<Rightarrow> conn0 fd2
     | Some s \<Rightarrow>
         let c = conn0 fd2
         in if \<not> m_bind io then bad s c
            else if \<not> m_connect io then bad s c
            else
              case mrsh_listen io want_err s c of
                Inl c \<Rightarrow> c
              | Inr (s2, lport) \<Rightarrow>
                  let num = take 5 (show_int 1 (int lport));
                      num_seq = take 11 (show_int 1 (if want_err then sint randy else 0));
                      haddrdot = (case encode_localhost_string ahost (m_hostname io) maxlen of
                                    None \<Rightarrow> [] | Some [] \<Rightarrow> dotted addr | Some s \<Rightarrow> s)
                  in case m_munge io (mrsh_message remuser haddrdot num num_seq cmd) of
                       None \<Rightarrow> bad s (if s2 \<ge> 0 then close_fd s2 c else c)
                     | Some m \<Rightarrow>
                         let (n, c) = send (m_write io) (if want_err then num @ [NUL] else [NUL]) c
                         in if want_err \<and> n \<noteq> int (length num) + 1 then bad s (close_fd s2 c)
                            else if \<not> want_err \<and> n \<noteq> 1 then bad s c
                            else
                              let (n, c) = send (m_write io) (m @ [NUL]) c
                              in if n \<noteq> int (length m) + 1 then bad s (close_fd s2 c)
                                 else
                                   case (if want_err then mrsh_accept io randy s s2 lport c else Inr c) of
                                     Inl c \<Rightarrow> c
                                   | Inr c \<Rightarrow>
                                       (case m_in io of
                                          Some (b # _) \<Rightarrow> if b = NUL then c\<lparr>cres := s\<rparr> else bad2 (lport \<noteq> 0) s c
                                        | _ \<Rightarrow> bad2 (lport \<noteq> 0) s c))"

section \<open>XCPU\<close>

fun hex :: "nat \<Rightarrow> string" where
  "hex n = (if n < 16 then [''0123456789abcdef'' ! n] else hex (n div 16) @ [''0123456789abcdef'' ! (n mod 16)])"

declare hex.simps [simp del]

definition QUOTE :: char where "QUOTE = CHR 0x27"

definition quoted :: "string \<Rightarrow> string" where
  "quoted cmd = concat (map (\<lambda>c. if c = QUOTE then [QUOTE, QUOTE] else [c]) cmd)"

definition mkshcmd :: "string \<Rightarrow> string" where
  "mkshcmd cmd = ''/bin/sh -c '' @ QUOTE # quoted cmd @ [QUOTE]"

text \<open>
  The files of the session: the number read from the file \<open>clone\<close>, the descriptors
  \<open>open\<close> gives, and whether a file can be written. Sizes of paths are not checked.
\<close>

record xcpu_os =
  read_clone :: "string \<Rightarrow> nat option"
  open_file :: "string \<Rightarrow> int"
  write_file :: "string \<Rightarrow> string \<Rightarrow> bool"

definition clone_path :: "string \<Rightarrow> string" where
  "clone_path hostname = ''/mnt/xcpu/'' @ hostname @ ''/xcpu/clone''"

definition session_path :: "string \<Rightarrow> nat \<Rightarrow> string \<Rightarrow> string" where
  "session_path hostname sid name = ''/mnt/xcpu/'' @ hostname @ ''/xcpu/'' @ hex sid @ ''/'' @ name"

text \<open>The descriptors for output and for standard error, and the session\<close>

definition xcpucmd_open :: "xcpu_os \<Rightarrow> string \<Rightarrow> string \<Rightarrow> bool \<Rightarrow> int \<Rightarrow> int \<times> int \<times> nat option" where
  "xcpucmd_open os hostname cmd want_err fd2 =
    (case read_clone os (clone_path hostname) of
       None \<Rightarrow> (-1, fd2, None)
     | Some sid \<Rightarrow>
         if \<not> write_file os (session_path hostname sid ''argv'') (mkshcmd cmd) then (-1, fd2, None)
         else if \<not> write_file os (session_path hostname sid ''ctl'') ''lexec'' then (-1, fd2, None)
         else
           let fd = open_file os (session_path hostname sid ''io'')
           in if fd < 0 then (fd, fd2, None)
              else (fd, if want_err then open_file os (session_path hostname sid ''stderr'') else fd2, Some sid))"

definition xcpucmd :: "xcpu_os \<Rightarrow> string \<Rightarrow> string \<Rightarrow> string \<Rightarrow> string \<Rightarrow> bool \<Rightarrow> int \<Rightarrow> int \<times> int \<times> nat option" where
  "xcpucmd os ahost locuser remuser cmd want_err fd2 =
    (if locuser \<noteq> remuser then (-1, fd2, None) else xcpucmd_open os ahost cmd want_err fd2)"

definition xcpucmd_signal :: "string \<Rightarrow> nat \<Rightarrow> int \<Rightarrow> string \<times> string" where
  "xcpucmd_signal hostname sid signum = (session_path hostname sid ''ctl'', ''signal '' @ show_int 1 signum)"

section \<open>Established connections\<close>

text \<open>
  \<open>xrcmd\<close> returns a socket only if the daemon has answered with a null byte and no call of
  \<open>write\<close> has failed: then the port for standard error has been taken whole, and of both users
  and of the command what the system has taken of them.
\<close>

definition handed :: "(string \<Rightarrow> int) \<Rightarrow> string list \<Rightarrow> string list" where
  "handed wr = map (\<lambda>w. take (nat (wr (w @ [NUL]))) (w @ [NUL]))"

lemma rsh_start_connected:
  assumes "rsh_start io s lport locuser remuser cmd c = Some c'" "0 \<le> cres c'"
  shows "cres c' = s \<and> cfd2 c' = cfd2 c \<and> cclosed c' = cclosed c \<and> (\<exists>rest. io_in io = Some (NUL # rest)) \<and>
    (\<forall>w\<in>{locuser, remuser, cmd}. 0 \<le> io_write io (w @ [NUL])) \<and>
    cwrote c' = cwrote c @ handed (io_write io) [locuser, remuser, cmd]"
  using assms
  by (auto simp: rsh_start_def send_def handed_def bad2_def bad_def close_fd_def Let_def split: option.splits list.splits if_splits)

text \<open>The second connection: from a reserved port, and only the listening socket was ready.\<close>

lemma rsh_stderr_connected:
  assumes "rsh_stderr child io s lport c = Inr (q, d)"
  shows "\<exists>s2 port. fst (privsep_rresvport (io_rresv io) child lport) = Some s2 \<and>
    cwrote d = cwrote c @ [take 7 (show_int 1 (sint q)) @ [NUL]] \<and> cclosed d = cclosed c @ [s2] \<and>
    io_poll io = (1, False) \<and> io_accept io = Some (cfd2 d, port, True) \<and>
    IPPORT_RESERVED div 2 \<le> port \<and> port < IPPORT_RESERVED"
  using assms
  by (cases "io_poll io")
    (auto simp: rsh_stderr_def Let_def send_def close_fd_def bad_def bad2_def nat_add_distrib
      simp del: take_append length_take split: option.splits prod.splits if_splits)

lemma xrcmd_connected:
  assumes "xrcmd child tries io want_err fd2 locuser remuser cmd = Some c" "0 \<le> cres c"
  shows "\<exists>port. cwrote c = (port @ [NUL]) # handed (io_write io) [locuser, remuser, cmd] \<and>
    (\<forall>w\<in>{locuser, remuser, cmd}. 0 \<le> io_write io (w @ [NUL])) \<and> (\<exists>rest. io_in io = Some (NUL # rest)) \<and>
    (if want_err then port \<noteq> [] \<and> io_poll io = (1, False) \<and>
       (\<exists>from. io_accept io = Some (cfd2 c, from, True) \<and> IPPORT_RESERVED div 2 \<le> from \<and> from < IPPORT_RESERVED)
     else port = [] \<and> cfd2 c = fd2)"
proof -
  obtain r cl where l: "connect_loop child tries 1 (of_nat IPPORT_RESERVED - 1) [] = Some (r, cl)"
    using assms(1) by (cases "connect_loop child tries 1 (of_nat IPPORT_RESERVED - 1) []") (auto simp: xrcmd_def)
  have bd: "cres (bad s x) = -1" "cres (bad2 b s x) = -1" for s b x by (simp_all add: bad_def bad2_def close_fd_def)
  obtain s lport where r: "r = Some (s, lport)"
    using assms(1,2) l by (cases r) (auto simp: xrcmd_def conn0_def)
  let ?c = "(conn0 fd2)\<lparr>cclosed := cl\<rparr>"
  show ?thesis
  proof (cases want_err)
    case False
    have "io_write io [NUL] = 1" using assms(1,2) l r False bd by (auto simp: xrcmd_def send_def Let_def split: if_splits)
    then have "rsh_start io s 0 locuser remuser cmd (?c\<lparr>cwrote := [[NUL]]\<rparr>) = Some c"
      using assms(1) l r False by (simp add: xrcmd_def Let_def send_def conn0_def)
    note S = rsh_start_connected [OF this assms(2)]
    show ?thesis using S False by (intro exI [of _ "[]"]) (simp add: conn0_def)
  next
    case True
    obtain q d where q: "rsh_stderr child io s (lport - 1) ?c = Inr (q, d)" "rsh_start io s q locuser remuser cmd d = Some c"
      using assms(1,2) l r True bd
      by (cases "rsh_stderr child io s (lport - 1) ?c")
        (auto simp: xrcmd_def rsh_stderr_def Let_def send_def split: option.splits prod.splits if_splits)
    note S = rsh_start_connected [OF q(2) assms(2)] and E = rsh_stderr_connected [OF q(1)]
    have "take 7 (show_int 1 (sint q)) \<noteq> []" by (simp add: show_int_def fmt0_def)
    then show ?thesis using S E True by (intro exI [of _ "take 7 (show_int 1 (sint q))"]) (auto simp: conn0_def)
  qed
qed

text \<open>The daemon of mrsh splits the message at the null bytes.\<close>

lemma mrsh_message_splits:
  assumes "list_all (\<lambda>f. NUL \<notin> set f) fs"
  shows "concat (map (\<lambda>f. f @ [NUL]) fs) = concat (map (\<lambda>f. f @ [NUL]) gs) \<Longrightarrow> list_all (\<lambda>f. NUL \<notin> set f) gs \<Longrightarrow> fs = gs"
  using assms
proof (induction fs arbitrary: gs)
  case Nil
  then show ?case by (cases gs) simp_all
next
  case (Cons f fs)
  then obtain g gs' where gs: "gs = g # gs'" by (cases gs) auto
  have e: "f @ NUL # concat (map (\<lambda>f. f @ [NUL]) fs) = g @ NUL # concat (map (\<lambda>f. f @ [NUL]) gs')" using Cons.prems(1) gs by simp
  have n: "NUL \<notin> set f" "NUL \<notin> set g" using Cons.prems(2,3) gs by simp_all
  have t: "takeWhile (\<lambda>c. c \<noteq> NUL) (x @ NUL # y) = x" "dropWhile (\<lambda>c. c \<noteq> NUL) (x @ NUL # y) = NUL # y"
    if "NUL \<notin> set x" for x y :: string
  proof -
    show "takeWhile (\<lambda>c. c \<noteq> NUL) (x @ NUL # y) = x" using that by (subst takeWhile_append2) auto
    show "dropWhile (\<lambda>c. c \<noteq> NUL) (x @ NUL # y) = NUL # y" using that by (subst dropWhile_append2) auto
  qed
  have "f = g" "concat (map (\<lambda>f. f @ [NUL]) fs) = concat (map (\<lambda>f. f @ [NUL]) gs')"
    using arg_cong [OF e, of "takeWhile (\<lambda>c. c \<noteq> NUL)"] arg_cong [OF e, of "dropWhile (\<lambda>c. c \<noteq> NUL)"] t n by simp_all
  then show ?case using Cons gs by simp
qed

text \<open>
  \<open>mcmd\<close> with standard error returns a socket only if the daemon has sent the random number back
  on the connection that it was told the port of.
\<close>

lemma bad_result [simp]: "cres (bad s c) = -1" "cres (bad2 b s c) = -1" "cres (conn0 fd2) = -1"
  by (simp_all add: bad_def bad2_def close_fd_def conn0_def)

lemma mrsh_accepted:
  "mrsh_accept io randy s s2 lport c = Inl c' \<Longrightarrow> cres c' = -1"
  "mrsh_accept io randy s s2 lport c = Inr c' \<Longrightarrow> m_accept io = Some (cfd2 c', True) \<and>
    (\<exists>bs. fst (fd_read_n (m_verify io) 4) = Inr bs \<and> length bs = 4 \<and> ntohl bs = randy)"
  by (auto simp: mrsh_accept_def send_def Let_def split: option.splits prod.splits sum.splits if_splits)

lemma mcmd_verified:
  assumes "mcmd io randy True fd2 ahost addr remuser cmd maxlen = c" "0 \<le> cres c"
  shows "m_socket io = Some (cres c) \<and> m_accept io = Some (cfd2 c, True) \<and> (\<exists>rest. m_in io = Some (NUL # rest)) \<and>
    (\<exists>bs. fst (fd_read_n (m_verify io) 4) = Inr bs \<and> length bs = 4 \<and> ntohl bs = randy)"
proof -
  note N = assms(2) [folded assms(1)]
  obtain s where s: "m_socket io = Some s" using N by (cases "m_socket io") (auto simp: mcmd_def)
  have b1: "m_bind io" by (rule ccontr) (use N s in \<open>simp add: mcmd_def\<close>)
  have b2: "m_connect io" by (rule ccontr) (use N s b1 in \<open>simp add: mcmd_def\<close>)
  have li: "mrsh_listen io True s (conn0 fd2) = Inl x \<Longrightarrow> cres x = -1" for x
    by (auto simp: mrsh_listen_def split: option.splits if_splits)
  obtain s2 lport where l: "mrsh_listen io True s (conn0 fd2) = Inr (s2, lport)"
    using N s b1 b2 li by (cases "mrsh_listen io True s (conn0 fd2)") (auto simp: mcmd_def)
  define num where "num = take 5 (show_int 1 (int lport))"
  define addrstr where "addrstr = (case encode_localhost_string ahost (m_hostname io) maxlen of
    None \<Rightarrow> [] | Some [] \<Rightarrow> dotted addr | Some s \<Rightarrow> s)"
  define msg where "msg = mrsh_message remuser addrstr num (take 11 (show_int 1 (sint randy))) cmd"
  obtain m where m: "m_munge io msg = Some m"
    using N s b1 b2 l by (cases "m_munge io msg") (auto simp: mcmd_def Let_def num_def msg_def addrstr_def)
  obtain n1 c1 where c1: "send (m_write io) (num @ [NUL]) (conn0 fd2) = (n1, c1)" by force
  obtain n2 c2 where c2: "send (m_write io) (m @ [NUL]) c1 = (n2, c2)" by force
  define fin where "fin = (\<lambda>c. case m_in io of Some (b # _) \<Rightarrow> if b = NUL then c\<lparr>cres := s\<rparr> else bad2 (lport \<noteq> 0) s c
    | _ \<Rightarrow> bad2 (lport \<noteq> 0) s c)"
  have "mcmd io randy True fd2 ahost addr remuser cmd maxlen =
      (if n1 \<noteq> int (length num) + 1 then bad s (close_fd s2 c1)
       else if n2 \<noteq> int (length m) + 1 then bad s (close_fd s2 c2)
       else case mrsh_accept io randy s s2 lport c2 of Inl c \<Rightarrow> c | Inr c \<Rightarrow> fin c)"
    using m c1 c2 by (simp add: mcmd_def s b1 b2 l Let_def num_def addrstr_def msg_def fin_def split: sum.split)
  then have "c = (case mrsh_accept io randy s s2 lport c2 of Inl c \<Rightarrow> c | Inr c \<Rightarrow> fin c)"
    using assms by (auto split: if_splits)
  then obtain c3 where c3: "mrsh_accept io randy s s2 lport c2 = Inr c3" "c = fin c3"
    using assms(2) mrsh_accepted(1) by (cases "mrsh_accept io randy s s2 lport c2") force+
  have "(\<exists>rest. m_in io = Some (NUL # rest)) \<and> c = c3\<lparr>cres := s\<rparr>"
    using c3(2) assms(2) by (auto simp: fin_def split: option.splits list.splits if_splits)
  then show ?thesis using s mrsh_accepted(2) [OF c3(1)] by auto
qed

text \<open>
  A connection of another family is refused, but what is closed is the old value of \<open>*fd2p\<close>:
  the listening and the accepted socket stay open.
\<close>

lemma mcmd_wrong_family:
  assumes "m_poll io = (1, False)" "m_accept io = Some (s3, False)" "lport \<noteq> 0"
  shows "mrsh_accept io randy s s2 lport c = Inl (c\<lparr>cres := -1, cclosed := cclosed c @ [cfd2 c, s]\<rparr>)"
  using assms by (simp add: mrsh_accept_def bad2_def bad_def close_fd_def)

text \<open>A quoted command is read back, as the shell of Plan 9 reads it.\<close>

fun unquote :: "string \<Rightarrow> string \<times> string" where
  "unquote [] = ([], [])"
| "unquote [c] = (if c = QUOTE then ([], []) else ([c], []))"
| "unquote (c # d # s) =
    (if c = QUOTE then (if d = QUOTE then (case unquote s of (t, r) \<Rightarrow> (QUOTE # t, r)) else ([], d # s))
     else case unquote (d # s) of (t, r) \<Rightarrow> (c # t, r))"

lemma unquote_quoted: "unquote (quoted cmd @ [QUOTE]) = (cmd, [])"
proof (induction cmd)
  case (Cons c cmd)
  show ?case
  proof (cases "c = QUOTE")
    case True
    then show ?thesis using Cons by (simp add: quoted_def)
  next
    case False
    obtain d s where "quoted cmd @ [QUOTE] = d # s" by (cases "quoted cmd @ [QUOTE]") auto
    then show ?thesis using Cons False by (simp add: quoted_def)
  qed
qed (simp add: quoted_def)

end
