(* ===== verification/Spec2Isabelle.thy ===== *)
theory Spec2Isabelle
  imports Cbuf_Calls Hostset Pcp_Remote Dsh_Sched Pipecmd Dsh_Signals Batch_Targets Rcmd_Modules
begin

text \<open>
  pdsh runs a command on many hosts at once, and pdcp and rpdcp copy files to and from them. This
  library models the program in C under \<open>src/src\<close> and proves what its parts promise.

  The way of a run. \<open>main\<close> sets defaults from the environment (\<open>opt_default\<close>,
  \<open>opt_env\<close>), loads the modules (\<open>mod_load_modules\<close>), and reads the command line
  (\<open>opt_args\<close>), where \<open>-w\<close> and \<open>-x\<close>, files of hosts and modules build the
  list of targets, a host list. After the checks of \<open>opt_verify\<close> it calls
  \<open>dsh()\<close>, or one side of a copy. \<open>dsh()\<close> has a thread for each host, but never more
  than the fan-out at a time; a thread connects with the module that was registered for its host,
  then polls the connection, keeps the output in two circular buffers and prints it line by line
  behind the name of the host, or copies files over the connection.

  Conventions. Structures are records and enumerations are datatypes. Strings are lists of
  characters without the terminator; \<open>unsigned long\<close> and other integers whose width matters
  are words, and other integers are \<open>int\<close>. A call that sets \<open>errno\<close> is
  \<open>Inl\<close>; a program that may end is a \<open>fate\<close>, \<open>Exits\<close> or \<open>Continues\<close>; an
  outer \<open>None\<close> is a call that does not return, which is an endless loop, an overrun of a buffer
  or the use of a wrong pointer. Memory: the generic lists are cells in a heap, since their
  iterators are pointers into it; other structures are values. Input and output are
  sequences of events, one for each call of the system, short reads, errors and interruptions included.
  Everything else the program asks of the system, of libraries and of modules is a parameter,
  collected in records such as \<open>host_env\<close>, \<open>mods_env\<close>, \<open>sink_os\<close> and
  \<open>genders_lib\<close>.

  Theories and sources.
  \<^item> \<open>Prelude\<close>, \<open>Ring\<close>, \<open>C_String\<close>, \<open>Iteration\<close>: error numbers,
    lemmas on lists and words, arithmetic of the ring, the functions of the C library on strings,
    and the locale \<open>iteration\<close> for loops over something that ends with the null pointer.
  \<^item> \<open>Cbuf\<close>, \<open>Cbuf_Content\<close>, \<open>Cbuf_Grow\<close>, \<open>Cbuf_IO\<close>, \<open>Cbuf_Ops\<close>,
    \<open>Cbuf_Line\<close>, \<open>Cbuf_Calls\<close>: \<open>pdsh/cbuf.c\<close>, the state and the predicate it
    asserts, what is unread and what can be replayed, growth, the copy loops against the locales of
    sources and sinks (interpreted for memory and for descriptors), byte and line operations,
    and sequences of public calls.
  \<^item> \<open>Hostrange\<close>, \<open>Hostlist\<close>, \<open>Hostlist_Index\<close>, \<open>Hostlist_Parse\<close>,
    \<open>Hostlist_Syntax\<close>, \<open>Hostlist_Print\<close>, \<open>Hostlist_Roundtrip\<close>,
    \<open>Hostlist_Iter\<close>, \<open>Hostlist_Filter\<close>, \<open>Hostset\<close>:
    \<open>common/hostlist.c\<close>. The abstraction is \<open>hosts\<close>, the names in order, and
    \<open>hl_ok\<close> the invariant; each operation is shown to act on \<open>hosts\<close> as its name says.
  \<^item> \<open>Linked_List\<close>, \<open>List_Ops\<close>, \<open>List_Spec\<close>, \<open>List_Refine\<close>,
    \<open>List_Split\<close>: \<open>common/list.c\<close> and \<open>common/split.c\<close>. The specification is a
    sequence with cursors; the heap simulates it call by call. From here on lists are sequences.
  \<^item> \<open>XString\<close>: \<open>common/xstring.c\<close> and the formatter of \<open>common/err.c\<close>.
  \<^item> \<open>Fd_Io\<close>: blocks in \<open>common/fd.c\<close>, \<open>common/xpoll.c\<close>,
    \<open>pdsh/privsep.c\<close>.
  \<^item> \<open>Wcoll\<close>, \<open>Wcoll_Args\<close>, \<open>Rcmd\<close>: \<open>pdsh/wcoll.c\<close>, the host arguments of
    \<open>pdsh/opt.c\<close>, \<open>pdsh/rcmd.c\<close>.
  \<^item> \<open>Options\<close>, \<open>Mod\<close>, \<open>Opt_Args\<close>: the rest of \<open>pdsh/opt.c\<close>,
    \<open>pdsh/mod.c\<close>, \<open>pdsh/main.c\<close>; \<open>pdsh_main\<close> composes them.
  \<^item> \<open>Dsh_Output\<close>, \<open>Dsh_Lines\<close>, \<open>Dsh_Drain\<close>, \<open>Dsh_Setup\<close>,
    \<open>Dsh_Sched\<close>, \<open>Dsh_Signals\<close>: \<open>pdsh/dsh.c\<close>: the poll loop and what it prints,
    its end, the set-up, the interleaving of the threads as a step relation, and timeouts and signals.
    A step of \<open>run_step\<close> is a critical section, or one access to the state of a thread outside
    of it: the walk of \<open>_cancel_pending_threads\<close> tests and sets an entry in two steps, as it
    holds another lock than the threads. \<open>outside_step\<close> is what comes from outside, a request
    to cancel or a return of \<open>pthread_cond_wait\<close> without a signal.
  \<^item> \<open>Pcp_Server\<close>, \<open>Pcp_Client\<close>, \<open>Pcp\<close>, \<open>Pcp_Copy\<close>,
    \<open>Pcp_Remote\<close>: \<open>pdsh/pcp_server.c\<close>, \<open>pdsh/pcp_client.c\<close>, the records on the wire,
    both sides together, and the command that starts the other side.
  \<^item> \<open>Pipecmd\<close>: \<open>common/pipecmd.c\<close>, \<open>modules/execcmd.c\<close>,
    \<open>modules/sshcmd.c\<close>. \<open>Rcmd_Modules\<close>: \<open>modules/xrcmd.c\<close>, \<open>modules/mcmd.c\<close>,
    \<open>modules/xcpucmd.c\<close>.
  \<^item> \<open>Target_Groups\<close>: \<open>modules/machines.c\<close>, \<open>modules/dshgroup.c\<close>,
    \<open>modules/netgroup.c\<close>. \<open>Genders\<close>: \<open>modules/genders.c\<close>. \<open>Batch_Targets\<close>:
    \<open>modules/slurm.c\<close>, \<open>modules/torque.c\<close>, \<open>modules/nodeupdown.c\<close>.

  What is shown. This file states the properties of each part, with an instance of each that has
  hypotheses: that the buffers stay valid and lose nothing but what their policy says; that
  parsing, printing, changing and iterating over host lists acts on the names as on a list; that the
  generic lists refine sequences; which hosts, command and modules a command line selects; that
  complete lines are printed unmixed and in order with the right label, and the return codes
  reported; that the fan-out is kept and every run ends; that a copied tree arrives. Some
  theorems show where the code does not do what it means to, among them
  \<open>hostlist_remove_revisits\<close>, \<open>hostset_insert_miscounts\<close>,
  \<open>hostlist_create_endless\<close>, \<open>merged_ranges_refused\<close>, \<open>large_numbers_not_found\<close>,
  \<open>cbuf_grow_overflows\<close>, \<open>extract_rc_loses_digit\<close>, \<open>spurious_wakeup_overruns\<close>,
  \<open>cancellation_lost\<close>, \<open>cancellation_hides_failure\<close>, a directory that is refused in a
  copy, and an empty word of a command.

  Limits of the claims. Host lists: fewer than \<open>2 ^ 31\<close> hosts, which is where the
  \<open>int\<close> that counts them wraps; where a function prints into a buffer of fixed size, the
  number at the end of a name fits it (\<open>suffixes_fit\<close>, \<open>handy\<close>); where a name is looked
  up, that number is at most \<open>2 ^ 25\<close> (\<open>findable\<close>; \<open>large_numbers_not_found\<close> shows
  what happens beyond); a printed list parses again if its ranges are of at most 16384 hosts
  (\<open>printable\<close>; \<open>merged_ranges_refused\<close>). Taking a host off a list takes off one
  occurrence, which is less than the manual says if a host is there twice. Circular buffers are of
  integers without bounds; \<open>call_fits\<close> says which calls stay in the range of \<open>int\<close>, and
  \<open>10 ^ 9\<close> for sizes and lengths is enough. The output of a host is printed as it is if a line
  and one more chunk of 1000 bytes fit the buffer of 131072 bytes (\<open>stream_ok\<close>). The fan-out
  is kept if it is positive and the wait of the starting loop has not returned without a signal;
  runs end without that second condition (\<open>fanout_not_positive\<close>,
  \<open>spurious_wakeup_overruns\<close>). A copied tree arrives where nothing was before (\<open>fresh\<close>);
  the modes the system gives a file or directory that is made or written are parameters of
  \<open>sink_os\<close>, as \<open>mkdir\<close> and \<open>write\<close> may drop bits of them.

  Loops and fuel. The line searches of the
  buffer take as fuel one step more than it has room for bytes; \<open>cbuf_line_searches_end\<close> shows
  that to be enough. Reading files of hosts takes fuel for the depth of includes, and more than the
  number of files there are is shown to be enough. \<open>drain\<close> runs a loop a given
  number of times, and the locale shows that the number of elements and one more suffice. The
  other loops that may not end are partial functions, and the theorems show that they return.
  The scheduler is shown to terminate by a measure on its states that every step of the program
  lowers and an event from outside raises by at most \<open>2 n + 1\<close>.

  Not modelled: locks within one structure, as every function holds its lock throughout; freeing
  memory and the cookies that detect a wrong pointer; \<open>hostlist_resize\<close>, as the spare capacity
  of an array is not visible; the texts of usage, version and module lists; the prompt loop of
  \<open>main.c\<close>; locks and flags of descriptors in \<open>fd.c\<close>, \<open>xpoll\<close> with
  \<open>select\<close>, and the set-up of the privileged child, which are calls of the system one after
  the other; \<open>modules/k4cmd.c\<close>, which depends on variables inside libkrb4; statically linked
  modules; \<open>testcase.c\<close>, tests, scripts and the build. In code that is modelled, signal masks
  and time stamps are left out, and where its lemmas say so messages that are only printed.
\<close>

section \<open>Circular buffers\<close>

text \<open>
  C16. After \<open>cbuf_create\<close>, no sequence of public calls violates the validity predicate
  the code asserts on entry and exit of every function, every call returns, and no sum of sizes and
  lengths leaves the range of \<open>int\<close>, if the sizes of the buffers and the lengths given are at
  most \<open>10 ^ 9\<close>, and a string given to \<open>cbuf_write_line\<close> is shorter than that. (With
  \<open>INT_MAX\<close> as the length, \<open>cbuf_grow\<close> overflows.)
\<close>

theorem cbuf_calls_valid:
  assumes "cbuf_create mem mn mx = Inr cb" "mn \<le> CBUF_BOUND" "mx \<le> CBUF_BOUND" and "list_all call_ok cs"
  shows "\<exists>cb'. cbuf_run mem cb cs = Some cb' \<and> cbuf_is_valid cb'"
proof -
  have "cbuf_small cb" using assms(1-3) by (auto simp: cbuf_create_def cbuf_small_def Let_def split: if_splits)
  moreover have "cbuf_is_valid cb" using cbuf_create_valid [OF assms(1)] by blast
  ultimately show ?thesis using cbuf_run_valid [OF _ _ assms(4)] by blast
qed

lemmas cbuf_eval = cbuf_create_def CBUF_MAGIC_LEN_def CBUF_CHUNK_def

definition demo_cbuf :: "int \<Rightarrow> cbuf" where
  "demo_cbuf n = (case cbuf_create (\<lambda>_. True) n n of Inr cb \<Rightarrow> cb)"

lemma demo_cbuf: "0 < n \<Longrightarrow> cbuf_create (\<lambda>_. True) n n = Inr (demo_cbuf n)"
  by (simp add: demo_cbuf_def cbuf_create_def Let_def)

lemma demo_cbuf_valid: "0 < n \<Longrightarrow> cbuf_is_valid (demo_cbuf n) \<and> unread (demo_cbuf n) = []"
  using cbuf_create_valid [OF demo_cbuf] by simp

theorem cbuf_calls_valid_witness:
  "\<exists>cb'. cbuf_run (\<lambda>_. True) (demo_cbuf 4)
     [CallWrite (Some ''abcdef'') 6, CallRead (Some ''xy'') 2, CallRewind (-1), CallReadLine (Some ''x'') 1 1]
     = Some cb' \<and> cbuf_is_valid cb'"
  by (rule cbuf_calls_valid [OF demo_cbuf]) (simp_all add: CBUF_BOUND_def)

text \<open>
  A read of up to \<open>INT_MAX\<close> bytes into a buffer that can grow overflows in \<open>cbuf_grow\<close>,
  however few bytes there are.
\<close>

theorem cbuf_grow_overflows:
  "cbuf_create (\<lambda>_. True) 64 131072 = Inr cb \<Longrightarrow>
   CBUF_INT_MAX < alloc cb + (CBUF_INT_MAX - (bsize cb - used cb)) \<and>
   cbuf_run (\<lambda>_. True) cb [CallWriteFromFd 3 [] CBUF_INT_MAX] = None"
  by (auto simp: cbuf_create_def Let_def room_fits_def CBUF_INT_MAX_def CBUF_MAGIC_LEN_def CBUF_CHUNK_def)

theorem cbuf_grow_overflows_witness:
  "\<exists>cb. cbuf_create (\<lambda>_. True) 64 131072 = Inr cb \<and> cbuf_run (\<lambda>_. True) cb [CallWriteFromFd 3 [] CBUF_INT_MAX] = None"
proof -
  obtain cb where c: "cbuf_create (\<lambda>_. True) 64 131072 = Inr cb" by (simp add: cbuf_create_def Let_def)
  show ?thesis using c cbuf_grow_overflows [OF c] by blast
qed

text \<open>
  C5. \<open>cbuf_write\<close> appends the bytes its policy admits and keeps the newest
  \<open>size\<close> bytes; it returns their number, or \<open>ENOSPC\<close> exactly when a buffer that
  may not drop data is full, and reports the number of unread bytes that were lost.
\<close>

theorem cbuf_write_appends:
  assumes "cbuf_is_valid cb" "0 < len" "len \<le> int (length src)"
    and "cbuf_write mem cb (Some src) len = (r, ndropped, cb')"
  shows "let n = write_count (overwrite cb) (bsize cb') (used cb) len
    in r = (if n = 0 then Inl ENOSPC else Inr n) \<and>
       (n = 0 \<longrightarrow> overwrite cb = CBUF_NO_DROP) \<and>
       ndropped = max 0 (used cb + n - bsize cb') \<and>
       cbuf_is_valid cb' \<and> bsize cb \<le> bsize cb' \<and>
       unread cb' = newest (bsize cb') (unread cb @ take (nat n) src) \<and>
       (overwrite cb = CBUF_NO_DROP \<longrightarrow> used cb + n \<le> bsize cb')"
  using cbuf_write_spec [OF assms] unfolding appended_def Let_def by (auto simp: write_count_def)

theorem cbuf_write_appends_witness:
  "\<exists>r nd cb'. cbuf_write (\<lambda>_. True) (demo_cbuf 4) (Some ''abcdef'') 6 = (r, nd, cb') \<and>
     cbuf_is_valid cb'"
proof -
  obtain r nd cb' where w: "cbuf_write (\<lambda>_. True) (demo_cbuf 4) (Some ''abcdef'') 6 = (r, nd, cb')"
    by (metis prod_cases3)
  then show ?thesis
    using cbuf_write_appends [OF conjunct1 [OF demo_cbuf_valid] _ _ w] by (simp add: Let_def)
qed

text \<open>A buffer of 8 bytes that holds a line and a part of the next one\<close>

definition demo_text :: string where
  "demo_text = ''ab'' @ LF # ''cd''"

definition demo_written :: cbuf where
  "demo_written = snd (snd (cbuf_write (\<lambda>_. True) (demo_cbuf 8) (Some demo_text) 5))"

lemma demo_written: "cbuf_is_valid demo_written \<and> unread demo_written = demo_text \<and> used demo_written = 5"
proof -
  obtain r nd cb where w: "cbuf_write (\<lambda>_. True) (demo_cbuf 8) (Some demo_text) 5 = (r, nd, cb)"
    by (metis prod_cases3)
  have v: "cbuf_is_valid (demo_cbuf 8)" "unread (demo_cbuf 8) = []" using demo_cbuf_valid [of 8] by simp_all
  have b: "bsize (demo_cbuf 8) = 8" "overwrite (demo_cbuf 8) = CBUF_WRAP_MANY"
    by (simp_all add: demo_cbuf_def cbuf_create_def Let_def)
  have "5 \<le> int (length demo_text)" "length demo_text = 5" by (simp_all add: demo_text_def)
  note W = cbuf_write_spec(4) [OF v(1) _ this(1) w]
  have A: "cbuf_is_valid cb" "8 \<le> bsize cb" "unread cb = newest (bsize cb) (take 5 demo_text)"
    using W b v(2) by (simp_all add: appended_def write_count_def)
  then have "unread cb = demo_text" using \<open>length demo_text = 5\<close> by simp
  moreover have "used cb = int (length (unread cb))" using cbuf_valid_range(5) [OF A(1)] by simp
  ultimately show ?thesis
    using A(1) w \<open>length demo_text = 5\<close> by (simp add: demo_written_def)
qed

text \<open>
  C6. \<open>cbuf_read\<close> stores the oldest unread bytes, as many as were asked for and there
  are, into the caller's memory, removes exactly these from the buffer, and keeps them for
  replay.
\<close>

theorem cbuf_read_oldest:
  assumes "cbuf_is_valid cb" "0 \<le> len" "cbuf_read cb (Some buf) len = (r, out, cb')"
  shows "r = Inr (min len (used cb)) \<and> out = Some (store_at (take (nat len) (unread cb)) buf) \<and>
    unread cb' = drop (nat len) (unread cb) \<and> history cb' = history cb \<and> cbuf_is_valid cb'"
  using cbuf_read_spec [OF assms] by blast

theorem cbuf_read_oldest_witness:
  "\<exists>r cb'. cbuf_read demo_written (Some ''......'') 4 = (r, Some (''ab'' @ LF # ''c..''), cb') \<and>
     unread cb' = ''d''"
proof -
  obtain r out cb' where e: "cbuf_read demo_written (Some ''......'') 4 = (r, out, cb')"
    by (metis prod_cases3)
  show ?thesis
    using cbuf_read_oldest [OF conjunct1 [OF demo_written] _ e] demo_written e
    by (auto simp: store_at_def demo_text_def)
qed

text \<open>
  Bytes that fit are read back in the order they were written, behind those that were unread
  before, and nothing is reported as dropped.
\<close>

theorem cbuf_write_then_read:
  assumes "cbuf_is_valid cb" "src \<noteq> []" "int (length (unread cb @ src)) \<le> bsize cb"
    and "cbuf_write mem cb (Some src) (int (length src)) = (r1, ndropped, cb1)"
    and "cbuf_read cb1 (Some buf) (int (length (unread cb @ src))) = (r2, out, cb2)"
  shows "r1 = Inr (int (length src)) \<and> ndropped = 0 \<and>
    r2 = Inr (int (length (unread cb @ src))) \<and> out = Some (store_at (unread cb @ src) buf) \<and>
    unread cb2 = []"
proof -
  have len: "0 < int (length src)" using assms(2) by simp
  note W = cbuf_write_spec [OF assms(1) len order_refl assms(4)]
  have u: "0 \<le> used cb" by (rule cbuf_valid_range(5) [OF assms(1)])
  have b: "bsize cb \<le> bsize cb1" using W(4) by (simp add: appended_def)
  have n: "write_count (overwrite cb) (bsize cb1) (used cb) (int (length src)) = int (length src)"
    using assms(3) b u len by (cases "overwrite cb") (auto simp: write_count_def)
  have A: "cbuf_is_valid cb1" "unread cb1 = unread cb @ src"
    using W(4) n assms(3) b by (simp_all add: appended_def)
  have "used cb1 = int (length (unread cb1))" using cbuf_valid_range(5) [OF A(1)] by simp
  then have u1: "used cb1 = int (length (unread cb @ src))" unfolding A(2) .
  note R = cbuf_read_spec(1-3) [OF A(1) of_nat_0_le_iff assms(5), unfolded A(2) nat_int]
  have "r1 = Inr (int (length src))" using W(1) len unfolding n by simp
  moreover have "ndropped = 0" using W(3) assms(3) u b unfolding n by simp
  moreover have "out = Some (store_at (unread cb @ src) buf)" "unread cb2 = []"
    using R(2,3) by (simp_all only: take_all [OF order_refl] drop_all [OF order_refl])
  ultimately show ?thesis using R(1) unfolding u1 by simp
qed

theorem cbuf_write_then_read_witness:
  "\<exists>r nd cb1 r2 cb2. cbuf_write (\<lambda>_. True) demo_written (Some ''ef'') 2 = (r, nd, cb1) \<and>
     cbuf_read cb1 (Some ''.......'') 7 = (r2, Some (''ab'' @ LF # ''cdef''), cb2)"
proof -
  obtain r nd cb1 where w: "cbuf_write (\<lambda>_. True) demo_written (Some ''ef'') 2 = (r, nd, cb1)"
    by (metis prod_cases3)
  obtain r2 out cb2 where e: "cbuf_read cb1 (Some ''.......'') 7 = (r2, out, cb2)"
    by (metis prod_cases3)
  note d = demo_written
  have "bsize demo_written \<ge> 8"
  proof -
    obtain q qd qc where q: "cbuf_write (\<lambda>_. True) (demo_cbuf 8) (Some demo_text) 5 = (q, qd, qc)"
      by (metis prod_cases3)
    have "5 \<le> int (length demo_text)" by (simp add: demo_text_def)
    then have "appended (take (nat (write_count (overwrite (demo_cbuf 8)) (bsize qc) (used (demo_cbuf 8)) 5)) demo_text)
        (demo_cbuf 8) qc"
      using cbuf_write_spec(4) [OF conjunct1 [OF demo_cbuf_valid] _ _ q] by simp
    moreover have "bsize (demo_cbuf 8) = 8" by (simp add: demo_cbuf_def cbuf_create_def Let_def)
    ultimately show ?thesis using q by (simp add: appended_def demo_written_def)
  qed
  then show ?thesis
    using cbuf_write_then_read [OF conjunct1 [OF d], of "''ef''" "\<lambda>_. True" r nd cb1 "''.......''" r2 out cb2]
      d w e by (auto simp: demo_text_def store_at_def)
qed

text \<open>
  Rewinding after a drop restores the unread bytes.
\<close>

theorem cbuf_drop_then_rewind:
  assumes "cbuf_is_valid cb" "0 \<le> n" "n \<le> used cb"
    and "cbuf_drop cb n = (r1, cb1)" "cbuf_rewind cb1 n = (r2, cb2)"
  shows "r1 = Inr n \<and> r2 = Inr n \<and> unread cb2 = unread cb \<and> cbuf_is_valid cb2"
proof -
  note D = cbuf_drop_spec [OF assms(1,4)]
  have d: "r1 = Inr n" "unread cb1 = drop (nat n) (unread cb)" using D(4) assms(2,3) by auto
  have u: "0 \<le> used cb" by (rule cbuf_valid_range(5) [OF assms(1)])
  have "replayable cb1 @ drop (nat n) (unread cb) = (replayable cb @ take (nat n) (unread cb)) @ drop (nat n) (unread cb)"
    using D(2) history_append [OF D(1)] history_append [OF assms(1)] d(2) by simp
  then have rp: "replayable cb1 = replayable cb @ take (nat n) (unread cb)" by (simp only: append_same_eq)
  have "n \<le> cbuf_reused cb1"
    using arg_cong [OF rp, of length] cbuf_valid_geometry(3) [OF D(1)] assms(2,3) by simp
  then have "(if n = -1 then cbuf_reused cb1 else min n (cbuf_reused cb1)) = n" using assms(2) by simp
  then have R: "r2 = Inr n" "unread cb2 = newest n (replayable cb1) @ unread cb1"
    using cbuf_rewind_spec(3) [OF D(1) assms(5)] assms(2) by auto
  have "nat n \<le> length (unread cb)" using assms(2,3) u by simp
  then have "newest n (replayable cb1) = take (nat n) (unread cb)"
    by (simp add: newest_def rp)
  then show ?thesis using R d cbuf_rewind_spec(1) [OF D(1) assms(5)] by simp
qed

theorem cbuf_drop_then_rewind_witness:
  "\<exists>r1 cb1 r2 cb2. cbuf_drop demo_written 4 = (r1, cb1) \<and> cbuf_rewind cb1 4 = (r2, cb2) \<and>
     unread cb2 = demo_text"
proof -
  obtain r1 cb1 where d: "cbuf_drop demo_written 4 = (r1, cb1)" by force
  obtain r2 cb2 where r: "cbuf_rewind cb1 4 = (r2, cb2)" by force
  show ?thesis
    using cbuf_drop_then_rewind [OF conjunct1 [OF demo_written] _ _ d r] demo_written d r by auto
qed

text \<open>
  C17. A move appends to the destination exactly the bytes it takes off the source, and returns
  their number: nothing is duplicated, and nothing is lost in between.
\<close>

theorem cbuf_move_conserves:
  assumes "cbuf_is_valid src" "cbuf_is_valid dst"
    and "cbuf_move mem False src dst len = (r, ndropped, src', dst')"
  shows "\<exists>k. unread src = take k (unread src) @ unread src' \<and> appended (take k (unread src)) dst dst' \<and>
    cbuf_is_valid src' \<and> history src' = history src \<and>
    (0 < k \<longrightarrow> r = Inr (int k)) \<and> (k = 0 \<longrightarrow> r = Inr 0 \<or> (\<exists>e. r = Inl e))"
proof -
  obtain k where "unread src' = drop k (unread src)" "appended (take k (unread src)) dst dst'"
    "cbuf_is_valid src'" "history src' = history src"
    "0 < k \<Longrightarrow> r = Inr (int k)" "k = 0 \<Longrightarrow> r = Inr 0 \<or> (\<exists>e. r = Inl e)"
    using cbuf_move_spec [OF assms] by blast
  then show ?thesis by (intro exI [of _ k]) simp
qed

theorem cbuf_move_conserves_witness:
  "\<exists>r nd src dst k. cbuf_move (\<lambda>_. True) False demo_written (demo_cbuf 8) 3 = (r, nd, src, dst) \<and>
     demo_text = take k demo_text @ unread src \<and> appended (take k demo_text) (demo_cbuf 8) dst"
proof -
  obtain r nd src dst where m: "cbuf_move (\<lambda>_. True) False demo_written (demo_cbuf 8) 3 = (r, nd, src, dst)"
    by (metis prod_cases4)
  have "cbuf_is_valid (demo_cbuf 8)" using demo_cbuf_valid [of 8] by simp
  from cbuf_move_conserves [OF conjunct1 [OF demo_written] this m]
  show ?thesis using m demo_written by auto
qed

text \<open>
  Reading into a file descriptor takes off the buffer exactly the bytes the descriptor
  accepted, whatever the descriptor does: an error or a short write loses nothing.
\<close>

theorem cbuf_read_to_fd_lossless:
  assumes "cbuf_is_valid cb" "cbuf_read_to_fd cb dstfd fd len = (r, fd', cb')"
  shows "fd_bytes fd' @ unread cb' = fd_bytes fd @ unread cb \<and> cbuf_is_valid cb' \<and>
    history cb' = history cb"
proof -
  obtain k where "fd_bytes fd' = fd_bytes fd @ take k (unread cb)" "unread cb' = drop k (unread cb)"
    "cbuf_is_valid cb'" "history cb' = history cb"
    using cbuf_read_to_fd_spec [OF assms] by metis
  then show ?thesis by simp
qed

theorem cbuf_read_to_fd_lossless_witness:
  "\<exists>r fd' cb'. cbuf_read_to_fd demo_written 1 \<lparr>fd_events = [WrIntr, WrAccept 3, WrErr EAGAIN], fd_bytes = []\<rparr> (-1) = (r, fd', cb') \<and>
     fd_bytes fd' @ unread cb' = demo_text"
proof -
  obtain r fd' cb' where e: "cbuf_read_to_fd demo_written 1 \<lparr>fd_events = [WrIntr, WrAccept 3, WrErr EAGAIN], fd_bytes = []\<rparr> (-1) = (r, fd', cb')"
    by (metis prod_cases3)
  show ?thesis using cbuf_read_to_fd_lossless [OF conjunct1 [OF demo_written] e] demo_written e by simp
qed

text \<open>
  Filling a buffer from a file descriptor appends, in order, exactly the bytes that were
  read from the descriptor; it reports how many they were and how many unread bytes had to make
  room for them.
\<close>

theorem cbuf_write_from_fd_appends:
  assumes "cbuf_is_valid cb" "cbuf_write_from_fd mem cb srcfd fd len = (r, ndropped, fd', cb')"
  shows "\<exists>bs. fd_rest fd = bs @ fd_rest fd' \<and> appended bs cb cb' \<and>
    (if bs = [] then r = Inr 0 \<or> (\<exists>e. r = Inl e)
     else r = Inr (int (length bs)) \<and> ndropped = max 0 (used cb + int (length bs) - bsize cb'))"
proof -
  obtain bs where "fd_rest fd = bs @ fd_rest fd'" "appended bs cb cb'"
    "bs = [] \<Longrightarrow> r = Inr 0 \<or> (\<exists>e. r = Inl e)"
    "bs \<noteq> [] \<Longrightarrow> r = Inr (int (length bs)) \<and> ndropped = max 0 (used cb + int (length bs) - bsize cb')"
    using cbuf_write_from_fd_spec [OF assms] by blast
  then show ?thesis by (intro exI [of _ bs]) simp
qed

theorem cbuf_write_from_fd_appends_witness:
  "\<exists>r nd fd' cb' bs. cbuf_write_from_fd (\<lambda>_. True) demo_written 0 [RdIntr, RdData ''xyz''] 2 = (r, nd, fd', cb') \<and>
     fd_rest [RdIntr, RdData ''xyz''] = bs @ fd_rest fd' \<and> appended bs demo_written cb'"
proof -
  obtain r nd fd' cb' where e: "cbuf_write_from_fd (\<lambda>_. True) demo_written 0 [RdIntr, RdData ''xyz''] 2 = (r, nd, fd', cb')"
    by (metis prod_cases4)
  from cbuf_write_from_fd_appends [OF conjunct1 [OF demo_written] e]
  obtain bs where "fd_rest [RdIntr, RdData ''xyz''] = bs @ fd_rest fd' \<and> appended bs demo_written cb'"
    by blast
  then show ?thesis using e by blast
qed

text \<open>
  C18. \<open>cbuf_read_line\<close> takes whole lines off the buffer: as many as asked for if they are
  there and none otherwise, or for \<open>lines = -1\<close> all the lines that fit the caller's
  memory; what it stores is terminated by a NUL, and the length it returns is that of the lines.
\<close>

theorem cbuf_read_line_whole_lines:
  assumes "cbuf_is_valid cb" "0 < len" "-1 \<le> lines"
  shows "let p = unread_lines (unread cb) (len - 1) lines
    in \<exists>cb'. cbuf_read_line cb (Some buf) len lines =
        Some (Inr (int (length p)),
              Some (if p \<noteq> [] then store_at (take (nat (len - 1)) p @ [NUL]) buf else buf), cb') \<and>
      cbuf_is_valid cb' \<and> unread cb = p @ unread cb' \<and> history cb' = history cb \<and>
      (p \<noteq> [] \<longrightarrow> last p = LF)"
proof -
  obtain cb' where "cbuf_read_line cb (Some buf) len lines =
        Some (Inr (int (length (unread_lines (unread cb) (len - 1) lines))),
              Some (if unread_lines (unread cb) (len - 1) lines \<noteq> []
                then store_at (take (nat (len - 1)) (unread_lines (unread cb) (len - 1) lines) @ [NUL]) buf
                else buf), cb')"
      "cbuf_is_valid cb'" "unread cb = unread_lines (unread cb) (len - 1) lines @ unread cb'"
      "history cb' = history cb"
    using cbuf_read_line_spec [OF assms, of buf] by blast
  then show ?thesis
    using unread_lines_ends [of "unread cb" "len - 1" lines] unfolding Let_def by blast
qed

theorem cbuf_read_line_whole_lines_witness:
  "\<exists>cb'. cbuf_read_line demo_written (Some ''.....'') 5 1 =
      Some (Inr 3, Some (''ab'' @ [LF, NUL] @ ''.''), cb') \<and> unread cb' = ''cd''"
proof -
  have p: "unread_lines demo_text 4 1 = ''ab'' @ [LF]" by (simp add: unread_lines_def demo_text_def LF_def)
  from cbuf_read_line_whole_lines [OF conjunct1 [OF demo_written], of 5 1 "''.....''"]
  show ?thesis using demo_written p by (auto simp: Let_def store_at_def) (simp add: demo_text_def)
qed

text \<open>
  \<open>cbuf_write_line\<close> writes a line whole, with a newline if it has none, or refuses
  it. A buffer that may not drop data loses nothing, one that may wrap once never loses a part
  of the line; otherwise the bytes reported lost are the oldest ones, and the beginning of the
  line only if the line alone exceeds the buffer.
\<close>

theorem cbuf_write_line_whole:
  assumes "cbuf_is_valid cb" "cbuf_write_line mem cb (Some str) = (r, ndropped, cb')"
  shows "cbuf_is_valid cb' \<and>
    (r = Inl ENOSPC \<and> ndropped = 0 \<and> unread cb' = unread cb \<and> overwrite cb \<noteq> CBUF_WRAP_MANY
     \<or> r = Inr (int (length (as_line str))) \<and>
       (\<exists>d skip. ndropped = skip + d \<and> 0 \<le> skip \<and> skip \<le> max 0 (int (length (as_line str)) - bsize cb) \<and>
         0 \<le> d \<and> d \<le> used cb \<and>
         unread cb' = drop (nat d) (unread cb @ drop (nat skip) (as_line str)) \<and>
         (overwrite cb = CBUF_NO_DROP \<longrightarrow> skip = 0 \<and> d = 0) \<and>
         (overwrite cb = CBUF_WRAP_ONCE \<longrightarrow> skip = 0)))"
proof (cases "r = Inl ENOSPC")
  case True
  then show ?thesis using cbuf_write_line_spec(1,4) [OF assms] by (auto simp: True)
next
  case False
  then show ?thesis using cbuf_write_line_spec(1) [OF assms] cbuf_write_line_spec(4) [OF assms] by simp
qed

theorem cbuf_write_line_whole_witness:
  "\<exists>r nd cb'. cbuf_write_line (\<lambda>_. True) demo_written (Some ''ef'') = (r, nd, cb') \<and> cbuf_is_valid cb'"
proof -
  obtain r nd cb' where e: "cbuf_write_line (\<lambda>_. True) demo_written (Some ''ef'') = (r, nd, cb')"
    by (metis prod_cases3)
  show ?thesis using cbuf_write_line_whole [OF conjunct1 [OF demo_written] e] e by blast
qed

text \<open>
  Growing a buffer, wrapped or not, changes neither the unread nor the replayable bytes,
  and adds the room it reports; a failed allocation changes nothing.
\<close>

theorem cbuf_grow_keeps_content:
  assumes "cbuf_is_valid cb" "0 < n" "cbuf_grow mem cb n = (g, cb')"
  shows "unread cb' = unread cb \<and> replayable cb' = replayable cb \<and> bsize cb' = bsize cb + g \<and>
    0 \<le> g \<and> bsize cb' \<le> maxsize cb \<and> cbuf_is_valid cb'"
  using cbuf_grow_correct [OF assms] cbuf_valid_range(2) [of cb'] by auto

theorem cbuf_grow_keeps_content_witness:
  "\<exists>g cb'. cbuf_grow (\<lambda>_. True) demo_written 3 = (g, cb') \<and> unread cb' = demo_text"
proof -
  obtain g cb' where e: "cbuf_grow (\<lambda>_. True) demo_written 3 = (g, cb')" by force
  show ?thesis using cbuf_grow_keeps_content [OF conjunct1 [OF demo_written] _ e] demo_written e by simp
qed

text \<open>
  The searches for lines end: in a valid buffer the loops over unread and over replayable
  bytes find the end of the data.
\<close>

theorem cbuf_line_searches_end:
  assumes "cbuf_is_valid cb" "-1 \<le> lines"
  shows "cbuf_find_unread_line cb chars lines \<noteq> None \<and> cbuf_find_replay_line cb chars lines \<noteq> None"
  using find_unread_line_spec [OF assms, of chars] find_replay_line_spec [OF assms, of chars]
  by (auto simp: Let_def)

theorem cbuf_line_searches_end_witness:
  "cbuf_find_unread_line demo_written 4 (-1) \<noteq> None"
  using cbuf_line_searches_end [OF conjunct1 [OF demo_written], of "-1" 4] by simp

section \<open>Host lists\<close>

text \<open>The items of \<open>n[1-3,07],x,n[1-2]-ib\<close>, and a list of four hosts\<close>

definition demo_items :: "host_item list" where
  "demo_items = [Ranges ''n'' [(''1'', Some ''3''), (''07'', None)] [], Host ''x'',
     Ranges ''n'' [(''1'', Some ''2'')] ''-ib'']"

lemma demo_items: "list_all item_ok demo_items" "commas (map item_text demo_items) = ''n[1-3,07],x,n[1-2]-ib''"
  "concat (map item_hosts demo_items) = [''n1'', ''n2'', ''n3'', ''n07'', ''x'', ''n1-ib'', ''n2-ib'']"
proof -
  show "list_all item_ok demo_items"
    by (simp add: demo_items_def plain_def HL_SEP_def NUL_def span_ok_def number_def isdigit_def
        span_lo_def span_hi_def dec_val_def digit_val_def MAX_RANGES_def less_eq_char_def)
qed code_simp+

definition demo_hl :: hostlist where
  "demo_hl = \<lparr>hranges = [hostrange_create ''n'' 1 3 1, hostrange_create_single ''x''], nhosts = 4,
     ilist = [\<lparr>hidx = 0, hdepth = 1, hfresh = True\<rparr>]\<rparr>"

lemma demo_hosts: "hosts demo_hl = [''n1'', ''n2'', ''n3'', ''x'']"
  by code_simp

lemma demo_hl: "hl_ok demo_hl"
  unfolding hl_ok_def demo_hosts
  by (simp add: demo_hl_def range_ok_def hr_ok_def names_ok_def hostrange_create_def
      hostrange_create_single_def NUL_def)

text \<open>
  C3. \<open>hostlist_create\<close> maps the text of any well-formed list of items to the list of
  exactly the hosts they stand for, in order: names, ranges with their zero padding, and ranges
  followed by a suffix.
\<close>

theorem hostlist_create_expands:
  assumes "list_all item_ok is" "length (concat (map item_hosts is)) < 2 ^ 31"
  shows "\<exists>hl. hostlist_create stale (Some (commas (map item_text is))) = Some (Inr hl) \<and> hl_ok hl \<and>
    hosts hl = concat (map item_hosts is)"
  by (rule hostlist_create_items [OF assms])

theorem hostlist_create_expands_witness:
  "\<exists>hl. hostlist_create EINVAL (Some ''n[1-3,07],x,n[1-2]-ib'') = Some (Inr hl) \<and>
     hosts hl = [''n1'', ''n2'', ''n3'', ''n07'', ''x'', ''n1-ib'', ''n2-ib'']"
  using hostlist_create_expands [OF demo_items(1), of EINVAL] unfolding demo_items by auto

text \<open>
  C4. The bracketed string of a list, when the buffer takes it, parses back to a list of the
  same hosts in the same order, if the list is within the limits of the parser: at most
  \<open>MAX_RANGES\<close> ranges, each of at most 16384 hosts, with a prefix that is not empty and has
  none of the characters with a meaning in the syntax, and names shorter than 1023 bytes
  (\<open>printable\<close>). Ranges merged by pushing may exceed 16384 hosts, and then the string is
  refused.
\<close>

theorem hostlist_ranged_string_parses_back:
  assumes "hl_ok hl" "list_all printable (hranges hl)" "length (hranges hl) \<le> MAX_RANGES"
    and "hostlist_ranged_string hl n = (len, str)" "len \<noteq> -1"
  shows "\<exists>hl'. hostlist_create stale (Some str) = Some (Inr hl') \<and> hosts hl' = hosts hl"
  using ranged_string_roundtrip [OF assms] by blast

lemma demo_printable: "list_all printable (hranges demo_hl) \<and> length (hranges demo_hl) \<le> MAX_RANGES"
proof -
  have "length (hr_hosts (hostrange_create ''n'' 1 3 1)) = 3" by code_simp
  moreover have "plain ''n''" "plain ''x''" by code_simp+
  ultimately show ?thesis
    by (simp add: demo_hl_def printable_def range_ok_def hr_ok_def names_ok_def hostrange_create_def
        hostrange_create_single_def NUL_def MAX_RANGES_def)
      (simp add: hr_hosts_def)
qed

theorem hostlist_ranged_string_parses_back_witness:
  "\<exists>hl'. hostlist_create EINVAL (Some ''n[1-3],x'') = Some (Inr hl') \<and> hosts hl' = [''n1'', ''n2'', ''n3'', ''x'']"
proof -
  have e: "hostlist_ranged_string demo_hl 64 = (8, ''n[1-3],x'')" by code_simp
  show ?thesis
    using hostlist_ranged_string_parses_back [OF demo_hl _ _ e, of EINVAL] demo_printable
    unfolding demo_hosts by auto
qed

text \<open>
  \<open>n[1-16000],n[16001-20000]\<close> is merged into one range when it is pushed. Printed, it
  is \<open>n[1-20000]\<close>, which the parser refuses: it has more than \<open>MAX_RANGE\<close> hosts.
\<close>

definition demo_merged :: hostlist where
  "demo_merged = snd (hostlist_push_hr (snd (hostlist_push_hr hostlist_new ''n'' 1 16000 1)) ''n'' 16001 20000 5)"

lemma demo_merged: "hranges demo_merged = [hostrange_create ''n'' 1 20000 1]"
proof -
  have "width_equiv 1 (Suc 0) 16001 5 = Some (Suc 0, Suc 0)"
    by (simp add: width_equiv_def zero_padded_def count_digits.simps Let_def)
  then show ?thesis
    by (simp add: demo_merged_def hostlist_push_hr_def hostlist_push_range_def hostlist_new_def hostrange_create_def
        hostrange_copy_def hostrange_prefix_cmp_def hostrange_width_combine_def Let_def)
qed

lemma demo_digits: "digit 0 = CHR ''0''" "digit (Suc 0) = CHR ''1''" "digit 2 = CHR ''2''"
  by code_simp+

theorem merged_ranges_refused:
  "hostlist_ranged_string demo_merged 64 = (10, ''n[1-20000]'') \<and> parse_single_range ''1-20000'' = Inl ERANGE"
proof -
  have d: "dec 20000 = ''20000''" "dec 1 = ''1''" by (simp_all add: dec.simps demo_digits)
  have "ranged_text (hranges demo_merged) = ''n[1-20000]''"
    unfolding demo_merged
    by (simp add: ranged_text_def groups.simps hostrange_create_def group_text_def bracketed_def hostrange_count_def numtext_def fmt0_def d [simplified])
  moreover have "hostlist_ranged_string demo_merged 64 =
      (let t = ranged_text (hranges demo_merged) in if length t < 64 then (int (length t), t) else (-1, take (64 - 1) t))"
    by (rule hostlist_ranged_string_text) (simp add: demo_merged hostrange_create_def)
  ultimately show ?thesis
    by (simp add: parse_single_range_def cut_at_def strtoul_def isspace_def isdigit_def dec_val_def digit_val_def Let_def MAX_RANGE_def)
qed

text \<open>
  \<open>hostlist_ranged_string\<close> prints the reference text of the list, or as much of it
  as fits, terminated, and says which.
\<close>

theorem hostlist_ranged_string_fits_or_truncates:
  assumes "list_all (\<lambda>r. prefix r \<noteq> []) (hranges hl)"
  shows "hostlist_ranged_string hl n =
    (let t = ranged_text (hranges hl)
     in if length t < n then (int (length t), t) else (-1, take (n - 1) t))"
  by (rule hostlist_ranged_string_text [OF assms])

theorem hostlist_ranged_string_fits_or_truncates_witness:
  "hostlist_ranged_string demo_hl 6 = (-1, ''n[1-3'')"
proof -
  have t: "ranged_text (hranges demo_hl) = ''n[1-3],x''" by code_simp
  have "list_all (\<lambda>r. prefix r \<noteq> []) (hranges demo_hl)" by code_simp
  from hostlist_ranged_string_fits_or_truncates [OF this, of 6] show ?thesis unfolding t by simp
qed

text \<open>
  \<open>hostlist_deranged_string\<close> prints the comma-separated hosts when the buffer has
  room for them and the terminator.
\<close>

theorem hostlist_deranged_string_lists_hosts:
  assumes "hl_ok hl" "length (commas (hosts hl)) < n"
  shows "hostlist_deranged_string hl n = Some (int (length (commas (hosts hl))), commas (hosts hl))"
  by (rule deranged_string_fits [OF assms])

theorem hostlist_deranged_string_lists_hosts_witness:
  "hostlist_deranged_string demo_hl 64 = Some (10, ''n1,n2,n3,x'')"
  using hostlist_deranged_string_lists_hosts [OF demo_hl, of 64] unfolding demo_hosts by simp

text \<open>
  C12. \<open>hostlist_push\<close> appends the hosts of its argument, in order, whatever ranges they are
  merged into, and returns their number.
\<close>

theorem hostlist_push_appends:
  assumes "hl_ok hl" "list_all item_ok is"
    and "length (hosts hl) + length (concat (map item_hosts is)) < 2 ^ 31"
  shows "\<exists>hl'. hostlist_push stale hl (Some (commas (map item_text is))) =
      Some (int (length (concat (map item_hosts is))), hl') \<and> hl_ok hl' \<and>
    hosts hl' = hosts hl @ concat (map item_hosts is)"
  by (rule hostlist_push_items [OF assms])

theorem hostlist_push_appends_witness:
  "\<exists>hl'. hostlist_push EINVAL demo_hl (Some ''n[1-3,07],x,n[1-2]-ib'') = Some (7, hl') \<and>
     hosts hl' = [''n1'', ''n2'', ''n3'', ''x'', ''n1'', ''n2'', ''n3'', ''n07'', ''x'', ''n1-ib'', ''n2-ib'']"
  using hostlist_push_appends [OF demo_hl demo_items(1), of EINVAL] unfolding demo_items demo_hosts by auto

text \<open>
  C13. \<open>hostlist_delete\<close> removes the first occurrence of each host of its argument, the
  last host of the argument first, and returns how many hosts went; for well-formed arguments with
  fewer than \<open>2 ^ 31\<close> hosts whose names the list can look up (\<open>findable\<close>: the number at
  the end is at most \<open>2 ^ 25\<close>, as larger ones are taken as part of the name and not found
  in a range).
\<close>

theorem hostlist_delete_removes:
  assumes "hl_ok hl" "list_all item_ok is" "length (concat (map item_hosts is)) < 2 ^ 31"
    and "\<forall>h\<in>set (concat (map item_hosts is)). NUL \<notin> set h \<and> findable h"
  shows "\<exists>n hl'. hostlist_delete stale hl (Some (commas (map item_text is))) = Some (n, hl') \<and> hl_ok hl' \<and>
    hosts hl' = fold remove1 (rev (concat (map item_hosts is))) (hosts hl) \<and>
    n = int (length (hosts hl)) - int (length (hosts hl'))"
  by (rule hostlist_delete_items [OF assms])

lemma demo_findable:
  "\<forall>h\<in>set (concat (map item_hosts demo_items)). NUL \<notin> set h \<and> findable h"
  unfolding demo_items(3)
  by (simp add: NUL_def findable_def num_suffix_def host_prefix_end_def isdigit_def less_eq_char_def
      dec_val_def digit_val_def)

theorem hostlist_delete_removes_witness:
  "\<exists>hl'. hostlist_delete EINVAL demo_hl (Some ''n[1-3,07],x,n[1-2]-ib'') = Some (4, hl') \<and> hosts hl' = []"
  using hostlist_delete_removes [OF demo_hl demo_items(1) _ demo_findable, of EINVAL]
  unfolding demo_items demo_hosts by auto

text \<open>
  A number above \<open>MAX_HOST_SUFFIX\<close> at the end of a name is taken as part of the name, so the
  host is not found in the range that names it.
\<close>

definition demo_large :: hostlist where
  "demo_large = \<lparr>hranges = [hostrange_create ''n'' 100000001 100000004 9], nhosts = 4, ilist = []\<rparr>"

theorem large_numbers_not_found:
  "''n100000002'' \<in> set (hosts demo_large) \<and> fst (hostlist_find demo_large (Some ''n100000002'')) = -1"
proof -
  have "[unat (100000001 :: ulong)..<Suc (unat (100000004 :: ulong))] = [100000001, 100000002, 100000003, 100000004]"
    by (simp add: upt_rec)
  moreover have "fmt0 9 100000002 = ''100000002''" by (simp add: fmt0_def dec.simps demo_digits)
  ultimately have "''n100000002'' \<in> set (hosts demo_large)"
    by (simp add: demo_large_def hosts_def hr_hosts_def hostrange_create_def)
  moreover have "fst (hostlist_find demo_large (Some ''n100000002'')) = -1"
    by (simp add: demo_large_def hostlist_find_def hostrange_create_def host_prefix_end_def isdigit_def less_eq_char_def
        hostrange_hn_within.simps hostname_create_with_suffix_def strtoul_def isspace_def MAX_HOST_SUFFIX_def
        dec_val_def digit_val_def Let_def hostname_suffix_is_valid_def)
  ultimately show ?thesis by blast
qed

text \<open>
  \<open>hostlist_find\<close> returns the position of the first occurrence of a host, or -1 when
  the list does not contain it, and leaves the hosts as they were.
\<close>

theorem hostlist_find_first:
  assumes "hl_ok hl" "NUL \<notin> set name" "findable name" "hostlist_find hl (Some name) = (k, hl')"
  shows "(if name \<in> set (hosts hl)
      then 0 \<le> k \<and> nat k < length (hosts hl) \<and> hosts hl ! nat k = name \<and> name \<notin> set (take (nat k) (hosts hl))
      else k = -1) \<and>
    hosts hl' = hosts hl \<and> hl_ok hl'"
proof -
  note F = hostlist_find_spec [OF assms]
  have "name \<notin> set (take (first_pos name (hosts hl)) (hosts hl))"
    unfolding first_pos_def takeWhile_eq_take [symmetric] by (auto dest: set_takeWhileD)
  then show ?thesis using F first_pos_bounds [of name "hosts hl"] by simp
qed

theorem hostlist_find_first_witness:
  "\<exists>hl'. hostlist_find demo_hl (Some ''n3'') = (2, hl') \<and> hosts hl' = [''n1'', ''n2'', ''n3'', ''x'']"
proof -
  obtain k hl' where f: "hostlist_find demo_hl (Some ''n3'') = (k, hl')" by force
  have n: "NUL \<notin> set ''n3''" "findable ''n3''" using demo_findable unfolding demo_items(3) by simp_all
  note P = hostlist_find_first [OF demo_hl n f, unfolded demo_hosts]
  have "nat k < Suc (Suc (Suc (Suc 0)))" "0 \<le> k" "[''n1'', ''n2'', ''n3'', ''x''] ! nat k = ''n3''"
    using P by simp_all
  then have "nat k = 2" by (auto simp: less_Suc_eq)
  then have "k = 2" by simp
  then show ?thesis using f P by simp
qed

text \<open>
  \<open>hostlist_nth\<close> returns the host at an index, for names of at most 78 characters, and
  null beyond the end.
\<close>

theorem hostlist_nth_host:
  assumes "hl_ok hl" "0 \<le> n"
    and "nat n < length (hosts hl) \<longrightarrow> length (hosts hl ! nat n) \<le> 78"
  shows "hostlist_nth hl n = Some (if nat n < length (hosts hl) then Some (hosts hl ! nat n) else None)"
  using assms hostlist_nth_spec [of hl "nat n"] hostlist_nth_beyond [of hl "nat n"] by simp

theorem hostlist_nth_host_witness: "hostlist_nth demo_hl 3 = Some (Some ''x'')"
  using hostlist_nth_host [OF demo_hl, of 3] unfolding demo_hosts by simp

text \<open>
  C11. A loop over \<open>hostlist_next\<close> from a new iterator visits exactly the hosts of the
  list, in order, and ends.
\<close>

theorem hostlist_iteration_visits_all:
  assumes "hl_ok hl" "suffixes_fit hl"
  shows "\<exists>s. drain next_step (Suc (length (hosts hl))) (hl, hd (ilist (hostlist_iterator_create hl))) =
    Some (hosts hl, s)"
proof -
  let ?i = "hd (ilist (hostlist_iterator_create hl))"
  have "hr_hosts (hranges hl ! 0) \<noteq> []" if "hranges hl \<noteq> []"
    using that hl_okD(1) [OF assms(1)] by (cases "hranges hl") (auto simp: range_ok_def)
  then have "iter_ok (hranges hl) ?i" "iter_pos (hranges hl) ?i = 0"
    by (auto simp: hostlist_iterator_create_def iter_ok_def iter_pos_def)
  then show ?thesis
    using hl_next.drain_all [of "(hl, ?i)" "Suc (length (hosts hl))"] assms by auto
qed

theorem hostlist_iteration_visits_all_witness:
  "\<exists>s. drain next_step 5 (demo_hl, hd (ilist (hostlist_iterator_create demo_hl))) =
     Some ([''n1'', ''n2'', ''n3'', ''x''], s)"
proof -
  have "suffixes_fit demo_hl"
    by (simp add: suffixes_fit_def demo_hl_def hostrange_create_def hostrange_create_single_def)
  from hostlist_iteration_visits_all [OF demo_hl this] show ?thesis
    unfolding demo_hosts by (simp add: eval_nat_numeral del: drain.simps)
qed

text \<open>
  A loop over \<open>hostlist_shift\<close> takes off every host, first to last, and one over
  \<open>hostlist_pop\<close> last to first; both leave the empty list.
\<close>

theorem hostlist_shift_pop_loops:
  assumes "hl_ok hl"
  shows "(\<exists>hl'. drain shift_step (Suc (length (hosts hl))) hl = Some (hosts hl, hl') \<and> hosts hl' = []) \<and>
    (\<exists>hl'. drain pop_step (Suc (length (hosts hl))) hl = Some (rev (hosts hl), hl') \<and> hosts hl' = [])"
  using hl_shift.drain_all [OF assms, of "Suc (length (hosts hl))"]
    hl_pop.drain_all [OF assms, of "Suc (length (hosts hl))"] by auto

theorem hostlist_shift_pop_loops_witness:
  "\<exists>hl'. drain shift_step 5 demo_hl = Some ([''n1'', ''n2'', ''n3'', ''x''], hl')"
  using conjunct1 [OF hostlist_shift_pop_loops [OF demo_hl]] unfolding demo_hosts
  by (auto simp: eval_nat_numeral simp del: drain.simps)

text \<open>
  C14. \<open>hostlist_remove\<close> removes the host the iterator returned last and no other.
\<close>

theorem hostlist_remove_last_returned:
  assumes "hl_ok hl" "k < length (ilist hl)" "iter_ok (hranges hl) (ilist hl ! k)"
    and "hidx (ilist hl ! k) < int (length (hranges hl))" "0 \<le> hdepth (ilist hl ! k)"
  shows "let p = iter_pos (hranges hl) (ilist hl ! k)
    in \<exists>hl'. hostlist_remove hl k = Some (1, hl') \<and> hl_ok hl' \<and>
      0 < p \<and> hosts hl' = take (p - 1) (hosts hl) @ drop p (hosts hl)"
  using hostlist_remove_hosts [OF assms] by (simp add: Let_def)

theorem hostlist_remove_last_returned_witness:
  "\<exists>hl'. hostlist_remove demo_hl 0 = Some (1, hl') \<and> hosts hl' = [''n1'', ''n3'', ''x'']"
proof -
  have i: "iter_ok (hranges demo_hl) (ilist demo_hl ! 0)" "iter_pos (hranges demo_hl) (ilist demo_hl ! 0) = 2"
    by code_simp+
  have h: "0 < length (ilist demo_hl)" "hidx (ilist demo_hl ! 0) < int (length (hranges demo_hl))"
    "0 \<le> hdepth (ilist demo_hl ! 0)" by (simp_all add: demo_hl_def)
  show ?thesis
    using hostlist_remove_last_returned [OF demo_hl h(1) i(1) h(2,3)] unfolding i(2) demo_hosts
    by (auto simp: Let_def eval_nat_numeral)
qed

text \<open>
  After the removal of a host that was a range of its own, the iterator is at the same
  depth of the range before it: the loop visits hosts of that range again.
\<close>

theorem hostlist_remove_revisits:
  "let hl = \<lparr>hranges = [hostrange_create ''a'' 1 5 1, hostrange_create ''b'' 1 1 1], nhosts = 6,
      ilist = [\<lparr>hidx = 1, hdepth = 0, hfresh = True\<rparr>]\<rparr>
   in map_option (\<lambda>(_, hl'). map_option fst (hostlist_next hl' (ilist hl' ! 0))) (hostlist_remove hl 0) =
      Some (Some (Some ''a2''))"
  by code_simp

text \<open>
  \<open>hostlist_uniq\<close> keeps the set of hosts and the count of hosts right, and never adds
  any, if \<open>qsort\<close> permutes the ranges and puts those with the same prefix in order.
\<close>

theorem hostlist_uniq_same_set:
  assumes "hl_ok hl" "list_all range_ok (qs (hranges hl))" "lo_sorted (qs (hranges hl))"
    and "mset (map hr_hosts (qs (hranges hl))) = mset (map hr_hosts (hranges hl))"
  shows "hl_ok (hostlist_uniq qs hl) \<and> set (hosts (hostlist_uniq qs hl)) = set (hosts hl) \<and>
    length (hosts (hostlist_uniq qs hl)) \<le> length (hosts hl)"
  using assms by (rule hostlist_uniq_spec)

definition demo_dups :: hostlist where
  "demo_dups = \<lparr>hranges = [hostrange_create ''n'' 3 6 1, hostrange_create ''n'' 1 4 1], nhosts = 8, ilist = []\<rparr>"

theorem hostlist_uniq_same_set_witness:
  "hl_ok (hostlist_uniq rev demo_dups) \<and>
   set (hosts (hostlist_uniq rev demo_dups)) = {''n1'', ''n2'', ''n3'', ''n4'', ''n5'', ''n6''}"
proof -
  have h: "hosts demo_dups = [''n3'', ''n4'', ''n5'', ''n6'', ''n1'', ''n2'', ''n3'', ''n4'']" by code_simp
  have "hl_ok demo_dups"
    unfolding hl_ok_def h by (simp add: demo_dups_def range_ok_def hr_ok_def names_ok_def hostrange_create_def NUL_def)
  moreover have "list_all range_ok (rev (hranges demo_dups))"
    by (simp add: demo_dups_def range_ok_def hr_ok_def names_ok_def hostrange_create_def NUL_def)
  moreover have "lo_sorted (rev (hranges demo_dups))"
    by (simp add: demo_dups_def lo_sorted_def hostrange_create_def)
  ultimately have "hl_ok (hostlist_uniq rev demo_dups) \<and>
      set (hosts (hostlist_uniq rev demo_dups)) = set (hosts demo_dups)"
    using hostlist_uniq_same_set [of demo_dups rev] by (simp add: rev_map [symmetric])
  then show ?thesis unfolding h by auto
qed

text \<open>
  C32. \<open>hostset_within\<close> decides inclusion: it returns 1 exactly when every host of its
  argument is in the set, and leaves the hosts of the set; for well-formed arguments with fewer than
  \<open>2 ^ 31\<close> hosts whose names the set can look up (\<open>findable\<close>: the number at the end is
  at most \<open>2 ^ 25\<close>, as larger ones are taken as part of the name and not found in a range).
\<close>

theorem hostset_within_subset:
  assumes "hl_ok hs" "list_all item_ok is" "length (concat (map item_hosts is)) < 2 ^ 31"
    and "\<forall>h\<in>set (concat (map item_hosts is)). NUL \<notin> set h \<and> findable h"
  shows "\<exists>hs'. hostset_within stale hs (Some (commas (map item_text is))) =
      Some (of_bool (set (concat (map item_hosts is)) \<subseteq> set (hosts hs)), hs') \<and>
    hosts hs' = hosts hs \<and> hl_ok hs'"
  by (rule hostset_within_items [OF assms])

theorem hostset_within_subset_witness:
  "\<exists>hs'. hostset_within EINVAL demo_hl (Some ''n[1-3,07],x,n[1-2]-ib'') = Some (0, hs')"
  using hostset_within_subset [OF demo_hl demo_items(1) _ demo_findable, of EINVAL]
  unfolding demo_items demo_hosts by auto

text \<open>
  Inserting a range that overlaps one in the middle of a set subtracts the duplicates
  twice: the set has 19 hosts, and counts 16.
\<close>

theorem hostset_insert_miscounts:
  "let hs = \<lparr>hranges = [hostrange_create ''a'' 1 5 1, hostrange_create ''a'' 20 30 1], nhosts = 16, ilist = []\<rparr>;
       hs' = snd (hostset_insert_range hs (hostrange_create ''a'' 3 8 1))
   in hostset_count hs' = 16 \<and> length (hosts hs') = 19"
  by code_simp

text \<open>
  A token with an opening bracket and no closing one is an error, and so is one with a
  closing bracket alone; neither changes a list.
\<close>

theorem hostlist_create_unbalanced:
  assumes "(CHR ''['' \<in> set tok) \<noteq> (CHR '']'' \<in> set tok)"
  shows "create_token stale hl tok = Some (Inl EINVAL)"
proof (cases "CHR ''['' \<in> set tok")
  case True
  then show ?thesis using create_token_unbalanced assms by blast
next
  case False
  then have "cut_at CHR ''['' tok = (tok, None)" by (simp add: cut_at_None)
  then show ?thesis using assms False by (simp add: create_token_def)
qed

theorem hostlist_create_unbalanced_witness: "create_token ENOMEM demo_hl ''n[1-3'' = Some (Inl EINVAL)"
  by (rule hostlist_create_unbalanced) simp

text \<open>
  A range the parser accepts has its bounds in order and at most 16384 numbers, unless it
  is the range of all numbers, whose size wraps around to 0.
\<close>

theorem parse_single_range_limit:
  assumes "parse_single_range str = Inr r"
  shows "rlo r \<le> rhi r \<and> (unat (rhi r) - unat (rlo r) < 16384 \<or> rlo r = 0 \<and> rhi r = ULONG_MAX)"
  using parse_single_range_bounds [OF assms] by blast

theorem parse_single_range_limit_witness:
  "rlo \<lparr>rlo = 8, rhi = 11, rwidth = 2\<rparr> \<le> rhi \<lparr>rlo = 8, rhi = 11, rwidth = 2\<rparr>"
proof -
  have "parse_single_range ''08-11'' = Inr \<lparr>rlo = 8, rhi = 11, rwidth = 2\<rparr>"
    by (simp add: parse_single_range_def cut_at_def strtoul_def isspace_def isdigit_def dec_val_def
        digit_val_def MAX_RANGE_def less_eq_char_def)
  from parse_single_range_limit [OF this] show ?thesis by blast
qed

text \<open>
  That range with a suffix makes the parser push hosts forever.
\<close>

theorem hostlist_create_endless:
  "hostlist_create stale (Some ''a[0-18446744073709551615]b'') = None"
proof -
  have t: "next_tok HL_SEP ''a[0-18446744073709551615]b'' = (Some ''a[0-18446744073709551615]b'', [])"
    by code_simp
  have "cut_at CHR '','' ''0-18446744073709551615'' = (''0-18446744073709551615'', None)" by code_simp
  moreover have "parse_single_range ''0-18446744073709551615'' = Inr \<lparr>rlo = 0, rhi = ULONG_MAX, rwidth = 1\<rparr>"
    by (simp add: parse_single_range_def cut_at_def strtoul_def isspace_def isdigit_def dec_val_def
        digit_val_def MAX_RANGE_def less_eq_char_def ULONG_MAX_def)
  ultimately have r: "parse_range_list stale ''0-18446744073709551615'' MAX_RANGES 0 =
      Inr [\<lparr>rlo = 0, rhi = ULONG_MAX, rwidth = 1\<rparr>]"
    by (subst parse_range_list.simps) (simp add: MAX_RANGES_def)
  have c: "cut_at CHR ''['' ''a[0-18446744073709551615]b'' = (''a'', Some ''0-18446744073709551615]b'')"
    "cut_at CHR '']'' ''0-18446744073709551615]b'' = (''0-18446744073709551615'', Some ''b'')" by code_simp+
  have "create_token stale hostlist_new ''a[0-18446744073709551615]b'' = None"
    unfolding create_token_def c prod.case option.case r sum.case by (simp add: push_suffix_loop_forever)
  then show ?thesis
    unfolding hostlist_create_def hostlist_create_bracketed_def option.case
    by (subst create_tokens.simps) (simp only: t prod.case option.case)
qed

section \<open>Generic lists\<close>

text \<open>
  C15. Any sequence of calls on a new list, with iterators created, moved and destroyed among
  insertions, removals and sorts, gives the answers of a sequence with cursors, and leaves the
  heap well-formed.
\<close>

theorem list_calls_refine_sequence:
  assumes "alloc_ok mem" "seq_run cs \<lparr>elems = [], curs = []\<rparr> = Some (as, s)"
  shows "\<exists>l. list_run mem cs list_create = Some (as, l) \<and> list_ok l \<and> absl l = s \<and>
    list_count l = int (length (elems s))"
proof -
  have "absl list_create = (\<lparr>elems = [], curs = []\<rparr> :: 'a seq)" by (simp add: absl_def)
  then have "seq_run cs (absl list_create) = Some (as, s)" using assms(2) by simp
  from list_run_refines [OF list_create_ok(1) assms(1) this] obtain l where
    l: "list_run mem cs list_create = Some (as, l)" "list_ok l" "absl l = s" by blast
  then show ?thesis using list_ok_count [OF l(2)] by (auto simp: absl_def list_count_def)
qed

theorem list_calls_refine_sequence_witness:
  "\<exists>l. list_run bump_alloc
      [Append ''a'', Append ''b'', Iter_Create, Iter_Next 0, Prepend ''c'', Iter_Remove 0, Iter_Next 0, Iter_Next 0] list_create =
    Some ([Datum (Some ''a''), Datum (Some ''b''), Nothing, Datum (Some ''a''), Datum (Some ''c''), Datum (Some ''a''),
      Datum (Some ''b''), Datum None], l) \<and> items l = [''c'', ''b'']"
proof -
  have "seq_run [Append ''a'', Append ''b'', Iter_Create, Iter_Next 0, Prepend ''c'', Iter_Remove 0, Iter_Next 0, Iter_Next 0]
      \<lparr>elems = [], curs = []\<rparr> =
    Some ([Datum (Some ''a''), Datum (Some ''b''), Nothing, Datum (Some ''a''), Datum (Some ''c''), Datum (Some ''a''),
      Datum (Some ''b''), Datum None], \<lparr>elems = [''c'', ''b''], curs = [(2, False)]\<rparr>)"
    by code_simp
  from list_calls_refine_sequence [OF bump_alloc this] show ?thesis by (auto simp: absl_def)
qed

text \<open>A list of three strings\<close>

definition demo_list :: "string llist" where
  "demo_list = list_split bump_alloc (Some '','') ''nn,b,cc''"

lemma demo_list: "list_ok demo_list" "items demo_list = [''nn'', ''b'', ''cc'']"
proof -
  have "tokens '','' ''nn,b,cc'' = [''nn'', ''b'', ''cc'']" by code_simp
  then show "list_ok demo_list" "items demo_list = [''nn'', ''b'', ''cc'']"
    using list_split_spec [OF bump_alloc, of "'',''" "''nn,b,cc''"] by (simp_all add: demo_list_def)
qed

text \<open>
  C35. \<open>list_sort\<close> ends, and sorts stably by the key its comparison function compares.
\<close>

theorem list_sort_is_stable_sort:
  fixes key :: "'a \<Rightarrow> 'b::linorder"
  assumes "list_ok l" "\<forall>x y. f x y < 0 \<longleftrightarrow> key x < key y"
  shows "\<exists>l'. list_sort l f = Some l' \<and> list_ok l' \<and> items l' = sort_key key (items l)"
proof -
  obtain l' where "list_sort l f = Some l'" "list_ok l'" "items l' = insertion_sort f (items l)"
    using list_sort_spec [OF assms(1)] by blast
  then show ?thesis using insertion_sort_key [of f key "items l"] assms(2) by simp
qed

theorem list_sort_is_stable_sort_witness:
  "\<exists>l'. list_sort demo_list (\<lambda>x y. int (length x) - int (length y)) = Some l' \<and> items l' = [''b'', ''nn'', ''cc'']"
proof -
  have "\<forall>x y. int (length x) - int (length y) < 0 \<longleftrightarrow> length x < length y" by auto
  from list_sort_is_stable_sort [OF demo_list(1) this] show ?thesis
    unfolding demo_list(2) by auto
qed

text \<open>
  \<open>list_delete_all\<close> removes exactly the selected elements, hands them to the
  destructor in order, and returns their number.
\<close>

theorem list_delete_all_filters:
  assumes "list_ok l"
  shows "\<exists>l'. list_delete_all l f key =
      Some (int (length (filter (\<lambda>v. f v key) (items l))), filter (\<lambda>v. f v key) (items l), l') \<and>
    list_ok l' \<and> items l' = filter (\<lambda>v. \<not> f v key) (items l)"
proof -
  obtain l' where l': "list_delete_all l f key =
      Some (int (length (filter (\<lambda>v. f v key) (items l))), filter (\<lambda>v. f v key) (items l), l')"
    "list_ok l'" "absl l' = seq_delete_from (\<lambda>v. f v key) 0 (absl l)"
    using list_delete_all_spec [OF assms] .
  have "items l' = filter (\<lambda>v. \<not> f v key) (items l)"
    using arg_cong [OF l'(3), of elems] by (simp add: elems_seq_delete_from) (simp add: absl_def)
  then show ?thesis using l' by blast
qed

theorem list_delete_all_filters_witness:
  "\<exists>l'. list_delete_all demo_list (\<lambda>v k. length v = k) 2 = Some (2, [''nn'', ''cc''], l') \<and> items l' = [''b'']"
  using list_delete_all_filters [OF demo_list(1), of "\<lambda>v k. length v = k" 2] unfolding demo_list by auto

text \<open>
  C36. \<open>list_join\<close> never exceeds the buffer: it stores the elements with separators
  between them if these and one more separator fit, and otherwise as much as fits.
\<close>

theorem list_join_fits_or_truncates:
  assumes "list_ok l" "0 < len"
  shows "\<exists>n str l'. list_join (Some p) len sep l = Some (n, str, l') \<and> length str < len \<and>
    (if items l = [] \<or> length (joined sep (items l) @ sep) < len then str = joined sep (items l)
     else str = take (len - 1) (joined sep (items l) @ sep)) \<and>
    list_ok l' \<and> items l' = items l \<and> cursors l' = cursors l"
proof -
  let ?str = "if items l = [] \<or> length (joined sep (items l) @ sep) < len then joined sep (items l)
    else take (len - 1) (joined sep (items l) @ sep)"
  obtain n l' where J: "list_join (Some p) len sep l = Some (n, ?str, l')" "list_ok l'" "items l' = items l"
    "cursors l' = cursors l"
    using list_join_spec [OF assms, of p sep] by blast
  have "length ?str < len" using assms(2) by (cases "items l") auto
  then show ?thesis using J by (intro exI [of _ n] exI [of _ ?str] exI [of _ l']) simp
qed

theorem list_join_fits_or_truncates_witness:
  "\<exists>n l'. list_join (Some 0) 7 '','' demo_list = Some (n, ''nn,b,c'', l')"
  using list_join_fits_or_truncates [OF demo_list(1), of 7 0 "'',''"] unfolding demo_list by auto

text \<open>
  What \<open>list_join\<close> stores, if it fits, \<open>list_split\<close> at the same separator
  turns back into the elements.
\<close>

theorem list_join_splits_back:
  assumes "list_ok l" "alloc_ok mem" "list_all (tok_ok [c]) (items l)"
    and "length (joined [c] (items l)) + 1 < len"
  shows "\<exists>n str l'. list_join (Some p) len [c] l = Some (n, str, l') \<and>
    list_ok (list_split mem (Some [c]) str) \<and> items (list_split mem (Some [c]) str) = items l"
proof -
  have "0 < len" using assms(4) by simp
  from list_join_spec [OF assms(1) this, of p "[c]"] assms(4) obtain n l' where
    "list_join (Some p) len [c] l = Some (n, joined [c] (items l), l')" by auto
  moreover have "tokens [c] (joined [c] (items l)) = items l"
    using tokens_joined [where sep = "[c]" and c = c and ss = "items l"] assms(3) by simp
  ultimately show ?thesis using list_split_spec [OF assms(2), of "[c]" "joined [c] (items l)"] by simp
qed

theorem list_join_splits_back_witness:
  "\<exists>n str l'. list_join (Some 0) 16 '':'' demo_list = Some (n, str, l') \<and>
     items (list_split bump_alloc (Some '':'') str) = [''nn'', ''b'', ''cc'']"
proof -
  have "list_all (tok_ok '':'') (items demo_list)" "length (joined '':'' (items demo_list)) + 1 < 16"
    unfolding demo_list by (simp_all add: tok_ok_def)
  from list_join_splits_back [OF demo_list(1) bump_alloc this] show ?thesis unfolding demo_list by blast
qed

section \<open>Choosing the hosts\<close>

text \<open>
  The options \<open>-w\<close> and \<open>-x\<close>, in any order and number, make the list of the
  hosts taken, in their order, without the first occurrence of each host left out; every occurrence
  goes if no host was taken twice. No module adds hosts here, and no item has one of the prefixes
  for files, expressions, modules and users.
\<close>

theorem target_list_hosts:
  assumes "list_all targets_ok ts" "taken ts \<noteq> []"
  defines "T \<equiv> concat (map item_hosts (taken ts))" and "L \<equiv> concat (map item_hosts (left ts))"
  assumes "length T < 2 ^ 31" "length L < 2 ^ 31"
    and "list_all (\<lambda>h. item_ok (Host h)) T" "list_all findable L"
  shows "\<exists>opt opt' hl. target_opts_process env opt_wcoll_start (map targets_opt ts) = Some (Continues opt) \<and>
    opt_args_wcoll env (\<lambda>w. w) var opt = Some (Continues opt') \<and> wcoll opt' = Some hl \<and> hl_ok hl \<and>
    hosts hl = fold remove1 L T \<and> (distinct T \<longrightarrow> hosts hl = filter (\<lambda>h. h \<notin> set L) T)"
  using target_list [OF assms(1,2) assms(5-8) [unfolded T_def L_def], of env var] fold_remove1_distinct [of T L]
  unfolding T_def L_def by metis

definition demo_targets :: "targets list" where
  "demo_targets = [Take [Ranges ''n'' [(''1'', Some ''3'')] []], Leave [Host ''n2''], Take [Host ''n2'']]"

definition demo_wcoll_env :: wcoll_env where
  "demo_wcoll_env = \<lparr>efiles = \<lparr>readable = \<lambda>_. False, contents = \<lambda>_. None\<rparr>,
     emodules = \<lparr>loaded = \<lambda>_. True, resolves = \<lambda>_. True\<rparr>, eregcomp = \<lambda>_. True,
     eregexec = \<lambda>_ _. RegNoMatch, estdin = [], edepth = 1, estale = ENOMEM\<rparr>"

text \<open>\<open>-w n[1-3] -x n2 -w n2\<close> leaves the second \<open>n2\<close>.\<close>

lemma demo_targets:
  "list_all targets_ok demo_targets" "taken demo_targets \<noteq> []"
  "concat (map item_hosts (taken demo_targets)) = [''n1'', ''n2'', ''n3'', ''n2'']"
  "concat (map item_hosts (left demo_targets)) = [''n2'']"
  "list_all (\<lambda>h. item_ok (Host h)) [''n1'', ''n2'', ''n3'', ''n2'']" "list_all findable [''n2'']"
proof -
  show "list_all targets_ok demo_targets"
    by (simp add: demo_targets_def target_item_def plain_def HL_SEP_def NUL_def span_ok_def number_def isdigit_def
        isspace_def span_text_def span_lo_def span_hi_def dec_val_def digit_val_def MAX_RANGES_def less_eq_char_def)
  show "taken demo_targets \<noteq> []" by (simp add: demo_targets_def)
  show "concat (map item_hosts (taken demo_targets)) = [''n1'', ''n2'', ''n3'', ''n2'']"
    "concat (map item_hosts (left demo_targets)) = [''n2'']" by code_simp+
  show "list_all (\<lambda>h. item_ok (Host h)) [''n1'', ''n2'', ''n3'', ''n2'']"
    by (simp add: plain_def HL_SEP_def NUL_def)
  show "list_all findable [''n2'']"
    by (simp add: findable_def num_suffix_def host_prefix_end_def isdigit_def dec_val_def digit_val_def less_eq_char_def)
qed

theorem target_list_hosts_witness:
  "\<exists>opt opt' hl. target_opts_process demo_wcoll_env opt_wcoll_start (map targets_opt demo_targets) = Some (Continues opt) \<and>
    opt_args_wcoll demo_wcoll_env (\<lambda>w. w) None opt = Some (Continues opt') \<and> wcoll opt' = Some hl \<and>
    hosts hl = [''n1'', ''n3'', ''n2'']"
  using target_list_hosts [OF demo_targets(1,2), of demo_wcoll_env None] demo_targets(5,6)
  unfolding demo_targets(3,4) by fastforce

text \<open>
  A regular expression keeps exactly the hosts it selects, in their order, though the hosts
  are removed during the iteration; \<open>regexec\<close> is any function.
\<close>

theorem hostlist_filter_regex_keeps:
  assumes "hl_ok hl" "suffixes_fit hl"
  shows "\<exists>hl'. hostlist_filter_regex regexec hl re = Some hl' \<and> hl_ok hl' \<and>
    hosts hl' = filter (\<lambda>h. if rexclude re then regexec (rpattern re) h \<noteq> RegMatch
      else regexec (rpattern re) h \<noteq> RegNoMatch) (hosts hl)"
  using hostlist_filter_regex_spec [OF assms, of regexec re] unfolding regex_keeps_def by blast

definition demo_regexec :: "string \<Rightarrow> string \<Rightarrow> regexec_rc" where
  "demo_regexec pat h = (if hd pat \<in> set h then RegMatch else RegNoMatch)"

theorem hostlist_filter_regex_keeps_witness:
  "\<exists>hl'. hostlist_filter_regex demo_regexec demo_hl \<lparr>rexclude = True, rpattern = ''2''\<rparr> = Some hl' \<and>
    hosts hl' = [''n1'', ''n3'', ''x'']"
proof -
  have "suffixes_fit demo_hl"
    by (simp add: suffixes_fit_def demo_hl_def hostrange_create_def hostrange_create_single_def)
  from hostlist_filter_regex_keeps [OF demo_hl this, of demo_regexec "\<lparr>rexclude = True, rpattern = ''2''\<rparr>"]
  show ?thesis unfolding demo_hosts by (auto simp: demo_regexec_def)
qed

text \<open>
  C27. A file of hosts gives the hosts of its lines, in order, each line a list of items with
  white space around it and a comment behind it.
\<close>

theorem wcoll_file_hosts:
  assumes "name \<noteq> ''-''" "readable fs name" "contents fs name = Some body"
    and "list_all2 line_items (fgets_lines LINEBUFSIZE body) iss"
    and "length (concat (map item_hosts (concat iss))) < 2 ^ 31"
  shows "\<exists>hl. read_wcoll n fs stale std_in (Some name) None = Some (Continues hl) \<and> hl_ok hl \<and>
    hosts hl = concat (map item_hosts (concat iss))"
  by (rule read_wcoll_items [OF assms])

definition demo_file :: string where
  "demo_file = '' n[1-3,07],x,n[1-2]-ib # all'' @ [LF] @ ''# none'' @ [LF] @ ''y''"

theorem wcoll_file_hosts_witness:
  "\<exists>hl. read_wcoll 1 \<lparr>readable = \<lambda>p. p = ''h'', contents = \<lambda>p. if p = ''h'' then Some demo_file else None\<rparr>
     ENOMEM [] (Some ''h'') None = Some (Continues hl) \<and>
     hosts hl = [''n1'', ''n2'', ''n3'', ''n07'', ''x'', ''n1-ib'', ''n2-ib'', ''y'']"
proof -
  let ?fs = "\<lparr>readable = \<lambda>p. p = ''h'', contents = \<lambda>p. if p = ''h'' then Some demo_file else None\<rparr>"
  have l: "fgets_lines LINEBUFSIZE demo_file =
    ['' n[1-3,07],x,n[1-2]-ib # all'' @ [LF], ''# none'' @ [LF], ''y'']" by code_simp
  have "include_file (cstr ('' n[1-3,07],x,n[1-2]-ib # all'' @ [LF])) = None"
    "xstrcln (takeWhile (\<lambda>c. c \<noteq> CHR ''#'') (cstr ('' n[1-3,07],x,n[1-2]-ib # all'' @ [LF]))) None = ''n[1-3,07],x,n[1-2]-ib''"
    "include_file (cstr (''# none'' @ [LF])) = None"
    "xstrcln (takeWhile (\<lambda>c. c \<noteq> CHR ''#'') (cstr (''# none'' @ [LF]))) None = []"
    "include_file (cstr ''y'') = None" "xstrcln (takeWhile (\<lambda>c. c \<noteq> CHR ''#'') (cstr ''y'')) None = ''y''"
    by code_simp+
  then have "list_all2 line_items (fgets_lines LINEBUFSIZE demo_file) [demo_items, [], [Host ''y'']]"
    unfolding l using demo_items(1,2) by (simp add: line_items_def plain_def HL_SEP_def NUL_def)
  from wcoll_file_hosts [of "''h''" ?fs, OF _ _ _ this, of 1 ENOMEM "[]"] show ?thesis
    by (auto simp: demo_items(3))
qed

text \<open>
  C28. Reading a file of hosts always returns or ends the program, whatever files include one
  another: no file is read a second time as an include, so the depth of includes stays below the
  number of readable files. The lines must not make the parser itself run for ever.
\<close>

theorem wcoll_includes_end:
  assumes "finite (existing fs)" "lines_end fs stale" "card (existing fs) < n"
  shows "read_wcoll_path n fs stale path name \<noteq> None \<and>
    (name \<noteq> ''-'' \<longrightarrow> read_wcoll n fs stale std_in (Some name) None \<noteq> None)"
  by (intro conjI impI read_wcoll_returns [OF assms])

text \<open>A file that includes itself\<close>

definition demo_cycle :: files where
  "demo_cycle = \<lparr>readable = \<lambda>p. p = ''./a'', contents = \<lambda>p. if p = ''./a'' then Some (''#include ./a'' @ [LF] @ ''n1'') else None\<rparr>"

theorem wcoll_includes_end_witness: "read_wcoll 2 demo_cycle ENOMEM [] (Some ''./a'') None \<noteq> None"
proof -
  have e: "existing demo_cycle = {''./a''}" by (auto simp: existing_def demo_cycle_def)
  have l: "fgets_lines LINEBUFSIZE (''#include ./a'' @ [LF] @ ''n1'') = [''#include ./a'' @ [LF], ''n1'']" by code_simp
  have x: "xstrcln (takeWhile (\<lambda>c. c \<noteq> CHR ''#'') (cstr (''#include ./a'' @ [LF]))) None = commas (map item_text [])"
    "xstrcln (takeWhile (\<lambda>c. c \<noteq> CHR ''#'') (cstr ''n1'')) None = commas (map item_text [Host ''n1''])" by code_simp+
  have "hostlist_create ENOMEM (Some (xstrcln (takeWhile (\<lambda>c. c \<noteq> CHR ''#'') (cstr (''#include ./a'' @ [LF]))) None)) \<noteq> None"
    "hostlist_create ENOMEM (Some (xstrcln (takeWhile (\<lambda>c. c \<noteq> CHR ''#'') (cstr ''n1'')) None)) \<noteq> None"
    unfolding x using hostlist_create_items [of "[]" ENOMEM] hostlist_create_items [of "[Host ''n1'']" ENOMEM]
    by (auto simp: plain_def HL_SEP_def NUL_def)
  then have "lines_end demo_cycle ENOMEM"
    using l by (auto simp: lines_end_def demo_cycle_def split: if_splits)
  then show ?thesis using wcoll_includes_end [of demo_cycle ENOMEM 2 "[]" "''./a''" "[]"] by (simp add: e)
qed

text \<open>
  C38. A list of hosts to leave out is kept as its ranged string; if that needs 4095 bytes or
  more, the loop that should enlarge the buffer never ends.
\<close>

theorem list_push_hostlist_fits_or_endless:
  assumes "list_all (\<lambda>r. prefix r \<noteq> []) (hranges hl)"
  shows "list_push_hostlist l hl =
    (if length (ranged_text (hranges hl)) < 4095 then Some (ranged_text (hranges hl) # l) else None)"
  using ranged_string_loop_fits [OF assms, of 4096] by (simp add: list_push_hostlist_def)

theorem list_push_hostlist_fits_or_endless_witness:
  "list_push_hostlist [] \<lparr>hranges = [hostrange_create_single (replicate 4095 CHR ''n'')], nhosts = 1, ilist = []\<rparr> = None"
  by (subst list_push_hostlist_fits_or_endless)
    (simp_all add: hostrange_create_single_def ranged_text_def group_text_def numtext_def bracketed_def hostrange_count_def)

text \<open>
  C29. The first registration of a host decides the module and the user it is connected with; a
  registration without a module leaves the default one, and a host in none gets the default module
  and the user of the command line.
\<close>

theorem rcmd_first_registration:
  assumes "list_all (reg_ok ms) rs"
  shows "\<exists>st. register_all ms stale rcmd_start rs = Some st \<and>
    (\<forall>d h. rcmd_create (st\<lparr>default_rcmd_module := d\<rparr>) h =
      (let r = find (\<lambda>r. h \<in> set (reg_hosts r)) rs;
           m = (case r of Some (_, Some m, _) \<Rightarrow> Some m | _ \<Rightarrow> d)
       in map_option (\<lambda>m. (rcmd_info_create m)\<lparr>iruser := (case r of None \<Rightarrow> None | Some r \<Rightarrow> snd (snd r))\<rparr>) m))"
proof -
  obtain st where st: "register_all ms stale rcmd_start rs = Some st"
    using register_all_first [OF assms] by blast
  show ?thesis using st rcmd_create_first [OF assms st] by blast
qed

theorem rcmd_first_registration_witness:
  "\<exists>st. register_all \<lparr>loaded = \<lambda>_. True, resolves = \<lambda>_. True\<rparr> ENOMEM rcmd_start
      [([Ranges ''n'' [(''1'', Some ''2'')] []], Some ''ssh'', Some ''bob''), ([Host ''n1''], Some ''rsh'', None)] = Some st \<and>
    rcmd_create (st\<lparr>default_rcmd_module := Some ''exec''\<rparr>) ''n1'' = Some ((rcmd_info_create ''ssh'')\<lparr>iruser := Some ''bob''\<rparr>) \<and>
    rcmd_create (st\<lparr>default_rcmd_module := Some ''exec''\<rparr>) ''x'' = Some (rcmd_info_create ''exec'')"
proof -
  let ?ms = "\<lparr>loaded = \<lambda>_. True, resolves = \<lambda>_. True\<rparr>"
  let ?rs = "[([Ranges ''n'' [(''1'', Some ''2'')] []], Some ''ssh'', Some ''bob''), ([Host ''n1''], Some ''rsh'', None)] :: registration list"
  have h: "concat (map item_hosts [Ranges ''n'' [(''1'', Some ''2'')] []]) = [''n1'', ''n2'']" by code_simp
  have "list_all (reg_ok ?ms) ?rs"
    using h by (simp add: reg_ok_def reg_hosts_def plain_def HL_SEP_def NUL_def span_ok_def number_def isdigit_def
        span_lo_def span_hi_def dec_val_def digit_val_def MAX_RANGES_def less_eq_char_def)
  from rcmd_first_registration [OF this, of ENOMEM] obtain st where st: "register_all ?ms ENOMEM rcmd_start ?rs = Some st"
    "\<And>d h. rcmd_create (st\<lparr>default_rcmd_module := d\<rparr>) h =
      (let r = find (\<lambda>r. h \<in> set (reg_hosts r)) ?rs;
           m = (case r of Some (_, Some m, _) \<Rightarrow> Some m | _ \<Rightarrow> d)
       in map_option (\<lambda>m. (rcmd_info_create m)\<lparr>iruser := (case r of None \<Rightarrow> None | Some r \<Rightarrow> snd (snd r))\<rparr>) m)" by blast
  have "reg_hosts (hd ?rs) = [''n1'', ''n2'']" using h by (simp add: reg_hosts_def)
  then show ?thesis using st by (simp add: reg_hosts_def Let_def rcmd_info_create_def)
qed

section \<open>The command line\<close>

text \<open>
  C1. The program as a whole: called as \<open>pdsh\<close> with \<open>-w\<close> and \<open>-x\<close>
  options and the words of a command, it hands \<open>dsh()\<close> the hosts taken in their order, less one
  occurrence for each time a host is left out, the words joined by blanks, and the default fan-out.
  So a host that was taken twice and left out once stays; if no host is taken twice, what is handed
  over are the hosts taken that are not left out. This is for well-formed targets with fewer than
  \<open>2 ^ 31\<close> hosts, of which one remains at least, and hosts left out that the list can look up
  (\<open>findable\<close>: the number at the end is at most \<open>2 ^ 25\<close>); nothing is set in the
  environment, the modules load and give a remote command, and the other modules, whose options are
  not used, name no hosts and change no options (\<open>idle_read\<close>, \<open>idle_postop\<close>).
\<close>

theorem pdsh_runs_command:
  assumes "opt_default (sys_env env) argv0 = Continues (DSH, ls, opt0)" "clean_env env"
    and "mod_load_modules DSH (mods_env env) (pdsh_module_dir env) opt0 \<lparr>module_list = [], letters = ls, init_calls = []\<rparr> = Continues (rc, mods)" "0 \<le> rc"
    and "\<forall>m\<in>set (module_list mods). mactive m \<longrightarrow>
      idle_read (pmod m) \<and> idle_postop (\<lambda>opt. connect_timeout opt = CONNECT_TIMEOUT) (pmod m)"
    and "rcmd_get_default_module (mod_rcmd_modules mods) rcmd_start = Some r" "resolves (mod_rcmd_modules mods) r"
    and "list_all targets_ok ts" "taken ts \<noteq> []"
      "length (concat (map item_hosts (taken ts))) < 2 ^ 31" "length (concat (map item_hosts (left ts))) < 2 ^ 31"
      "list_all (\<lambda>h. item_ok (Host h)) (concat (map item_hosts (taken ts)))"
      "list_all findable (concat (map item_hosts (left ts)))"
      "fold remove1 (concat (map item_hosts (left ts))) (concat (map item_hosts (taken ts))) \<noteq> []"
    and "plain_words ws" "ws \<noteq> []"
  shows "\<exists>opt hl. pdsh_main env argv0 (concat (map opt_words (map targets_optarg ts)) @ ws) = Some (Continues (RunDsh opt (dsh_args opt))) \<and>
    wcoll opt = Some hl \<and> hl_ok hl \<and>
    hosts hl = fold remove1 (concat (map item_hosts (left ts))) (concat (map item_hosts (taken ts))) \<and>
    (distinct (concat (map item_hosts (taken ts))) \<longrightarrow>
      hosts hl = filter (\<lambda>h. h \<notin> set (concat (map item_hosts (left ts)))) (concat (map item_hosts (taken ts)))) \<and>
    ocmd (dsh_args opt) = joined '' '' ws \<and> ofanout opt = DFLT_FANOUT"
  using pdsh_runs [OF assms] by (auto simp: fold_remove1_distinct)

text \<open>
  What the modules of the repository do when all options have been read and theirs have not been
  used: \<open>exec\<close> looks at the connect timeout only, \<open>ssh\<close> changes no option, and the
  modules for groups, genders and the state of nodes have nothing to do without targets.
\<close>

lemma modules_idle:
  "connect_timeout opt = CONNECT_TIMEOUT \<Longrightarrow> mod_exec_postop opt = 0"
  "wcoll opt = None \<Longrightarrow> group_postop qs read st opt = Some (Continues (0, opt))"
  "wcoll opt = None \<Longrightarrow> genders_postop qs g sys ms stale opt gst = Some (Continues (opt, gst))"
  "wcoll opt = None \<Longrightarrow> mod_nodeupdown_postop lib verify opt = Some (Continues opt)"
  "gexgroups st = None \<Longrightarrow> group_postop qs read st opt = Some (Continues (0, opt))"
  "ggroups st = None \<Longrightarrow> read_group_wcoll qs read st opt = Some (Continues None)"
  by (simp_all add: mod_exec_postop_def group_postop_def genders_postop_def mod_nodeupdown_postop_def
      read_group_wcoll_def split: option.split)

text \<open>A system with one module, \<open>/lib/ssh.so\<close>, which has a function to call after all options\<close>

definition demo_pm :: pdsh_module where
  "demo_pm = \<lparr>ptype = Some ''rcmd'', pname = Some ''ssh'', ppers = {DSH, PCP}, pinit = Some 0, pread = None,
     ppostop = Some (\<lambda>opt. (mod_exec_postop opt, opt)), prcmd = True,
     ptable = [\<lparr>oletter = CHR ''g'', oarg = True, opers = {DSH}, ofun = \<lambda>opt c a. (0, opt)\<rparr>]\<rparr>"

definition demo_stat :: "string \<Rightarrow> fstat option" where
  "demo_stat path =
    (if path = ''/lib/ssh.so'' \<or> path = ''/usr/bin/pdsh'' \<or> path = ''/usr/bin/pdcp''
     then Some \<lparr>is_reg = True, is_dir = False, owner = 0, world_writable = False, sticky = False, file_id = (1, 9)\<rparr>
     else if path = ''/lib''
     then Some \<lparr>is_reg = False, is_dir = True, owner = 0, world_writable = False, sticky = False, file_id = (1, 5)\<rparr>
     else if path = ''/'' \<or> path = ''/lib/..''
     then Some \<lparr>is_reg = False, is_dir = True, owner = 0, world_writable = False, sticky = False, file_id = (1, 2)\<rparr>
     else None)"

definition demo_main_env :: main_env where
  "demo_main_env =
    \<lparr>hosts_env = demo_wcoll_env,
     sys_env = \<lparr>getenv = \<lambda>_. None, getcwd = None, access_ok = \<lambda>_. True, self_pw = Some (''me'', 1000),
       pw_shell = \<lambda>_. None, login_name_sysconf = 32\<rparr>,
     mods_env = \<lparr>stat = demo_stat, getuid = 1000,
       readdir = \<lambda>d. if d = ''/lib'' then Some [''.'', ''ssh.so''] else None,
       dlopen = \<lambda>f. if f = ''/lib/ssh.so'' then Some (Some demo_pm, None) else None\<rparr>,
     geteuid = 1000, pdsh_module_dir = ''/lib''\<rparr>"

definition demo_mods :: mod_state where
  "demo_mods = \<lparr>module_list = [\<lparr>mfile = ''/lib/ssh.so'', mprio = 100, mactive = True, pmod = demo_pm\<rparr>],
     letters = init_pdsh_options DSH @ ''g:'', init_calls = [''/lib/ssh.so'']\<rparr>"

lemma init_DSH: "init_pdsh_options DSH = ''hLNKR:M:t:cqf:w:x:l:u:bI:dVT:QSk''"
  by code_simp

lemma demo_default:
  "\<exists>opt0. opt_default (sys_env demo_main_env) ''/usr/bin/pdsh'' = Continues (DSH, init_pdsh_options DSH, opt0) \<and>
    local_path opt0 = Some ''/usr/bin/pdsh'' \<and> misc_modules opt0 = None"
proof -
  have "xbasename ''/usr/bin/pdsh'' = ''pdsh''" by code_simp
  then show ?thesis
    by (simp add: opt_default_def demo_main_env_def program_kind_def copy_username_def login_name_max_len_def find_path_def)
qed

lemma demo_permissions: "path_permissions_ok (mods_env demo_main_env) ''/lib'' 0"
proof -
  have l: "take MAXPATHLEN ''/lib'' = ''/lib''" by (intro take_all) (simp add: MAXPATHLEN_def)
  show ?thesis
    unfolding path_permissions_ok_def l
    by (simp add: demo_main_env_def demo_stat_def path_permissions_loop.simps [of _ _ _ "''/lib''"]
        path_permissions_loop.simps [of _ _ _ "''/lib/..''"] dir_permission_error_def MAXPATHLEN_def)
qed

lemma demo_load:
  assumes "local_path opt0 = Some ''/usr/bin/pdsh''" "misc_modules opt0 = None"
  shows "mod_load_modules DSH (mods_env demo_main_env) (pdsh_module_dir demo_main_env) opt0
    \<lparr>module_list = [], letters = init_pdsh_options DSH, init_calls = []\<rparr> = Continues (0, demo_mods)"
proof -
  have d: "pdsh_module_dir demo_main_env = ''/lib''" "readdir (mods_env demo_main_env) ''/lib'' = Some [''.'', ''ssh.so'']"
    "stat (mods_env demo_main_env) = demo_stat" by (simp_all add: demo_main_env_def)
  have ld: "load_entries DSH (mods_env demo_main_env) 0 ''/lib'' [''.'', ''ssh.so''] 0 [] =
      (1, [\<lparr>mfile = ''/lib/ssh.so'', mprio = 100, mactive = False, pmod = demo_pm\<rparr>])"
    by (simp add: demo_main_env_def demo_stat_def file_secure_def mod_load_dynamic_def is_loaded_def mod_register_def
        mod_get_module_def mod_create_def DEFAULT_MODULE_PRIORITY_def demo_pm_def)
  have "mod_load_dynamic_modules DSH (mods_env demo_main_env) ''/lib'' (Some ''/usr/bin/pdsh'') [] =
      Continues (0, [\<lparr>mfile = ''/lib/ssh.so'', mprio = 100, mactive = False, pmod = demo_pm\<rparr>])"
    using demo_permissions ld d(2) by (simp add: mod_load_dynamic_modules_def d(3) demo_stat_def)
  then show ?thesis
    by (simp add: mod_load_modules_def d(1) assms insertion_sort_def mod_initialize_modules_by_name_def mod_init_list_def
        mod_initialize_at_def mod_initialize_def opt_register_def demo_pm_def demo_mods_def init_DSH)
qed

lemma demo_passive:
  "\<forall>m\<in>set (module_list demo_mods). mactive m \<longrightarrow>
    idle_read (pmod m) \<and> idle_postop (\<lambda>opt. connect_timeout opt = CONNECT_TIMEOUT) (pmod m)"
  "rcmd_get_default_module (mod_rcmd_modules demo_mods) rcmd_start = Some ''ssh''" "resolves (mod_rcmd_modules demo_mods) ''ssh''"
  "clean_env demo_main_env" "plain_words [''ls'', ''-l'']"
  by (simp_all add: demo_mods_def demo_pm_def idle_read_def idle_postop_def mod_exec_postop_def
      mod_rcmd_modules_def mod_get_module_def description_match_def rcmd_get_default_module_def rcmd_start_def rcmd_rank_def clean_env_def demo_main_env_def plain_words_def)

lemma demo_argv: "concat (map opt_words (map targets_optarg demo_targets)) @ [''ls'', ''-l''] =
    [''-w'', ''n[1-3]'', ''-x'', ''n2'', ''-w'', ''n2'', ''ls'', ''-l'']"
  by code_simp

theorem pdsh_runs_command_witness:
  "\<exists>opt hl. pdsh_main demo_main_env ''/usr/bin/pdsh''
      [''-w'', ''n[1-3]'', ''-x'', ''n2'', ''-w'', ''n2'', ''ls'', ''-l''] = Some (Continues (RunDsh opt (dsh_args opt))) \<and>
    wcoll opt = Some hl \<and> hosts hl = [''n1'', ''n3'', ''n2''] \<and> ocmd (dsh_args opt) = ''ls -l'' \<and> ofanout opt = 32"
proof -
  obtain opt0 where o: "opt_default (sys_env demo_main_env) ''/usr/bin/pdsh'' = Continues (DSH, init_pdsh_options DSH, opt0)"
    "local_path opt0 = Some ''/usr/bin/pdsh''" "misc_modules opt0 = None" using demo_default by blast
  show ?thesis
    using pdsh_runs_command [OF o(1) demo_passive(4) demo_load [OF o(2,3)] _ demo_passive(1-3) demo_targets(1,2) _ _ _ _ _ demo_passive(5)]
      demo_targets(5,6)
    unfolding demo_argv demo_targets(3,4) by (auto simp: DFLT_FANOUT_def)
qed

text \<open>
  C21. If the options do not make the program the server or the client of a copy
  (\<open>-z\<close>, \<open>-Z\<close>), \<open>dsh()\<close> is only called with at least one host, with timeouts
  that are not negative, with a command, or for a copy with files and a destination, and with the
  fields of the options it uses.
\<close>

theorem dsh_called_with_hosts:
  assumes "pdsh_main env argv0 argv = Some (Continues (RunDsh opt d))"
    and "\<not> opt_pcp_server opt" "\<not> opt_pcp_client opt"
  shows "(\<exists>hl. wcoll opt = Some hl \<and> nhosts hl \<noteq> 0) \<and> 0 \<le> connect_timeout opt \<and> 0 \<le> command_timeout opt \<and>
    (cmd opt \<noteq> None \<or> outfile opt \<noteq> None \<and> infile_names (dsh_opt opt) \<noteq> []) \<and> d = dsh_args opt"
proof -
  obtain mods p opt1 v opt2 where v: "opt_verify mods (stat (mods_env env)) p opt1 = Continues (v, opt2)"
    and "RunDsh opt d = main_dispatch p v opt2"
    using pdsh_main_verified [OF assms(1)] by blast
  then have d: "v" "opt2 = opt" "d = dsh_args opt" "\<not> (p = PCP \<and> opt_pcp_server opt)" "\<not> (p = PCP \<and> opt_pcp_client opt)"
    "p = PCP \<or> cmd opt \<noteq> None"
    using main_dispatch_runs [of p v opt2 opt d] by simp_all
  note V = opt_verify_runs [OF v [unfolded d(2) eqTrueI [OF d(1)]] d(4,5)]
  have "p = DSH \<or> p = PCP" by (cases p) simp_all
  then show ?thesis using V d(3,6) assms(2,3) by blast
qed

lemma demo_run:
  "\<exists>opt. pdsh_main demo_main_env ''/usr/bin/pdsh''
      [''-w'', ''n[1-3]'', ''-x'', ''n2'', ''-w'', ''n2'', ''ls'', ''-l''] = Some (Continues (RunDsh opt (dsh_args opt))) \<and>
    \<not> opt_pcp_server opt \<and> \<not> opt_pcp_client opt"
proof -
  obtain opt0 where o: "opt_default (sys_env demo_main_env) ''/usr/bin/pdsh'' = Continues (DSH, init_pdsh_options DSH, opt0)"
    "local_path opt0 = Some ''/usr/bin/pdsh''" "misc_modules opt0 = None" using demo_default by blast
  show ?thesis
    using pdsh_runs [OF o(1) demo_passive(4) demo_load [OF o(2,3)] _ demo_passive(1-3) demo_targets(1,2) _ _ _ _ _ demo_passive(5)]
      demo_targets(5,6)
    unfolding demo_argv demo_targets(3,4) by auto
qed

theorem dsh_called_with_hosts_witness:
  "\<exists>opt. pdsh_main demo_main_env ''/usr/bin/pdsh''
      [''-w'', ''n[1-3]'', ''-x'', ''n2'', ''-w'', ''n2'', ''ls'', ''-l''] = Some (Continues (RunDsh opt (dsh_args opt))) \<and>
    (\<exists>hl. wcoll opt = Some hl \<and> nhosts hl \<noteq> 0) \<and> 0 \<le> connect_timeout opt"
  using demo_run dsh_called_with_hosts by blast

text \<open>
  C37. Options and the words behind them are found again: each letter with its argument, in
  order, and the rest from the first word that is not an option.
\<close>

theorem getopt_finds_options:
  assumes "list_all (opt_known ostr) os" "plain_words ws"
  shows "getopt ostr (concat (map opt_words os) @ ws) = (os, ws)"
  using assms(2) unfolding plain_words_def by (rule getopt_words [OF assms(1)])

theorem getopt_finds_options_witness:
  "getopt (init_pdsh_options DSH) [''-f'', ''8'', ''-S'', ''ls'', ''-l''] = ([(CHR ''f'', Some ''8''), (CHR ''S'', None)], [''ls'', ''-l''])"
proof -
  have "list_all (opt_known (init_pdsh_options DSH)) [(CHR ''f'', Some ''8''), (CHR ''S'', None)]"
    "plain_words [''ls'', ''-l'']" by code_simp+
  from getopt_finds_options [OF this] show ?thesis by (simp add: opt_words_def)
qed

text \<open>
  The numbers of \<open>-f\<close> and of the environment: exactly white space, a sign and digits
  below $2^{64}$ are accepted, and the empty string; plain digits below $2^{31}$ have their value.
\<close>

theorem option_numbers:
  "(string_to_int val = None \<longleftrightarrow> val \<noteq> [] \<and>
      \<not> (\<exists>ws sg ds. val = ws @ sg @ ds \<and> list_all isspace ws \<and> sg \<in> {[], ''-'', ''+''} \<and> number ds \<and> dec_val ds < 2 ^ 64)) \<and>
    (number val \<and> dec_val val < 2 ^ 31 \<longrightarrow> string_to_int val = Some (int (dec_val val)))"
  using string_to_int_None [of val] string_to_int_number [of val] unfolding signed_number_def by blast

theorem option_numbers_witness: "string_to_int ''32'' = Some 32 \<and> string_to_int ''3x'' = None"
proof
  have "number ''32''" "dec_val ''32'' = 32" by (simp_all add: number_def isdigit_def dec_val_def digit_val_def less_eq_char_def)
  then show "string_to_int ''32'' = Some 32" using option_numbers [of "''32''"] by simp
  have "\<not> (\<exists>ws sg ds. ''3x'' = ws @ sg @ ds \<and> list_all isspace ws \<and> sg \<in> {[], ''-'', ''+''} \<and> number ds \<and> dec_val ds < 2 ^ 64)"
  proof (intro notI, elim exE conjE)
    fix ws sg ds assume e: "''3x'' = ws @ sg @ ds" "number ds"
    then have "last ''3x'' = last ds" "ds \<noteq> []" by (auto simp: number_def)
    then have "isdigit (CHR ''x'')" using e(2) by (auto simp: number_def list_all_iff dest!: last_in_set)
    then show False by (simp add: isdigit_def less_eq_char_def)
  qed
  then show "string_to_int ''3x'' = None" using option_numbers [of "''3x''"] by blast
qed

text \<open>
  C19. Every module in the list comes from a regular file of the module directory that belongs to
  root, the user or the owner of the program, and that not everyone can write; the directory and
  all directories above it belong to them and are not open to everyone, unless sticky. No two modules
  have the same type and name.
\<close>

theorem modules_trusted:
  assumes "mod_load_modules p env dir opt \<lparr>module_list = [], letters = ls0, init_calls = []\<rparr> = Continues (rc, st)"
    and "length dir \<le> MAXPATHLEN"
  shows "distinct (map (\<lambda>m. (ptype (pmod m), pname (pmod m))) (module_list st)) \<and>
    (\<forall>m\<in>set (module_list st). \<exists>prog pst. local_path opt = Some prog \<and> stat env prog = Some pst \<and>
      dirs_safe env (owner pst) dir \<and> (\<exists>name. mfile m = dir @ ''/'' @ name) \<and>
      (\<exists>sb. stat env (mfile m) = Some sb \<and> is_reg sb \<and> owner sb \<in> {0, getuid env, owner pst} \<and> \<not> world_writable sb))"
proof -
  have "trusted env ow sb \<longleftrightarrow> owner sb \<in> {0, getuid env, ow}" for ow sb by (auto simp: trusted_def)
  then show ?thesis
    using modules_loaded [OF assms] unfolding mod_key_def by simp
qed

theorem modules_trusted_witness:
  "dirs_safe (mods_env demo_main_env) 0 ''/lib''"
proof -
  obtain opt0 :: options where o: "local_path opt0 = Some ''/usr/bin/pdsh''" "misc_modules opt0 = None" using demo_default by blast
  have "pdsh_module_dir demo_main_env = ''/lib''" "stat (mods_env demo_main_env) = demo_stat" by (simp_all add: demo_main_env_def)
  then show ?thesis
    using modules_trusted [OF demo_load [OF o]] o(1) by (auto simp: demo_mods_def MAXPATHLEN_def demo_stat_def)
qed

text \<open>
  Of several modules with the same type and name the first of those with the highest priority
  stays, whatever is loaded between them.
\<close>

theorem highest_priority_stays:
  assumes "\<forall>m\<in>set xs. ptype (pmod m) \<noteq> None \<and> pname (pmod m) \<noteq> None \<and> p \<in> ppers (pmod m)"
  shows "case mod_get_module (register_mods p xs) typ name of
      None \<Rightarrow> \<forall>m\<in>set xs. \<not> description_match typ name m
    | Some m \<Rightarrow> \<exists>us vs. filter (description_match typ name) xs = us @ m # vs \<and>
        (\<forall>x\<in>set us. mprio x < mprio m) \<and> (\<forall>x\<in>set vs. mprio x \<le> mprio m)"
  using foldl_better [of "filter (description_match typ name) xs"]
  unfolding get_register_mods [OF assms] by (auto simp: filter_empty_conv split: option.splits)

definition demo_copies :: "module_components list" where
  "demo_copies = [mod_create ''a'' demo_pm None, mod_create ''b'' demo_pm (Some 200), mod_create ''c'' demo_pm (Some 200)]"

theorem highest_priority_stays_witness:
  "mod_get_module (register_mods DSH demo_copies) ''rcmd'' ''ssh'' = Some (mod_create ''b'' demo_pm (Some 200))"
proof -
  have "\<forall>m\<in>set demo_copies. ptype (pmod m) \<noteq> None \<and> pname (pmod m) \<noteq> None \<and> DSH \<in> ppers (pmod m)"
    by (simp add: demo_copies_def mod_create_def demo_pm_def)
  note H = highest_priority_stays [OF this, of "''rcmd''" "''ssh''"]
  have f: "filter (description_match ''rcmd'' ''ssh'') demo_copies = demo_copies"
    by (simp add: demo_copies_def description_match_def mod_create_def demo_pm_def)
  show ?thesis
    using H unfolding f by (auto simp: demo_copies_def mod_create_def description_match_def demo_pm_def DEFAULT_MODULE_PRIORITY_def
        Cons_eq_append_conv split: option.splits)
qed

text \<open>
  C20. No two active modules have a letter of the command line in common, and none has a letter of
  the program itself; the module that has a letter gets it, unless an active module has the same letter
  for the other program only.
\<close>

theorem option_letters_owned:
  assumes "mod_load_modules p env dir opt \<lparr>module_list = [], letters = ls0, init_calls = []\<rparr> = Continues (rc, st)"
    and "length dir \<le> MAXPATHLEN"
    and "i < length (module_list st)" "c \<in> owned p (module_list st ! i)"
  shows "c \<notin> set ls0 \<and> c \<in> set (letters st) \<and> (\<forall>j<i. c \<notin> owned p (module_list st ! j)) \<and>
    ((\<forall>m\<in>set (module_list st). mactive m \<longrightarrow> (\<forall>q\<in>set (ptable (pmod m)). oletter q = c \<longrightarrow> p \<in> opers q)) \<longrightarrow>
      (\<exists>q. mod_find_opt (module_list st ! i) c = Some q \<and> mod_process_opt st o' c arg = ofun q o' c arg))"
proof -
  have o: "owned_ok p ls0 st" by (rule mod_load_modules_owned [OF assms(1,2)])
  then have "c \<notin> set ls0 \<and> c \<in> set (letters st) \<and> (\<forall>j<i. c \<notin> owned p (module_list st ! j))"
    using assms(3,4) unfolding owned_ok_def by blast
  then show ?thesis using mod_process_opt_owner [OF o assms(3,4)] by blast
qed

theorem option_letters_owned_witness:
  "CHR ''g'' \<notin> set (init_pdsh_options DSH) \<and>
    (\<exists>q. mod_find_opt (module_list demo_mods ! 0) (CHR ''g'') = Some q \<and> (\<forall>opt. mod_process_opt demo_mods opt (CHR ''g'') (Some ''all'') = ofun q opt (CHR ''g'') (Some ''all'')))"
proof -
  obtain opt0 :: options where o: "local_path opt0 = Some ''/usr/bin/pdsh''" "misc_modules opt0 = None" using demo_default by blast
  have f: "0 < length (module_list demo_mods)" "CHR ''g'' \<in> owned DSH (module_list demo_mods ! 0)"
    "\<forall>m\<in>set (module_list demo_mods). mactive m \<longrightarrow> (\<forall>q\<in>set (ptable (pmod m)). oletter q = CHR ''g'' \<longrightarrow> DSH \<in> opers q)"
    "length (pdsh_module_dir demo_main_env) \<le> MAXPATHLEN"
    by (simp_all add: demo_mods_def demo_pm_def owned_def letters_for_simps MAXPATHLEN_def demo_main_env_def)
  note r = option_letters_owned [OF demo_load [OF o] f(4,1,2)]
  have "CHR ''g'' \<notin> set (init_pdsh_options DSH)" using r by (rule conjunct1)
  moreover have e: "\<exists>q. mod_find_opt (module_list demo_mods ! 0) (CHR ''g'') = Some q \<and>
      mod_process_opt demo_mods opt (CHR ''g'') (Some ''all'') = ofun q opt (CHR ''g'') (Some ''all'')" for opt
    using r [THEN conjunct2, THEN conjunct2, THEN conjunct2, THEN mp, OF f(3)] .
  obtain q where q: "mod_find_opt (module_list demo_mods ! 0) (CHR ''g'') = Some q" using e by blast
  have "mod_process_opt demo_mods opt (CHR ''g'') (Some ''all'') = ofun q opt (CHR ''g'') (Some ''all'')" for opt
    using e [of opt] q by simp
  ultimately show ?thesis using q by blast
qed

section \<open>Running a command\<close>


definition demo_opt :: opt_t where
  "demo_opt = \<lparr>labels = True, separate_stderr = False, kill_on_fail = False, ret_remote_rc = True,
     ocmd = ''id'', dshpath = None, getstat = None, preserve = False, recursive = False,
     reverse_copy = False, remote_program_path = ''/usr/bin/pdcp'', infile_names = [], outfile_name = ''/tmp''\<rparr>"

definition demo_env :: err_env where
  "demo_env = \<lparr>prog = ''pdsh'', this_host = ''admin'', keep_host_domain = False, strerror = ''''\<rparr>"

definition demo_thd :: thd where
  "demo_thd = the (thd_init (\<lambda>_. True) demo_opt True ''n1.x'')"

lemma demo_thd:
  "thd_init (\<lambda>_. True) demo_opt True ''n1.x'' = Some demo_thd" "tlabels demo_thd" "thost demo_thd = ''n1.x''"
  by (simp_all add: demo_thd_def thd_init_def cbuf_create_def demo_opt_def)

lemma demo_labelled: "labelled demo_env demo_thd s = ''n1: '' @ s"
  using demo_thd by (simp add: labelled_def percent_S_def demo_env_def to_tmpstr_def LINEBUFSIZE_def isdigit_iff)


text \<open>
  C10. With \<open>-S\<close> the remote shell appends a line with its exit status to the output of
  the command. If the output ends with a newline and its lines hold neither a NUL nor the mark,
  each is shown behind the label, the appended line is not shown, and its number, below \<open>2 ^ 31\<close>, becomes
  the return code of the host; a number of zero leaves that to \<open>rcmd_destroy\<close>, whose result becomes the
  return code if it is positive. Each line with one more chunk of 1000 bytes fits the buffer of
  131072 bytes (\<open>stream_ok\<close>); \<open>xpoll\<close> reports the two descriptors in any order and
  combination, often enough and disturbed by no signal that ends the command; reads fail at most for
  lack of data; \<open>-k\<close> is off and memory suffices.
\<close>

theorem remote_rc_reported:
  assumes "thd_init mem opt True host = Some th0" "\<not> kill_on_fail opt" "\<And>n. mem n"
    and "0 \<le> fd" "separate_stderr opt \<Longrightarrow> 0 \<le> efd"
    and "stream_ok 131072 (fd_rest oev)" "reads_ok oev" "reads_ok eev"
    and "undisturbed polls" "work oev < out_reports polls" "separate_stderr opt \<Longrightarrow> work eev < err_reports polls"
    and "fd_rest oev = concat ls @ RC_MAGIC @ dec n @ [LF]" "line_list ls" "list_all plain_line ls" "n < 2 ^ 31"
  shows "\<exists>th eev' ws w.
    rsh_thread mem env t0 polls oev eev drc (th0\<lparr>tfd := fd, tefd := efd\<rparr>) = Some (Finished DSH_DONE, th, [], eev', ws) \<and>
    filter (\<lambda>w. fst w = Out) ws = map (\<lambda>l. (Out, Some (labelled env th0 l))) ls @ w \<and> said w = [] \<and>
    trc th = (if n = 0 \<and> drc > 0 then drc else int n)"
proof -
  let ?rc = "RC_MAGIC @ dec n @ [LF]"
  have "split_lines (fd_rest oev) = (ls @ [?rc], [])"
    using split_lines_concat [of "ls @ [?rc]" "[]"] assms(12,13) rc_line_ok [of n] by (simp add: line_list_def)
  from host_output [OF assms(1-11) this, of env t0 drc] show ?thesis
    using rc_line [OF assms(15)] shown_plain_lines [OF assms(14,13)] by (simp add: Let_def)
qed

theorem remote_rc_reported_witness:
  "\<exists>th eev' ws w. rsh_thread (\<lambda>_. True) demo_env demo_thd (replicate 20 (PollReady True False))
      [RdData [CHR ''a'', LF], RdData ''XXRETCODE:1'', RdData [CHR ''2'', LF]] [] 0 (demo_thd\<lparr>tfd := 3, tefd := -1\<rparr>)
      = Some (Finished DSH_DONE, th, [], eev', ws) \<and>
    filter (\<lambda>w. fst w = Out) ws = [(Out, Some (''n1: a'' @ [LF]))] @ w \<and> said w = [] \<and> trc th = 12"
proof -
  let ?ev = "[RdData [CHR ''a'', LF], RdData ''XXRETCODE:1'', RdData [CHR ''2'', LF]]"
  have d: "dec 12 = ''12''" by code_simp
  have f: "fd_rest ?ev = concat [[CHR ''a'', LF]] @ RC_MAGIC @ dec 12 @ [LF]" by (simp add: d RC_MAGIC_def)
  have "split_lines (fd_rest ?ev) = ([[CHR ''a'', LF], ''XXRETCODE:12'' @ [LF]], [])" by (simp add: LF_def)
  then have "stream_ok 131072 (fd_rest ?ev)" unfolding stream_ok_def by (simp add: CBUF_CHUNK_def)
  moreover have "reads_ok ?ev" "reads_ok []" by (simp_all add: reads_ok_def)
  moreover have "undisturbed (replicate 20 (PollReady True False))" by (simp add: undisturbed_def)
  moreover have "work ?ev < out_reports (replicate 20 (PollReady True False))"
    by (simp add: work_def pauses_def out_reports_def)
  moreover have "line_list [[CHR ''a'', LF]]" "list_all plain_line [[CHR ''a'', LF]]"
    by (auto simp: line_list_def plain_line_def RC_MAGIC_def NUL_def LF_def intro: exI [of _ "''a''"])
  ultimately show ?thesis
    using remote_rc_reported [OF demo_thd(1) _ _ _ _ _ _ _ _ _ _ f, of 3 "-1" "[]" "replicate 20 (PollReady True False)" demo_env demo_thd 0]
    by (simp add: demo_labelled) (simp add: demo_opt_def)
qed

text \<open>
  Behind output without a final newline the first digit of the code is skipped: a command that
  prints \<open>failed\<close> and exits with 1 is taken to have exited with 0.
\<close>

theorem extract_rc_loses_digit: "extract_rc (''failed'' @ RC_MAGIC @ dec 1 @ [LF]) = (0, ''failed'' @ [LF])"
  by (rule extract_rc_digit_lost) simp_all

text \<open>
  Two hosts given with domains have different labels: \<open>%S\<close> keeps the domain as
  soon as two of the hosts have different ones.
\<close>

theorem labels_distinguish_hosts:
  assumes "h \<in> set hs" "h' \<in> set hs" "h \<noteq> h'" "strchr h (CHR ''.'')" "strchr h' (CHR ''.'')"
    and "length h < LINEBUFSIZE" "length h' < LINEBUFSIZE"
  shows "verr (label_env hs env) ''%S: %s'' [Str h, Str s] \<noteq> verr (label_env hs env) ''%S: %s'' [Str h', Str s]"
  using percent_S_distinct [OF assms(1,2,4-7), of env] assms(3) by (auto simp: verr_labelled)

theorem labels_distinguish_hosts_witness:
  "verr (label_env [''n1.a'', ''n2.a'', ''n1.b''] demo_env) ''%S: %s'' [Str ''n1.a'', Str ''x'']
    \<noteq> verr (label_env [''n1.a'', ''n2.a'', ''n1.b''] demo_env) ''%S: %s'' [Str ''n1.b'', Str ''x'']"
  by (rule labels_distinguish_hosts) (simp_all add: LINEBUFSIZE_def)

text \<open>
  C34. The exit value with \<open>-S\<close> is the largest return code of the hosts if none failed
  to connect; otherwise it is the largest among 254 and the codes of the hosts from the last
  failed one on, so larger codes of the hosts before it are forgotten.
\<close>

theorem dsh_rc_largest:
  "ret_remote_rc opt \<Longrightarrow> \<forall>th\<in>set ys. tstate th \<noteq> DSH_FAILED \<Longrightarrow>
    dsh_rc opt ys = Max (insert 0 (trc ` set ys)) \<and>
    (tstate f = DSH_FAILED \<longrightarrow> dsh_rc opt (xs @ f # ys) = Max (insert RC_FAILED (trc ` set (f # ys))))"
  using rc_loop_max [of ys 0] rc_loop_failed [of f ys 0 xs] by (simp add: dsh_rc_def)

theorem dsh_rc_largest_witness:
  "dsh_rc demo_opt [demo_thd\<lparr>trc := 255\<rparr>, demo_thd\<lparr>tstate := DSH_FAILED\<rparr>, demo_thd\<lparr>tstate := DSH_DONE, trc := 3\<rparr>] = 254"
  using dsh_rc_largest [of demo_opt "[demo_thd\<lparr>tstate := DSH_DONE, trc := 3\<rparr>]" "demo_thd\<lparr>tstate := DSH_FAILED\<rparr>" "[demo_thd\<lparr>trc := 255\<rparr>]"]
  by (simp add: demo_opt_def RC_FAILED_def demo_thd_def thd_init_def cbuf_create_def)

section \<open>The fan-out\<close>

text \<open>
  C7. As long as \<open>pthread_cond_wait\<close> in the loop that starts the threads has not
  returned without a signal, at most \<open>fanout\<close> threads have been started and have not ended,
  and that is the number \<open>threadcount\<close> holds: in every reachable state, whatever the order of
  the steps of the main thread, the threads and the signals thread, the requests to cancel, and the
  wakeups of the last loop, with or without a signal. The fan-out has to be positive. (After a
  wakeup without a signal, which POSIX allows and the loop does not expect, the bound can fail.)
\<close>

theorem fanout_respected:
  assumes "reachable fanout n norcmd m es s" "0 < fanout" "SpuriousWakeup \<notin> set es"
  shows "finite (active (wpc s)) \<and> threadcount s = card (active (wpc s)) \<and> int (card (active (wpc s))) \<le> fanout"
  using finite_active [OF reachable_inv [OF assms(1)]] sched_invD(1) [OF reachable_inv [OF assms(1)]]
    reachable_room [OF assms] by (simp add: room_inv_def)

definition demo_wait :: dsh_state where
  "demo_wait = (started 1)\<lparr>mpc := Wait 1\<rparr>"

lemma demo_wait: "\<exists>m. reachable 1 4 (\<lambda>_. False) m [] demo_wait"
  using waiting_reachable [of 1 4] by (simp add: demo_wait_def)

theorem fanout_respected_witness: "threadcount demo_wait = 1 \<and> int (card (active (wpc demo_wait))) \<le> 1"
proof -
  obtain m where r: "reachable 1 4 (\<lambda>_. False) m [] demo_wait" using demo_wait by blast
  have "threadcount demo_wait = 1" by (simp add: demo_wait_def started_def)
  then show ?thesis using fanout_respected [OF r] by simp
qed

text \<open>
  C33. In every reachable state the entry of each host agrees with its thread, or has been
  canceled: a thread that has not run is new, one that connects is connecting, one behind
  \<open>_update_connect_state\<close> is reading, one that has ended is done or failed, and the entry of
  each may be canceled instead, since the signals thread may set it behind its test; a thread that
  skips the command has been canceled. Without a request to cancel no entry is canceled but those
  whose \<open>rcmd_create\<close> failed. For those no thread is started, and a host the main thread
  has passed without starting a thread for it is canceled.
\<close>

theorem thread_entries_agree:
  assumes "reachable fanout n norcmd m es s"
  shows "entry_ok (wpc s i) (wst s i) \<and>
    (CancelRequest \<notin> set es \<and> wst s i = DSH_CANCELED \<longrightarrow> norcmd i) \<and>
    (norcmd i \<longrightarrow> wpc s i = Idle \<and> wst s i = DSH_CANCELED) \<and>
    (i < main_pos n (mpc s) \<and> wpc s i = Idle \<longrightarrow> wst s i = DSH_CANCELED) \<and>
    (main_pos n (mpc s) \<le> i \<longrightarrow> wpc s i = Idle)"
  using sched_invD [OF reachable_inv [OF assms]] reachable_calm [OF assms] reachable_bad [OF assms]
  unfolding calm_inv_def bad_inv_def by blast

theorem thread_entries_agree_witness:
  "entry_ok (wpc demo_wait 0) (wst demo_wait 0) \<and> wst demo_wait 0 \<noteq> DSH_CANCELED \<and> wpc demo_wait 1 = Idle"
proof -
  obtain m where r: "reachable 1 4 (\<lambda>_. False) m [] demo_wait" using demo_wait by blast
  show ?thesis using thread_entries_agree [OF r, of 0] thread_entries_agree [OF r, of 1]
    by (simp add: demo_wait_def)
qed

text \<open>
  C8. Every run ends, and only with the main thread behind its last loop, if the fan-out is
  positive: whatever the interleaving, \<open>dsh()\<close> takes at most \<open>16 n + 4\<close> steps for
  \<open>n\<close> hosts, and \<open>2 n + 1\<close> more for each request to cancel and each wakeup without a
  signal; a reachable state in which the main thread is not done has a step; and once it is done
  the thread of every host has ended, or the host has no thread and its entry is canceled.
\<close>

theorem dsh_finishes:
  assumes "reachable fanout n norcmd m es s" "0 < fanout"
  shows "m \<le> 16 * n + 4 + (2 * n + 1) * length es \<and>
    (mpc s \<noteq> MainDone \<longrightarrow> (\<exists>t. run_step fanout n s t)) \<and>
    (mpc s = MainDone \<longrightarrow> (\<forall>i<n. wpc s i = Gone \<and> wst s i \<in> {DSH_DONE, DSH_FAILED, DSH_CANCELED} \<or>
       wpc s i = Idle \<and> wst s i = DSH_CANCELED))"
  using steps_bounded [OF assms(1)] progress [OF assms] all_handled [OF assms(1)] by auto

theorem dsh_finishes_witness: "\<exists>m t. reachable 1 4 (\<lambda>_. False) m [] demo_wait \<and> m \<le> 68 \<and> run_step 1 4 demo_wait t"
proof -
  obtain m where r: "reachable 1 4 (\<lambda>_. False) m [] demo_wait" using demo_wait by blast
  have "mpc demo_wait \<noteq> MainDone" by (simp add: demo_wait_def)
  then show ?thesis using dsh_finishes [OF r zero_less_one] r by auto
qed

text \<open>
  The options do not reject a fan-out that is not positive: with zero the main thread
  waits for ever before the first host, unless a wakeup without a signal comes, and with a negative
  one all hosts are started at once.
\<close>

theorem fanout_not_positive:
  "(0 < n \<longrightarrow> (\<exists>m s. reachable 0 n (\<lambda>_. False) m [] s \<and> mpc s \<noteq> MainDone \<and> (\<forall>t. \<not> run_step 0 n s t))) \<and>
   (fanout < 0 \<longrightarrow> (\<exists>m s. reachable fanout n (\<lambda>_. False) m [] s \<and> card (active (wpc s)) = n))"
proof -
  have "\<exists>m s. reachable 0 n (\<lambda>_. False) m [] s \<and> mpc s \<noteq> MainDone \<and> (\<forall>t. \<not> run_step 0 n s t)" if n: "0 < n"
  proof -
    obtain m where "reachable 0 n (\<lambda>_. False) m [] ((started 0)\<lparr>mpc := Wait 0\<rparr>)"
      using waiting_reachable [OF n] by auto
    then show ?thesis using stuck_zero [of n] by (intro exI [of _ m] exI [of _ "(started 0)\<lparr>mpc := Wait 0\<rparr>"]) simp
  qed
  moreover have "\<exists>m s. reachable fanout n (\<lambda>_. False) m [] s \<and> card (active (wpc s)) = n" if f: "fanout < 0"
  proof -
    obtain m where "reachable fanout n (\<lambda>_. False) m [] (started n)"
      using started_reachable [of n n fanout] f by force
    moreover have "card (active (wpc (started n))) = n" by (simp add: active_started)
    ultimately show ?thesis by blast
  qed
  ultimately show ?thesis by blast
qed

theorem fanout_not_positive_witness:
  "(\<exists>m s. reachable 0 3 (\<lambda>_. False) m [] s \<and> (\<forall>t. \<not> run_step 0 3 s t)) \<and>
   (\<exists>m s. reachable (-1) 3 (\<lambda>_. False) m [] s \<and> card (active (wpc s)) = 3)"
  using fanout_not_positive [of 3 "-1"] by auto

text \<open>
  The bound does not survive a wakeup of \<open>pthread_cond_wait\<close> without a signal:
  after one, the threads of all remaining hosts can run at once.
\<close>

theorem spurious_wakeup_overruns:
  assumes "k < n"
  shows "\<exists>m s. reachable (int k) n (\<lambda>_. False) m [SpuriousWakeup] s \<and> card (active (wpc s)) = n"
  using overrun_reachable [OF assms] active_started [of n] card_lessThan by metis

theorem spurious_wakeup_overruns_witness:
  "\<exists>m s. reachable 2 100 (\<lambda>_. False) m [SpuriousWakeup] s \<and> card (active (wpc s)) = 100"
  using spurious_wakeup_overruns [of 2 100] by simp

text \<open>
  A cancellation can be lost: a host whose thread has been created but has not yet run is
  canceled with the pending ones, and then connects all the same.
\<close>

theorem cancellation_lost:
  "\<exists>m s t. reachable 1 4 (\<lambda>_. False) m [CancelRequest] s \<and> wst s 0 = DSH_CANCELED \<and>
     run_step 1 4 s t \<and> wst t 0 = DSH_RCMD \<and> wpc t 0 = Connecting"
proof -
  let ?d = "demo_wait\<lparr>spc := Scan 0\<rparr>" and ?m = "demo_wait\<lparr>spc := Mark 0\<rparr>"
  let ?c = "cancel_entry 0 ?m"
  obtain m where "reachable 1 4 (\<lambda>_. False) m [] demo_wait" using demo_wait by blast
  moreover have "outside_step CancelRequest demo_wait ?d" by (rule outside_step.cancel) (simp add: demo_wait_def started_def)
  ultimately have r: "reachable 1 4 (\<lambda>_. False) m [CancelRequest] ?d"
    using reachable.outside [of 1 4 "\<lambda>_. False" m "[]" demo_wait] by simp
  have "run_step 1 4 ?d (test_entry 0 ?d)" by (rule run_step.scan) simp_all
  moreover have "test_entry 0 ?d = ?m" by (simp add: test_entry_def demo_wait_def started_def)
  moreover have "run_step 1 4 ?m ?c" by (rule run_step.mark) simp
  ultimately have "reachable 1 4 (\<lambda>_. False) (Suc (Suc m)) [CancelRequest] ?c" using r by (metis reachable.run)
  moreover have "wst ?c 0 = DSH_CANCELED" "wpc ?c 0 = Created"
    by (simp_all add: cancel_entry_def demo_wait_def started_def)
  ultimately show ?thesis
    using run_step.connect [of ?c 0 1 4] by (intro exI conjI) (auto simp: thread_sets_def)
qed

text \<open>
  A request to cancel can hide a failure: the signals thread finds a host connecting, the
  connection fails, and the signals thread then sets the entry, which a thread about to end no
  longer changes. With \<open>-S\<close> the host does not count as failed.
\<close>

theorem cancellation_hides_failure:
  "\<exists>m s t. reachable 1 1 (\<lambda>_. False) m [CancelRequest] s \<and> wpc s 0 = Finishing \<and> wst s 0 = DSH_FAILED \<and>
     run_step 1 1 s t \<and> wpc t 0 = Finishing \<and> wst t 0 = DSH_CANCELED"
proof -
  let ?f = "thread_sets DSH_FAILED Finishing 0 racing"
  obtain m where "reachable 1 1 (\<lambda>_. False) m [CancelRequest] racing" using racing_reachable by blast
  moreover have "run_step 1 1 racing ?f" by (rule run_step.refused) (simp add: racing_def thread_sets_def)
  ultimately have "reachable 1 1 (\<lambda>_. False) (Suc m) [CancelRequest] ?f" by (blast intro: reachable.run)
  moreover have "run_step 1 1 ?f (cancel_entry 0 ?f)"
    by (rule run_step.mark) (simp add: racing_def thread_sets_def)
  moreover have "wpc ?f 0 = Finishing \<and> wst ?f 0 = DSH_FAILED" by (simp add: thread_sets_def)
  moreover have "wpc (cancel_entry 0 ?f) 0 = Finishing \<and> wst (cancel_entry 0 ?f) 0 = DSH_CANCELED"
    by (simp add: cancel_entry_def thread_sets_def)
  ultimately show ?thesis by blast
qed

section \<open>Copying files\<close>








text \<open>
  C2. A copy into a fresh place arrives: if every operation of the receiving system succeeds, takes
  blocks whole and keeps the permission bits it is asked for (a second write clearing no more of the
  others than the first), the target is a directory and nothing stands at or below the paths that are to be built, then what
  \<open>pcp_client\<close> sends for the files and directories named by the user makes \<open>pcp_server\<close>
  build exactly those trees below the target, with their data, with their times if these are kept,
  and with the permission bits of their modes, less the mask unless they are kept; what becomes of
  the set-user-ID, set-group-ID and sticky bits is up to the system. Every answer of the server is
  an acknowledgement and is read by the client, which returns 0. The trees are of plain files and
  directories that can be read and have distinct last names, names without a newline or NUL, records
  shorter than \<open>BUFSIZ\<close>, paths shorter than \<open>MAXPATHNAMELEN\<close>, and, if times are kept, times
  that are not before 1970 (with one that is, the copy ends); every write of the client takes at
  least one byte.
\<close>

theorem pcp_copies_trees:
  assumes "os_fine os" "mkdir_fine os" "soutfile svr \<noteq> []" "is_directory fs (soutfile svr)" "cpreserve pcp = spreserve svr"
    and "list_all2 (\<lambda>p t. tree_at cos p t \<and> caccess cos p \<and> tree_fits (spreserve svr) (copy_name pcp p) t) files ts"
    and "distinct (map (copy_name pcp) files)"
    and "\<forall>p\<in>set files. fresh fs (soutfile svr @ ''/'' @ copy_name pcp p)"
    and "list_all (\<lambda>w. 0 < w) ws" "perms_kept os"
  shows "\<exists>pfs cst st. pcp_expand_dirs cos files = Some (Continues pfs) \<and>
    pcp_client cos pcp pfs \<lparr>cresp = concat (map (reply_bytes env) (replies st)), csent = [], cwrites = ws\<rparr> = Continues (0, cst) \<and>
    cresp cst = [] \<and>
    pcp_server os svr \<lparr>sinput = csent cst, sfiles = fs, replies = [], bufcnt = 0\<rparr> = Some st \<and>
    sinput st = [] \<and> set (replies st) = {Ack} \<and>
    sfiles st = fs ++ map_of (concat (map2 (\<lambda>p t. nodes os svr (soutfile svr @ ''/'' @ copy_name pcp p) t) files ts)) \<and>
    (\<forall>np m. dir_mode os svr np m mod 512 = create_mode os svr m mod 512 \<and>
       file_mode os svr np m mod 512 = create_mode os svr m mod 512)"
  using pcp_copy [OF assms(1-9)] perms_kept_modes [OF assms(10)] by metis

text \<open>
  The tree \<open>d\<close> with one file, copied into \<open>/t\<close>, on a system that drops the
  set-user-ID and set-group-ID bits of new directories and of files that are written
\<close>

definition demo_sink :: "(file_map \<Rightarrow> string \<Rightarrow> bool) \<Rightarrow> sink_os" where
  "demo_sink mk = \<lparr>mkdir_ok = mk, open_ok = \<lambda>_ _. True, chmod_ok = \<lambda>_. True, utimes_ok = \<lambda>_. True,
     truncate_ok = \<lambda>_. True, write_len = \<lambda>_ _ n. n, blksize = \<lambda>_. Some 4096, malloc_ok = \<lambda>_. True,
     reply_ok = \<lambda>_. True, sumask = 18, mkdir_mode = \<lambda>_ m. m mod 1024, open_mode = \<lambda>_ m. m,
     chmod_mode = \<lambda>_ m. m, written_mode = \<lambda>_ m. m mod 1024\<rparr>"

definition demo_client :: client_os where
  "demo_client = \<lparr>cstat = \<lambda>p.
       if p = ''d'' then Some \<lparr>cmode = 493, cmtime = 7, catime = 8, ckind = KDir [''.'', ''..'', ''f'']\<rparr>
       else if p = ''d/f'' then Some \<lparr>cmode = 436, cmtime = 5, catime = 6, ckind = KFile ''data''\<rparr> else None,
     caccess = \<lambda>_. True, copen = \<lambda>_. True\<rparr>"

definition demo_tree :: ftree where
  "demo_tree = FDir 493 7 8 [(''f'', FFile 436 5 6 ''data'')]"

definition demo_files :: file_map where
  "demo_files = [''/t'' \<mapsto> Directory 493 None]"

lemma demo_sink: "os_fine (demo_sink mk)" "mkdir_fine (demo_sink (\<lambda>_ _. True))" "perms_kept (demo_sink mk)"
proof -
  have "(512::nat) dvd 1024" by simp
  then have "m mod 1024 mod 512 = m mod 512" for m :: nat by (rule mod_mod_cancel)
  then show "perms_kept (demo_sink mk)" by (simp add: demo_sink_def perms_kept_def)
qed (simp_all add: demo_sink_def os_fine_def mkdir_fine_def)

definition demo_svr :: "bool \<Rightarrow> pcp_svr" where
  "demo_svr pr = \<lparr>spreserve = pr, starget_is_dir = True, soutfile = ''/t''\<rparr>"

definition demo_cli :: "bool \<Rightarrow> pcp_cli" where
  "demo_cli pr = \<lparr>cpreserve = pr, cclient = False, chost = ''n1''\<rparr>"

lemma demo_svr: "soutfile (demo_svr pr) = ''/t''" "spreserve (demo_svr pr) = pr" "is_directory demo_files ''/t''"
  by (simp_all add: demo_svr_def demo_files_def is_directory_def)

lemma demo_copy_name: "copy_name (demo_cli pr) ''d'' = ''d''" "cpreserve (demo_cli pr) = pr"
  by (simp_all add: copy_name_def demo_cli_def xbasename_def)

lemma demo_tree: "tree_at demo_client ''d'' demo_tree" "caccess demo_client ''d''" "fresh demo_files ''/t/d''"
    "tree_fits pr ''d'' demo_tree"
proof -
  show "tree_at demo_client ''d'' demo_tree"
    by (simp add: demo_tree_def demo_client_def MAXPATHNAMELEN_def EXIT_SUBDIR_FILENAME_def)
  show "caccess demo_client ''d''" "fresh demo_files ''/t/d''"
    by (simp_all add: demo_client_def fresh_def demo_files_def)
  have l: "length (times_part True 7 8) < BUFSIZ" "length (times_part True 5 6) < BUFSIZ"
    "length (dir_record \<lparr>cmode = 493, cmtime = 7, catime = 8, ckind = KOther\<rparr> ''d'') < BUFSIZ"
    "length (file_record \<lparr>cmode = 436, cmtime = 5, catime = 6, ckind = KOther\<rparr> (length ''data'') ''f'') < BUFSIZ"
    by code_simp+
  then show "tree_fits pr ''d'' demo_tree"
    by (simp add: demo_tree_def name_ok_def xbasename_def NUL_def LF_def times_part_def)
qed

theorem pcp_copies_trees_witness:
  "\<exists>pfs cst st. pcp_expand_dirs demo_client [''d''] = Some (Continues pfs) \<and>
    pcp_client demo_client (demo_cli True) pfs \<lparr>cresp = concat (map (reply_bytes demo_env) (replies st)), csent = [], cwrites = [3, 1]\<rparr> =
      Continues (0, cst) \<and>
    pcp_server (demo_sink (\<lambda>_ _. True)) (demo_svr True) \<lparr>sinput = csent cst, sfiles = demo_files, replies = [], bufcnt = 0\<rparr> = Some st \<and>
    sfiles st ''/t/d/f'' = Some (Reg 436 (Some ((6, 0), (5, 0))) ''data'')"
proof -
  let ?os = "demo_sink (\<lambda>_ _. True)"
  have "nodes ?os (demo_svr True) ''/t/d'' demo_tree =
      [(''/t/d'', Directory 493 (Some ((8, 0), (7, 0)))), (''/t/d/f'', Reg 436 (Some ((6, 0), (5, 0))) ''data'')]"
    by (simp add: demo_tree_def node_times_def dir_mode_def file_mode_def demo_sink_def create_mode_def demo_svr_def)
  then show ?thesis
    using pcp_copies_trees [where os = ?os and svr = "demo_svr True" and fs = demo_files and pcp = "demo_cli True"
        and cos = demo_client and files = "[''d'']" and ts = "[demo_tree]" and ws = "[3, 1]" and env = demo_env]
      demo_sink demo_tree(1-3) demo_tree(4) [of True]
    by (simp add: demo_svr demo_copy_name) (elim exE conjE, intro exI conjI, assumption+, simp)
qed

text \<open>
  C23. Whatever the client sends and whatever fails, \<open>pcp_server\<close> returns: directories nest
  only as deep as there are records, and the end of the stream ends every level. What it has not
  read is no more than what was sent.
\<close>

theorem pcp_server_ends:
  "\<exists>st'. pcp_server os svr st = Some st' \<and> length (sinput st') \<le> length (sinput st)"
  by (rule pcp_server_returns)

text \<open>
  C39. The client ignores that a directory has been refused and sends its entries all the same:
  the file in it is created beside the refused directory, in the target itself, and the record that
  ends the directory ends the server.
\<close>

theorem refused_directory_misplaces:
  assumes "os_fine os" "\<not> mkdir_ok os fs (soutfile svr @ ''/'' @ copy_name pcp p)"
    and "soutfile svr \<noteq> []" "is_directory fs (soutfile svr)" "\<not> cpreserve pcp" "\<not> spreserve svr"
    and "tree_at cos p t" "caccess cos p" "tree_fits False (copy_name pcp p) t" "t = FDir m mt ac [(n, FFile m' mt' ac' bs)]"
    and "fs (soutfile svr @ ''/'' @ copy_name pcp p) = None" "fs (soutfile svr @ ''/'' @ n) = None"
    and "LF \<notin> set (soutfile svr)" "LF \<notin> set (strerror env)"
      "length (soutfile svr) + length (copy_name pcp p) + length (strerror env) + 4 < BUFSIZ" "list_all (\<lambda>w. 0 < w) ws"
  shows "\<exists>pfs cst st. pcp_expand_dirs cos [p] = Some (Continues pfs) \<and>
    pcp_client cos pcp pfs \<lparr>cresp = concat (map (reply_bytes env) (replies st)), csent = [], cwrites = ws\<rparr> = Continues (0, cst) \<and>
    cresp cst = [] \<and>
    pcp_server os svr \<lparr>sinput = csent cst, sfiles = fs, replies = [], bufcnt = 0\<rparr> = Some st \<and>
    sinput st = [] \<and> sfiles st = fs(soutfile svr @ ''/'' @ n \<mapsto> Reg (file_mode os svr (soutfile svr @ ''/'' @ n) m') None bs)"
  by (rule refused_directory [OF assms])

lemma demo_plain: "\<not> mkdir_ok (demo_sink (\<lambda>_ _. False)) fs p" "LF \<notin> set ''/t''" "strerror demo_env = []" "9 < BUFSIZ"
    "demo_files ''/t/d'' = None" "demo_files ''/t/f'' = None"
  by (simp_all add: demo_sink_def BUFSIZ_def LF_def demo_files_def demo_env_def)

theorem refused_directory_misplaces_witness:
  "\<exists>pfs cst st. pcp_expand_dirs demo_client [''d''] = Some (Continues pfs) \<and>
    pcp_client demo_client (demo_cli False) pfs \<lparr>cresp = concat (map (reply_bytes demo_env) (replies st)), csent = [], cwrites = []\<rparr> =
      Continues (0, cst) \<and>
    pcp_server (demo_sink (\<lambda>_ _. False)) (demo_svr False) \<lparr>sinput = csent cst, sfiles = demo_files, replies = [], bufcnt = 0\<rparr> = Some st \<and>
    sfiles st ''/t/d'' = None \<and> sfiles st ''/t/f'' \<noteq> None"
  using refused_directory_misplaces [where os = "demo_sink (\<lambda>_ _. False)" and fs = demo_files and svr = "demo_svr False"
      and pcp = "demo_cli False" and p = "''d''" and cos = demo_client and t = demo_tree and n = "''f''"
      and env = demo_env and ws = "[]"]
    demo_sink(1) demo_tree(1-3) demo_tree(4) [of False] demo_plain
  by (simp add: demo_svr demo_copy_name demo_tree_def) (elim exE conjE, intro exI conjI, assumption+, simp_all add: demo_files_def)

section \<open>Modules\<close>

text \<open>
  C26. The program the module \<open>ssh\<close> executes for a host, when the environment sets no arguments
  for it and the process can be started: the connect timeout, the default flags, the option for the user if it is not the local one
  (pdsh.1 says always), the host, a path for remote commands if one is set (here one without percent signs and
  not empty), and then the words of the command, or the command as one word. In every one of these words \<open>%h\<close>, \<open>%u\<close> and
  \<open>%n\<close> are replaced by the host, the remote user and the rank and \<open>%%\<close> by a percent
  sign, so a remote \<open>date +%h\<close> prints the name of the host; no word ends with a single percent
  sign, and an empty one ends the arguments. The output of the process is read from the sockets it was
  started with.
\<close>

theorem ssh_command_line:
  assumes "pipecmd_start os = Some (fd, efd, pid)"
    and "getenv sys ''PDSH_SSH_ARGS_APPEND'' = None" "getenv sys ''PDSH_SSH_ARGS'' = None"
    and "plain_args paths" "paths = (case dshpath (dsh_opt opt) of None \<Rightarrow> [] | Some path \<Rightarrow> [path])"
    and "words = (if p = PCP \<or> remote_argv = [] then [command] else remote_argv)"
    and "\<forall>w\<in>set words. expand_word ahost remuser rank w \<noteq> None"
  shows "\<exists>pi. sshcmd os p (mod_ssh_postop sys opt) remote_argv ahost locuser remuser command rank = Some (Some pi) \<and>
    pipath pi = ''ssh'' \<and> pipecmd_stdoutfd (Some pi) = fd \<and> pipecmd_stderrfd (Some pi) = efd \<and>
    exec_argv (piargs pi) = ''ssh'' # ssh_timeout_args (connect_timeout opt) @ [''-2'', ''-a'', ''-x''] @
      (if locuser \<noteq> remuser then [''-l'' @ remuser] else []) @ ahost # paths @ expand_words ahost remuser rank words"
  using ssh_executed [OF assms] by (simp add: pipecmd_stdoutfd_def pipecmd_stderrfd_def)

definition demo_pipe :: pipe_os where
  "demo_pipe = \<lparr>std_pair = Some (4, 5), err_pair = Some (6, 7), forked = Some 99\<rparr>"

lemma demo_pipe: "pipecmd_start demo_pipe = Some (4, 6, 99)"
  by (simp add: pipecmd_start_def demo_pipe_def)

theorem ssh_command_line_witness:
  "\<exists>opt pi. connect_timeout opt = 10 \<and>
    sshcmd demo_pipe DSH (mod_ssh_postop (sys_env demo_main_env) opt) [''date'', ''+%h%%'', ''-u''] ''n1'' ''me'' ''you'' ''date'' 3 =
      Some (Some pi) \<and>
    exec_argv (piargs pi) =
      [''ssh'', ''-oConnectTimeout=10'', ''-2'', ''-a'', ''-x'', ''-lyou'', ''n1'', ''PATH=/bin;'', ''date'', ''+n1%'', ''-u'']"
proof -
  obtain opt0 where "opt_default (sys_env demo_main_env) ''/usr/bin/pdsh'' = Continues (DSH, init_pdsh_options DSH, opt0)"
    using demo_default by blast
  define opt where "opt = opt0\<lparr>connect_timeout := 10, dsh_opt := demo_opt\<lparr>dshpath := Some ''PATH=/bin;''\<rparr>\<rparr>"
  have o: "connect_timeout opt = 10" "[''PATH=/bin;''] = (case dshpath (dsh_opt opt) of None \<Rightarrow> [] | Some path \<Rightarrow> [path])"
    by (simp_all add: opt_def)
  have e: "getenv (sys_env demo_main_env) v = None" for v by (simp add: demo_main_env_def)
  have p: "plain_args [''PATH=/bin;'']" by (simp add: plain_args_def)
  have t: "ssh_timeout_args 10 = [''-oConnectTimeout=10'']" by code_simp
  have x: "expand_words ''n1'' ''you'' 3 [''date'', ''+%h%%'', ''-u''] = [''date'', ''+n1%'', ''-u'']"
    by (simp add: expand_words_def)
  show ?thesis
    using ssh_command_line [OF demo_pipe e e p o(2), of "[''date'', ''+%h%%'', ''-u'']" DSH "[''date'', ''+%h%%'', ''-u'']" "''date''" "''n1''"
        "''you''" 3 "''me''"] o(1) t x
    by (intro exI [of _ opt]) auto
qed

text \<open>
  C40. An empty word in the command of the module \<open>exec\<close> ends the arguments: it becomes
  the null pointer at which \<open>execvp\<close> stops, and the words behind it are lost.
\<close>

theorem exec_empty_word_ends:
  assumes "pipecmd_start os = Some (fd, efd, pid)" "plain_args ws" "plain_args rest"
  shows "\<exists>p. execcmd os (path # ws @ [] # rest) ahost remuser command rank = Some (Some p) \<and>
    exec_argv (piargs p) = xbasename path # ws"
  by (rule exec_stops_at_empty [OF assms])

theorem exec_empty_word_ends_witness:
  "\<exists>p. execcmd demo_pipe [''/bin/echo'', ''a'', [], ''b''] ''n1'' ''me'' ''echo'' 0 = Some (Some p) \<and>
    exec_argv (piargs p) = [''echo'', ''a'']"
proof -
  have "xbasename ''/bin/echo'' = ''echo''" by code_simp
  then show ?thesis
    using exec_empty_word_ends [OF demo_pipe, of "[''a'']" "[''b'']" "''/bin/echo''" "''n1''" "''me''" "''echo''" 0]
    by (simp add: plain_args_def)
qed

text \<open>
  C30. The signals thread aborts the job at the first interrupt in batch mode, and otherwise
  exactly when an interrupt follows the previous one within \<open>INTR_TIME\<close>; what happens
  between them, a stop or the cancellation of threads included, does not matter.
\<close>

theorem interrupts_abort:
  "(signals_thread env tm st last_intr evs \<noteq> None) =
    (if st then interrupts evs \<noteq> [] else close_pair (last_intr # interrupts evs))"
  by (rule signals_thread_aborts)


definition demo_group :: hostlist where
  "demo_group = \<lparr>hranges = [hostrange_create ''n'' 2 4 1], nhosts = 3, ilist = []\<rparr>"

lemma demo_group_hosts: "hosts demo_group = [''n2'', ''n3'', ''n4'']"
  by code_simp

lemma demo_group: "hl_ok demo_group"
  unfolding hl_ok_def demo_group_hosts
  by (simp add: demo_group_def range_ok_def hr_ok_def names_ok_def hostrange_create_def NUL_def)











end
